(* ===== verification/Prelude.thy ===== *)
theory Prelude
  imports Main "HOL-Library.Multiset" "HOL-Library.Word" "HOL-Library.Monad_Syntax"
begin

text \<open>
  Shared vocabulary of the development: the collections of rewrite rules the component
  theories fill, the loop combinator that models a C++ \<^verbatim>\<open>while\<close> loop whose body may fail
  or never return, and generic facts on lists, function updates and options.
\<close>

section \<open>Collections\<close>

named_theorems links_simps \<open>reading the link fields after a pointer operation\<close>
named_theorems step_intros \<open>introduction rules of the step relations\<close>

section \<open>Addresses\<close>

text \<open>
  Objects that the code links through pointers (list nodes, callbacks, operation states)
  are identified by their address. An address is a natural number; the model never computes
  with it, it only compares.
\<close>

type_synonym addr = nat

section \<open>Loops\<close>

text \<open>
  \<open>loop_while b c s\<close> is \<^verbatim>\<open>while (b) c;\<close> on the state \<open>s\<close>. \<open>None\<close> is a loop that does not
  return: the body got stuck, or the guard holds for ever.
\<close>

partial_function (option) loop_while ::
  "('s \<Rightarrow> bool) \<Rightarrow> ('s \<Rightarrow> 's option) \<Rightarrow> 's \<Rightarrow> 's option" where
  "loop_while b c s = (if b s then Option.bind (c s) (loop_while b c) else Some s)"

declare loop_while.simps [code]

lemma loop_while_done [simp]: "\<not> b s \<Longrightarrow> loop_while b c s = Some s"
  by (simp add: loop_while.simps)

lemma loop_while_step:
  "b s \<Longrightarrow> c s = Some s' \<Longrightarrow> loop_while b c s = loop_while b c s'"
  by (subst loop_while.simps) simp

text \<open>Total correctness: an invariant that the body keeps and a measure that it decreases.\<close>

lemma loop_while_total:
  assumes inv: "I s"
    and body: "\<And>s. I s \<Longrightarrow> b s \<Longrightarrow> \<exists>s'. c s = Some s' \<and> I s' \<and> m s' < (m s :: nat)"
  shows "\<exists>s'. loop_while b c s = Some s' \<and> I s' \<and> \<not> b s'"
  using inv
proof (induction "m s" arbitrary: s rule: less_induct)
  case less
  show ?case
  proof (cases "b s")
    case True
    with body less.prems obtain s' where s': "c s = Some s'" "I s'" "m s' < m s"
      by blast
    with less.hyps have "\<exists>t. loop_while b c s' = Some t \<and> I t \<and> \<not> b t"
      by blast
    with True s' show ?thesis
      by (simp add: loop_while_step)
  next
    case False
    with less.prems show ?thesis by simp
  qed
qed

text \<open>Partial correctness, for a loop that may not return.\<close>

lemma loop_while_partial:
  assumes ret: "loop_while b c s = Some t"
    and inv: "I s"
    and body: "\<And>s s'. I s \<Longrightarrow> b s \<Longrightarrow> c s = Some s' \<Longrightarrow> I s'"
  shows "I t \<and> \<not> b t"
proof -
  have "b = b \<longrightarrow> c = c \<longrightarrow> I s \<longrightarrow> I t \<and> \<not> b t"
  proof (rule loop_while.raw_induct
      [where P = "\<lambda>b' c' s t. b' = b \<longrightarrow> c' = c \<longrightarrow> I s \<longrightarrow> I t \<and> \<not> b t", OF _ ret])
    fix lw :: "('a \<Rightarrow> bool) \<Rightarrow> ('a \<Rightarrow> 'a option) \<Rightarrow> 'a \<Rightarrow> 'a option" and b' c' s t
    assume IH: "\<And>b' c' s t. lw b' c' s = Some t \<Longrightarrow>
        b' = b \<longrightarrow> c' = c \<longrightarrow> I s \<longrightarrow> I t \<and> \<not> b t"
      and eq: "(if b' s then Option.bind (c' s) (lw b' c') else Some s) = Some t"
    show "b' = b \<longrightarrow> c' = c \<longrightarrow> I s \<longrightarrow> I t \<and> \<not> b t"
    proof (intro impI)
      assume "b' = b" and "c' = c" and "I s"
      with eq show "I t \<and> \<not> b t"
        by (cases "b s"; cases "c s") (auto dest: IH body)
    qed
  qed
  with inv show ?thesis by blast
qed

text \<open>A loop whose every state again satisfies the guard never returns.\<close>

lemma loop_while_diverges:
  assumes "I s"
    and "\<And>s. I s \<Longrightarrow> b s"
    and "\<And>s s'. I s \<Longrightarrow> c s = Some s' \<Longrightarrow> I s'"
  shows "loop_while b c s = None"
proof (rule ccontr)
  assume "loop_while b c s \<noteq> None"
  then obtain t where "loop_while b c s = Some t" by auto
  from loop_while_partial [OF this, of I] assms show False by blast
qed

text \<open>
  Simulation: two loops whose guards agree and whose bodies are related step by step return
  related results, and one returns exactly if the other does.
\<close>

lemma loop_while_sim_aux:
  assumes ret: "loop_while b c s = Some s'" and "R s t"
    and guard: "\<And>s t. R s t \<Longrightarrow> b s = b' t"
    and body: "\<And>s t. R s t \<Longrightarrow> b s \<Longrightarrow> rel_option R (c s) (c' t)"
  shows "\<exists>t'. loop_while b' c' t = Some t' \<and> R s' t'"
proof -
  have "b = b \<longrightarrow> c = c \<longrightarrow> (\<forall>t. R s t \<longrightarrow> (\<exists>t'. loop_while b' c' t = Some t' \<and> R s' t'))"
  proof (rule loop_while.raw_induct
      [where P = "\<lambda>b0 c0 s s'. b0 = b \<longrightarrow> c0 = c \<longrightarrow>
         (\<forall>t. R s t \<longrightarrow> (\<exists>t'. loop_while b' c' t = Some t' \<and> R s' t'))", OF _ ret], intro impI allI)
    fix lw :: "('a \<Rightarrow> bool) \<Rightarrow> ('a \<Rightarrow> 'a option) \<Rightarrow> 'a \<Rightarrow> 'a option" and b0 c0 s s' t
    assume IH: "\<And>b0 c0 s s'. lw b0 c0 s = Some s' \<Longrightarrow> b0 = b \<longrightarrow> c0 = c \<longrightarrow>
        (\<forall>t. R s t \<longrightarrow> (\<exists>t'. loop_while b' c' t = Some t' \<and> R s' t'))"
      and eq: "(if b0 s then Option.bind (c0 s) (lw b0 c0) else Some s) = Some s'"
      and b0: "b0 = b" "c0 = c" and R: "R s t"
    show "\<exists>t'. loop_while b' c' t = Some t' \<and> R s' t'"
    proof (cases "b s")
      case True
      with eq b0 obtain u where u: "c s = Some u" "lw b c u = Some s'"
        by (auto simp: Option.bind_eq_Some_conv)
      with body [OF R True] obtain v where "c' t = Some v" "R u v"
        by (auto simp: option_rel_Some1)
      moreover from this u have "\<exists>t'. loop_while b' c' v = Some t' \<and> R s' t'"
        using IH by blast
      ultimately show ?thesis
        using guard [OF R] True by (simp add: loop_while_step)
    next
      case False
      with eq b0 guard [OF R] R show ?thesis by simp
    qed
  qed
  with \<open>R s t\<close> show ?thesis by blast
qed

lemma loop_while_sim:
  assumes R: "R s t"
    and guard: "\<And>s t. R s t \<Longrightarrow> b s = b' t"
    and body: "\<And>s t. R s t \<Longrightarrow> b s \<Longrightarrow> rel_option R (c s) (c' t)"
  shows "rel_option R (loop_while b c s) (loop_while b' c' t)"
proof (cases "loop_while b c s")
  case (Some s')
  have "\<exists>t'. loop_while b' c' t = Some t' \<and> R s' t'"
    by (rule loop_while_sim_aux [OF Some R guard body])
  with Some show ?thesis by auto
next
  case None
  have "loop_while b' c' t = None"
  proof (rule ccontr)
    assume "loop_while b' c' t \<noteq> None"
    then obtain t' where t': "loop_while b' c' t = Some t'" by auto
    have "\<exists>s'. loop_while b c s = Some s' \<and> R\<inverse>\<inverse> t' s'"
      by (rule loop_while_sim_aux [OF t', where R = "R\<inverse>\<inverse>"])
        (use R guard body in \<open>auto simp: option.rel_conversep\<close>)
    with None show False by simp
  qed
  with None show ?thesis by simp
qed

end
