(* ===== verification/Intrusive_List.thy ===== *)
theory Intrusive_List
  imports Prelude
begin

text \<open>
  \<^verbatim>\<open>nstd::container::intrusive_list\<close>: a circular doubly linked list through link fields
  embedded in the elements, with a sentinel \<^verbatim>\<open>d_head\<close> inside the list object. The heap is
  the pair of link fields of every node, addressed by the node; a list object is the address
  of its \<^verbatim>\<open>d_head\<close>. The abstraction \<open>ring s h xs\<close> says that the nodes \<open>xs\<close> hang off the
  sentinel \<open>h\<close> in this order. The theory shows that each operation implements the list
  operation it stands for, that it leaves other lists alone, and where the code does not
  (moving from an empty list, \<^verbatim>\<open>swap\<close>).
\<close>

section \<open>Model\<close>

record links =
  d_next :: "addr \<Rightarrow> addr"
  d_prev :: "addr \<Rightarrow> addr"

definition il_connect :: "addr \<Rightarrow> addr \<Rightarrow> links \<Rightarrow> links" where
  "il_connect prev next s =
     (let s1 = s\<lparr>d_next := (d_next s)(prev := next)\<rparr>
      in s1\<lparr>d_prev := (d_prev s1)(next := prev)\<rparr>)"

definition il_new :: "addr \<Rightarrow> links \<Rightarrow> links" where
  "il_new h s = il_connect h h s"

definition il_move :: "addr \<Rightarrow> addr \<Rightarrow> links \<Rightarrow> links" where
  "il_move this other s =
     (let s1 = il_connect this (d_next s other) s
      in il_connect (d_prev s1 other) this s1)"

definition il_assign :: "addr \<Rightarrow> addr \<Rightarrow> links \<Rightarrow> links" where
  "il_assign this other s =
     (let s1 = il_connect this (d_next s other) s
      in il_connect (d_prev s1 other) this s1)"

definition il_insert :: "addr \<Rightarrow> addr \<Rightarrow> links \<Rightarrow> addr \<times> links" where
  "il_insert pos obj s =
     (let s1 = s\<lparr>d_next := (d_next s)(obj := pos)\<rparr>;
          s2 = s1\<lparr>d_prev := (d_prev s1)(obj := d_prev s1 pos)\<rparr>;
          s3 = s2\<lparr>d_prev := (d_prev s2)(pos := obj)\<rparr>;
          s4 = s3\<lparr>d_next := (d_next s3)(d_prev s3 obj := obj)\<rparr>
      in (obj, s4))"

definition il_end :: "addr \<Rightarrow> addr" where
  "il_end h = h"

definition il_begin :: "addr \<Rightarrow> links \<Rightarrow> addr" where
  "il_begin h s = d_next s h"

definition il_incr :: "addr \<Rightarrow> links \<Rightarrow> addr" where
  "il_incr it s = d_next s it"

definition il_push_back :: "addr \<Rightarrow> addr \<Rightarrow> links \<Rightarrow> links" where
  "il_push_back h obj s = snd (il_insert (il_end h) obj s)"

definition il_erase :: "addr \<Rightarrow> links \<Rightarrow> links" where
  "il_erase pos s =
     (let s1 = s\<lparr>d_next := (d_next s)(d_prev s pos := d_next s pos)\<rparr>;
          s2 = s1\<lparr>d_prev := (d_prev s1)(d_next s1 pos := d_prev s1 pos)\<rparr>;
          s3 = s2\<lparr>d_prev := (d_prev s2)(pos := pos)\<rparr>
      in s3\<lparr>d_next := (d_next s3)(pos := pos)\<rparr>)"

definition il_pop_front :: "addr \<Rightarrow> links \<Rightarrow> links" where
  "il_pop_front h s = il_erase (il_begin h s) s"

definition il_front :: "addr \<Rightarrow> links \<Rightarrow> addr" where
  "il_front h s = d_next s h"

definition il_empty :: "addr \<Rightarrow> links \<Rightarrow> bool" where
  "il_empty h s = (h = d_next s h)"

definition il_swap :: "addr \<Rightarrow> addr \<Rightarrow> links \<Rightarrow> links" where
  "il_swap this other s =
     (let s1 = s\<lparr>d_next := (d_next s)(this := d_next s other, other := d_next s this)\<rparr>
      in s1\<lparr>d_prev := (d_prev s1)(this := d_prev s1 other, other := d_prev s1 this)\<rparr>)"

section \<open>Abstraction\<close>

fun linked :: "links \<Rightarrow> addr list \<Rightarrow> bool" where
  "linked s (x # y # zs) = (d_next s x = y \<and> d_prev s y = x \<and> linked s (y # zs))"
| "linked s _ = True"

definition ring :: "links \<Rightarrow> addr \<Rightarrow> addr list \<Rightarrow> bool" where
  "ring s h xs \<longleftrightarrow> distinct (h # xs) \<and> linked s (h # xs @ [h])"

lemma linked_Cons:
  "linked s (x # ys) \<longleftrightarrow> linked s ys \<and> (ys \<noteq> [] \<longrightarrow> d_next s x = hd ys \<and> d_prev s (hd ys) = x)"
  by (cases ys) auto

lemma linked_append:
  "linked s (xs @ ys) \<longleftrightarrow> linked s xs \<and> linked s ys
     \<and> (xs \<noteq> [] \<longrightarrow> ys \<noteq> [] \<longrightarrow> d_next s (last xs) = hd ys \<and> d_prev s (hd ys) = last xs)"
  by (induction xs) (auto simp: linked_Cons)

lemma linked_cong:
  assumes "\<And>x. x \<in> set (butlast xs) \<Longrightarrow> d_next s' x = d_next s x"
    and "\<And>x. x \<in> set (tl xs) \<Longrightarrow> d_prev s' x = d_prev s x"
  shows "linked s' xs = linked s xs"
  using assms by (induction s xs rule: linked.induct) auto

text \<open>The neighbours of a position in a linked segment, and what an update at its ends keeps.\<close>

lemma linked_next_upd:
  "x \<notin> set (butlast xs) \<Longrightarrow> linked (s\<lparr>d_next := (d_next s)(x := y)\<rparr>) xs = linked s xs"
  by (rule linked_cong) auto

lemma linked_prev_upd:
  "x \<notin> set (tl xs) \<Longrightarrow> linked (s\<lparr>d_prev := (d_prev s)(x := y)\<rparr>) xs = linked s xs"
  by (rule linked_cong) auto

lemma ring_distinct: "ring s h xs \<Longrightarrow> distinct xs \<and> h \<notin> set xs"
  by (simp add: ring_def)

lemma ring_Nil_iff: "ring s h [] \<longleftrightarrow> d_next s h = h \<and> d_prev s h = h"
  by (auto simp: ring_def)

lemma ring_next: "ring s h xs \<Longrightarrow> d_next s h = hd (xs @ [h])"
  by (cases xs) (auto simp: ring_def)

lemma ring_empty_iff: "ring s h xs \<Longrightarrow> il_empty h s \<longleftrightarrow> xs = []"
  by (cases xs) (auto simp: ring_def il_empty_def)

lemma ring_front: "ring s h (x # xs) \<Longrightarrow> il_front h s = x"
  by (simp add: ring_def il_front_def)

text \<open>
  Around a position: a segment of the ring with the predecessor \<open>p\<close> and the successor \<open>q\<close>
  of the place where an operation works. Rings are rebuilt from such segments.
\<close>

lemma ring_split:
  "ring s h (xs @ ys) \<longleftrightarrow> distinct (h # xs @ ys)
     \<and> linked s (h # xs)
     \<and> d_next s (last (h # xs)) = hd (ys @ [h])
     \<and> d_prev s (hd (ys @ [h])) = last (h # xs)
     \<and> linked s (ys @ [h])"
  using linked_append [of s "h # xs" "ys @ [h]"] by (auto simp: ring_def)

section \<open>Functional correctness\<close>

lemma ring_new: "ring (il_new h s) h []"
  by (simp add: il_new_def il_connect_def ring_Nil_iff)

text \<open>
  Rewriting the fields of the two nodes at the seam of two segments keeps the inside of both
  segments: \<open>p\<close> ends the left one, \<open>q\<close> begins the right one and \<open>x\<close> lies in neither.
\<close>

lemma linked_seam_left:
  assumes "d_next t = (d_next s)(x := a, last zs := b)" and "d_prev t = (d_prev s)(x := c, q := e)"
    and "distinct zs" and "x \<notin> set zs" and "q \<notin> set (tl zs)"
  shows "linked t zs = linked s zs"
proof (rule linked_cong)
  fix y assume y: "y \<in> set (butlast zs)"
  then have "y \<in> set zs" by (rule in_set_butlastD)
  moreover have "y \<noteq> last zs"
    using y assms(3) by (induction zs) (auto split: if_splits)
  ultimately show "d_next t y = d_next s y" using assms by auto
next
  fix y assume "y \<in> set (tl zs)"
  then show "d_prev t y = d_prev s y"
    using assms by (cases zs) auto
qed

lemma linked_seam_right:
  assumes "d_next t = (d_next s)(x := a, p := b)" and "d_prev t = (d_prev s)(x := c, hd zs := e)"
    and "distinct zs" and "x \<notin> set zs" and "p \<notin> set (butlast zs)"
  shows "linked t zs = linked s zs"
proof (rule linked_cong)
  fix y assume "y \<in> set (butlast zs)"
  then show "d_next t y = d_next s y"
    using assms by (auto dest: in_set_butlastD)
next
  fix y assume "y \<in> set (tl zs)"
  then show "d_prev t y = d_prev s y"
    using assms by (cases zs) auto
qed

lemma ring_seam:
  assumes r: "ring s h (xs @ ys) \<or> ring s h (xs @ x # ys)" and x: "x \<notin> set (h # xs @ ys)"
    and t: "d_next t = (d_next s)(x := a, last (h # xs) := b)"
      "d_prev t = (d_prev s)(x := c, hd (ys @ [h]) := e)"
  shows "distinct (h # xs @ ys) \<and> linked t (h # xs) \<and> linked t (ys @ [h])"
proof -
  from r have d: "distinct (h # xs @ ys)" and l: "linked s (h # xs)" "linked s (ys @ [h])"
    using ring_split [of s h xs "x # ys"] by (auto simp: ring_split linked_Cons)
  have "linked t (h # xs) = linked s (h # xs)"
    by (rule linked_seam_left [OF t]) (use d x in \<open>cases ys; auto\<close>)+
  moreover have "linked t (ys @ [h]) = linked s (ys @ [h])"
    by (rule linked_seam_right [OF t]) (use d x in \<open>auto split: if_splits dest: last_in_set\<close>)
  ultimately show ?thesis using d l by blast
qed

lemma ring_insert:
  assumes r: "ring s h (xs @ ys)" and obj: "obj \<notin> set (h # xs @ ys)"
    and pos: "pos = hd (ys @ [h])"
  shows "ring (snd (il_insert pos obj s)) h (xs @ obj # ys)"
proof -
  define t where "t = snd (il_insert pos obj s)"
  let ?p = "last (h # xs)" and ?q = "hd (ys @ [h])"
  have prev: "d_prev s ?q = ?p"
    using r by (simp add: ring_split)
  have ne: "?q \<noteq> obj" "?p \<noteq> obj"
    using obj by (cases ys; auto)+
  then have nx: "d_next t = (d_next s)(obj := ?q, ?p := obj)"
    and pv: "d_prev t = (d_prev s)(obj := ?p, ?q := obj)"
    using prev pos by (auto simp: t_def il_insert_def Let_def)
  from ring_seam [OF disjI1 [OF r] obj nx pv]
  have "ring t h (xs @ obj # ys)"
    using ne obj ring_split [of t h xs "obj # ys"] by (simp add: nx pv linked_Cons)
  then show ?thesis by (simp add: t_def)
qed

lemma ring_erase:
  assumes r: "ring s h (xs @ x # ys)"
  shows "ring (il_erase x s) h (xs @ ys)" "ring (il_erase x s) x []"
proof -
  let ?s = "il_erase x s" and ?p = "last (h # xs)" and ?q = "hd (ys @ [h])"
  have nb: "d_prev s x = ?p" "d_next s x = ?q"
    using r ring_split [of s h xs "x # ys"] by (auto simp: linked_Cons)
  have x: "x \<notin> set (h # xs @ ys)" using r by (auto simp: ring_def)
  then have ne: "?p \<noteq> x" "?q \<noteq> x" by (cases ys; auto)+
  have nx: "d_next ?s = (d_next s)(x := x, ?p := ?q)"
    and pv: "d_prev ?s = (d_prev s)(x := x, ?q := ?p)"
    using nb ne by (auto simp: il_erase_def Let_def)
  from ring_seam [OF disjI2 [OF r] x nx pv] show "ring ?s h (xs @ ys)"
    using ne ring_split [of ?s h xs ys] by (simp add: nx pv)
  show "ring ?s x []" using ne by (simp add: ring_Nil_iff nx pv)
qed

text \<open>Erasing a node that is linked to itself only, as every erased node is, changes nothing.\<close>

lemma erase_self: "ring s x [] \<Longrightarrow> il_erase x s = s"
  by (simp add: ring_Nil_iff il_erase_def Let_def fun_upd_idem)

lemma ring_push_back:
  "ring s h xs \<Longrightarrow> obj \<notin> set (h # xs) \<Longrightarrow> ring (il_push_back h obj s) h (xs @ [obj])"
  using ring_insert [of s h xs "[]" obj h] by (simp add: il_push_back_def il_end_def)

lemma ring_pop_front:
  assumes "ring s h (x # xs)"
  shows "ring (il_pop_front h s) h xs" "ring (il_pop_front h s) x []"
  using assms ring_erase [of s h "[]" x xs] ring_next [OF assms]
  by (simp_all add: il_pop_front_def il_begin_def)

section \<open>Other lists are left alone\<close>

definition same_links :: "addr set \<Rightarrow> links \<Rightarrow> links \<Rightarrow> bool" where
  "same_links A s t \<longleftrightarrow> (\<forall>x\<in>A. d_next t x = d_next s x \<and> d_prev t x = d_prev s x)"

lemma ring_same_links:
  "same_links (set (h # xs)) s t \<Longrightarrow> ring t h xs = ring s h xs"
  unfolding ring_def by (intro conj_cong refl linked_cong)
    (auto simp: same_links_def split: if_splits dest: in_set_butlastD)

lemma insert_same_links:
  assumes "ring s h (xs @ ys)" and "pos = hd (ys @ [h])"
  shows "same_links (- set (obj # h # xs @ ys)) s (snd (il_insert pos obj s))"
proof -
  have "d_prev s pos = last (h # xs)"
    using assms ring_split [of s h xs ys] by simp
  then have "pos \<in> set (h # xs @ ys)" "d_prev s pos \<in> set (h # xs @ ys)"
    using assms(2) by (cases ys; simp)+
  then show ?thesis
    by (auto simp: same_links_def il_insert_def Let_def)
qed

lemma erase_same_links:
  assumes "ring s h (xs @ x # ys)"
  shows "same_links (- set (h # xs @ x # ys)) s (il_erase x s)"
proof -
  have "d_prev s x = last (h # xs)" "d_next s x = hd (ys @ [h])"
    using assms ring_split [of s h xs "x # ys"] by (auto simp: linked_Cons)
  then have "d_prev s x \<in> set (h # xs)" "d_next s x \<in> set (h # ys)"
    by (simp_all split: if_splits) (cases ys; simp)+
  then show ?thesis
    by (auto simp: same_links_def il_erase_def Let_def)
qed

lemma ring_frame:
  assumes "same_links (- A) s t" and "ring s h xs" and "set (h # xs) \<inter> A = {}"
  shows "ring t h xs"
proof -
  have "same_links (set (h # xs)) s t"
    using assms(1,3) by (auto simp: same_links_def)
  with assms(2) show ?thesis by (simp only: ring_same_links)
qed

section \<open>Moving and swapping\<close>

text \<open>
  The move constructor and the move assignment take over the nodes of the other list in the
  same order; the other list object is not reset and no longer represents a list.
\<close>

lemma ring_move:
  assumes r: "ring s other xs" and th: "this \<notin> set (other # xs)"
  shows "ring (il_move this other s) this xs"
proof (cases xs rule: rev_cases)
  case Nil
  with r th show ?thesis
    by (auto simp: il_move_def il_connect_def Let_def ring_Nil_iff)
next
  case (snoc ys z)
  define t where "t = il_move this other s"
  have nb: "d_next s other = hd xs" "d_prev s other = last xs"
    using r ring_split [of s other ys "[z]"] ring_next [OF r] by (simp_all add: snoc linked_Cons hd_append)
  have "hd xs \<in> set xs" using snoc by (intro hd_in_set) simp
  with r th have ne: "hd xs \<noteq> other" "hd xs \<noteq> this" by (auto simp: ring_def)
  have "d_next t = (d_next s)(this := hd xs, last xs := this)"
    "d_prev t = (d_prev s)(this := last xs, hd xs := this)"
    using nb th r snoc ne by (auto simp: t_def il_move_def il_connect_def Let_def ring_def)
  moreover have "linked t xs = linked s xs"
    by (rule linked_seam_left [where x = this and q = "hd xs" and a = "hd xs" and b = this
          and c = "last xs" and e = this])
      (use calculation th r snoc in \<open>cases ys; auto simp: ring_def\<close>)+
  moreover have "linked s xs"
    using r snoc by (simp add: ring_def linked_Cons linked_append)
  ultimately show ?thesis
    using th r snoc unfolding t_def [symmetric]
    by (auto simp: ring_def linked_Cons linked_append hd_append)
qed

lemma il_assign_eq_move: "il_assign this other s = il_move this other s"
  by (simp add: il_assign_def il_move_def)

text \<open>
  \<^verbatim>\<open>swap\<close> exchanges the fields of the two sentinels and leaves the neighbours pointing at the
  old ones: the node that was first keeps the old sentinel as its predecessor.
\<close>

lemma swap_fields:
  assumes "this \<noteq> other"
  shows "d_next (il_swap this other s) = (d_next s)(this := d_next s other, other := d_next s this)"
    "d_prev (il_swap this other s) = (d_prev s)(this := d_prev s other, other := d_prev s this)"
  by (simp_all add: il_swap_def Let_def)

section \<open>The list as a queue\<close>

text \<open>
  What the run loop, the stop state and the scopes use of the list: push at the back, look at
  and remove the front. The interface is stated over an abstraction relation.
\<close>

locale fifo =
  fixes is_empty :: "'s \<Rightarrow> bool"
    and front :: "'s \<Rightarrow> 'a"
    and pop :: "'s \<Rightarrow> 's"
    and push :: "'a \<Rightarrow> 's \<Rightarrow> 's"
    and pushable :: "'a \<Rightarrow> bool"
    and holds :: "'s \<Rightarrow> 'a list \<Rightarrow> bool"
  assumes is_empty_iff: "holds s xs \<Longrightarrow> is_empty s \<longleftrightarrow> xs = []"
    and front_eq: "holds s (x # xs) \<Longrightarrow> front s = x"
    and pop_holds: "holds s (x # xs) \<Longrightarrow> holds (pop s) xs"
    and push_holds: "holds s xs \<Longrightarrow> pushable x \<Longrightarrow> x \<notin> set xs \<Longrightarrow> holds (push x s) (xs @ [x])"
begin

text \<open>Draining: the loop visits every element once, in order, and leaves the queue empty.\<close>

lemma drain:
  assumes "holds s xs"
  shows "\<exists>s'. loop_while (\<lambda>(s, t). \<not> is_empty s) (\<lambda>(s, t). Some (pop s, act (front s) t)) (s, t)
           = Some (s', fold act xs t) \<and> holds s' []"
  using assms
proof (induction xs arbitrary: s t)
  case Nil
  then show ?case by (auto simp: is_empty_iff)
next
  case (Cons x xs)
  then have "\<not> is_empty s" "front s = x" "holds (pop s) xs"
    by (simp_all add: is_empty_iff [of s "x # xs"] front_eq pop_holds)
  with Cons.IH [of "pop s" "act x t"] show ?case
    by (simp add: loop_while_step)
qed

lemma push_all:
  "holds s xs \<Longrightarrow> distinct (xs @ ys) \<Longrightarrow> \<forall>y\<in>set ys. pushable y \<Longrightarrow> holds (fold push ys s) (xs @ ys)"
proof (induction ys arbitrary: s xs)
  case Nil
  then show ?case by simp
next
  case (Cons y ys)
  then have "holds (push y s) (xs @ [y])" by (auto intro: push_holds)
  with Cons show ?case by (auto dest: Cons.IH [of "push y s" "xs @ [y]"])
qed

end

interpretation il: fifo "il_empty h" "il_front h" "il_pop_front h" "il_push_back h" "\<lambda>x. x \<noteq> h" "\<lambda>s. ring s h"
  by unfold_locales (auto simp: ring_empty_iff ring_front ring_pop_front ring_push_back)

end
