(* ===== verification/Stop_State.thy ===== *)
theory Stop_State
  imports Intrusive_List
begin

text \<open>
  \<^verbatim>\<open>stop_state\<close>, \<^verbatim>\<open>stop_source\<close>, \<^verbatim>\<open>stop_token\<close> and \<^verbatim>\<open>stop_callback\<close> of
  \<^verbatim>\<open>src/src/nstd/stop_token\<close>. The shared state holds an intrusive list of callbacks, the
  flag \<^verbatim>\<open>d_stop_requested\<close> and a spin lock \<^verbatim>\<open>d_busy\<close>. A \<^verbatim>\<open>shared_ptr\<close> to it is an index into a
  store (or null). What a callback does is user code: a parameter \<open>do_call\<close> acting on an
  environment. The theory refines the operations, run one after the other, to an abstract
  queue of pending callbacks, and shows what the two halves of \<^verbatim>\<open>request_stop\<close> allow when
  another thread registers in between.
\<close>

section \<open>Model\<close>

record 'e stop_state =
  d_list :: addr
  ss_links :: links
  d_stop_requested :: bool
  d_busy :: bool
  ss_env :: 'e

text \<open>\<^verbatim>\<open>while (this->d_busy.exchange(true)) {}\<close>: the loop variable is the value exchanged out.\<close>

definition spin_lock :: "'e stop_state \<Rightarrow> 'e stop_state option" where
  "spin_lock s =
     map_option snd (loop_while fst (\<lambda>(_, s). Some (d_busy s, s\<lparr>d_busy := True\<rparr>)) (True, s))"

definition unlock :: "'e stop_state \<Rightarrow> 'e stop_state" where
  "unlock s = s\<lparr>d_busy := False\<rparr>"

definition ss_new :: "addr \<Rightarrow> links \<Rightarrow> 'e \<Rightarrow> 'e stop_state" where
  "ss_new h l e = \<lparr>d_list = h, ss_links = il_new h l, d_stop_requested = False, d_busy = False, ss_env = e\<rparr>"

definition callback_call :: "(addr \<Rightarrow> 'e \<Rightarrow> 'e) \<Rightarrow> addr \<Rightarrow> 'e stop_state \<Rightarrow> 'e stop_state" where
  "callback_call do_call cb s = s\<lparr>ss_env := do_call cb (ss_env s)\<rparr>"

definition ss_insert :: "(addr \<Rightarrow> 'e \<Rightarrow> 'e) \<Rightarrow> addr \<Rightarrow> 'e stop_state \<Rightarrow> (addr \<times> 'e stop_state) option" where
  "ss_insert do_call cb s =
     do {
       s \<leftarrow> spin_lock s;
       let (rc, l) = il_insert (il_end (d_list s)) cb (ss_links s);
       let s = s\<lparr>ss_links := l\<rparr>;
       let s = (if d_stop_requested s then callback_call do_call cb s else s);
       Some (rc, unlock s)
     }"

definition ss_erase :: "addr \<Rightarrow> 'e stop_state \<Rightarrow> 'e stop_state option" where
  "ss_erase it s =
     do {
       s \<leftarrow> spin_lock s;
       Some (unlock (s\<lparr>ss_links := il_erase it (ss_links s)\<rparr>))
     }"

definition ss_call :: "(addr \<Rightarrow> 'e \<Rightarrow> 'e) \<Rightarrow> 'e stop_state \<Rightarrow> 'e stop_state option" where
  "ss_call do_call s =
     do {
       s \<leftarrow> spin_lock s;
       s \<leftarrow> loop_while (\<lambda>s. \<not> il_empty (d_list s) (ss_links s))
             (\<lambda>s. let s = callback_call do_call (il_front (d_list s) (ss_links s)) s
                  in Some (s\<lparr>ss_links := il_pop_front (d_list s) (ss_links s)\<rparr>)) s;
       Some (unlock s)
     }"

subsection \<open>Sources, tokens and callbacks\<close>

type_synonym state_ptr = "nat option"
type_synonym 'e stop_store = "nat \<Rightarrow> 'e stop_state"

record stop_source = src_state :: state_ptr
record stop_token = tok_state :: state_ptr
record stop_callback =
  cb_state :: state_ptr
  cb_iterator :: "addr option"

definition make_stop_source :: "nat \<Rightarrow> addr \<Rightarrow> links \<Rightarrow> 'e \<Rightarrow> 'e stop_store \<Rightarrow> stop_source \<times> 'e stop_store" where
  "make_stop_source i h l e st = (\<lparr>src_state = Some i\<rparr>, st(i := ss_new h l e))"

definition stop_source_nostopstate :: stop_source where
  "stop_source_nostopstate = \<lparr>src_state = None\<rparr>"

definition source_swap :: "stop_source \<Rightarrow> stop_source \<Rightarrow> stop_source \<times> stop_source" where
  "source_swap a b = (a\<lparr>src_state := src_state b\<rparr>, b\<lparr>src_state := src_state a\<rparr>)"

definition get_token :: "stop_source \<Rightarrow> stop_token" where
  "get_token src = \<lparr>tok_state = src_state src\<rparr>"

definition source_stop_possible :: "stop_source \<Rightarrow> bool" where
  "source_stop_possible src = (src_state src \<noteq> None)"

definition source_stop_requested :: "stop_source \<Rightarrow> 'e stop_store \<Rightarrow> bool" where
  "source_stop_requested src st =
     (case src_state src of None \<Rightarrow> False | Some i \<Rightarrow> d_stop_requested (st i))"

text \<open>
  \<^verbatim>\<open>request_stop\<close> in its two atomic halves: the exchange of the flag, and, if this call set it,
  the calls of the callbacks.
\<close>

definition request_exchange :: "'e stop_state \<Rightarrow> bool \<times> 'e stop_state" where
  "request_exchange s = (d_stop_requested s, s\<lparr>d_stop_requested := True\<rparr>)"

definition request_stop ::
  "(addr \<Rightarrow> 'e \<Rightarrow> 'e) \<Rightarrow> stop_source \<Rightarrow> 'e stop_store \<Rightarrow> (bool \<times> 'e stop_store) option" where
  "request_stop do_call src st =
     (case src_state src of
        None \<Rightarrow> Some (False, st)
      | Some i \<Rightarrow>
          (let (rc, s) = request_exchange (st i)
           in if \<not> rc
              then do { s \<leftarrow> ss_call do_call s; Some (True, st(i := s)) }
              else Some (False, st(i := s))))"

definition source_equal :: "stop_source \<Rightarrow> stop_source \<Rightarrow> bool" where
  "source_equal a b = (src_state a = src_state b)"

definition token_stop_requested :: "stop_token \<Rightarrow> 'e stop_store \<Rightarrow> bool" where
  "token_stop_requested tok st =
     (case tok_state tok of None \<Rightarrow> False | Some i \<Rightarrow> d_stop_requested (st i))"

definition token_stop_possible :: "stop_token \<Rightarrow> bool" where
  "token_stop_possible tok = (tok_state tok \<noteq> None)"

definition token_swap :: "stop_token \<Rightarrow> stop_token \<Rightarrow> stop_token \<times> stop_token" where
  "token_swap a b = (a\<lparr>tok_state := tok_state b\<rparr>, b\<lparr>tok_state := tok_state a\<rparr>)"

definition token_equal :: "stop_token \<Rightarrow> stop_token \<Rightarrow> bool" where
  "token_equal a b = (tok_state a = tok_state b)"

definition register_callback ::
  "(addr \<Rightarrow> 'e \<Rightarrow> 'e) \<Rightarrow> addr \<Rightarrow> stop_callback \<Rightarrow> 'e stop_store \<Rightarrow> (stop_callback \<times> 'e stop_store) option" where
  "register_callback do_call self cb st =
     (case cb_state cb of
        None \<Rightarrow> Some (cb, st)
      | Some i \<Rightarrow> do { (it, s) \<leftarrow> ss_insert do_call self (st i);
                       Some (cb\<lparr>cb_iterator := Some it\<rparr>, st(i := s)) })"

definition stop_callback_ctor ::
  "(addr \<Rightarrow> 'e \<Rightarrow> 'e) \<Rightarrow> addr \<Rightarrow> stop_token \<Rightarrow> 'e stop_store \<Rightarrow> (stop_callback \<times> 'e stop_store) option" where
  "stop_callback_ctor do_call self tok st =
     register_callback do_call self \<lparr>cb_state = tok_state tok, cb_iterator = None\<rparr> st"

text \<open>\<^verbatim>\<open>None\<close> of the destructor with a null state is a null dereference; it cannot happen after the constructor.\<close>

definition stop_callback_dtor :: "stop_callback \<Rightarrow> 'e stop_store \<Rightarrow> 'e stop_store option" where
  "stop_callback_dtor cb st =
     (case cb_iterator cb of
        None \<Rightarrow> Some st
      | Some it \<Rightarrow> (case cb_state cb of
          None \<Rightarrow> None
        | Some i \<Rightarrow> do { s \<leftarrow> ss_erase it (st i); Some (st(i := s)) }))"

section \<open>The lock\<close>

lemma spin_lock_eq: "spin_lock s = (if d_busy s then None else Some (s\<lparr>d_busy := True\<rparr>))"
proof (cases "d_busy s")
  case True
  have "loop_while fst (\<lambda>(_, s). Some (d_busy s, s\<lparr>d_busy := True\<rparr>)) (True, s) = None"
    by (rule loop_while_diverges [where I = "\<lambda>(b, s). b \<and> d_busy s"]) (use True in auto)
  with True show ?thesis by (simp add: spin_lock_def)
next
  case False
  then show ?thesis by (simp add: spin_lock_def loop_while_step)
qed

text \<open>The body of the loop of \<^verbatim>\<open>call\<close>: the links change, the callback acts, nothing else changes.\<close>

abbreviation call_guard :: "'e stop_state \<Rightarrow> bool" where
  "call_guard s \<equiv> \<not> il_empty (d_list s) (ss_links s)"

abbreviation call_body :: "(addr \<Rightarrow> 'e \<Rightarrow> 'e) \<Rightarrow> 'e stop_state \<Rightarrow> 'e stop_state option" where
  "call_body f s \<equiv> (let s = callback_call f (il_front (d_list s) (ss_links s)) s
                  in Some (s\<lparr>ss_links := il_pop_front (d_list s) (ss_links s)\<rparr>))"

lemma pop_front_keeps_detached:
  assumes "ring l h (x # xs)" and "ring l y []" and "y \<notin> set (h # x # xs)"
  shows "ring (il_pop_front h l) y []"
proof -
  have "same_links (- set (h # x # xs)) l (il_pop_front h l)"
    using erase_same_links [of l h "[]" x xs] assms(1) ring_next [OF assms(1)]
    by (simp add: il_pop_front_def il_begin_def)
  then show ?thesis
    by (rule ring_frame) (use assms in auto)
qed

definition drained :: "links \<Rightarrow> addr \<Rightarrow> addr list \<Rightarrow> links \<Rightarrow> bool" where
  "drained l h xs l' \<longleftrightarrow> ring l' h [] \<and> (\<forall>x\<in>set xs. ring l' x [])
     \<and> (\<forall>y. ring l y [] \<longrightarrow> y \<notin> set (h # xs) \<longrightarrow> ring l' y [])"

lemma drained_Cons:
  assumes "ring l h (x # xs)" and "drained (il_pop_front h l) h xs l'"
  shows "drained l h (x # xs) l'"
  using assms ring_pop_front [OF assms(1)] pop_front_keeps_detached [OF assms(1)]
  by (auto simp: drained_def ring_def)

lemma call_loop:
  "ring (ss_links s) (d_list s) xs \<Longrightarrow>
   \<exists>l. loop_while call_guard (call_body f) s = Some (s\<lparr>ss_links := l, ss_env := fold f xs (ss_env s)\<rparr>)
     \<and> drained (ss_links s) (d_list s) xs l"
proof (induction xs arbitrary: s)
  case Nil
  then show ?case
    by (intro exI [where x = "ss_links s"]) (simp add: ring_empty_iff drained_def)
next
  case (Cons x xs)
  define t where "t = s\<lparr>ss_links := il_pop_front (d_list s) (ss_links s), ss_env := f x (ss_env s)\<rparr>"
  have "call_guard s" "call_body f s = Some t"
    using Cons.prems by (simp_all add: t_def ring_empty_iff callback_call_def ring_front)
  then have step: "loop_while call_guard (call_body f) s = loop_while call_guard (call_body f) t"
    by (rule loop_while_step)
  have "ring (ss_links t) (d_list t) xs"
    using Cons.prems by (simp add: t_def ring_pop_front)
  from Cons.IH [OF this] obtain l where
    l: "loop_while call_guard (call_body f) t = Some (t\<lparr>ss_links := l, ss_env := fold f xs (ss_env t)\<rparr>)"
    and d: "drained (ss_links t) (d_list t) xs l" by blast
  have "drained (ss_links s) (d_list s) (x # xs) l"
    by (rule drained_Cons [OF Cons.prems]) (use d in \<open>simp add: t_def\<close>)
  with step l show ?case by (auto simp: t_def)
qed

lemma ss_call_eq:
  assumes r: "ring (ss_links s) (d_list s) xs" and b: "\<not> d_busy s"
  shows "\<exists>l. ss_call f s = Some (s\<lparr>ss_links := l, ss_env := fold f xs (ss_env s)\<rparr>)
     \<and> drained (ss_links s) (d_list s) xs l"
proof -
  obtain l where l: "loop_while call_guard (call_body f) (s\<lparr>d_busy := True\<rparr>)
      = Some (s\<lparr>d_busy := True, ss_links := l, ss_env := fold f xs (ss_env s)\<rparr>)"
    and d: "drained (ss_links s) (d_list s) xs l"
    using call_loop [of "s\<lparr>d_busy := True\<rparr>" xs f] r by auto
  have "ss_call f s = Some (unlock (s\<lparr>d_busy := True, ss_links := l, ss_env := fold f xs (ss_env s)\<rparr>))"
    unfolding ss_call_def by (simp add: spin_lock_eq b l)
  also have "\<dots> = Some (s\<lparr>ss_links := l, ss_env := fold f xs (ss_env s)\<rparr>)"
    using b by (cases s) (simp add: unlock_def)
  finally show ?thesis using d by blast
qed

section \<open>Histories\<close>

text \<open>
  Callbacks constructed and destroyed and stop requests made, one after the other. An address
  is used for one callback only, and a callback is destroyed while it is alive.
\<close>

datatype stop_event = Register addr | Destroy addr | Request

fun stop_exec :: "(addr \<Rightarrow> 'e \<Rightarrow> 'e) \<Rightarrow> stop_event \<Rightarrow> 'e stop_state \<Rightarrow> 'e stop_state option" where
  "stop_exec f (Register c) s = map_option snd (ss_insert f c s)"
| "stop_exec f (Destroy c) s = ss_erase c s"
| "stop_exec f Request s =
     (let (rc, s) = request_exchange s in if \<not> rc then ss_call f s else Some s)"

fun stop_run :: "(addr \<Rightarrow> 'e \<Rightarrow> 'e) \<Rightarrow> stop_event list \<Rightarrow> 'e stop_state \<Rightarrow> 'e stop_state option" where
  "stop_run f [] s = Some s"
| "stop_run f (e # es) s = Option.bind (stop_exec f e s) (stop_run f es)"

fun wf_history :: "addr set \<Rightarrow> addr set \<Rightarrow> stop_event list \<Rightarrow> bool" where
  "wf_history live used [] = True"
| "wf_history live used (Register c # es) = (c \<notin> used \<and> wf_history (insert c live) (insert c used) es)"
| "wf_history live used (Destroy c # es) = (c \<in> live \<and> wf_history (live - {c}) used es)"
| "wf_history live used (Request # es) = wf_history live used es"

text \<open>
  The abstract specification: the calls a history makes, from whether a stop was requested and
  the callbacks waiting for one.
\<close>

fun calls_of :: "bool \<Rightarrow> addr list \<Rightarrow> stop_event list \<Rightarrow> addr list" where
  "calls_of req pend [] = []"
| "calls_of req pend (Register c # es) =
     (if req then c # calls_of req pend es else calls_of req (pend @ [c]) es)"
| "calls_of req pend (Destroy c # es) = calls_of req (remove1 c pend) es"
| "calls_of req pend (Request # es) =
     (if req then calls_of req pend es else pend @ calls_of True [] es)"

definition stop_rel :: "addr set \<Rightarrow> addr list \<Rightarrow> 'e stop_state \<Rightarrow> bool" where
  "stop_rel live xs s \<longleftrightarrow> \<not> d_busy s \<and> ring (ss_links s) (d_list s) xs
     \<and> set xs \<subseteq> live \<and> d_list s \<notin> live \<and> (\<forall>y\<in>live - set xs. ring (ss_links s) y [])"

lemma stop_rel_Register:
  assumes rel: "stop_rel live xs s" and c: "c \<notin> live" "c \<noteq> d_list s"
  shows "\<exists>l. ss_insert f c s = Some (c, s\<lparr>ss_links := l,
           ss_env := (if d_stop_requested s then f c (ss_env s) else ss_env s)\<rparr>)
         \<and> stop_rel (insert c live) (xs @ [c]) (s\<lparr>ss_links := l\<rparr>)"
proof -
  define l where "l = snd (il_insert (d_list s) c (ss_links s))"
  have ins: "il_insert (d_list s) c (ss_links s) = (c, l)"
    by (simp add: l_def il_insert_def Let_def)
  have r: "ring (ss_links s) (d_list s) (xs @ [])" using rel by (simp add: stop_rel_def)
  have "c \<notin> set xs" using rel c by (auto simp: stop_rel_def)
  then have "ring l (d_list s) (xs @ [c])"
    using ring_insert [OF r, of c "d_list s"] c by (simp add: l_def)
  moreover have frame: "same_links (- set (c # d_list s # xs)) (ss_links s) l"
    using insert_same_links [OF r, of "d_list s" c] by (simp add: l_def)
  have "ring l y []" if "y \<in> live" "y \<notin> set xs" for y
    by (rule ring_frame [OF frame]) (use that rel c in \<open>auto simp: stop_rel_def\<close>)
  ultimately have "stop_rel (insert c live) (xs @ [c]) (s\<lparr>ss_links := l\<rparr>)"
    using rel c by (auto simp: stop_rel_def)
  moreover have "ss_insert f c s = Some (c, s\<lparr>ss_links := l,
      ss_env := (if d_stop_requested s then f c (ss_env s) else ss_env s)\<rparr>)"
    using rel ins by (cases s)
      (simp add: ss_insert_def spin_lock_eq stop_rel_def il_end_def callback_call_def unlock_def)
  ultimately show ?thesis by blast
qed

lemma stop_rel_Destroy:
  assumes rel: "stop_rel live xs s" and c: "c \<in> live"
  shows "\<exists>l. ss_erase c s = Some (s\<lparr>ss_links := l\<rparr>)
         \<and> stop_rel (live - {c}) (remove1 c xs) (s\<lparr>ss_links := l\<rparr>)"
proof -
  let ?l = "il_erase c (ss_links s)"
  have "ss_erase c s = Some (s\<lparr>ss_links := ?l\<rparr>)"
    using rel by (cases s) (simp add: ss_erase_def spin_lock_eq stop_rel_def unlock_def)
  moreover have "stop_rel (live - {c}) (remove1 c xs) (s\<lparr>ss_links := ?l\<rparr>)"
  proof (cases "c \<in> set xs")
    case True
    then obtain as bs where xs: "xs = as @ c # bs" "c \<notin> set as" by (meson split_list_first)
    have r: "ring (ss_links s) (d_list s) (as @ c # bs)" using rel xs by (simp add: stop_rel_def)
    then have "c \<notin> set bs" by (simp add: ring_def)
    moreover have "ring ?l y []" if "y \<in> live" "y \<notin> set xs" for y
      by (rule ring_frame [OF erase_same_links [OF r]]) (use that rel xs in \<open>auto simp: stop_rel_def\<close>)
    ultimately show ?thesis
      using rel xs ring_erase [OF r] by (auto simp: stop_rel_def remove1_append)
  next
    case False
    with rel c have "?l = ss_links s" by (simp add: stop_rel_def erase_self)
    with rel False show ?thesis by (auto simp: stop_rel_def remove1_idem)
  qed
  ultimately show ?thesis by blast
qed

lemma stop_rel_call:
  assumes rel: "stop_rel live xs s"
  shows "\<exists>l. ss_call f s = Some (s\<lparr>ss_links := l, ss_env := fold f xs (ss_env s)\<rparr>)
         \<and> stop_rel live [] (s\<lparr>ss_links := l\<rparr>)"
  using rel ss_call_eq [of s xs f] unfolding stop_rel_def drained_def by fastforce

abbreviation log_call :: "addr \<Rightarrow> addr list \<Rightarrow> addr list" where
  "log_call c log \<equiv> log @ [c]"

lemma fold_log_call [simp]: "fold log_call xs log = log @ xs"
  by (induction xs arbitrary: log) auto

lemma stop_rel_update [simp]:
  "stop_rel live xs (s\<lparr>ss_env := e\<rparr>) = stop_rel live xs s"
  "stop_rel live xs (s\<lparr>d_stop_requested := b\<rparr>) = stop_rel live xs s"
  "stop_rel live xs (s\<lparr>ss_links := l, ss_env := e\<rparr>) = stop_rel live xs (s\<lparr>ss_links := l\<rparr>)"
  by (simp_all add: stop_rel_def)

lemma stop_run_calls:
  assumes "stop_rel live xs s" and "wf_history live used es" and "d_list s \<in> used" and "live \<subseteq> used"
    and "\<not> d_stop_requested s \<longrightarrow> pend = xs"
  shows "\<exists>t. stop_run log_call es s = Some t
          \<and> ss_env t = ss_env s @ calls_of (d_stop_requested s) pend es"
  using assms
proof (induction es arbitrary: s live used xs pend)
  case Nil
  then show ?case by simp
next
  case (Cons e es)
  show ?case
  proof (cases e)
    case (Register c)
    with Cons.prems obtain l where
      "ss_insert log_call c s = Some (c, s\<lparr>ss_links := l,
           ss_env := (if d_stop_requested s then ss_env s @ [c] else ss_env s)\<rparr>)"
      "stop_rel (insert c live) (xs @ [c]) (s\<lparr>ss_links := l\<rparr>)"
      using stop_rel_Register [of live xs s c log_call] by auto
    with Register Cons.prems Cons.IH [of "insert c live" "xs @ [c]" "s\<lparr>ss_links := l,
           ss_env := (if d_stop_requested s then ss_env s @ [c] else ss_env s)\<rparr>" "insert c used"
           "if d_stop_requested s then pend else pend @ [c]"]
    show ?thesis by (auto split: if_splits)
  next
    case (Destroy c)
    with Cons.prems obtain l where
      "ss_erase c s = Some (s\<lparr>ss_links := l\<rparr>)"
      "stop_rel (live - {c}) (remove1 c xs) (s\<lparr>ss_links := l\<rparr>)"
      using stop_rel_Destroy [of live xs s c] by auto
    with Destroy Cons.prems Cons.IH [of "live - {c}" "remove1 c xs" "s\<lparr>ss_links := l\<rparr>" used "remove1 c pend"]
    show ?thesis by auto
  next
    case Request
    obtain l where l:
      "ss_call log_call (s\<lparr>d_stop_requested := True\<rparr>) = Some (s\<lparr>d_stop_requested := True,
         ss_links := l, ss_env := ss_env s @ xs\<rparr>)"
      "stop_rel live [] (s\<lparr>d_stop_requested := True, ss_links := l\<rparr>)"
      using Cons.prems stop_rel_call [of live xs "s\<lparr>d_stop_requested := True\<rparr>" log_call] by auto
    show ?thesis
    proof (cases "d_stop_requested s")
      case True
      then have "s\<lparr>d_stop_requested := True\<rparr> = s" by (cases s) simp
      then have "stop_exec log_call Request s = Some s"
        using True by (simp add: request_exchange_def)
      with True Request Cons.prems Cons.IH [of live xs s used pend] show ?thesis
        by simp
    next
      case False
      with l Request Cons.prems Cons.IH [of live "[]" "s\<lparr>d_stop_requested := True,
         ss_links := l, ss_env := ss_env s @ xs\<rparr>" used "[]"] show ?thesis
        by (simp add: request_exchange_def)
    qed
  qed
qed

lemma calls_of_distinct:
  assumes "wf_history live used es" and "distinct pend" and "set pend \<subseteq> used"
  shows "distinct (calls_of req pend es) \<and> set (calls_of req pend es) \<inter> used \<subseteq> set pend"
  using assms
proof (induction req pend es arbitrary: live used rule: calls_of.induct)
  case (2 req pend c es)
  have "wf_history (insert c live) (insert c used) es" "c \<notin> used" "set pend \<subseteq> insert c used"
    "set (pend @ [c]) \<subseteq> insert c used" "distinct (pend @ [c])"
    using "2.prems" by auto
  with "2.IH" "2.prems"(2) show ?case by (cases req) fastforce+
next
  case (3 req pend c es)
  then show ?case
    using "3.IH" [of "live - {c}" used] set_remove1_subset [of c pend] by auto
next
  case (4 req pend es)
  show ?case
  proof (cases req)
    case True
    with 4 show ?thesis by simp
  next
    case False
    with "4.IH"(2) [of live used] "4.prems" show ?thesis by auto
  qed
qed simp

section \<open>Properties\<close>

lemma stop_rel_new: "stop_rel {} [] (ss_new h l e)"
  by (simp add: stop_rel_def ss_new_def ring_new)

text \<open>
  C3: for every history of constructing and destroying callbacks and requesting a stop, one
  after the other, all operations return, the callbacks are called exactly as the abstract
  specification says (those waiting when the first stop is requested, in the order of their
  registration; those registered later, at once; those destroyed before, never), and no
  callback is called twice.
\<close>

theorem stop_history_calls:
  assumes "wf_history {} {h} es"
  shows "\<exists>t. stop_run log_call es (ss_new h l []) = Some t
    \<and> ss_env t = calls_of False [] es \<and> distinct (ss_env t)"
  using stop_run_calls [OF stop_rel_new [of h l "[]"] assms, where pend = "[]"]
    calls_of_distinct [OF assms, of "[]" False]
  by (simp add: ss_new_def) fastforce

theorem stop_history_calls_witness:
  "\<exists>t. stop_run log_call [Register 1, Register 2, Register 3, Destroy 2, Request, Register 4, Destroy 1, Request]
      (ss_new 0 \<lparr>d_next = id, d_prev = id\<rparr> []) = Some t
    \<and> ss_env t = calls_of False [] [Register 1, Register 2, Register 3, Destroy 2, Request, Register 4, Destroy 1, Request]
    \<and> distinct (ss_env t)"
  by (rule stop_history_calls) simp

text \<open>
  \<^verbatim>\<open>request_stop\<close> sets the flag before it takes the lock. A callback that another thread
  registers between the two is called by its own registration, which sees the flag, and is
  left in the list, so that the pending \<^verbatim>\<open>call\<close> calls it a second time.
\<close>

theorem request_stop_race:
  assumes "c \<noteq> h"
  shows "\<exists>s1 s2 s3. request_exchange (ss_new h l []) = (False, s1)
    \<and> ss_insert log_call c s1 = Some (c, s2) \<and> ss_call log_call s2 = Some s3
    \<and> ss_env s3 = [c, c]"
proof -
  define s1 :: "addr list stop_state" where "s1 = (ss_new h l [])\<lparr>d_stop_requested := True\<rparr>"
  have "d_list s1 = h" "d_stop_requested s1" "ss_env s1 = []"
    by (simp_all add: s1_def ss_new_def)
  moreover have "stop_rel {} [] s1"
    by (simp add: s1_def stop_rel_new)
  ultimately obtain l1 where l1: "ss_insert log_call c s1 = Some (c, s1\<lparr>ss_links := l1, ss_env := [c]\<rparr>)"
    "stop_rel {c} [c] (s1\<lparr>ss_links := l1\<rparr>)"
    using stop_rel_Register [of "{}" "[]" s1 c log_call] assms by auto
  then have "stop_rel {c} [c] (s1\<lparr>ss_links := l1, ss_env := [c]\<rparr>)" by simp
  from stop_rel_call [OF this, of log_call] obtain s3 where
    "ss_call log_call (s1\<lparr>ss_links := l1, ss_env := [c]\<rparr>) = Some s3" "ss_env s3 = [c, c]"
    by auto
  moreover have "request_exchange (ss_new h l []) = (False, s1)"
    by (simp add: request_exchange_def s1_def ss_new_def)
  ultimately show ?thesis using l1 by blast
qed

theorem request_stop_race_witness:
  "\<exists>s1 s2 s3. request_exchange (ss_new 0 \<lparr>d_next = id, d_prev = id\<rparr> []) = (False, s1)
    \<and> ss_insert log_call 1 s1 = Some (1, s2) \<and> ss_call log_call s2 = Some s3
    \<and> ss_env s3 = [1, 1]"
  by (rule request_stop_race) simp

end
