(* ===== verification/In_Place_Stop.thy ===== *)
theory In_Place_Stop
  imports Prelude
begin

text \<open>
  \<^verbatim>\<open>in_place_stop_source\<close> and its callbacks, \<^verbatim>\<open>src/src/nstd/stop_token/in_place_stop_token.hpp\<close>: a singly linked list of callbacks
  that is taken by exchanging its head for a marker. Pointers are to the two nodes inside the source, to callbacks, or null.
  Each of the three loops around a \<^verbatim>\<open>compare_exchange_strong\<close> is a function for one turn of the loop,
  on the local pointer and the shared state. \<open>act\<close> is what \<^verbatim>\<open>do_call\<close> of a callback does with the source, for instance destroying callbacks.
\<close>

section \<open>Model\<close>

datatype ptr = Null | Marker | End | Node addr

text \<open>\<open>calls\<close> notes the callbacks that were called.\<close>

record ip_source =
  d_list :: ptr
  d_next :: "ptr \<Rightarrow> ptr"
  d_called :: "ptr \<Rightarrow> bool"
  d_stop_requested :: bool
  calls :: "ptr list"

type_synonym ip_act = "addr \<Rightarrow> ip_source \<Rightarrow> ip_source option"

definition ip_new :: ip_source where
  "ip_new = \<lparr>d_list = End, d_next = (\<lambda>_. Null), d_called = (\<lambda>_. False), d_stop_requested = False, calls = []\<rparr>"

definition ip_stop_requested :: "ip_source \<Rightarrow> bool" where
  "ip_stop_requested s = d_stop_requested s"

text \<open>\<^verbatim>\<open>call\<close>: the nodes inside the source have a \<^verbatim>\<open>do_call\<close> that does nothing.\<close>

definition ip_call :: "ip_act \<Rightarrow> ptr \<Rightarrow> ip_source \<Rightarrow> ip_source option" where
  "ip_call act p s =
     (let s = s\<lparr>d_called := (d_called s)(p := True), calls := calls s @ [p]\<rparr>
      in case p of Node x \<Rightarrow> act x s | _ \<Rightarrow> Some s)"

text \<open>\<^verbatim>\<open>d_list.compare_exchange_strong(head, new)\<close>: success, the new \<^verbatim>\<open>head\<close>, the new state.\<close>

definition cas_list :: "ptr \<Rightarrow> ptr \<Rightarrow> ip_source \<Rightarrow> bool \<times> ptr \<times> ip_source" where
  "cas_list head new s = (if d_list s = head then (True, head, s\<lparr>d_list := new\<rparr>) else (False, d_list s, s))"

text \<open>One evaluation of the condition of the loop in \<^verbatim>\<open>stop\<close>: whether it ends the loop, \<^verbatim>\<open>head\<close>, the state.\<close>

definition stop_turn :: "ptr \<Rightarrow> ip_source \<Rightarrow> bool \<times> ptr \<times> ip_source" where
  "stop_turn head s =
     (if head = Null then (True, head, s)
      else if head = Marker then (False, head, s)
      else cas_list head Marker s)"

text \<open>One turn of the loop in \<^verbatim>\<open>insert\<close>; the loop ends when the head is null, the function when the callback is in.\<close>

definition insert_turn :: "ptr \<Rightarrow> ptr \<Rightarrow> ip_source \<Rightarrow> bool \<times> ptr \<times> ip_source" where
  "insert_turn callback head s =
     (let s = s\<lparr>d_next := (d_next s)(callback := head)\<rparr>
      in if head \<noteq> Marker then cas_list head callback s else (False, head, s))"

text \<open>One turn of the loop in \<^verbatim>\<open>remove\<close>, which loads the head again.\<close>

definition remove_turn :: "ptr \<Rightarrow> ip_source \<Rightarrow> bool \<times> ptr \<times> ip_source" where
  "remove_turn head s =
     (if head = Null then (True, head, s)
      else if head = Marker then (False, d_list s, s)
      else case cas_list head Marker s of
             (True, head, s) \<Rightarrow> (True, head, s)
           | (False, head, s) \<Rightarrow> (False, d_list s, s))"

definition call_all :: "ip_act \<Rightarrow> ptr \<Rightarrow> ip_source \<Rightarrow> (ptr \<times> ip_source) option" where
  "call_all act head s =
     loop_while (\<lambda>(node, s). node \<noteq> Null)
       (\<lambda>(node, s). let tmp = d_next s node in map_option (\<lambda>s. (tmp, s)) (ip_call act node s)) (head, s)"

definition ip_stop :: "ip_act \<Rightarrow> ip_source \<Rightarrow> ip_source option" where
  "ip_stop act s =
     (if d_stop_requested s then Some s
      else let s = s\<lparr>d_stop_requested := True\<rparr>
           in Option.bind (loop_while (\<lambda>(ok, head, s). \<not> ok) (\<lambda>(ok, head, s). Some (stop_turn head s)) (False, d_list s, s))
                (\<lambda>(ok, head, s).
                   if head \<noteq> Null
                   then map_option (\<lambda>(node, s). s\<lparr>d_list := Null\<rparr>) (call_all act head s)
                   else Some s))"

definition ip_insert :: "ip_act \<Rightarrow> ptr \<Rightarrow> ip_source \<Rightarrow> ip_source option" where
  "ip_insert act callback s =
     Option.bind (loop_while (\<lambda>(ok, head, s). \<not> ok \<and> head \<noteq> Null) (\<lambda>(ok, head, s). Some (insert_turn callback head s))
                   (False, d_list s, s))
       (\<lambda>(ok, head, s). if ok then Some s else ip_call act callback s)"

text \<open>Taking the callback out of the list that starts at \<^verbatim>\<open>head\<close>.\<close>

definition find_before :: "ptr \<Rightarrow> ptr \<Rightarrow> ip_source \<Rightarrow> ptr option" where
  "find_before callback head s =
     loop_while (\<lambda>node. node \<noteq> Null \<and> d_next s node \<noteq> callback) (\<lambda>node. Some (d_next s node)) head"

definition unlink :: "ptr \<Rightarrow> ptr \<Rightarrow> ip_source \<Rightarrow> (ptr \<times> ip_source) option" where
  "unlink callback head s =
     (if head = callback then Some (d_next s head, s)
      else map_option
             (\<lambda>node. (head, if node \<noteq> Null
                            then let nxt = d_next s node; keep = d_next s nxt in s\<lparr>d_next := (d_next s)(node := keep)\<rparr>
                            else s))
             (find_before callback head s))"

definition ip_remove :: "ptr \<Rightarrow> ip_source \<Rightarrow> ip_source option" where
  "ip_remove callback s =
     (if d_called s callback then Some s
      else Option.bind (loop_while (\<lambda>(ok, head, s). \<not> ok) (\<lambda>(ok, head, s). Some (remove_turn head s)) (False, d_list s, s))
             (\<lambda>(ok, head, s).
                if head = Null then Some s
                else map_option (\<lambda>(head, s). s\<lparr>d_list := head\<rparr>) (unlink callback head s)))"

text \<open>The constructor and the destructor of \<^verbatim>\<open>in_place_stop_callback\<close>.\<close>

definition ip_callback_ctor :: "ip_act \<Rightarrow> addr \<Rightarrow> ip_source \<Rightarrow> ip_source option" where
  "ip_callback_ctor act x s =
     ip_insert act (Node x) (s\<lparr>d_next := (d_next s)(Node x := Null), d_called := (d_called s)(Node x := False)\<rparr>)"

definition ip_callback_dtor :: "addr \<Rightarrow> ip_source \<Rightarrow> ip_source option" where
  "ip_callback_dtor x s = ip_remove (Node x) s"

section \<open>The list of callbacks\<close>

fun chain :: "(ptr \<Rightarrow> ptr) \<Rightarrow> ptr \<Rightarrow> addr list \<Rightarrow> bool" where
  "chain nxt p [] \<longleftrightarrow> p = End \<and> nxt End = Null"
| "chain nxt p (x # xs) \<longleftrightarrow> p = Node x \<and> chain nxt (nxt (Node x)) xs"

lemma chain_not_special: "chain nxt p xs \<Longrightarrow> p \<noteq> Null \<and> p \<noteq> Marker"
  by (cases xs) auto

lemma chain_upd: "chain nxt p xs \<Longrightarrow> x \<notin> set xs \<Longrightarrow> chain (nxt(Node x := q)) p xs"
  by (induction xs arbitrary: p) auto

lemma chain_End: "chain nxt p xs \<Longrightarrow> nxt End = Null"
  by (induction xs arbitrary: p) auto

lemma insert_chain:
  assumes "chain (d_next s) (d_list s) xs" and "x \<notin> set xs"
  shows "\<exists>t. ip_insert act (Node x) s = Some t \<and> chain (d_next t) (d_list t) (x # xs)
    \<and> d_called t = d_called s \<and> calls t = calls s \<and> d_stop_requested t = d_stop_requested s"
proof -
  have h: "d_list s \<noteq> Null" "d_list s \<noteq> Marker" using chain_not_special [OF assms(1)] by auto
  let ?t = "s\<lparr>d_next := (d_next s)(Node x := d_list s), d_list := Node x\<rparr>"
  have "insert_turn (Node x) (d_list s) s = (True, d_list s, ?t)"
    using h by (simp add: insert_turn_def cas_list_def Let_def)
  then have "ip_insert act (Node x) s = Some ?t" using h by (simp add: ip_insert_def loop_while_step)
  with assms show ?thesis by (auto intro: chain_upd)
qed

text \<open>Looking for the node before a callback.\<close>

lemma find_before_in:
  assumes "chain nxt p (ys @ y # x # xs)" and "distinct (ys @ y # x # xs)" and "d_next s = nxt"
  shows "find_before (Node x) p s = Some (Node y)"
  using assms
proof (induction ys arbitrary: p)
  case Nil
  then show ?case by (simp add: find_before_def)
next
  case (Cons z zs)
  then have "p = Node z" and c: "chain nxt (nxt (Node z)) (zs @ y # x # xs)" by auto
  moreover have "nxt (Node z) \<noteq> Node x" using c Cons.prems(2) by (cases zs) auto
  ultimately show ?case
    using Cons.IH [OF c] Cons.prems by (simp add: find_before_def loop_while_step)
qed

lemma find_before_out:
  assumes "chain nxt p xs" and "x \<notin> set xs" and "d_next s = nxt"
  shows "find_before (Node x) p s = Some Null"
  using assms
proof (induction xs arbitrary: p)
  case Nil
  then have "d_next s End = Null" "p = End" by auto
  then show ?case by (simp add: find_before_def loop_while_step)
next
  case (Cons z zs)
  then have p: "p = Node z" and c: "chain nxt (nxt (Node z)) zs" by auto
  moreover have "nxt (Node z) \<noteq> Node x" using c Cons.prems(2) by (cases zs) auto
  ultimately show ?case
    using Cons.IH [OF c] Cons.prems by (simp add: find_before_def loop_while_step)
qed

lemma chain_split_upd:
  "chain nxt p (ys @ y # x # xs) \<Longrightarrow> distinct (ys @ y # x # xs) \<Longrightarrow> chain (nxt(Node y := nxt (Node x))) p (ys @ y # xs)"
proof (induction ys arbitrary: p)
  case Nil
  then have "chain (nxt(Node y := nxt (Node x))) (nxt (Node x)) xs" by (intro chain_upd) auto
  with Nil show ?case by (auto simp del: fun_upd_apply simp: fun_upd_same)
qed auto

lemma unlink_chain:
  assumes "chain (d_next s) head xs" and "distinct xs"
  shows "\<exists>head' t. unlink (Node x) head s = Some (head', t) \<and> chain (d_next t) head' (remove1 x xs)
    \<and> t = s\<lparr>d_next := d_next t\<rparr>"
proof (cases "x \<in> set xs")
  case False
  then have "head \<noteq> Node x" using assms(1) by (cases xs) auto
  with find_before_out [OF assms(1) False refl] show ?thesis
    using assms(1) False by (simp add: unlink_def remove1_idem)
next
  case True
  then obtain ys zs where xs: "xs = ys @ x # zs" "x \<notin> set ys" by (auto dest: split_list_first)
  show ?thesis
  proof (cases ys rule: rev_cases)
    case Nil
    with xs assms show ?thesis by (auto simp: unlink_def)
  next
    case (snoc us y)
    have c: "chain (d_next s) head (us @ y # x # zs)" and d: "distinct (us @ y # x # zs)"
      using assms xs snoc by auto
    have "head \<noteq> Node x" using c d by (cases us) auto
    moreover have "d_next s (Node y) = Node x" using c by (induction us arbitrary: head) auto
    ultimately show ?thesis
      using find_before_in [OF c d refl] chain_split_upd [OF c d] xs snoc
      by (simp add: unlink_def Let_def remove1_append)
  qed
qed

lemma remove_chain:
  assumes "chain (d_next s) (d_list s) xs" and "distinct xs" and "\<not> d_called s (Node x)"
  shows "\<exists>t. ip_remove (Node x) s = Some t \<and> chain (d_next t) (d_list t) (remove1 x xs)
    \<and> d_called t = d_called s \<and> calls t = calls s \<and> d_stop_requested t = d_stop_requested s"
proof -
  let ?u = "s\<lparr>d_list := Marker\<rparr>"
  have h: "d_list s \<noteq> Null" "d_list s \<noteq> Marker" using chain_not_special [OF assms(1)] by auto
  then have turn: "remove_turn (d_list s) s = (True, d_list s, ?u)" by (simp add: remove_turn_def cas_list_def)
  obtain head' t where t: "unlink (Node x) (d_list s) ?u = Some (head', t)" "chain (d_next t) head' (remove1 x xs)"
      "t = ?u\<lparr>d_next := d_next t\<rparr>"
    using unlink_chain [of ?u "d_list s" xs x] assms by auto
  then have "ip_remove (Node x) s = Some (t\<lparr>d_list := head'\<rparr>)"
    using assms(3) h turn by (simp add: ip_remove_def loop_while_step)
  moreover have "d_called t = d_called s" "calls t = calls s" "d_stop_requested t = d_stop_requested s"
    by (subst t(3), simp)+
  ultimately show ?thesis using t(2) by simp
qed

text \<open>Callbacks that do nothing with the source.\<close>

abbreviation quiet :: ip_act where
  "quiet \<equiv> \<lambda>x s. Some s"

lemma call_all_chain:
  assumes "chain (d_next s) p xs"
  shows "\<exists>t. call_all quiet p s = Some (Null, t) \<and> d_list t = d_list s \<and> d_next t = d_next s
    \<and> d_stop_requested t = d_stop_requested s \<and> calls t = calls s @ map Node xs @ [End]
    \<and> d_called t = (\<lambda>q. q = End \<or> q \<in> Node ` set xs \<or> d_called s q)"
  using assms
proof (induction xs arbitrary: p s)
  case Nil
  then show ?case by (auto simp: call_all_def loop_while_step ip_call_def Let_def fun_eq_iff)
next
  case (Cons x xs)
  let ?s = "s\<lparr>d_called := (d_called s)(Node x := True), calls := calls s @ [Node x]\<rparr>"
  have "call_all quiet p s = call_all quiet (d_next s (Node x)) ?s"
    using Cons.prems by (simp add: call_all_def loop_while_step ip_call_def Let_def)
  moreover have "chain (d_next ?s) (d_next s (Node x)) xs" using Cons.prems by simp
  note Cons.IH [OF this]
  ultimately show ?case by (auto simp: fun_eq_iff)
qed

lemma stop_chain:
  assumes "chain (d_next s) (d_list s) xs" and "\<not> d_stop_requested s"
  shows "\<exists>t. ip_stop quiet s = Some t \<and> d_list t = Null \<and> d_stop_requested t
    \<and> calls t = calls s @ map Node xs @ [End] \<and> d_called t = (\<lambda>q. q = End \<or> q \<in> Node ` set xs \<or> d_called s q)"
proof -
  let ?s = "s\<lparr>d_stop_requested := True\<rparr>"
  let ?u = "?s\<lparr>d_list := Marker\<rparr>"
  have h: "d_list s \<noteq> Null" "d_list s \<noteq> Marker" using chain_not_special [OF assms(1)] by auto
  then have turn: "stop_turn (d_list s) ?s = (True, d_list s, ?u)" by (simp add: stop_turn_def cas_list_def)
  obtain t where t: "call_all quiet (d_list s) ?u = Some (Null, t)" "d_stop_requested t"
      "calls t = calls s @ map Node xs @ [End]" "d_called t = (\<lambda>q. q = End \<or> q \<in> Node ` set xs \<or> d_called s q)"
    using call_all_chain [of ?u "d_list s" xs] assms(1) by auto
  with assms(2) h turn show ?thesis
    by (intro exI [of _ "t\<lparr>d_list := Null\<rparr>"]) (simp add: ip_stop_def loop_while_step Let_def)
qed

section \<open>Histories\<close>

text \<open>Callbacks constructed and destroyed, and stops, one after the other.\<close>

datatype ip_event = Construct addr | Destruct addr | Stop

fun ip_exec :: "ip_event \<Rightarrow> ip_source \<Rightarrow> ip_source option" where
  "ip_exec (Construct x) s = ip_callback_ctor quiet x s"
| "ip_exec (Destruct x) s = ip_callback_dtor x s"
| "ip_exec Stop s = ip_stop quiet s"

fun ip_run :: "ip_event list \<Rightarrow> ip_source \<Rightarrow> ip_source option" where
  "ip_run [] s = Some s"
| "ip_run (e # es) s = Option.bind (ip_exec e s) (ip_run es)"

fun ip_wf :: "addr set \<Rightarrow> addr set \<Rightarrow> ip_event list \<Rightarrow> bool" where
  "ip_wf live used [] = True"
| "ip_wf live used (Construct x # es) = (x \<notin> used \<and> ip_wf (insert x live) (insert x used) es)"
| "ip_wf live used (Destruct x # es) = (x \<in> live \<and> ip_wf (live - {x}) used es)"
| "ip_wf live used (Stop # es) = ip_wf live used es"

text \<open>The specification: the callbacks that are called, the last one constructed first.\<close>

fun ip_calls :: "bool \<Rightarrow> addr list \<Rightarrow> ip_event list \<Rightarrow> addr list" where
  "ip_calls stopped pend [] = []"
| "ip_calls stopped pend (Construct x # es) = (if stopped then x # ip_calls stopped pend es else ip_calls stopped (x # pend) es)"
| "ip_calls stopped pend (Destruct x # es) = ip_calls stopped (remove1 x pend) es"
| "ip_calls stopped pend (Stop # es) = (if stopped then ip_calls stopped pend es else pend @ ip_calls True [] es)"

definition node_calls :: "ptr list \<Rightarrow> addr list" where
  "node_calls ps = List.map_filter (\<lambda>p. case p of Node x \<Rightarrow> Some x | _ \<Rightarrow> None) ps"

lemma node_calls_simps [simp]:
  "node_calls [] = []" "node_calls (ps @ qs) = node_calls ps @ node_calls qs" "node_calls [Node x] = [x]"
  "node_calls [End] = []" "node_calls (map Node xs) = xs"
  by (induction xs) (simp_all add: node_calls_def List.map_filter_def comp_def)

definition ip_rel :: "addr set \<Rightarrow> bool \<Rightarrow> addr list \<Rightarrow> ip_source \<Rightarrow> bool" where
  "ip_rel live stopped pend s \<longleftrightarrow> d_stop_requested s = stopped \<and> distinct pend
     \<and> (if stopped then d_list s = Null \<and> pend = [] \<and> (\<forall>x \<in> live. d_called s (Node x))
        else set pend = live \<and> chain (d_next s) (d_list s) pend \<and> (\<forall>x \<in> live. \<not> d_called s (Node x)))"

lemma ip_rel_construct:
  assumes "ip_rel live stopped pend s" and "x \<notin> live"
  shows "\<exists>t. ip_callback_ctor quiet x s = Some t \<and> ip_rel (insert x live) stopped (if stopped then pend else x # pend) t
    \<and> node_calls (calls t) = node_calls (calls s) @ (if stopped then [x] else [])"
proof -
  let ?s = "s\<lparr>d_next := (d_next s)(Node x := Null), d_called := (d_called s)(Node x := False)\<rparr>"
  have x: "x \<notin> set pend" using assms by (auto simp: ip_rel_def split: if_splits)
  show ?thesis
  proof (cases stopped)
    case True
    with assms show ?thesis
      by (auto simp: ip_rel_def ip_callback_ctor_def ip_insert_def ip_call_def Let_def)
  next
    case False
    with assms x have "chain (d_next ?s) (d_list ?s) pend" by (simp add: ip_rel_def chain_upd)
    from insert_chain [OF this x, of quiet] obtain t where
      t: "ip_insert quiet (Node x) ?s = Some t" "chain (d_next t) (d_list t) (x # pend)" "d_called t = d_called ?s"
        "calls t = calls s" "d_stop_requested t = d_stop_requested s" by auto
    with False assms x show ?thesis by (auto simp: ip_rel_def ip_callback_ctor_def)
  qed
qed

lemma ip_rel_destruct:
  assumes "ip_rel live stopped pend s" and "x \<in> live"
  shows "\<exists>t. ip_callback_dtor x s = Some t \<and> ip_rel (live - {x}) stopped (remove1 x pend) t \<and> calls t = calls s"
proof (cases stopped)
  case True
  with assms show ?thesis by (auto simp: ip_rel_def ip_callback_dtor_def ip_remove_def)
next
  case False
  with assms have "chain (d_next s) (d_list s) pend" "distinct pend" "\<not> d_called s (Node x)" by (auto simp: ip_rel_def)
  from remove_chain [OF this] obtain t where "ip_remove (Node x) s = Some t" "chain (d_next t) (d_list t) (remove1 x pend)"
    "d_called t = d_called s" "calls t = calls s" "d_stop_requested t = d_stop_requested s" by blast
  with False assms show ?thesis by (auto simp: ip_rel_def ip_callback_dtor_def)
qed

lemma ip_rel_stop:
  assumes "ip_rel live stopped pend s"
  shows "\<exists>t. ip_stop quiet s = Some t \<and> ip_rel live True [] t
    \<and> node_calls (calls t) = node_calls (calls s) @ (if stopped then [] else pend)"
proof (cases stopped)
  case True
  with assms show ?thesis by (auto simp: ip_rel_def ip_stop_def)
next
  case False
  with assms have "chain (d_next s) (d_list s) pend" "\<not> d_stop_requested s" by (auto simp: ip_rel_def)
  from stop_chain [OF this] assms show ?thesis by (auto simp: ip_rel_def False)
qed

lemma ip_run_calls:
  assumes "ip_rel live stopped pend s" and "ip_wf live used es" and "live \<subseteq> used"
  shows "\<exists>t. ip_run es s = Some t \<and> node_calls (calls t) = node_calls (calls s) @ ip_calls stopped pend es"
  using assms
proof (induction es arbitrary: live used stopped pend s)
  case (Cons e es)
  show ?case
  proof (cases e)
    case (Construct x)
    with Cons.prems have "x \<notin> live" by auto
    from ip_rel_construct [OF Cons.prems(1) this] obtain t where
      t: "ip_callback_ctor quiet x s = Some t" "ip_rel (insert x live) stopped (if stopped then pend else x # pend) t"
        "node_calls (calls t) = node_calls (calls s) @ (if stopped then [x] else [])" by blast
    have "ip_wf (insert x live) (insert x used) es" "insert x live \<subseteq> insert x used" using Cons.prems Construct by auto
    from Cons.IH [OF t(2) this] t Construct show ?thesis by auto
  next
    case (Destruct x)
    with Cons.prems have "x \<in> live" by auto
    from ip_rel_destruct [OF Cons.prems(1) this] obtain t where
      t: "ip_callback_dtor x s = Some t" "ip_rel (live - {x}) stopped (remove1 x pend) t" "calls t = calls s" by blast
    have "ip_wf (live - {x}) used es" "live - {x} \<subseteq> used" using Cons.prems Destruct by auto
    from Cons.IH [OF t(2) this] t Destruct show ?thesis by auto
  next
    case Stop
    from ip_rel_stop [OF Cons.prems(1)] obtain t where
      t: "ip_stop quiet s = Some t" "ip_rel live True [] t"
        "node_calls (calls t) = node_calls (calls s) @ (if stopped then [] else pend)" by blast
    have "ip_wf live used es" using Cons.prems Stop by auto
    from Cons.IH [OF t(2) this Cons.prems(3)] t Stop Cons.prems(1) show ?thesis by (auto simp: ip_rel_def)
  qed
qed simp

section \<open>Properties\<close>

text \<open>
  C4: Any sequence of constructing and destroying callbacks and of stops is carried out without hanging and
  calls exactly the callbacks of the specification: at the first stop those constructed and not destroyed,
  the last one first, and each later one when it is constructed.
\<close>

theorem in_place_stop_calls:
  assumes "ip_wf {} {} es"
  shows "\<exists>t. ip_run es ip_new = Some t \<and> node_calls (calls t) = ip_calls False [] es"
proof -
  have "ip_rel {} False [] ip_new" by (simp add: ip_rel_def ip_new_def)
  from ip_run_calls [OF this assms] show ?thesis by (simp add: ip_new_def)
qed

theorem in_place_stop_calls_witness:
  "\<exists>t. ip_run [Construct 1, Construct 2, Construct 3, Destruct 2, Stop, Construct 4, Stop, Destruct 1] ip_new = Some t
     \<and> node_calls (calls t) = [3, 1, 4]"
  using in_place_stop_calls [of "[Construct 1, Construct 2, Construct 3, Destruct 2, Stop, Construct 4, Stop, Destruct 1]"] by simp

text \<open>
  C37: A thread that finds the marker when it constructs a callback, or stops, never gets out of its loop, not even when the
  thread that holds the list puts it back: the loops do not load the head again. Whatever other
  threads do to the source between the turns, the local head stays the marker.
\<close>

theorem marker_never_left:
  "fold (\<lambda>interfere (ok, head, s). insert_turn callback head (interfere s)) fs (False, Marker, s)
     = (False, Marker, snd (snd (fold (\<lambda>interfere (ok, head, s). insert_turn callback head (interfere s)) fs (False, Marker, s))))
   \<and> fold (\<lambda>interfere (ok, head, s). stop_turn head (interfere s)) fs (False, Marker, s) = (False, Marker, fold (\<lambda>f. f) fs s)"
proof (induction fs arbitrary: s)
  case (Cons f fs)
  from Cons.IH [of "(f s)\<lparr>d_next := (d_next (f s))(callback := Marker)\<rparr>"] Cons.IH [of "f s"] show ?case
    by (simp add: insert_turn_def stop_turn_def Let_def)
qed simp

text \<open>
  A callback that destroys another callback of the same source while the stop calls it hangs: the
  list holds the marker until all callbacks have been called, and the other one has not been called yet.
\<close>

theorem destroy_other_in_callback:
  "\<exists>s. ip_run [Construct 1, Construct 2] ip_new = Some s
     \<and> ip_stop (\<lambda>x s. if x = 2 then ip_callback_dtor 1 s else Some s) s = None"
proof -
  define s where "s = \<lparr>d_list = Node 2, d_next = (\<lambda>_. Null)(Node 1 := End, Node 2 := Node 1), d_called = (\<lambda>_. False), d_stop_requested = False, calls = []\<rparr>"
  have run: "ip_run [Construct 1, Construct 2] ip_new = Some s"
    by (simp add: ip_callback_ctor_def ip_insert_def ip_new_def loop_while_step insert_turn_def cas_list_def s_def Let_def fun_eq_iff fun_upd_def)
  have spin: "loop_while (\<lambda>(ok, head, s). \<not> ok) (\<lambda>(ok, head, s). Some (remove_turn head s)) (False, Marker, u) = None"
    if "d_list u = Marker" for u
    by (rule loop_while_diverges [where I = "\<lambda>(ok, head, s). \<not> ok \<and> head = Marker \<and> d_list s = Marker"])
      (use that in \<open>auto simp: remove_turn_def\<close>)
  have "ip_call (\<lambda>x s. if x = 2 then ip_callback_dtor 1 s else Some s) (Node 2) u = None"
    if "d_list u = Marker" "\<not> d_called u (Node 1)" for u
    using that spin by (simp add: ip_call_def ip_callback_dtor_def ip_remove_def Let_def)
  then have "call_all (\<lambda>x s. if x = 2 then ip_callback_dtor 1 s else Some s) (Node 2) u = None"
    if "d_list u = Marker" "\<not> d_called u (Node 1)" for u
    using that by (simp add: call_all_def loop_while.simps Let_def)
  then have "ip_stop (\<lambda>x s. if x = 2 then ip_callback_dtor 1 s else Some s) s = None"
    by (simp add: ip_stop_def s_def loop_while_step stop_turn_def cas_list_def Let_def)
  with run show ?thesis by blast
qed

end
