(* ===== verification/Signatures.thy ===== *)
theory Signatures
  imports Prelude
begin

text \<open>
  Completion signatures: \<^verbatim>\<open>completion_signatures<S...>\<close> and the class templates of
  \<^verbatim>\<open>src/src/nstd/hidden_names\<close> and \<^verbatim>\<open>src/src/nstd/execution\<close> that compute with them. A list of types is a
  list, a template that is selected by matching is a \<^theory_text>\<open>fun\<close> with the same cases in the same order.
  A C++ type is a named type, \<^verbatim>\<open>std::exception_ptr\<close> or \<^verbatim>\<open>void\<close>.
\<close>

section \<open>Model\<close>

datatype tag = Set_Value | Set_Error | Set_Stopped

datatype 't ctype = Type 't | Exception_Ptr_T | Void_T

datatype 't signature = Sig (sig_tag: tag) (sig_args: "'t ctype list")

type_synonym 't signatures = "'t signature list"

text \<open>\<^verbatim>\<open>completion_signature\<close>: one error, no argument for stopped, any number of values.\<close>

definition completion_signature :: "'t signature \<Rightarrow> bool" where
  "completion_signature s =
     (case sig_tag s of
        Set_Error \<Rightarrow> length (sig_args s) = 1
      | Set_Stopped \<Rightarrow> sig_args s = []
      | Set_Value \<Rightarrow> True)"

definition set_stopped_sig :: "'t signature" where
  "set_stopped_sig = Sig Set_Stopped []"

definition set_error_exception :: "'t signature" where
  "set_error_exception = Sig Set_Error [Exception_Ptr_T]"

definition sends_stopped :: "'t signatures \<Rightarrow> bool" where
  "sends_stopped sigs = (\<exists>s \<in> set sigs. s = set_stopped_sig)"

definition compl_sig :: "tag \<Rightarrow> 't ctype \<Rightarrow> 't signature" where
  "compl_sig tag a = (if a = Void_T then Sig tag [] else Sig tag [a])"

definition unique_aux :: "bool \<Rightarrow> 't signature \<Rightarrow> 't signatures \<Rightarrow> 't signatures" where
  "unique_aux new s0 ts = (if new then ts @ [s0] else ts)"

fun unique_completion_signatures :: "'t signatures \<Rightarrow> 't signatures \<Rightarrow> 't signatures" where
  "unique_completion_signatures ts [] = ts"
| "unique_completion_signatures ts (s0 # s1) =
     unique_completion_signatures (unique_aux (list_all (\<lambda>t. s0 \<noteq> t) ts) s0 ts) s1"

fun merge_completion_signatures :: "'t signatures list \<Rightarrow> 't signatures" where
  "merge_completion_signatures [] = []"
| "merge_completion_signatures [ts] = ts"
| "merge_completion_signatures [list1, list2] = unique_completion_signatures list1 list2"
| "merge_completion_signatures (list1 # list2 # h # tail) =
     merge_completion_signatures (merge_completion_signatures [list1, list2] # h # tail)"

fun filter_completions_to :: "tag \<Rightarrow> 't signatures \<Rightarrow> 't signatures \<Rightarrow> 't signatures" where
  "filter_completions_to cpo to [] = to"
| "filter_completions_to cpo to (Sig t args # from) =
     (if t = cpo then filter_completions_to cpo (to @ [Sig cpo args]) from
      else filter_completions_to cpo to from)"

definition filter_completions :: "tag \<Rightarrow> 't signatures \<Rightarrow> 't signatures" where
  "filter_completions cpo sigs = filter_completions_to cpo [] sigs"

text \<open>\<^verbatim>\<open>value_types_of_t\<close> and \<^verbatim>\<open>error_types_of_t\<close> with their \<^verbatim>\<open>Tuple\<close> and \<^verbatim>\<open>Variant\<close> templates as functions.\<close>

definition value_types_of :: "'t signatures \<Rightarrow> ('t ctype list \<Rightarrow> 'a) \<Rightarrow> ('a list \<Rightarrow> 'b) \<Rightarrow> 'b" where
  "value_types_of sigs tuple variant = variant (map (\<lambda>s. tuple (sig_args s)) (filter_completions Set_Value sigs))"

definition error_types_of :: "'t signatures \<Rightarrow> ('t ctype list \<Rightarrow> 'b) \<Rightarrow> 'b" where
  "error_types_of sigs variant = variant (map (\<lambda>s. sig_args s ! 0) (filter_completions Set_Error sigs))"

definition default_set_value :: "'t ctype list \<Rightarrow> 't signatures" where
  "default_set_value as = [Sig Set_Value as]"

definition default_set_error :: "'t ctype \<Rightarrow> 't signatures" where
  "default_set_error e = [Sig Set_Error [e]]"

text \<open>The \<^verbatim>\<open>SetStopped\<close> parameter is there and not used.\<close>

definition make_completion_signatures ::
    "'t signatures \<Rightarrow> 't signatures \<Rightarrow> ('t ctype list \<Rightarrow> 't signatures) \<Rightarrow> ('t ctype \<Rightarrow> 't signatures)
     \<Rightarrow> 't signatures \<Rightarrow> 't signatures" where
  "make_completion_signatures sender add set_value set_error set_stopped =
     merge_completion_signatures
       [add,
        value_types_of sender set_value merge_completion_signatures,
        error_types_of sender (\<lambda>es. merge_completion_signatures (map set_error es)),
        if sends_stopped sender then [set_stopped_sig] else []]"

text \<open>\<^verbatim>\<open>add_signatures_t\<close>.\<close>

fun add_unique :: "'t signature \<Rightarrow> 't signatures \<Rightarrow> 't signatures \<Rightarrow> 't signatures" where
  "add_unique i r [] = r @ [i]"
| "add_unique i r (h # t) = (if h = i then r @ [i] @ t else add_unique i (r @ [h]) t)"

fun add_signatures :: "'t signatures \<Rightarrow> 't signatures \<Rightarrow> 't signatures" where
  "add_signatures list [] = list"
| "add_signatures list [item] = add_unique item [] list"
| "add_signatures list (h # item # tail) = add_signatures (add_signatures list [h]) (item # tail)"

text \<open>The lists \<^verbatim>\<open>let\<close> puts together.\<close>

fun join_completions :: "'t signatures list \<Rightarrow> 't signatures" where
  "join_completions [] = []"
| "join_completions [c] = c"
| "join_completions (a # b # t) = join_completions ((a @ b) # t)"

section \<open>What the templates compute\<close>

lemma none_equal [simp]: "list_all (\<lambda>t. s0 \<noteq> t) ts \<longleftrightarrow> s0 \<notin> set ts"
  by (auto simp: list_all_iff)

lemma set_unique [simp]: "set (unique_completion_signatures ts ss) = set ts \<union> set ss"
  by (induction ts ss rule: unique_completion_signatures.induct)
    (auto simp: unique_aux_def)

lemma distinct_unique: "distinct ts \<Longrightarrow> distinct (unique_completion_signatures ts ss)"
  by (induction ts ss rule: unique_completion_signatures.induct)
    (auto simp: unique_aux_def)

lemma unique_prefix: "\<exists>us. unique_completion_signatures ts ss = ts @ us"
proof (induction ts ss rule: unique_completion_signatures.induct)
  case (2 ts s0 s1)
  then show ?case by (cases "s0 \<in> set ts") (auto simp: unique_aux_def)
qed simp

lemma set_merge [simp]: "set (merge_completion_signatures ls) = (\<Union>l \<in> set ls. set l)"
  by (induction ls rule: merge_completion_signatures.induct) auto

lemma distinct_merge: "distinct (hd (ls @ [[]])) \<Longrightarrow> distinct (merge_completion_signatures ls)"
  by (induction ls rule: merge_completion_signatures.induct) (auto simp: distinct_unique)

lemma filter_completions_to_eq:
  "filter_completions_to cpo to sigs = to @ filter (\<lambda>s. sig_tag s = cpo) sigs"
  by (induction cpo to sigs rule: filter_completions_to.induct) auto

lemma filter_completions_eq [simp]: "filter_completions cpo sigs = filter (\<lambda>s. sig_tag s = cpo) sigs"
  by (simp add: filter_completions_def filter_completions_to_eq)

lemma join_completions_eq [simp]: "join_completions ls = concat ls"
  by (induction ls rule: join_completions.induct) auto

lemma add_unique_eq: "add_unique i r ts = (if i \<in> set ts then r @ ts else r @ ts @ [i])"
  by (induction i r ts rule: add_unique.induct) auto

lemma set_add_signatures [simp]: "set (add_signatures ts ss) = set ts \<union> set ss"
  by (induction ts ss rule: add_signatures.induct) (auto simp: add_unique_eq)

lemma set_make:
  "set (make_completion_signatures sender add sv se st) =
     set add \<union> (\<Union>s \<in> {s \<in> set sender. sig_tag s = Set_Value}. set (sv (sig_args s)))
       \<union> (\<Union>s \<in> {s \<in> set sender. sig_tag s = Set_Error}. set (se (sig_args s ! 0)))
       \<union> (if sends_stopped sender then {set_stopped_sig} else {})"
  by (auto simp: make_completion_signatures_def value_types_of_def error_types_of_def)

lemma stopped_valid: "completion_signature s \<Longrightarrow> sig_tag s = Set_Stopped \<longleftrightarrow> s = set_stopped_sig"
  by (cases s) (auto simp: completion_signature_def set_stopped_sig_def)

lemma error_valid: "completion_signature s \<Longrightarrow> sig_tag s = Set_Error \<Longrightarrow> s = Sig Set_Error [sig_args s ! 0]"
  by (cases s) (auto simp: completion_signature_def length_Suc_conv)

lemma make_default:
  assumes "list_all completion_signature sender"
  shows "set (make_completion_signatures sender add default_set_value default_set_error st) = set add \<union> set sender"
proof -
  have val: "sig_tag s = Set_Value \<Longrightarrow> Sig Set_Value (sig_args s) = s" for s :: "'a signature"
    by (cases s) simp
  have err: "Sig Set_Error [sig_args s ! 0] = s" if "s \<in> set sender" "sig_tag s = Set_Error" for s
    using error_valid [of s] assms that by (auto simp: list_all_iff)
  have stop: "s = set_stopped_sig" if "s \<in> set sender" "sig_tag s = Set_Stopped" for s
    using stopped_valid [of s] assms that by (auto simp: list_all_iff)
  have "set sender = {s \<in> set sender. sig_tag s = Set_Value} \<union> {s \<in> set sender. sig_tag s = Set_Error}
      \<union> (if sends_stopped sender then {set_stopped_sig} else {})"
    using stop tag.exhaust by (auto simp: sends_stopped_def)
  moreover have "(\<Union>s \<in> {s \<in> set sender. sig_tag s = Set_Value}. set (default_set_value (sig_args s)))
      = {s \<in> set sender. sig_tag s = Set_Value}"
    using val by (fastforce simp: default_set_value_def)
  moreover have "(\<Union>s \<in> {s \<in> set sender. sig_tag s = Set_Error}. set (default_set_error (sig_args s ! 0)))
      = {s \<in> set sender. sig_tag s = Set_Error}"
    using err by (auto simp: default_set_error_def)
  ultimately show ?thesis by (simp add: set_make Un_assoc)
qed

section \<open>Properties\<close>

text \<open>
  \<^verbatim>\<open>merge_completion_signatures\<close> of a list of signature lists is an order-preserving union: it
  begins with the first list, has the elements of all of them, and repeats none if the first
  list does not.
\<close>

theorem merge_signatures_union:
  "(\<exists>us. merge_completion_signatures (l # ls) = l @ us)
   \<and> set (merge_completion_signatures (l # ls)) = set l \<union> (\<Union>k \<in> set ls. set k)
   \<and> (distinct l \<longrightarrow> distinct (merge_completion_signatures (l # ls)))"
proof -
  have "\<exists>us. merge_completion_signatures (l # ls) = l @ us"
  proof (induction ls arbitrary: l)
    case (Cons k ks)
    obtain us where us: "unique_completion_signatures l k = l @ us" using unique_prefix by blast
    show ?case
    proof (cases ks)
      case (Cons h t)
      with Cons.IH [of "l @ us"] us show ?thesis by auto
    qed (use us in simp)
  qed simp
  moreover have "distinct l \<Longrightarrow> distinct (merge_completion_signatures (l # ls))"
    using distinct_merge [of "l # ls"] by simp
  ultimately show ?thesis by auto
qed

theorem merge_signatures_union_witness:
  "distinct (merge_completion_signatures [[Sig Set_Value [Type (1::nat)]], [set_stopped_sig, set_stopped_sig]])"
  using merge_signatures_union [of "[Sig Set_Value [Type (1::nat)]]" "[[set_stopped_sig, set_stopped_sig]]"] by simp

end
