(* ===== verification/Senders.thy ===== *)
theory Senders
  imports Signatures
begin

text \<open>
  Senders, receivers and the adaptors that are one operation state around another:
  \<^verbatim>\<open>just\<close>, \<^verbatim>\<open>then\<close>/\<^verbatim>\<open>upon_error\<close>/\<^verbatim>\<open>upon_stopped\<close>, \<^verbatim>\<open>let_value\<close>/\<^verbatim>\<open>let_error\<close>/\<^verbatim>\<open>let_stopped\<close>, \<^verbatim>\<open>on\<close>, \<^verbatim>\<open>add_value\<close>
  and \<^verbatim>\<open>inject_cancel\<close> of \<^verbatim>\<open>src/src/nstd/execution\<close>. A receiver is its three completion functions and its
  environment, a sender is what \<^verbatim>\<open>connect\<close> makes of a receiver, and starting an operation is a
  transformation of a state of the program, the type variable \<open>'w\<close>, whose result is \<^const>\<open>None\<close> when
  \<^verbatim>\<open>std::terminate\<close> is called. A callable given to an adaptor may change that state, return or throw.
\<close>

section \<open>Values, completions, receivers and senders\<close>

datatype 'v cval = Value 'v | Exception_Ptr 'v

datatype 'v completion = Completion (ctag: tag) (cargs: "'v cval list")

datatype 'v invoked = Returns "'v cval" | Returns_Void | Throws 'v

record ('s, 'k) env =
  env_scheduler :: "'s option"
  env_stop_token :: "'k option"

type_synonym 'w act = "'w \<Rightarrow> 'w option"

record ('v, 'e, 'w) receiver =
  complete :: "'v completion \<Rightarrow> 'w act"
  get_env :: 'e

datatype ('v, 'w) connected = Connect_Throws 'v | Connect_Terminates | Connected "'w act"

record ('v, 't, 'e, 'w) sender =
  connect :: "('v, 'e, 'w) receiver \<Rightarrow> ('v, 'w) connected"
  get_completion_signatures :: "'e \<Rightarrow> 't signatures"

text \<open>A function declared \<^verbatim>\<open>noexcept\<close> around a connect.\<close>

definition noexcept_connect :: "('v, 'w) connected \<Rightarrow> ('v, 'w) connected" where
  "noexcept_connect c = (case c of Connect_Throws x \<Rightarrow> Connect_Terminates | _ \<Rightarrow> c)"

text \<open>\<^verbatim>\<open>get_stop_token\<close> of an environment that does not answer gives a \<^verbatim>\<open>never_stop_token\<close>, which is \<^const>\<open>None\<close>.\<close>

definition get_stop_token :: "('s, 'k) env \<Rightarrow> 'k option" where
  "get_stop_token e = env_stop_token e"

section \<open>just\<close>

definition just_start :: "tag \<Rightarrow> 'v cval list \<Rightarrow> ('v, 'e, 'w) receiver \<Rightarrow> 'w act" where
  "just_start signal d_value d_receiver = complete d_receiver (Completion signal d_value)"

definition just_sender :: "('v \<Rightarrow> 't) \<Rightarrow> tag \<Rightarrow> 'v list \<Rightarrow> ('v, 't, 'e, 'w) sender" where
  "just_sender ty signal as =
     \<lparr>connect = (\<lambda>r. Connected (just_start signal (map Value as) r)),
      get_completion_signatures = (\<lambda>_. [Sig signal (map (Type \<circ> ty) as), set_error_exception])\<rparr>"

definition just :: "('v \<Rightarrow> 't) \<Rightarrow> 'v list \<Rightarrow> ('v, 't, 'e, 'w) sender" where
  "just ty as = just_sender ty Set_Value as"

definition just_error :: "('v \<Rightarrow> 't) \<Rightarrow> 'v \<Rightarrow> ('v, 't, 'e, 'w) sender" where
  "just_error ty e = just_sender ty Set_Error [e]"

definition just_stopped :: "('v \<Rightarrow> 't) \<Rightarrow> ('v, 't, 'e, 'w) sender" where
  "just_stopped ty = just_sender ty Set_Stopped []"

section \<open>then, upon_error, upon_stopped\<close>

text \<open>
  The callable comes with what the type system knows of it: the result type for given argument
  types (\<^verbatim>\<open>invoke_result_t\<close>) and whether the call may throw (\<^verbatim>\<open>is_nothrow_invocable_v\<close>).
\<close>

record ('v, 't, 'w) callable =
  invoke :: "'v cval list \<Rightarrow> 'w \<Rightarrow> 'w \<times> 'v invoked"
  invoke_result :: "'t ctype list \<Rightarrow> 't ctype"
  nothrow_invocable :: "'t ctype list \<Rightarrow> bool"

definition then_receiver :: "tag \<Rightarrow> ('v, 't, 'w) callable \<Rightarrow> ('v, 'e, 'w) receiver \<Rightarrow> ('v, 'e, 'w) receiver" where
  "then_receiver tag d_fun d_receiver =
     \<lparr>complete = (\<lambda>c w.
        if ctag c = tag
        then (case invoke d_fun (cargs c) w of
                (w, Returns v) \<Rightarrow> complete d_receiver (Completion Set_Value [v]) w
              | (w, Returns_Void) \<Rightarrow> complete d_receiver (Completion Set_Value []) w
              | (w, Throws x) \<Rightarrow> complete d_receiver (Completion Set_Error [Exception_Ptr x]) w)
        else complete d_receiver c w),
      get_env = get_env d_receiver\<rparr>"

definition set_value_completions :: "('v, 't, 'w) callable \<Rightarrow> 't ctype list \<Rightarrow> 't signatures" where
  "set_value_completions f as = [compl_sig Set_Value (invoke_result f as)]"

definition set_stopped_completions :: "'t ctype list \<Rightarrow> 't signatures" where
  "set_stopped_completions as = [set_stopped_sig]"

definition potentially_throwing :: "('v, 't, 'w) callable \<Rightarrow> 't ctype list \<Rightarrow> bool" where
  "potentially_throwing f as = (\<not> nothrow_invocable f as)"

definition then_signatures :: "tag \<Rightarrow> ('v, 't, 'w) callable \<Rightarrow> 't signatures \<Rightarrow> 't signatures" where
  "then_signatures tag f sigs =
     (case tag of
        Set_Value \<Rightarrow>
          make_completion_signatures sigs
            (merge_completion_signatures
              [if value_types_of sigs (potentially_throwing f) (list_ex id) then [set_error_exception] else [],
               error_types_of sigs (map (\<lambda>e. Sig Set_Error [e]))])
            (set_value_completions f) default_set_error [set_stopped_sig]
      | Set_Error \<Rightarrow> []
      | Set_Stopped \<Rightarrow>
          make_completion_signatures sigs [compl_sig Set_Value (invoke_result f [])]
            set_stopped_completions default_set_error [set_stopped_sig])"

definition then_sender :: "tag \<Rightarrow> ('v, 't, 'e, 'w) sender \<Rightarrow> ('v, 't, 'w) callable \<Rightarrow> ('v, 't, 'e, 'w) sender" where
  "then_sender tag d_sender d_fun =
     \<lparr>connect = (\<lambda>r. connect d_sender (then_receiver tag d_fun r)),
      get_completion_signatures = (\<lambda>e. then_signatures tag d_fun (get_completion_signatures d_sender e))\<rparr>"

section \<open>let_value, let_error, let_stopped\<close>

text \<open>
  \<open>make_sender\<close> is the function that is given the completion's arguments; the signatures of the sender
  it returns are known from the types of the arguments. The completion functions of the receiver
  are \<^verbatim>\<open>noexcept\<close>, so an exception of the function, or of the connect, ends the program.
\<close>

record ('v, 't, 'e, 'w) sender_fun =
  make_sender :: "'v cval list \<Rightarrow> 'w \<Rightarrow> 'w \<times> ('v + ('v, 't, 'e, 'w) sender)"
  made_signatures :: "'t ctype list \<Rightarrow> 'e \<Rightarrow> 't signatures"

definition inner_state :: "('v, 't, 'e, 'w) sender_fun \<Rightarrow> ('v, 'e, 'w) receiver \<Rightarrow> 'v cval list \<Rightarrow> 'w act" where
  "inner_state f receiver args w =
     (case make_sender f args w of
        (w, Inl x) \<Rightarrow> None
      | (w, Inr s) \<Rightarrow> (case connect s receiver of Connected start \<Rightarrow> start w | _ \<Rightarrow> None))"

definition let_receiver :: "tag \<Rightarrow> ('v, 't, 'e, 'w) sender_fun \<Rightarrow> ('v, 'e, 'w) receiver \<Rightarrow> ('v, 'e, 'w) receiver" where
  "let_receiver tag d_fun d_receiver =
     \<lparr>complete = (\<lambda>c w. if ctag c = tag then inner_state d_fun d_receiver (cargs c) w
                        else complete d_receiver c w),
      get_env = get_env d_receiver\<rparr>"

fun let_rest :: "tag \<Rightarrow> 't signatures \<Rightarrow> 't signatures" where
  "let_rest Set_Value sigs = join_completions [filter_completions Set_Error sigs, filter_completions Set_Stopped sigs]"
| "let_rest Set_Error sigs = join_completions [filter_completions Set_Value sigs, filter_completions Set_Stopped sigs]"
| "let_rest Set_Stopped sigs = join_completions [filter_completions Set_Value sigs, filter_completions Set_Error sigs]"

definition transform_completions :: "('v, 't, 'e, 'w) sender_fun \<Rightarrow> 'e \<Rightarrow> 't signatures \<Rightarrow> 't signatures" where
  "transform_completions f e sigs = join_completions (map (\<lambda>s. made_signatures f (sig_args s) e) sigs)"

definition let_signatures :: "tag \<Rightarrow> ('v, 't, 'e, 'w) sender_fun \<Rightarrow> 'e \<Rightarrow> 't signatures \<Rightarrow> 't signatures" where
  "let_signatures tag f e sigs =
     join_completions [transform_completions f e (filter_completions tag sigs), let_rest tag sigs]"

definition let_sender :: "tag \<Rightarrow> ('v, 't, 'e, 'w) sender \<Rightarrow> ('v, 't, 'e, 'w) sender_fun \<Rightarrow> ('v, 't, 'e, 'w) sender" where
  "let_sender tag d_sender d_fun =
     \<lparr>connect = (\<lambda>r. connect d_sender (let_receiver tag d_fun r)),
      get_completion_signatures = (\<lambda>e. let_signatures tag d_fun e (get_completion_signatures d_sender e))\<rparr>"

section \<open>on\<close>

text \<open>\<open>schedule\<close> is the sender a scheduler gives. The environment that is replaced answers one query.\<close>

definition replace_env :: "'s \<Rightarrow> ('s, 'k) env \<Rightarrow> ('s, 'k) env" where
  "replace_env sch e = \<lparr>env_scheduler = Some sch, env_stop_token = None\<rparr>"

definition replace_receiver :: "'s \<Rightarrow> ('v, ('s, 'k) env, 'w) receiver \<Rightarrow> ('v, ('s, 'k) env, 'w) receiver" where
  "replace_receiver sch r = \<lparr>complete = complete r, get_env = replace_env sch (get_env r)\<rparr>"

definition on_state_start :: "'s \<Rightarrow> ('v, 't, ('s, 'k) env, 'w) sender \<Rightarrow> ('v, ('s, 'k) env, 'w) receiver \<Rightarrow> 'w act" where
  "on_state_start sch s r w =
     (case connect s (replace_receiver sch r) of
        Connected start \<Rightarrow> start w
      | Connect_Throws x \<Rightarrow> complete r (Completion Set_Error [Exception_Ptr x]) w
      | Connect_Terminates \<Rightarrow> None)"

text \<open>
  \<^verbatim>\<open>schedule_receiver\<close> has no other completion than \<^verbatim>\<open>set_value\<close>: with a scheduler whose sender has
  others the program is not accepted by the compiler.
\<close>

definition schedule_receiver :: "'s \<Rightarrow> ('v, 't, ('s, 'k) env, 'w) sender \<Rightarrow> ('v, ('s, 'k) env, 'w) receiver
    \<Rightarrow> ('v, ('s, 'k) env, 'w) receiver" where
  "schedule_receiver sch s r =
     \<lparr>complete = (\<lambda>c w. if ctag c = Set_Value then on_state_start sch s r w else None),
      get_env = get_env r\<rparr>"

definition no_value_completions :: "'t ctype list \<Rightarrow> 't signatures" where
  "no_value_completions as = []"

definition on_sender :: "('s \<Rightarrow> ('v, 't, ('s, 'k) env, 'w) sender) \<Rightarrow> 's \<Rightarrow> ('v, 't, ('s, 'k) env, 'w) sender
    \<Rightarrow> ('v, 't, ('s, 'k) env, 'w) sender" where
  "on_sender schedule sch s =
     \<lparr>connect = (\<lambda>r. noexcept_connect (connect (schedule sch) (schedule_receiver sch s r))),
      get_completion_signatures = (\<lambda>e.
        make_completion_signatures (get_completion_signatures s (replace_env sch e))
          (make_completion_signatures (get_completion_signatures (schedule sch) e) [set_error_exception]
             no_value_completions default_set_error [set_stopped_sig])
          default_set_value default_set_error [set_stopped_sig])\<rparr>"

section \<open>add_value, inject_cancel\<close>

text \<open>The \<^verbatim>\<open>set_stopped\<close> of \<^verbatim>\<open>add_value\<close>'s receiver has a template parameter nothing determines: it cannot be called.\<close>

definition add_value_receiver :: "'v list \<Rightarrow> ('v, 'e, 'w) receiver \<Rightarrow> ('v, 'e, 'w) receiver" where
  "add_value_receiver d_values d_downstream =
     \<lparr>complete = (\<lambda>c w. case ctag c of
        Set_Value \<Rightarrow> complete d_downstream (Completion Set_Value (cargs c @ map Value d_values)) w
      | Set_Error \<Rightarrow> complete d_downstream c w
      | Set_Stopped \<Rightarrow> None),
      get_env = get_env d_downstream\<rparr>"

definition make_set_value :: "('v \<Rightarrow> 't) \<Rightarrow> 'v list \<Rightarrow> 't ctype list \<Rightarrow> 't signatures" where
  "make_set_value ty vs as = [Sig Set_Value (as @ map (Type \<circ> ty) vs)]"

definition add_value :: "('v \<Rightarrow> 't) \<Rightarrow> ('v, 't, 'e, 'w) sender \<Rightarrow> 'v list \<Rightarrow> ('v, 't, 'e, 'w) sender" where
  "add_value ty upstream vs =
     \<lparr>connect = (\<lambda>r. connect upstream (add_value_receiver vs r)),
      get_completion_signatures = (\<lambda>e.
        make_completion_signatures (get_completion_signatures upstream e) []
          (make_set_value ty vs) default_set_error [set_stopped_sig])\<rparr>"

definition inject_env :: "'k \<Rightarrow> ('s, 'k) env \<Rightarrow> ('s, 'k) env" where
  "inject_env token e = \<lparr>env_scheduler = env_scheduler e, env_stop_token = Some token\<rparr>"

definition inject_receiver :: "'k \<Rightarrow> ('v, ('s, 'k) env, 'w) receiver \<Rightarrow> ('v, ('s, 'k) env, 'w) receiver" where
  "inject_receiver token r = \<lparr>complete = complete r, get_env = inject_env token (get_env r)\<rparr>"

definition inject_cancel :: "('v, 't, ('s, 'k) env, 'w) sender \<Rightarrow> 'k \<Rightarrow> ('v, 't, ('s, 'k) env, 'w) sender" where
  "inject_cancel s token =
     \<lparr>connect = (\<lambda>r. noexcept_connect (connect s (inject_receiver token r))),
      get_completion_signatures = (\<lambda>e. add_signatures (get_completion_signatures s e) [set_stopped_sig])\<rparr>"

section \<open>What a sender delivers\<close>

text \<open>
  \<open>delivers s e w c w'\<close>: connected with any receiver whose environment is \<open>e\<close> and started in the state \<open>w\<close>,
  the operation of \<open>s\<close> comes to the state \<open>w'\<close> and completes its receiver with \<open>c\<close> there, and does
  nothing else: what the receiver does is the result.
\<close>

definition delivers :: "('v, 't, 'e, 'w) sender \<Rightarrow> 'e \<Rightarrow> 'w \<Rightarrow> 'v completion \<Rightarrow> 'w \<Rightarrow> bool" where
  "delivers s e w c w' \<longleftrightarrow>
     (\<forall>r. get_env r = e \<longrightarrow> (\<exists>start. connect s r = Connected start \<and> start w = complete r c w'))"

definition then_result :: "tag \<Rightarrow> ('v, 't, 'w) callable \<Rightarrow> 'v completion \<Rightarrow> 'w \<Rightarrow> 'v completion \<times> 'w" where
  "then_result tag f c w =
     (if ctag c = tag
      then (case invoke f (cargs c) w of
              (w, Returns v) \<Rightarrow> (Completion Set_Value [v], w)
            | (w, Returns_Void) \<Rightarrow> (Completion Set_Value [], w)
            | (w, Throws x) \<Rightarrow> (Completion Set_Error [Exception_Ptr x], w))
      else (c, w))"

lemma complete_then:
  "complete (then_receiver tag f r) c w = (case then_result tag f c w of (c, w) \<Rightarrow> complete r c w)"
  by (simp add: then_receiver_def then_result_def split: prod.split invoked.split)

lemma complete_let:
  "complete (let_receiver tag g r) c w = (if ctag c = tag then inner_state g r (cargs c) w else complete r c w)"
  by (simp add: let_receiver_def)

lemma get_env_receivers [simp]:
  "get_env (then_receiver tag f r) = get_env r"
  "get_env (let_receiver tag g r) = get_env r"
  "get_env (add_value_receiver vs r) = get_env r"
  by (simp_all add: then_receiver_def let_receiver_def add_value_receiver_def)

lemma deliversD:
  "delivers s e w c w' \<Longrightarrow> get_env r = e \<Longrightarrow> \<exists>start. connect s r = Connected start \<and> start w = complete r c w'"
  by (simp add: delivers_def)

lemma deliversI:
  "(\<And>r. get_env r = e \<Longrightarrow> \<exists>start. connect s r = Connected start \<and> start w = complete r c w') \<Longrightarrow> delivers s e w c w'"
  by (simp add: delivers_def)

lemma delivers_just [step_intros]: "delivers (just_sender ty signal as) e w (Completion signal (map Value as)) w"
  by (simp add: delivers_def just_sender_def just_start_def)

lemma delivers_then [step_intros]:
  assumes "delivers s e w c w'" and "then_result tag f c w' = (c', w'')"
  shows "delivers (then_sender tag s f) e w c' w''"
proof (rule deliversI, goal_cases)
  case (1 r)
  then show ?case
    using deliversD [OF assms(1), of "then_receiver tag f r"] assms(2)
    by (simp add: then_sender_def complete_then)
qed

lemma delivers_let [step_intros]:
  assumes s: "delivers s e w c w1" and t: "ctag c = tag"
    and f: "make_sender f (cargs c) w1 = (w2, Inr s')" and s': "delivers s' e w2 c' w3"
  shows "delivers (let_sender tag s f) e w c' w3"
proof (rule deliversI, goal_cases)
  case e: (1 r)
  with s' obtain start' where st': "connect s' r = Connected start'" "start' w2 = complete r c' w3"
    by (auto simp: delivers_def)
  from s e have "\<exists>start. connect s (let_receiver tag f r) = Connected start \<and> start w = complete (let_receiver tag f r) c w1"
    unfolding delivers_def by simp
  with st' t f show ?case
    by (auto simp: let_sender_def let_receiver_def inner_state_def)
qed

lemma delivers_let_other [step_intros]:
  assumes "delivers s e w c w1" and "ctag c \<noteq> tag"
  shows "delivers (let_sender tag s f) e w c w1"
proof (rule deliversI, goal_cases)
  case (1 r)
  moreover have "complete (let_receiver tag f r) c w1 = complete r c w1"
    using assms(2) by (simp add: let_receiver_def)
  ultimately show ?case
    using deliversD [OF assms(1), of "let_receiver tag f r"] by (simp add: let_sender_def)
qed

lemma delivers_on [step_intros]:
  assumes sch: "delivers (schedule sch) e w c w1" and t: "ctag c = Set_Value"
    and s: "delivers s (replace_env sch e) w1 c' w2"
  shows "delivers (on_sender schedule sch s) e w c' w2"
proof (rule deliversI, goal_cases)
  case e: (1 r)
  let ?q = "schedule_receiver sch s r"
  have "get_env ?q = e" using e by (simp add: schedule_receiver_def)
  with sch obtain start where st: "connect (schedule sch) ?q = Connected start" "start w = complete ?q c w1"
    by (auto simp: delivers_def)
  have "get_env (replace_receiver sch r) = replace_env sch e" using e by (simp add: replace_receiver_def)
  with s obtain start' where st': "connect s (replace_receiver sch r) = Connected start'"
    "start' w1 = complete (replace_receiver sch r) c' w2" by (auto simp: delivers_def)
  have "complete ?q c w1 = complete r c' w2"
    using t st' by (simp add: schedule_receiver_def on_state_start_def) (simp add: replace_receiver_def)
  with st show ?case
    by (simp add: on_sender_def noexcept_connect_def)
qed

lemma delivers_inject [step_intros]:
  assumes "delivers s (inject_env token e) w c w'"
  shows "delivers (inject_cancel s token) e w c w'"
proof (rule deliversI, goal_cases)
  case e: (1 r)
  then have "get_env (inject_receiver token r) = inject_env token e" by (simp add: inject_receiver_def)
  with assms have "\<exists>start. connect s (inject_receiver token r) = Connected start
      \<and> start w = complete (inject_receiver token r) c w'" by (simp add: delivers_def)
  then show ?case
    by (auto simp: inject_cancel_def noexcept_connect_def) (simp add: inject_receiver_def)
qed

section \<open>Completions and the declared signatures\<close>

fun cval_type :: "('v \<Rightarrow> 't) \<Rightarrow> 'v cval \<Rightarrow> 't ctype" where
  "cval_type ty (Value v) = Type (ty v)"
| "cval_type ty (Exception_Ptr x) = Exception_Ptr_T"

definition sig_of :: "('v \<Rightarrow> 't) \<Rightarrow> 'v completion \<Rightarrow> 't signature" where
  "sig_of ty c = Sig (ctag c) (map (cval_type ty) (cargs c))"

text \<open>
  A sender keeps to its signatures when two receivers with the same environment that agree on the
  completions declared cannot be told apart by it: it never makes another completion.
\<close>

definition agree_on :: "('v \<Rightarrow> 't) \<Rightarrow> 't signature set \<Rightarrow> ('v, 'e, 'w) receiver \<Rightarrow> ('v, 'e, 'w) receiver \<Rightarrow> bool" where
  "agree_on ty S r r' \<longleftrightarrow> get_env r = get_env r' \<and> (\<forall>c. sig_of ty c \<in> S \<longrightarrow> complete r c = complete r' c)"

definition keeps_signatures :: "('v \<Rightarrow> 't) \<Rightarrow> ('v, 't, 'e, 'w) sender \<Rightarrow> bool" where
  "keeps_signatures ty s \<longleftrightarrow>
     (\<forall>r r'. agree_on ty (set (get_completion_signatures s (get_env r))) r r' \<longrightarrow> connect s r = connect s r')"

definition well_formed :: "('v, 't, 'e, 'w) sender \<Rightarrow> bool" where
  "well_formed s \<longleftrightarrow> (\<forall>e. list_all completion_signature (get_completion_signatures s e))"

text \<open>A callable behaves as its type says; so does a function that makes senders.\<close>

definition callable_typed :: "('v \<Rightarrow> 't) \<Rightarrow> ('v, 't, 'w) callable \<Rightarrow> bool" where
  "callable_typed ty f \<longleftrightarrow>
     (\<forall>args w. case snd (invoke f args w) of
        Returns v \<Rightarrow> invoke_result f (map (cval_type ty) args) = cval_type ty v
      | Returns_Void \<Rightarrow> invoke_result f (map (cval_type ty) args) = Void_T
      | Throws x \<Rightarrow> \<not> nothrow_invocable f (map (cval_type ty) args))"

definition sender_fun_typed :: "('v \<Rightarrow> 't) \<Rightarrow> ('v, 't, 'e, 'w) sender_fun \<Rightarrow> bool" where
  "sender_fun_typed ty f \<longleftrightarrow>
     (\<forall>args w s. snd (make_sender f args w) = Inr s \<longrightarrow>
        keeps_signatures ty s \<and> (\<forall>e. get_completion_signatures s e = made_signatures f (map (cval_type ty) args) e))"

lemma keepsD: "keeps_signatures ty s \<Longrightarrow> agree_on ty (set (get_completion_signatures s (get_env r))) r r' \<Longrightarrow> connect s r = connect s r'"
  by (simp add: keeps_signatures_def)

lemma sig_of_simps [simp]:
  "sig_tag (sig_of ty c) = ctag c" "sig_args (sig_of ty c) = map (cval_type ty) (cargs c)"
  "sig_of ty (Completion t as) = Sig t (map (cval_type ty) as)"
  by (simp_all add: sig_of_def)

lemma cval_type_not_void [simp]: "cval_type ty v \<noteq> Void_T"
  by (cases v) simp_all

lemma agree_onD: "agree_on ty S r r' \<Longrightarrow> sig_of ty c \<in> S \<Longrightarrow> complete r c = complete r' c"
  by (simp add: agree_on_def)

section \<open>Adaptors that wrap the receiver\<close>

text \<open>
  An adaptor whose operation is the operation of its sender with the receiver wrapped. It is enough
  that the wrapped receivers agree on what the sender declares when the receivers agree on what the
  adaptor declares.
\<close>

locale receiver_adaptor =
  fixes ty :: "'v \<Rightarrow> 't"
    and wrap :: "('v, 'e, 'w) receiver \<Rightarrow> ('v, 'f, 'w) receiver"
    and env :: "'e \<Rightarrow> 'f"
    and sigs :: "'e \<Rightarrow> 't signatures \<Rightarrow> 't signatures"
  assumes wrap_env: "get_env (wrap r) = env (get_env r)"
    and wrap_agree: "list_all completion_signature S \<Longrightarrow> agree_on ty (set (sigs (get_env r) S)) r r'
      \<Longrightarrow> sig_of ty c \<in> set S \<Longrightarrow> complete (wrap r) c = complete (wrap r') c"
begin

lemma wrap_agree_on:
  "list_all completion_signature S \<Longrightarrow> agree_on ty (set (sigs (get_env r) S)) r r' \<Longrightarrow> agree_on ty (set S) (wrap r) (wrap r')"
  using wrap_agree by (simp add: agree_on_def wrap_env)

lemma adaptor_keeps:
  assumes "keeps_signatures ty s" and "well_formed s"
  shows "keeps_signatures ty \<lparr>connect = (\<lambda>r. connect s (wrap r)),
    get_completion_signatures = (\<lambda>e. sigs e (get_completion_signatures s (env e)))\<rparr>"
  unfolding keeps_signatures_def
proof (intro allI impI, goal_cases)
  case (1 r r')
  then have "agree_on ty (set (get_completion_signatures s (get_env (wrap r)))) (wrap r) (wrap r')"
    using assms(2) by (intro wrap_agree_on) (simp_all add: well_formed_def wrap_env)
  with assms(1) have "connect s (wrap r) = connect s (wrap r')" by (rule keepsD)
  then show ?case by simp
qed

end

lemma error_sig_cases:
  assumes "list_all completion_signature S" and "sig_of ty c \<in> set S" and "ctag c = Set_Error"
  obtains e where "c = Completion Set_Error [e]"
proof -
  have "completion_signature (sig_of ty c)" using assms by (auto simp: list_all_iff)
  with assms(3) obtain e where "cargs c = [e]" by (auto simp: completion_signature_def length_Suc_conv)
  with assms(3) have "c = Completion Set_Error [e]" by (metis completion.collapse)
  then show thesis by (rule that)
qed

lemma stopped_sig_cases:
  assumes "list_all completion_signature S" and "sig_of ty c \<in> set S" and "ctag c = Set_Stopped"
  shows "c = Completion Set_Stopped []" and "sends_stopped S"
proof -
  have "completion_signature (sig_of ty c)" using assms by (auto simp: list_all_iff)
  with assms(3) have as: "cargs c = []" by (simp add: completion_signature_def)
  with assms(3) show c: "c = Completion Set_Stopped []" by (metis completion.collapse)
  with assms(2) show "sends_stopped S" by (force simp: sends_stopped_def set_stopped_sig_def)
qed

lemma error_sig_in_make:
  assumes "Sig Set_Error [e] \<in> set S"
  shows "Sig Set_Error [e] \<in> set (make_completion_signatures S add sv default_set_error st)"
  using assms by (force simp: set_make default_set_error_def)

lemma stopped_sig_in_make:
  "sends_stopped S \<Longrightarrow> Sig Set_Stopped [] \<in> set (make_completion_signatures S add sv se st)"
  by (simp add: set_make set_stopped_sig_def)

lemma value_sig_in_make:
  assumes "Sig Set_Value as \<in> set S" and "x \<in> set (sv as)"
  shows "x \<in> set (make_completion_signatures S add sv se st)"
  using assms by (force simp: set_make)

lemma then_adaptor:
  assumes f: "callable_typed ty f"
  shows "receiver_adaptor ty (then_receiver Set_Value f) (\<lambda>e. e) (\<lambda>e. then_signatures Set_Value f)"
proof (unfold_locales, goal_cases)
  case (2 S r r' c)
  let ?T = "then_signatures Set_Value f S"
  show ?case
  proof (cases "ctag c")
    case Set_Value
    then have c: "Sig Set_Value (map (cval_type ty) (cargs c)) \<in> set S" using 2(3) by (simp add: sig_of_def)
    have "sig_of ty (fst (then_result Set_Value f c w)) \<in> set ?T" for w
    proof (cases "invoke f (cargs c) w")
      case (Pair w' i)
      with f have i: "case i of Returns v \<Rightarrow> invoke_result f (map (cval_type ty) (cargs c)) = cval_type ty v
          | Returns_Void \<Rightarrow> invoke_result f (map (cval_type ty) (cargs c)) = Void_T
          | Throws x \<Rightarrow> potentially_throwing f (map (cval_type ty) (cargs c))"
        unfolding callable_typed_def potentially_throwing_def by (metis snd_conv)
      show ?thesis
      proof (cases i)
        case (Throws x)
        with i have "value_types_of S (potentially_throwing f) (list_ex id)"
          using c by (force simp: value_types_of_def list_ex_iff)
        with Throws Pair Set_Value show ?thesis
          by (simp add: then_result_def then_signatures_def set_make set_error_exception_def)
      qed (use i Pair Set_Value in \<open>auto simp: then_result_def then_signatures_def set_value_completions_def
          compl_sig_def intro!: value_sig_in_make [OF c]\<close>)
    qed
    with 2(2) show ?thesis
      by (auto simp: fun_eq_iff complete_then agree_on_def split: prod.split)
        (metis fst_conv)
  next
    case Set_Error
    with 2 obtain e where e: "c = Completion Set_Error [e]" by (blast elim: error_sig_cases)
    with 2(3) have "sig_of ty c \<in> set ?T" by (simp add: then_signatures_def error_sig_in_make)
    with 2(2) Set_Error show ?thesis by (simp add: then_receiver_def agree_on_def)
  next
    case Set_Stopped
    with 2 have "c = Completion Set_Stopped []" "sends_stopped S" by (auto dest: stopped_sig_cases)
    then have "sig_of ty c \<in> set ?T" by (simp add: then_signatures_def stopped_sig_in_make)
    with 2(2) Set_Stopped show ?thesis by (simp add: then_receiver_def agree_on_def)
  qed
qed simp

lemma let_adaptor:
  assumes f: "sender_fun_typed ty f"
  shows "receiver_adaptor ty (let_receiver tag f) (\<lambda>e. e) (\<lambda>e. let_signatures tag f e)"
proof (unfold_locales, goal_cases)
  case (2 S r r' c)
  let ?T = "let_signatures tag f (get_env r) S"
  show ?case
  proof (cases "ctag c = tag")
    case True
    have "inner_state f r (cargs c) w = inner_state f r' (cargs c) w" for w
    proof (cases "make_sender f (cargs c) w")
      case (Pair w' x)
      show ?thesis
      proof (cases x)
        case (Inr s)
        with f Pair have s: "keeps_signatures ty s"
          "get_completion_signatures s e = made_signatures f (map (cval_type ty) (cargs c)) e" for e
          by (auto simp: sender_fun_typed_def) (metis snd_conv)+
        have "set (get_completion_signatures s (get_env r)) \<subseteq> set ?T"
          using 2(3) True s(2) by (force simp: let_signatures_def transform_completions_def)
        with 2(2) have "agree_on ty (set (get_completion_signatures s (get_env r))) r r'"
          by (auto simp: agree_on_def)
        with s(1) have "connect s r = connect s r'" by (rule keepsD)
        with Pair Inr show ?thesis by (simp add: inner_state_def)
      qed (use Pair in \<open>simp add: inner_state_def\<close>)
    qed
    with True show ?thesis by (simp add: let_receiver_def fun_eq_iff)
  next
    case False
    then have "sig_of ty c \<in> set ?T"
      using 2(3) by (cases tag; cases "ctag c") (auto simp: let_signatures_def)
    with 2(2) False show ?thesis by (simp add: let_receiver_def agree_on_def)
  qed
qed simp

interpretation av: receiver_adaptor ty "add_value_receiver vs" "\<lambda>e. e"
  "\<lambda>e S. make_completion_signatures S [] (make_set_value ty vs) default_set_error [set_stopped_sig]" for ty vs
proof (unfold_locales, goal_cases)
  case (2 S r r' c)
  show ?case
  proof (cases "ctag c")
    case Set_Value
    then have "Sig Set_Value (map (cval_type ty) (cargs c)) \<in> set S" using 2(3) by (simp add: sig_of_def)
    from value_sig_in_make [OF this] 2(2) Set_Value show ?thesis
      by (simp add: add_value_receiver_def agree_on_def make_set_value_def comp_def)
  next
    case Set_Error
    with 2 obtain e where e: "c = Completion Set_Error [e]" by (blast elim: error_sig_cases)
    with 2(2,3) show ?thesis
      by (simp add: add_value_receiver_def agree_on_def error_sig_in_make)
  next
    case Set_Stopped
    then show ?thesis by (simp add: add_value_receiver_def)
  qed
qed simp

section \<open>Properties\<close>

lemma keeps_just: "keeps_signatures ty (just_sender ty signal as)" and well_formed_just: "well_formed (just ty as)"
  by (auto simp: keeps_signatures_def agree_on_def just_sender_def just_start_def comp_def
      well_formed_def just_def completion_signature_def set_error_exception_def)

text \<open>
  C21: \<^verbatim>\<open>then\<close> keeps to the signatures it declares: around a sender that keeps to its own, with a
  callable that returns and throws as its type says, it makes no other completion than the results
  of the callable, an exception if the callable may throw, and the errors and the stop of the sender.
\<close>

theorem then_keeps_signatures:
  assumes "keeps_signatures ty s" and "well_formed s" and "callable_typed ty f"
  shows "keeps_signatures ty (then_sender Set_Value s f)"
  using receiver_adaptor.adaptor_keeps [OF then_adaptor [OF assms(3)] assms(1,2)]
  by (simp add: then_sender_def)

definition half :: "(nat, nat, 'w) callable" where
  "half = \<lparr>invoke = (\<lambda>as w. case as of
       [Value v] \<Rightarrow> (w, if even v then Returns (Value (v div 2)) else Throws v)
     | _ \<Rightarrow> (w, Returns (Value 0))),
     invoke_result = (\<lambda>_. Type 0), nothrow_invocable = (\<lambda>ts. length ts \<noteq> 1)\<rparr>"

lemma half_typed: "callable_typed (\<lambda>_. 0) half"
  by (auto simp: callable_typed_def half_def split: list.split cval.split)

theorem then_keeps_signatures_witness:
  "keeps_signatures (\<lambda>_ :: nat. 0 :: nat) (then_sender Set_Value (just (\<lambda>_. 0) [7]) half)
   \<and> delivers (then_sender Set_Value (just (\<lambda>_. 0) [7]) half) () () (Completion Set_Error [Exception_Ptr 7]) ()"
proof -
  have "keeps_signatures (\<lambda>_. 0) (just (\<lambda>_. 0) [7])" by (simp add: just_def keeps_just)
  from then_keeps_signatures [OF this well_formed_just half_typed]
  have "keeps_signatures (\<lambda>_ :: nat. 0 :: nat) (then_sender Set_Value (just (\<lambda>_. 0) [7]) half)" .
  moreover have "delivers (then_sender Set_Value (just (\<lambda>_ :: nat. 0 :: nat) [7]) half) () () (Completion Set_Error [Exception_Ptr 7]) ()"
    unfolding just_def by (rule delivers_then [OF delivers_just]) (simp add: then_result_def half_def)
  ultimately show ?thesis ..
qed

text \<open>
  C22: \<^verbatim>\<open>let_value\<close>, \<^verbatim>\<open>let_error\<close> and \<^verbatim>\<open>let_stopped\<close> keep to their signatures: those of the senders the function
  makes for each completion with the tag, and the sender's completions with the other tags.
\<close>

theorem let_keeps_signatures:
  assumes "keeps_signatures ty s" and "well_formed s" and "sender_fun_typed ty f"
  shows "keeps_signatures ty (let_sender tag s f)"
  using receiver_adaptor.adaptor_keeps [OF let_adaptor [OF assms(3)] assms(1,2)]
  by (simp add: let_sender_def)

definition retry_later :: "(nat, nat, 'e, 'w) sender_fun" where
  "retry_later = \<lparr>make_sender = (\<lambda>as w. (w, Inr (just (\<lambda>_. 0) [length as]))),
     made_signatures = (\<lambda>_ _. [Sig Set_Value [Type 0], set_error_exception])\<rparr>"

theorem let_keeps_signatures_witness:
  "keeps_signatures (\<lambda>_ :: nat. 0 :: nat) (let_sender Set_Error (just (\<lambda>_. 0) [7]) retry_later)"
proof -
  have "keeps_signatures (\<lambda>_. 0) (just (\<lambda>_. 0) [7])" by (simp add: just_def keeps_just)
  moreover have "sender_fun_typed (\<lambda>_. 0) retry_later"
    by (auto simp: sender_fun_typed_def retry_later_def just_def keeps_just) (simp add: just_sender_def)
  ultimately show ?thesis using let_keeps_signatures well_formed_just by blast
qed

text \<open>
  \<^verbatim>\<open>on\<close> keeps to its signatures, the sender's in the environment with the scheduler, the errors and
  the stop of the schedule sender, and an exception, which it uses when connecting the sender on the
  scheduler's context throws.
\<close>

theorem on_keeps_signatures:
  assumes s: "keeps_signatures ty s" "well_formed s"
    and sch: "keeps_signatures ty (schedule sch)"
  shows "keeps_signatures ty (on_sender schedule sch s)"
  unfolding keeps_signatures_def
proof (intro allI impI, goal_cases)
  case (1 r r')
  let ?S = "get_completion_signatures s (replace_env sch (get_env r))"
  let ?T = "set (get_completion_signatures (on_sender schedule sch s) (get_env r))"
  have env: "get_env r = get_env r'" using 1 by (simp add: agree_on_def)
  have "list_all completion_signature ?S" using s(2) by (simp add: well_formed_def)
  note make_default [OF this]
  then have T: "set ?S \<subseteq> ?T" "set_error_exception \<in> ?T"
    by (simp_all add: on_sender_def) (simp add: set_make)
  have "agree_on ty (set (get_completion_signatures s (get_env (replace_receiver sch r))))
      (replace_receiver sch r) (replace_receiver sch r')"
    using 1 env T(1) by (auto simp: agree_on_def replace_receiver_def)
  with s(1) have con: "connect s (replace_receiver sch r) = connect s (replace_receiver sch r')" by (rule keepsD)
  have "complete r (Completion Set_Error [Exception_Ptr x]) = complete r' (Completion Set_Error [Exception_Ptr x])" for x
    using 1 T(2) by (simp add: agree_on_def set_error_exception_def)
  with con have "on_state_start sch s r = on_state_start sch s r'"
    by (simp add: on_state_start_def fun_eq_iff split: connected.split)
  with env have "schedule_receiver sch s r = schedule_receiver sch s r'"
    by (simp add: schedule_receiver_def fun_eq_iff)
  then show ?case by (simp add: on_sender_def)
qed

theorem on_keeps_signatures_witness:
  "keeps_signatures (\<lambda>_ :: nat. 0 :: nat) (on_sender (\<lambda>_ :: bool. just (\<lambda>_. 0) []) True (just (\<lambda>_. 0) [7]))"
  by (rule on_keeps_signatures) (simp_all add: just_def keeps_just well_formed_just [unfolded just_def])

text \<open>
  \<^verbatim>\<open>upon_error\<close> and \<^verbatim>\<open>upon_stopped\<close> do not keep to what they declare. \<^verbatim>\<open>upon_error\<close> declares no completion at
  all and completes with the result of its callable; \<^verbatim>\<open>upon_stopped\<close> does not declare the values of its
  sender, which it passes on.
\<close>

theorem upon_signatures_incomplete:
  "delivers (then_sender Set_Error (just_error (\<lambda>_. 0) 8) half) () w (Completion Set_Value [Value 4]) w
   \<and> get_completion_signatures (then_sender Set_Error (just_error (\<lambda>_. 0) 8) half) () = []
   \<and> delivers (then_sender Set_Stopped (just (\<lambda>_. 0) [8, 8]) half) () w (Completion Set_Value [Value 8, Value 8]) w
   \<and> sig_of (\<lambda>_. 0) (Completion Set_Value [Value 8, Value 8])
        \<notin> set (get_completion_signatures (then_sender Set_Stopped (just (\<lambda>_. 0) [8, 8]) half) ())"
proof (intro conjI)
  show "delivers (then_sender Set_Error (just_error (\<lambda>_. 0) 8) half) () w (Completion Set_Value [Value 4]) w"
    unfolding just_error_def by (rule delivers_then [OF delivers_just]) (simp add: then_result_def half_def)
  show "delivers (then_sender Set_Stopped (just (\<lambda>_. 0) [8, 8]) half) () w (Completion Set_Value [Value 8, Value 8]) w"
    using delivers_then [OF delivers_just [of "\<lambda>_. 0" Set_Value "[8, 8]" "()" w], of Set_Stopped half]
    by (simp add: just_def then_result_def)
  show "get_completion_signatures (then_sender Set_Error (just_error (\<lambda>_. 0) 8) half) () = []"
    by (simp add: then_sender_def then_signatures_def)
qed (auto simp: then_sender_def then_signatures_def set_make just_def just_sender_def compl_sig_def half_def
    set_stopped_sig_def set_stopped_completions_def default_set_error_def set_error_exception_def)

definition compose_calls :: "('v, 't, 'w) callable \<Rightarrow> ('v, 't, 'w) callable \<Rightarrow> ('v, 't, 'w) callable" where
  "compose_calls f g = \<lparr>invoke = (\<lambda>as w. case invoke f as w of
        (w, Returns v) \<Rightarrow> invoke g [v] w | (w, Returns_Void) \<Rightarrow> invoke g [] w | (w, Throws x) \<Rightarrow> (w, Throws x)),
     invoke_result = (\<lambda>ts. invoke_result g (if invoke_result f ts = Void_T then [] else [invoke_result f ts])),
     nothrow_invocable = (\<lambda>ts. nothrow_invocable f ts
        \<and> nothrow_invocable g (if invoke_result f ts = Void_T then [] else [invoke_result f ts]))\<rparr>"

text \<open>
  Two \<^verbatim>\<open>then\<close> in a row are one with the composed callable, in which an exception of the first skips
  the second: no intermediate result is lost or delivered twice.
\<close>

theorem then_fuses:
  "connect (then_sender Set_Value (then_sender Set_Value s f) g) r = connect (then_sender Set_Value s (compose_calls f g)) r"
proof -
  have "complete (then_receiver Set_Value f (then_receiver Set_Value g r)) c w
      = complete (then_receiver Set_Value (compose_calls f g) r) c w" for c w
    by (cases "ctag c = Set_Value"; cases "invoke f (cargs c) w"; cases "snd (invoke f (cargs c) w)")
      (simp_all add: complete_then then_result_def compose_calls_def split: prod.split invoked.split)
  then have "then_receiver Set_Value f (then_receiver Set_Value g r) = then_receiver Set_Value (compose_calls f g) r"
    by (intro receiver.equality) (simp_all add: fun_eq_iff)
  then show ?thesis by (simp add: then_sender_def)
qed

text \<open>
  A stop token does not pass \<^verbatim>\<open>on\<close>: the replaced environment answers only the query for the
  scheduler, so injecting a token around \<^verbatim>\<open>on\<close> changes nothing for the sender, when the scheduler's own
  sender does not use it, whereas the token injected below \<^verbatim>\<open>on\<close> is what the sender finds.
\<close>

theorem on_hides_stop_token:
  assumes "\<And>r r'. complete r = complete r' \<Longrightarrow> env_scheduler (get_env r) = env_scheduler (get_env r')
      \<Longrightarrow> connect (schedule sch) r = connect (schedule sch) r'"
  shows "connect (inject_cancel (on_sender schedule sch s) token) r = connect (on_sender schedule sch s) r
    \<and> get_stop_token (get_env (inject_receiver token (replace_receiver sch r))) = Some token"
proof
  have com: "complete (inject_receiver token r) = complete r" by (simp add: inject_receiver_def)
  have "replace_env sch (inject_env token (get_env r)) = replace_env sch (get_env r)"
    by (simp add: replace_env_def)
  then have rep: "replace_receiver sch (inject_receiver token r) = replace_receiver sch r"
    by (simp add: replace_receiver_def inject_receiver_def)
  have "complete (schedule_receiver sch s (inject_receiver token r)) = complete (schedule_receiver sch s r)"
    by (simp add: schedule_receiver_def on_state_start_def fun_eq_iff com rep split: connected.split)
  moreover have "env_scheduler (get_env (schedule_receiver sch s (inject_receiver token r)))
      = env_scheduler (get_env (schedule_receiver sch s r))"
    by (simp add: schedule_receiver_def inject_receiver_def inject_env_def)
  ultimately have "connect (schedule sch) (schedule_receiver sch s (inject_receiver token r))
      = connect (schedule sch) (schedule_receiver sch s r)" by (rule assms)
  then show "connect (inject_cancel (on_sender schedule sch s) token) r = connect (on_sender schedule sch s) r"
    by (simp add: inject_cancel_def on_sender_def noexcept_connect_def split: connected.split)
  show "get_stop_token (get_env (inject_receiver token (replace_receiver sch r))) = Some token"
    by (simp add: get_stop_token_def inject_receiver_def inject_env_def)
qed

definition record_completion :: "(nat, (bool, nat) env, nat completion list) receiver" where
  "record_completion = \<lparr>complete = (\<lambda>c w. Some (w @ [c])), get_env = \<lparr>env_scheduler = None, env_stop_token = None\<rparr>\<rparr>"

theorem on_hides_stop_token_witness:
  "connect (inject_cancel (on_sender (\<lambda>_. just (\<lambda>_. 0 :: nat) []) True (just (\<lambda>_. 0) [1])) 9) record_completion
     = connect (on_sender (\<lambda>_. just (\<lambda>_. 0 :: nat) []) True (just (\<lambda>_. 0) [1])) record_completion"
  by (rule on_hides_stop_token [THEN conjunct1]) (simp add: just_def just_sender_def just_start_def)

end
