(* ===== verification/When_All.thy ===== *)
theory When_All
  imports Senders
begin

text \<open>
  \<^verbatim>\<open>when_all\<close> of \<^verbatim>\<open>src/src/nstd/execution/when_all.hpp\<close>: an operation state with one inner operation for each
  sender. The inner operations complete in any order and on any thread, so the completion functions of
  the inner receivers are cut at their atomic accesses: a step is one of those pieces for one inner operation, and
  steps of different inner operations interleave. Completions that \<^verbatim>\<open>d_stop_source.stop()\<close> causes on the same
  stack are among the interleavings. Calling \<^verbatim>\<open>stop()\<close> and its return are two steps: an inner operation can stay inside
  the call, as \<^verbatim>\<open>in_place_stop_source::stop\<close> does not return when it finds another thread at work in it.
\<close>

section \<open>Model\<close>

datatype completion_kind = Kind_Value | Kind_Error | Kind_Stopped

text \<open>Where an inner operation is: not completed, or at a point of its receiver's completion function.\<close>

datatype 'v at =
    Waiting
  | At_Stop "'v completion"
  | In_Stop "'v completion"
  | At_Emplace "'v cval"
  | At_Complete
  | Finished

text \<open>
  \<open>d_result\<close> is the member of each inner state, \<open>d_stop_source\<close> whether it has been stopped, \<open>d_receiver\<close> what the
  receiver got; \<open>completed_with\<close> notes what each inner operation completed with, \<open>bad_access\<close> that an
  empty \<^verbatim>\<open>optional\<close> was dereferenced.
\<close>

record 'v wa_state =
  d_kind :: completion_kind
  d_count :: nat
  d_stop_source :: bool
  d_error :: "'v cval option"
  d_result :: "nat \<Rightarrow> 'v cval list option"
  d_receiver :: "'v completion list"
  at :: "nat \<Rightarrow> 'v at"
  completed_with :: "nat \<Rightarrow> 'v completion option"
  bad_access :: bool

definition wa_connect :: "nat \<Rightarrow> 'v wa_state" where
  "wa_connect n = \<lparr>d_kind = Kind_Value, d_count = n, d_stop_source = False, d_error = None, d_result = (\<lambda>_. None),
     d_receiver = [], at = (\<lambda>_. Waiting), completed_with = (\<lambda>_. None), bad_access = False\<rparr>"

text \<open>\<^verbatim>\<open>result()\<close> of all inner states, concatenated; \<^const>\<open>None\<close> if one has no value.\<close>

definition results :: "nat \<Rightarrow> 'v wa_state \<Rightarrow> 'v cval list option" where
  "results n s = (if \<exists>i \<in> set [0..<n]. d_result s i = None then None
                  else Some (concat (map (\<lambda>i. the (d_result s i)) [0..<n])))"

definition do_complete :: "nat \<Rightarrow> 'v wa_state \<Rightarrow> 'v completion option" where
  "do_complete n s =
     (case d_kind s of
        Kind_Value \<Rightarrow> map_option (Completion Set_Value) (results n s)
      | Kind_Error \<Rightarrow> map_option (\<lambda>e. Completion Set_Error [e]) (d_error s)
      | Kind_Stopped \<Rightarrow> Some (Completion Set_Stopped []))"

definition wa_complete :: "nat \<Rightarrow> nat \<Rightarrow> 'v wa_state \<Rightarrow> 'v wa_state" where
  "wa_complete n i s =
     (let s = s\<lparr>d_count := d_count s - 1, at := (at s)(i := Finished)\<rparr>
      in if d_count s = 0
         then (case do_complete n s of
                 Some c \<Rightarrow> s\<lparr>d_receiver := d_receiver s @ [c]\<rparr>
               | None \<Rightarrow> s\<lparr>bad_access := True\<rparr>)
         else s)"

text \<open>The begin of each completion function, up to its first atomic access.\<close>

definition wa_set_value :: "nat \<Rightarrow> 'v cval list \<Rightarrow> 'v wa_state \<Rightarrow> 'v wa_state" where
  "wa_set_value i args s =
     s\<lparr>d_result := (d_result s)(i := Some args), at := (at s)(i := At_Complete),
       completed_with := (completed_with s)(i := Some (Completion Set_Value args))\<rparr>"

definition wa_set_error :: "nat \<Rightarrow> 'v cval \<Rightarrow> 'v wa_state \<Rightarrow> 'v wa_state" where
  "wa_set_error i e s =
     (let s = s\<lparr>completed_with := (completed_with s)(i := Some (Completion Set_Error [e]))\<rparr>
      in if d_kind s = Kind_Value
         then s\<lparr>d_kind := Kind_Error, at := (at s)(i := At_Stop (Completion Set_Error [e]))\<rparr>
         else s\<lparr>at := (at s)(i := At_Complete)\<rparr>)"

definition wa_set_stopped :: "nat \<Rightarrow> 'v wa_state \<Rightarrow> 'v wa_state" where
  "wa_set_stopped i s =
     (let s = s\<lparr>completed_with := (completed_with s)(i := Some (Completion Set_Stopped []))\<rparr>
      in if d_kind s = Kind_Value
         then s\<lparr>d_kind := Kind_Stopped, at := (at s)(i := At_Stop (Completion Set_Stopped []))\<rparr>
         else s\<lparr>at := (at s)(i := At_Complete)\<rparr>)"

text \<open>The call of \<^verbatim>\<open>d_stop_source.stop()\<close>, and what follows when it returns: for an error, \<^verbatim>\<open>d_error.emplace\<close>.\<close>

definition wa_stop :: "nat \<Rightarrow> 'v completion \<Rightarrow> 'v wa_state \<Rightarrow> 'v wa_state" where
  "wa_stop i c s = s\<lparr>d_stop_source := True, at := (at s)(i := In_Stop c)\<rparr>"

definition wa_stopped :: "nat \<Rightarrow> 'v completion \<Rightarrow> 'v wa_state \<Rightarrow> 'v wa_state" where
  "wa_stopped i c s = s\<lparr>at := (at s)(i := (case cargs c of [e] \<Rightarrow> At_Emplace e | _ \<Rightarrow> At_Complete))\<rparr>"

definition wa_emplace_error :: "nat \<Rightarrow> 'v cval \<Rightarrow> 'v wa_state \<Rightarrow> 'v wa_state" where
  "wa_emplace_error i e s = s\<lparr>d_error := Some e, at := (at s)(i := At_Complete)\<rparr>"

text \<open>The callback on the outer stop token stops the inner operations too, at any time.\<close>

definition wa_on_stop :: "'v wa_state \<Rightarrow> 'v wa_state" where
  "wa_on_stop s = s\<lparr>d_stop_source := True\<rparr>"

text \<open>The steps of the code itself, and all steps: the return of a call of \<^verbatim>\<open>stop()\<close> is up to the stop source.\<close>

inductive wa_own :: "nat \<Rightarrow> 'v wa_state \<Rightarrow> 'v wa_state \<Rightarrow> bool" for n where
  set_value: "\<lbrakk>i < n; at s i = Waiting\<rbrakk> \<Longrightarrow> wa_own n s (wa_set_value i args s)"
| set_error: "\<lbrakk>i < n; at s i = Waiting\<rbrakk> \<Longrightarrow> wa_own n s (wa_set_error i e s)"
| set_stopped: "\<lbrakk>i < n; at s i = Waiting\<rbrakk> \<Longrightarrow> wa_own n s (wa_set_stopped i s)"
| stop: "\<lbrakk>i < n; at s i = At_Stop c\<rbrakk> \<Longrightarrow> wa_own n s (wa_stop i c s)"
| emplace: "\<lbrakk>i < n; at s i = At_Emplace e\<rbrakk> \<Longrightarrow> wa_own n s (wa_emplace_error i e s)"
| complete: "\<lbrakk>i < n; at s i = At_Complete\<rbrakk> \<Longrightarrow> wa_own n s (wa_complete n i s)"

inductive wa_move :: "nat \<Rightarrow> 'v wa_state \<Rightarrow> 'v wa_state \<Rightarrow> bool" for n where
  own: "wa_own n s t \<Longrightarrow> wa_move n s t"
| stop_returns: "\<lbrakk>i < n; at s i = In_Stop c\<rbrakk> \<Longrightarrow> wa_move n s (wa_stopped i c s)"

inductive wa_step :: "nat \<Rightarrow> 'v wa_state \<Rightarrow> 'v wa_state \<Rightarrow> bool" for n where
  move: "wa_move n s t \<Longrightarrow> wa_step n s t"
| on_stop: "wa_step n s (wa_on_stop s)"

inductive wa_reach :: "nat \<Rightarrow> 'v wa_state \<Rightarrow> bool" for n where
  connected: "wa_reach n (wa_connect n)"
| step: "wa_reach n s \<Longrightarrow> wa_step n s t \<Longrightarrow> wa_reach n t"

declare wa_own.intros [step_intros]

lemma wa_step_own: "wa_own n s t \<Longrightarrow> wa_step n s t"
  by (intro wa_step.move wa_move.own)

section \<open>Invariant\<close>

text \<open>The inner operations that have not yet decremented the count.\<close>

definition unfinished :: "nat \<Rightarrow> 'v wa_state \<Rightarrow> nat set" where
  "unfinished n s = {i. i < n \<and> at s i \<noteq> Finished}"

text \<open>What the kind means: who decided it, and where that one and the others are.\<close>

definition others :: "nat \<Rightarrow> nat \<Rightarrow> 'v wa_state \<Rightarrow> bool" where
  "others n i s \<longleftrightarrow> (\<forall>j < n. j \<noteq> i \<longrightarrow> at s j \<in> {Waiting, At_Complete, Finished})"

definition by_error :: "nat \<Rightarrow> nat \<Rightarrow> 'v cval \<Rightarrow> 'v wa_state \<Rightarrow> bool" where
  "by_error n i e s \<longleftrightarrow> i < n \<and> others n i s \<and> completed_with s i = Some (Completion Set_Error [e])
     \<and> (at s i \<in> {At_Stop (Completion Set_Error [e]), In_Stop (Completion Set_Error [e]), At_Emplace e} \<or> at s i \<in> {At_Complete, Finished} \<and> d_error s = Some e)"

definition by_stopped :: "nat \<Rightarrow> nat \<Rightarrow> 'v wa_state \<Rightarrow> bool" where
  "by_stopped n i s \<longleftrightarrow> i < n \<and> others n i s \<and> completed_with s i = Some (Completion Set_Stopped [])
     \<and> at s i \<in> {At_Stop (Completion Set_Stopped []), In_Stop (Completion Set_Stopped []), At_Complete, Finished}"

definition by_values :: "nat \<Rightarrow> 'v wa_state \<Rightarrow> bool" where
  "by_values n s \<longleftrightarrow> (\<forall>i < n. at s i = Waiting \<or> at s i \<in> {At_Complete, Finished}
     \<and> (\<exists>args. completed_with s i = Some (Completion Set_Value args) \<and> d_result s i = Some args))"

definition decided :: "nat \<Rightarrow> 'v wa_state \<Rightarrow> bool" where
  "decided n s \<longleftrightarrow> (case d_kind s of
      Kind_Value \<Rightarrow> by_values n s
    | Kind_Error \<Rightarrow> \<exists>i e. by_error n i e s
    | Kind_Stopped \<Rightarrow> \<exists>i. by_stopped n i s)"

text \<open>What the receiver gets.\<close>

definition verdict :: "nat \<Rightarrow> 'v wa_state \<Rightarrow> 'v completion \<Rightarrow> bool" where
  "verdict n s c \<longleftrightarrow>
     (\<exists>args. (\<forall>i < n. completed_with s i = Some (Completion Set_Value (args i)))
        \<and> c = Completion Set_Value (concat (map args [0..<n])))
   \<or> (\<exists>i < n. completed_with s i = Some c \<and> ctag c \<noteq> Set_Value)"

definition wa_inv :: "nat \<Rightarrow> 'v wa_state \<Rightarrow> bool" where
  "wa_inv n s \<longleftrightarrow>
     d_count s = card (unfinished n s) \<and> \<not> bad_access s \<and> decided n s
   \<and> (\<forall>i < n. at s i = Waiting \<longleftrightarrow> completed_with s i = None)
   \<and> (if unfinished n s = {} then \<exists>c. d_receiver s = [c] \<and> verdict n s c else d_receiver s = [])"

lemma stop_source_frame [simp]:
  "unfinished n (s\<lparr>d_stop_source := b\<rparr>) = unfinished n s"
  "decided n (s\<lparr>d_stop_source := b\<rparr>) = decided n s"
  "verdict n (s\<lparr>d_stop_source := b\<rparr>) c = verdict n s c"
  by (simp_all add: unfinished_def verdict_def decided_def by_values_def [abs_def] by_error_def [abs_def] by_stopped_def [abs_def]
      others_def [abs_def] cong: completion_kind.case_cong)

lemma unfinished_move:
  assumes "i < n" "at s i \<noteq> Finished" "at t = (at s)(i := a)" "a \<noteq> Finished"
  shows "unfinished n t = unfinished n s"
  using assms by (auto simp: unfinished_def)

lemma wa_inv_move:
  assumes inv: "wa_inv n s" and i: "i < n" "at s i \<noteq> Finished" "at t = (at s)(i := a)" "a \<noteq> Finished"
    and t: "d_count t = d_count s" "d_receiver t = d_receiver s" "bad_access t = bad_access s"
    and cw: "\<forall>j < n. at t j = Waiting \<longleftrightarrow> completed_with t j = None" and dec: "decided n t"
  shows "wa_inv n t"
proof -
  have u: "unfinished n t = unfinished n s" using i by (rule unfinished_move)
  moreover have "unfinished n s \<noteq> {}" using i by (auto simp: unfinished_def)
  ultimately show ?thesis using inv t cw dec by (simp add: wa_inv_def)
qed

text \<open>One that completes after the kind is decided.\<close>

lemma decided_late:
  assumes dec: "decided n s" and i: "i < n" "at s i = Waiting" and k: "d_kind s \<noteq> Kind_Value"
    and t: "d_kind t = d_kind s" "d_error t = d_error s" "at t = (at s)(i := At_Complete)"
      "completed_with t = (completed_with s)(i := x)"
  shows "decided n t"
proof (cases "d_kind s")
  case Kind_Error
  with dec obtain j e where j: "by_error n j e s" by (auto simp: decided_def)
  then have "j \<noteq> i" using i by (auto simp: by_error_def)
  with j t have "by_error n j e t" by (auto simp: by_error_def others_def)
  with Kind_Error t show ?thesis by (auto simp: decided_def)
next
  case Kind_Stopped
  with dec obtain j where j: "by_stopped n j s" by (auto simp: decided_def)
  then have "j \<noteq> i" using i by (auto simp: by_stopped_def)
  with j t have "by_stopped n j t" by (auto simp: by_stopped_def others_def)
  with Kind_Stopped t show ?thesis by (auto simp: decided_def)
qed (use k in simp)

lemma by_values_others: "by_values n s \<Longrightarrow> others n i s"
  by (auto simp: by_values_def others_def)

lemma decided_set_value:
  assumes "decided n s" "i < n" "at s i = Waiting"
  shows "decided n (wa_set_value i args s)"
proof (cases "d_kind s = Kind_Value")
  case True
  with assms have "by_values n (wa_set_value i args s)"
    by (auto simp: decided_def by_values_def wa_set_value_def)
  with True show ?thesis by (simp add: decided_def wa_set_value_def)
next
  case False
  then show ?thesis by (rule decided_late [OF assms]) (simp_all add: wa_set_value_def)
qed

lemma decided_set_error:
  assumes "decided n s" "i < n" "at s i = Waiting"
  shows "decided n (wa_set_error i e s)"
proof (cases "d_kind s = Kind_Value")
  case True
  with assms have "others n i s" by (simp add: decided_def by_values_others)
  with assms(2) True have "by_error n i e (wa_set_error i e s)"
    by (auto simp: by_error_def others_def wa_set_error_def Let_def)
  with True show ?thesis by (auto simp: decided_def wa_set_error_def Let_def)
next
  case False
  then show ?thesis by (rule decided_late [OF assms]) (simp_all add: wa_set_error_def Let_def False)
qed

lemma decided_set_stopped:
  assumes "decided n s" "i < n" "at s i = Waiting"
  shows "decided n (wa_set_stopped i s)"
proof (cases "d_kind s = Kind_Value")
  case True
  with assms have "others n i s" by (simp add: decided_def by_values_others)
  with assms(2) True have "by_stopped n i (wa_set_stopped i s)"
    by (auto simp: by_stopped_def others_def wa_set_stopped_def Let_def)
  with True show ?thesis by (auto simp: decided_def wa_set_stopped_def Let_def)
next
  case False
  then show ?thesis by (rule decided_late [OF assms]) (simp_all add: wa_set_stopped_def Let_def False)
qed

lemma decided_stop:
  assumes "decided n s" "i < n" "at s i = At_Stop c"
  shows "decided n (wa_stop i c s)"
proof (cases "d_kind s")
  case Kind_Value
  with assms show ?thesis by (auto simp: decided_def by_values_def)
next
  case Kind_Error
  with assms obtain j e where j: "by_error n j e s" by (auto simp: decided_def)
  with assms have "i = j" "c = Completion Set_Error [e]" by (auto simp: by_error_def others_def)
  with j have "by_error n i e (wa_stop i c s)" by (auto simp: by_error_def others_def wa_stop_def)
  with Kind_Error show ?thesis by (auto simp: decided_def wa_stop_def)
next
  case Kind_Stopped
  with assms obtain j where j: "by_stopped n j s" by (auto simp: decided_def)
  with assms have "i = j" "c = Completion Set_Stopped []" by (auto simp: by_stopped_def others_def)
  with j have "by_stopped n i (wa_stop i c s)" by (auto simp: by_stopped_def others_def wa_stop_def)
  with Kind_Stopped show ?thesis by (auto simp: decided_def wa_stop_def)
qed

lemma decided_stopped:
  assumes "decided n s" "i < n" "at s i = In_Stop c"
  shows "decided n (wa_stopped i c s)"
proof (cases "d_kind s")
  case Kind_Value
  with assms show ?thesis by (auto simp: decided_def by_values_def)
next
  case Kind_Error
  with assms obtain j e where j: "by_error n j e s" by (auto simp: decided_def)
  with assms have "i = j" "c = Completion Set_Error [e]" by (auto simp: by_error_def others_def)
  with j have "by_error n i e (wa_stopped i c s)" by (auto simp: by_error_def others_def wa_stopped_def)
  with Kind_Error show ?thesis by (auto simp: decided_def wa_stopped_def)
next
  case Kind_Stopped
  with assms obtain j where j: "by_stopped n j s" by (auto simp: decided_def)
  with assms have "i = j" "c = Completion Set_Stopped []" by (auto simp: by_stopped_def others_def)
  with j have "by_stopped n i (wa_stopped i c s)" by (auto simp: by_stopped_def others_def wa_stopped_def)
  with Kind_Stopped show ?thesis by (auto simp: decided_def wa_stopped_def)
qed

lemma decided_emplace:
  assumes "decided n s" "i < n" "at s i = At_Emplace e"
  shows "decided n (wa_emplace_error i e s)"
proof (cases "d_kind s")
  case Kind_Value
  with assms show ?thesis by (auto simp: decided_def by_values_def)
next
  case Kind_Error
  with assms obtain j e' where j: "by_error n j e' s" by (auto simp: decided_def)
  with assms have "i = j" "e = e'" by (auto simp: by_error_def others_def)
  with j have "by_error n i e (wa_emplace_error i e s)" by (auto simp: by_error_def others_def wa_emplace_error_def)
  with Kind_Error show ?thesis by (auto simp: decided_def wa_emplace_error_def)
next
  case Kind_Stopped
  with assms show ?thesis by (auto simp: decided_def by_stopped_def others_def)
qed

text \<open>The last decrement: what the kind says is what the receiver gets.\<close>

lemma decided_finish:
  assumes "decided n s" "i < n" "at s i = At_Complete" "at t = (at s)(i := Finished)"
    and "d_kind t = d_kind s" "d_error t = d_error s" "d_result t = d_result s" "completed_with t = completed_with s"
  shows "decided n t"
  using assms by (cases "d_kind s") (auto simp: decided_def by_values_def by_error_def by_stopped_def others_def)

lemma decided_verdict:
  assumes dec: "decided n s" and fin: "unfinished n s = {}"
  obtains c where "do_complete n s = Some c" "verdict n s c"
proof (cases "d_kind s")
  case Kind_Value
  define args where "args i = the (d_result s i)" for i
  have i: "completed_with s i = Some (Completion Set_Value (args i)) \<and> d_result s i = Some (args i)" if "i < n" for i
    using dec fin Kind_Value that by (fastforce simp: decided_def by_values_def unfinished_def args_def)
  then have "results n s = Some (concat (map args [0..<n]))"
    by (auto simp: results_def intro!: arg_cong [of _ _ concat])
  with i Kind_Value have "do_complete n s = Some (Completion Set_Value (concat (map args [0..<n])))"
    and "verdict n s (Completion Set_Value (concat (map args [0..<n])))"
    by (auto simp: do_complete_def verdict_def)
  then show thesis by (rule that)
next
  case Kind_Error
  with dec obtain j e where "by_error n j e s" by (auto simp: decided_def)
  with fin have "d_error s = Some e" "j < n" "completed_with s j = Some (Completion Set_Error [e])"
    by (auto simp: by_error_def unfinished_def)
  with Kind_Error show thesis by (intro that [of "Completion Set_Error [e]"]) (auto simp: do_complete_def verdict_def)
next
  case Kind_Stopped
  with dec obtain j where "by_stopped n j s" by (auto simp: decided_def)
  with Kind_Stopped show thesis
    by (intro that [of "Completion Set_Stopped []"]) (auto simp: do_complete_def verdict_def by_stopped_def)
qed

lemma unfinished_finish:
  assumes "i < n" "at s i = At_Complete" "at t = (at s)(i := Finished)"
  shows "unfinished n t = unfinished n s - {i}" and "i \<in> unfinished n s"
  using assms by (auto simp: unfinished_def)

lemma finite_unfinished [simp]: "finite (unfinished n s)"
  by (simp add: unfinished_def)

lemma wa_inv_complete:
  assumes inv: "wa_inv n s" and i: "i < n" "at s i = At_Complete"
  shows "wa_inv n (wa_complete n i s)"
proof -
  define u where "u = s\<lparr>d_count := d_count s - 1, at := (at s)(i := Finished)\<rparr>"
  have unfold: "wa_complete n i s = (if d_count u = 0 then (case do_complete n u of
      Some c \<Rightarrow> u\<lparr>d_receiver := d_receiver u @ [c]\<rparr> | None \<Rightarrow> u\<lparr>bad_access := True\<rparr>) else u)"
    by (simp only: wa_complete_def u_def Let_def)
  have at: "at u = (at s)(i := Finished)" by (simp add: u_def)
  note un = unfinished_finish [OF i at]
  have count: "d_count u = card (unfinished n u)" using inv un by (simp add: u_def wa_inv_def card_Diff_singleton)
  have dec: "decided n u" by (rule decided_finish [OF _ i at]) (use inv in \<open>simp_all add: u_def wa_inv_def\<close>)
  have cw: "\<forall>j < n. at u j = Waiting \<longleftrightarrow> completed_with u j = None"
    using inv i by (auto simp: wa_inv_def u_def)
  have "unfinished n s \<noteq> {}" using un(2) by blast
  then have rec: "d_receiver u = []" "\<not> bad_access u" using inv by (auto simp: wa_inv_def u_def)
  show ?thesis
  proof (cases "unfinished n u = {}")
    case True
    from dec True obtain c where c: "do_complete n u = Some c" "verdict n u c" by (rule decided_verdict)
    with True count have eq: "wa_complete n i s = u\<lparr>d_receiver := [c]\<rparr>"
      using rec by (simp add: unfold)
    have "unfinished n (u\<lparr>d_receiver := [c]\<rparr>) = {}" using True by (simp add: unfinished_def)
    moreover have "decided n (u\<lparr>d_receiver := [c]\<rparr>)"
      using dec by (cases "d_kind u") (simp_all add: decided_def by_values_def by_error_def by_stopped_def others_def)
    moreover have "verdict n (u\<lparr>d_receiver := [c]\<rparr>) c" using c(2) by (simp add: verdict_def)
    ultimately show ?thesis unfolding eq using rec cw count True by (simp add: wa_inv_def)
  next
    case False
    with count have "d_count u \<noteq> 0" by simp
    then have eq: "wa_complete n i s = u" by (simp add: unfold)
    show ?thesis unfolding eq using rec cw count False dec by (simp add: wa_inv_def)
  qed
qed

lemma wa_inv_own:
  assumes "wa_inv n s" and "wa_own n s t"
  shows "wa_inv n t"
  using assms(2)
proof (cases rule: wa_own.cases)
  case (set_value i args)
  then show ?thesis using assms(1) decided_set_value [of n s i args]
    by (intro wa_inv_move [OF assms(1), of i _ At_Complete]) (auto simp: wa_set_value_def wa_inv_def)
next
  case (set_error i e)
  then show ?thesis using assms(1) decided_set_error [of n s i e]
    by (intro wa_inv_move [OF assms(1), of i _ "if d_kind s = Kind_Value then At_Stop (Completion Set_Error [e]) else At_Complete"])
      (auto simp: wa_set_error_def wa_inv_def Let_def)
next
  case (set_stopped i)
  then show ?thesis using assms(1) decided_set_stopped [of n s i]
    by (intro wa_inv_move [OF assms(1), of i _ "if d_kind s = Kind_Value then At_Stop (Completion Set_Stopped []) else At_Complete"])
      (auto simp: wa_set_stopped_def wa_inv_def Let_def)
next
  case (stop i c)
  then show ?thesis using assms(1) decided_stop [of n s i c]
    by (intro wa_inv_move [OF assms(1), of i _ "In_Stop c"]) (auto simp: wa_stop_def wa_inv_def)
next
  case (emplace i e)
  then show ?thesis using assms(1) decided_emplace [of n s i e]
    by (intro wa_inv_move [OF assms(1), of i _ At_Complete]) (auto simp: wa_emplace_error_def wa_inv_def)
next
  case (complete i)
  then show ?thesis using wa_inv_complete assms(1) by blast
qed

lemma wa_inv_move_step:
  assumes "wa_inv n s" and "wa_move n s t"
  shows "wa_inv n t"
  using assms(2)
proof (cases rule: wa_move.cases)
  case (stop_returns i c)
  then show ?thesis using assms(1) decided_stopped [of n s i c]
    by (intro wa_inv_move [OF assms(1), of i _ "case cargs c of [e] \<Rightarrow> At_Emplace e | _ \<Rightarrow> At_Complete"])
      (auto simp: wa_stopped_def wa_inv_def split: list.split)
qed (use assms(1) wa_inv_own in blast)

lemma wa_inv_step:
  assumes "wa_inv n s" and "wa_step n s t"
  shows "wa_inv n t"
  using assms(2)
proof (cases rule: wa_step.cases)
  case on_stop
  with assms(1) show ?thesis by (simp add: wa_inv_def wa_on_stop_def)
qed (use assms(1) wa_inv_move_step in blast)

lemma wa_inv_connect: "0 < n \<Longrightarrow> wa_inv n (wa_connect n)"
  by (auto simp: wa_inv_def wa_connect_def unfinished_def decided_def by_values_def)

lemma wa_reach_inv: "wa_reach n s \<Longrightarrow> 0 < n \<Longrightarrow> wa_inv n s"
  by (induction rule: wa_reach.induct) (auto intro: wa_inv_connect wa_inv_step)

section \<open>Progress\<close>

fun remaining :: "'v at \<Rightarrow> nat" where
  "remaining Waiting = 0"
| "remaining (At_Stop c) = 4"
| "remaining (In_Stop c) = 3"
| "remaining (At_Emplace e) = 2"
| "remaining At_Complete = 1"
| "remaining Finished = 0"

definition work :: "nat \<Rightarrow> 'v wa_state \<Rightarrow> nat" where
  "work n s = (\<Sum>i < n. remaining (at s i))"

lemma work_less:
  assumes "i < n" "at t = (at s)(i := a)" "remaining a < remaining (at s i)"
  shows "work n t < work n s"
proof -
  have "work n s = remaining (at s i) + (\<Sum>j \<in> {..<n} - {i}. remaining (at s j))"
    and "work n t = remaining a + (\<Sum>j \<in> {..<n} - {i}. remaining (at t j))"
    using assms by (simp_all add: work_def sum.remove [of _ i])
  moreover have "(\<Sum>j \<in> {..<n} - {i}. remaining (at t j)) = (\<Sum>j \<in> {..<n} - {i}. remaining (at s j))"
    using assms(2) by (intro sum.cong) auto
  ultimately show ?thesis using assms(3) by simp
qed

lemma at_wa_complete: "at (wa_complete n i s) = (at s)(i := Finished)" "completed_with (wa_complete n i s) = completed_with s"
  by (auto simp: wa_complete_def Let_def split: option.split)

text \<open>Once all have completed, every move leaves less to do.\<close>

lemma wa_move_work:
  assumes "wa_move n s t" and "\<forall>i < n. at s i \<noteq> Waiting"
  shows "work n t < work n s \<and> completed_with t = completed_with s"
  using assms(1)
proof (cases rule: wa_move.cases)
  case own
  then show ?thesis
  proof (cases rule: wa_own.cases)
    case (stop i c)
    then show ?thesis by (auto simp: wa_stop_def intro: work_less [where i = i])
  next
    case (emplace i e)
    then show ?thesis by (auto simp: wa_emplace_error_def intro: work_less [where i = i])
  next
    case (complete i)
    then show ?thesis using at_wa_complete [of n i s] by (auto intro: work_less [where i = i])
  qed (use assms(2) in auto)
next
  case (stop_returns i c)
  have "work n (wa_stopped i c s) < work n s"
    by (rule work_less [OF stop_returns(2), where a = "case cargs c of [e] \<Rightarrow> At_Emplace e | _ \<Rightarrow> At_Complete"])
      (auto simp: wa_stopped_def stop_returns split: list.split)
  then show ?thesis by (simp add: stop_returns(1) wa_stopped_def)
qed

lemma wa_inv_waiting: "wa_inv n s \<Longrightarrow> \<forall>i < n. completed_with s i \<noteq> None \<Longrightarrow> \<forall>i < n. at s i \<noteq> Waiting"
  by (simp add: wa_inv_def)

lemma wa_moves_bounded:
  assumes "(wa_move n ^^ k) s t" and "wa_inv n s" and "\<forall>i < n. completed_with s i \<noteq> None"
  shows "k + work n t \<le> work n s"
  using assms
proof (induction k arbitrary: s)
  case (Suc k)
  from Suc.prems(1) obtain u where u: "wa_move n s u" "(wa_move n ^^ k) u t" by (rule relpowp_Suc_E2)
  note w = wa_move_work [OF u(1) wa_inv_waiting [OF Suc.prems(2,3)]]
  have "wa_inv n u" "\<forall>i < n. completed_with u i \<noteq> None" using wa_inv_move_step [OF Suc.prems(2) u(1)] w Suc.prems(3) by simp_all
  from Suc.IH [OF u(2) this] w show ?case by simp
qed simp

lemma work_bound: "work n s \<le> 4 * n"
proof -
  have "work n s \<le> (\<Sum>i < n. 4)" unfolding work_def
  proof (rule sum_mono)
    show "remaining (at s i) \<le> 4" for i by (cases "at s i") simp_all
  qed
  then show ?thesis by simp
qed

text \<open>An operation that is not finished can go on, unless all that are left are inside \<^verbatim>\<open>stop()\<close>.\<close>

lemma wa_progress:
  assumes "\<forall>i < n. at s i \<noteq> Waiting" and "unfinished n s \<noteq> {}"
  shows "(\<exists>t. wa_own n s t) \<or> (\<exists>i < n. \<exists>c. at s i = In_Stop c)"
proof -
  from assms obtain i where "i < n" "at s i \<noteq> Finished" "at s i \<noteq> Waiting" by (auto simp: unfinished_def)
  then show ?thesis by (cases "at s i") (auto intro: step_intros)
qed

lemma completed_with_stays:
  assumes "wa_step n s t" and "wa_inv n s" and "\<forall>i < n. completed_with s i \<noteq> None"
  shows "completed_with t = completed_with s"
  using assms(1)
proof (cases rule: wa_step.cases)
  case move
  with wa_move_work wa_inv_waiting assms(2,3) show ?thesis by blast
qed (simp add: wa_on_stop_def)

lemma wa_steps_stay:
  assumes "(wa_step n)\<^sup>*\<^sup>* s t" and "wa_inv n s" and "\<forall>i < n. completed_with s i \<noteq> None"
  shows "wa_inv n t \<and> completed_with t = completed_with s"
  using assms(1)
proof (induction rule: rtranclp_induct)
  case (step t u)
  with completed_with_stays [OF step(2)] wa_inv_step assms(3) show ?case by metis
qed (use assms(2) in simp)

section \<open>The declared signatures\<close>

definition value_types :: "'t signatures \<Rightarrow> 't ctype list" where
  "value_types sigs = value_types_of sigs (\<lambda>ts. ts) concat"

definition when_all_signatures :: "'t signatures list \<Rightarrow> 't signatures" where
  "when_all_signatures senders =
     merge_completion_signatures
       [[Sig Set_Value (concat (map value_types senders))],
        merge_completion_signatures (map (\<lambda>s. error_types_of s (map (\<lambda>e. Sig Set_Error [e]))) senders),
        [set_stopped_sig]]"

lemma set_when_all_signatures:
  "set (when_all_signatures ss) = {Sig Set_Value (concat (map value_types ss)), set_stopped_sig}
     \<union> (\<Union>s \<in> set ss. {Sig Set_Error [sig_args g ! 0] | g. g \<in> set s \<and> sig_tag g = Set_Error})"
  unfolding when_all_signatures_def set_merge error_types_of_def by auto

section \<open>Properties\<close>

text \<open>
  C1: Whatever the interleaving of the inner operations' completions, and of stop requests, the receiver
  of \<^verbatim>\<open>when_all\<close> gets nothing before all of them have finished and exactly one completion then: the
  values of all of them in the order of the senders if all completed with values, and otherwise the error or the
  stop of one of them. No empty result or error is accessed.
\<close>

theorem when_all_completes_once:
  assumes "wa_reach n s" and "0 < n"
  shows "(if \<forall>i < n. at s i = Finished
          then \<exists>c. d_receiver s = [c]
             \<and> ((\<exists>args. (\<forall>i < n. completed_with s i = Some (Completion Set_Value (args i)))
                       \<and> c = Completion Set_Value (concat (map args [0..<n])))
               \<or> (\<exists>i < n. completed_with s i = Some c \<and> ctag c \<noteq> Set_Value))
          else d_receiver s = [])
    \<and> \<not> bad_access s"
proof -
  have "unfinished n s = {} \<longleftrightarrow> (\<forall>i < n. at s i = Finished)" by (auto simp: unfinished_def)
  with wa_reach_inv [OF assms] show ?thesis
    by (cases "\<forall>i < n. at s i = Finished") (simp_all add: wa_inv_def verdict_def)
qed

definition two_done :: "nat wa_state" where
  "two_done = wa_complete 2 0 (wa_complete 2 1 (wa_set_value 0 [Value 4] (wa_set_value 1 [Value 5] (wa_connect 2))))"

lemma two_done_reach: "wa_reach 2 two_done"
proof -
  let ?a = "wa_set_value 1 [Value 5] (wa_connect 2) :: nat wa_state"
  let ?b = "wa_set_value 0 [Value 4] ?a"
  have "wa_reach 2 ?a" by (rule wa_reach.step [OF wa_reach.connected]) (rule wa_step_own, rule wa_own.set_value; simp add: wa_connect_def)
  then have "wa_reach 2 ?b" by (rule wa_reach.step) (rule wa_step_own, rule wa_own.set_value; simp add: wa_connect_def wa_set_value_def)
  then have "wa_reach 2 (wa_complete 2 1 ?b)" by (rule wa_reach.step) (rule wa_step_own, rule wa_own.complete; simp add: wa_set_value_def)
  then show ?thesis unfolding two_done_def
    by (rule wa_reach.step) (rule wa_step_own, rule wa_own.complete; simp add: wa_set_value_def at_wa_complete)
qed

theorem when_all_completes_once_witness:
  "d_receiver two_done = [Completion Set_Value [Value 4, Value 5]] \<and> \<not> bad_access two_done"
  using when_all_completes_once [OF two_done_reach]
  by (simp add: two_done_def wa_complete_def wa_set_value_def wa_connect_def do_complete_def results_def Let_def numeral_2_eq_2)

text \<open>
  C2: Once all inner operations have completed, \<^verbatim>\<open>when_all\<close> comes to its end: at most four moves are left for each of
  them, in any order, and in every state that can be reached the receiver has been completed, or the code can
  go on by itself, or some operation is inside \<^verbatim>\<open>d_stop_source.stop()\<close>. Nothing but a call of \<^verbatim>\<open>stop()\<close> that does not return can
  keep the receiver from its completion.
\<close>

theorem when_all_finishes:
  assumes "wa_reach n s" and "0 < n" and "\<forall>i < n. completed_with s i \<noteq> None"
  shows "(\<forall>k t. (wa_move n ^^ k) s t \<longrightarrow> k \<le> 4 * n)
    \<and> (\<forall>t. (wa_step n)\<^sup>*\<^sup>* s t \<longrightarrow> (\<exists>c. d_receiver t = [c]) \<or> (\<exists>u. wa_own n t u) \<or> (\<exists>i < n. \<exists>c. at t i = In_Stop c))"
proof (intro conjI allI impI)
  have inv: "wa_inv n s" using assms(1,2) by (rule wa_reach_inv)
  show "k \<le> 4 * n" if "(wa_move n ^^ k) s t" for k t
    using wa_moves_bounded [OF that inv assms(3)] work_bound [of n s] by simp
  fix t
  assume "(wa_step n)\<^sup>*\<^sup>* s t"
  from wa_steps_stay [OF this inv assms(3)] have t: "wa_inv n t" "\<forall>i < n. completed_with t i \<noteq> None" using assms(3) by simp_all
  show "(\<exists>c. d_receiver t = [c]) \<or> (\<exists>u. wa_own n t u) \<or> (\<exists>i < n. \<exists>c. at t i = In_Stop c)"
  proof (cases "unfinished n t = {}")
    case True
    with t(1) show ?thesis by (auto simp: wa_inv_def)
  next
    case False
    with wa_progress [OF wa_inv_waiting [OF t]] show ?thesis by blast
  qed
qed

theorem when_all_finishes_witness:
  "(\<nexists>t. (wa_move 1 ^^ 5) (wa_set_stopped 0 (wa_connect 1 :: nat wa_state)) t)
    \<and> (\<exists>u. wa_own 1 (wa_set_stopped 0 (wa_connect 1 :: nat wa_state)) u)"
proof -
  let ?s = "wa_set_stopped 0 (wa_connect 1 :: nat wa_state)"
  have "wa_reach 1 ?s"
    by (rule wa_reach.step [OF wa_reach.connected]) (rule wa_step_own, rule wa_own.set_stopped; simp add: wa_connect_def)
  from when_all_finishes [OF this] have moves: "\<And>k t. (wa_move 1 ^^ k) ?s t \<Longrightarrow> k \<le> 4"
    and own: "(\<exists>c. d_receiver ?s = [c]) \<or> (\<exists>u. wa_own 1 ?s u) \<or> (\<exists>i < 1. \<exists>c. at ?s i = In_Stop c)"
    by (auto simp: wa_set_stopped_def wa_connect_def Let_def)
  from own have "\<exists>u. wa_own 1 ?s u" by (auto simp: wa_set_stopped_def wa_connect_def Let_def)
  moreover have "\<nexists>t. (wa_move 1 ^^ 5) ?s t" using moves [of 5] by (auto simp del: relpowp.simps)
  ultimately show ?thesis by blast
qed

text \<open>
  C23: \<^verbatim>\<open>when_all\<close> keeps to its signatures: if every inner operation completes as its sender declares, with
  one signature for values, the completion of the receiver is among those \<^verbatim>\<open>when_all\<close> declares.
\<close>

theorem when_all_keeps_signatures:
  assumes "wa_reach n s" and "0 < n" and "length senders = n" and "d_receiver s = [c]"
    and "\<forall>i < n. \<forall>c. completed_with s i = Some c \<longrightarrow> sig_of ty c \<in> set (senders ! i)"
    and "\<forall>i < n. list_all completion_signature (senders ! i) \<and> length (filter_completions Set_Value (senders ! i)) = 1"
  shows "sig_of ty c \<in> set (when_all_signatures senders)"
proof -
  have fin: "unfinished n s = {}" using wa_reach_inv [OF assms(1,2)] assms(4) by (auto simp: wa_inv_def split: if_splits)
  then have "verdict n s c" using wa_reach_inv [OF assms(1,2)] assms(4) by (simp add: wa_inv_def)
  then consider (vals) args where "\<And>i. i < n \<Longrightarrow> completed_with s i = Some (Completion Set_Value (args i))"
      "c = Completion Set_Value (concat (map args [0..<n]))"
    | (other) i where "i < n" "completed_with s i = Some c" "ctag c \<noteq> Set_Value"
    by (auto simp: verdict_def)
  then show ?thesis
  proof cases
    case vals
    have "value_types (senders ! i) = map (cval_type ty) (args i)" if "i < n" for i
    proof -
      have "Sig Set_Value (map (cval_type ty) (args i)) \<in> set (senders ! i)" using assms(5) vals(1) that by fastforce
      moreover have "length (filter (\<lambda>s. sig_tag s = Set_Value) (senders ! i)) = 1" using assms(6) that by simp
      then obtain g where g: "filter (\<lambda>s. sig_tag s = Set_Value) (senders ! i) = [g]"
        by (auto simp: length_Suc_conv)
      ultimately have "Sig Set_Value (map (cval_type ty) (args i)) \<in> set [g]" unfolding g [symmetric] by simp
      then have "g = Sig Set_Value (map (cval_type ty) (args i))" by simp
      with g show ?thesis by (simp add: value_types_def value_types_of_def)
    qed
    then have "map value_types senders = map (\<lambda>i. map (cval_type ty) (args i)) [0..<n]"
      using assms(3) by (intro nth_equalityI) simp_all
    then show ?thesis by (simp add: vals(2) set_when_all_signatures map_concat comp_def)
  next
    case other
    have sig: "sig_of ty c \<in> set (senders ! i)" and cs: "list_all completion_signature (senders ! i)"
      using assms(5,6) other by auto
    show ?thesis
    proof (cases "ctag c")
      case Set_Error
      with cs sig obtain e where "c = Completion Set_Error [e]" by (blast elim: error_sig_cases)
      with sig other(1) assms(3) show ?thesis by (force simp: set_when_all_signatures)
    next
      case Set_Stopped
      with cs sig have "c = Completion Set_Stopped []" by (auto dest: stopped_sig_cases)
      then show ?thesis by (simp add: set_when_all_signatures set_stopped_sig_def)
    qed (use other in simp)
  qed
qed

theorem when_all_keeps_signatures_witness:
  "sig_of (\<lambda>_. 0 :: nat) (Completion Set_Value [Value (4 :: nat), Value 5])
     \<in> set (when_all_signatures [[Sig Set_Value [Type 0]], [Sig Set_Value [Type 0], set_stopped_sig]])"
proof (rule when_all_keeps_signatures [OF two_done_reach])
  have two: "completed_with two_done = (\<lambda>_. None)(1 := Some (Completion Set_Value [Value 5]), 0 := Some (Completion Set_Value [Value 4]))"
    by (simp add: two_done_def at_wa_complete wa_set_value_def wa_connect_def)
  show "\<forall>i < 2. \<forall>c. completed_with two_done i = Some c \<longrightarrow>
      sig_of (\<lambda>_. 0 :: nat) c \<in> set ([[Sig Set_Value [Type 0]], [Sig Set_Value [Type 0], set_stopped_sig]] ! i)"
    by (auto simp: two less_2_cases_iff)
  show "d_receiver two_done = [Completion Set_Value [Value 4, Value 5]]"
    by (simp add: two_done_def wa_complete_def wa_set_value_def wa_connect_def do_complete_def results_def Let_def numeral_2_eq_2)
qed (auto simp: less_2_cases_iff completion_signature_def set_stopped_sig_def)

end
