(* ===== verification/Repeat_Until.thy ===== *)
theory Repeat_Until
  imports Senders
begin

text \<open>
  \<^verbatim>\<open>repeat_effect_until\<close> of \<^verbatim>\<open>src/src/nstd/execution/repeat_effect_until.hpp\<close>: the operation state that runs a
  sender again and again until a predicate holds. A repetition may complete inside \<^verbatim>\<open>start\<close> or at some later
  time; \<^verbatim>\<open>next\<close> is the loop that keeps completions from inside \<^verbatim>\<open>start\<close> off the stack. What the world answers is
  a record of \<open>answers\<close>: how the n-th started repetition completes (\<^const>\<open>None\<close>: after \<^verbatim>\<open>start\<close> has returned), what the
  n-th evaluation of the predicate gives (or throws), whether the n-th look at the stop token finds a
  request, whether the n-th connect throws.
\<close>

section \<open>Model\<close>

record 'v answers =
  at_start :: "nat \<Rightarrow> 'v completion option"
  predicate :: "nat \<Rightarrow> 'v + bool"
  stop_requested :: "nat \<Rightarrow> bool"
  connect_throws :: "nat \<Rightarrow> 'v option"

text \<open>
  \<open>alive\<close> says whether the union holds an object, \<open>dead_destroyed\<close> that the destructor of an object was called
  where there is none; \<open>d_receiver\<close> lists the completions the receiver got, the counters number the questions,
  \<open>n_done\<close> counts the completions of repetitions.
\<close>

record 'v repeat_state =
  d_running :: bool
  d_ready :: bool
  d_engaged :: bool
  alive :: bool
  dead_destroyed :: bool
  d_receiver :: "'v completion list"
  n_started :: nat
  n_done :: nat
  n_predicate :: nat
  n_stop :: nat
  n_connect :: nat

definition repeat_connect :: "'v repeat_state" where
  "repeat_connect = \<lparr>d_running = False, d_ready = False, d_engaged = False, alive = False, dead_destroyed = False,
     d_receiver = [], n_started = 0, n_done = 0, n_predicate = 0, n_stop = 0, n_connect = 0\<rparr>"

definition marker_lock :: "'v repeat_state \<Rightarrow> 'v repeat_state" where
  "marker_lock s = s\<lparr>d_running := True\<rparr>"

definition marker_unlock :: "'v repeat_state \<Rightarrow> 'v repeat_state" where
  "marker_unlock s = s\<lparr>d_running := False\<rparr>"

definition to_receiver :: "'v completion \<Rightarrow> 'v repeat_state \<Rightarrow> 'v repeat_state" where
  "to_receiver c s = s\<lparr>d_receiver := d_receiver s @ [c]\<rparr>"

definition destroy_internal :: "'v repeat_state \<Rightarrow> 'v repeat_state" where
  "destroy_internal s = s\<lparr>alive := False, dead_destroyed := dead_destroyed s \<or> \<not> alive s\<rparr>"

text \<open>The constructor of \<^verbatim>\<open>internal_state\<close> connects the sender; it may throw.\<close>

definition construct_internal :: "'v answers \<Rightarrow> 'v repeat_state \<Rightarrow> 'v repeat_state \<times> 'v option" where
  "construct_internal E s =
     (let s' = s\<lparr>n_connect := n_connect s + 1\<rparr>
      in case connect_throws E (n_connect s) of
           Some x \<Rightarrow> (s', Some x)
         | None \<Rightarrow> (s'\<lparr>alive := True\<rparr>, None))"

text \<open>The completion functions of the repetition's receiver; \<open>nxt\<close> is \<^verbatim>\<open>d_state->next()\<close>.\<close>

definition repeat_receiver :: "('v repeat_state \<Rightarrow> 'v repeat_state option) \<Rightarrow> 'v completion \<Rightarrow> 'v repeat_state
    \<Rightarrow> 'v repeat_state option" where
  "repeat_receiver nxt c s =
     (let s = s\<lparr>n_done := n_done s + 1\<rparr>
      in case ctag c of
           Set_Value \<Rightarrow> nxt s
         | Set_Error \<Rightarrow> Some (to_receiver c s)
         | Set_Stopped \<Rightarrow> Some (to_receiver (Completion Set_Stopped []) s))"

definition start_internal :: "('v repeat_state \<Rightarrow> 'v repeat_state option) \<Rightarrow> 'v answers \<Rightarrow> 'v repeat_state
    \<Rightarrow> 'v repeat_state option" where
  "start_internal nxt E s =
     (let s' = s\<lparr>n_started := n_started s + 1\<rparr>
      in case at_start E (n_started s) of
           None \<Rightarrow> Some s'
         | Some c \<Rightarrow> repeat_receiver nxt c s')"

text \<open>
  \<^verbatim>\<open>next\<close> while \<^verbatim>\<open>d_running\<close> is set, which is how it is called from inside the loop.
\<close>

definition next_running :: "'v repeat_state \<Rightarrow> 'v repeat_state option" where
  "next_running s = Some (s\<lparr>d_ready := True\<rparr>)"

text \<open>One turn of the loop; the second component is the exception that leaves it.\<close>

definition repeat_body :: "'v answers \<Rightarrow> 'v repeat_state \<Rightarrow> ('v repeat_state \<times> 'v option) option" where
  "repeat_body E s =
     (let s = s\<lparr>d_ready := False\<rparr>;
          stop = stop_requested E (n_stop s);
          s = s\<lparr>n_stop := n_stop s + 1\<rparr>
      in if stop then Some (to_receiver (Completion Set_Stopped []) s, None)
         else let p = predicate E (n_predicate s);
                  s = s\<lparr>n_predicate := n_predicate s + 1\<rparr>
              in case p of
                   Inl x \<Rightarrow> Some (s, Some x)
                 | Inr True \<Rightarrow> Some (to_receiver (Completion Set_Value []) s, None)
                 | Inr False \<Rightarrow>
                     (case construct_internal E (destroy_internal s) of
                        (s, Some x) \<Rightarrow> Some (s, Some x)
                      | (s, None) \<Rightarrow> map_option (\<lambda>s. (s, None)) (start_internal next_running E s)))"

definition repeat_next :: "'v answers \<Rightarrow> 'v repeat_state \<Rightarrow> 'v repeat_state option" where
  "repeat_next E s =
     (if d_running s then next_running s
      else map_option
             (\<lambda>(s, ex). let s = marker_unlock s
                        in case ex of
                             None \<Rightarrow> s
                           | Some x \<Rightarrow> to_receiver (Completion Set_Error [Exception_Ptr x]) s)
             (loop_while (\<lambda>(s, ex). ex = None \<and> d_ready s) (\<lambda>(s, ex). repeat_body E s)
               ((marker_lock s)\<lparr>d_ready := True\<rparr>, None)))"

text \<open>\<^verbatim>\<open>start\<close> is \<^verbatim>\<open>noexcept\<close>: a connect that throws ends the program.\<close>

definition repeat_start :: "'v answers \<Rightarrow> 'v repeat_state \<Rightarrow> 'v repeat_state option" where
  "repeat_start E s =
     (case construct_internal E s of
        (s, Some x) \<Rightarrow> None
      | (s, None) \<Rightarrow> start_internal (repeat_next E) E (s\<lparr>d_engaged := True\<rparr>))"

text \<open>A completion that comes after \<^verbatim>\<open>start\<close> has returned, and the destructor.\<close>

definition later_completion :: "'v answers \<Rightarrow> 'v completion \<Rightarrow> 'v repeat_state \<Rightarrow> 'v repeat_state option" where
  "later_completion E c s = repeat_receiver (repeat_next E) c s"

definition repeat_dtor :: "'v repeat_state \<Rightarrow> 'v repeat_state" where
  "repeat_dtor s = (if d_engaged s then destroy_internal s else s)"

text \<open>\<^verbatim>\<open>repeat_effect\<close>.\<close>

definition repeat_effect :: "'v answers \<Rightarrow> 'v answers" where
  "repeat_effect E = E\<lparr>predicate := (\<lambda>_. Inr False)\<rparr>"

text \<open>
  The states an operation comes to when it is started and the repetitions complete, each once. A
  step is there for every completion, before, between and after anything else that happens.
\<close>

inductive repeat_reach :: "'v answers \<Rightarrow> 'v repeat_state \<Rightarrow> bool" for E where
  started: "repeat_start E repeat_connect = Some s \<Longrightarrow> repeat_reach E s"
| completed: "repeat_reach E s \<Longrightarrow> n_done s < n_started s \<Longrightarrow> later_completion E c s = Some t \<Longrightarrow> repeat_reach E t"

section \<open>The operation between its events\<close>

text \<open>
  Between events the marker is off, and either the receiver got nothing and one repetition is
  outstanding, or it got one completion and none is.
\<close>

definition settled :: "'v repeat_state \<Rightarrow> bool" where
  "settled s \<longleftrightarrow> (d_receiver s = [] \<and> n_started s = n_done s + 1) \<or> (length (d_receiver s) = 1 \<and> n_started s = n_done s)"

text \<open>When connecting does not throw, the union holds an object.\<close>

definition lifetime :: "'v answers \<Rightarrow> 'v repeat_state \<Rightarrow> bool" where
  "lifetime E s \<longleftrightarrow> ((\<forall>n. connect_throws E n = None) \<longrightarrow> alive s \<and> d_engaged s \<and> \<not> dead_destroyed s)"

text \<open>Inside the loop: \<open>waiting\<close> when the next turn is due, and the loop's exit states.\<close>

definition turn_inv :: "'v answers \<Rightarrow> 'v repeat_state \<times> 'v option \<Rightarrow> bool" where
  "turn_inv E = (\<lambda>(s, ex). d_running s \<and> lifetime E s \<and>
     (if ex \<noteq> None \<or> d_ready s then d_receiver s = [] \<and> n_started s = n_done s else settled s))"

lemma turn_inv_body:
  assumes "turn_inv E (s, None)" and "d_ready s"
  obtains t ex where "repeat_body E s = Some (t, ex)" "turn_inv E (t, ex)"
    "ex = None \<Longrightarrow> d_ready t \<Longrightarrow> predicate E (n_predicate s) = Inr False \<and> n_predicate t = n_predicate s + 1"
proof -
  have "case repeat_body E s of None \<Rightarrow> False | Some (t, ex) \<Rightarrow> turn_inv E (t, ex)
      \<and> (ex = None \<longrightarrow> d_ready t \<longrightarrow> predicate E (n_predicate s) = Inr False \<and> n_predicate t = n_predicate s + 1)"
    using assms
    by (auto simp: turn_inv_def lifetime_def settled_def repeat_body_def to_receiver_def construct_internal_def destroy_internal_def
        start_internal_def repeat_receiver_def next_running_def Let_def
        split: sum.split bool.split option.split tag.split)
  then show thesis using that by (auto split: option.splits)
qed

lemma turn_inv_enter:
  "\<not> d_running s \<Longrightarrow> d_receiver s = [] \<Longrightarrow> n_started s = n_done s \<Longrightarrow> lifetime E s \<Longrightarrow> turn_inv E ((marker_lock s)\<lparr>d_ready := True\<rparr>, None)"
  by (simp add: turn_inv_def lifetime_def marker_lock_def)

lemma turn_inv_leave:
  assumes "turn_inv E (s, ex)" and "\<not> (ex = None \<and> d_ready s)"
  shows "let s = marker_unlock s;
             s = (case ex of None \<Rightarrow> s | Some x \<Rightarrow> to_receiver (Completion Set_Error [Exception_Ptr x]) s)
         in settled s \<and> \<not> d_running s \<and> lifetime E s"
  using assms by (cases ex) (auto simp: turn_inv_def lifetime_def settled_def marker_unlock_def to_receiver_def Let_def)

lemma next_settled:
  assumes "\<not> d_running s" "d_receiver s = []" "n_started s = n_done s" "lifetime E s" and "repeat_next E s = Some t"
  shows "settled t \<and> \<not> d_running t \<and> lifetime E t"
proof -
  let ?b = "\<lambda>(s :: 'a repeat_state, ex :: 'a option). ex = None \<and> d_ready s"
  from assms obtain u ex where loop: "loop_while ?b (\<lambda>(s, ex). repeat_body E s) ((marker_lock s)\<lparr>d_ready := True\<rparr>, None) = Some (u, ex)"
    and t: "t = (let s = marker_unlock u in case ex of None \<Rightarrow> s | Some x \<Rightarrow> to_receiver (Completion Set_Error [Exception_Ptr x]) s)"
    by (auto simp: repeat_next_def)
  have "turn_inv E (u, ex) \<and> \<not> ?b (u, ex)"
  proof (rule loop_while_partial [OF loop], goal_cases)
    case 1
    show ?case using assms by (intro turn_inv_enter)
  next
    case (2 p p')
    then show ?case by (cases p) (auto elim!: turn_inv_body [where E = E])
  qed
  with turn_inv_leave [of E u ex] t show ?thesis by (simp add: Let_def)
qed

lemma next_returns:
  assumes "\<not> d_running s" "d_receiver s = []" "n_started s = n_done s" "lifetime E s"
    and "n_predicate s \<le> n" and "predicate E n \<noteq> Inr False"
  shows "\<exists>t. repeat_next E s = Some t"
proof -
  let ?b = "\<lambda>(s :: 'a repeat_state, ex :: 'a option). ex = None \<and> d_ready s"
  let ?I = "\<lambda>p. turn_inv E p \<and> (?b p \<longrightarrow> n_predicate (fst p) \<le> n)"
  let ?m = "\<lambda>p :: 'a repeat_state \<times> 'a option. if ?b p then Suc n - n_predicate (fst p) else 0"
  have "\<exists>u. loop_while ?b (\<lambda>(s, ex). repeat_body E s) ((marker_lock s)\<lparr>d_ready := True\<rparr>, None) = Some u \<and> ?I u \<and> \<not> ?b u"
  proof (rule loop_while_total [where m = ?m], goal_cases)
    case 1
    then show ?case using assms turn_inv_enter [of s E] by (simp add: marker_lock_def)
  next
    case (2 p)
    then obtain q where q: "p = (q, None)" "d_ready q" "turn_inv E (q, None)" "n_predicate q \<le> n" by (cases p) auto
    obtain t ex where t: "repeat_body E q = Some (t, ex)" "turn_inv E (t, ex)"
      "ex = None \<Longrightarrow> d_ready t \<Longrightarrow> predicate E (n_predicate q) = Inr False \<and> n_predicate t = n_predicate q + 1"
      using q by (auto elim: turn_inv_body [where E = E])
    moreover have "n_predicate q \<noteq> n" if "ex = None" "d_ready t" using t(3) that assms(6) by auto
    ultimately show ?case using q by auto
  qed
  then show ?thesis using assms(1) by (auto simp: repeat_next_def)
qed

definition resting :: "'v answers \<Rightarrow> 'v repeat_state \<Rightarrow> bool" where
  "resting E s \<longleftrightarrow> settled s \<and> \<not> d_running s \<and> lifetime E s"

lemma receiver_resting:
  assumes "d_receiver s = []" "n_started s = n_done s + 1" "\<not> d_running s" "lifetime E s"
    and "repeat_receiver (repeat_next E) c s = Some t"
  shows "resting E t"
  using assms next_settled [of "s\<lparr>n_done := n_done s + 1\<rparr>" E t]
  by (auto simp: repeat_receiver_def resting_def settled_def lifetime_def to_receiver_def Let_def split: tag.splits)

lemma start_resting:
  assumes "repeat_start E repeat_connect = Some s"
  shows "resting E s"
proof -
  define u where "u = (repeat_connect :: 'a repeat_state)\<lparr>d_engaged := True, alive := True, n_started := 1, n_connect := 1\<rparr>"
  have "resting E u" by (simp add: u_def repeat_connect_def resting_def settled_def lifetime_def)
  moreover have "d_receiver u = []" "n_started u = n_done u + 1" "\<not> d_running u" "lifetime E u"
    by (simp_all add: u_def repeat_connect_def lifetime_def)
  moreover have "s = u \<or> (\<exists>c. repeat_receiver (repeat_next E) c u = Some s)"
    using assms by (auto simp: repeat_start_def construct_internal_def start_internal_def u_def repeat_connect_def Let_def
        split: option.splits)
  ultimately show ?thesis using receiver_resting by blast
qed

lemma reach_resting: "repeat_reach E s \<Longrightarrow> resting E s"
proof (induction rule: repeat_reach.induct)
  case (completed s c t)
  then have "d_receiver s = []" "n_started s = n_done s + 1" by (auto simp: resting_def settled_def)
  with completed show ?case by (intro receiver_resting [of s]) (auto simp: resting_def later_completion_def)
qed (rule start_resting)

section \<open>Properties\<close>

text \<open>
  C5: At every moment between events of a started \<^verbatim>\<open>repeat_effect_until\<close> its receiver got nothing and
  exactly one repetition is outstanding, or the receiver got exactly one completion and none is,
  whether repetitions complete inside \<^verbatim>\<open>start\<close> or later. If connecting does not throw, destroying the
  operation state then destroys an inner state that exists.
\<close>

theorem repeat_completes_once:
  assumes "repeat_reach E s"
  shows "((d_receiver s = [] \<and> n_started s = n_done s + 1) \<or> (length (d_receiver s) = 1 \<and> n_started s = n_done s))
    \<and> ((\<forall>n. connect_throws E n = None) \<longrightarrow> \<not> dead_destroyed (repeat_dtor s))"
  using reach_resting [OF assms]
  by (auto simp: resting_def settled_def lifetime_def repeat_dtor_def destroy_internal_def)

definition later_twice :: "nat answers" where
  "later_twice = \<lparr>at_start = (\<lambda>_. None), predicate = (\<lambda>n. Inr (n = 1)), stop_requested = (\<lambda>_. False), connect_throws = (\<lambda>_. None)\<rparr>"

theorem repeat_completes_once_witness:
  "\<exists>s. repeat_reach later_twice s \<and> n_started s = 1 \<and> d_receiver s = [] \<and> \<not> dead_destroyed (repeat_dtor s)"
proof -
  obtain s where s: "repeat_start later_twice repeat_connect = Some s" "n_started s = 1" "d_receiver s = []"
    by (auto simp: repeat_start_def construct_internal_def start_internal_def later_twice_def repeat_connect_def)
  then have "repeat_reach later_twice s" by (intro repeat_reach.started)
  from repeat_completes_once [OF this] s show ?thesis
    using \<open>repeat_reach later_twice s\<close> by (auto simp: later_twice_def)
qed

text \<open>
  C6: A completion of the outstanding repetition is handled in finitely many steps, however many
  repetitions complete inside \<^verbatim>\<open>start\<close>, unless the predicate stays false for ever.
\<close>

theorem repeat_returns:
  assumes "repeat_reach E s" and "n_done s < n_started s" and "n_predicate s \<le> n" and "predicate E n \<noteq> Inr False"
  shows "\<exists>t. later_completion E c s = Some t \<and> repeat_reach E t"
proof -
  have r: "resting E s" using assms(1) by (rule reach_resting)
  have "\<exists>t. later_completion E c s = Some t"
    using next_returns [of "s\<lparr>n_done := n_done s + 1\<rparr>" E n] r assms(2-4)
    by (auto simp: later_completion_def repeat_receiver_def resting_def settled_def lifetime_def Let_def split: tag.split)
  with assms show ?thesis using repeat_reach.completed by blast
qed

theorem repeat_returns_witness:
  "\<exists>s t. repeat_reach later_twice s \<and> later_completion later_twice (Completion Set_Value []) s = Some t"
proof -
  obtain s where s: "repeat_start later_twice repeat_connect = Some s" "n_started s = 1" "n_done s = 0" "n_predicate s = 0"
    by (auto simp: repeat_start_def construct_internal_def start_internal_def later_twice_def repeat_connect_def)
  then have r: "repeat_reach later_twice s" by (intro repeat_reach.started)
  from repeat_returns [OF r, of 1 "Completion Set_Value []"] s r show ?thesis by (auto simp: later_twice_def)
qed

text \<open>
  When a repetition's connect throws inside \<^verbatim>\<open>next\<close>, the old inner state is destroyed already but the
  operation still counts as engaged: the receiver gets the exception, and destroying the operation
  destroys an object that is not there.
\<close>

theorem repeat_connect_exception:
  "let E = \<lparr>at_start = (\<lambda>_. Some (Completion Set_Value [])), predicate = (\<lambda>_. Inr False), stop_requested = (\<lambda>_. False),
            connect_throws = (\<lambda>n. if n = 1 then Some (13 :: nat) else None)\<rparr>
   in \<exists>s. repeat_start E repeat_connect = Some s \<and> d_receiver s = [Completion Set_Error [Exception_Ptr 13]]
        \<and> \<not> dead_destroyed s \<and> dead_destroyed (repeat_dtor s)"
  by (simp add: repeat_start_def construct_internal_def start_internal_def repeat_connect_def repeat_receiver_def
      repeat_next_def loop_while.simps repeat_body_def destroy_internal_def marker_lock_def marker_unlock_def
      to_receiver_def repeat_dtor_def Let_def)

end
