(* ===== verification/Run_Loop.thy ===== *)
theory Run_Loop
  imports Intrusive_List Senders
begin

text \<open>
  \<^verbatim>\<open>run_loop\<close> of \<^verbatim>\<open>src/src/nstd/execution/run_loop.{hpp,cpp}\<close>: a queue of operation states, which any thread appends to
  and one thread, in \<^verbatim>\<open>run\<close>, takes from and executes. The queue is the intrusive list of the loop with its
  head node at address \<open>h\<close>. What a thread does while it holds \<^verbatim>\<open>d_guard\<close> is one step; \<open>worker\<close> is where the thread in \<^verbatim>\<open>run\<close> is,
  and \<^verbatim>\<open>d_cond\<close> is the thread asleep or not. Spurious wake-ups are steps of their own.
\<close>

section \<open>Model\<close>

datatype phase = Starting | Running | Finishing

datatype worker = Outside | Taking | Asleep | Executing addr | Returned

text \<open>\<open>pushed\<close> and \<open>executed\<close> note the operation states in the order they were queued and executed.\<close>

record run_loop =
  d_phase :: phase
  d_list :: links
  worker :: worker
  pushed :: "addr list"
  executed :: "addr list"

definition rl_new :: "addr \<Rightarrow> links \<Rightarrow> run_loop" where
  "rl_new h l = \<lparr>d_phase = Starting, d_list = il_new h l, worker = Outside, pushed = [], executed = []\<rparr>"

text \<open>The destructor: \<^const>\<open>None\<close> is \<^verbatim>\<open>std::terminate\<close>.\<close>

definition rl_dtor :: "addr \<Rightarrow> run_loop \<Rightarrow> unit option" where
  "rl_dtor h s = (if \<not> il_empty h (d_list s) then None else Some ())"

definition rl_push_back :: "addr \<Rightarrow> addr \<Rightarrow> run_loop \<Rightarrow> run_loop" where
  "rl_push_back h x s = s\<lparr>d_list := il_push_back h x (d_list s), pushed := pushed s @ [x]\<rparr>"

definition add_to_back_of :: "addr \<Rightarrow> addr \<Rightarrow> run_loop \<Rightarrow> run_loop" where
  "add_to_back_of h x s = rl_push_back h x s"

definition may_take :: "addr \<Rightarrow> run_loop \<Rightarrow> bool" where
  "may_take h s = (\<not> il_empty h (d_list s) \<or> d_phase s = Finishing)"

text \<open>\<^verbatim>\<open>pop_front\<close> once the wait is over.\<close>

definition rl_pop_front :: "addr \<Rightarrow> run_loop \<Rightarrow> addr option \<times> run_loop" where
  "rl_pop_front h s =
     (if il_empty h (d_list s) then (None, s)
      else let rc = il_front h (d_list s) in (Some rc, s\<lparr>d_list := il_pop_front h (d_list s)\<rparr>))"

text \<open>The wait and what comes after it, for the thread in \<^verbatim>\<open>run\<close>.\<close>

definition rl_take :: "addr \<Rightarrow> run_loop \<Rightarrow> run_loop" where
  "rl_take h s =
     (if may_take h s
      then (case rl_pop_front h s of
              (Some x, s) \<Rightarrow> s\<lparr>worker := Executing x\<rparr>
            | (None, s) \<Rightarrow> s\<lparr>worker := Returned\<rparr>)
      else s\<lparr>worker := Asleep\<rparr>)"

definition notify_one :: "run_loop \<Rightarrow> run_loop" where
  "notify_one s = (if worker s = Asleep then s\<lparr>worker := Taking\<rparr> else s)"

definition rl_finish :: "run_loop \<Rightarrow> run_loop" where
  "rl_finish s = notify_one (s\<lparr>d_phase := Finishing\<rparr>)"

text \<open>\<^verbatim>\<open>do_execute\<close> of an operation state: what its receiver gets.\<close>

definition rl_do_execute :: "bool \<Rightarrow> 'v completion" where
  "rl_do_execute stop_requested = (if stop_requested then Completion Set_Stopped [] else Completion Set_Value [])"

definition rl_sender_signatures :: "'t signatures" where
  "rl_sender_signatures = [Sig Set_Value []]"

definition rl_execute :: "addr \<Rightarrow> run_loop \<Rightarrow> run_loop" where
  "rl_execute x s = s\<lparr>executed := executed s @ [x], worker := Taking\<rparr>"

text \<open>
  Steps of the thread in \<^verbatim>\<open>run\<close>, and of the others. An operation state is queued when it is started, so once.
\<close>

inductive rl_step :: "addr \<Rightarrow> run_loop \<Rightarrow> run_loop \<Rightarrow> bool" for h where
  run: "worker s = Outside \<Longrightarrow> rl_step h s (s\<lparr>worker := Taking\<rparr>)"
| take: "worker s = Taking \<Longrightarrow> rl_step h s (rl_take h s)"
| execute: "worker s = Executing x \<Longrightarrow> rl_step h s (rl_execute x s)"
| push: "x \<noteq> h \<Longrightarrow> x \<notin> set (pushed s) \<Longrightarrow> rl_step h s (add_to_back_of h x s)"
| finish: "rl_step h s (rl_finish s)"
| spurious: "worker s = Asleep \<Longrightarrow> rl_step h s (s\<lparr>worker := Taking\<rparr>)"

text \<open>Those of the thread in \<^verbatim>\<open>run\<close> alone.\<close>

inductive rl_own :: "addr \<Rightarrow> run_loop \<Rightarrow> run_loop \<Rightarrow> bool" for h where
  own_take: "worker s = Taking \<Longrightarrow> rl_own h s (rl_take h s)"
| own_execute: "worker s = Executing x \<Longrightarrow> rl_own h s (rl_execute x s)"

inductive rl_reach :: "addr \<Rightarrow> run_loop \<Rightarrow> bool" for h where
  new: "rl_reach h (rl_new h l)"
| step: "rl_reach h s \<Longrightarrow> rl_step h s t \<Longrightarrow> rl_reach h t"

inductive_cases rl_stepE: "rl_step h s t"

section \<open>Invariant\<close>

definition in_hand :: "worker \<Rightarrow> addr list" where
  "in_hand w = (case w of Executing x \<Rightarrow> [x] | _ \<Rightarrow> [])"

definition rl_inv :: "addr \<Rightarrow> run_loop \<Rightarrow> bool" where
  "rl_inv h s \<longleftrightarrow> (\<exists>q. ring (d_list s) h q \<and> pushed s = executed s @ in_hand (worker s) @ q)
     \<and> distinct (pushed s) \<and> (worker s = Returned \<longrightarrow> d_phase s = Finishing)"

lemma in_hand_simps [simp]:
  "in_hand Outside = []" "in_hand Taking = []" "in_hand Asleep = []" "in_hand Returned = []" "in_hand (Executing x) = [x]"
  by (simp_all add: in_hand_def)

lemma rl_inv_take:
  assumes "rl_inv h s" and "worker s = Taking"
  shows "rl_inv h (rl_take h s)"
proof -
  from assms obtain q where q: "ring (d_list s) h q" "pushed s = executed s @ q" "distinct (pushed s)"
    by (auto simp: rl_inv_def)
  show ?thesis
  proof (cases q)
    case Nil
    with q show ?thesis
      by (auto simp: rl_inv_def rl_take_def may_take_def rl_pop_front_def il.is_empty_iff)
  next
    case (Cons x xs)
    with q have "\<not> il_empty h (d_list s)" "il_front h (d_list s) = x" "ring (il_pop_front h (d_list s)) h xs"
      by (auto simp: il.is_empty_iff il.front_eq il.pop_holds)
    with q Cons show ?thesis
      by (auto simp: rl_inv_def rl_take_def may_take_def rl_pop_front_def Let_def)
  qed
qed

lemma rl_inv_push:
  assumes "rl_inv h s" and "x \<noteq> h" and "x \<notin> set (pushed s)"
  shows "rl_inv h (add_to_back_of h x s)"
proof -
  from assms obtain q where q: "ring (d_list s) h q" "pushed s = executed s @ in_hand (worker s) @ q" "distinct (pushed s)"
    by (auto simp: rl_inv_def)
  with assms have "ring (il_push_back h x (d_list s)) h (q @ [x])" by (intro il.push_holds) auto
  with q assms show ?thesis by (auto simp: rl_inv_def add_to_back_of_def rl_push_back_def)
qed

lemma rl_inv_step: "rl_step h s t \<Longrightarrow> rl_inv h s \<Longrightarrow> rl_inv h t"
proof (induction rule: rl_step.induct)
  case (take s)
  then show ?case by (intro rl_inv_take)
next
  case (push x s)
  then show ?case by (intro rl_inv_push)
qed (auto simp: rl_inv_def rl_execute_def rl_finish_def notify_one_def)

lemma rl_inv_new: "rl_inv h (rl_new h l)"
  by (auto simp: rl_new_def rl_inv_def intro!: ring_new)

lemma rl_reach_inv: "rl_reach h s \<Longrightarrow> rl_inv h s"
  by (induction rule: rl_reach.induct) (blast intro: rl_inv_step rl_inv_new)+

text \<open>The steps of the thread in \<^verbatim>\<open>run\<close> alone, after \<^verbatim>\<open>finish\<close>.\<close>

lemma rl_take_Cons:
  assumes "ring (d_list s) h (x # q)"
  shows "rl_take h s = s\<lparr>worker := Executing x, d_list := il_pop_front h (d_list s)\<rparr>"
  using assms by (simp add: rl_take_def may_take_def rl_pop_front_def il.is_empty_iff [OF assms] il.front_eq Let_def)

lemma rl_take_Nil:
  assumes "ring (d_list s) h []"
  shows "rl_take h s = (if d_phase s = Finishing then s\<lparr>worker := Returned\<rparr> else s\<lparr>worker := Asleep\<rparr>)"
  using assms by (simp add: rl_take_def may_take_def rl_pop_front_def il.is_empty_iff [OF assms])

definition left_to_run :: "addr \<Rightarrow> run_loop \<Rightarrow> nat \<Rightarrow> bool" where
  "left_to_run h s n \<longleftrightarrow> d_phase s = Finishing \<and> (\<exists>q. ring (d_list s) h q \<and> pushed s = executed s @ in_hand (worker s) @ q \<and>
     (case worker s of Taking \<Rightarrow> n = 2 * length q + 1 | Executing x \<Rightarrow> n = 2 * length q + 2 | Returned \<Rightarrow> n = 0 \<and> q = [] | _ \<Rightarrow> False))"

lemma own_step_left:
  assumes "rl_own h s t" and "left_to_run h s n"
  shows "\<exists>m. n = Suc m \<and> left_to_run h t m \<and> pushed t = pushed s"
  using assms(1)
proof (cases rule: rl_own.cases)
  case own_take
  with assms(2) obtain q where q: "ring (d_list s) h q" "pushed s = executed s @ q" "n = 2 * length q + 1" "d_phase s = Finishing"
    by (auto simp: left_to_run_def)
  show ?thesis
  proof (cases q)
    case Nil
    with q own_take show ?thesis by (auto simp: left_to_run_def rl_take_Nil)
  next
    case (Cons x xs)
    with q have "rl_take h s = s\<lparr>worker := Executing x, d_list := il_pop_front h (d_list s)\<rparr>" "ring (il_pop_front h (d_list s)) h xs"
      by (auto intro: rl_take_Cons simp: il.pop_holds)
    with q Cons own_take show ?thesis by (auto simp: left_to_run_def)
  qed
next
  case (own_execute x)
  with assms(2) show ?thesis by (auto simp: left_to_run_def rl_execute_def)
qed

lemma own_run_left:
  assumes "(rl_own h ^^ k) s t" and "left_to_run h s n"
  shows "k \<le> n \<and> left_to_run h t (n - k) \<and> pushed t = pushed s"
  using assms
proof (induction k arbitrary: s n)
  case (Suc k)
  from Suc.prems(1) obtain u where u: "rl_own h s u" "(rl_own h ^^ k) u t" by (rule relpowp_Suc_E2)
  from own_step_left [OF u(1) Suc.prems(2)] obtain m where m: "n = Suc m" "left_to_run h u m" "pushed u = pushed s" by blast
  from Suc.IH [OF u(2) m(2)] m show ?case by simp
qed simp

text \<open>After \<^verbatim>\<open>finish\<close> the thread in \<^verbatim>\<open>run\<close> does not sleep any more, whatever other threads do.\<close>

definition wide_awake :: "run_loop \<Rightarrow> bool" where
  "wide_awake s \<longleftrightarrow> d_phase s = Finishing \<and> worker s \<noteq> Asleep \<and> worker s \<noteq> Outside"

lemma wide_awake_step: "rl_step h s t \<Longrightarrow> wide_awake s \<Longrightarrow> wide_awake t"
  by (induction rule: rl_step.induct)
    (auto simp: wide_awake_def rl_take_def may_take_def rl_pop_front_def rl_execute_def add_to_back_of_def rl_push_back_def
      rl_finish_def notify_one_def Let_def)

lemma wide_awake_goes_on: "wide_awake s \<Longrightarrow> worker s = Returned \<or> (\<exists>t. rl_own h s t)"
  by (cases "worker s") (auto simp: wide_awake_def intro: rl_own.intros)

section \<open>Properties\<close>

text \<open>
  C7: Whatever the interleaving of the thread in \<^verbatim>\<open>run\<close> with threads that queue operation states and call
  \<^verbatim>\<open>finish\<close>, the operation states are executed in the order they were queued, each once: those executed, then the
  one being executed, then those in the list are exactly those queued.
\<close>

theorem run_loop_fifo:
  assumes "rl_reach h s"
  shows "\<exists>q. ring (d_list s) h q
    \<and> pushed s = executed s @ (case worker s of Executing x \<Rightarrow> [x] | _ \<Rightarrow> []) @ q \<and> distinct (executed s)"
  using rl_reach_inv [OF assms] by (auto simp: rl_inv_def in_hand_def split: worker.splits)

theorem run_loop_fifo_witness:
  "\<exists>q. ring (d_list (add_to_back_of 0 7 (rl_new 0 \<lparr>d_next = id, d_prev = id\<rparr>))) 0 q \<and> q = [7]"
proof -
  let ?s = "add_to_back_of 0 7 (rl_new 0 \<lparr>d_next = id, d_prev = id\<rparr>)"
  have "rl_reach 0 ?s"
    by (rule rl_reach.step [OF rl_reach.new rl_step.push]) (simp_all add: rl_new_def)
  from run_loop_fifo [OF this] show ?thesis
    by (auto simp: add_to_back_of_def rl_push_back_def rl_new_def)
qed

text \<open>
  C8: When \<^verbatim>\<open>finish\<close> is called while a thread is in \<^verbatim>\<open>run\<close>, asleep or not, that thread gets to the end without a spurious wake-up: whatever
  other threads queue or however often they call \<^verbatim>\<open>finish\<close>, it has returned or can go on; by itself it takes at most two steps for each
  operation state queued and one more, and where it cannot go on it has returned, everything queued was
  executed, and the loop can be destroyed. Executing an operation state is a step, so it is taken to return.
\<close>

theorem run_loop_finishes:
  assumes "rl_reach h s" and "worker s \<noteq> Outside" and "worker s \<noteq> Returned"
  shows "(\<forall>t. (rl_step h)\<^sup>*\<^sup>* (rl_finish s) t \<longrightarrow> worker t = Returned \<or> (\<exists>u. rl_own h t u))
    \<and> (\<forall>k t. (rl_own h ^^ k) (rl_finish s) t \<longrightarrow> k \<le> 2 * length (pushed s) + 1 \<and>
         ((\<nexists>u. rl_own h t u) \<longrightarrow> worker t = Returned \<and> executed t = pushed s \<and> rl_dtor h t = Some ()))"
proof (intro conjI allI impI)
  from rl_reach_inv [OF assms(1)] obtain q where q: "ring (d_list s) h q" "pushed s = executed s @ in_hand (worker s) @ q"
    by (auto simp: rl_inv_def)
  have awake: "wide_awake (rl_finish s)" using assms(2,3) by (auto simp: wide_awake_def rl_finish_def notify_one_def)
  show "worker t = Returned \<or> (\<exists>u. rl_own h t u)" if "(rl_step h)\<^sup>*\<^sup>* (rl_finish s) t" for t
  proof -
    from that awake have "wide_awake t" by (induction rule: rtranclp_induct) (auto intro: wide_awake_step)
    then show ?thesis by (rule wide_awake_goes_on)
  qed
  define n where "n = 2 * length q + (case worker s of Executing _ \<Rightarrow> 2 | _ \<Rightarrow> 1)"
  have left: "left_to_run h (rl_finish s) n"
    using q assms(2,3) by (cases "worker s") (auto simp: left_to_run_def rl_finish_def notify_one_def n_def)
  have len: "n \<le> 2 * length (pushed s) + 1" using q(2) by (cases "worker s") (auto simp: n_def)
  fix k t
  assume "(rl_own h ^^ k) (rl_finish s) t"
  from own_run_left [OF this left] have t: "k \<le> n" "left_to_run h t (n - k)" "pushed t = pushed s"
    by (auto simp: rl_finish_def notify_one_def)
  then show "k \<le> 2 * length (pushed s) + 1" using len by simp
  show "worker t = Returned" "executed t = pushed s" "rl_dtor h t = Some ()" if "\<nexists>u. rl_own h t u"
  proof -
    have "worker t \<noteq> Taking" "\<And>x. worker t \<noteq> Executing x" using that by (auto intro: rl_own.intros)
    with t(2) show "worker t = Returned" "executed t = pushed s" "rl_dtor h t = Some ()"
      using t(3) by (cases "worker t"; auto simp: left_to_run_def rl_dtor_def il.is_empty_iff)+
  qed
qed

definition sleeping_loop :: run_loop where
  "sleeping_loop = add_to_back_of 0 7 (rl_take 0 ((rl_new 0 \<lparr>d_next = id, d_prev = id\<rparr>)\<lparr>worker := Taking\<rparr>))"

lemma sleeping_loop_reach: "rl_reach 0 sleeping_loop"
proof -
  let ?s = "rl_new 0 \<lparr>d_next = id, d_prev = id\<rparr>"
  have "rl_reach 0 (?s\<lparr>worker := Taking\<rparr>)"
    by (rule rl_reach.step [OF rl_reach.new rl_step.run]) (simp add: rl_new_def)
  then have "rl_reach 0 (rl_take 0 (?s\<lparr>worker := Taking\<rparr>))" by (rule rl_reach.step) (rule rl_step.take; simp)
  moreover have "ring (d_list (?s\<lparr>worker := Taking\<rparr>)) 0 []" by (simp add: rl_new_def ring_new)
  note rl_take_Nil [OF this]
  ultimately show ?thesis unfolding sleeping_loop_def
    by (auto intro!: rl_reach.step [OF _ rl_step.push] simp: rl_new_def)
qed

lemma sleeping_loop_eq:
  "worker sleeping_loop = Asleep \<and> pushed sleeping_loop = [7] \<and> executed sleeping_loop = [] \<and> d_phase sleeping_loop = Starting"
proof -
  let ?s = "(rl_new 0 \<lparr>d_next = id, d_prev = id\<rparr>)\<lparr>worker := Taking\<rparr>"
  have "ring (d_list ?s) 0 []" by (simp add: rl_new_def ring_new)
  from rl_take_Nil [OF this] show ?thesis
    by (simp add: sleeping_loop_def add_to_back_of_def rl_push_back_def rl_new_def)
qed

text \<open>Steps whose number is bounded come to a state without a next one.\<close>

lemma bounded_steps_end:
  assumes "\<And>k t. (R ^^ k) s t \<Longrightarrow> k \<le> b"
  shows "\<exists>k t. k \<le> b \<and> (R ^^ k) s t \<and> (\<nexists>u. R t u)"
proof (rule ccontr)
  assume a: "\<not> ?thesis"
  have "\<exists>t. (R ^^ k) s t" for k
  proof (induction k)
    case (Suc k)
    then obtain t where t: "(R ^^ k) s t" ..
    with assms a obtain u where "R t u" by blast
    with t show ?case by (auto intro: relpowp_Suc_I)
  qed auto
  then obtain t where "(R ^^ Suc b) s t" ..
  from assms [OF this] show False by simp
qed

text \<open>The sleeping thread with one operation state in the list: it is awake, and returns after at most three steps.\<close>

theorem run_loop_finishes_witness:
  "(\<exists>u. rl_own 0 (rl_finish sleeping_loop) u) \<and>
   (\<exists>k t. k \<le> 3 \<and> (rl_own 0 ^^ k) (rl_finish sleeping_loop) t \<and> worker t = Returned \<and> executed t = [7])"
proof -
  note w = run_loop_finishes [OF sleeping_loop_reach]
  have bound: "k \<le> 3" if "(rl_own 0 ^^ k) (rl_finish sleeping_loop) t" for k t using that w sleeping_loop_eq by auto
  have "\<exists>k t. k \<le> 3 \<and> (rl_own 0 ^^ k) (rl_finish sleeping_loop) t \<and> (\<nexists>u. rl_own 0 t u)"
    by (rule bounded_steps_end) (rule bound)
  then obtain k t where "k \<le> 3" "(rl_own 0 ^^ k) (rl_finish sleeping_loop) t" "\<nexists>u. rl_own 0 t u" by blast
  moreover from this w sleeping_loop_eq have "worker t = Returned" "executed t = [7]" by auto
  moreover have "\<exists>u. rl_own 0 (rl_finish sleeping_loop) u"
    using w sleeping_loop_eq by (auto simp: rl_finish_def notify_one_def)
  ultimately show ?thesis by blast
qed

text \<open>
  Queueing does not wake the thread that waits in \<^verbatim>\<open>pop_front\<close>: from any state in which it sleeps,
  whatever is queued, no step but \<^verbatim>\<open>finish\<close> or a spurious wake-up gets it going, and such a state with
  work in the list is reached.
\<close>

theorem run_loop_lost_wakeup:
  "(\<forall>t. (\<lambda>s t. rl_step h s t \<and> d_phase t \<noteq> Finishing \<and> \<not> (worker s = Asleep \<and> t = s\<lparr>worker := Taking\<rparr>))\<^sup>*\<^sup>* s t
      \<longrightarrow> worker s = Asleep \<longrightarrow> worker t = Asleep \<and> executed t = executed s)
   \<and> (\<exists>s. rl_reach 0 s \<and> worker s = Asleep \<and> pushed s = [7] \<and> executed s = [] \<and> d_phase s \<noteq> Finishing)"
proof
  show "\<exists>s. rl_reach 0 s \<and> worker s = Asleep \<and> pushed s = [7] \<and> executed s = [] \<and> d_phase s \<noteq> Finishing"
    using sleeping_loop_reach sleeping_loop_eq by auto
  have step: "worker u = Asleep \<and> executed u = executed t"
    if "rl_step h t u" "d_phase u \<noteq> Finishing" "u \<noteq> t\<lparr>worker := Taking\<rparr>" "worker t = Asleep" for t u
    using that by (cases rule: rl_step.cases) (auto simp: add_to_back_of_def rl_push_back_def rl_finish_def notify_one_def)
  show "\<forall>t. (\<lambda>s t. rl_step h s t \<and> d_phase t \<noteq> Finishing \<and> \<not> (worker s = Asleep \<and> t = s\<lparr>worker := Taking\<rparr>))\<^sup>*\<^sup>* s t
      \<longrightarrow> worker s = Asleep \<longrightarrow> worker t = Asleep \<and> executed t = executed s"
  proof (intro allI impI)
    fix t assume "(\<lambda>s t. rl_step h s t \<and> d_phase t \<noteq> Finishing \<and> \<not> (worker s = Asleep \<and> t = s\<lparr>worker := Taking\<rparr>))\<^sup>*\<^sup>* s t"
      and "worker s = Asleep"
    then show "worker t = Asleep \<and> executed t = executed s"
      by (induction rule: rtranclp_induct) (use step in auto)
  qed
qed

theorem run_loop_lost_wakeup_witness:
  "worker (add_to_back_of 0 8 sleeping_loop) = Asleep \<and> executed (add_to_back_of 0 8 sleeping_loop) = []"
proof -
  have "rl_step 0 sleeping_loop (add_to_back_of 0 8 sleeping_loop)"
    by (rule rl_step.push) (simp_all add: sleeping_loop_eq)
  moreover have "d_phase (add_to_back_of 0 8 sleeping_loop) \<noteq> Finishing" "add_to_back_of 0 8 sleeping_loop \<noteq> sleeping_loop\<lparr>worker := Taking\<rparr>"
    using sleeping_loop_eq by (auto simp: add_to_back_of_def rl_push_back_def dest: arg_cong [of _ _ pushed])
  ultimately have "(\<lambda>s t. rl_step 0 s t \<and> d_phase t \<noteq> Finishing \<and> \<not> (worker s = Asleep \<and> t = s\<lparr>worker := Taking\<rparr>))\<^sup>*\<^sup>*
      sleeping_loop (add_to_back_of 0 8 sleeping_loop)" by (intro r_into_rtranclp) auto
  with run_loop_lost_wakeup [of 0 sleeping_loop] sleeping_loop_eq show ?thesis by auto
qed

text \<open>
  The sender of the loop's scheduler declares \<^verbatim>\<open>set_value()\<close> only; what \<^verbatim>\<open>do_execute\<close> does keeps to that
  exactly when the receiver's stop token has no stop request.
\<close>

lemma run_loop_sender_signatures:
  "sig_of ty (rl_do_execute stop_requested) \<in> set rl_sender_signatures \<longleftrightarrow> \<not> stop_requested"
  by (simp add: rl_do_execute_def rl_sender_signatures_def)

end
