(* ===== verification/Async_Scope.thy ===== *)
theory Async_Scope
  imports Intrusive_List
begin

text \<open>
  \<^verbatim>\<open>async_scope\<close> of \<^verbatim>\<open>src/src/nstd/execution/async_scope.{hpp,cpp}\<close>: the count of nested senders and the list of
  operation states that wait for the scope to be empty. The list of the scope has its head node
  at \<open>h\<close>, the local list in \<^verbatim>\<open>complete\<close> at \<open>l\<close>; a head node is itself an operation state whose
  \<^verbatim>\<open>do_complete\<close> does nothing. \<^verbatim>\<open>spawn\<close>, \<^verbatim>\<open>spawn_future\<close>, \<^verbatim>\<open>get_stop_source\<close>, \<^verbatim>\<open>get_stop_token\<close> and \<^verbatim>\<open>request_stop\<close> are declared
  and have no definition in the sources.
\<close>

section \<open>Model\<close>

record async_scope =
  d_on_empty :: links
  d_outstanding :: "64 word"
  completed :: "addr list"

definition scope_new :: "addr \<Rightarrow> links \<Rightarrow> async_scope" where
  "scope_new h ls = \<lparr>d_on_empty = il_new h ls, d_outstanding = 0, completed = []\<rparr>"

text \<open>The destructor: \<^const>\<open>None\<close> when the assertion fails or \<^verbatim>\<open>std::terminate\<close> is called.\<close>

definition scope_dtor :: "addr \<Rightarrow> async_scope \<Rightarrow> unit option" where
  "scope_dtor h s = (if \<not> il_empty h (d_on_empty s) then None else if d_outstanding s \<noteq> 0 then None else Some ())"

text \<open>\<^verbatim>\<open>complete\<close> of an operation state; \<open>heads\<close> are the head nodes of the lists.\<close>

definition state_complete :: "addr set \<Rightarrow> addr \<Rightarrow> async_scope \<Rightarrow> async_scope" where
  "state_complete heads x s = (if x \<in> heads then s else s\<lparr>completed := completed s @ [x]\<rparr>)"

definition scope_complete :: "addr \<Rightarrow> addr \<Rightarrow> async_scope \<Rightarrow> async_scope option" where
  "scope_complete h l s =
     (let s = s\<lparr>d_on_empty := il_new l (d_on_empty s)\<rparr>;
          s = s\<lparr>d_on_empty := il_swap h l (d_on_empty s)\<rparr>
      in loop_while (\<lambda>s. \<not> il_empty l (d_on_empty s))
           (\<lambda>s. let nxt = il_front l (d_on_empty s);
                    s = s\<lparr>d_on_empty := il_pop_front l (d_on_empty s)\<rparr>
                in Some (state_complete {h, l} nxt s)) s)"

definition scope_insert :: "addr \<Rightarrow> addr \<Rightarrow> addr \<Rightarrow> async_scope \<Rightarrow> (bool \<times> async_scope) option" where
  "scope_insert h l x s =
     (let s = s\<lparr>d_outstanding := d_outstanding s + 1\<rparr>;
          s = s\<lparr>d_on_empty := il_push_back h x (d_on_empty s)\<rparr>;
          s = s\<lparr>d_outstanding := d_outstanding s - 1\<rparr>
      in if d_outstanding s \<noteq> 0 then Some (True, s)
         else map_option (\<lambda>s. (False, s)) (scope_complete h l (s\<lparr>d_on_empty := il_erase x (d_on_empty s)\<rparr>)))"

definition scope_erase :: "addr \<Rightarrow> async_scope \<Rightarrow> async_scope" where
  "scope_erase x s = s\<lparr>d_on_empty := il_erase x (d_on_empty s)\<rparr>"

definition scope_nest :: "async_scope \<Rightarrow> async_scope" where
  "scope_nest s = s\<lparr>d_outstanding := d_outstanding s + 1\<rparr>"

text \<open>Starting an operation of \<^verbatim>\<open>upon_empty\<close>.\<close>

definition upon_empty_start :: "addr \<Rightarrow> addr \<Rightarrow> addr \<Rightarrow> async_scope \<Rightarrow> async_scope option" where
  "upon_empty_start h l x s =
     map_option (\<lambda>(inserted, s). if \<not> inserted then state_complete {h, l} x s else s) (scope_insert h l x s)"

section \<open>complete\<close>

text \<open>
  With nothing in the list the exchange makes the two head nodes a ring of each other; the loop takes the
  scope's head node out of it again, and both lists are empty.
\<close>

lemma complete_empty:
  assumes "ring (d_on_empty s) h []" and "h \<noteq> l"
  shows "\<exists>ls. scope_complete h l s = Some (s\<lparr>d_on_empty := ls\<rparr>) \<and> ring ls h []"
proof -
  define a where "a = il_swap h l (il_new l (d_on_empty s))"
  have n: "d_next (il_new l (d_on_empty s)) = (d_next (d_on_empty s))(l := l)" "d_prev (il_new l (d_on_empty s)) = (d_prev (d_on_empty s))(l := l)"
    by (simp_all add: il_new_def il_connect_def Let_def)
  have h: "d_next (d_on_empty s) h = h" "d_prev (d_on_empty s) h = h" using assms(1) by (simp_all add: ring_Nil_iff)
  have a: "d_next a h = l" "d_next a l = h" "d_prev a h = l" "d_prev a l = h"
    using assms(2) h n by (simp_all add: a_def swap_fields)
  define b where "b = il_pop_front l a"
  have b: "d_next b h = h" "d_next b l = l" "d_prev b h = h" "d_prev b l = l"
    using assms(2) a by (simp_all add: b_def il_pop_front_def il_begin_def il_erase_def Let_def)
  have "scope_complete h l s = Some (s\<lparr>d_on_empty := b\<rparr>)"
    using a b assms(2)
    by (simp add: scope_complete_def a_def [symmetric] loop_while.simps il_empty_def il_front_def b_def [symmetric] state_complete_def Let_def)
  with b show ?thesis by (auto simp: ring_Nil_iff)
qed

text \<open>With something in the list the first one stays the front of the local list.\<close>

lemma complete_nonempty:
  assumes r: "ring (d_on_empty s) h (x # xs)" and l: "l \<notin> set (h # x # xs)"
  shows "scope_complete h l s = None"
proof -
  define a where "a = il_swap h l (il_new l (d_on_empty s))"
  have n: "d_next (il_new l (d_on_empty s)) = (d_next (d_on_empty s))(l := l)" "d_prev (il_new l (d_on_empty s)) = (d_prev (d_on_empty s))(l := l)"
    by (simp_all add: il_new_def il_connect_def Let_def)
  have hx: "d_next (d_on_empty s) h = x" using ring_next [OF r] by simp
  have "linked (d_on_empty s) (h # x # xs @ [h])" using r by (simp add: ring_def)
  then have xp: "d_prev (d_on_empty s) x = h" by (simp add: linked_Cons)
  have ne: "h \<noteq> l" "x \<noteq> l" "x \<noteq> h" using l ring_distinct [OF r] by auto
  have a: "d_next a l = x" "d_prev a x = h" using ne hx xp n by (simp_all add: a_def swap_fields)
  let ?I = "\<lambda>t. d_next (d_on_empty t) l = x \<and> d_prev (d_on_empty t) x \<noteq> l"
  have step: "?I (t\<lparr>d_on_empty := il_pop_front l (d_on_empty t)\<rparr>)" if "?I t" for t :: async_scope
  proof -
    let ?p = "il_pop_front l (d_on_empty t)"
    have "d_prev ?p x = x" using that by (simp add: il_pop_front_def il_begin_def il_erase_def Let_def)
    moreover have "d_next ?p l = x" using that ne by (simp add: il_pop_front_def il_begin_def il_erase_def Let_def)
    ultimately show ?thesis using ne by simp
  qed
  show ?thesis
    unfolding scope_complete_def Let_def a_def [symmetric]
  proof (rule loop_while_diverges [where I = ?I], goal_cases)
    case 1
    then show ?case using a ne by (simp add: a_def)
  next
    case (2 t)
    then show ?case using ne by (auto simp: il_empty_def)
  next
    case (3 t u)
    then have "u = state_complete {h, l} (il_front l (d_on_empty t)) (t\<lparr>d_on_empty := il_pop_front l (d_on_empty t)\<rparr>)" by simp
    with step [of t] 3(1) show ?case by (simp add: state_complete_def)
  qed
qed

section \<open>upon_empty\<close>

lemma upon_empty_idle:
  assumes "ring (d_on_empty s) h []" and "d_outstanding s = 0" and "h \<noteq> l" and "x \<noteq> h" and "x \<noteq> l"
  shows "\<exists>ls. upon_empty_start h l x s = Some (s\<lparr>d_on_empty := ls, completed := completed s @ [x]\<rparr>) \<and> ring ls h []"
proof -
  have p: "ring (il_push_back h x (d_on_empty s)) h [x]" using ring_push_back [OF assms(1), of x] assms(4) by simp
  have "ring (il_erase x (il_push_back h x (d_on_empty s))) h []" using ring_erase [of _ h "[]" x "[]"] p by simp
  then obtain ls where ls: "scope_complete h l (s\<lparr>d_on_empty := il_erase x (il_push_back h x (d_on_empty s))\<rparr>)
      = Some (s\<lparr>d_on_empty := ls\<rparr>)" "ring ls h []"
    using complete_empty [of "s\<lparr>d_on_empty := il_erase x (il_push_back h x (d_on_empty s))\<rparr>" h l] assms(3) by auto
  have eq: "s\<lparr>d_outstanding := 0, d_on_empty := e\<rparr> = s\<lparr>d_on_empty := e\<rparr>" for e using assms(2) by (cases s) simp
  have "scope_insert h l x s = Some (False, s\<lparr>d_on_empty := ls\<rparr>)"
    using assms ls(1) by (simp add: scope_insert_def Let_def eq)
  with ls(2) assms show ?thesis by (intro exI [of _ ls]) (simp add: upon_empty_start_def state_complete_def)
qed

lemma upon_empty_busy:
  assumes "ring (d_on_empty s) h ws" and "d_outstanding s \<noteq> 0" and "x \<notin> set (h # ws)"
  shows "upon_empty_start h l x s = Some (s\<lparr>d_on_empty := il_push_back h x (d_on_empty s)\<rparr>)
    \<and> ring (il_push_back h x (d_on_empty s)) h (ws @ [x])"
  using assms ring_push_back [OF assms(1,3)]
  by (cases s) (simp add: upon_empty_start_def scope_insert_def Let_def)

datatype scope_event = Nest | Upon_Empty addr

fun scope_run :: "addr \<Rightarrow> addr \<Rightarrow> scope_event list \<Rightarrow> async_scope \<Rightarrow> async_scope option" where
  "scope_run h l [] s = Some s"
| "scope_run h l (Nest # es) s = scope_run h l es (scope_nest s)"
| "scope_run h l (Upon_Empty x # es) s = Option.bind (upon_empty_start h l x s) (scope_run h l es)"

fun started :: "scope_event list \<Rightarrow> addr list" where
  "started [] = []"
| "started (Nest # es) = started es"
| "started (Upon_Empty x # es) = x # started es"

definition nests :: "scope_event list \<Rightarrow> nat" where
  "nests es = length (filter (\<lambda>e. e = Nest) es)"

text \<open>What the sources do: those started before the first nested sender complete, the others wait.\<close>

definition before_nest :: "scope_event list \<Rightarrow> addr list" where
  "before_nest es = started (takeWhile (\<lambda>e. e \<noteq> Nest) es)"

definition after_nest :: "scope_event list \<Rightarrow> addr list" where
  "after_nest es = started (dropWhile (\<lambda>e. e \<noteq> Nest) es)"

lemma started_split: "started es = before_nest es @ after_nest es"
  unfolding before_nest_def after_nest_def by (induction es rule: started.induct) auto

lemma scope_run_busy:
  assumes "ring (d_on_empty s) h ws" and "d_outstanding s = of_nat n" and "0 < n" and "n + nests es < 2 ^ 64"
    and "distinct (h # ws @ started es)"
  shows "\<exists>t. scope_run h l es s = Some t \<and> completed t = completed s \<and> ring (d_on_empty t) h (ws @ started es)
    \<and> d_outstanding t = of_nat (n + nests es)"
  using assms
proof (induction es arbitrary: s ws n rule: started.induct)
  case (2 es)
  then show ?case using "2.IH" [of "scope_nest s" ws "n + 1"] by (simp add: scope_nest_def nests_def add.commute)
next
  case (3 x es)
  have "(of_nat n :: 64 word) \<noteq> 0" using 3(4,5) by (simp add: word_of_nat_eq_0_iff nests_def nat_dvd_not_less)
  then have u: "upon_empty_start h l x s = Some (s\<lparr>d_on_empty := il_push_back h x (d_on_empty s)\<rparr>)"
    "ring (il_push_back h x (d_on_empty s)) h (ws @ [x])"
    using upon_empty_busy [OF 3(2), of x l] 3(3,6) by auto
  show ?case
    using 3(1) [of "s\<lparr>d_on_empty := il_push_back h x (d_on_empty s)\<rparr>" "ws @ [x]" n] u 3(3-6)
    by (simp add: nests_def)
qed (simp add: nests_def)

lemma scope_run_idle:
  assumes "ring (d_on_empty s) h []" and "d_outstanding s = 0" and "nests es < 2 ^ 64"
    and "distinct (h # l # started es)"
  shows "\<exists>t. scope_run h l es s = Some t \<and> completed t = completed s @ before_nest es
    \<and> ring (d_on_empty t) h (after_nest es) \<and> d_outstanding t = of_nat (nests es)"
  using assms
proof (induction es arbitrary: s rule: started.induct)
  case (2 es)
  have "d_outstanding (scope_nest s) = of_nat 1" "ring (d_on_empty (scope_nest s)) h []"
    using 2(2,3) by (simp_all add: scope_nest_def)
  then show ?case using scope_run_busy [of "scope_nest s" h "[]" 1 es l] 2(4,5)
    by (auto simp: before_nest_def after_nest_def nests_def scope_nest_def)
next
  case (3 x es)
  from upon_empty_idle [OF 3(2,3), of l x] 3(5) obtain ls where
    u: "upon_empty_start h l x s = Some (s\<lparr>d_on_empty := ls, completed := completed s @ [x]\<rparr>)" "ring ls h []" by auto
  show ?case
    using 3(1) [of "s\<lparr>d_on_empty := ls, completed := completed s @ [x]\<rparr>"] u 3(3-5)
    by (auto simp: nests_def before_nest_def after_nest_def)
qed (simp add: nests_def before_nest_def after_nest_def)

section \<open>Properties\<close>

text \<open>
  In any sequence of nesting senders and starting \<^verbatim>\<open>upon_empty\<close> operations, the operations started
  before the first nested sender complete at once, in order, and every later one stays in the list: nothing takes a
  nested sender off the count again, and once one was nested the scope cannot be destroyed.
\<close>

theorem async_scope_upon_empty:
  assumes "nests es < 2 ^ 64" and "distinct (h # l # started es)"
  shows "\<exists>t. scope_run h l es (scope_new h ls) = Some t \<and> completed t = before_nest es
    \<and> ring (d_on_empty t) h (after_nest es) \<and> (scope_dtor h t = Some () \<longleftrightarrow> Nest \<notin> set es)"
proof -
  have "ring (d_on_empty (scope_new h ls)) h []" by (simp add: scope_new_def ring_new)
  from scope_run_idle [OF this _ assms] obtain t where
    t: "scope_run h l es (scope_new h ls) = Some t" "completed t = before_nest es" "ring (d_on_empty t) h (after_nest es)"
      "d_outstanding t = of_nat (nests es)" by (auto simp: scope_new_def)
  have "d_outstanding t = 0 \<longleftrightarrow> nests es = 0"
    using t(4) assms(1) by (auto simp: word_of_nat_eq_0_iff dest: nat_dvd_not_less [rotated])
  moreover have "nests es = 0 \<longleftrightarrow> Nest \<notin> set es" by (auto simp: nests_def filter_empty_conv)
  moreover have "after_nest es = []" if "Nest \<notin> set es"
  proof -
    have "\<forall>e \<in> set es. e \<noteq> Nest" using that by auto
    then have "dropWhile (\<lambda>e. e \<noteq> Nest) es = []" by (simp only: dropWhile_eq_Nil_conv)
    then show ?thesis by (simp only: after_nest_def started.simps)
  qed
  ultimately show ?thesis using t ring_empty_iff [OF t(3)] by (auto simp: scope_dtor_def)
qed

theorem async_scope_upon_empty_witness:
  "\<exists>t. scope_run 0 1 [Upon_Empty 5, Nest, Upon_Empty 6] (scope_new 0 \<lparr>d_next = id, d_prev = id\<rparr>) = Some t
     \<and> completed t = [5] \<and> ring (d_on_empty t) 0 [6] \<and> scope_dtor 0 t \<noteq> Some ()"
  using async_scope_upon_empty [of "[Upon_Empty 5, Nest, Upon_Empty 6]" 0 1 "\<lparr>d_next = id, d_prev = id\<rparr>"]
  by (auto simp: nests_def before_nest_def after_nest_def)

text \<open>
  \<^verbatim>\<open>complete\<close> does not return when operations wait in the list: exchanging the fields of the head
  nodes leaves the first node linked to the old head, so it is taken and completed again and again.
\<close>

theorem async_scope_complete_hangs:
  assumes "ring (d_on_empty s) h (x # xs)" and "l \<notin> set (h # x # xs)"
  shows "scope_complete h l s = None"
  using assms by (rule complete_nonempty)

theorem async_scope_complete_hangs_witness:
  "scope_complete 0 1 ((scope_new 0 \<lparr>d_next = id, d_prev = id\<rparr>)\<lparr>d_on_empty := il_push_back 0 5 (il_new 0 \<lparr>d_next = id, d_prev = id\<rparr>)\<rparr>) = None"
proof (rule async_scope_complete_hangs)
  show "ring (d_on_empty ((scope_new 0 \<lparr>d_next = id, d_prev = id\<rparr>)\<lparr>d_on_empty := il_push_back 0 5 (il_new 0 \<lparr>d_next = id, d_prev = id\<rparr>)\<rparr>)) 0 [5]"
    using ring_push_back [OF ring_new, of 5 0] by simp
qed simp

end
