(* ===== verification/Consumers.thy ===== *)
theory Consumers
  imports Senders
begin

text \<open>
  Where senders end: \<^verbatim>\<open>sync_wait\<close> of \<^verbatim>\<open>src/src/nstd/thread/sync_wait.hpp\<close>, \<^verbatim>\<open>start_detached\<close> and the unfinished \<^verbatim>\<open>timeout\<close> of
  \<^verbatim>\<open>src/src/nstd/execution\<close>. \<^verbatim>\<open>sync_wait\<close> is a receiver in the sense of the sender theory, with the variables of the
  call as part of the state; of the others the operation state is modelled on the events that reach it.
\<close>

section \<open>sync_wait\<close>

text \<open>The local variables of the call.\<close>

record 'v sync_locals =
  sw_done :: bool
  sw_res :: "'v cval list option"
  sw_ex :: "'v option"

definition sw_complete :: "'v sync_locals \<Rightarrow> 'v sync_locals" where
  "sw_complete l = l\<lparr>sw_done := True\<rparr>"

text \<open>
  The completions: \<^verbatim>\<open>set_value\<close> without arguments assigns \<^verbatim>\<open>{}\<close> to the optional result, which empties it; an error that
  is not an exception pointer is made one.
\<close>

definition sw_set_value_void :: "'v sync_locals \<Rightarrow> 'v sync_locals" where
  "sw_set_value_void l = sw_complete (l\<lparr>sw_res := None\<rparr>)"

definition sw_set_value :: "'v cval list \<Rightarrow> 'v sync_locals \<Rightarrow> 'v sync_locals" where
  "sw_set_value args l = sw_complete (l\<lparr>sw_res := Some args\<rparr>)"

fun sw_set_error :: "'v cval \<Rightarrow> 'v sync_locals \<Rightarrow> 'v sync_locals" where
  "sw_set_error (Exception_Ptr x) l = sw_complete (l\<lparr>sw_ex := Some x\<rparr>)"
| "sw_set_error (Value e) l = sw_complete (l\<lparr>sw_ex := Some e\<rparr>)"

definition sync_receiver :: "'e \<Rightarrow> ('v, 'e, 'u \<times> 'v sync_locals) receiver" where
  "sync_receiver e =
     \<lparr>complete = (\<lambda>c (u, l).
        case ctag c of
          Set_Value \<Rightarrow> Some (u, if cargs c = [] then sw_set_value_void l else sw_set_value (cargs c) l)
        | Set_Error \<Rightarrow> (case cargs c of [x] \<Rightarrow> Some (u, sw_set_error x l) | _ \<Rightarrow> None)
        | Set_Stopped \<Rightarrow> Some (u, sw_complete l)),
      get_env = e\<rparr>"

datatype 'v sync_result = Rethrows 'v | Result "'v cval list option"

text \<open>\<^const>\<open>None\<close> is a call that does not return: it waits for \<^verbatim>\<open>done\<close>, or the program has ended.\<close>

definition sync_wait :: "'e \<Rightarrow> ('v, 't, 'e, 'u \<times> 'v sync_locals) sender \<Rightarrow> 'u \<Rightarrow> ('v sync_result \<times> 'u) option" where
  "sync_wait e s u =
     (case connect s (sync_receiver e) of
        Connected start \<Rightarrow>
          (case start (u, \<lparr>sw_done = False, sw_res = None, sw_ex = None\<rparr>) of
             Some (u, l) \<Rightarrow>
               if \<not> sw_done l then None
               else Some (case sw_ex l of Some x \<Rightarrow> Rethrows x | None \<Rightarrow> Result (sw_res l), u)
           | None \<Rightarrow> None)
      | Connect_Throws x \<Rightarrow> Some (Rethrows x, u)
      | Connect_Terminates \<Rightarrow> None)"

section \<open>start_detached\<close>

text \<open>
  The receiver is copied on its way into the operation state; it has no move constructor. Copies are numbered, the last
  one is in the operation state. \<open>backpointer\<close> is the local variable \<^verbatim>\<open>state\<close>: the copy whose \<^verbatim>\<open>d_state\<close> it
  points to. \<open>owner\<close> is the set of copies whose \<^verbatim>\<open>d_state\<close> holds the operation; it is destroyed when
  there is none.
\<close>

record detached =
  copies :: nat
  backpointer :: "nat option"
  owner :: "nat set"
  destroyed :: nat

definition detached_receiver :: detached where
  "detached_receiver = \<lparr>copies = 1, backpointer = None, owner = {}, destroyed = 0\<rparr>"

text \<open>The copy constructor, of the last copy.\<close>

definition detached_copy :: "detached \<Rightarrow> detached" where
  "detached_copy d =
     (let new = copies d;
          shared = (copies d - 1 \<in> owner d)
      in d\<lparr>copies := copies d + 1,
           owner := (if shared then insert new (owner d) else owner d),
           backpointer := (if shared then backpointer d else Some new)\<rparr>)"

definition detached_reset_state :: "detached \<Rightarrow> detached option" where
  "detached_reset_state d = (case backpointer d of Some r \<Rightarrow> Some (d\<lparr>owner := insert r (owner d)\<rparr>) | None \<Rightarrow> None)"

definition drop_owner :: "nat \<Rightarrow> detached \<Rightarrow> detached" where
  "drop_owner r d =
     (if r \<in> owner d
      then d\<lparr>owner := owner d - {r}, destroyed := (if owner d = {r} then destroyed d + 1 else destroyed d)\<rparr>
      else d)"

text \<open>The completion of copy \<open>r\<close>; an error ends the program.\<close>

definition detached_complete :: "nat \<Rightarrow> tag \<Rightarrow> detached \<Rightarrow> detached option" where
  "detached_complete r t d = (if t = Set_Error then None else Some (drop_owner r d))"

text \<open>
  \<^verbatim>\<open>start_detached\<close> of a sender whose \<^verbatim>\<open>connect\<close> copies the receiver \<open>n\<close> times; \<open>completes\<close> is how
  the operation completes when it is started, if it does then.
\<close>

definition start_detached :: "nat \<Rightarrow> tag option \<Rightarrow> detached option" where
  "start_detached n completes =
     Option.bind (detached_reset_state ((detached_copy ^^ n) detached_receiver))
       (\<lambda>d. case completes of None \<Rightarrow> Some d | Some t \<Rightarrow> detached_complete n t d)"

section \<open>timeout\<close>

text \<open>The states of the sender's and of the timer's operation are only what their receivers do here.\<close>

record 'v timeout_state =
  to_done :: nat
  to_stopped :: bool
  to_values :: "'v cval list option"
  to_errors :: "'v cval option"
  to_receiver :: "'v completion list"

definition timeout_connect :: "'v timeout_state" where
  "timeout_connect = \<lparr>to_done = 0, to_stopped = False, to_values = None, to_errors = None, to_receiver = []\<rparr>"

definition timer_done :: "'v timeout_state \<Rightarrow> 'v timeout_state" where
  "timer_done s =
     (let s = s\<lparr>to_done := to_done s + 1\<rparr>
      in if to_done s = 1 then s\<lparr>to_stopped := True\<rparr>
         else case to_errors s of
                Some e \<Rightarrow> s\<lparr>to_receiver := to_receiver s @ [Completion Set_Error [e]]\<rparr>
              | None \<Rightarrow>
                  (case to_values s of
                     Some vs \<Rightarrow> s\<lparr>to_receiver := to_receiver s @ [Completion Set_Value vs]\<rparr>
                   | None \<Rightarrow> s\<lparr>to_receiver := to_receiver s @ [Completion Set_Stopped []]\<rparr>))"

text \<open>The receiver of the sender: the bodies of \<^verbatim>\<open>set_value\<close> and \<^verbatim>\<open>set_error\<close> are empty.\<close>

definition sender_receiver :: "'v completion \<Rightarrow> 'v timeout_state \<Rightarrow> 'v timeout_state" where
  "sender_receiver c s =
     (case ctag c of
        Set_Value \<Rightarrow> s
      | Set_Error \<Rightarrow> s
      | Set_Stopped \<Rightarrow>
          let s = s\<lparr>to_stopped := True\<rparr>;
              s = s\<lparr>to_done := to_done s + 1\<rparr>
          in if to_done s = 2 then s\<lparr>to_receiver := to_receiver s @ [Completion Set_Stopped []]\<rparr> else s)"

definition timer_receiver :: "'v completion \<Rightarrow> 'v timeout_state \<Rightarrow> 'v timeout_state" where
  "timer_receiver c s = timer_done s"

section \<open>Properties\<close>

text \<open>
  C29: \<^verbatim>\<open>sync_wait\<close> of a sender that delivers a completion returns it: the values, or the error as an
  exception, and an empty optional both for a stop and for a completion without values.
\<close>

theorem sync_wait_returns:
  assumes "delivers s e (u, \<lparr>sw_done = False, sw_res = None, sw_ex = None\<rparr>) c (u', \<lparr>sw_done = False, sw_res = None, sw_ex = None\<rparr>)"
    and "completion_signature (sig_of ty c)"
  shows "sync_wait e s u = Some (case ctag c of
      Set_Value \<Rightarrow> Result (if cargs c = [] then None else Some (cargs c))
    | Set_Error \<Rightarrow> (case cargs c ! 0 of Exception_Ptr x \<Rightarrow> Rethrows x | Value x \<Rightarrow> Rethrows x)
    | Set_Stopped \<Rightarrow> Result None, u')"
proof -
  have "get_env (sync_receiver e) = e" by (simp add: sync_receiver_def)
  with assms(1) obtain start where st: "connect s (sync_receiver e) = Connected start"
    "start (u, \<lparr>sw_done = False, sw_res = None, sw_ex = None\<rparr>) = complete (sync_receiver e) c (u', \<lparr>sw_done = False, sw_res = None, sw_ex = None\<rparr>)"
    using deliversD by fast
  show ?thesis
  proof (cases "ctag c")
    case Set_Error
    with assms(2) obtain x where "cargs c = [x]" by (auto simp: completion_signature_def length_Suc_conv)
    with Set_Error st show ?thesis
      by (cases x) (simp_all add: sync_wait_def sync_receiver_def sw_complete_def)
  qed (use st in \<open>simp_all add: sync_wait_def sync_receiver_def sw_complete_def sw_set_value_def sw_set_value_void_def\<close>)
qed

theorem sync_wait_returns_witness:
  "sync_wait () (then_sender Set_Value (just (\<lambda>_ :: nat. 0 :: nat) [8]) half) () = Some (Result (Some [Value 4]), ())
   \<and> sync_wait () (just (\<lambda>_ :: nat. 0 :: nat) []) () = sync_wait () (just_stopped (\<lambda>_ :: nat. 0 :: nat)) ()"
proof
  let ?l = "\<lparr>sw_done = False, sw_res = None, sw_ex = None\<rparr>"
  have "delivers (then_sender Set_Value (just (\<lambda>_ :: nat. 0 :: nat) [8]) half) () ((), ?l) (Completion Set_Value [Value 4]) ((), ?l)"
    unfolding just_def by (rule delivers_then [OF delivers_just]) (simp add: then_result_def half_def)
  from sync_wait_returns [OF this, of "\<lambda>_. 0 :: nat"]
  show "sync_wait () (then_sender Set_Value (just (\<lambda>_ :: nat. 0 :: nat) [8]) half) () = Some (Result (Some [Value 4]), ())"
    by (simp add: completion_signature_def)
  show "sync_wait () (just (\<lambda>_ :: nat. 0 :: nat) []) () = sync_wait () (just_stopped (\<lambda>_ :: nat. 0 :: nat)) ()"
    using sync_wait_returns [OF delivers_just [of "\<lambda>_ :: nat. 0 :: nat" Set_Value "[]" "()" "((), ?l)"], of "\<lambda>_. 0 :: nat"]
      sync_wait_returns [OF delivers_just [of "\<lambda>_ :: nat. 0 :: nat" Set_Stopped "[]" "()" "((), ?l)"], of "\<lambda>_. 0 :: nat"]
    by (simp add: just_def just_stopped_def completion_signature_def)
qed

lemma detached_copies:
  "(detached_copy ^^ n) detached_receiver
     = \<lparr>copies = n + 1, backpointer = (if n = 0 then None else Some n), owner = {}, destroyed = 0\<rparr>"
  by (induction n) (simp_all add: detached_receiver_def detached_copy_def Let_def)

text \<open>
  However often connecting copies the receiver, at least once, the copy in the operation state owns the operation, which lives until
  it completes: with values or a stop it is destroyed then, once, with an error the program ends.
\<close>

theorem start_detached_owns:
  "start_detached (Suc n) None = Some \<lparr>copies = n + 2, backpointer = Some (Suc n), owner = {Suc n}, destroyed = 0\<rparr>
   \<and> start_detached (Suc n) (Some Set_Value) = Some \<lparr>copies = n + 2, backpointer = Some (Suc n), owner = {}, destroyed = 1\<rparr>
   \<and> start_detached (Suc n) (Some Set_Stopped) = start_detached (Suc n) (Some Set_Value)
   \<and> start_detached (Suc n) (Some Set_Error) = None"
  unfolding start_detached_def detached_copies
  by (simp add: detached_reset_state_def detached_complete_def drop_owner_def)

text \<open>
  \<^verbatim>\<open>timeout\<close> completes its receiver only if the sender is stopped: whichever of the sender and the timer
  completes first, after both have completed the receiver got \<^verbatim>\<open>set_stopped\<close> if the sender completed with
  \<^verbatim>\<open>set_stopped\<close>, and nothing if it completed with values or an error.
\<close>

theorem timeout_drops_results:
  "to_receiver (timer_receiver c' (sender_receiver c timeout_connect)) = (if ctag c = Set_Stopped then [Completion Set_Stopped []] else [])
   \<and> to_receiver (sender_receiver c (timer_receiver c' timeout_connect)) = (if ctag c = Set_Stopped then [Completion Set_Stopped []] else [])
   \<and> to_stopped (timer_receiver c' timeout_connect)"
  by (cases "ctag c") (simp_all add: sender_receiver_def timer_receiver_def timer_done_def timeout_connect_def Let_def)

end
