(* ===== verification/Bytes.thy ===== *)
theory Bytes
  imports Prelude
begin

unbundle bit_operations_syntax

text \<open>
  Bytes and machine words: the four bytes of a 32-bit value, host byte order, and the
  conversion of big-endian byte sequences to native values of
  \<^verbatim>\<open>src/src/nstd/endian/big_to_native.hpp\<close>.
\<close>

type_synonym byte = "8 word"

section \<open>Four bytes of a 32-bit val\<close>

definition join4 :: "byte \<Rightarrow> byte \<Rightarrow> byte \<Rightarrow> byte \<Rightarrow> 32 word" where
  "join4 a b c d = push_bit 24 (ucast a) OR push_bit 16 (ucast b) OR push_bit 8 (ucast c) OR push_bit 0 (ucast d)"

definition byte_at :: "nat \<Rightarrow> 32 word \<Rightarrow> byte" where
  "byte_at n v = ucast (drop_bit n v AND 0xff)"

lemma unat_byte_lt: "unat (a :: byte) < 256"
  using unsigned_less [of a, where ?'a = nat] by simp

lemma unat_32_lt: "unat (a :: 32 word) < 2 ^ 32"
  using unsigned_less [of a, where ?'a = nat] by simp

lemma mask8: "(0xff :: 'a::len word) = mask 8"
  by (simp add: mask_eq_exp_minus_1)

lemma unat_byte_at: "unat (byte_at n v) = unat v div 2 ^ n mod 256"
proof -
  have "byte_at n v = ucast (drop_bit n v)"
    unfolding byte_at_def mask8 by (rule bit_word_eqI) (auto simp: bit_simps)
  then have "unat (byte_at n v) = take_bit 8 (drop_bit n (unat v))"
    using unat_32_lt [of v] by (simp add: unsigned_ucast_eq unsigned_drop_bit_eq take_bit_nat_eq_self)
  then show ?thesis by (simp add: take_bit_eq_mod drop_bit_eq_div)
qed

lemma byte_at_join4:
  "byte_at 24 (join4 a b c d) = a" "byte_at 16 (join4 a b c d) = b"
  "byte_at 8 (join4 a b c d) = c" "byte_at 0 (join4 a b c d) = d"
  unfolding byte_at_def join4_def mask8
  by (rule bit_word_eqI; auto simp: bit_simps dest: bit_imp_le_length)+

lemma join4_add:
  "join4 a b c d = push_bit 24 (ucast a) + push_bit 16 (ucast b) + push_bit 8 (ucast c) + ucast d"
proof -
  have 1: "push_bit 24 (ucast a) + push_bit 16 (ucast b :: 32 word) = push_bit 24 (ucast a) OR push_bit 16 (ucast b)"
    by (rule disjunctive_add) (force simp: bit_simps dest: bit_imp_le_length)
  have 2: "(push_bit 24 (ucast a) OR push_bit 16 (ucast b)) + push_bit 8 (ucast c :: 32 word)
      = push_bit 24 (ucast a) OR push_bit 16 (ucast b) OR push_bit 8 (ucast c)"
    by (subst disjunctive_add) (force simp: bit_simps dest: bit_imp_le_length, simp add: or.assoc)
  have 3: "(push_bit 24 (ucast a) OR push_bit 16 (ucast b) OR push_bit 8 (ucast c)) + (ucast d :: 32 word) = join4 a b c d"
    by (subst disjunctive_add) (force simp: bit_simps dest: bit_imp_le_length, simp add: join4_def or.assoc)
  show ?thesis unfolding 1 2 3 ..
qed

lemma unat_join4:
  "unat (join4 a b c d) = unat a * 2 ^ 24 + unat b * 2 ^ 16 + unat c * 2 ^ 8 + unat d"
proof -
  have "join4 a b c d = of_nat (unat a * 2 ^ 24 + unat b * 2 ^ 16 + unat c * 2 ^ 8 + unat d)"
    unfolding join4_add by (simp add: push_bit_eq_mult unsigned_ucast_eq)
  moreover have "unat (of_nat n :: 32 word) = n" if "n < 2 ^ 32" for n
    using that by (simp add: unat_of_nat take_bit_nat_eq_self)
  moreover have "unat a * 2 ^ 24 + unat b * 2 ^ 16 + unat c * 2 ^ 8 + unat d < 2 ^ 32"
    using unat_byte_lt [of a] unat_byte_lt [of b] unat_byte_lt [of c] unat_byte_lt [of d] by simp
  ultimately show ?thesis by metis
qed

lemma nat_four_bytes:
  assumes "n < 2 ^ 32"
  shows "n div 2 ^ 24 mod 256 * 2 ^ 24 + n div 2 ^ 16 mod 256 * 2 ^ 16
    + n div 2 ^ 8 mod 256 * 2 ^ 8 + n div 2 ^ 0 mod 256 = (n::nat)"
proof -
  have q: "n div 65536 = n div 256 div 256" "n div 16777216 = n div 256 div 256 div 256"
    by (simp_all add: div_mult2_eq [symmetric])
  have "n div 16777216 mod 256 = n div 16777216"
    using assms by simp
  then have "n div 16777216 mod 256 * 16777216 + n div 65536 mod 256 * 65536 + n div 256 mod 256 * 256 + n mod 256 = n"
    using div_mult_mod_eq [of n 256] div_mult_mod_eq [of "n div 256" 256]
      div_mult_mod_eq [of "n div 256 div 256" 256]
    unfolding q by linarith
  moreover have "(2::nat) ^ 24 = 16777216" "(2::nat) ^ 16 = 65536" "(2::nat) ^ 8 = 256" "(2::nat) ^ 0 = 1"
    by simp_all
  ultimately show ?thesis by (simp only: div_by_1)
qed

lemma join4_byte_at: "join4 (byte_at 24 v) (byte_at 16 v) (byte_at 8 v) (byte_at 0 v) = v"
proof -
  have "unat (join4 (byte_at 24 v) (byte_at 16 v) (byte_at 8 v) (byte_at 0 v)) = unat v"
    unfolding unat_join4 unat_byte_at by (rule nat_four_bytes) (rule unat_32_lt)
  then show ?thesis by (rule unsigned_word_eqI)
qed

section \<open>Host byte order\<close>

text \<open>
  How an object of 2 or 4 bytes lies in memory: \<open>little\<close> is true on a little-endian host.
  \<^verbatim>\<open>htons\<close> and \<^verbatim>\<open>ntohs\<close> swap the bytes exactly on such a host.
\<close>

definition swap16 :: "16 word \<Rightarrow> 16 word" where
  "swap16 w = push_bit 8 w OR drop_bit 8 w"

definition htons :: "bool \<Rightarrow> 16 word \<Rightarrow> 16 word" where
  "htons little w = (if little then swap16 w else w)"

definition ntohs :: "bool \<Rightarrow> 16 word \<Rightarrow> 16 word" where
  "ntohs little w = (if little then swap16 w else w)"

definition store16 :: "bool \<Rightarrow> 16 word \<Rightarrow> byte list" where
  "store16 little w = (let hi = ucast (drop_bit 8 w); lo = ucast w in if little then [lo, hi] else [hi, lo])"

definition load16 :: "bool \<Rightarrow> byte list \<Rightarrow> 16 word" where
  "load16 little bs = (let hi = (if little then bs ! 1 else bs ! 0); lo = (if little then bs ! 0 else bs ! 1)
     in push_bit 8 (ucast hi) OR ucast lo)"

definition load32 :: "bool \<Rightarrow> byte list \<Rightarrow> 32 word" where
  "load32 little bs = (if little then join4 (bs ! 3) (bs ! 2) (bs ! 1) (bs ! 0)
     else join4 (bs ! 0) (bs ! 1) (bs ! 2) (bs ! 3))"

lemma length_store16 [simp]: "length (store16 little w) = 2"
  by (simp add: store16_def Let_def)

lemma load_store16 [simp]: "load16 little (store16 little w) = w"
  unfolding load16_def store16_def Let_def
  by (rule bit_word_eqI) (auto simp: bit_simps)

lemma ntohs_htons [simp]: "ntohs little (htons little w) = w"
proof -
  have "swap16 (swap16 w) = w"
    unfolding swap16_def by (rule bit_word_eqI) (auto simp: bit_simps)
  then show ?thesis by (simp add: ntohs_def htons_def)
qed

section \<open>Big-endian sequences to native values\<close>

datatype endian_type = uint8 | uint16 | uint32 | uint64 | int8 | int16 | int32 | int64 | float32 | float64

definition operator_eu :: "nat \<Rightarrow> endian_type" where
  "operator_eu v = (if v = 8 then uint8 else if v = 16 then uint16 else if v = 32 then uint32
     else if v = 64 then uint64 else uint8)"

definition operator_es :: "nat \<Rightarrow> endian_type" where
  "operator_es v = (if v = 8 then int8 else if v = 16 then int16 else if v = 32 then int32
     else if v = 64 then int64 else uint8)"

definition operator_ef :: "nat \<Rightarrow> endian_type" where
  "operator_ef v = (if v = 32 then float32 else if v = 64 then float64 else uint8)"

datatype endian_error = range_error string

text \<open>
  The integer conversion: \<open>n\<close> is what is left of \<^verbatim>\<open>sizeof(utype)\<close>, the val has the width of
  the type. The iterator is what is left of the sequence.
\<close>

fun convert_int :: "nat \<Rightarrow> 'a::len word \<Rightarrow> byte list \<Rightarrow> endian_error + ('a word \<times> byte list)" where
  "convert_int 0 val it = Inr (val, it)"
| "convert_int (Suc n) val [] = Inl (range_error ''incomplete big to native'')"
| "convert_int (Suc n) val (b # it) = convert_int n (push_bit 8 val OR ucast b) it"

text \<open>
  The conversion of other types fills a buffer from its end; its result is the object with
  these bytes.
\<close>

fun convert_bytes :: "nat \<Rightarrow> byte list \<Rightarrow> byte list \<Rightarrow> endian_error + (byte list \<times> byte list)" where
  "convert_bytes 0 buffer it = Inr (buffer, it)"
| "convert_bytes (Suc i) buffer [] = Inl (range_error ''incomplete big to native'')"
| "convert_bytes (Suc i) buffer (b # it) = convert_bytes i (buffer[i := b]) it"

definition big_to_native_int :: "byte list \<Rightarrow> endian_error + ('a::len word \<times> byte list)" where
  "big_to_native_int it = convert_int (LENGTH('a) div 8) 0 it"

definition big_to_native_bytes :: "nat \<Rightarrow> byte list \<Rightarrow> endian_error + (byte list \<times> byte list)" where
  "big_to_native_bytes n it = convert_bytes n (replicate n 0) it"

lemma unat_shift_byte:
  assumes "unat val * 256 + 255 < 2 ^ LENGTH('a)"
  shows "unat (push_bit 8 val OR ucast (b :: byte) :: 'a::len word) = unat val * 256 + unat b"
proof -
  have "push_bit 8 val OR ucast b = push_bit 8 val + (ucast b :: 'a word)"
    by (rule disjunctive_add [symmetric]) (auto simp: bit_simps dest: bit_imp_le_length)
  also have "\<dots> = of_nat (unat val * 256 + unat b)"
    by (simp add: push_bit_eq_mult unsigned_ucast_eq)
  finally have eq: "push_bit 8 val OR ucast b = (of_nat (unat val * 256 + unat b) :: 'a word)" .
  have "unat val * 256 + unat b < 2 ^ LENGTH('a)"
    using assms unat_byte_lt [of b] by linarith
  then show ?thesis unfolding eq by (simp only: unat_of_nat mod_less)
qed

text \<open>The value of a sequence of base-256 digits, most significant first.\<close>

definition be_value :: "byte list \<Rightarrow> nat" where
  "be_value bs = foldl (\<lambda>v b. v * 256 + unat b) 0 bs"

lemma convert_int_value:
  "unat val < 256 ^ k \<Longrightarrow> 256 ^ (k + n) \<le> (2 :: nat) ^ LENGTH('a) \<Longrightarrow> n \<le> length it \<Longrightarrow>
   \<exists>w. convert_int n (val :: 'a::len word) it = Inr (w, drop n it)
     \<and> unat w = foldl (\<lambda>v b. v * 256 + unat b) (unat val) (take n it)"
proof (induction n val it arbitrary: k rule: convert_int.induct)
  case (3 n val b it)
  have "unat val * 256 + 255 < 256 * (unat val + 1)" by simp
  also have "\<dots> \<le> 256 * 256 ^ k"
    using "3.prems"(1) by simp
  also have "\<dots> \<le> 256 ^ (k + Suc n)"
    using power_increasing [of "Suc k" "k + Suc n" "256::nat"] by simp
  also note "3.prems"(2)
  finally have w: "unat (push_bit 8 val OR ucast b :: 'a word) = unat val * 256 + unat b"
    by (rule unat_shift_byte)
  moreover have "unat val * 256 + unat b < 256 ^ Suc k"
    using "3.prems"(1) unat_byte_lt [of b] by simp
  ultimately show ?case
    using "3.IH" [of "Suc k"] "3.prems"(2,3) by simp
qed auto

lemma convert_int_short: "length it < n \<Longrightarrow> convert_int n val it = Inl (range_error ''incomplete big to native'')"
  by (induction n val it rule: convert_int.induct) auto

lemma convert_bytes_short: "length it < n \<Longrightarrow> convert_bytes n buf it = Inl (range_error ''incomplete big to native'')"
  by (induction n buf it rule: convert_bytes.induct) auto

lemma convert_bytes_rev:
  "n \<le> length it \<Longrightarrow> n \<le> length buf \<Longrightarrow>
   convert_bytes n buf it = Inr (rev (take n it) @ drop n buf, drop n it)"
proof (induction n buf it rule: convert_bytes.induct)
  case (3 i buf b it)
  then have "drop i (buf[i := b]) = b # drop (Suc i) buf"
    by (simp add: drop_update_swap Cons_nth_drop_Suc [symmetric])
  with 3 show ?case by simp
qed auto

text \<open>
  the conversion of a big-endian sequence to an integer type of \<open>LENGTH('a)\<close> bits returns
  the val of its first bytes as base-256 digits, most significant first, and the rest of the
  sequence; a sequence that is too short is a range error and nothing else is.
\<close>

theorem big_to_native_int_value:
  assumes "8 dvd LENGTH('a::len)"
  shows "(big_to_native_int it :: endian_error + ('a word \<times> byte list)) =
     (if length it < LENGTH('a) div 8 then Inl (range_error ''incomplete big to native'')
      else Inr (of_nat (be_value (take (LENGTH('a) div 8) it)), drop (LENGTH('a) div 8) it))"
proof (cases "length it < LENGTH('a) div 8")
  case True
  then show ?thesis by (simp add: big_to_native_int_def convert_int_short)
next
  case False
  let ?n = "LENGTH('a) div 8"
  have "(256 :: nat) ^ ?n = 2 ^ (8 * ?n)" by (simp add: power_mult)
  also have "8 * ?n = LENGTH('a)" using assms by simp
  finally have "256 ^ (0 + ?n) \<le> (2 :: nat) ^ LENGTH('a)" by simp
  from convert_int_value [of 0 0 ?n it, OF _ this] False obtain w :: "'a word" where
    "convert_int ?n (0 :: 'a word) it = Inr (w, drop ?n it)" "unat w = be_value (take ?n it)"
    by (auto simp: be_value_def)
  moreover have "of_nat (unat w) = w" by simp
  ultimately show ?thesis using False by (simp add: big_to_native_int_def)
qed

theorem big_to_native_int_value_witness:
  "(big_to_native_int [1, 2, 3] :: endian_error + (16 word \<times> byte list)) =
     (if length [1, 2, 3 :: byte] < LENGTH(16) div 8 then Inl (range_error ''incomplete big to native'')
      else Inr (of_nat (be_value (take (LENGTH(16) div 8) [1, 2, 3])), drop (LENGTH(16) div 8) [1, 2, 3]))"
  by (rule big_to_native_int_value) simp

end
