(* ===== verification/Ip_Address.thy ===== *)
theory Ip_Address
  imports Bytes
begin

unbundle bit_operations_syntax

text \<open>
  \<^verbatim>\<open>src/src/nstd/net/ip\<close>: \<^verbatim>\<open>address_v4\<close>, \<^verbatim>\<open>address_v6\<close>, the variant \<^verbatim>\<open>address\<close>, the protocols
  and \<^verbatim>\<open>basic_endpoint\<close>. An \<^verbatim>\<open>unsigned char\<close> array is a list of bytes, of length 4 and 16. Socket
  addresses are modelled byte by byte, with the host's byte order as a parameter; bytes the
  code leaves uninitialised are parameters too.
\<close>

section \<open>Model\<close>

datatype ordering = equal | less | greater | unordered

text \<open>\<^verbatim>\<open>operator<\<close> of \<^verbatim>\<open>std::array\<close>: lexicographic.\<close>

fun array_less :: "byte list \<Rightarrow> byte list \<Rightarrow> bool" where
  "array_less [] ys = (ys \<noteq> [])"
| "array_less (x # xs) [] = False"
| "array_less (x # xs) (y # ys) = (x < y \<or> (x = y \<and> array_less xs ys))"

text \<open>\<^verbatim>\<open>out << int(b)\<close>: the decimal digits of a number.\<close>

fun show_nat :: "nat \<Rightarrow> string" where
  "show_nat n = (if n < 10 then [char_of (48 + n)] else show_nat (n div 10) @ [char_of (48 + n mod 10)])"

declare show_nat.simps [simp del]

subsection \<open>IPv4\<close>

record address_v4 =
  d4_bytes :: "byte list"

definition v4_default :: address_v4 where
  "v4_default = \<lparr>d4_bytes = [0, 0, 0, 0]\<rparr>"

definition v4_of_bytes :: "byte list \<Rightarrow> address_v4" where
  "v4_of_bytes bs = \<lparr>d4_bytes = bs\<rparr>"

definition v4_of_uint :: "32 word \<Rightarrow> address_v4" where
  "v4_of_uint v = \<lparr>d4_bytes =
     [ucast (drop_bit 24 v AND 0xff), ucast (drop_bit 16 v AND 0xff),
      ucast (drop_bit 8 v AND 0xff), ucast (drop_bit 0 v AND 0xff)]\<rparr>"

definition v4_compare :: "address_v4 \<Rightarrow> address_v4 \<Rightarrow> ordering" where
  "v4_compare a b = (if d4_bytes a = d4_bytes b then equal
     else if array_less (d4_bytes a) (d4_bytes b) then less else greater)"

definition v4_to_bytes :: "address_v4 \<Rightarrow> byte list" where
  "v4_to_bytes a = d4_bytes a"

definition v4_to_uint :: "address_v4 \<Rightarrow> 32 word" where
  "v4_to_uint a = push_bit 24 (ucast (d4_bytes a ! 0)) OR push_bit 16 (ucast (d4_bytes a ! 1))
     OR push_bit 8 (ucast (d4_bytes a ! 2)) OR push_bit 0 (ucast (d4_bytes a ! 3))"

definition v4_is_unspecified :: "address_v4 \<Rightarrow> bool" where
  "v4_is_unspecified a = (v4_to_uint a = 0)"

definition v4_is_loopback :: "address_v4 \<Rightarrow> bool" where
  "v4_is_loopback a = (v4_to_uint a AND 0xFF000000 = 0x7F000000)"

definition v4_is_multicast :: "address_v4 \<Rightarrow> bool" where
  "v4_is_multicast a = (v4_to_uint a AND 0xF0000000 = 0xE0000000)"

definition v4_to_string :: "address_v4 \<Rightarrow> string" where
  "v4_to_string a = show_nat (unat (d4_bytes a ! 0)) @ ''.'' @ show_nat (unat (d4_bytes a ! 1)) @ ''.''
     @ show_nat (unat (d4_bytes a ! 2)) @ ''.'' @ show_nat (unat (d4_bytes a ! 3))"

definition v4_any :: address_v4 where "v4_any = v4_default"

definition v4_loopback :: address_v4 where "v4_loopback = v4_of_uint 0x7F000001"

definition v4_broadcast :: address_v4 where "v4_broadcast = v4_of_uint 0xFFFFFFFF"

text \<open>\<^verbatim>\<open>inet_pton\<close> is the platform's parser: a parameter that returns the four bytes or fails.\<close>

definition make_address_v4 :: "(string \<Rightarrow> byte list option) \<Rightarrow> string \<Rightarrow> address_v4" where
  "make_address_v4 inet_pton s = (case inet_pton s of Some bs \<Rightarrow> v4_of_bytes bs | None \<Rightarrow> v4_default)"

subsection \<open>Socket address storage\<close>

definition AF_INET :: "16 word" where "AF_INET = 2"
definition AF_INET6 :: "16 word" where "AF_INET6 = 10"

definition sizeof_sockaddr_in :: nat where "sizeof_sockaddr_in = 16"
definition sizeof_sockaddr_in6 :: nat where "sizeof_sockaddr_in6 = 28"

text \<open>
  \<^verbatim>\<open>memcpy\<close> of a \<^verbatim>\<open>sockaddr_in\<close> (family, port, address, 8 bytes of padding) over the beginning
  of the storage; \<open>pad\<close> are the bytes the code does not initialise.
\<close>

definition v4_get_address :: "bool \<Rightarrow> byte list \<Rightarrow> address_v4 \<Rightarrow> 16 word \<Rightarrow> byte list \<Rightarrow> byte list \<times> nat" where
  "v4_get_address little pad a port storage =
     (let tmp = rev (d4_bytes a);
          addr = store16 little AF_INET @ store16 little (htons little port) @ tmp @ pad
      in (addr @ drop (length addr) storage, sizeof_sockaddr_in))"

subsection \<open>IPv6\<close>

record address_v6 =
  d6_bytes :: "byte list"
  d_scope_id :: "16 word"

definition v6_default :: address_v6 where
  "v6_default = \<lparr>d6_bytes = replicate 16 0, d_scope_id = 0\<rparr>"

definition v6_of_bytes :: "byte list \<Rightarrow> 16 word \<Rightarrow> address_v6" where
  "v6_of_bytes bs scope = \<lparr>d6_bytes = bs, d_scope_id = scope\<rparr>"

definition v6_compare :: "address_v6 \<Rightarrow> address_v6 \<Rightarrow> ordering" where
  "v6_compare a b = (if d6_bytes a = d6_bytes b then equal
     else if array_less (d6_bytes a) (d6_bytes b) then less else greater)"

definition v6_to_bytes :: "address_v6 \<Rightarrow> byte list" where
  "v6_to_bytes a = d6_bytes a"

definition v6_set_scope_id :: "16 word \<Rightarrow> address_v6 \<Rightarrow> address_v6" where
  "v6_set_scope_id scope a = a\<lparr>d_scope_id := scope\<rparr>"

definition v6_scope_id :: "address_v6 \<Rightarrow> 16 word" where
  "v6_scope_id a = d_scope_id a"

definition v6_is_unspecified :: "address_v6 \<Rightarrow> bool" where "v6_is_unspecified a = True"
definition v6_is_loopback :: "address_v6 \<Rightarrow> bool" where "v6_is_loopback a = True"
definition v6_is_multicast :: "address_v6 \<Rightarrow> bool" where "v6_is_multicast a = True"

definition v6_to_string :: "address_v6 \<Rightarrow> string" where "v6_to_string a = ''''"

definition v6_any :: address_v6 where "v6_any = v6_default"
definition v6_loopback :: address_v6 where "v6_loopback = v6_default"

text \<open>\<^verbatim>\<open>sockaddr_in6\<close>: family, port, 4 bytes of flow information, address, 4 bytes of scope.\<close>

definition v6_get_address ::
  "bool \<Rightarrow> byte list \<Rightarrow> byte list \<Rightarrow> address_v6 \<Rightarrow> 16 word \<Rightarrow> byte list \<Rightarrow> byte list \<times> nat" where
  "v6_get_address little flow scope a port storage =
     (let addr = store16 little AF_INET6 @ store16 little (htons little port) @ flow @ d6_bytes a @ scope
      in (addr @ drop (length addr) storage, sizeof_sockaddr_in6))"

subsection \<open>The variant\<close>

datatype address = V4 address_v4 | V6 address_v6

definition address_default :: address where "address_default = V4 v4_default"

definition address_compare :: "address \<Rightarrow> address \<Rightarrow> ordering" where
  "address_compare x y = (case (x, y) of
      (V4 a, V4 b) \<Rightarrow> v4_compare a b
    | (V6 a, V6 b) \<Rightarrow> v6_compare a b
    | _ \<Rightarrow> unordered)"

definition is_v4 :: "address \<Rightarrow> bool" where "is_v4 x = (case x of V4 _ \<Rightarrow> True | V6 _ \<Rightarrow> False)"
definition is_v6 :: "address \<Rightarrow> bool" where "is_v6 x = (case x of V4 _ \<Rightarrow> False | V6 _ \<Rightarrow> True)"

text \<open>\<^verbatim>\<open>std::get\<close> throws \<^verbatim>\<open>bad_variant_access\<close> for the other alternative: \<open>None\<close>.\<close>

definition to_v4 :: "address \<Rightarrow> address_v4 option" where
  "to_v4 x = (case x of V4 a \<Rightarrow> Some a | V6 _ \<Rightarrow> None)"

definition to_v6 :: "address \<Rightarrow> address_v6 option" where
  "to_v6 x = (case x of V4 _ \<Rightarrow> None | V6 a \<Rightarrow> Some a)"

definition is_unspecified :: "address \<Rightarrow> bool" where
  "is_unspecified x = (case x of V4 a \<Rightarrow> v4_is_unspecified a | V6 a \<Rightarrow> v6_is_unspecified a)"

definition is_loopback :: "address \<Rightarrow> bool" where
  "is_loopback x = (case x of V4 a \<Rightarrow> v4_is_loopback a | V6 a \<Rightarrow> v6_is_loopback a)"

definition is_multicast :: "address \<Rightarrow> bool" where
  "is_multicast x = (case x of V4 a \<Rightarrow> v4_is_multicast a | V6 a \<Rightarrow> v6_is_multicast a)"

definition address_to_string :: "address \<Rightarrow> string" where
  "address_to_string x = (case x of V4 a \<Rightarrow> v4_to_string a | V6 a \<Rightarrow> v6_to_string a)"

text \<open>The uninitialised bytes: the padding of the IPv4 structure, the flow and scope of the IPv6 one.\<close>

record junk =
  j_pad :: "byte list"
  j_flow :: "byte list"
  j_scope :: "byte list"

definition address_get_address :: "bool \<Rightarrow> junk \<Rightarrow> address \<Rightarrow> 16 word \<Rightarrow> byte list \<Rightarrow> byte list \<times> nat" where
  "address_get_address little j x port storage = (case x of
      V4 a \<Rightarrow> v4_get_address little (j_pad j) a port storage
    | V6 a \<Rightarrow> v6_get_address little (j_flow j) (j_scope j) a port storage)"

subsection \<open>Protocols and endpoints\<close>

record protocol =
  d_family :: "16 word"

definition protocol_v4 :: protocol where "protocol_v4 = \<lparr>d_family = AF_INET\<rparr>"
definition protocol_v6 :: protocol where "protocol_v6 = \<lparr>d_family = AF_INET6\<rparr>"

record endpoint =
  d_protocol :: protocol
  d_address :: address
  d_port :: "16 word"

definition endpoint_default :: endpoint where
  "endpoint_default = \<lparr>d_protocol = protocol_v6, d_address = address_default, d_port = 0\<rparr>"

definition endpoint_of_protocol :: "protocol \<Rightarrow> 16 word \<Rightarrow> endpoint" where
  "endpoint_of_protocol p port = \<lparr>d_protocol = p, d_address = address_default, d_port = port\<rparr>"

definition endpoint_of_address :: "address \<Rightarrow> 16 word \<Rightarrow> endpoint" where
  "endpoint_of_address a port =
     \<lparr>d_protocol = (if is_v4 a then protocol_v4 else protocol_v6), d_address = a, d_port = port\<rparr>"

definition endpoint_print :: "endpoint \<Rightarrow> string" where
  "endpoint_print ep = address_to_string (d_address ep) @ '':'' @ show_nat (unat (d_port ep))"

definition endpoint_get_address :: "bool \<Rightarrow> junk \<Rightarrow> endpoint \<Rightarrow> byte list \<Rightarrow> byte list \<times> nat" where
  "endpoint_get_address little j ep storage = address_get_address little j (d_address ep) (d_port ep) storage"

definition endpoint_set_address :: "bool \<Rightarrow> byte list \<Rightarrow> nat \<Rightarrow> endpoint \<Rightarrow> endpoint" where
  "endpoint_set_address little storage len ep =
     (if sizeof_sockaddr_in = len then
        ep\<lparr>d_port := ntohs little (load16 little (take 2 (drop 2 storage))),
           d_address := V4 (v4_of_uint (load32 little (take 4 (drop 4 storage))))\<rparr>
      else if sizeof_sockaddr_in6 = len then
        ep\<lparr>d_port := ntohs little (load16 little (take 2 (drop 2 storage)))\<rparr>
      else ep)"

section \<open>IPv4 addresses as numbers\<close>

definition wf_v4 :: "address_v4 \<Rightarrow> bool" where
  "wf_v4 a \<longleftrightarrow> length (d4_bytes a) = 4"

lemma wf_v4E:
  assumes "wf_v4 x"
  obtains a b c d where "x = \<lparr>d4_bytes = [a, b, c, d]\<rparr>"
proof -
  obtain bs where x: "x = \<lparr>d4_bytes = bs\<rparr>" by (cases x) auto
  with assms show thesis
    using that by (auto simp: wf_v4_def numeral_eq_Suc length_Suc_conv)
qed

lemma v4_to_uint_join4: "v4_to_uint \<lparr>d4_bytes = [a, b, c, d]\<rparr> = join4 a b c d"
  by (simp add: v4_to_uint_def join4_def)

lemma v4_of_uint_bytes: "v4_of_uint v = \<lparr>d4_bytes = [byte_at 24 v, byte_at 16 v, byte_at 8 v, byte_at 0 v]\<rparr>"
  by (simp add: v4_of_uint_def byte_at_def)

lemma wf_v4_of_uint: "wf_v4 (v4_of_uint v)"
  by (simp add: wf_v4_def v4_of_uint_def)

text \<open>
  The two constructors and observers of an IPv4 address are inverse: an address built from
  a number gives the number back, and an address is rebuilt from its number.
\<close>

lemma v4_uint_roundtrip:
  assumes "wf_v4 x"
  shows "v4_to_uint (v4_of_uint v) = v \<and> v4_of_uint (v4_to_uint x) = x"
  using assms by (elim wf_v4E)
    (simp add: v4_to_uint_join4 v4_of_uint_bytes join4_byte_at byte_at_join4)

lemma lex4:
  assumes "b < 256" "c < 256" "d < 256" "b' < 256" "c' < 256" "d' < (256::nat)"
  shows "a * 2 ^ 24 + b * 2 ^ 16 + c * 2 ^ 8 + d < a' * 2 ^ 24 + b' * 2 ^ 16 + c' * 2 ^ 8 + d' \<longleftrightarrow>
    a < a' \<or> a = a' \<and> (b < b' \<or> b = b' \<and> (c < c' \<or> c = c' \<and> d < d'))"
proof -
  have "a < a' \<or> a = a' \<or> a' < a" "b < b' \<or> b = b' \<or> b' < b" "c < c' \<or> c = c' \<or> c' < c" by linarith+
  then show ?thesis using assms by (elim disjE) simp_all
qed

text \<open>
  The three-way comparison of IPv4 addresses, which compares the bytes lexicographically,
  is the comparison of the addresses as unsigned numbers.
\<close>

theorem v4_compare_numeric:
  assumes "wf_v4 x" and "wf_v4 y"
  shows "v4_compare x y =
    (if v4_to_uint x = v4_to_uint y then equal else if v4_to_uint x < v4_to_uint y then less else greater)"
proof -
  obtain a b c d where x: "x = \<lparr>d4_bytes = [a, b, c, d]\<rparr>" using assms(1) by (rule wf_v4E)
  obtain a' b' c' d' where y: "y = \<lparr>d4_bytes = [a', b', c', d']\<rparr>" using assms(2) by (rule wf_v4E)
  have eq: "join4 a b c d = join4 a' b' c' d' \<longleftrightarrow> [a, b, c, d] = [a', b', c', d']"
    using byte_at_join4 [of a b c d] byte_at_join4 [of a' b' c' d'] by auto
  have "join4 a b c d < join4 a' b' c' d' \<longleftrightarrow> array_less [a, b, c, d] [a', b', c', d']"
    unfolding word_less_nat_alt unat_join4
    by (subst lex4) (simp_all add: unat_byte_lt word_less_nat_alt word_unat_eq_iff)
  with eq show ?thesis
    unfolding x y v4_to_uint_join4 v4_compare_def by simp
qed

theorem v4_compare_numeric_witness:
  "v4_compare \<lparr>d4_bytes = [10, 0, 0, 1]\<rparr> \<lparr>d4_bytes = [10, 0, 1, 0]\<rparr> =
    (if v4_to_uint \<lparr>d4_bytes = [10, 0, 0, 1]\<rparr> = v4_to_uint \<lparr>d4_bytes = [10, 0, 1, 0]\<rparr> then equal
     else if v4_to_uint \<lparr>d4_bytes = [10, 0, 0, 1]\<rparr> < v4_to_uint \<lparr>d4_bytes = [10, 0, 1, 0]\<rparr> then less else greater)"
  by (rule v4_compare_numeric) (simp_all add: wf_v4_def)

section \<open>Classification\<close>

lemma join4_high_byte: "join4 a b c d AND push_bit 24 (ucast m) = push_bit 24 (ucast (a AND m))"
  unfolding join4_def by (rule bit_word_eqI) (auto simp: bit_simps dest: bit_imp_le_length)

lemma push24_inj: "push_bit 24 (ucast a :: 32 word) = push_bit 24 (ucast b) \<longleftrightarrow> a = (b :: byte)"
proof
  assume "push_bit 24 (ucast a :: 32 word) = push_bit 24 (ucast b)"
  then have "byte_at 24 (join4 a 0 0 0) = byte_at 24 (join4 b 0 0 0)"
    by (simp add: join4_def)
  then show "a = b" by (simp add: byte_at_join4)
qed simp

lemma high_nibble: "(a :: byte) AND 0xF0 = 0xE0 \<longleftrightarrow> 224 \<le> unat a \<and> unat a < 240"
proof -
  have mask: "(0xF0 :: byte) = push_bit 4 (mask 4)"
    by (simp add: push_bit_eq_mult mask_eq_exp_minus_1)
  have "a AND 0xF0 = push_bit 4 (drop_bit 4 a)"
    unfolding mask by (rule bit_word_eqI) (auto simp: bit_simps dest: bit_imp_le_length)
  moreover have "(0xE0 :: byte) = push_bit 4 14"
    by (simp add: push_bit_eq_mult)
  moreover have "push_bit 4 (drop_bit 4 a) = push_bit 4 (14 :: byte) \<longleftrightarrow> drop_bit 4 a = 14"
  proof
    assume "push_bit 4 (drop_bit 4 a) = push_bit 4 (14 :: byte)"
    then have "drop_bit 4 (push_bit 4 (drop_bit 4 a)) = drop_bit 4 (push_bit 4 (14 :: byte))" by simp
    moreover have "drop_bit 4 (push_bit 4 (drop_bit 4 a)) = drop_bit 4 a"
      by (rule bit_word_eqI) (auto simp: bit_simps dest: bit_imp_le_length)
    ultimately show "drop_bit 4 a = 14" by (simp add: push_bit_eq_mult drop_bit_eq_div)
  qed simp
  moreover have "unat (drop_bit 4 a) = drop_bit 4 (unat a)"
    using unat_byte_lt [of a] by (simp add: unsigned_drop_bit_eq take_bit_nat_eq_self)
  then have "drop_bit 4 a = 14 \<longleftrightarrow> unat a div 16 = 14"
    by (simp only: word_unat_eq_iff) (simp add: drop_bit_eq_div)
  moreover have "unat a div 16 = 14 \<longleftrightarrow> 224 \<le> unat a \<and> unat a < 240" by linarith
  ultimately show ?thesis by simp
qed

text \<open>
  the tests of an IPv4 address: it is unspecified if all bytes are zero, a loopback address
  if the first byte is 127, a multicast address if the first byte is from 224 to 239.
\<close>

theorem v4_classification:
  assumes "wf_v4 x"
  shows "(v4_is_unspecified x \<longleftrightarrow> d4_bytes x = [0, 0, 0, 0])
    \<and> (v4_is_loopback x \<longleftrightarrow> d4_bytes x ! 0 = 127)
    \<and> (v4_is_multicast x \<longleftrightarrow> 224 \<le> unat (d4_bytes x ! 0) \<and> unat (d4_bytes x ! 0) < 240)"
proof (intro conjI)
  obtain a b c d where x: "x = \<lparr>d4_bytes = [a, b, c, d]\<rparr>" using assms by (rule wf_v4E)
  have "join4 a b c d = 0 \<longleftrightarrow> join4 a b c d = join4 0 0 0 0" by (simp add: join4_def)
  also have "\<dots> \<longleftrightarrow> [a, b, c, d] = [0, 0, 0, 0]"
    using byte_at_join4 [of a b c d] byte_at_join4 [where a = 0 and b = 0 and c = 0 and d = 0] by auto
  finally show "v4_is_unspecified x \<longleftrightarrow> d4_bytes x = [0, 0, 0, 0]"
    by (simp add: v4_is_unspecified_def x v4_to_uint_join4)
  have "join4 a b c d AND 0xFF000000 = push_bit 24 (ucast (a AND 0xFF))"
    using join4_high_byte [where m = "0xFF"] by (simp add: push_bit_eq_mult)
  moreover have "a AND 0xFF = a"
    unfolding mask8 by (rule bit_word_eqI) (auto simp: bit_simps dest: bit_imp_le_length)
  moreover have "(0x7F000000 :: 32 word) = push_bit 24 (ucast (127 :: byte))" by (simp add: push_bit_eq_mult)
  ultimately show "v4_is_loopback x \<longleftrightarrow> d4_bytes x ! 0 = 127"
    by (simp only: v4_is_loopback_def x v4_to_uint_join4 push24_inj) simp
  have "join4 a b c d AND 0xF0000000 = push_bit 24 (ucast (a AND 0xF0))"
    using join4_high_byte [where m = "0xF0"] by (simp add: push_bit_eq_mult)
  moreover have "(0xE0000000 :: 32 word) = push_bit 24 (ucast (0xE0 :: byte))" by (simp add: push_bit_eq_mult)
  ultimately show "v4_is_multicast x \<longleftrightarrow> 224 \<le> unat (d4_bytes x ! 0) \<and> unat (d4_bytes x ! 0) < 240"
    by (simp only: v4_is_multicast_def x v4_to_uint_join4 push24_inj high_nibble) simp
qed

theorem v4_classification_witness:
  "v4_is_loopback \<lparr>d4_bytes = [127, 0, 0, 1]\<rparr> \<longleftrightarrow> \<lparr>d4_bytes = [127, 0, 0, 1 :: byte]\<rparr> = \<lparr>d4_bytes = [127, 0, 0, 1]\<rparr>"
  using v4_classification [of "\<lparr>d4_bytes = [127, 0, 0, 1]\<rparr>"] by (simp add: wf_v4_def)

section \<open>Printing is unambiguous\<close>

definition read_nat :: "string \<Rightarrow> nat" where
  "read_nat = foldl (\<lambda>v c. v * 10 + (of_char c - 48)) 0"

lemma read_show: "read_nat (show_nat n) = n"
proof (induction n rule: show_nat.induct)
  case (1 n)
  then show ?case
    by (cases "n < 10") (simp_all add: show_nat.simps [of n] read_nat_def)
qed

lemma dot_notin_show: "CHR ''.'' \<notin> set (show_nat n)"
proof (induction n rule: show_nat.induct)
  case (1 n)
  have "CHR ''.'' \<noteq> char_of (48 + k)" if "k < 10" for k :: nat
  proof
    assume "CHR ''.'' = char_of (48 + k)"
    then have "(of_char CHR ''.'' :: nat) = of_char (char_of (48 + k) :: char)" by simp
    with that show False by simp
  qed
  with 1 show ?case
    by (cases "n < 10") (simp_all add: show_nat.simps [of n])
qed

lemma split_at_dot:
  "c \<notin> set xs \<Longrightarrow> c \<notin> set xs' \<Longrightarrow> xs @ c # ys = xs' @ c # ys' \<longleftrightarrow> xs = xs' \<and> ys = ys'"
proof (induction xs arbitrary: xs')
  case Nil
  then show ?case by (cases xs') auto
next
  case (Cons x xs)
  then show ?case by (cases xs') auto
qed

text \<open>two IPv4 addresses that print the same are equal.\<close>

theorem v4_to_string_inj:
  assumes "wf_v4 x" and "wf_v4 y" and "v4_to_string x = v4_to_string y"
  shows "x = y"
proof -
  obtain a b c d where x: "x = \<lparr>d4_bytes = [a, b, c, d]\<rparr>" using assms(1) by (rule wf_v4E)
  obtain a' b' c' d' where y: "y = \<lparr>d4_bytes = [a', b', c', d']\<rparr>" using assms(2) by (rule wf_v4E)
  have inj: "show_nat (unat u) = show_nat (unat v) \<longleftrightarrow> u = v" for u v :: byte
    by (metis read_show word_unat_eq_iff)
  from assms(3) have "[a, b, c, d] = [a', b', c', d']"
    unfolding x y v4_to_string_def address_v4.simps nth_Cons_0 append_Cons append_Nil
    by (simp only: split_at_dot [OF dot_notin_show dot_notin_show] nth_Cons_numeral nth_Cons_Suc One_nat_def
        numeral_2_eq_2 numeral_3_eq_3 nth_Cons_0 inj)
  then show ?thesis by (simp add: x y)
qed

theorem v4_to_string_inj_witness: "v4_to_string \<lparr>d4_bytes = [10, 0, 0, 1]\<rparr> = v4_to_string \<lparr>d4_bytes = [10, 0, 0, 1]\<rparr>
   \<and> \<lparr>d4_bytes = [10, 0, 0, 1 :: byte]\<rparr> = \<lparr>d4_bytes = [10, 0, 0, 1]\<rparr>"
  using v4_to_string_inj [of "\<lparr>d4_bytes = [10, 0, 0, 1]\<rparr>" "\<lparr>d4_bytes = [10, 0, 0, 1]\<rparr>"] by (simp add: wf_v4_def)

section \<open>Endpoints through the socket address\<close>

lemma v4_get_address_bytes:
  assumes "wf_v4 a" and "length pad = 8"
  shows "fst (v4_get_address little pad a port storage) =
     store16 little AF_INET @ store16 little (htons little port) @ rev (d4_bytes a) @ pad @ drop 16 storage"
  using assms by (simp add: v4_get_address_def Let_def wf_v4_def)

text \<open>
  Writing an IPv4 endpoint to a socket address and reading it back returns the port and, on
  a little-endian host, the address; on a big-endian host the address comes back with its bytes
  reversed. The protocol of the endpoint that reads is not touched, so one constructed by default
  keeps IPv6.
\<close>

theorem endpoint_address_roundtrip:
  assumes "wf_v4 a" and "length (j_pad j) = 8"
  shows "case endpoint_get_address little j (endpoint_of_address (V4 a) port) storage of (s, len) \<Rightarrow>
     endpoint_set_address little s len ep =
       ep\<lparr>d_port := port, d_address := V4 (if little then a else \<lparr>d4_bytes = rev (d4_bytes a)\<rparr>)\<rparr>"
proof -
  obtain b0 b1 b2 b3 where a: "a = \<lparr>d4_bytes = [b0, b1, b2, b3]\<rparr>" using assms(1) by (rule wf_v4E)
  let ?s = "fst (v4_get_address little (j_pad j) a port storage)"
  have s: "?s = store16 little AF_INET @ store16 little (htons little port) @ [b3, b2, b1, b0] @ j_pad j @ drop 16 storage"
    using assms by (simp add: v4_get_address_bytes a)
  have len: "snd (v4_get_address little (j_pad j) a port storage) = sizeof_sockaddr_in"
    by (simp add: v4_get_address_def Let_def)
  have "take 2 (drop 2 ?s) = store16 little (htons little port)" "take 4 (drop 4 ?s) = [b3, b2, b1, b0]"
    unfolding s by simp_all
  moreover have "v4_of_uint (load32 little [b3, b2, b1, b0]) = (if little then a else \<lparr>d4_bytes = rev (d4_bytes a)\<rparr>)"
    by (simp add: a load32_def v4_of_uint_bytes byte_at_join4)
  ultimately have "endpoint_set_address little ?s sizeof_sockaddr_in ep =
       ep\<lparr>d_port := port, d_address := V4 (if little then a else \<lparr>d4_bytes = rev (d4_bytes a)\<rparr>)\<rparr>"
    by (simp add: endpoint_set_address_def)
  with len show ?thesis
    by (cases "v4_get_address little (j_pad j) a port storage")
      (simp add: endpoint_get_address_def endpoint_of_address_def address_get_address_def)
qed

theorem endpoint_address_roundtrip_witness:
  "case endpoint_get_address True \<lparr>j_pad = replicate 8 0, j_flow = [], j_scope = []\<rparr>
       (endpoint_of_address (V4 \<lparr>d4_bytes = [10, 0, 0, 1]\<rparr>) 80) (replicate 128 0) of (s, len) \<Rightarrow>
     endpoint_set_address True s len endpoint_default =
       endpoint_default\<lparr>d_port := 80, d_address := V4 (if True then \<lparr>d4_bytes = [10, 0, 0, 1]\<rparr>
          else \<lparr>d4_bytes = rev (d4_bytes \<lparr>d4_bytes = [10, 0, 0, 1]\<rparr>)\<rparr>)\<rparr>"
  by (rule endpoint_address_roundtrip) (simp_all add: wf_v4_def)

text \<open>
  the address bytes of the socket address are those of the IPv4 address in reverse order,
  where the interface asks for network byte order (the first byte first): for an address that is
  not a palindrome the socket address names another host.
\<close>

theorem v4_get_address_not_network_order:
  assumes "wf_v4 a" and "length pad = 8" and "d4_bytes a \<noteq> rev (d4_bytes a)"
  shows "take 4 (drop 4 (fst (v4_get_address little pad a port storage))) \<noteq> d4_bytes a"
  using assms unfolding v4_get_address_bytes [OF assms(1,2)] by (auto simp: wf_v4_def)

theorem v4_get_address_not_network_order_witness:
  "take 4 (drop 4 (fst (v4_get_address True (replicate 8 0) \<lparr>d4_bytes = [127, 0, 0, 1]\<rparr> 80 (replicate 128 0)))) \<noteq> [127, 0, 0, 1]"
  using v4_get_address_not_network_order [of "\<lparr>d4_bytes = [127, 0, 0, 1]\<rparr>" "replicate 8 0" True 80 "replicate 128 0"]
  by (simp add: wf_v4_def)

end
