(* ===== verification/Buffers.thy ===== *)
theory Buffers
  imports Bytes
begin

text \<open>
  \<^verbatim>\<open>src/src/nstd/buffer\<close> and \<^verbatim>\<open>get_iovec\<close>: buffers are pairs of a base address and a length over
  a memory of bytes; the functions \<^verbatim>\<open>buffer\<close> make them from containers, \<^verbatim>\<open>+=\<close> advances them and
  \<^verbatim>\<open>get_iovec\<close> turns a sequence of them into the vector a scatter/gather call takes. The null
  pointer is address 0.
\<close>

section \<open>Model\<close>

record iovec =
  iov_base :: addr
  iov_len :: nat

type_synonym mutable_buffer = iovec
type_synonym const_buffer = iovec

text \<open>A contiguous container: the address of its first element, the element size, the elements' number.\<close>

record container =
  c_begin :: addr
  c_elem_size :: nat
  c_count :: nat

subsection \<open>mutable_buffer\<close>

definition mutable_buffer_default :: mutable_buffer where
  "mutable_buffer_default = \<lparr>iov_base = 0, iov_len = 0\<rparr>"

definition mutable_buffer_ctor :: "addr \<Rightarrow> nat \<Rightarrow> mutable_buffer" where
  "mutable_buffer_ctor d l = \<lparr>iov_base = d, iov_len = l\<rparr>"

definition mutable_buffer_data :: "mutable_buffer \<Rightarrow> addr" where
  "mutable_buffer_data b = iov_base b"

definition mutable_buffer_size :: "mutable_buffer \<Rightarrow> nat" where
  "mutable_buffer_size b = iov_len b"

definition mutable_buffer_advance :: "mutable_buffer \<Rightarrow> nat \<Rightarrow> mutable_buffer" where
  "mutable_buffer_advance b n0 =
     (let n = min n0 (mutable_buffer_size b)
      in b\<lparr>iov_base := n + iov_base b, iov_len := iov_len b - n\<rparr>)"

definition make_mutable_buffer :: "container \<Rightarrow> mutable_buffer" where
  "make_mutable_buffer c = (if c_count c = 0 then mutable_buffer_default
     else mutable_buffer_ctor (c_begin c) (c_elem_size c * c_count c))"

definition mutable_buffer_of_array :: "container \<Rightarrow> mutable_buffer" where
  "mutable_buffer_of_array c = mutable_buffer_ctor (c_begin c) (c_elem_size c * c_count c)"

definition mutable_buffer_limit :: "mutable_buffer \<Rightarrow> nat \<Rightarrow> mutable_buffer" where
  "mutable_buffer_limit b n = mutable_buffer_ctor (mutable_buffer_data b) (min (mutable_buffer_size b) n)"

definition mutable_buffer_of_array_limit :: "container \<Rightarrow> nat \<Rightarrow> mutable_buffer" where
  "mutable_buffer_of_array_limit c n = mutable_buffer_limit (mutable_buffer_of_array c) n"

definition make_mutable_buffer_limit :: "container \<Rightarrow> nat \<Rightarrow> mutable_buffer" where
  "make_mutable_buffer_limit c n = mutable_buffer_limit (make_mutable_buffer c) n"

subsection \<open>const_buffer\<close>

definition const_buffer_default :: const_buffer where
  "const_buffer_default = \<lparr>iov_base = 0, iov_len = 0\<rparr>"

definition const_buffer_ctor :: "addr \<Rightarrow> nat \<Rightarrow> const_buffer" where
  "const_buffer_ctor d l = \<lparr>iov_base = d, iov_len = l\<rparr>"

definition const_buffer_of_mutable :: "mutable_buffer \<Rightarrow> const_buffer" where
  "const_buffer_of_mutable b = \<lparr>iov_base = mutable_buffer_data b, iov_len = mutable_buffer_size b\<rparr>"

definition const_buffer_data :: "const_buffer \<Rightarrow> addr" where
  "const_buffer_data b = iov_base b"

definition const_buffer_size :: "const_buffer \<Rightarrow> nat" where
  "const_buffer_size b = iov_len b"

definition const_buffer_advance :: "const_buffer \<Rightarrow> nat \<Rightarrow> const_buffer" where
  "const_buffer_advance b n0 =
     (let n = min n0 (const_buffer_size b)
      in b\<lparr>iov_base := n + iov_base b, iov_len := iov_len b - n\<rparr>)"

definition make_const_buffer :: "container \<Rightarrow> const_buffer" where
  "make_const_buffer c = (if c_count c = 0 then const_buffer_default
     else const_buffer_ctor (c_begin c) (c_elem_size c * c_count c))"

definition const_buffer_of_array :: "container \<Rightarrow> const_buffer" where
  "const_buffer_of_array c = const_buffer_ctor (c_begin c) (c_elem_size c * c_count c)"

definition const_buffer_limit :: "const_buffer \<Rightarrow> nat \<Rightarrow> const_buffer" where
  "const_buffer_limit b n = const_buffer_ctor (const_buffer_data b) (min (const_buffer_size b) n)"

definition const_buffer_of_array_limit :: "container \<Rightarrow> nat \<Rightarrow> const_buffer" where
  "const_buffer_of_array_limit c n = const_buffer_limit (const_buffer_of_array c) n"

definition make_const_buffer_limit :: "container \<Rightarrow> nat \<Rightarrow> const_buffer" where
  "make_const_buffer_limit c n = const_buffer_limit (make_const_buffer c) n"

subsection \<open>get_iovec\<close>

definition array_iovec_transform :: "iovec \<Rightarrow> iovec" where
  "array_iovec_transform b = \<lparr>iov_base = const_buffer_data b, iov_len = const_buffer_size b\<rparr>"

definition vector_iovec :: "iovec list \<Rightarrow> iovec list" where
  "vector_iovec bseq = map array_iovec_transform bseq"

text \<open>\<open>n\<close> is the number of elements the type says; an index past the sequence would be undefined: \<open>None\<close>.\<close>

definition array_iovec :: "nat \<Rightarrow> iovec list \<Rightarrow> iovec list option" where
  "array_iovec n bseq = (if n \<le> length bseq then Some (map (\<lambda>i. array_iovec_transform (bseq ! i)) [0..<n]) else None)"

datatype buffer_seq =
    Single_mutable mutable_buffer
  | Single_const const_buffer
  | Fixed_array "iovec list"
  | Other_sequence "iovec list"

text \<open>The overloads of \<^verbatim>\<open>get_iovec\<close>: a single buffer, a fixed-size array, any other sequence.\<close>

fun get_iovec :: "buffer_seq \<Rightarrow> iovec list option" where
  "get_iovec (Single_mutable b) = array_iovec 1 [b]"
| "get_iovec (Single_const b) = array_iovec 1 [b]"
| "get_iovec (Fixed_array bs) = array_iovec (length bs) bs"
| "get_iovec (Other_sequence bs) = Some (vector_iovec bs)"

section \<open>What a buffer covers\<close>

definition buffer_view :: "(addr \<Rightarrow> byte) \<Rightarrow> iovec \<Rightarrow> byte list" where
  "buffer_view mem b = map mem [iov_base b ..< iov_base b + iov_len b]"

definition sequence_view :: "(addr \<Rightarrow> byte) \<Rightarrow> iovec list \<Rightarrow> byte list" where
  "sequence_view mem bs = concat (map (buffer_view mem) bs)"

fun seq_buffers :: "buffer_seq \<Rightarrow> iovec list" where
  "seq_buffers (Single_mutable b) = [b]"
| "seq_buffers (Single_const b) = [b]"
| "seq_buffers (Fixed_array bs) = bs"
| "seq_buffers (Other_sequence bs) = bs"

lemma const_as_mutable:
  "const_buffer_advance = mutable_buffer_advance" "const_buffer_limit = mutable_buffer_limit"
  by (auto simp: fun_eq_iff const_buffer_advance_def mutable_buffer_advance_def const_buffer_limit_def
      mutable_buffer_limit_def const_buffer_ctor_def mutable_buffer_ctor_def const_buffer_data_def
      mutable_buffer_data_def const_buffer_size_def mutable_buffer_size_def)

lemma view_advance: "buffer_view mem (mutable_buffer_advance b n) = drop n (buffer_view mem b)"
proof -
  have "drop n [iov_base b ..< iov_base b + iov_len b] = [iov_base b + n ..< iov_base b + iov_len b]"
    by simp
  moreover have "[iov_base b + n ..< iov_base b + iov_len b] =
      [min n (iov_len b) + iov_base b ..< min n (iov_len b) + iov_base b + (iov_len b - min n (iov_len b))]"
    by (cases "n \<le> iov_len b") (simp_all add: min_def add.commute)
  ultimately show ?thesis
    by (simp add: buffer_view_def mutable_buffer_advance_def mutable_buffer_size_def drop_map Let_def)
qed

lemma view_limit: "buffer_view mem (mutable_buffer_limit b n) = take n (buffer_view mem b)"
  by (simp add: buffer_view_def mutable_buffer_limit_def mutable_buffer_ctor_def mutable_buffer_data_def
      mutable_buffer_size_def take_map min_def)

lemma transform_id [simp]: "array_iovec_transform b = b"
  by (simp add: array_iovec_transform_def const_buffer_data_def const_buffer_size_def)

lemma vector_iovec_all [simp]: "vector_iovec bs = bs"
  unfolding vector_iovec_def by (rule map_idI) simp

lemma array_iovec_all [simp]: "array_iovec (length bs) bs = Some bs"
  by (simp add: array_iovec_def map_nth)

text \<open>
  limiting a buffer to \<open>n\<close> bytes and advancing it by \<open>n\<close> bytes split what it covers at \<open>n\<close>,
  for constant and for mutable buffers and for any \<open>n\<close>, also past the end.
\<close>

theorem buffer_split:
  "buffer_view mem (const_buffer_limit b n) @ buffer_view mem (const_buffer_advance b n) = buffer_view mem b
   \<and> buffer_view mem (mutable_buffer_limit b n) @ buffer_view mem (mutable_buffer_advance b n) = buffer_view mem b
   \<and> iov_len (mutable_buffer_advance b n) = iov_len b - n"
  by (simp add: const_as_mutable view_advance view_limit)
    (simp add: mutable_buffer_advance_def mutable_buffer_size_def Let_def)

text \<open>
  every overload of \<^verbatim>\<open>get_iovec\<close> returns a vector that gathers exactly the bytes of the
  buffer sequence, in order, with one entry per buffer.
\<close>

theorem get_iovec_gathers:
  "\<exists>v. get_iovec s = Some v \<and> length v = length (seq_buffers s)
     \<and> sequence_view mem v = sequence_view mem (seq_buffers s)"
  by (cases s) (simp_all add: array_iovec_def map_nth)

end
