(* ===== verification/Max_Queue.thy ===== *)
theory Max_Queue
  imports Prelude
begin

text \<open>
  The contract the heaps of \<^verbatim>\<open>src/src/old-boost/heaps\<close> share: a multiset of values ordered by
  \<^verbatim>\<open>std::less\<close>, of which \<^verbatim>\<open>top\<close> is a largest one and \<^verbatim>\<open>pop\<close> removes it. What a client such as
  a sort or a shortest-path search relies on is proved here once.
\<close>

locale max_queue =
  fixes empty :: "'q"
    and is_empty :: "'q \<Rightarrow> bool"
    and push :: "'a::linorder \<Rightarrow> 'q \<Rightarrow> 'q"
    and top :: "'q \<Rightarrow> 'a"
    and pop :: "'q \<Rightarrow> 'q"
    and invar :: "'q \<Rightarrow> bool"
    and elems :: "'q \<Rightarrow> 'a multiset"
  assumes empty: "invar empty" "elems empty = {#}"
    and is_empty_iff: "invar q \<Longrightarrow> is_empty q \<longleftrightarrow> elems q = {#}"
    and push: "invar q \<Longrightarrow> invar (push x q)" "invar q \<Longrightarrow> elems (push x q) = add_mset x (elems q)"
    and top: "invar q \<Longrightarrow> elems q \<noteq> {#} \<Longrightarrow> top q \<in># elems q \<and> (\<forall>x \<in># elems q. x \<le> top q)"
    and pop: "invar q \<Longrightarrow> elems q \<noteq> {#} \<Longrightarrow> invar (pop q)"
      "invar q \<Longrightarrow> elems q \<noteq> {#} \<Longrightarrow> elems (pop q) = elems q - {#top q#}"
begin

text \<open>Taking everything out, in the order the queue yields it.\<close>

lemma drain_desc:
  assumes "invar q"
  shows "\<exists>q' xs. loop_while (\<lambda>(q, out). \<not> is_empty q) (\<lambda>(q, out). Some (pop q, out @ [top q])) (q, ys) = Some (q', ys @ xs)
    \<and> mset xs = elems q \<and> sorted_wrt (\<ge>) xs \<and> elems q' = {#} \<and> invar q'"
  using assms
proof (induction "size (elems q)" arbitrary: q ys rule: less_induct)
  case less
  show ?case
  proof (cases "elems q = {#}")
    case True
    with less.prems show ?thesis
      by (intro exI [where x = q] exI [where x = "[]"]) (simp add: is_empty_iff)
  next
    case False
    let ?t = "top q"
    have t: "?t \<in># elems q" "\<forall>x \<in># elems q. x \<le> ?t" using top [OF less.prems False] by auto
    have p: "invar (pop q)" "elems (pop q) = elems q - {#?t#}" using pop [OF less.prems False] by auto
    then have "size (elems (pop q)) < size (elems q)"
      using multi_member_split [OF t(1)] by auto
    from less.hyps [OF this p(1), of "ys @ [?t]"] obtain q' xs where
      xs: "loop_while (\<lambda>(q, out). \<not> is_empty q) (\<lambda>(q, out). Some (pop q, out @ [top q])) (pop q, ys @ [?t])
        = Some (q', (ys @ [?t]) @ xs)" "mset xs = elems (pop q)" "sorted_wrt (\<ge>) xs" "elems q' = {#}" "invar q'"
      by blast
    have "\<forall>x \<in> set xs. x \<le> ?t"
    proof
      fix x assume "x \<in> set xs"
      then have "x \<in># elems q" using xs(2) p(2) by (metis in_diffD set_mset_mset)
      with t(2) show "x \<le> ?t" by blast
    qed
    with xs p t(1) less.prems False show ?thesis
      by (intro exI [where x = q'] exI [where x = "?t # xs"]) (simp add: loop_while_step is_empty_iff)
  qed
qed

lemma push_list:
  assumes "invar q"
  shows "invar (fold push xs q) \<and> elems (fold push xs q) = elems q + mset xs"
  using assms by (induction xs arbitrary: q) (simp_all add: push)

text \<open>Sorting by pushing everything and taking it out again.\<close>

lemma queue_sort:
  "\<exists>q' ys. loop_while (\<lambda>(q, out). \<not> is_empty q) (\<lambda>(q, out). Some (pop q, out @ [top q])) (fold push xs empty, [])
     = Some (q', ys) \<and> mset ys = mset xs \<and> sorted_wrt (\<ge>) ys"
  using drain_desc [of "fold push xs empty" "[]"] push_list [OF empty(1), of xs] empty(2) by auto

end

end
