(* ===== verification/Heap_Order.thy ===== *)
theory Heap_Order
  imports Prelude
begin

text \<open>
  Heaps in an array, for the heaps of \<^verbatim>\<open>src/src/old-boost/heaps\<close> that keep one (\<^verbatim>\<open>d_heap\<close> and \<^verbatim>\<open>p_queue\<close>): a tree with up to \<open>d\<close> children at each node, stored level by
  level as a list of values, and what moving a value up or a hole down keeps of its order.
\<close>

section \<open>The heap order\<close>

text \<open>
  \<open>heap_ordered d vs\<close>: along every edge the parent is not smaller. \<open>heap_above d k vs\<close> leaves out the edge from \<open>k\<close> upwards, \<open>heap_hole d k vs\<close> all edges at \<open>k\<close>;
  in both the parent of \<open>k\<close> is not smaller than the children of \<open>k\<close>.
\<close>

definition parent :: "nat \<Rightarrow> nat \<Rightarrow> nat" where
  "parent d i = (i - 1) div d"

definition heap_ordered :: "nat \<Rightarrow> 'a::linorder list \<Rightarrow> bool" where
  "heap_ordered d vs \<longleftrightarrow> (\<forall>i. 0 < i \<longrightarrow> i < length vs \<longrightarrow> vs ! i \<le> vs ! parent d i)"

definition heap_above :: "nat \<Rightarrow> nat \<Rightarrow> 'a::linorder list \<Rightarrow> bool" where
  "heap_above d k vs \<longleftrightarrow>
     (\<forall>i. 0 < i \<longrightarrow> i < length vs \<longrightarrow> i \<noteq> k \<longrightarrow> vs ! i \<le> vs ! parent d i)
   \<and> (\<forall>i. 0 < i \<longrightarrow> i < length vs \<longrightarrow> parent d i = k \<longrightarrow> 0 < k \<longrightarrow> vs ! i \<le> vs ! parent d k)"

definition heap_hole :: "nat \<Rightarrow> nat \<Rightarrow> 'a::linorder list \<Rightarrow> bool" where
  "heap_hole d k vs \<longleftrightarrow>
     (\<forall>i. 0 < i \<longrightarrow> i < length vs \<longrightarrow> i \<noteq> k \<longrightarrow> parent d i \<noteq> k \<longrightarrow> vs ! i \<le> vs ! parent d i)
   \<and> (\<forall>i. 0 < i \<longrightarrow> i < length vs \<longrightarrow> parent d i = k \<longrightarrow> 0 < k \<longrightarrow> vs ! i \<le> vs ! parent d k)"

lemma parent_less: "0 < i \<Longrightarrow> parent d i < i"
  unfolding parent_def by (rule le_less_trans [OF div_le_dividend]) simp

lemma heap_ordered_max:
  assumes "heap_ordered d vs" and "i < length vs"
  shows "vs ! i \<le> vs ! 0"
  using assms(2)
proof (induction i rule: less_induct)
  case (less i)
  show ?case
  proof (cases "i = 0")
    case False
    with less.prems assms(1) have "vs ! i \<le> vs ! parent d i" by (simp add: heap_ordered_def)
    also have "\<dots> \<le> vs ! 0"
      using less parent_less [of i d] False by auto
    finally show ?thesis .
  qed simp
qed

lemma heap_above_done:
  assumes "heap_above d k vs" and "k = 0 \<or> vs ! k \<le> vs ! parent d k"
  shows "heap_ordered d vs"
  using assms unfolding heap_above_def heap_ordered_def by (metis less_numeral_extra(3))

text \<open>One step up: the value \<open>v\<close> at \<open>k\<close> is larger than its parent's and changes places with it.\<close>

lemma heap_above_step:
  assumes h: "heap_above d k vs" and k: "0 < k" "k < length vs"
    and v: "vs ! parent d k < vs ! k"
  shows "heap_above d (parent d k) (vs[k := vs ! parent d k, parent d k := vs ! k])"
proof -
  let ?p = "parent d k" and ?w = "vs[k := vs ! parent d k, parent d k := vs ! k]"
  have p: "?p < k" using k(1) by (rule parent_less)
  have at: "?w ! i = (if i = ?p then vs ! k else if i = k then vs ! ?p else vs ! i)" if "i < length vs" for i
    using that p k by (simp add: nth_list_update)
  have ord: "vs ! i \<le> vs ! parent d i" if "0 < i" "i < length vs" "i \<noteq> k" for i
    using h that by (simp add: heap_above_def)
  have kids: "vs ! i \<le> vs ! ?p" if "0 < i" "i < length vs" "parent d i = k" for i
    using h that k by (simp add: heap_above_def)
  have "?w ! i \<le> ?w ! parent d i" if i: "0 < i" "i < length vs" "i \<noteq> ?p" for i
  proof -
    have pi: "parent d i < length vs" using parent_less [OF i(1), of d] i(2) by simp
    show ?thesis
    proof (cases "i = k")
      case True
      with at [OF i(2)] at [OF pi] p v show ?thesis by simp
    next
      case False
      from ord [OF i(1,2) False] kids [OF i(1,2)] at [OF i(2)] at [OF pi] False i(3) v show ?thesis
        by (auto intro: order.trans)
    qed
  qed
  moreover have "?w ! i \<le> ?w ! parent d ?p" if i: "0 < i" "i < length vs" "parent d i = ?p" "0 < ?p" for i
  proof -
    have pp: "parent d ?p < ?p" "parent d ?p < length vs" using parent_less [OF i(4), of d] p k by auto
    have "vs ! ?p \<le> vs ! parent d ?p" using ord [of ?p] i(4) p k by simp
    moreover have "vs ! i \<le> vs ! ?p" if "i \<noteq> k" using ord [OF i(1,2) that] i(3) by simp
    moreover have "i \<noteq> ?p" using parent_less [OF i(1), of d] i(3) by auto
    ultimately show ?thesis
      using at [OF i(2)] at [OF pp(2)] pp p by (auto intro: order.trans)
  qed
  ultimately show ?thesis unfolding heap_above_def by simp
qed

text \<open>The hole moves down to a largest child.\<close>

lemma heap_hole_step:
  assumes h: "heap_hole d k vs" and m: "m < length vs" "0 < m" "parent d m = k"
    and max: "\<And>i. 0 < i \<Longrightarrow> i < length vs \<Longrightarrow> parent d i = k \<Longrightarrow> vs ! i \<le> vs ! m"
  shows "heap_hole d m (vs[k := vs ! m])"
proof -
  let ?w = "vs[k := vs ! m]"
  have k: "k < m" using parent_less [OF m(2), of d] m(3) by simp
  have at: "?w ! i = (if i = k then vs ! m else vs ! i)" if "i < length vs" for i
    using that k m by (simp add: nth_list_update)
  have pk: "vs ! m \<le> vs ! parent d k" if "0 < k"
    using h m that by (simp add: heap_hole_def)
  have ord: "vs ! i \<le> vs ! parent d i" if "0 < i" "i < length vs" "i \<noteq> k" "parent d i \<noteq> k" for i
    using h that by (simp add: heap_hole_def)
  have "?w ! i \<le> ?w ! parent d i" if i: "0 < i" "i < length vs" "i \<noteq> m" "parent d i \<noteq> m" for i
  proof -
    have pi: "parent d i < i" "parent d i < length vs" using parent_less [OF i(1), of d] i(2) by auto
    show ?thesis
      using at [OF i(2)] at [OF pi(2)] ord [OF i(1,2)] max [OF i(1,2)] pk i pi
      by (cases "i = k") auto
  qed
  moreover have "?w ! i \<le> ?w ! parent d m" if i: "0 < i" "i < length vs" "parent d i = m" for i
  proof -
    have "i \<noteq> k" using parent_less [OF i(1), of d] i k by auto
    then have "vs ! i \<le> vs ! m" using ord [OF i(1,2)] i k by auto
    then show ?thesis using at [OF i(2)] at [of k] \<open>i \<noteq> k\<close> m k by simp
  qed
  ultimately show ?thesis unfolding heap_hole_def by simp
qed

text \<open>A hole without children is filled by any value: only its own edge upwards is open.\<close>

lemma heap_hole_fill:
  assumes "heap_hole d k vs" and "\<And>i. 0 < i \<Longrightarrow> i < length vs \<Longrightarrow> parent d i \<noteq> k"
  shows "heap_above d k (vs[k := v])"
  using assms unfolding heap_hole_def heap_above_def
  by (auto simp: nth_list_update) (metis less_le_trans nth_list_update_neq order_refl)

lemma heap_hole_root: "heap_ordered d vs \<Longrightarrow> heap_hole d 0 vs"
  by (simp add: heap_ordered_def heap_hole_def)

lemma heap_above_butlast:
  assumes "heap_above d k vs" and "k < length vs"
  shows "heap_above d k (butlast vs)"
proof -
  have at: "butlast vs ! i = vs ! i" if "i < length vs - 1" for i
    using that by (simp add: nth_butlast)
  have "parent d i < length vs - 1" if "0 < i" "i < length vs - 1" for i
    using parent_less [OF that(1), of d] that(2) by simp
  moreover have "parent d k < length vs - 1" if "0 < k"
    using parent_less [OF that, of d] assms(2) by simp
  ultimately show ?thesis
    using assms(1) unfolding heap_above_def by (simp add: at)
qed

lemma heap_above_snoc:
  "heap_ordered d vs \<Longrightarrow> heap_above d (length vs) (vs @ [v])"
  unfolding heap_above_def heap_ordered_def
  by (auto simp: nth_append less_Suc_eq dest: parent_less [of _ d])

section \<open>The children of a node\<close>

lemma children:
  assumes "0 < d"
  shows "0 < i \<and> parent d i = k \<longleftrightarrow> k * d < i \<and> i \<le> k * d + d"
proof -
  have "(i - 1) div d = k \<longleftrightarrow> k * d \<le> i - 1 \<and> i - 1 < k * d + d" if "0 < i"
    using assms that by (metis add.commute add_less_cancel_right div_less_iff_less_mult div_nat_eqI
        dividend_less_div_times less_eq_div_iff_mult_less_eq mult.commute mult_Suc order_refl
        less_Suc_eq_le nat_less_le not_less)
  moreover have "k * d \<le> i - 1 \<and> i - 1 < k * d + d \<longleftrightarrow> k * d < i \<and> i \<le> k * d + d" if "0 < i"
    using that by linarith
  ultimately show ?thesis unfolding parent_def by (cases "0 < i") simp_all
qed

lemma foldl_argmax:
  fixes f :: "'b \<Rightarrow> 'a::linorder"
  shows "(\<forall>x \<in> set xs. f x \<le> f (foldl (\<lambda>m x. if f m < f x then x else m) m xs))
    \<and> f m \<le> f (foldl (\<lambda>m x. if f m < f x then x else m) m xs)
    \<and> foldl (\<lambda>m x. if f m < f x then x else m) m xs \<in> insert m (set xs)"
proof (induction xs arbitrary: m)
  case (Cons y ys)
  show ?case using Cons.IH [of "if f m < f y then y else m"] by auto
qed simp

end
