(* ===== verification/D_Heap.thy ===== *)
theory D_Heap
  imports Max_Queue Heap_Order
begin

text \<open>
  \<^verbatim>\<open>boost::d_heap\<close> of \<^verbatim>\<open>src/src/old-boost/heaps/d_heap.{hpp,cc}\<close>: a heap in a vector in which a node
  has \<open>d\<close> children, over nodes in a list that know their index, so that a value can be changed
  through its node. \<^verbatim>\<open>m_heap\<close> is the list of node addresses, the fields of the nodes are
  functions of the address, the comparison is \<^verbatim>\<open>std::less\<close> on a linear order, so \<^verbatim>\<open>top\<close> is a
  largest value. \<^verbatim>\<open>push\<close>, \<^verbatim>\<open>pop\<close> and \<^verbatim>\<open>increase\<close> keep the heap; \<^verbatim>\<open>decrease\<close> and \<^verbatim>\<open>remove\<close> do not in
  all cases, which concrete heaps show.
\<close>

section \<open>Model\<close>

record 'a d_heap =
  m_nodes :: "addr list"
  m_heap :: "addr list"
  m_index :: "addr \<Rightarrow> nat"
  m_value :: "addr \<Rightarrow> 'a"

text \<open>\<^verbatim>\<open>*(base + i) = n; (*(base + i))->m_index = i;\<close>\<close>

definition place :: "nat \<Rightarrow> addr \<Rightarrow> 'a d_heap \<Rightarrow> 'a d_heap" where
  "place i n s = s\<lparr>m_heap := (m_heap s)[i := n], m_index := (m_index s)(n := i)\<rparr>"

abbreviation val_at :: "'a d_heap \<Rightarrow> nat \<Rightarrow> 'a" where
  "val_at s i \<equiv> m_value s (m_heap s ! i)"

definition dh_top :: "'a d_heap \<Rightarrow> 'a" where
  "dh_top s = m_value s (m_heap s ! 0)"

definition dh_empty :: "'a d_heap \<Rightarrow> bool" where
  "dh_empty s = (m_nodes s = [])"

definition dh_size :: "'a d_heap \<Rightarrow> nat" where
  "dh_size s = length (m_nodes s)"

text \<open>
  The loop of \<^verbatim>\<open>siftup\<close>; \<^verbatim>\<open>pidx\<close> is always \<^verbatim>\<open>(idx - 1) / d\<close> while it is used.
\<close>

function siftup_loop :: "nat \<Rightarrow> nat \<Rightarrow> addr \<Rightarrow> 'a::linorder d_heap \<Rightarrow> 'a d_heap" where
  "siftup_loop d idx ptr s =
     (let pidx = (idx - 1) div d
      in if idx \<noteq> 0 \<and> val_at s pidx < m_value s ptr
         then siftup_loop d pidx ptr (place idx (m_heap s ! pidx) s)
         else place idx ptr s)"
  by pat_completeness auto
termination
proof (relation "measure (\<lambda>(d, idx, ptr, s). idx)", goal_cases)
  case (2 d idx ptr s x)
  then have "x \<le> idx - 1" and "idx \<noteq> 0" by simp_all
  then have "x < idx" by linarith
  then show ?case by simp
qed simp

declare siftup_loop.simps [simp del]

definition siftup :: "nat \<Rightarrow> nat \<Rightarrow> addr \<Rightarrow> 'a::linorder d_heap \<Rightarrow> 'a d_heap" where
  "siftup d idx ptr s = (if idx = 0 then s else siftup_loop d idx ptr s)"

text \<open>\<^verbatim>\<open>push\<close>: \<open>n\<close> is the address of the node the list allocates.\<close>

definition dh_push :: "nat \<Rightarrow> addr \<Rightarrow> 'a::linorder \<Rightarrow> 'a d_heap \<Rightarrow> 'a d_heap" where
  "dh_push d n v s =
     (let s = s\<lparr>m_nodes := m_nodes s @ [n], m_index := (m_index s)(n := length (m_heap s)),
               m_value := (m_value s)(n := v)\<rparr>;
          s = s\<lparr>m_heap := m_heap s @ [n]\<rparr>
      in siftup d (length (m_heap s) - 1) n s)"

text \<open>The loop over the \<open>d\<close> children below \<^verbatim>\<open>cidx\<close>, and the one over the children that exist.\<close>

definition full_child :: "nat \<Rightarrow> nat \<Rightarrow> 'a::linorder d_heap \<Rightarrow> nat" where
  "full_child d cidx s =
     foldl (\<lambda>midx i. if val_at s midx < val_at s (cidx - i) then cidx - i else midx) cidx [1..<d]"

definition part_child :: "nat \<Rightarrow> nat \<Rightarrow> 'a::linorder d_heap \<Rightarrow> nat" where
  "part_child cidx len s =
     foldl (\<lambda>midx i. if val_at s midx < val_at s i then i else midx) cidx [Suc cidx..<len]"

lemma foldl_in:
  "\<lbrakk>P m; \<And>m x. P m \<Longrightarrow> x \<in> set xs \<Longrightarrow> P (f m x)\<rbrakk> \<Longrightarrow> P (foldl f m xs)"
  by (induction xs arbitrary: m) auto

lemma full_child_range: "0 < d \<Longrightarrow> d \<le> cidx \<Longrightarrow> cidx - d < full_child d cidx s \<and> full_child d cidx s \<le> cidx"
  unfolding full_child_def by (rule foldl_in) auto

text \<open>
  The descent of the hole: \<open>hidx\<close> is the hole, \<^verbatim>\<open>cidx = hidx * d + d\<close> its last child. The result
  is the leaf or half-filled node where the first loop of \<^verbatim>\<open>pop\<close> stops.
\<close>

function hole_down :: "nat \<Rightarrow> nat \<Rightarrow> nat \<Rightarrow> 'a::linorder d_heap \<Rightarrow> nat \<times> 'a d_heap" where
  "hole_down d len hidx s =
     (let cidx = hidx * d + d
      in if 0 < d \<and> cidx < len
         then let midx = full_child d cidx s
              in hole_down d len midx (place hidx (m_heap s ! midx) s)
         else (hidx, s))"
  by pat_completeness auto
termination
proof (relation "measure (\<lambda>(d, len, hidx, s). len - hidx)", goal_cases)
  case (2 d len hidx s x xa)
  then have "hidx * d + d - d < xa \<and> xa \<le> hidx * d + d"
    using full_child_range [of d x s] by simp
  moreover have "hidx * 1 \<le> hidx * d" using 2 by (intro mult_le_mono2) simp
  ultimately have "hidx < xa" "xa < len" using 2 by linarith+
  then show ?case by simp
qed simp

declare hole_down.simps [simp del]

definition dh_pop :: "nat \<Rightarrow> 'a::linorder d_heap \<Rightarrow> 'a d_heap" where
  "dh_pop d s =
     (let len = length (m_heap s);
          rmnode = m_heap s ! 0;
          (hidx, s) = hole_down d len 0 s;
          cidx = hidx * d + d;
          (hidx, s) = (if cidx + 1 - d < len
                       then let midx = part_child (cidx + 1 - d) len s
                            in (midx, place hidx (m_heap s ! midx) s)
                       else (hidx, s));
          s = (if hidx \<noteq> len - 1
               then let s = place hidx (m_heap s ! (len - 1)) s
                    in siftup d hidx (m_heap s ! hidx) s
               else s)
      in s\<lparr>m_nodes := remove1 rmnode (m_nodes s), m_heap := butlast (m_heap s)\<rparr>)"

definition dh_remove :: "nat \<Rightarrow> addr \<Rightarrow> 'a::linorder d_heap \<Rightarrow> 'a d_heap" where
  "dh_remove d p s =
     (let len = length (m_heap s);
          rmnode = m_heap s ! 0;
          (hidx, s) = hole_down d len (m_index s p) s;
          s = place hidx (m_heap s ! (len - 1)) s;
          s = siftup d hidx (m_heap s ! (len - 1)) s
      in s\<lparr>m_nodes := remove1 rmnode (m_nodes s), m_heap := butlast (m_heap s)\<rparr>)"

definition dh_increase :: "nat \<Rightarrow> addr \<Rightarrow> 'a::linorder \<Rightarrow> 'a d_heap \<Rightarrow> 'a d_heap" where
  "dh_increase d p v s =
     (let s = s\<lparr>m_value := (m_value s)(p := v)\<rparr> in siftup d (m_index s p) p s)"

text \<open>The loop of \<^verbatim>\<open>decrease\<close>: the largest of \<open>p\<close> and the \<open>d\<close> children below the hole moves up.\<close>

definition min_child :: "nat \<Rightarrow> nat \<Rightarrow> addr \<Rightarrow> 'a::linorder d_heap \<Rightarrow> addr" where
  "min_child d cidx p s =
     foldl (\<lambda>min i. if m_value s min < val_at s (cidx - i) then m_heap s ! (cidx - i) else min) p [0..<d]"

fun decrease_loop :: "nat \<Rightarrow> nat \<Rightarrow> nat \<Rightarrow> nat \<Rightarrow> addr \<Rightarrow> 'a::linorder d_heap \<Rightarrow> (nat \<times> 'a d_heap) option" where
  "decrease_loop 0 d len hidx p s = None"
| "decrease_loop (Suc fuel) d len hidx p s =
     (let cidx = hidx * d + d
      in if cidx < len
         then let mn = min_child d cidx p s
              in if mn = p then Some (hidx, s)
                 else let cidx = m_index s mn
                      in decrease_loop fuel d len cidx p (place hidx mn s)
         else Some (hidx, s))"

definition dh_decrease :: "nat \<Rightarrow> addr \<Rightarrow> 'a::linorder \<Rightarrow> 'a d_heap \<Rightarrow> 'a d_heap option" where
  "dh_decrease d p v s =
     (let len = length (m_heap s);
          hidx = m_index s p;
          s = s\<lparr>m_value := (m_value s)(p := v)\<rparr>
      in map_option (\<lambda>(hidx, s). place hidx p s) (decrease_loop (Suc len) d len hidx p s))"

definition dh_change :: "nat \<Rightarrow> addr \<Rightarrow> 'a::linorder \<Rightarrow> 'a d_heap \<Rightarrow> 'a d_heap option" where
  "dh_change d p v s =
     (if m_value s p < v then Some (dh_increase d p v s) else dh_decrease d p v s)"

definition dh_change_top :: "nat \<Rightarrow> 'a::linorder \<Rightarrow> 'a d_heap \<Rightarrow> 'a d_heap option" where
  "dh_change_top d v s = dh_change d (m_heap s ! 0) v s"

section \<open>Well-formed heaps\<close>

definition vals :: "'a d_heap \<Rightarrow> 'a list" where
  "vals s = map (m_value s) (m_heap s)"

definition indexed_except :: "nat option \<Rightarrow> 'a d_heap \<Rightarrow> bool" where
  "indexed_except k s \<longleftrightarrow> (\<forall>i < length (m_heap s). Some i \<noteq> k \<longrightarrow> m_index s (m_heap s ! i) = i)"

definition dheap_inv :: "nat \<Rightarrow> 'a::linorder d_heap \<Rightarrow> bool" where
  "dheap_inv d s \<longleftrightarrow> distinct (m_heap s) \<and> mset (m_nodes s) = mset (m_heap s)
     \<and> indexed_except None s \<and> heap_ordered d (vals s)"

lemma length_vals [simp]: "length (vals s) = length (m_heap s)"
  by (simp add: vals_def)

lemma nth_vals [simp]: "i < length (m_heap s) \<Longrightarrow> vals s ! i = val_at s i"
  by (simp add: vals_def)

lemma place_simps [simp]:
  "m_value (place i n s) = m_value s" "m_nodes (place i n s) = m_nodes s"
  "m_heap (place i n s) = (m_heap s)[i := n]" "m_index (place i n s) = (m_index s)(n := i)"
  by (simp_all add: place_def)

lemma vals_place: "vals (place i n s) = (vals s)[i := m_value s n]"
  by (simp add: vals_def map_update)

text \<open>
  A position \<open>k\<close> whose content does not matter: \<open>filled k x s\<close> is the vector with \<open>x\<close> there.
\<close>

abbreviation filled :: "nat \<Rightarrow> addr \<Rightarrow> 'a d_heap \<Rightarrow> addr list" where
  "filled k x s \<equiv> (m_heap s)[k := x]"

lemma move_hole:
  assumes k: "k < length (m_heap s)" and m: "m < length (m_heap s)" "m \<noteq> k"
    and dist: "distinct (filled k x s)" and idx: "indexed_except (Some k) s"
  shows "mset (filled m x (place k (m_heap s ! m) s)) = mset (filled k x s)"
    and "distinct (filled m x (place k (m_heap s ! m) s))"
    and "indexed_except (Some m) (place k (m_heap s ! m) s)"
proof -
  let ?h = "m_heap s" and ?f = "filled k x s"
  have swap: "filled m x (place k (?h ! m) s) = ?f[k := ?f ! m, m := ?f ! k]"
    using k m by simp
  show eq: "mset (filled m x (place k (?h ! m) s)) = mset ?f"
    unfolding swap by (rule mset_swap) (use k m in simp_all)
  with dist show "distinct (filled m x (place k (?h ! m) s))"
    using mset_eq_imp_distinct_iff by blast
  have "?h ! i \<noteq> ?h ! m" if "i < length ?h" "i \<noteq> k" "i \<noteq> m" for i
    using dist that m nth_eq_iff_index_eq [of ?f i m] by simp
  with idx k show "indexed_except (Some m) (place k (?h ! m) s)"
    by (auto simp: indexed_except_def nth_list_update)
qed

section \<open>siftup\<close>

lemma siftup_loop_inv:
  assumes "idx < length (m_heap s)" and "heap_above d idx ((vals s)[idx := m_value s ptr])"
    and "distinct (filled idx ptr s)" and "indexed_except (Some idx) s"
  shows "m_value (siftup_loop d idx ptr s) = m_value s"
    and "m_nodes (siftup_loop d idx ptr s) = m_nodes s"
    and "mset (m_heap (siftup_loop d idx ptr s)) = mset (filled idx ptr s)"
    and "indexed_except None (siftup_loop d idx ptr s)"
    and "heap_ordered d (vals (siftup_loop d idx ptr s))"
proof -
  have "m_value (siftup_loop d idx ptr s) = m_value s \<and> m_nodes (siftup_loop d idx ptr s) = m_nodes s
    \<and> mset (m_heap (siftup_loop d idx ptr s)) = mset (filled idx ptr s)
    \<and> indexed_except None (siftup_loop d idx ptr s) \<and> heap_ordered d (vals (siftup_loop d idx ptr s))"
    using assms
  proof (induction d idx ptr s rule: siftup_loop.induct)
    case (1 d idx ptr s)
    let ?p = "parent d idx" and ?vs = "(vals s)[idx := m_value s ptr]"
    have unfold: "siftup_loop d idx ptr s = (if idx \<noteq> 0 \<and> val_at s ?p < m_value s ptr
        then siftup_loop d ?p ptr (place idx (m_heap s ! ?p) s) else place idx ptr s)"
      by (subst siftup_loop.simps) (simp add: parent_def Let_def)
    show ?case
    proof (cases "idx \<noteq> 0 \<and> val_at s ?p < m_value s ptr")
      case True
      let ?t = "place idx (m_heap s ! ?p) s"
      have p: "?p < idx" using True by (intro parent_less) simp
      have vp: "?vs ! ?p = val_at s ?p" "?vs ! idx = m_value s ptr" using p "1.prems"(1) by simp_all
      have "(vals ?t)[?p := m_value s ptr] = ?vs[idx := ?vs ! ?p, ?p := ?vs ! idx]"
        using p "1.prems"(1) by (simp add: vals_place vp)
      moreover have "heap_above d ?p (?vs[idx := ?vs ! ?p, ?p := ?vs ! idx])"
        by (rule heap_above_step) (use "1.prems" True p vp in simp_all)
      ultimately have "heap_above d ?p ((vals ?t)[?p := m_value s ptr])" by simp
      moreover note move_hole [OF "1.prems"(1) _ _ "1.prems"(3,4), of ?p]
      ultimately show ?thesis
        unfolding unfold using True p "1.prems"(1) "1.IH" [of ?p] by (simp add: parent_def)
    next
      case False
      have "idx = 0 \<or> ?vs ! idx \<le> ?vs ! ?p"
      proof (cases "idx = 0")
        case nz: False
        then have "?p < idx" by (intro parent_less) simp
        with nz False "1.prems"(1) show ?thesis by (simp add: not_less)
      qed simp
      with "1.prems"(2) have "heap_ordered d ?vs" by (rule heap_above_done)
      moreover have "indexed_except None (place idx ptr s)"
        using "1.prems"(1,3,4) nth_eq_iff_index_eq [of "filled idx ptr s" _ idx]
        by (fastforce simp: indexed_except_def nth_list_update)
      ultimately show ?thesis
        unfolding unfold using False by (auto simp: vals_place)
    qed
  qed
  then show "m_value (siftup_loop d idx ptr s) = m_value s"
    and "m_nodes (siftup_loop d idx ptr s) = m_nodes s"
    and "mset (m_heap (siftup_loop d idx ptr s)) = mset (filled idx ptr s)"
    and "indexed_except None (siftup_loop d idx ptr s)"
    and "heap_ordered d (vals (siftup_loop d idx ptr s))" by auto
qed

text \<open>Nodes behind the position are not read or written.\<close>

lemma siftup_loop_append:
  "idx < length h \<Longrightarrow>
   siftup_loop d idx ptr (s\<lparr>m_heap := h @ xs\<rparr>) =
     (let t = siftup_loop d idx ptr (s\<lparr>m_heap := h\<rparr>) in t\<lparr>m_heap := m_heap t @ xs\<rparr>)"
proof (induction idx arbitrary: h s rule: less_induct)
  case (less idx)
  let ?p = "parent d idx"
  have unfold: "siftup_loop d idx ptr s = (if idx \<noteq> 0 \<and> val_at s ?p < m_value s ptr
      then siftup_loop d ?p ptr (place idx (m_heap s ! ?p) s) else place idx ptr s)" for s
    by (subst siftup_loop.simps) (simp add: parent_def Let_def)
  show ?case
  proof (cases "idx = 0")
    case True
    then show ?thesis
      using less.prems unfolding unfold by (simp add: place_def list_update_append Let_def)
  next
    case False
    then have p: "?p < idx" by (intro parent_less) simp
    let ?s = "s\<lparr>m_index := (m_index s)(h ! ?p := idx)\<rparr>" and ?h = "h[idx := h ! ?p]"
    have pl: "place idx (h ! ?p) (s\<lparr>m_heap := h @ xs\<rparr>) = ?s\<lparr>m_heap := ?h @ xs\<rparr>"
      "place idx (h ! ?p) (s\<lparr>m_heap := h\<rparr>) = ?s\<lparr>m_heap := ?h\<rparr>"
      "place idx ptr (s\<lparr>m_heap := h @ xs\<rparr>) = (place idx ptr (s\<lparr>m_heap := h\<rparr>))\<lparr>m_heap := h[idx := ptr] @ xs\<rparr>"
      using less.prems by (simp_all add: place_def list_update_append)
    have "(h @ xs) ! ?p = h ! ?p" using p less.prems by (simp add: nth_append)
    with less.IH [OF p, of ?h ?s] less.prems p show ?thesis
      unfolding unfold Let_def by (simp add: pl)
  qed
qed

section \<open>push, increase\<close>

lemma siftup_inv:
  assumes "idx < length (m_heap s)" and "heap_above d idx (vals s)" and "m_heap s ! idx = ptr"
    and "distinct (m_heap s)" and "mset (m_nodes s) = mset (m_heap s)" and "indexed_except None s"
  shows "dheap_inv d (siftup d idx ptr s) \<and> mset (vals (siftup d idx ptr s)) = mset (vals s)"
proof (cases "idx = 0")
  case True
  with assms show ?thesis by (simp add: siftup_def dheap_inv_def heap_above_done)
next
  case False
  let ?t = "siftup_loop d idx ptr s"
  have fill: "filled idx ptr s = m_heap s" "(vals s)[idx := m_value s ptr] = vals s"
    using assms(1,3) by (auto simp: vals_def map_update [symmetric])
  have "indexed_except (Some idx) s" using assms(6) by (simp add: indexed_except_def)
  with assms have t: "m_value ?t = m_value s" "m_nodes ?t = m_nodes s" "mset (m_heap ?t) = mset (m_heap s)"
    "indexed_except None ?t" "heap_ordered d (vals ?t)"
    using siftup_loop_inv [of idx s d ptr] fill by simp_all
  moreover have "distinct (m_heap ?t)"
    using t(3) assms(4) mset_eq_imp_distinct_iff by blast
  moreover have "mset (vals ?t) = mset (vals s)"
    using t(1,3) by (metis mset_map vals_def)
  ultimately show ?thesis using False assms(5) by (simp add: siftup_def dheap_inv_def)
qed

lemma dh_push_inv:
  assumes inv: "dheap_inv d s" and n: "n \<notin> set (m_heap s)"
  shows "dheap_inv d (dh_push d n v s) \<and> mset (vals (dh_push d n v s)) = add_mset v (mset (vals s))"
proof -
  define t where "t = s\<lparr>m_nodes := m_nodes s @ [n], m_index := (m_index s)(n := length (m_heap s)),
               m_value := (m_value s)(n := v), m_heap := m_heap s @ [n]\<rparr>"
  have vt: "vals t = vals s @ [v]"
    using n by (simp add: t_def vals_def)
  have "dheap_inv d (siftup d (length (m_heap s)) n t)
      \<and> mset (vals (siftup d (length (m_heap s)) n t)) = mset (vals t)"
  proof (rule siftup_inv)
    show "heap_above d (length (m_heap s)) (vals t)"
      using inv heap_above_snoc [of d "vals s" v] by (simp add: vt dheap_inv_def)
    show "indexed_except None t"
      using inv n by (auto simp: t_def indexed_except_def dheap_inv_def nth_append less_Suc_eq)
  qed (use inv n in \<open>auto simp: t_def dheap_inv_def\<close>)
  moreover have "dh_push d n v s = siftup d (length (m_heap s)) n t"
    by (simp add: dh_push_def t_def Let_def)
  ultimately show ?thesis by (simp add: vt)
qed

lemma dh_increase_inv:
  assumes inv: "dheap_inv d s" and p: "p \<in> set (m_heap s)" and v: "m_value s p \<le> v"
  shows "dheap_inv d (dh_increase d p v s)
    \<and> mset (vals (dh_increase d p v s)) = add_mset v (mset (vals s) - {#m_value s p#})"
proof -
  obtain k where k: "k < length (m_heap s)" "m_heap s ! k = p" using p by (auto simp: in_set_conv_nth)
  define t where "t = s\<lparr>m_value := (m_value s)(p := v)\<rparr>"
  have ne: "m_heap s ! i \<noteq> p" if "i < length (m_heap s)" "i \<noteq> k" for i
    using that k inv nth_eq_iff_index_eq [of "m_heap s" i k] by (auto simp: dheap_inv_def)
  have vt: "vals t = (vals s)[k := v]"
    by (rule nth_equalityI) (use k ne in \<open>auto simp: t_def vals_def nth_list_update\<close>)
  have ord: "val_at s i \<le> val_at s (parent d i)" if "0 < i" "i < length (m_heap s)" for i
  proof -
    have "parent d i < length (m_heap s)" using that parent_less [OF that(1), of d] by simp
    moreover have "vals s ! i \<le> vals s ! parent d i"
      using inv that unfolding dheap_inv_def heap_ordered_def by simp
    ultimately show ?thesis using that by simp
  qed
  have "vals t ! i \<le> vals t ! parent d i" if i: "0 < i" "i < length (m_heap s)" "i \<noteq> k" for i
    using ord [OF i(1,2)] i k v parent_less [OF i(1), of d] by (auto simp: vt nth_list_update)
  moreover have "vals t ! i \<le> vals t ! parent d k" if i: "0 < i" "i < length (m_heap s)" "parent d i = k" "0 < k" for i
    using ord [OF i(1,2)] ord [OF i(4) k(1)] i k parent_less [OF i(1), of d] parent_less [OF i(4), of d]
    by (auto simp: vt nth_list_update)
  ultimately have "heap_above d k (vals t)" by (simp add: heap_above_def vt)
  then have "dheap_inv d (siftup d k p t) \<and> mset (vals (siftup d k p t)) = mset (vals t)"
    by (intro siftup_inv) (use inv k in \<open>auto simp: t_def dheap_inv_def indexed_except_def\<close>)
  moreover have "dh_increase d p v s = siftup d k p t"
    using inv k by (auto simp: dh_increase_def t_def dheap_inv_def indexed_except_def)
  moreover have "mset (vals t) = add_mset v (mset (vals s) - {#m_value s p#})"
    unfolding vt using k by (simp add: mset_update)
  ultimately show ?thesis by simp
qed

section \<open>pop\<close>

definition hole_inv :: "nat \<Rightarrow> addr \<Rightarrow> addr multiset \<Rightarrow> nat \<Rightarrow> 'a::linorder d_heap \<Rightarrow> bool" where
  "hole_inv d x M k s \<longleftrightarrow> k < length (m_heap s) \<and> heap_hole d k (vals s)
     \<and> mset (filled k x s) = M \<and> distinct (filled k x s) \<and> indexed_except (Some k) s"

lemma hole_inv_move:
  assumes inv: "hole_inv d x M k s" and m: "m < length (m_heap s)" "0 < m" "parent d m = k"
    and max: "\<And>i. 0 < i \<Longrightarrow> i < length (m_heap s) \<Longrightarrow> parent d i = k \<Longrightarrow> val_at s i \<le> val_at s m"
  shows "hole_inv d x M m (place k (m_heap s ! m) s)"
proof -
  have k: "k < length (m_heap s)" "m \<noteq> k"
    using inv m parent_less [OF m(2), of d] by (auto simp: hole_inv_def)
  have "heap_hole d m ((vals s)[k := vals s ! m])"
    by (rule heap_hole_step) (use inv m max in \<open>auto simp: hole_inv_def\<close>)
  then have "heap_hole d m (vals (place k (m_heap s ! m) s))"
    using m by (simp add: vals_place)
  then show ?thesis
    using move_hole [OF k(1) m(1) k(2), of x] inv m k unfolding hole_inv_def by simp
qed

lemma full_child_max:
  assumes "0 < d"
  shows "\<And>i. k * d < i \<Longrightarrow> i \<le> k * d + d \<Longrightarrow> val_at s i \<le> val_at s (full_child d (k * d + d) s)"
proof -
  fix i assume i: "k * d < i" "i \<le> k * d + d"
  let ?c = "k * d + d" and ?xs = "map (\<lambda>j. k * d + d - j) [1..<d]"
  have "foldl (\<lambda>midx j. if val_at s midx < val_at s (?c - j) then ?c - j else midx) m js
      = foldl (\<lambda>m x. if val_at s m < val_at s x then x else m) m (map (\<lambda>j. ?c - j) js)" for m js
    by (induction js arbitrary: m) simp_all
  then have eq: "full_child d ?c s = foldl (\<lambda>m x. if val_at s m < val_at s x then x else m) ?c ?xs"
    by (simp add: full_child_def)
  have "i = ?c \<or> i \<in> set ?xs"
  proof (cases "i = ?c")
    case False
    with i have "?c - i \<in> set [1..<d]" "i = ?c - (?c - i)" by auto
    then show ?thesis by (metis image_eqI set_map)
  qed simp
  then show "val_at s i \<le> val_at s (full_child d ?c s)"
    unfolding eq using foldl_argmax [of ?xs "val_at s" ?c] by blast
qed

lemma hole_down_inv:
  assumes "hole_inv d x M k s" and "0 < d" and "len = length (m_heap s)"
  shows "case hole_down d len k s of (k', t) \<Rightarrow>
    hole_inv d x M k' t \<and> len \<le> k' * d + d \<and> length (m_heap t) = len
    \<and> m_value t = m_value s \<and> m_nodes t = m_nodes s"
  using assms
proof (induction d len k s rule: hole_down.induct)
  case (1 d len k s)
  let ?c = "k * d + d"
  let ?m = "full_child d ?c s"
  have unfold: "hole_down d len k s = (if 0 < d \<and> ?c < len then hole_down d len ?m (place k (m_heap s ! ?m) s) else (k, s))"
    by (subst hole_down.simps) (simp add: Let_def)
  show ?case
  proof (cases "?c < len")
    case True
    have m: "k * d < ?m" "?m \<le> ?c" using full_child_range [of d ?c s] "1.prems"(2) by auto
    then have m': "?m < length (m_heap s)" "0 < ?m" "parent d ?m = k"
      using True "1.prems"(3) children [OF "1.prems"(2), of ?m k] by auto
    have "hole_inv d x M ?m (place k (m_heap s ! ?m) s)"
      by (rule hole_inv_move [OF "1.prems"(1) m'])
        (use full_child_max [OF "1.prems"(2)] children [OF "1.prems"(2)] in blast)
    with "1.IH" [OF refl _ refl] True "1.prems" show ?thesis unfolding unfold by simp
  next
    case False
    with "1.prems" show ?thesis unfolding unfold by simp
  qed
qed

text \<open>The half-filled node below which the second part of \<^verbatim>\<open>pop\<close> looks.\<close>

lemma part_child_inv:
  assumes inv: "hole_inv d x M k s" and d: "0 < d" and len: "len = length (m_heap s)"
    and full: "len \<le> k * d + d" and some: "k * d + d + 1 - d < len"
  shows "hole_inv d x M (part_child (k * d + d + 1 - d) len s) (place k (m_heap s ! part_child (k * d + d + 1 - d) len s) s)"
    and "len \<le> part_child (k * d + d + 1 - d) len s * d + 1"
    and "part_child (k * d + d + 1 - d) len s < len"
proof -
  let ?c = "Suc (k * d)"
  let ?m = "part_child ?c len s"
  have c: "k * d + d + 1 - d = ?c" by simp
  have "(\<forall>i \<in> set [Suc ?c..<len]. val_at s i \<le> val_at s ?m) \<and> val_at s ?c \<le> val_at s ?m \<and> ?m \<in> insert ?c (set [Suc ?c..<len])"
    unfolding part_child_def by (rule foldl_argmax)
  note best = this
  have max: "val_at s i \<le> val_at s ?m" if "k * d < i" "i < len" for i
  proof (cases "i = ?c")
    case False
    with that have "i \<in> set [Suc ?c..<len]" by auto
    with best show ?thesis by blast
  qed (use best in simp)
  have m: "k * d < ?m" "?m < len" using best some by auto
  have m': "?m < length (m_heap s)" "0 < ?m" "parent d ?m = k"
    using m len full children [OF d, of ?m k] by auto
  show "hole_inv d x M (part_child (k * d + d + 1 - d) len s) (place k (m_heap s ! part_child (k * d + d + 1 - d) len s) s)"
    unfolding c by (rule hole_inv_move [OF inv m']) (use max len children [OF d] in blast)
  show "part_child (k * d + d + 1 - d) len s < len" unfolding c by (rule m)
  have "k * d + d \<le> ?m * d" using m(1) d
    by (metis Suc_le_eq add.commute div_le_dividend le_trans m'(3) mult_Suc mult_le_mono1 not_less_eq_eq parent_less m'(2))
  with full show "len \<le> part_child (k * d + d + 1 - d) len s * d + 1" unfolding c by simp
qed

text \<open>The last node fills the hole, or the hole is the last position.\<close>

lemma mset_fill_last:
  assumes "k < length xs"
  shows "mset (butlast (xs[k := last xs])) = mset (xs[k := x]) - {#x#}"
proof -
  let ?n = "length xs - 1" and ?ys = "xs[k := x]"
  have ne: "xs \<noteq> []" and n: "?n < length xs" using assms by auto
  have "butlast (xs[k := last xs]) @ [x] = ?ys[k := ?ys ! ?n, ?n := ?ys ! k]"
  proof (rule nth_equalityI)
    fix i assume "i < length (butlast (xs[k := last xs]) @ [x])"
    then show "(butlast (xs[k := last xs]) @ [x]) ! i = ?ys[k := ?ys ! ?n, ?n := ?ys ! k] ! i"
      using assms ne n by (auto simp: nth_append nth_butlast nth_list_update last_conv_nth)
  qed (use assms in simp)
  then have "mset (butlast (xs[k := last xs]) @ [x]) = mset ?ys"
    using mset_swap [of ?n ?ys k] assms n by simp
  then have "mset ?ys = add_mset x (mset (butlast (xs[k := last xs])))" by simp
  then show ?thesis by simp
qed

lemma vals_butlast: "vals (s\<lparr>m_nodes := ns, m_heap := butlast h\<rparr>) = butlast (map (m_value s) h)"
  by (simp add: vals_def map_butlast)

lemma hole_last_inv:
  assumes inv: "hole_inv d x M k s" and k: "k = length (m_heap s) - 1"
  shows "dheap_inv d (s\<lparr>m_nodes := ns, m_heap := butlast (m_heap s)\<rparr>) \<longleftrightarrow> mset ns = M - {#x#}"
    and "mset (butlast (m_heap s)) = M - {#x#}"
proof -
  let ?h = "m_heap s"
  have len: "k < length ?h" and M: "mset (?h[k := x]) = M" and dist: "distinct (?h[k := x])"
    using inv by (auto simp: hole_inv_def)
  have bl: "butlast (?h[k := y]) = butlast ?h" for y
    using k by (simp add: butlast_list_update)
  show m: "mset (butlast ?h) = M - {#x#}"
    using mset_fill_last [OF len, of x] M by (simp add: bl)
  have "distinct (butlast ?h)" using distinct_butlast [OF dist] by (simp add: bl)
  moreover have "indexed_except None (s\<lparr>m_nodes := ns, m_heap := butlast ?h\<rparr>)"
    using inv k by (auto simp: hole_inv_def indexed_except_def nth_butlast)
  moreover have "heap_ordered d (butlast (vals s))"
    unfolding heap_ordered_def
  proof (intro allI impI)
    fix i assume i: "0 < i" "i < length (butlast (vals s))"
    have p: "parent d i < i" using i(1) by (rule parent_less)
    then have "vals s ! i \<le> vals s ! parent d i"
      using inv i k unfolding hole_inv_def heap_hole_def by (metis diff_less length_butlast length_vals
          less_irrefl less_trans)
    with i p show "butlast (vals s) ! i \<le> butlast (vals s) ! parent d i" by (simp add: nth_butlast)
  qed
  ultimately show "dheap_inv d (s\<lparr>m_nodes := ns, m_heap := butlast ?h\<rparr>) \<longleftrightarrow> mset ns = M - {#x#}"
    using m by (simp add: dheap_inv_def vals_butlast) (simp add: vals_def map_butlast)
qed

lemma hole_fill_inv:
  assumes inv: "hole_inv d x M k s" and k: "k \<noteq> length (m_heap s) - 1" "0 < k"
    and leaf: "\<And>i. 0 < i \<Longrightarrow> i < length (m_heap s) \<Longrightarrow> parent d i \<noteq> k"
    and t: "t = siftup_loop d k (last (m_heap s)) (place k (last (m_heap s)) s)"
  shows "mset ns = M - {#x#} \<Longrightarrow> dheap_inv d (t\<lparr>m_nodes := ns, m_heap := butlast (m_heap t)\<rparr>)"
    and "mset (butlast (m_heap t)) = M - {#x#}" and "m_nodes t = m_nodes s" and "m_value t = m_value s"
proof -
  let ?l = "last (m_heap s)"
  define h where "h = butlast ((m_heap s)[k := ?l])"
  define u where "u = (place k ?l s)\<lparr>m_heap := h\<rparr>"
  have len: "k < length (m_heap s)" "length h = length (m_heap s) - 1"
    and ne: "m_heap s \<noteq> []" using inv by (auto simp: hole_inv_def h_def)
  with k have kh: "k < length h" by simp
  have whole: "(m_heap s)[k := ?l] = h @ [?l]"
    using ne k len by (simp add: h_def) (metis append_butlast_last_id butlast_list_update last_list_update length_list_update list_update_nonempty)
  have mh: "mset h = M - {#x#}"
    using mset_fill_last [OF len(1), of x] inv by (simp add: h_def hole_inv_def)
  have at: "h ! i = (if i = k then ?l else m_heap s ! i)" if "i < length h" for i
    using that len by (auto simp: h_def nth_butlast nth_list_update)
  have last: "(filled k x s) ! (length (m_heap s) - 1) = ?l"
    using k ne by (simp add: last_conv_nth nth_list_update)
  have distx: "distinct (filled k x s)" using inv by (simp add: hole_inv_def)
  have "x \<in># M" using inv set_update_memI [OF len(1), of x] by (auto simp: hole_inv_def)
  have disth: "distinct h"
  proof -
    have "distinct (h @ [x])"
      using mh \<open>x \<in># M\<close> distx inv mset_eq_imp_distinct_iff [of "h @ [x]" "filled k x s"]
      by (simp add: hole_inv_def)
    then show ?thesis by simp
  qed
  have ne_l: "m_heap s ! i \<noteq> ?l" if "i < length h" "i \<noteq> k" for i
    using distx that len last nth_eq_iff_index_eq [of "filled k x s" i "length (m_heap s) - 1"] by simp
  have idx: "indexed_except (Some k) u"
    using inv len ne_l by (auto simp: u_def indexed_except_def hole_inv_def at)
  have ab: "heap_above d k (vals u)"
  proof -
    have "heap_above d k ((vals s)[k := m_value s ?l])"
      by (rule heap_hole_fill) (use inv leaf in \<open>auto simp: hole_inv_def\<close>)
    then have "heap_above d k (butlast ((vals s)[k := m_value s ?l]))"
      by (rule heap_above_butlast) (use len in simp)
    moreover have "vals u = butlast ((vals s)[k := m_value s ?l])"
      by (simp add: u_def h_def vals_def map_butlast map_update)
    ultimately show ?thesis by simp
  qed
  have "h[k := ?l] = h" using at [OF kh] list_update_id [of h k] by simp
  then have fill: "filled k ?l u = h" "(vals u)[k := m_value u ?l] = vals u"
    by (simp_all add: u_def vals_def map_update [symmetric])
  define w where "w = siftup_loop d k ?l u"
  have w: "m_value w = m_value s" "m_nodes w = m_nodes s" "mset (m_heap w) = mset h"
    "indexed_except None w" "heap_ordered d (vals w)"
    unfolding w_def using siftup_loop_inv [of k u d ?l] kh ab disth idx fill by (simp_all add: u_def)
  have "place k ?l s = (place k ?l s)\<lparr>m_heap := h @ [?l]\<rparr>" using whole by (simp add: place_def)
  then have tw: "t = w\<lparr>m_heap := m_heap w @ [?l]\<rparr>"
    using siftup_loop_append [OF kh, where d = d and ptr = ?l and s = "place k ?l s" and xs = "[?l]"]
    by (simp add: t w_def u_def Let_def)
  show "mset (butlast (m_heap t)) = M - {#x#}" "m_nodes t = m_nodes s" "m_value t = m_value s"
    using tw w mh by simp_all
  assume ns: "mset ns = M - {#x#}"
  have "distinct (m_heap w)" using w(3) disth mset_eq_imp_distinct_iff by blast
  with w mh ns show "dheap_inv d (t\<lparr>m_nodes := ns, m_heap := butlast (m_heap t)\<rparr>)"
    by (simp add: tw dheap_inv_def indexed_except_def vals_def)
qed

lemma no_children:
  assumes "0 < d" and "len \<le> k * d + 1" and "0 < i" and "i < len"
  shows "parent d i \<noteq> k"
  using children [OF assms(1), of i k] assms by auto

text \<open>The two ways the hole is closed, together.\<close>

lemma hole_close:
  assumes inv: "hole_inv d x M k s" and d: "0 < d" and leaf: "length (m_heap s) \<le> k * d + 1"
    and nodes: "mset (m_nodes s) = M" and dist: "distinct (m_nodes s)"
  shows "let t = (if k \<noteq> length (m_heap s) - 1
                  then let s = place k (m_heap s ! (length (m_heap s) - 1)) s
                       in siftup d k (m_heap s ! k) s
                  else s);
             t = t\<lparr>m_nodes := remove1 x (m_nodes t), m_heap := butlast (m_heap t)\<rparr>
         in dheap_inv d t \<and> mset (m_heap t) = M - {#x#} \<and> m_value t = m_value s"
proof (cases "k = length (m_heap s) - 1")
  case True
  show ?thesis
    using hole_last_inv [OF inv True] nodes True by simp
next
  case False
  have ne: "m_heap s \<noteq> []" and k: "k < length (m_heap s)" using inv by (auto simp: hole_inv_def)
  have "0 < k"
  proof (rule ccontr)
    assume "\<not> 0 < k"
    with leaf k False show False by simp
  qed
  let ?l = "last (m_heap s)"
  define t where "t = siftup_loop d k ?l (place k ?l s)"
  have "\<And>i. 0 < i \<Longrightarrow> i < length (m_heap s) \<Longrightarrow> parent d i \<noteq> k"
    using no_children [OF d leaf] by blast
  note c = hole_fill_inv [OF inv False \<open>0 < k\<close> this t_def]
  have "siftup d k (m_heap (place k ?l s) ! k) (place k ?l s) = t"
    using \<open>0 < k\<close> k by (simp add: siftup_def t_def)
  with False ne nodes c(2-) c(1) [of "remove1 x (m_nodes t)"] show ?thesis
    by (simp add: last_conv_nth Let_def)
qed

lemma dh_pop_inv:
  assumes inv: "dheap_inv d s" and d: "0 < d" and ne: "m_heap s \<noteq> []"
  shows "dheap_inv d (dh_pop d s) \<and> mset (vals (dh_pop d s)) = mset (vals s) - {#dh_top s#}"
proof -
  let ?x = "m_heap s ! 0" and ?M = "mset (m_heap s)" and ?len = "length (m_heap s)"
  have self: "(m_heap s)[0 := ?x] = m_heap s" by (rule list_update_id)
  have "hole_inv d ?x ?M 0 s"
    using inv ne self by (simp add: hole_inv_def dheap_inv_def heap_hole_root indexed_except_def)
  from hole_down_inv [OF this d refl] obtain k t where
    t: "hole_down d ?len 0 s = (k, t)" "hole_inv d ?x ?M k t" "?len \<le> k * d + d" "length (m_heap t) = ?len"
      "m_value t = m_value s" "m_nodes t = m_nodes s"
    by (cases "hole_down d ?len 0 s") auto
  define j u where "j = (if k * d + d + 1 - d < ?len then part_child (k * d + d + 1 - d) ?len t else k)"
    and "u = (if k * d + d + 1 - d < ?len then place k (m_heap t ! j) t else t)"
  have u: "hole_inv d ?x ?M j u" "?len \<le> j * d + 1" "length (m_heap u) = ?len"
      "m_value u = m_value s" "m_nodes u = m_nodes s"
    using part_child_inv [OF t(2) d t(4) [symmetric] t(3)] t by (auto simp: j_def u_def not_less)
  have nodes: "mset (m_nodes u) = ?M" "distinct (m_nodes u)"
    using inv u(5) by (auto simp: dheap_inv_def dest: mset_eq_imp_distinct_iff)
  note close = hole_close [OF u(1) d _ nodes, unfolded u(3)]
  have "dh_pop d s = (let t = (if j \<noteq> ?len - 1
                  then let s = place j (m_heap u ! (?len - 1)) u
                       in siftup d j (m_heap s ! j) s
                  else u)
         in t\<lparr>m_nodes := remove1 ?x (m_nodes t), m_heap := butlast (m_heap t)\<rparr>)"
    by (simp add: dh_pop_def t(1) j_def u_def Let_def)
  with close u(2) have p: "dheap_inv d (dh_pop d s)" "mset (m_heap (dh_pop d s)) = ?M - {#?x#}"
      "m_value (dh_pop d s) = m_value s"
    by (simp_all add: Let_def u(4))
  have "mset (vals (dh_pop d s)) = image_mset (m_value s) (?M - {#?x#})"
    by (simp add: vals_def p(3) p(2))
  also have "\<dots> = mset (vals s) - {#dh_top s#}"
    using ne by (subst image_mset_Diff) (simp_all add: vals_def dh_top_def)
  finally show ?thesis using p(1) by simp
qed

lemma dh_top_max:
  assumes "dheap_inv d s" and "m_heap s \<noteq> []"
  shows "dh_top s \<in># mset (vals s)" and "x \<in># mset (vals s) \<Longrightarrow> x \<le> dh_top s"
proof -
  show "dh_top s \<in># mset (vals s)" using assms(2) by (simp add: dh_top_def vals_def)
  assume "x \<in># mset (vals s)"
  then obtain i where "i < length (vals s)" "x = vals s ! i" by (auto simp: in_set_conv_nth)
  then show "x \<le> dh_top s"
    using heap_ordered_max [of d "vals s" i] assms by (simp add: dheap_inv_def dh_top_def)
qed

section \<open>decrease on a tree without half-filled nodes\<close>

lemma min_child_cases:
  assumes d: "0 < d" and dist: "distinct (filled k p s)" and k: "k < length (m_heap s)"
    and full: "k * d + d < length (m_heap s)"
  obtains (keep) "min_child d (k * d + d) p s = p"
      "\<And>i. 0 < i \<Longrightarrow> parent d i = k \<Longrightarrow> val_at s i \<le> m_value s p"
  | (move) m where "min_child d (k * d + d) p s = m_heap s ! m" "m_heap s ! m \<noteq> p" "m < length (m_heap s)" "0 < m"
      "parent d m = k" "\<And>i. 0 < i \<Longrightarrow> parent d i = k \<Longrightarrow> val_at s i \<le> val_at s m" "m_value s p \<le> val_at s m"
proof -
  let ?mn = "min_child d (k * d + d) p s" and ?xs = "map (\<lambda>j. m_heap s ! (k * d + d - j)) [0..<d]"
  have "foldl (\<lambda>mn i. if m_value s mn < val_at s (k * d + d - i) then m_heap s ! (k * d + d - i) else mn) m js
      = foldl (\<lambda>m x. if m_value s m < m_value s x then x else m) m (map (\<lambda>j. m_heap s ! (k * d + d - j)) js)" for m js
    by (induction js arbitrary: m) simp_all
  then have "?mn = foldl (\<lambda>m x. if m_value s m < m_value s x then x else m) p ?xs"
    by (simp add: min_child_def)
  then have best: "\<forall>x \<in> set ?xs. m_value s x \<le> m_value s ?mn" "m_value s p \<le> m_value s ?mn" "?mn \<in> insert p (set ?xs)"
    using foldl_argmax [of ?xs "m_value s" p] by auto
  have kids: "val_at s i \<le> m_value s ?mn" if "0 < i" "parent d i = k" for i
  proof -
    have "k * d < i" "i \<le> k * d + d" using children [OF d, of i k] that by auto
    then have "m_heap s ! i \<in> set ?xs"
      unfolding set_map by (intro image_eqI [where x = "k * d + d - i"]) auto
    with best(1) show ?thesis by blast
  qed
  show thesis
  proof (cases "?mn = p")
    case True
    with kids keep show thesis by simp
  next
    case False
    with best(3) obtain j where "j < d" "?mn = m_heap s ! (k * d + d - j)" by auto
    moreover define m where "m = k * d + d - j"
    ultimately have m: "k * d < m" "m \<le> k * d + d" "?mn = m_heap s ! m" by auto
    with children [OF d, of m k] have "0 < m" "parent d m = k" by auto
    with m full kids best(2) False show thesis by (intro move [of m]) auto
  qed
qed

lemma heap_hole_keep:
  assumes "heap_hole d k vs" and "k < length vs"
    and "\<And>i. 0 < i \<Longrightarrow> i < length vs \<Longrightarrow> parent d i = k \<Longrightarrow> vs ! i \<le> v"
    and "0 < k \<Longrightarrow> v \<le> vs ! parent d k"
  shows "heap_ordered d (vs[k := v])"
  unfolding heap_ordered_def
proof (intro allI impI)
  fix i assume i: "0 < i" "i < length (vs[k := v])"
  have p: "parent d i < i" using i(1) by (rule parent_less)
  with i assms show "vs[k := v] ! i \<le> vs[k := v] ! parent d i"
    by (cases "i = k"; cases "parent d i = k") (auto simp: heap_hole_def)
qed

lemma decrease_loop_inv:
  assumes "hole_inv d p M k s" and "0 < d" and "len = length (m_heap s)" and "(len - 1) mod d = 0"
    and "0 < k \<Longrightarrow> m_value s p \<le> val_at s (parent d k)" and "len - k < fuel"
  shows "\<exists>k' t. decrease_loop fuel d len k p s = Some (k', t) \<and> hole_inv d p M k' t
    \<and> heap_ordered d ((vals t)[k' := m_value s p]) \<and> m_value t = m_value s \<and> m_nodes t = m_nodes s"
  using assms
proof (induction fuel arbitrary: k s)
  case (Suc fuel)
  have k: "k < length (m_heap s)" and dist: "distinct (filled k p s)" and hole: "heap_hole d k (vals s)"
    and idx: "indexed_except (Some k) s"
    using Suc.prems(1) by (auto simp: hole_inv_def)
  have up: "m_value s p \<le> vals s ! parent d k" if "0 < k"
    using Suc.prems(5) that k parent_less [OF that, of d] by simp
  have stop: "\<exists>k' t. Some (k, s) = Some (k', t) \<and> hole_inv d p M k' t
    \<and> heap_ordered d ((vals t)[k' := m_value s p]) \<and> m_value t = m_value s \<and> m_nodes t = m_nodes s"
    if "\<And>i. 0 < i \<Longrightarrow> i < length (m_heap s) \<Longrightarrow> parent d i = k \<Longrightarrow> val_at s i \<le> m_value s p"
    using heap_hole_keep [OF hole _ _ up] that k Suc.prems(1) by auto
  show ?case
  proof (cases "k * d + d < len")
    case True
    with Suc.prems(3) have full: "k * d + d < length (m_heap s)" by simp
    from \<open>0 < d\<close> dist k full show ?thesis
    proof (cases rule: min_child_cases)
      case keep
      with stop show ?thesis using True by (simp add: Let_def)
    next
      case (move m)
      let ?t = "place k (m_heap s ! m) s"
      have "k < m" using parent_less [OF move(4), of d] move(5) by simp
      then have mi: "m_index s (m_heap s ! m) = m"
        using idx move(3) by (auto simp: indexed_except_def)
      have "hole_inv d p M m ?t" by (rule hole_inv_move [OF Suc.prems(1)]) (use move in auto)
      moreover have "m_value ?t p \<le> val_at ?t (parent d m)" using move k by simp
      ultimately have "\<exists>k' t. decrease_loop fuel d len m p ?t = Some (k', t) \<and> hole_inv d p M k' t
        \<and> heap_ordered d ((vals t)[k' := m_value s p]) \<and> m_value t = m_value s \<and> m_nodes t = m_nodes s"
        using Suc.IH [of m ?t] Suc.prems \<open>k < m\<close> move(3) by simp
      then show ?thesis using True move(1,2) mi by (simp add: Let_def)
    qed
  next
    case False
    have "parent d i \<noteq> k" if "0 < i" "i < length (m_heap s)" for i
    proof
      assume "parent d i = k"
      with children [OF \<open>0 < d\<close>, of i k] that have i: "k * d < i" by simp
      obtain q where q: "len - 1 = q * d" using Suc.prems(4) by (metis mod_0_imp_dvd dvd_def mult.commute)
      with i that Suc.prems(3) have "k * d < q * d" by linarith
      then have "Suc k \<le> q" by simp
      then have "k * d + d \<le> q * d" by (metis add.commute mult_Suc mult_le_mono1)
      with False q k Suc.prems(3) show False by linarith
    qed
    with stop show ?thesis using False by simp
  qed
qed simp

lemma dh_decrease_inv:
  assumes inv: "dheap_inv d s" and d: "0 < d" and p: "p \<in> set (m_heap s)" and v: "v \<le> m_value s p"
    and full: "(length (m_heap s) - 1) mod d = 0"
  shows "\<exists>t. dh_decrease d p v s = Some t \<and> dheap_inv d t
    \<and> mset (vals t) = add_mset v (mset (vals s) - {#m_value s p#})"
proof -
  obtain k where k: "k < length (m_heap s)" "m_heap s ! k = p" using p by (auto simp: in_set_conv_nth)
  with inv have mi: "m_index s p = k" by (auto simp: dheap_inv_def indexed_except_def)
  define u where "u = s\<lparr>m_value := (m_value s)(p := v)\<rparr>"
  have ne: "m_heap s ! i \<noteq> p" if "i < length (m_heap s)" "i \<noteq> k" for i
    using that k inv nth_eq_iff_index_eq [of "m_heap s" i k] by (auto simp: dheap_inv_def)
  have vu: "vals u = (vals s)[k := v]"
    by (rule nth_equalityI) (use k ne in \<open>auto simp: u_def vals_def nth_list_update\<close>)
  have ord: "vals s ! i \<le> vals s ! parent d i" if "0 < i" "i < length (m_heap s)" for i
    using inv that by (simp add: dheap_inv_def heap_ordered_def)
  have self: "filled k p u = m_heap s" using k(2) list_update_id [of "m_heap s" k] by (simp add: u_def)
  have "heap_hole d k (vals u)"
    unfolding heap_hole_def vu
  proof (intro conjI allI impI)
    fix i assume i: "0 < i" "i < length ((vals s)[k := v])" "i \<noteq> k" "parent d i \<noteq> k"
    then show "(vals s)[k := v] ! i \<le> (vals s)[k := v] ! parent d i"
      using ord [of i] by simp
  next
    fix i assume i: "0 < i" "i < length ((vals s)[k := v])" "parent d i = k" "0 < k"
    have "i \<noteq> k" using parent_less [OF i(1), of d] i(3) by simp
    moreover have "parent d k \<noteq> k" using parent_less [OF i(4), of d] by simp
    ultimately show "(vals s)[k := v] ! i \<le> (vals s)[k := v] ! parent d k"
      using ord [of i] ord [of k] i k by (simp add: order.trans)
  qed
  then have hole: "hole_inv d p (mset (m_heap s)) k u"
    using inv k self by (simp add: hole_inv_def dheap_inv_def indexed_except_def u_def)
  have up: "m_value u p \<le> val_at u (parent d k)" if "0 < k"
    using ord [OF that] v k ne [of "parent d k"] parent_less [OF that, of d] that by (simp add: u_def)
  have u: "m_heap u = m_heap s" "m_value u p = v" "m_nodes u = m_nodes s" by (simp_all add: u_def)
  have "\<exists>k' t. decrease_loop (Suc (length (m_heap s))) d (length (m_heap s)) k p u = Some (k', t)
      \<and> hole_inv d p (mset (m_heap s)) k' t \<and> heap_ordered d ((vals t)[k' := v])
      \<and> m_value t = m_value u \<and> m_nodes t = m_nodes s"
    using decrease_loop_inv [OF hole d refl _ up, of "Suc (length (m_heap s))"] full
    by (simp add: u del: decrease_loop.simps)
  then obtain k' t where t: "decrease_loop (Suc (length (m_heap s))) d (length (m_heap s)) k p u = Some (k', t)"
      "hole_inv d p (mset (m_heap s)) k' t" "heap_ordered d ((vals t)[k' := v])"
      "m_value t = m_value u" "m_nodes t = m_nodes s"
    by blast
  define w where "w = place k' p t"
  have res: "dh_decrease d p v s = Some w"
    using t(1) by (simp add: dh_decrease_def mi w_def u_def [symmetric] Let_def del: decrease_loop.simps)
  have mw: "mset (m_heap w) = mset (m_heap s)" "distinct (m_heap w)" and k': "k' < length (m_heap t)"
    and idx: "indexed_except (Some k') t"
    using t(2) by (auto simp: hole_inv_def w_def)
  have "heap_ordered d (vals w)" using t(3,4) by (simp add: w_def vals_place u_def)
  moreover have "indexed_except None w"
    using mw(2) idx k' nth_eq_iff_index_eq [of "filled k' p t" _ k']
    by (fastforce simp: indexed_except_def nth_list_update w_def)
  ultimately have "dheap_inv d w"
    using mw inv t(5) by (simp add: dheap_inv_def w_def)
  moreover have "mset (vals w) = mset (vals u)"
    using mw(1) t(4) by (simp add: vals_def w_def u)
  moreover have "mset (vals u) = add_mset v (mset (vals s) - {#m_value s p#})"
    unfolding vu using k by (simp add: mset_update)
  ultimately show ?thesis using res by simp
qed

section \<open>The heap as a priority queue\<close>

text \<open>An empty heap, and the address the node list gives a new node.\<close>

definition dh_new :: "'a \<Rightarrow> 'a d_heap" where
  "dh_new v = \<lparr>m_nodes = [], m_heap = [], m_index = (\<lambda>_. 0), m_value = (\<lambda>_. v)\<rparr>"

definition new_node :: "'a d_heap \<Rightarrow> addr" where
  "new_node s = Suc (foldr max (m_nodes s) 0)"

definition dh_push_value :: "nat \<Rightarrow> 'a::linorder \<Rightarrow> 'a d_heap \<Rightarrow> 'a d_heap" where
  "dh_push_value d v s = dh_push d (new_node s) v s"

lemma new_node_fresh: "new_node s \<notin> set (m_nodes s)"
proof -
  have "x \<le> foldr max xs 0" if "x \<in> set xs" for x :: nat and xs
    using that by (induction xs) auto
  then have "new_node s \<noteq> x" if "x \<in> set (m_nodes s)" for x
    using that by (fastforce simp: new_node_def)
  then show ?thesis by blast
qed

lemma dheap_nodes: "dheap_inv d s \<Longrightarrow> set (m_nodes s) = set (m_heap s)"
  unfolding dheap_inv_def by (metis set_mset_mset)

lemma vals_empty: "vals s = [] \<longleftrightarrow> m_heap s = []"
  by (simp add: vals_def)

lemma dh_new_inv [simp]: "dheap_inv d (dh_new v)" "vals (dh_new v) = []"
  by (simp_all add: dh_new_def dheap_inv_def vals_def indexed_except_def heap_ordered_def)

interpretation dh: max_queue "dh_new v0" dh_empty "dh_push_value (Suc d)" dh_top "dh_pop (Suc d)"
  "dheap_inv (Suc d)" "\<lambda>s. mset (vals s)" for d v0
proof (unfold_locales, goal_cases)
  case 3
  then show ?case by (auto simp: dh_empty_def dheap_inv_def vals_def)
next
  case (4 q x)
  then show ?case
    using dh_push_inv [of "Suc d" q "new_node q" x] new_node_fresh [of q]
    by (simp add: dh_push_value_def dheap_nodes)
next
  case (5 q x)
  then show ?case
    using dh_push_inv [of "Suc d" q "new_node q" x] new_node_fresh [of q]
    by (simp add: dh_push_value_def dheap_nodes)
next
  case (6 q)
  then show ?case using dh_top_max [of "Suc d" q] by (simp add: vals_empty)
next
  case (7 q)
  then show ?case using dh_pop_inv [of "Suc d" q] by (simp add: vals_empty)
next
  case (8 q)
  then show ?case using dh_pop_inv [of "Suc d" q] by (simp add: vals_empty)
qed simp_all

section \<open>Properties\<close>

text \<open>
  C28: A well-formed d-ary heap that is not empty has a largest value as its \<^verbatim>\<open>top\<close>, and \<^verbatim>\<open>pop\<close>
  leaves a well-formed heap with that one value removed: the hole goes down along largest children,
  through a last node with fewer than d children, and is filled by the last element, sifted up.
\<close>

theorem d_heap_pop:
  assumes "dheap_inv d s" and "0 < d" and "m_heap s \<noteq> []"
  shows "dheap_inv d (dh_pop d s) \<and> mset (vals s) = add_mset (dh_top s) (mset (vals (dh_pop d s)))
    \<and> (\<forall>x \<in># mset (vals s). x \<le> dh_top s)"
  using dh_pop_inv [OF assms] dh_top_max [OF assms(1,3)] by auto

text \<open>A ternary heap built by pushes, as the state the witnesses start from.\<close>

definition sample_heap :: "nat list \<Rightarrow> nat d_heap" where
  "sample_heap xs = fold (dh_push_value 3) xs (dh_new 0)"

lemma sample_heap_inv: "dheap_inv 3 (sample_heap xs)" "mset (vals (sample_heap xs)) = mset xs"
  using dh.push_list [where d = 2 and q = "dh_new 0 :: nat d_heap" and xs = xs]
  by (simp_all add: sample_heap_def numeral_3_eq_3)

theorem d_heap_pop_witness:
  "dheap_inv 3 (dh_pop 3 (sample_heap [4, 1, 7, 3, 9]))
   \<and> mset [4, 1, 7, 3, 9] = add_mset (dh_top (sample_heap [4, 1, 7, 3, 9])) (mset (vals (dh_pop 3 (sample_heap [4, 1, 7, 3, 9]))))"
proof -
  have "m_heap (sample_heap [4, 1, 7, 3, 9]) \<noteq> []"
    using sample_heap_inv(2) [of "[4, 1, 7, 3, 9]"] by (auto simp: vals_def)
  from d_heap_pop [OF sample_heap_inv(1) _ this] show ?thesis
    by (simp only: sample_heap_inv(2) zero_less_numeral simp_thms)
qed

text \<open>
  Pushing any values into an empty d-ary heap and taking the top out until the heap reports
  that it is empty ends, and yields all the values in descending order.
\<close>

theorem d_heap_drain:
  "\<exists>q ys. loop_while (\<lambda>(q, out). \<not> dh_empty q) (\<lambda>(q, out). Some (dh_pop (Suc d) q, out @ [dh_top q]))
     (fold (dh_push_value (Suc d)) xs (dh_new v0), []) = Some (q, ys) \<and> mset ys = mset xs \<and> sorted_wrt (\<ge>) ys"
  by (rule dh.queue_sort)

text \<open>
  \<^verbatim>\<open>change\<close> of a value through its node, up or down, in a tree whose nodes all have no or \<open>d\<close>
  children, returns and leaves a well-formed heap in which just that value is replaced.
\<close>

theorem d_heap_change:
  assumes "dheap_inv d s" and "0 < d" and "p \<in> set (m_heap s)" and "(length (m_heap s) - 1) mod d = 0"
  shows "\<exists>t. dh_change d p v s = Some t \<and> dheap_inv d t
    \<and> mset (vals t) = add_mset v (mset (vals s) - {#m_value s p#})"
  using dh_increase_inv [OF assms(1,3), of v] dh_decrease_inv [OF assms(1,2,3) _ assms(4), of v]
  by (cases "m_value s p < v") (auto simp: dh_change_def)

theorem d_heap_change_witness:
  "\<exists>t. dh_change 3 (m_heap (sample_heap [4, 1, 7, 3]) ! 0) 2 (sample_heap [4, 1, 7, 3]) = Some t \<and> dheap_inv 3 t
    \<and> mset (vals t) = add_mset 2 (mset [4, 1, 7, 3] - {#m_value (sample_heap [4, 1, 7, 3]) (m_heap (sample_heap [4, 1, 7, 3]) ! 0)#})"
proof -
  have len: "length (m_heap (sample_heap [4, 1, 7, 3])) = 4"
    using arg_cong [OF sample_heap_inv(2) [of "[4, 1, 7, 3]"], of size] by simp
  then have "m_heap (sample_heap [4, 1, 7, 3]) ! 0 \<in> set (m_heap (sample_heap [4, 1, 7, 3]))"
    by (intro nth_mem) simp
  from d_heap_change [OF sample_heap_inv(1) _ this, of 2] len show ?thesis
    by (simp only: sample_heap_inv(2)) simp
qed

text \<open>
  \<^verbatim>\<open>decrease\<close> does not look at the children of a node that has fewer than \<open>d\<close> of them: in the
  binary heap with the values 10 and 5, changing 10 to 1 leaves 1 at the top, above 5.
\<close>

theorem d_heap_decrease_partial:
  "let s = fold (dh_push_value 2) [10, 5] (dh_new (0 :: nat))
   in dheap_inv 2 s
      \<and> (\<exists>t. dh_decrease 2 (m_heap s ! 0) 1 s = Some t \<and> vals t = [1, 5] \<and> \<not> dheap_inv 2 t)"
proof -
  let ?s = "fold (dh_push_value 2) [10, 5] (dh_new (0 :: nat))"
  have inv: "dheap_inv 2 ?s"
    using dh.push_list [where d = 1 and q = "dh_new 0 :: nat d_heap" and xs = "[10, 5]"]
    by (simp add: numeral_2_eq_2)
  have s: "?s = \<lparr>m_nodes = [1, 2], m_heap = [1, 2], m_index = (\<lambda>_. 0)(1 := 0, 2 := 1), m_value = (\<lambda>_. 0)(1 := 10, 2 := 5)\<rparr>"
    by (simp add: dh_push_value_def dh_push_def siftup_def siftup_loop.simps [of 2 "Suc 0"] place_def new_node_def dh_new_def Let_def fun_eq_iff)
  have "dh_decrease 2 (m_heap ?s ! 0) 1 ?s = Some (place 0 1 (?s\<lparr>m_value := (m_value ?s)(1 := 1)\<rparr>))"
    unfolding s by (simp add: dh_decrease_def)
  moreover have "vals (place 0 1 (?s\<lparr>m_value := (m_value ?s)(1 := 1)\<rparr>)) = [1, 5]"
    unfolding s by (simp add: vals_def)
  moreover have "\<not> heap_ordered 2 [1, 5 :: nat]"
    by (auto simp: heap_ordered_def parent_def intro!: exI [of _ 1])
  ultimately show ?thesis unfolding Let_def using inv by (auto simp: dheap_inv_def)
qed

text \<open>
  \<^verbatim>\<open>remove\<close> erases the node of the top from the node list, whichever node it is given: removing the
  5 of the heap 10, 5 leaves the 10 in the vector but the node of the 5 in the list.
\<close>

theorem d_heap_remove_node:
  "let s = fold (dh_push_value 2) [10, 5] (dh_new (0 :: nat)); t = dh_remove 2 (m_heap s ! 1) s
   in dheap_inv 2 s \<and> vals t = [10] \<and> map (m_value t) (m_nodes t) = [5] \<and> \<not> dheap_inv 2 t"
proof -
  let ?s = "fold (dh_push_value 2) [10, 5] (dh_new (0 :: nat))"
  have inv: "dheap_inv 2 ?s"
    using dh.push_list [where d = 1 and q = "dh_new 0 :: nat d_heap" and xs = "[10, 5]"]
    by (simp add: numeral_2_eq_2)
  have s: "?s = \<lparr>m_nodes = [1, 2], m_heap = [1, 2], m_index = (\<lambda>_. 0)(1 := 0, 2 := 1), m_value = (\<lambda>_. 0)(1 := 10, 2 := 5)\<rparr>"
    by (simp add: dh_push_value_def dh_push_def siftup_def siftup_loop.simps [of 2 "Suc 0"] place_def new_node_def dh_new_def Let_def fun_eq_iff)
  define t where "t = dh_remove 2 (m_heap ?s ! 1) ?s"
  have t: "m_heap t = [1]" "m_nodes t = [2]" "m_value t = (\<lambda>_. 0)(1 := 10, 2 := 5)"
    unfolding t_def s by (simp_all add: dh_remove_def hole_down.simps siftup_def siftup_loop.simps [of 2 "Suc 0"] place_def)
  then have "vals t = [10]" "map (m_value t) (m_nodes t) = [5]" "\<not> dheap_inv 2 t"
    by (simp_all add: vals_def dheap_inv_def)
  with inv show ?thesis unfolding Let_def t_def by simp
qed

end
