(* ===== verification/File_Context.thy ===== *)
theory File_Context
  imports Prelude
begin

text \<open>
  The interface \<^verbatim>\<open>nstd::file::context\<close> of \<^verbatim>\<open>src/src/nstd/file/context.hpp\<close>: what can be asked of a context, the outcome of running code
  that can leave defined behaviour or not return, the contract a context keeps towards
  \<^verbatim>\<open>nstd::net::io_context\<close>, and \<^verbatim>\<open>io_context::run\<close> on top of it.
\<close>

section \<open>Outcomes\<close>

datatype 'a run = Returns 'a | Undefined | Hangs

fun run_bind :: "'a run \<Rightarrow> ('a \<Rightarrow> 'b run) \<Rightarrow> 'b run" where
  "run_bind (Returns x) f = f x"
| "run_bind Undefined f = Undefined"
| "run_bind Hangs f = Hangs"

lemma run_bind_Returns [simp]: "run_bind m f = Returns y \<longleftrightarrow> (\<exists>x. m = Returns x \<and> f x = Returns y)"
  by (cases m) auto

lemma run_bind_Undefined: "run_bind m f = Undefined \<longleftrightarrow> m = Undefined \<or> (\<exists>x. m = Returns x \<and> f x = Undefined)"
  by (cases m) auto

definition of_loop :: "'a option \<Rightarrow> 'a run" where
  "of_loop r = (case r of None \<Rightarrow> Hangs | Some x \<Rightarrow> Returns x)"

lemma of_loop_simps [simp]:
  "of_loop (Some x) = Returns x" "of_loop None = Hangs"
  "of_loop r = Returns y \<longleftrightarrow> r = Some y" "of_loop r \<noteq> Undefined"
  by (auto simp: of_loop_def split: option.splits)

section \<open>Requests\<close>

text \<open>
  The operations of the interface without the \<^verbatim>\<open>io_base\<close> that receives the result. \<open>'p\<close> stands for pointers the context passes on
  (socket addresses, message headers, buffers, names). A timer has the address of its \<^verbatim>\<open>time_spec\<close> and the two members.
\<close>

datatype 'p request =
    R_cancel addr
  | R_nop
  | R_timer 'p "64 word" "64 word"
  | R_accept int 'p 'p int
  | R_connect int 'p int
  | R_sendmsg int 'p int
  | R_recvmsg int 'p int
  | R_read int 'p nat
  | R_write int 'p nat
  | R_open_at int 'p int

text \<open>
  A request that makes sense: it names an open descriptor, its continuation \<open>c\<close> is not one the context uses itself (\<open>own\<close>), and it does
  not cancel itself or the context's own operation.
\<close>

fun sane :: "addr \<Rightarrow> 'p request \<times> addr \<Rightarrow> bool" where
  "sane own (r, c) = (c \<noteq> own \<and>
     (case r of
        R_cancel t \<Rightarrow> t \<noteq> own \<and> t \<noteq> c
      | R_nop \<Rightarrow> True
      | R_timer p sec nsec \<Rightarrow> True
      | R_accept fd p q fl \<Rightarrow> 0 \<le> fd
      | R_connect fd p n \<Rightarrow> 0 \<le> fd
      | R_sendmsg fd p fl \<Rightarrow> 0 \<le> fd
      | R_recvmsg fd p fl \<Rightarrow> 0 \<le> fd
      | R_read fd p n \<Rightarrow> 0 \<le> fd
      | R_write fd p n \<Rightarrow> 0 \<le> fd
      | R_open_at fd p fl \<Rightarrow> True))"

section \<open>Running a context\<close>

text \<open>\<^verbatim>\<open>io_context::run\<close> with \<^verbatim>\<open>run_one\<close> of the context it has; the count is a \<^verbatim>\<open>size_t\<close>.\<close>

fun io_more :: "nat run \<times> 64 word \<times> 's \<Rightarrow> bool" where
  "io_more (rc, cnt, s) = (rc = Returns 1)"

fun io_turn :: "('s \<Rightarrow> (nat \<times> 's) run) \<Rightarrow> nat run \<times> 64 word \<times> 's \<Rightarrow> nat run \<times> 64 word \<times> 's" where
  "io_turn run_one (rc, cnt, s) =
     (case run_one s of
        Returns (n, s') \<Rightarrow> (Returns n, if n = 1 then cnt + 1 else cnt, s')
      | Undefined \<Rightarrow> (Undefined, cnt, s)
      | Hangs \<Rightarrow> (Hangs, cnt, s))"

definition io_run :: "('s \<Rightarrow> (nat \<times> 's) run) \<Rightarrow> 's \<Rightarrow> (64 word \<times> 's) run" where
  "io_run run_one s =
     run_bind (of_loop (loop_while io_more (\<lambda>x. Some (io_turn run_one x)) (Returns 1, 0, s)))
       (\<lambda>(rc, cnt, s). run_bind rc (\<lambda>_. Returns (cnt, s)))"

text \<open>
  What a context promises: while \<open>ready\<close> holds, running one piece of work stays within defined behaviour and keeps \<open>ready\<close> if it did some
  work; what was asked for is always what was delivered and what is still pending; no work is
  done only when nothing is pending or the context gave up, provided its counters and rings did not overflow (\<open>fits\<close>).
\<close>

locale file_context =
  fixes run_one :: "'s \<Rightarrow> (nat \<times> 's) run"
    and ready :: "'s \<Rightarrow> bool"
    and fits gave_up :: "'s \<Rightarrow> bool"
    and asked delivered pending :: "'s \<Rightarrow> addr multiset"
  assumes ready_acct: "ready s \<Longrightarrow> fits s \<Longrightarrow> asked s = delivered s + pending s"
    and defined: "ready s \<Longrightarrow> run_one s \<noteq> Undefined"
    and worked: "ready s \<Longrightarrow> run_one s = Returns (n, s') \<Longrightarrow> n \<noteq> 0 \<Longrightarrow> n = 1 \<and> ready s'"
    and idle: "ready s \<Longrightarrow> run_one s = Returns (0, s') \<Longrightarrow> fits s' \<Longrightarrow>
      asked s' = delivered s' + pending s' \<and> (gave_up s' \<or> pending s' = {#})"
begin

lemma run_loop_inv:
  assumes "ready s"
    and "loop_while io_more (\<lambda>x. Some (io_turn run_one x)) (Returns 1, cnt, s) = Some (rc, cnt', s')"
  shows "rc \<noteq> Undefined \<and> (\<forall>n. rc = Returns n \<longrightarrow> fits s' \<longrightarrow> asked s' = delivered s' + pending s' \<and> (gave_up s' \<or> pending s' = {#}))"
proof -
  let ?I = "\<lambda>(rc, cnt, s). rc \<noteq> Undefined \<and> (rc = Returns (1::nat) \<longrightarrow> ready s) \<and>
     (\<forall>n. rc = Returns n \<longrightarrow> n = 1 \<or> \<not> fits s \<or> asked s = delivered s + pending s \<and> (gave_up s \<or> pending s = {#}))"
  have "?I (rc, cnt', s') \<and> \<not> io_more (rc, cnt', s')"
  proof (rule loop_while_partial [OF assms(2), where I = ?I], goal_cases)
    case 1
    then show ?case using assms(1) by simp
  next
    case (2 a b)
    obtain rc0 c0 s0 where a: "a = (rc0, c0, s0)" by (cases a)
    with 2 have r: "ready s0" by simp
    have d: "run_one s0 \<noteq> Undefined" by (rule defined [OF r])
    show ?case
    proof (cases "run_one s0")
      case (Returns p)
      obtain n s1 where p: "p = (n, s1)" by (cases p)
      then have ret: "run_one s0 = Returns (n, s1)" using Returns by simp
      then show ?thesis
        using worked [OF r ret] idle [OF r, of s1] 2(3) a by (cases "n = 0") auto
    qed (use d 2(3) a in auto)
  qed
  then show ?thesis by auto
qed

lemma run_complete:
  assumes "ready s" and "io_run run_one s = Returns (cnt, s')" and "fits s'"
  shows "asked s' = delivered s' + pending s' \<and> (gave_up s' \<or> pending s' = {#})"
  using assms(2,3) run_loop_inv [OF assms(1), of 0] by (auto simp: io_run_def)

lemma run_defined:
  assumes "ready s"
  shows "io_run run_one s \<noteq> Undefined"
  using run_loop_inv [OF assms, of 0] by (auto simp: io_run_def run_bind_Undefined)

end

end
