(* ===== verification/Poll_Context.thy ===== *)
theory Poll_Context
  imports File_Context
begin

text \<open>
  \<^verbatim>\<open>poll_context\<close> of \<^verbatim>\<open>src/src/nstd/file/poll_context.{hpp,cpp}\<close>: the list of outstanding operations with the self-pipe, the vector
  for \<^verbatim>\<open>poll\<close> with the position in it, the timers, and the loop of \<^verbatim>\<open>do_run_one\<close>.

  A continuation may ask the context for more work while it gets its result, and that work can complete
  at once and call the next continuation. \<^verbatim>\<open>perform\<close> and \<^verbatim>\<open>run_agenda\<close> follow these nested calls with the list of what is left to do. The system
  calls, the clock, \<^verbatim>\<open>errno\<close> and what continuations do are parameters.
\<close>

unbundle bit_operations_syntax

section \<open>Model\<close>

text \<open>Error numbers and flags as on Linux.\<close>

definition "EINTR = (4::int)"
definition "EAGAIN = (11::int)"
definition "EINVAL = (22::int)"
definition "ENONET = (64::int)"
definition "EPROTO = (71::int)"
definition "ENOPROTOOPT = (92::int)"
definition "EOPNOTSUPP = (95::int)"
definition "ENETDOWN = (100::int)"
definition "ENETUNREACH = (101::int)"
definition "EHOSTDOWN = (112::int)"
definition "EHOSTUNREACH = (113::int)"
definition "EALREADY = (114::int)"
definition "ECANCELED = (125::int)"

definition POLLIN :: "16 word" where "POLLIN = 1"
definition POLLOUT :: "16 word" where "POLLOUT = 4"

definition MSG_DONTWAIT :: int where "MSG_DONTWAIT = 64"
definition MSG_NOSIGNAL :: int where "MSG_NOSIGNAL = 16384"

datatype 'p syscall =
    S_accept int 'p 'p
  | S_connect int 'p int
  | S_sendmsg int 'p int
  | S_recvmsg int 'p int
  | S_readv int 'p nat
  | S_writev int 'p nat
  | S_openat int 'p int
  | S_set_nonblock int
  | S_read_pipe int
  | S_write_pipe int
  | S_close int

record pollfd =
  fd :: int
  events :: "16 word"
  revents :: "16 word"

text \<open>
  The surroundings, on a world \<open>'w\<close>: a system call gives its result; \<open>so_error\<close> is what \<^verbatim>\<open>getsockopt\<close> stores for \<^verbatim>\<open>SO_ERROR\<close>; \<open>sys_poll\<close> gives the result
  and the \<^verbatim>\<open>revents\<close> of each entry; \<open>handler c rc\<close> is \<^verbatim>\<open>do_result\<close> of the continuation \<open>c\<close>, with the requests it makes.
\<close>

record ('p, 'w) poll_env =
  sys :: "'p syscall \<Rightarrow> 'w \<Rightarrow> int \<times> 'w"
  so_error :: "int \<Rightarrow> 'w \<Rightarrow> int \<times> 'w"
  sys_poll :: "pollfd list \<Rightarrow> int \<Rightarrow> 'w \<Rightarrow> int \<times> (nat \<Rightarrow> 16 word) \<times> 'w"
  errno :: "'w \<Rightarrow> int"
  set_errno :: "int \<Rightarrow> 'w \<Rightarrow> 'w"
  clock :: "'w \<Rightarrow> int \<times> 'w"
  handler :: "addr \<Rightarrow> int \<Rightarrow> 'w \<Rightarrow> ('p request \<times> addr) list \<times> 'w"

text \<open>The lambda expressions of the sources, with what they capture besides the continuation.\<close>

datatype 'p closure =
    Wake
  | Nop_op
  | Cancel_op addr
  | Accept_op int 'p 'p
  | Connect_op int
  | Sendmsg_op int 'p int
  | Recvmsg_op int 'p int
  | Read_op int 'p nat
  | Write_op int 'p nat

text \<open>\<open>node\<close> is the identity of the list node, which an iterator refers to.\<close>

record 'p operation =
  node :: nat
  d_fd :: int
  d_events :: "16 word"
  d_operation :: "'p closure"
  d_id :: addr

record timer_event =
  d_expiry :: int
  d_continuation :: addr

text \<open>
  \<^verbatim>\<open>d_next_poll\<close> is a position in \<^verbatim>\<open>d_poll\<close>, or \<^const>\<open>None\<close> for an iterator that is no longer valid. The last fields are not in
  the code: the world, what was asked and delivered so far, and the next unused node.
\<close>

record ('p, 'w) poll_context =
  d_completion :: addr
  d_poll :: "pollfd list"
  d_next_poll :: "nat option"
  d_outstanding :: "'p operation list"
  d_timers :: "timer_event list"
  d_pipe :: "int \<times> int"
  world :: 'w
  asked :: "addr list"
  delivered :: "(addr \<times> int) list"
  fresh :: nat

subsection \<open>Timers\<close>

text \<open>
  The priority queue orders by \<^verbatim>\<open>operator<\<close>, which compares the other way round, so \<^verbatim>\<open>top\<close> is an event with the earliest expiry. The
  library leaves open which one of several; here it is the one inserted first.
\<close>

definition timer_less :: "timer_event \<Rightarrow> timer_event \<Rightarrow> bool" where
  "timer_less a b = (d_expiry b < d_expiry a)"

fun timer_top :: "timer_event list \<Rightarrow> timer_event" where
  "timer_top [] = \<lparr>d_expiry = 0, d_continuation = 0\<rparr>"
| "timer_top (t # ts) = foldl (\<lambda>a b. if timer_less a b then b else a) t ts"

definition timer_pop :: "timer_event list \<Rightarrow> timer_event list" where
  "timer_pop ts = remove1 (timer_top ts) ts"

subsection \<open>Submitting\<close>

definition submit_io :: "('p, 'w) poll_env \<Rightarrow> int \<Rightarrow> 16 word \<Rightarrow> 'p closure \<Rightarrow> addr \<Rightarrow> ('p, 'w) poll_context \<Rightarrow> ('p, 'w) poll_context" where
  "submit_io E f ev op c s =
     (let o1 = \<lparr>node = fresh s, d_fd = f, d_events = ev, d_operation = op, d_id = c\<rparr>;
          s = s\<lparr>d_outstanding := (if 0 \<le> f then o1 # d_outstanding s else d_outstanding s @ [o1]), fresh := fresh s + 1\<rparr>
      in s\<lparr>world := snd (sys E (S_write_pipe (snd (d_pipe s))) (world s))\<rparr>)"

text \<open>The constructor after \<^verbatim>\<open>pipe\<close> gave the two descriptors.\<close>

definition poll_new :: "('p, 'w) poll_env \<Rightarrow> addr \<Rightarrow> int \<times> int \<Rightarrow> 'w \<Rightarrow> ('p, 'w) poll_context" where
  "poll_new E own pipe w =
     (let w = snd (sys E (S_set_nonblock (fst pipe)) w);
          w = snd (sys E (S_set_nonblock (snd pipe)) w)
      in submit_io E (fst pipe) POLLIN Wake own
           \<lparr>d_completion = own, d_poll = [], d_next_poll = Some 0, d_outstanding = [], d_timers = [],
            d_pipe = pipe, world = w, asked = [], delivered = [], fresh = 0\<rparr>)"

text \<open>The whole constructor, with the result of \<^verbatim>\<open>pipe\<close>: \<open>Inl\<close> is the \<^verbatim>\<open>system_error\<close> it throws. The destructor closes the two descriptors.\<close>

definition poll_ctor :: "('p, 'w) poll_env \<Rightarrow> addr \<Rightarrow> int \<times> int \<times> int \<Rightarrow> 'w \<Rightarrow> int + ('p, 'w) poll_context" where
  "poll_ctor E own r w = (if fst r < 0 then Inl (errno E w) else Inr (poll_new E own (snd r) w))"

definition poll_dtor :: "('p, 'w) poll_env \<Rightarrow> ('p, 'w) poll_context \<Rightarrow> 'w" where
  "poll_dtor E s = snd (sys E (S_close (snd (d_pipe s))) (snd (sys E (S_close (fst (d_pipe s))) (world s))))"

text \<open>
  The common form of the calls: \<open>Some rc\<close> is a result for the continuation with the closure returning true, \<^const>\<open>None\<close> is the closure
  returning false. \<^verbatim>\<open>EWOULDBLOCK\<close> is \<^verbatim>\<open>EAGAIN\<close>, so its case label is the one for 0.
\<close>

definition finish_call :: "('p, 'w) poll_env \<Rightarrow> int list \<Rightarrow> int \<times> 'w \<Rightarrow> int option \<times> 'w" where
  "finish_call E again r =
     (let (rc, w) = r in
      if 0 \<le> rc then (Some rc, w)
      else if errno E w \<in> set again then (None, w)
      else (Some (- errno E w), w))"

fun attempt :: "('p, 'w) poll_env \<Rightarrow> int \<Rightarrow> 'p closure \<Rightarrow> 'w \<Rightarrow> int option \<times> 'w" where
  "attempt E pipe_in Wake w = (None, snd (sys E (S_read_pipe pipe_in) w))"
| "attempt E pipe_in Nop_op w = (Some 0, w)"
| "attempt E pipe_in (Cancel_op t) w = (None, w)"
| "attempt E pipe_in (Accept_op f addr len) w =
     finish_call E [EINTR, EAGAIN, 0, ENETDOWN, EPROTO, ENOPROTOOPT, EHOSTDOWN, ENONET, EHOSTUNREACH, EOPNOTSUPP, ENETUNREACH]
       (sys E (S_accept f addr len) w)"
| "attempt E pipe_in (Connect_op f) w =
     (let (err, w) = so_error E f w in if err = 0 then (Some 0, w) else (Some (- errno E w), w))"
| "attempt E pipe_in (Sendmsg_op f msg fl) w =
     finish_call E [EAGAIN, 0, EALREADY, EINTR] (sys E (S_sendmsg f msg (fl OR MSG_DONTWAIT OR MSG_NOSIGNAL)) w)"
| "attempt E pipe_in (Recvmsg_op f msg fl) w =
     finish_call E [EAGAIN, 0, EINTR] (sys E (S_recvmsg f msg (fl OR MSG_DONTWAIT)) w)"
| "attempt E pipe_in (Read_op f vec len) w = finish_call E [EAGAIN, 0, EINTR] (sys E (S_readv f vec len) w)"
| "attempt E pipe_in (Write_op f vec len) w = finish_call E [EAGAIN, 0, EINTR] (sys E (S_writev f vec len) w)"

text \<open>What is to be done next: give a result to a continuation, or do what a continuation or a client asked for.\<close>

datatype 'p action = Deliver addr int | Ask "'p request" addr

definition submit :: "('p, 'w) poll_env \<Rightarrow> int \<Rightarrow> 16 word \<Rightarrow> 'p closure \<Rightarrow> addr \<Rightarrow> ('p, 'w) poll_context \<Rightarrow> 'p action list \<times> ('p, 'w) poll_context" where
  "submit E f ev op c s =
     (let (r, w) = attempt E (fst (d_pipe s)) op (world s); s = s\<lparr>world := w\<rparr> in
      case r of
        Some rc \<Rightarrow> ([Deliver c rc], s)
      | None \<Rightarrow> ([], submit_io E f ev op c s))"

definition do_cancel :: "('p, 'w) poll_env \<Rightarrow> addr \<Rightarrow> addr \<Rightarrow> ('p, 'w) poll_context \<Rightarrow> 'p action list \<times> ('p, 'w) poll_context" where
  "do_cancel E t c s = ([], submit_io E (-1) 0 (Cancel_op t) c s)"

definition do_nop :: "('p, 'w) poll_env \<Rightarrow> addr \<Rightarrow> ('p, 'w) poll_context \<Rightarrow> 'p action list \<times> ('p, 'w) poll_context" where
  "do_nop E c s = ([], submit_io E (-1) 0 Nop_op c s)"

text \<open>The offset is computed in 64 bits without sign, the point in time is a signed 64-bit number of nanoseconds.\<close>

definition timer_expiry :: "int \<Rightarrow> 64 word \<Rightarrow> 64 word \<Rightarrow> int" where
  "timer_expiry now sec nsec = sint (word_of_int now + (sec * 1000000000 + nsec))"

definition do_timer :: "('p, 'w) poll_env \<Rightarrow> 64 word \<Rightarrow> 64 word \<Rightarrow> addr \<Rightarrow> ('p, 'w) poll_context \<Rightarrow> 'p action list \<times> ('p, 'w) poll_context" where
  "do_timer E sec nsec c s =
     (let (now, w) = clock E (world s)
      in ([], s\<lparr>d_timers := d_timers s @ [\<lparr>d_expiry = timer_expiry now sec nsec, d_continuation = c\<rparr>], world := w\<rparr>))"

definition do_accept :: "('p, 'w) poll_env \<Rightarrow> int \<Rightarrow> 'p \<Rightarrow> 'p \<Rightarrow> addr \<Rightarrow> ('p, 'w) poll_context \<Rightarrow> 'p action list \<times> ('p, 'w) poll_context" where
  "do_accept E f addr len c s = ([], submit_io E f POLLIN (Accept_op f addr len) c s)"

definition do_connect :: "('p, 'w) poll_env \<Rightarrow> int \<Rightarrow> 'p \<Rightarrow> int \<Rightarrow> addr \<Rightarrow> ('p, 'w) poll_context \<Rightarrow> 'p action list \<times> ('p, 'w) poll_context" where
  "do_connect E f addr len c s =
     (let w = snd (sys E (S_set_nonblock f) (world s));
          (rc, w) = sys E (S_connect f addr len) w;
          s = s\<lparr>world := w\<rparr>
      in if 0 = rc then ([Deliver c 0], s)
         else ([], submit_io E f (POLLIN OR POLLOUT) (Connect_op f) c s))"

definition do_sendmsg :: "('p, 'w) poll_env \<Rightarrow> int \<Rightarrow> 'p \<Rightarrow> int \<Rightarrow> addr \<Rightarrow> ('p, 'w) poll_context \<Rightarrow> 'p action list \<times> ('p, 'w) poll_context" where
  "do_sendmsg E f msg fl c s = submit E f POLLOUT (Sendmsg_op f msg fl) c s"

definition do_recvmsg :: "('p, 'w) poll_env \<Rightarrow> int \<Rightarrow> 'p \<Rightarrow> int \<Rightarrow> addr \<Rightarrow> ('p, 'w) poll_context \<Rightarrow> 'p action list \<times> ('p, 'w) poll_context" where
  "do_recvmsg E f msg fl c s = submit E f POLLIN (Recvmsg_op f msg fl) c s"

definition do_read :: "('p, 'w) poll_env \<Rightarrow> int \<Rightarrow> 'p \<Rightarrow> nat \<Rightarrow> addr \<Rightarrow> ('p, 'w) poll_context \<Rightarrow> 'p action list \<times> ('p, 'w) poll_context" where
  "do_read E f vec len c s = submit E f POLLIN (Read_op f vec len) c s"

definition do_write :: "('p, 'w) poll_env \<Rightarrow> int \<Rightarrow> 'p \<Rightarrow> nat \<Rightarrow> addr \<Rightarrow> ('p, 'w) poll_context \<Rightarrow> 'p action list \<times> ('p, 'w) poll_context" where
  "do_write E f vec len c s = submit E f POLLOUT (Write_op f vec len) c s"

definition do_open_at :: "('p, 'w) poll_env \<Rightarrow> int \<Rightarrow> 'p \<Rightarrow> int \<Rightarrow> addr \<Rightarrow> ('p, 'w) poll_context \<Rightarrow> 'p action list \<times> ('p, 'w) poll_context" where
  "do_open_at E f name fl c s =
     (let (rc, w) = sys E (S_openat f name fl) (world s)
      in ([Deliver c (if rc < 0 then - errno E w else rc)], s\<lparr>world := w\<rparr>))"

fun do_request :: "('p, 'w) poll_env \<Rightarrow> 'p request \<Rightarrow> addr \<Rightarrow> ('p, 'w) poll_context \<Rightarrow> 'p action list \<times> ('p, 'w) poll_context" where
  "do_request E (R_cancel t) c s = do_cancel E t c s"
| "do_request E R_nop c s = do_nop E c s"
| "do_request E (R_timer p sec nsec) c s = do_timer E sec nsec c s"
| "do_request E (R_accept f p q fl) c s = do_accept E f p q c s"
| "do_request E (R_connect f p n) c s = do_connect E f p n c s"
| "do_request E (R_sendmsg f p fl) c s = do_sendmsg E f p fl c s"
| "do_request E (R_recvmsg f p fl) c s = do_recvmsg E f p fl c s"
| "do_request E (R_read f p n) c s = do_read E f p n c s"
| "do_request E (R_write f p n) c s = do_write E f p n c s"
| "do_request E (R_open_at f p fl) c s = do_open_at E f p fl c s"

subsection \<open>Calling continuations\<close>

fun perform :: "('p, 'w) poll_env \<Rightarrow> 'p action \<Rightarrow> ('p, 'w) poll_context \<Rightarrow> 'p action list \<times> ('p, 'w) poll_context" where
  "perform E (Deliver c rc) s =
     (let (rs, w) = handler E c rc (world s)
      in (map (\<lambda>(r, c). Ask r c) rs, s\<lparr>world := w, delivered := delivered s @ [(c, rc)]\<rparr>))"
| "perform E (Ask r c) s = do_request E r c (s\<lparr>asked := asked s @ [c]\<rparr>)"

definition run_agenda :: "('p, 'w) poll_env \<Rightarrow> 'p action list \<Rightarrow> ('p, 'w) poll_context \<Rightarrow> ('p, 'w) poll_context run" where
  "run_agenda E todo s =
     run_bind (of_loop (loop_while (\<lambda>(todo, s). todo \<noteq> [])
       (\<lambda>(todo, s). let (new, s) = perform E (hd todo) s in Some (new @ tl todo, s)) (todo, s)))
       (\<lambda>(_, s). Returns s)"

text \<open>\<^verbatim>\<open>c->result(rc, 0)\<close>, and a call of one of the operations from outside.\<close>

definition deliver :: "('p, 'w) poll_env \<Rightarrow> addr \<Rightarrow> int \<Rightarrow> ('p, 'w) poll_context \<Rightarrow> ('p, 'w) poll_context run" where
  "deliver E c rc s = run_agenda E [Deliver c rc] s"

definition ask :: "('p, 'w) poll_env \<Rightarrow> 'p request \<Rightarrow> addr \<Rightarrow> ('p, 'w) poll_context \<Rightarrow> ('p, 'w) poll_context run" where
  "ask E r c s = run_agenda E [Ask r c] s"

text \<open>\<^verbatim>\<open>erase\<close> of an iterator: without its node in the list it is not valid.\<close>

definition erase :: "nat \<Rightarrow> ('p, 'w) poll_context \<Rightarrow> ('p, 'w) poll_context run" where
  "erase n s =
     (if n \<in> node ` set (d_outstanding s)
      then Returns (s\<lparr>d_outstanding := filter (\<lambda>op. node op \<noteq> n) (d_outstanding s)\<rparr>)
      else Undefined)"

text \<open>Calling a closure; the closure of \<^verbatim>\<open>do_cancel\<close> works on the list.\<close>

definition call_cancel :: "('p, 'w) poll_env \<Rightarrow> addr \<Rightarrow> addr \<Rightarrow> ('p, 'w) poll_context \<Rightarrow> ('p, 'w) poll_context run" where
  "call_cancel E t c s =
     (case find (\<lambda>op. d_id op = t) (d_outstanding s) of
        None \<Rightarrow> deliver E c (-1) s
      | Some it \<Rightarrow>
          run_bind (deliver E c 0 s) (\<lambda>s.
          run_bind (deliver E (d_id it) (- ECANCELED) s) (\<lambda>s.
          erase (node it) s)))"

definition call :: "('p, 'w) poll_env \<Rightarrow> 'p operation \<Rightarrow> ('p, 'w) poll_context \<Rightarrow> (bool \<times> ('p, 'w) poll_context) run" where
  "call E op s =
     (case d_operation op of
        Cancel_op t \<Rightarrow> run_bind (call_cancel E t (d_id op) s) (\<lambda>s. Returns (True, s))
      | f \<Rightarrow>
          (let (r, w) = attempt E (fst (d_pipe s)) f (world s); s = s\<lparr>world := w\<rparr> in
           case r of
             None \<Rightarrow> Returns (False, s)
           | Some rc \<Rightarrow> run_bind (deliver E (d_id op) rc s) (\<lambda>s. Returns (True, s))))"

subsection \<open>Running\<close>

definition handle_timer :: "('p, 'w) poll_env \<Rightarrow> ('p, 'w) poll_context \<Rightarrow> (nat \<times> ('p, 'w) poll_context) run" where
  "handle_timer E s =
     (if d_timers s = [] then Returns (0, s)
      else
        let (now, w) = clock E (world s); s = s\<lparr>world := w\<rparr> in
        if d_expiry (timer_top (d_timers s)) \<le> now
        then run_bind (deliver E (d_continuation (timer_top (d_timers s))) 0 (s\<lparr>d_timers := timer_pop (d_timers s)\<rparr>))
               (\<lambda>s. Returns (1, s))
        else Returns (0, s))"

definition handle_scheduled :: "('p, 'w) poll_env \<Rightarrow> ('p, 'w) poll_context \<Rightarrow> (nat \<times> ('p, 'w) poll_context) run" where
  "handle_scheduled E s =
     (if d_outstanding s \<noteq> [] \<and> d_fd (last (d_outstanding s)) = -1
      then
        let it = last (d_outstanding s) in
        run_bind (call E it s) (\<lambda>(_, s).
        run_bind (erase (node it) s) (\<lambda>s.
        Returns (1, s)))
      else Returns (0, s))"

text \<open>
  The inner loop of \<^verbatim>\<open>handle_io\<close> for the entry \<open>p\<close>: \<open>pre\<close> are the operations before \<^verbatim>\<open>rit\<close>. The operation is out of the list while its closure runs and
  goes back to its place if it is not done; the result says whether one was.
\<close>

fun handle_ops :: "('p, 'w) poll_env \<Rightarrow> pollfd \<Rightarrow> 'p operation list \<Rightarrow> 'p operation list \<Rightarrow> ('p, 'w) poll_context \<Rightarrow> (bool \<times> ('p, 'w) poll_context) run" where
  "handle_ops E p pre [] s = Returns (False, s)"
| "handle_ops E p pre (op # ops) s =
     (if fd p = d_fd op \<and> revents p AND d_events op \<noteq> 0
      then
        run_bind (call E op (s\<lparr>d_outstanding := pre @ ops\<rparr>)) (\<lambda>(ready, s).
        if ready then Returns (True, s)
        else handle_ops E p (pre @ [op]) ops (s\<lparr>d_outstanding := pre @ op # ops\<rparr>))
      else handle_ops E p (pre @ [op]) ops s)"

text \<open>The outer loop, from position \<open>i\<close> of \<^verbatim>\<open>d_poll\<close> with the entries \<open>ps\<close> from there on.\<close>

fun handle_entries :: "('p, 'w) poll_env \<Rightarrow> nat \<Rightarrow> pollfd list \<Rightarrow> ('p, 'w) poll_context \<Rightarrow> (nat \<times> ('p, 'w) poll_context) run" where
  "handle_entries E i [] s = Returns (0, s\<lparr>d_next_poll := Some i\<rparr>)"
| "handle_entries E i (p # ps) s =
     (if revents p = 0 then handle_entries E (i + 1) ps s
      else
        run_bind (handle_ops E p [] (d_outstanding s) (s\<lparr>d_next_poll := Some i\<rparr>)) (\<lambda>(ready, s).
        if ready then Returns (1, s\<lparr>d_next_poll := map_option Suc (d_next_poll s)\<rparr>)
        else handle_entries E (i + 1) ps s))"

definition handle_io :: "('p, 'w) poll_env \<Rightarrow> ('p, 'w) poll_context \<Rightarrow> (nat \<times> ('p, 'w) poll_context) run" where
  "handle_io E s =
     (case d_next_poll s of
        None \<Rightarrow> Undefined
      | Some i \<Rightarrow> if i \<le> length (d_poll s) then handle_entries E i (drop i (d_poll s)) s else Undefined)"

text \<open>The time to sleep in milliseconds, as an \<^verbatim>\<open>int\<close>; the difference is positive where the division is used.\<close>

definition poll_sleep :: "('p, 'w) poll_env \<Rightarrow> ('p, 'w) poll_context \<Rightarrow> int \<times> 'w" where
  "poll_sleep E s =
     (if d_timers s = [] then (-1, world s)
      else
        let (now, w) = clock E (world s); expiry = d_expiry (timer_top (d_timers s)) in
        (if expiry \<le> now then 0 else sint (word_of_int ((expiry - now) div 1000000) :: 32 word), w))"

definition poll_once :: "('p, 'w) poll_env \<Rightarrow> ('p, 'w) poll_context \<Rightarrow> bool option \<times> ('p, 'w) poll_context" where
  "poll_once E s =
     (let s = s\<lparr>world := set_errno E 0 (world s)\<rparr>;
          (sleep, w) = poll_sleep E s;
          (rc, rev, w) = sys_poll E (d_poll s) sleep w;
          s = s\<lparr>world := w, d_poll := map (\<lambda>(i, p). p\<lparr>revents := rev i\<rparr>) (enumerate 0 (d_poll s))\<rparr>
      in if 0 \<le> rc then (Some True, s\<lparr>d_next_poll := Some 0\<rparr>)
         else if errno E w \<noteq> EINVAL then (Some False, s)
         else (None, s))"

definition poll :: "('p, 'w) poll_env \<Rightarrow> ('p, 'w) poll_context \<Rightarrow> (bool \<times> ('p, 'w) poll_context) run" where
  "poll E s =
     (let s = s\<lparr>d_poll := map (\<lambda>op. \<lparr>fd = d_fd op, events = d_events op, revents = 0\<rparr>) (takeWhile (\<lambda>op. \<not> d_fd op < 0) (d_outstanding s)),
                d_next_poll := None\<rparr>
      in if length (d_poll s) = 1 \<and> d_timers s = [] then Returns (False, s)
         else
           run_bind (of_loop (loop_while (\<lambda>(r, s). r = None) (\<lambda>(r, s). Some (poll_once E s)) (None, s)))
             (\<lambda>(r, s). Returns (r = Some True, s)))"

text \<open>One turn of the loop in \<^verbatim>\<open>do_run_one\<close>; \<^const>\<open>None\<close> is another turn.\<close>

definition run_turn :: "('p, 'w) poll_env \<Rightarrow> ('p, 'w) poll_context \<Rightarrow> (nat option \<times> ('p, 'w) poll_context) run" where
  "run_turn E s =
     run_bind (handle_timer E s) (\<lambda>(n, s).
     if n \<noteq> 0 then Returns (Some 1, s)
     else run_bind (handle_scheduled E s) (\<lambda>(n, s).
     if n \<noteq> 0 then Returns (Some 1, s)
     else run_bind (handle_io E s) (\<lambda>(n, s).
     if n \<noteq> 0 then Returns (Some 1, s)
     else run_bind (poll E s) (\<lambda>(b, s).
     Returns (if b then None else Some 0, s)))))"

definition do_run_one :: "('p, 'w) poll_env \<Rightarrow> ('p, 'w) poll_context \<Rightarrow> (nat \<times> ('p, 'w) poll_context) run" where
  "do_run_one E s =
     run_bind (of_loop (loop_while (\<lambda>r. case r of Returns (None, s) \<Rightarrow> True | _ \<Rightarrow> False)
         (\<lambda>r. Some (run_bind r (\<lambda>(_, s). run_turn E s))) (Returns (None, s))))
       (\<lambda>r. run_bind r (\<lambda>(n, s). Returns (the n, s)))"

end
