(* ===== verification/Poll_Accounting.thy ===== *)
theory Poll_Accounting
  imports Poll_Context
begin

text \<open>
  What the poll context does with what it is asked for: every continuation gets one result in every run that \<^verbatim>\<open>poll\<close> does not end by failing, nothing is pending when
  there is nothing more to run, and the iterator \<^verbatim>\<open>d_next_poll\<close> is valid until then and not afterwards.
\<close>

section \<open>Accounting\<close>

definition pending :: "('p, 'w) poll_context \<Rightarrow> addr multiset" where
  "pending s = image_mset d_id (filter_mset (\<lambda>op. d_operation op \<noteq> Wake) (mset (d_outstanding s))) + image_mset d_continuation (mset (d_timers s))"

text \<open>\<open>acct X s\<close>: what was asked is what was delivered, what is pending and \<open>X\<close>; \<open>D\<close> is what counts twice for the moment.\<close>

definition acct :: "addr multiset \<Rightarrow> addr multiset \<Rightarrow> ('p, 'w) poll_context \<Rightarrow> bool" where
  "acct D X s = (mset (asked s) + D = mset (map fst (delivered s)) + pending s + X)"

definition io_part :: "'p operation \<Rightarrow> bool" where
  "io_part op = (0 \<le> d_fd op \<and> d_operation op \<noteq> Nop_op \<and> (\<forall>t. d_operation op \<noteq> Cancel_op t))"

definition sched_part :: "addr \<Rightarrow> 'p operation \<Rightarrow> bool" where
  "sched_part own op = (d_fd op = -1 \<and> d_events op = 0 \<and> (d_operation op = Nop_op \<or> (\<exists>t. d_operation op = Cancel_op t \<and> t \<noteq> own \<and> t \<noteq> d_id op)))"

text \<open>The list: I/O first, then what is scheduled; the context's own operation is there once and has its own id.\<close>

definition shape :: "('p, 'w) poll_context \<Rightarrow> bool" where
  "shape s = ((\<exists>xs ys. d_outstanding s = xs @ ys \<and> list_all io_part xs \<and> list_all (sched_part (d_completion s)) ys) \<and>
     distinct (map node (d_outstanding s)) \<and> (\<forall>op \<in> set (d_outstanding s). node op < fresh s) \<and>
     length (filter (\<lambda>op. d_operation op = Wake) (d_outstanding s)) = 1 \<and>
     (\<forall>op \<in> set (d_outstanding s). d_operation op = Wake \<longrightarrow> d_id op = d_completion s))"

definition handlers_ok :: "addr \<Rightarrow> ('p, 'w) poll_env \<Rightarrow> bool" where
  "handlers_ok own E = (\<forall>c rc w. list_all (sane own) (fst (handler E c rc w)))"

definition extends :: "('p, 'w) poll_context \<Rightarrow> ('p, 'w) poll_context \<Rightarrow> bool" where
  "extends s s' = ((\<exists>as bs. d_outstanding s' = as @ d_outstanding s @ bs) \<and> d_poll s' = d_poll s \<and> d_next_poll s' = d_next_poll s \<and>
     d_completion s' = d_completion s \<and> d_pipe s' = d_pipe s)"

lemma extendsI:
  "d_outstanding s' = as @ d_outstanding s @ bs \<Longrightarrow> d_poll s' = d_poll s \<Longrightarrow> d_next_poll s' = d_next_poll s \<Longrightarrow>
   d_completion s' = d_completion s \<Longrightarrow> d_pipe s' = d_pipe s \<Longrightarrow> extends s s'"
  by (auto simp: extends_def)

lemma extends_refl [simp]: "extends s s" unfolding extends_def by (metis append_Nil append_Nil2)

lemma extends_trans: "extends s t \<Longrightarrow> extends t u \<Longrightarrow> extends s u"
  unfolding extends_def by (metis append.assoc)

text \<open>\<^const>\<open>submit_io\<close> with a closure that belongs to the part of the list it goes to.\<close>

lemma submit_io_fields [simp]:
  "d_completion (submit_io E f ev op c s) = d_completion s" "asked (submit_io E f ev op c s) = asked s"
  "delivered (submit_io E f ev op c s) = delivered s" "d_timers (submit_io E f ev op c s) = d_timers s"
  by (simp_all add: submit_io_def Let_def)

lemma submit_io_extends: "extends s (submit_io E f ev op c s)"
proof -
  let ?o = "\<lparr>node = fresh s, d_fd = f, d_events = ev, d_operation = op, d_id = c\<rparr>"
  show ?thesis
    by (rule extendsI [where as = "if 0 \<le> f then [?o] else []" and bs = "if 0 \<le> f then [] else [?o]"])
      (simp_all add: submit_io_def Let_def)
qed

lemma submit_io_pending: "op \<noteq> Wake \<Longrightarrow> pending (submit_io E f ev op c s) = add_mset c (pending s)"
  by (simp add: submit_io_def pending_def Let_def)

lemma shape_Cons:
  assumes "shape s" and "io_part op" and "d_operation op \<noteq> Wake" and "node op = fresh s"
  shows "shape (s\<lparr>d_outstanding := op # d_outstanding s, fresh := fresh s + 1, world := w\<rparr>)"
proof -
  from assms(1) obtain xs ys where l: "d_outstanding s = xs @ ys" "list_all io_part xs" "list_all (sched_part (d_completion s)) ys"
    by (auto simp: shape_def)
  then have "op # d_outstanding s = (op # xs) @ ys" "list_all io_part (op # xs)" using assms(2) by simp_all
  with l(3) have "\<exists>xs ys. op # d_outstanding s = xs @ ys \<and> list_all io_part xs \<and> list_all (sched_part (d_completion s)) ys" by blast
  then show ?thesis using assms by (auto simp: shape_def less_Suc_eq)
qed

lemma shape_snoc:
  assumes "shape s" and "sched_part (d_completion s) op" and "node op = fresh s"
  shows "shape (s\<lparr>d_outstanding := d_outstanding s @ [op], fresh := fresh s + 1, world := w\<rparr>)"
proof -
  from assms(1) obtain xs ys where l: "d_outstanding s = xs @ ys" "list_all io_part xs" "list_all (sched_part (d_completion s)) ys"
    by (auto simp: shape_def)
  then have "d_outstanding s @ [op] = xs @ (ys @ [op])" "list_all (sched_part (d_completion s)) (ys @ [op])" using assms(2) by simp_all
  with l(2) have "\<exists>xs ys. d_outstanding s @ [op] = xs @ ys \<and> list_all io_part xs \<and> list_all (sched_part (d_completion s)) ys" by blast
  moreover have "d_operation op \<noteq> Wake" using assms(2) by (auto simp: sched_part_def)
  ultimately show ?thesis using assms by (auto simp: shape_def less_Suc_eq)
qed

lemma submit_io_shape:
  assumes "shape s" and "op \<noteq> Wake"
    and "io_part \<lparr>node = fresh s, d_fd = f, d_events = ev, d_operation = op, d_id = c\<rparr> \<or>
         sched_part (d_completion s) \<lparr>node = fresh s, d_fd = f, d_events = ev, d_operation = op, d_id = c\<rparr>"
  shows "shape (submit_io E f ev op c s)"
proof (cases "0 \<le> f")
  case True
  let ?o = "\<lparr>node = fresh s, d_fd = f, d_events = ev, d_operation = op, d_id = c\<rparr>"
  have "io_part ?o" using assms(3) True by (auto simp: sched_part_def)
  from shape_Cons [OF assms(1) this] assms(2) True show ?thesis by (simp add: submit_io_def Let_def)
next
  case False
  let ?o = "\<lparr>node = fresh s, d_fd = f, d_events = ev, d_operation = op, d_id = c\<rparr>"
  have "sched_part (d_completion s) ?o" using assms(3) False by (auto simp: io_part_def)
  from shape_snoc [OF assms(1) this] False show ?thesis by (simp add: submit_io_def Let_def)
qed

lemma shape_other [simp]:
  "shape (s\<lparr>asked := x\<rparr>) = shape s" "shape (s\<lparr>delivered := y\<rparr>) = shape s" "shape (s\<lparr>d_timers := z\<rparr>) = shape s"
  "shape (s\<lparr>d_poll := p\<rparr>) = shape s" "shape (s\<lparr>d_next_poll := n\<rparr>) = shape s"
  by (simp_all add: shape_def)

lemma pending_other [simp]:
  "pending (s\<lparr>asked := x\<rparr>) = pending s" "pending (s\<lparr>delivered := y\<rparr>) = pending s"
  "pending (s\<lparr>d_poll := p\<rparr>) = pending s" "pending (s\<lparr>d_next_poll := n\<rparr>) = pending s"
  by (simp_all add: pending_def)

lemma world_fields [simp]:
  "shape (s\<lparr>world := w\<rparr>) = shape s" "pending (s\<lparr>world := w\<rparr>) = pending s" "extends s (s\<lparr>world := w\<rparr>)"
  "extends (s\<lparr>world := w\<rparr>) t = extends s t"
  by (simp_all add: shape_def pending_def extends_def) (metis append_Nil append_Nil2)

section \<open>Requests and continuations\<close>

lemma submit_fields:
  "submit E f ev op c s = (new, s') \<Longrightarrow> op \<noteq> Wake \<Longrightarrow>
    extends s s' \<and> asked s' = asked s \<and> delivered s' = delivered s \<and>
    (new = [] \<and> pending s' = add_mset c (pending s) \<or> (\<exists>rc. new = [Deliver c rc]) \<and> pending s' = pending s)"
  by (auto simp: submit_def Let_def submit_io_pending split: prod.splits option.splits
      intro: extends_trans [OF _ submit_io_extends])

lemma submit_shape:
  "submit E f ev op c s = (new, s') \<Longrightarrow> op \<noteq> Wake \<Longrightarrow> shape s \<Longrightarrow>
   (\<And>n. io_part \<lparr>node = n, d_fd = f, d_events = ev, d_operation = op, d_id = c\<rparr>) \<Longrightarrow> shape s'"
  by (auto simp: submit_def Let_def split: prod.splits option.splits intro!: submit_io_shape)

lemmas do_defs = do_cancel_def do_nop_def do_timer_def do_accept_def do_connect_def do_sendmsg_def
  do_recvmsg_def do_read_def do_write_def do_open_at_def

lemma do_request_fields:
  "do_request E r c s = (new, s') \<Longrightarrow>
    extends s s' \<and> asked s' = asked s \<and> delivered s' = delivered s \<and>
    (new = [] \<and> pending s' = add_mset c (pending s) \<or> (\<exists>rc. new = [Deliver c rc]) \<and> pending s' = pending s)"
proof (cases r)
  case (R_timer p sec nsec)
  moreover assume "do_request E r c s = (new, s')"
  ultimately show ?thesis
    by (auto simp: do_defs pending_def split: prod.splits intro!: extendsI [where as = "[]" and bs = "[]"])
qed (auto simp: do_defs Let_def submit_io_extends submit_io_pending split: prod.splits if_splits
      dest: submit_fields intro: extends_trans [OF _ submit_io_extends])

lemma do_request_shape:
  assumes "do_request E r c s = (new, s')" and "sane (d_completion s) (r, c)" and "shape s"
  shows "shape s'"
proof (cases r)
  case (R_timer p sec nsec)
  with assms show ?thesis by (auto simp: do_defs split: prod.splits)
qed (use assms in \<open>auto simp: do_defs Let_def io_part_def sched_part_def split: prod.splits if_splits
      intro!: submit_io_shape dest!: submit_shape\<close>)

fun due :: "'p action \<Rightarrow> addr multiset" where
  "due (Deliver c rc) = {#c#}"
| "due (Ask r c) = {#}"

fun action_ok :: "addr \<Rightarrow> 'p action \<Rightarrow> bool" where
  "action_ok own (Deliver c rc) = True"
| "action_ok own (Ask r c) = sane own (r, c)"

definition dues :: "'p action list \<Rightarrow> addr multiset" where
  "dues todo = sum_list (map due todo)"

lemma dues_simps [simp]: "dues [] = {#}" "dues (a # as) = due a + dues as" "dues (as @ bs) = dues as + dues bs"
  by (simp_all add: dues_def)

lemma dues_Ask [simp]: "dues (map (\<lambda>(r, c). Ask r c) rs) = {#}"
  by (induction rs) auto

lemma perform_ok:
  assumes "perform E a s = (new, s')" and "handlers_ok (d_completion s) E" and "action_ok (d_completion s) a"
    and "shape s" and "acct D (X + due a) s"
  shows "shape s' \<and> acct D (X + dues new) s' \<and> extends s s' \<and> list_all (action_ok (d_completion s)) new"
proof (cases a)
  case (Deliver c rc)
  obtain rs w where h: "handler E c rc (world s) = (rs, w)" by fastforce
  have "list_all (sane (d_completion s)) rs" using assms(2) h unfolding handlers_ok_def by (metis fst_conv)
  then have "list_all (action_ok (d_completion s)) (map (\<lambda>(r, c). Ask r c) rs)"
    by (auto simp: list_all_iff)
  then show ?thesis
    using assms(1,4,5) h Deliver
    by (auto simp: acct_def intro: extendsI [where as = "[]" and bs = "[]"])
next
  case (Ask r c)
  let ?s = "s\<lparr>asked := asked s @ [c]\<rparr>"
  have r: "do_request E r c ?s = (new, s')" using assms(1) Ask by simp
  have "extends s ?s" by (rule extendsI [where as = "[]" and bs = "[]"]) simp_all
  then have "extends s s'" using do_request_fields [OF r] by (blast intro: extends_trans)
  moreover have "shape s'"
    using do_request_shape [OF r] assms(3,4) Ask by simp
  ultimately show ?thesis
    using do_request_fields [OF r] assms(5) Ask by (auto simp: acct_def)
qed

lemma run_agenda_ok:
  assumes "run_agenda E todo s = Returns s'" and "handlers_ok (d_completion s) E"
    and "list_all (action_ok (d_completion s)) todo" and "shape s" and "acct D (X + dues todo) s"
  shows "shape s' \<and> acct D X s' \<and> extends s s'"
proof -
  let ?I = "\<lambda>(todo, t). shape t \<and> acct D (X + dues todo) t \<and> extends s t \<and> list_all (action_ok (d_completion s)) todo"
  obtain todo' where l: "loop_while (\<lambda>(todo, s). todo \<noteq> [])
       (\<lambda>(todo, s). let (new, s) = perform E (hd todo) s in Some (new @ tl todo, s)) (todo, s) = Some (todo', s')"
    using assms(1) by (auto simp: run_agenda_def)
  have "?I (todo', s') \<and> \<not> (case (todo', s') of (todo, s) \<Rightarrow> todo \<noteq> [])"
  proof (rule loop_while_partial [OF l, where I = ?I], goal_cases)
    case 1
    then show ?case using assms by simp
  next
    case (2 x y)
    obtain a as t where x: "x = (a # as, t)" using 2 by (cases x) (auto simp: neq_Nil_conv)
    obtain new t' where p: "perform E a t = (new, t')" by fastforce
    have c: "d_completion t = d_completion s" using 2(1) x by (simp add: extends_def)
    have "shape t' \<and> acct D (X + dues as + dues new) t' \<and> extends t t' \<and> list_all (action_ok (d_completion t)) new"
      by (rule perform_ok [OF p]) (use 2(1) x c assms(2) in \<open>auto simp: ac_simps\<close>)
    then show ?case
      using 2 x p c by (auto simp: ac_simps intro: extends_trans)
  qed
  then show ?thesis by auto
qed

lemma deliver_ok:
  assumes "deliver E c rc s = Returns s'" and "handlers_ok (d_completion s) E" and "shape s" and "acct D (add_mset c X) s"
  shows "shape s' \<and> acct D X s' \<and> extends s s'"
  by (rule run_agenda_ok [OF assms(1) [unfolded deliver_def] assms(2) _ assms(3)]) (use assms(4) in simp_all)

lemma run_agenda_defined [simp]: "run_agenda E todo s \<noteq> Undefined"
  by (auto simp: run_agenda_def run_bind_Undefined)

lemma deliver_defined [simp]: "deliver E c rc s \<noteq> Undefined"
  by (simp add: deliver_def)

section \<open>Taking an operation out\<close>

definition keeps :: "('p, 'w) poll_context \<Rightarrow> ('p, 'w) poll_context \<Rightarrow> bool" where
  "keeps s s' = (d_poll s' = d_poll s \<and> d_next_poll s' = d_next_poll s \<and> d_completion s' = d_completion s)"

lemma extends_keeps: "extends s s' \<Longrightarrow> keeps s s'" by (simp add: extends_def keeps_def)

lemma extends_member: "extends s s' \<Longrightarrow> op \<in> set (d_outstanding s) \<Longrightarrow> op \<in> set (d_outstanding s')"
  by (auto simp: extends_def)

lemma shape_node_inj:
  "shape s \<Longrightarrow> op \<in> set (d_outstanding s) \<Longrightarrow> it \<in> set (d_outstanding s) \<Longrightarrow> node op = node it \<longleftrightarrow> op = it"
  by (auto simp: shape_def distinct_map inj_on_def)

lemma shape_remove:
  assumes "shape s" and it: "it \<in> set (d_outstanding s)" "d_operation it \<noteq> Wake"
  shows "shape (s\<lparr>d_outstanding := filter (\<lambda>op. node op \<noteq> node it) (d_outstanding s)\<rparr>)"
proof -
  let ?f = "filter (\<lambda>op. node op \<noteq> node it)"
  from assms(1) obtain xs ys where l: "d_outstanding s = xs @ ys" "list_all io_part xs" "list_all (sched_part (d_completion s)) ys"
    by (auto simp: shape_def)
  then have "?f (d_outstanding s) = ?f xs @ ?f ys" "list_all io_part (?f xs)" "list_all (sched_part (d_completion s)) (?f ys)"
    by (auto simp: list_all_iff)
  then have 1: "\<exists>xs ys. ?f (d_outstanding s) = xs @ ys \<and> list_all io_part xs \<and> list_all (sched_part (d_completion s)) ys" by blast
  have "filter (\<lambda>op. d_operation op = Wake) (?f (d_outstanding s)) = filter (\<lambda>op. d_operation op = Wake) (d_outstanding s)"
    using it shape_node_inj [OF assms(1) _ it(1)] by (auto intro: filter_cong)
  with 1 assms(1) show ?thesis by (auto simp: shape_def intro: distinct_map_filter)
qed

lemma remove_split:
  assumes "shape s" and "d_outstanding s = xs @ it # ys"
  shows "filter (\<lambda>op. node op \<noteq> node it) (d_outstanding s) = xs @ ys"
proof -
  have "distinct (map node (xs @ it # ys))" using assms by (simp add: shape_def)
  then have "node it \<notin> node ` set xs" "node it \<notin> node ` set ys" by auto
  then have "\<forall>op \<in> set xs. node op \<noteq> node it" "\<forall>op \<in> set ys. node op \<noteq> node it" by (metis imageI)+
  then show ?thesis using assms(2) by simp
qed

lemma pending_remove:
  assumes "shape s" and it: "it \<in> set (d_outstanding s)" "d_operation it \<noteq> Wake"
  shows "pending s = add_mset (d_id it) (pending (s\<lparr>d_outstanding := filter (\<lambda>op. node op \<noteq> node it) (d_outstanding s)\<rparr>))"
proof -
  from it(1) obtain xs ys where "d_outstanding s = xs @ it # ys" by (auto simp: in_set_conv_decomp)
  with remove_split [OF assms(1) this] it(2) show ?thesis by (simp add: pending_def)
qed

lemma erase_ok:
  assumes "shape s" and it: "it \<in> set (d_outstanding s)" "d_operation it \<noteq> Wake"
    and "acct (add_mset (d_id it) D) X s"
  shows "\<exists>s'. erase (node it) s = Returns s' \<and> shape s' \<and> acct D X s' \<and> set (d_outstanding s') = set (d_outstanding s) - {it} \<and> keeps s s'"
proof -
  let ?s = "s\<lparr>d_outstanding := filter (\<lambda>op. node op \<noteq> node it) (d_outstanding s)\<rparr>"
  have "set (d_outstanding ?s) = set (d_outstanding s) - {it}"
    using shape_node_inj [OF assms(1) _ it(1)] by auto
  moreover have "acct D X ?s" using assms(4) pending_remove [OF assms(1) it] by (simp add: acct_def)
  ultimately show ?thesis using it shape_remove [OF assms(1) it] by (auto simp: erase_def keeps_def)
qed

section \<open>Closures\<close>

lemma acct_both: "acct D X s \<Longrightarrow> acct (add_mset c D) (add_mset c X) s"
  by (simp add: acct_def)

lemma deliver_twice:
  assumes "deliver E c rc s = Returns s'" and "handlers_ok (d_completion s) E" and "shape s" and "acct D X s"
  shows "shape s' \<and> acct (add_mset c D) X s' \<and> extends s s'"
  by (rule deliver_ok [OF assms(1,2,3)]) (rule acct_both [OF assms(4)])

lemma world_same [simp]: "\<exists>w. s = s\<lparr>world := w\<rparr>"
  by (rule exI [of _ "world s"]) simp

lemma call_cases:
  assumes "call E op s = Returns (b, s')" and "\<And>t. d_operation op \<noteq> Cancel_op t"
  shows "\<not> b \<and> (\<exists>w. s' = s\<lparr>world := w\<rparr>) \<or>
    b \<and> d_operation op \<noteq> Wake \<and> (\<exists>rc w. deliver E (d_id op) rc (s\<lparr>world := w\<rparr>) = Returns s')"
proof (cases "d_operation op")
  case (Cancel_op t)
  with assms(2) [of t] show ?thesis by simp
next
  case Nop_op
  with assms(1) have b: "b" "deliver E (d_id op) 0 s = Returns s'" by (auto simp: call_def)
  have w: "s\<lparr>world := world s\<rparr> = s" by simp
  have "deliver E (d_id op) 0 (s\<lparr>world := world s\<rparr>) = Returns s'" unfolding w by (rule b(2))
  then have "\<exists>rc w. deliver E (d_id op) rc (s\<lparr>world := w\<rparr>) = Returns s'" by blast
  with b Nop_op show ?thesis by simp
qed (use assms(1) in \<open>auto simp: call_def Let_def split: prod.splits option.splits\<close>)

lemma call_defined: "(\<And>t. d_operation op \<noteq> Cancel_op t) \<Longrightarrow> call E op s \<noteq> Undefined"
  by (cases "d_operation op") (auto simp: call_def Let_def run_bind_Undefined split: prod.splits option.splits)

lemma call_cancel_ok:
  assumes "handlers_ok (d_completion s) E" and "shape s" and "acct D X s" and "t \<noteq> d_completion s"
    and it: "it \<in> set (d_outstanding s)" "d_id it \<noteq> t"
  shows "call_cancel E t c s \<noteq> Undefined \<and>
    (call_cancel E t c s = Returns s' \<longrightarrow> shape s' \<and> acct (add_mset c D) X s' \<and> keeps s s' \<and> it \<in> set (d_outstanding s'))"
proof (cases "find (\<lambda>op. d_id op = t) (d_outstanding s)")
  case None
  then show ?thesis
    using deliver_twice [OF _ assms(1,2,3), of c "-1" s'] it(1)
    by (auto simp: call_cancel_def dest: extends_keeps extends_member)
next
  case (Some o2)
  then have o2: "o2 \<in> set (d_outstanding s)" "d_id o2 = t" by (auto simp: find_Some_iff)
  then have nw: "d_operation o2 \<noteq> Wake" using assms(2,4) by (auto simp: shape_def)
  have step: "\<exists>s3. erase (node o2) s2 = Returns s3 \<and> shape s3 \<and> acct (add_mset c D) X s3 \<and> keeps s s3 \<and> it \<in> set (d_outstanding s3)"
    if 1: "deliver E c 0 s = Returns s1" and 2: "deliver E t (- ECANCELED) s1 = Returns s2" for s1 s2
  proof -
    have d1: "shape s1 \<and> acct (add_mset c D) X s1 \<and> extends s s1" by (rule deliver_twice [OF 1 assms(1,2,3)])
    then have "handlers_ok (d_completion s1) E" using assms(1) by (simp add: extends_def)
    from deliver_twice [OF 2 this] d1
    have d2: "shape s2" "acct (add_mset t (add_mset c D)) X s2" "extends s s2" by (auto intro: extends_trans)
    have "o2 \<in> set (d_outstanding s2)" by (rule extends_member [OF d2(3) o2(1)])
    from erase_ok [OF d2(1) this nw, of "add_mset c D" X] d2(2) o2(2)
    obtain s3 where s3: "erase (node o2) s2 = Returns s3" "shape s3" "acct (add_mset c D) X s3"
      "set (d_outstanding s3) = set (d_outstanding s2) - {o2}" "keeps s2 s3" by auto
    moreover have "it \<in> set (d_outstanding s3)" using s3(4) extends_member [OF d2(3) it(1)] it(2) o2(2) by auto
    moreover have "keeps s s3" using s3(5) extends_keeps [OF d2(3)] by (simp add: keeps_def)
    ultimately show ?thesis by blast
  qed
  show ?thesis
    by (auto simp: call_cancel_def Some o2(2) run_bind_Undefined dest!: step)
qed

section \<open>The parts of a turn\<close>

definition booked :: "('p, 'w) poll_env \<Rightarrow> ('p, 'w) poll_context \<Rightarrow> bool" where
  "booked E s = (handlers_ok (d_completion s) E \<and> shape s \<and> acct {#} {#} s)"

lemma acct_other [simp]:
  "acct D X (s\<lparr>world := w\<rparr>) = acct D X s" "acct D X (s\<lparr>d_poll := p\<rparr>) = acct D X s" "acct D X (s\<lparr>d_next_poll := n\<rparr>) = acct D X s"
  by (simp_all add: acct_def)

lemma booked_other [simp]:
  "booked E (s\<lparr>world := w\<rparr>) = booked E s" "booked E (s\<lparr>d_poll := p\<rparr>) = booked E s" "booked E (s\<lparr>d_next_poll := n\<rparr>) = booked E s"
  by (simp_all add: booked_def)

lemma timer_top_member: "ts \<noteq> [] \<Longrightarrow> timer_top ts \<in> set ts"
proof (cases ts)
  case (Cons t us)
  have "foldl (\<lambda>a b. if timer_less a b then b else a) t us \<in> insert t (set us)"
  proof (induction us arbitrary: t)
    case (Cons u us)
    show ?case using Cons [of "if timer_less t u then u else t"] by (auto split: if_splits)
  qed simp
  with Cons show ?thesis by simp
qed simp

lemma handle_timer_ok:
  assumes "booked E s" and "handle_timer E s = Returns (n, s')"
  shows "booked E s' \<and> keeps s s' \<and> (n = 0 \<longrightarrow> (\<exists>w. s' = s\<lparr>world := w\<rparr>)) \<and> n \<le> 1"
proof (cases "n = 0")
  case True
  with assms show ?thesis by (auto simp: handle_timer_def Let_def keeps_def split: prod.splits if_splits)
next
  case False
  let ?t = "timer_top (d_timers s)"
  from False assms(2) obtain w
    where ne: "d_timers s \<noteq> []" and n: "n = 1"
      and d: "deliver E (d_continuation ?t) 0 (s\<lparr>world := w, d_timers := timer_pop (d_timers s)\<rparr>) = Returns s'"
    by (auto simp: handle_timer_def Let_def split: prod.splits if_splits)
  let ?s = "s\<lparr>world := w, d_timers := timer_pop (d_timers s)\<rparr>"
  have "add_mset ?t (mset (timer_pop (d_timers s))) = mset (d_timers s)"
    using timer_top_member [OF ne] by (simp add: timer_pop_def)
  then have "pending s = add_mset (d_continuation ?t) (pending ?s)"
    by (simp add: pending_def flip: \<open>add_mset ?t _ = _\<close>)
  with assms(1) have a: "acct {#} {#d_continuation ?t#} ?s" by (simp add: booked_def acct_def)
  have "shape s' \<and> acct {#} {#} s' \<and> extends ?s s'"
    by (rule deliver_ok [OF d]) (use assms(1) a in \<open>simp_all add: booked_def\<close>)
  with assms(1) n show ?thesis by (auto simp: booked_def extends_def keeps_def)
qed

lemma handle_timer_defined: "handle_timer E s \<noteq> Undefined"
  by (auto simp: handle_timer_def Let_def run_bind_Undefined split: prod.splits)

lemma last_sched:
  assumes "shape s" and "d_outstanding s \<noteq> []" and "d_fd (last (d_outstanding s)) = -1"
  shows "sched_part (d_completion s) (last (d_outstanding s))"
proof -
  from assms(1) obtain xs ys where l: "d_outstanding s = xs @ ys" "list_all io_part xs" "list_all (sched_part (d_completion s)) ys"
    by (auto simp: shape_def)
  have "last (d_outstanding s) \<in> set xs \<union> set ys" using last_in_set [OF assms(2)] by (simp only: l(1) set_append)
  with l assms(3) show ?thesis by (auto simp: list_all_iff io_part_def)
qed

lemma call_sched:
  assumes "booked E s" and "it \<in> set (d_outstanding s)" and "sched_part (d_completion s) it"
  shows "call E it s \<noteq> Undefined \<and>
    (call E it s = Returns (b, s') \<longrightarrow> shape s' \<and> acct {#d_id it#} {#} s' \<and> keeps s s' \<and> it \<in> set (d_outstanding s'))"
proof (cases "d_operation it = Nop_op")
  case True
  have "shape s' \<and> acct {#d_id it#} {#} s' \<and> keeps s s' \<and> it \<in> set (d_outstanding s')"
    if d: "deliver E (d_id it) 0 s = Returns s'"
    using deliver_twice [OF d, of "{#}" "{#}"] assms(1,2) by (auto simp: booked_def dest: extends_keeps extends_member)
  with True show ?thesis by (auto simp: call_def run_bind_Undefined)
next
  case False
  with assms(3) obtain t where t: "d_operation it = Cancel_op t" "t \<noteq> d_completion s" "t \<noteq> d_id it"
    by (auto simp: sched_part_def)
  have "call_cancel E t (d_id it) s \<noteq> Undefined \<and>
    (call_cancel E t (d_id it) s = Returns s' \<longrightarrow> shape s' \<and> acct {#d_id it#} {#} s' \<and> keeps s s' \<and> it \<in> set (d_outstanding s'))"
    by (rule call_cancel_ok) (use assms t in \<open>auto simp: booked_def\<close>)
  with t(1) show ?thesis by (auto simp: call_def run_bind_Undefined)
qed

lemma handle_scheduled_ok:
  assumes "booked E s"
  shows "handle_scheduled E s \<noteq> Undefined \<and>
    (handle_scheduled E s = Returns (n, s') \<longrightarrow> booked E s' \<and> keeps s s' \<and> (n = 0 \<longrightarrow> s' = s) \<and> n \<le> 1)"
proof (cases "d_outstanding s \<noteq> [] \<and> d_fd (last (d_outstanding s)) = -1")
  case True
  let ?it = "last (d_outstanding s)"
  have it: "?it \<in> set (d_outstanding s)" "sched_part (d_completion s) ?it"
    using True last_sched [of s] assms by (auto simp: booked_def)
  have nw: "d_operation ?it \<noteq> Wake" using it(2) by (auto simp: sched_part_def)
  have e: "\<exists>s2. erase (node ?it) s1 = Returns s2 \<and> booked E s2 \<and> keeps s s2" if c: "call E ?it s = Returns (b, s1)" for b s1
  proof -
    have "shape s1" "acct {#d_id ?it#} {#} s1" "keeps s s1" "?it \<in> set (d_outstanding s1)"
      using call_sched [OF assms it, of b s1] c by auto
    with erase_ok [OF this(1) this(4) nw, of "{#}" "{#}"] assms show ?thesis by (auto simp: booked_def keeps_def)
  qed
  show ?thesis
    using True call_sched [OF assms it] by (auto simp: handle_scheduled_def Let_def run_bind_Undefined dest!: e)
next
  case False
  with assms show ?thesis by (auto simp: handle_scheduled_def keeps_def)
qed

lemma shape_parts: "shape s \<Longrightarrow> op \<in> set (d_outstanding s) \<Longrightarrow> io_part op \<or> sched_part (d_completion s) op"
  by (auto simp: shape_def list_all_iff)

lemma shape_no_cancel:
  "shape s \<Longrightarrow> op \<in> set (d_outstanding s) \<Longrightarrow> x AND d_events op \<noteq> 0 \<Longrightarrow> d_operation op \<noteq> Cancel_op t"
  using shape_parts [of s op] by (auto simp: io_part_def sched_part_def)

lemma handle_ops_ok:
  assumes "booked E s" and "d_outstanding s = pre @ ops"
  shows "handle_ops E p pre ops s \<noteq> Undefined \<and>
    (handle_ops E p pre ops s = Returns (b, s') \<longrightarrow> booked E s' \<and> keeps s s' \<and> (\<not> b \<longrightarrow> (\<exists>w. s' = s\<lparr>world := w\<rparr>)))"
  using assms
proof (induction ops arbitrary: pre s)
  case Nil
  then show ?case by (auto simp: keeps_def)
next
  case (Cons op ops)
  note IH = Cons.IH [of _ "pre @ [op]"]
  show ?case
  proof (cases "fd p = d_fd op \<and> revents p AND d_events op \<noteq> 0")
    case False
    then have "handle_ops E p pre (op # ops) s = handle_ops E p (pre @ [op]) ops s" by auto
    then show ?thesis using IH [of s] Cons.prems by simp
  next
    case True
    let ?s = "s\<lparr>d_outstanding := pre @ ops\<rparr>"
    have sh: "shape s" and ac: "acct {#} {#} s" using Cons.prems(1) by (simp_all add: booked_def)
    have nc: "d_operation op \<noteq> Cancel_op t" for t
      using shape_no_cancel [OF sh, of op "revents p" t] True Cons.prems(2) by simp
    have yes: "booked E s1 \<and> keeps s s1" if c: "call E op ?s = Returns (True, s1)" for s1
    proof -
      obtain rc w where nw: "d_operation op \<noteq> Wake" and d: "deliver E (d_id op) rc (?s\<lparr>world := w\<rparr>) = Returns s1"
        using call_cases [OF c nc] by auto
      have m: "op \<in> set (d_outstanding s)" using Cons.prems(2) by simp
      have r: "filter (\<lambda>o2. node o2 \<noteq> node op) (d_outstanding s) = pre @ ops" by (rule remove_split [OF sh Cons.prems(2)])
      have "shape ?s" using shape_remove [OF sh m nw] by (simp add: r)
      moreover have "acct {#} {#d_id op#} ?s" using pending_remove [OF sh m nw] ac by (simp add: r acct_def)
      ultimately have "shape s1 \<and> acct {#} {#} s1 \<and> extends (?s\<lparr>world := w\<rparr>) s1"
        using deliver_ok [OF d, of "{#}" "{#}"] Cons.prems(1) by (simp add: booked_def)
      with Cons.prems(1) show ?thesis by (auto simp: booked_def keeps_def extends_def)
    qed
    have no: "\<exists>w. s1\<lparr>d_outstanding := pre @ op # ops\<rparr> = s\<lparr>world := w\<rparr>" if c: "call E op ?s = Returns (False, s1)" for s1
    proof -
      obtain w where "s1 = ?s\<lparr>world := w\<rparr>" using call_cases [OF c nc] by auto
      then have "s1\<lparr>d_outstanding := pre @ op # ops\<rparr> = s\<lparr>world := w\<rparr>" using Cons.prems(2) by simp
      then show ?thesis by blast
    qed
    have go: "handle_ops E p (pre @ [op]) ops (s\<lparr>world := w\<rparr>) \<noteq> Undefined \<and>
      (handle_ops E p (pre @ [op]) ops (s\<lparr>world := w\<rparr>) = Returns (b, s') \<longrightarrow> booked E s' \<and> keeps s s' \<and> (\<not> b \<longrightarrow> (\<exists>w. s' = s\<lparr>world := w\<rparr>)))" for w
      using IH [of "s\<lparr>world := w\<rparr>"] Cons.prems by (auto simp: keeps_def)
    show ?thesis
    proof (cases "call E op ?s")
      case Undefined
      with call_defined [OF nc] show ?thesis by blast
    next
      case Hangs
      with True show ?thesis by simp
    next
      case (Returns r)
      obtain b1 s1 where r: "r = (b1, s1)" by (cases r)
      show ?thesis
      proof (cases b1)
        case True': True
        then show ?thesis using yes [of s1] Returns r True by auto
      next
        case False
        then obtain w where "s1\<lparr>d_outstanding := pre @ op # ops\<rparr> = s\<lparr>world := w\<rparr>" using no Returns r by auto
        then show ?thesis using go [of w] Returns r True False by simp
      qed
    qed
  qed
qed

lemma handle_entries_ok:
  assumes "booked E s"
  shows "handle_entries E i ps s \<noteq> Undefined \<and>
    (handle_entries E i ps s = Returns (n, s') \<longrightarrow> booked E s' \<and> d_poll s' = d_poll s \<and> d_completion s' = d_completion s \<and>
       (\<exists>j. d_next_poll s' = Some j \<and> j \<le> i + length ps) \<and> n \<le> 1 \<and>
       (n = 0 \<longrightarrow> d_outstanding s' = d_outstanding s \<and> d_timers s' = d_timers s))"
  using assms
proof (induction ps arbitrary: i s)
  case Nil
  then show ?case by auto
next
  case (Cons p ps)
  show ?case
  proof (cases "revents p = 0")
    case True
    then show ?thesis using Cons.IH [OF Cons.prems, of "i + 1"] by auto
  next
    case False
    let ?s = "s\<lparr>d_next_poll := Some i\<rparr>"
    have ops: "handle_ops E p [] (d_outstanding s) ?s \<noteq> Undefined \<and>
      (handle_ops E p [] (d_outstanding s) ?s = Returns (b, s1) \<longrightarrow> booked E s1 \<and> keeps ?s s1 \<and> (\<not> b \<longrightarrow> (\<exists>w. s1 = ?s\<lparr>world := w\<rparr>)))" for b s1
      by (rule handle_ops_ok) (use Cons.prems in simp_all)
    show ?thesis
    proof (cases "handle_ops E p [] (d_outstanding s) ?s")
      case Undefined
      with ops show ?thesis by simp
    next
      case Hangs
      with False show ?thesis by simp
    next
      case (Returns r)
      obtain b s1 where r: "r = (b, s1)" by (cases r)
      show ?thesis
      proof (cases b)
        case True
        then show ?thesis using ops [of True s1] Returns r False by (auto simp: keeps_def)
      next
        case nb: False
        then obtain w where s1: "s1 = s\<lparr>d_next_poll := Some i, world := w\<rparr>" using ops [of False s1] Returns r by auto
        have "handle_entries E i (p # ps) s = handle_entries E (i + 1) ps s1" using Returns r nb False by simp
        then show ?thesis using Cons.IH [of s1 "i + 1"] Cons.prems s1 by auto
      qed
    qed
  qed
qed

definition valid :: "('p, 'w) poll_context \<Rightarrow> bool" where
  "valid s = (\<exists>i. d_next_poll s = Some i \<and> i \<le> length (d_poll s))"

lemma handle_io_ok:
  assumes "booked E s" and "valid s"
  shows "handle_io E s \<noteq> Undefined \<and>
    (handle_io E s = Returns (n, s') \<longrightarrow> booked E s' \<and> valid s' \<and> n \<le> 1 \<and> (n = 0 \<longrightarrow> d_outstanding s' = d_outstanding s \<and> d_timers s' = d_timers s))"
proof -
  from assms(2) obtain i where i: "d_next_poll s = Some i" "i \<le> length (d_poll s)" by (auto simp: valid_def)
  with handle_entries_ok [OF assms(1), of i "drop i (d_poll s)" n s'] show ?thesis
    by (auto simp: handle_io_def valid_def)
qed

text \<open>The last thing that happened was a call of \<^verbatim>\<open>poll\<close> that failed in a way the context gives up for, such as \<^verbatim>\<open>EINTR\<close> or \<^verbatim>\<open>ENOMEM\<close>.\<close>

definition poll_failed :: "('p, 'w) poll_env \<Rightarrow> ('p, 'w) poll_context \<Rightarrow> bool" where
  "poll_failed E s = (\<exists>ps sleep w rc rev. sys_poll E ps sleep w = (rc, rev, world s) \<and> rc < 0 \<and> errno E (world s) \<noteq> EINVAL)"

lemma poll_once_ok:
  assumes "booked E s" and "poll_once E s = (r, s')"
  shows "booked E s' \<and> d_outstanding s' = d_outstanding s \<and> d_timers s' = d_timers s \<and>
    (r = Some True \<longrightarrow> valid s') \<and> (r \<noteq> Some True \<longrightarrow> d_next_poll s' = d_next_poll s) \<and> (r = Some False \<longrightarrow> poll_failed E s')"
proof -
  obtain sl w where sl: "poll_sleep E (s\<lparr>world := set_errno E 0 (world s)\<rparr>) = (sl, w)" by fastforce
  obtain rc rev w' where k: "sys_poll E (d_poll s) sl w = (rc, rev, w')" by (cases "sys_poll E (d_poll s) sl w") auto
  show ?thesis
    using assms sl k by (auto simp: poll_once_def Let_def valid_def poll_failed_def split: if_splits) (metis not_le)
qed

lemma poll_ok:
  assumes "booked E s" and "poll E s = Returns (b, s')"
  shows "booked E s' \<and> d_outstanding s' = d_outstanding s \<and> d_timers s' = d_timers s \<and> (b \<longrightarrow> valid s') \<and>
    (\<not> b \<longrightarrow> d_next_poll s' = None \<and>
      (poll_failed E s' \<or> length (takeWhile (\<lambda>op. \<not> d_fd op < 0) (d_outstanding s)) = 1 \<and> d_timers s = []))"
proof -
  let ?p = "map (\<lambda>op. \<lparr>fd = d_fd op, events = d_events op, revents = 0\<rparr>) (takeWhile (\<lambda>op. \<not> d_fd op < 0) (d_outstanding s))"
  let ?s = "s\<lparr>d_poll := ?p, d_next_poll := None\<rparr>"
  show ?thesis
  proof (cases "length ?p = 1 \<and> d_timers s = []")
    case True
    then show ?thesis using assms by (auto simp: poll_def)
  next
    case False
    let ?I = "\<lambda>(r, t). booked E t \<and> d_outstanding t = d_outstanding s \<and> d_timers t = d_timers s \<and> (r = Some True \<longrightarrow> valid t) \<and>
      (r \<noteq> Some True \<longrightarrow> d_next_poll t = None) \<and> (r = Some False \<longrightarrow> poll_failed E t)"
    obtain r where l: "loop_while (\<lambda>(r, s). r = None) (\<lambda>(r, s). Some (poll_once E s)) (None, ?s) = Some (r, s')" and b: "b = (r = Some True)"
      using assms(2) False by (auto simp: poll_def split: if_splits)
    have "?I (r, s') \<and> \<not> (case (r, s') of (r, s) \<Rightarrow> r = None)"
    proof (rule loop_while_partial [OF l, where I = ?I], goal_cases)
      case 1
      then show ?case using assms(1) by simp
    next
      case (2 x y)
      obtain r0 t r1 t' where xy: "x = (r0, t)" "y = (r1, t')" by (cases x; cases y)
      then have "poll_once E t = (r1, t')" using 2(3) by simp
      from poll_once_ok [OF _ this] 2(1,2) xy show ?case by auto
    qed
    then show ?thesis using b by auto
  qed
qed

lemma poll_defined: "poll E s \<noteq> Undefined"
  by (auto simp: poll_def Let_def run_bind_Undefined)

text \<open>With nothing scheduled, no timer and one operation to poll for, that one is the context's own.\<close>

lemma nothing_pending:
  assumes "shape s" and "d_timers s = []" and "length (takeWhile (\<lambda>op. \<not> d_fd op < 0) (d_outstanding s)) = 1"
    and "\<not> (d_outstanding s \<noteq> [] \<and> d_fd (last (d_outstanding s)) = -1)"
  shows "pending s = {#}"
proof -
  from assms(1) obtain xs ys where l: "d_outstanding s = xs @ ys" "list_all io_part xs" "list_all (sched_part (d_completion s)) ys"
    by (auto simp: shape_def)
  have "ys = []"
  proof (rule ccontr)
    assume "ys \<noteq> []"
    then have "last ys \<in> set ys" by simp
    then have "d_fd (last ys) = -1" using l(3) by (simp add: list_all_iff sched_part_def)
    with \<open>ys \<noteq> []\<close> l(1) assms(4) show False by simp
  qed
  then have "takeWhile (\<lambda>op. \<not> d_fd op < 0) (d_outstanding s) = d_outstanding s"
    using l by (auto simp: takeWhile_eq_all_conv list_all_iff io_part_def)
  with assms(3) obtain op where op: "d_outstanding s = [op]" by (auto simp: length_Suc_conv)
  with assms(1) have "d_operation op = Wake" by (auto simp: shape_def split: if_splits)
  with op assms(2) show ?thesis by (simp add: pending_def)
qed

section \<open>Turns and runs\<close>

lemma booked_pending: "booked E s \<Longrightarrow> mset (asked s) = mset (map fst (delivered s)) + pending s"
  by (simp add: booked_def acct_def)

lemma keeps_valid: "keeps s s' \<Longrightarrow> valid s' = valid s"
  by (simp add: keeps_def valid_def)

lemma run_turn_ok:
  assumes "booked E s" and "valid s"
  shows "run_turn E s \<noteq> Undefined \<and>
    (run_turn E s = Returns (r, s') \<longrightarrow> booked E s' \<and> (r = None \<or> r = Some 1 \<longrightarrow> valid s') \<and> (r = None \<or> r = Some 0 \<or> r = Some 1) \<and>
      (r = Some 0 \<longrightarrow> (poll_failed E s' \<or> pending s' = {#}) \<and> d_next_poll s' = None))"
proof (cases "handle_timer E s")
  case Undefined
  with handle_timer_defined show ?thesis by blast
next
  case Hangs
  then show ?thesis by (simp add: run_turn_def)
next
  case (Returns t)
  obtain n1 s1 where t: "handle_timer E s = Returns (n1, s1)" using Returns by (cases t) auto
  note t' = handle_timer_ok [OF assms(1) t]
  have v1: "booked E s1" "valid s1" using t' keeps_valid assms(2) by auto
  show ?thesis
  proof (cases "n1 = 0")
    case False
    then show ?thesis using t v1 by (auto simp: run_turn_def)
  next
    case n1: True
    have "handle_scheduled E s1 \<noteq> Undefined" using handle_scheduled_ok [OF v1(1)] by simp
    then consider "handle_scheduled E s1 = Hangs" | n2 s2 where "handle_scheduled E s1 = Returns (n2, s2)"
      by (cases "handle_scheduled E s1") auto
    then show ?thesis
    proof cases
      case 1
      then show ?thesis using t n1 by (simp add: run_turn_def)
    next
      case 2
      then have sc: "booked E s2" "keeps s1 s2" "n2 = 0 \<longrightarrow> s2 = s1" using handle_scheduled_ok [OF v1(1), of n2 s2] by auto
      have v2: "valid s2" using sc(2) v1(2) keeps_valid by auto
      show ?thesis
      proof (cases "n2 = 0")
        case False
        then show ?thesis using t n1 2 sc v2 by (auto simp: run_turn_def)
      next
        case n2: True
        have q: "\<not> (d_outstanding s1 \<noteq> [] \<and> d_fd (last (d_outstanding s1)) = -1)"
          using 2 n2 by (auto simp: handle_scheduled_def Let_def)
        have s2: "s2 = s1" using sc n2 by simp
        have rest: "run_turn E s = run_bind (handle_io E s1) (\<lambda>(n, s). if n \<noteq> 0 then Returns (Some 1, s)
            else run_bind (poll E s) (\<lambda>(b, s). Returns (if b then None else Some 0, s)))"
          using t n1 2 n2 s2 by (simp add: run_turn_def)
        have io: "handle_io E s1 \<noteq> Undefined" using handle_io_ok [OF v1] by simp
        have after: "booked E s' \<and> (b \<longrightarrow> valid s') \<and> (\<not> b \<longrightarrow> (poll_failed E s' \<or> pending s' = {#}) \<and> d_next_poll s' = None)"
          if h: "handle_io E s1 = Returns (0, s3)" and p: "poll E s3 = Returns (b, s')" for s3 b
        proof -
          have 3: "booked E s3" "d_outstanding s3 = d_outstanding s1" "d_timers s3 = d_timers s1"
            using handle_io_ok [OF v1, of 0 s3] h by auto
          note p' = poll_ok [OF 3(1) p]
          have "pending s' = {#}" if "\<not> poll_failed E s'" "\<not> b"
            by (rule nothing_pending) (use p' 3 that q in \<open>auto simp: booked_def\<close>)
          with p' show ?thesis by auto
        qed
        show ?thesis
          unfolding rest
          using io handle_io_ok [OF v1] after
          by (auto simp: run_bind_Undefined poll_defined split: if_splits)
      qed
    qed
  qed
qed

lemma do_run_one_ok:
  assumes "booked E s" and "valid s"
  shows "do_run_one E s \<noteq> Undefined \<and>
    (do_run_one E s = Returns (n, s') \<longrightarrow> booked E s' \<and> n \<le> 1 \<and> (n = 1 \<longrightarrow> valid s') \<and>
      (n = 0 \<longrightarrow> (poll_failed E s' \<or> pending s' = {#}) \<and> d_next_poll s' = None))"
proof -
  let ?b = "\<lambda>r. case r of Returns (None, s) \<Rightarrow> True | _ \<Rightarrow> False"
  let ?c = "\<lambda>r. Some (run_bind r (\<lambda>(_ :: nat option, s). run_turn E s))"
  let ?J = "\<lambda>(r, t). booked E t \<and> (r = None \<or> r = Some 1 \<longrightarrow> valid t) \<and> (r = None \<or> r = Some (0::nat) \<or> r = Some 1) \<and>
      (r = Some 0 \<longrightarrow> (poll_failed E t \<or> pending t = {#}) \<and> d_next_poll t = None)"
  let ?I = "\<lambda>r. r \<noteq> Undefined \<and> (\<forall>p. r = Returns p \<longrightarrow> ?J p)"
  have fin: "?I r \<and> \<not> ?b r" if l: "loop_while ?b ?c (Returns (None, s)) = Some r" for r
  proof (rule loop_while_partial [OF l, where I = ?I], goal_cases)
    case 1
    then show ?case using assms by simp
  next
    case (2 x y)
    then obtain t where x: "x = Returns (None, t)" by (auto split: run.splits option.splits)
    then have t: "booked E t" "valid t" and y: "y = run_turn E t" using 2 by auto
    show ?case unfolding y using run_turn_ok [OF t] by auto
  qed
  show ?thesis
    by (auto simp: do_run_one_def run_bind_Undefined dest!: fin)
qed

interpretation pc: file_context "do_run_one E" "\<lambda>s. booked E s \<and> valid s" "\<lambda>s. True" "poll_failed E"
    "\<lambda>s. mset (asked s)" "\<lambda>s. mset (map fst (delivered s))" pending for E
proof (unfold_locales, goal_cases)
  case (1 s)
  then show ?case by (blast dest: booked_pending)
next
  case (2 s)
  then show ?case using do_run_one_ok by blast
next
  case (3 s n s')
  then show ?case using do_run_one_ok [of E s n s'] by simp
next
  case (4 s s')
  then show ?case using do_run_one_ok [of E s 0 s'] booked_pending [of E s'] by simp
qed

text \<open>A new context, and what a client asks of it.\<close>

fun ask_all :: "('p, 'w) poll_env \<Rightarrow> ('p request \<times> addr) list \<Rightarrow> ('p, 'w) poll_context \<Rightarrow> ('p, 'w) poll_context run" where
  "ask_all E [] s = Returns s"
| "ask_all E ((r, c) # rs) s = run_bind (ask E r c s) (ask_all E rs)"

lemma poll_new_ok:
  assumes "handlers_ok own E" and "0 \<le> fst pipe"
  shows "booked E (poll_new E own pipe w) \<and> valid (poll_new E own pipe w) \<and> d_completion (poll_new E own pipe w) = own"
proof -
  let ?o = "\<lparr>node = 0, d_fd = fst pipe, d_events = POLLIN, d_operation = Wake, d_id = own\<rparr>"
  have "\<exists>xs ys. [?o] = xs @ ys \<and> list_all io_part xs \<and> list_all (sched_part own) ys"
    using assms(2) by (intro exI [of _ "[?o]"] exI [of _ "[]"]) (simp add: io_part_def)
  then show ?thesis using assms
    by (simp add: poll_new_def submit_io_def Let_def booked_def acct_def shape_def pending_def valid_def)
qed

lemma ask_ok:
  assumes "ask E r c s = Returns s'" and "booked E s" and "sane (d_completion s) (r, c)"
  shows "booked E s' \<and> extends s s'"
  using run_agenda_ok [OF assms(1) [unfolded ask_def], of "{#}" "{#}"] assms(2,3)
  by (auto simp: booked_def extends_def)

lemma ask_all_ok:
  "ask_all E rs s = Returns s' \<Longrightarrow> booked E s \<Longrightarrow> list_all (sane (d_completion s)) rs \<Longrightarrow> booked E s' \<and> extends s s'"
proof (induction rs arbitrary: s)
  case (Cons a rs)
  obtain r c where a: "a = (r, c)" by (cases a)
  with Cons.prems obtain s1 where s1: "ask E r c s = Returns s1" "ask_all E rs s1 = Returns s'" by auto
  have "booked E s1 \<and> extends s s1" by (rule ask_ok [OF s1(1)]) (use Cons.prems a in auto)
  moreover from this have "d_completion s1 = d_completion s" by (simp add: extends_def)
  ultimately show ?case using Cons.IH [OF s1(2)] Cons.prems(3) by (auto intro: extends_trans)
qed simp

text \<open>
  C9: Whatever a client asks of a new poll context and whatever its continuations ask in turn: running it stays within defined behaviour, and
  when \<^verbatim>\<open>run\<close> returns, every continuation that was asked for got exactly one result or is still pending and got none; one is still
  pending only if \<^verbatim>\<open>run\<close> gave up because the last call of \<^verbatim>\<open>poll\<close> failed with another error than \<^verbatim>\<open>EINVAL\<close>. Requests
  are sane: their descriptor is not negative, their continuation is not the context's own, and they cancel neither the context's own operation nor themselves.
\<close>

theorem poll_run_completes:
  assumes "handlers_ok own E" and "0 \<le> fst pipe" and "list_all (sane own) rs"
    and "ask_all E rs (poll_new E own pipe w) = Returns s"
  shows "io_run (do_run_one E) s \<noteq> Undefined \<and>
    (\<forall>cnt s'. io_run (do_run_one E) s = Returns (cnt, s') \<longrightarrow>
       mset (asked s') = mset (map fst (delivered s')) + pending s' \<and> (pending s' = {#} \<or> poll_failed E s'))"
proof -
  note new = poll_new_ok [OF assms(1,2), of w]
  have s: "booked E s \<and> extends (poll_new E own pipe w) s"
    by (rule ask_all_ok [OF assms(4)]) (use new assms(3) in auto)
  then have "booked E s \<and> valid s" using new extends_keeps keeps_valid by blast
  then show ?thesis using pc.run_defined [of E s] pc.run_complete [of E s] by auto
qed

end
