(* ===== verification/Poll_Behaviour.thy ===== *)
theory Poll_Behaviour
  imports Poll_Accounting
begin

text \<open>
  What the poll context does in particular situations, with continuations that ask for nothing: the order of scheduled work, cancelling, a
  connection that is refused, and running the context again after it had nothing to do.
\<close>

section \<open>Continuations that ask for nothing\<close>

definition quiet :: "('p, 'w) poll_env \<Rightarrow> bool" where
  "quiet E = (\<forall>c rc w. fst (handler E c rc w) = [])"

lemma deliver_quiet:
  assumes "quiet E"
  shows "deliver E c rc s = Returns (s\<lparr>world := snd (handler E c rc (world s)), delivered := delivered s @ [(c, rc)]\<rparr>)"
proof -
  obtain w where "handler E c rc (world s) = ([], w)" using assms unfolding quiet_def by (metis prod.collapse)
  then show ?thesis by (simp add: deliver_def run_agenda_def loop_while.simps)
qed

lemma ask_step: "do_request E r c (s\<lparr>asked := asked s @ [c]\<rparr>) = ([], s') \<Longrightarrow> ask E r c s = Returns s'"
  by (simp add: ask_def run_agenda_def loop_while.simps)

lemma run_one_done:
  assumes "run_turn E s = Returns (Some n, s')"
  shows "do_run_one E s = Returns (n, s')"
  using assms by (simp add: do_run_one_def loop_while.simps)

lemma run_one_again:
  assumes "run_turn E s = Returns (None, s')"
  shows "do_run_one E s = do_run_one E s'"
  using assms by (simp add: do_run_one_def loop_while_step)

text \<open>The last scheduled operation is the one that runs next, if no timer is there.\<close>

lemma run_turn_nop:
  assumes "quiet E" and "d_timers s = []" and l: "d_outstanding s = pre @ [op]" and op: "d_fd op = -1" "d_operation op = Nop_op"
    and n: "node op \<notin> node ` set pre"
  shows "run_turn E s = Returns (Some 1, s\<lparr>world := snd (handler E (d_id op) 0 (world s)), delivered := delivered s @ [(d_id op, 0)], d_outstanding := pre\<rparr>)"
proof -
  have f: "filter (\<lambda>o2. node o2 \<noteq> node op) pre = pre" using n by (intro filter_True) (metis imageI)
  show ?thesis
    using assms f by (simp add: run_turn_def handle_timer_def handle_scheduled_def Let_def call_def deliver_quiet erase_def)
qed

definition idle_shape :: "('p, 'w) poll_context \<Rightarrow> 'p operation \<Rightarrow> 'p operation list \<Rightarrow> bool" where
  "idle_shape s wk ops = (d_timers s = [] \<and> d_poll s = [] \<and> d_next_poll s = Some 0 \<and> d_outstanding s = wk # ops \<and>
     0 \<le> d_fd wk \<and> distinct (map node (wk # ops)) \<and> list_all (\<lambda>op. d_fd op = -1 \<and> d_operation op = Nop_op \<and> node op < fresh s) ops \<and> node wk < fresh s)"

lemma run_one_idle:
  assumes "idle_shape s wk []"
  shows "\<exists>s'. do_run_one E s = Returns (0, s') \<and> delivered s' = delivered s"
proof -
  have "run_turn E s = Returns (Some 0, s\<lparr>d_next_poll := None, d_poll := [\<lparr>fd = d_fd wk, events = d_events wk, revents = 0\<rparr>]\<rparr>)"
    using assms by (simp add: idle_shape_def run_turn_def handle_timer_def handle_scheduled_def handle_io_def poll_def)
  from run_one_done [OF this] show ?thesis by simp
qed

lemma run_one_nop:
  assumes "quiet E" and i: "idle_shape s wk (ops @ [op])"
  shows "\<exists>s'. do_run_one E s = Returns (1, s') \<and> idle_shape s' wk ops \<and> delivered s' = delivered s @ [(d_id op, 0)]"
proof -
  have "run_turn E s = Returns (Some 1, s\<lparr>world := snd (handler E (d_id op) 0 (world s)), delivered := delivered s @ [(d_id op, 0)], d_outstanding := wk # ops\<rparr>)"
    by (rule run_turn_nop) (use assms in \<open>auto simp: idle_shape_def\<close>)
  from run_one_done [OF this] i show ?thesis by (simp add: idle_shape_def)
qed

lemma run_loop_nops:
  assumes "quiet E" and "idle_shape s wk ops"
  shows "\<exists>s'. loop_while io_more (\<lambda>x. Some (io_turn (do_run_one E) x)) (Returns 1, cnt, s) = Some (Returns 0, cnt + of_nat (length ops), s') \<and>
        delivered s' = delivered s @ map (\<lambda>op. (d_id op, 0)) (rev ops)"
  using assms(2)
proof (induction ops arbitrary: s cnt rule: rev_induct)
  case Nil
  from run_one_idle [OF Nil] obtain s' where "do_run_one E s = Returns (0, s')" "delivered s' = delivered s" by blast
  then show ?case by (simp add: loop_while.simps)
next
  case (snoc op ops)
  from run_one_nop [OF assms(1) snoc.prems] obtain s1
    where 1: "do_run_one E s = Returns (1, s1)" "idle_shape s1 wk ops" "delivered s1 = delivered s @ [(d_id op, 0)]" by blast
  from snoc.IH [OF 1(2), of "cnt + 1"] 1 show ?case
    by (simp add: loop_while_step [where s' = "(Returns 1, cnt + 1, s1)"] ac_simps)
qed

lemma ask_nops:
  assumes "idle_shape s wk ops"
  shows "\<exists>s' new. ask_all E (map (\<lambda>c. (R_nop, c)) cs) s = Returns s' \<and> idle_shape s' wk (ops @ new) \<and> map d_id new = cs \<and> delivered s' = delivered s"
  using assms
proof (induction cs arbitrary: s ops)
  case Nil
  have "idle_shape s wk (ops @ []) \<and> map d_id [] = []" using Nil by simp
  then show ?case by (intro exI [of _ s] exI [of _ "[]"]) simp
next
  case (Cons c cs)
  let ?o = "\<lparr>node = fresh s, d_fd = -1, d_events = 0, d_operation = Nop_op, d_id = c\<rparr>"
  define s1 where "s1 = submit_io E (-1) 0 Nop_op c (s\<lparr>asked := asked s @ [c]\<rparr>)"
  have a: "ask E R_nop c s = Returns s1" by (rule ask_step) (simp add: do_nop_def s1_def)
  have i: "idle_shape s1 wk (ops @ [?o])"
    using Cons.prems by (auto simp: idle_shape_def s1_def submit_io_def Let_def list_all_iff less_Suc_eq)
  from Cons.IH [OF i] obtain s' new where n: "ask_all E (map (\<lambda>c. (R_nop, c)) cs) s1 = Returns s'" "idle_shape s' wk ((ops @ [?o]) @ new)"
    "map d_id new = cs" "delivered s' = delivered s1" by blast
  moreover have "delivered s1 = delivered s" by (simp add: s1_def)
  ultimately show ?case using a by (intro exI [of _ s'] exI [of _ "?o # new"]) simp
qed

text \<open>
  Scheduled work runs in the opposite order of its submission: after \<open>nop\<close> for \<open>cs\<close> on a new context, \<^verbatim>\<open>run\<close> returns with the number of
  them and has called the continuations from the last to the first.
\<close>

theorem poll_nops_reversed:
  assumes "quiet E" and "0 \<le> fst pipe"
  shows "\<exists>s s'. ask_all E (map (\<lambda>c. (R_nop, c)) cs) (poll_new E own pipe w) = Returns s \<and>
    io_run (do_run_one E) s = Returns (of_nat (length cs), s') \<and> delivered s' = map (\<lambda>c. (c, 0)) (rev cs)"
proof -
  let ?wk = "\<lparr>node = 0, d_fd = fst pipe, d_events = POLLIN, d_operation = Wake, d_id = own\<rparr>"
  have "idle_shape (poll_new E own pipe w) ?wk []"
    using assms(2) by (simp add: idle_shape_def poll_new_def submit_io_def Let_def)
  from ask_nops [OF this, of E cs] obtain s new where s: "ask_all E (map (\<lambda>c. (R_nop, c)) cs) (poll_new E own pipe w) = Returns s"
    "idle_shape s ?wk ([] @ new)" "map d_id new = cs" "delivered s = delivered (poll_new E own pipe w)" by auto
  have d: "delivered (poll_new E own pipe w) = []" by (simp add: poll_new_def Let_def)
  have "length new = length cs" using s(3) by auto
  moreover have "map (\<lambda>op. (d_id op, 0)) (rev new) = map (\<lambda>c. (c, 0::int)) (rev cs)" by (simp add: s(3) [symmetric] rev_map comp_def)
  ultimately show ?thesis
    using run_loop_nops [OF assms(1) s(2), of 0] s(1,4) d by (auto simp: io_run_def)
qed

section \<open>Cancelling\<close>

text \<open>
  With no timer there, the turn after \<open>cancel\<close> gives the canceller 0 and then the first pending operation with that id the error \<^verbatim>\<open>ECANCELED\<close>, and
  takes just these two out; the rest stays as it is.
\<close>

theorem poll_cancel_operation:
  assumes "quiet E" and "shape s" and "d_timers s = []" and l: "d_outstanding s = pre @ op # post"
    and t: "t \<notin> d_id ` set pre" "d_id op = t"
  shows "\<exists>s1 s2. ask E (R_cancel t) c s = Returns s1 \<and> do_run_one E s1 = Returns (1, s2) \<and>
    delivered s2 = delivered s @ [(c, 0), (t, - ECANCELED)] \<and> d_outstanding s2 = pre @ post"
proof -
  let ?o = "\<lparr>node = fresh s, d_fd = -1, d_events = 0, d_operation = Cancel_op t, d_id = c\<rparr>"
  define s1 where "s1 = submit_io E (-1) 0 (Cancel_op t) c (s\<lparr>asked := asked s @ [c]\<rparr>)"
  have a: "ask E (R_cancel t) c s = Returns s1" by (rule ask_step) (simp add: do_cancel_def s1_def)
  have o1: "d_outstanding s1 = pre @ op # post @ [?o]" "d_timers s1 = []" "delivered s1 = delivered s"
    using l assms(3) by (simp_all add: s1_def submit_io_def Let_def)
  have pre: "find (\<lambda>o2. d_id o2 = t) pre = None" using t(1) by (auto simp: find_None_iff)
  have f: "find (\<lambda>o2. d_id o2 = t) (pre @ op # post @ [?o]) = Some op"
    using pre t(2) by (induction pre) (auto split: if_splits)
  have d: "distinct (map node (pre @ op # post))" "\<forall>o2 \<in> set (pre @ op # post). node o2 < fresh s"
    using assms(2) l unfolding shape_def by simp_all
  have m: "node op \<notin> node ` (set pre \<union> set post)" "fresh s \<notin> node ` (set pre \<union> set post)" using d by auto
  have n: "node op \<noteq> fresh s" "\<And>o2. o2 \<in> set pre \<union> set post \<Longrightarrow> node o2 \<noteq> node op \<and> node o2 \<noteq> fresh s"
    using d(2) m by (auto, (metis UnI1 UnI2 imageI)+)
  have f1: "filter (\<lambda>o2. node o2 \<noteq> node op) (pre @ op # post @ [?o]) = pre @ post @ [?o]"
    using n by (simp add: filter_True)
  have f2: "filter (\<lambda>o2. node o2 \<noteq> fresh s) (pre @ post @ [?o]) = pre @ post"
    using n by (simp add: filter_True)
  have "\<exists>s2. run_turn E s1 = Returns (Some 1, s2) \<and> delivered s2 = delivered s @ [(c, 0), (t, - ECANCELED)] \<and> d_outstanding s2 = pre @ post"
    using o1 f f1 f2 t(2) assms(1)
    by (simp add: run_turn_def handle_timer_def handle_scheduled_def Let_def call_def call_cancel_def deliver_quiet erase_def)
  then show ?thesis using a run_one_done by blast
qed

text \<open>
  A timer cannot be cancelled: the canceller gets the error \<open>-1\<close> and the timer stays.
\<close>

theorem poll_cancel_timer:
  assumes "quiet E" and "shape s" and "t \<notin> d_id ` set (d_outstanding s)" and "c \<noteq> t"
    and "\<And>w. fst (clock E w) < d_expiry (timer_top (d_timers s))"
  shows "\<exists>s1 s2. ask E (R_cancel t) c s = Returns s1 \<and> do_run_one E s1 = Returns (1, s2) \<and>
    delivered s2 = delivered s @ [(c, -1)] \<and> d_timers s2 = d_timers s"
proof -
  let ?o = "\<lparr>node = fresh s, d_fd = -1, d_events = 0, d_operation = Cancel_op t, d_id = c\<rparr>"
  define s1 where "s1 = submit_io E (-1) 0 (Cancel_op t) c (s\<lparr>asked := asked s @ [c]\<rparr>)"
  have a: "ask E (R_cancel t) c s = Returns s1" by (rule ask_step) (simp add: do_cancel_def s1_def)
  have o1: "d_outstanding s1 = d_outstanding s @ [?o]" "d_timers s1 = d_timers s" "delivered s1 = delivered s"
    by (simp_all add: s1_def submit_io_def Let_def)
  have "d_id x \<noteq> t" if "x \<in> set (d_outstanding s) \<or> x = ?o" for x
    using that by (elim disjE) (use assms(3,4) in \<open>metis imageI\<close>, use assms(4) in simp)
  then have f: "find (\<lambda>o2. d_id o2 = t) (d_outstanding s @ [?o]) = None" unfolding find_None_iff by auto
  have h: "\<exists>w. handle_timer E s1 = Returns (0, s1\<lparr>world := w\<rparr>)"
  proof (cases "d_timers s = []")
    case False
    then show ?thesis using assms(5) [of "world s1"] o1 by (auto simp: handle_timer_def Let_def split: prod.splits)
  qed (simp add: handle_timer_def o1)
  then obtain w where w: "handle_timer E s1 = Returns (0, s1\<lparr>world := w\<rparr>)" by blast
  have "\<exists>s2. run_turn E s1 = Returns (Some 1, s2) \<and> delivered s2 = delivered s @ [(c, -1)] \<and> d_timers s2 = d_timers s"
    using o1 f assms(1) w
    by (simp add: run_turn_def handle_scheduled_def Let_def call_def call_cancel_def deliver_quiet erase_def)
  then show ?thesis using a run_one_done by blast
qed

section \<open>Running again\<close>

lemma shape_nothing:
  assumes "shape s" and "pending s = {#}"
  shows "d_timers s = [] \<and> list_all io_part (d_outstanding s)"
proof -
  have "set_mset (filter_mset (\<lambda>op. d_operation op \<noteq> Wake) (mset (d_outstanding s))) = {}"
    using assms(2) by (simp add: pending_def)
  then have "op \<in> set (d_outstanding s) \<Longrightarrow> d_operation op = Wake" for op by auto
  then show ?thesis
    using assms shape_parts [OF assms(1)] by (auto simp: pending_def list_all_iff sched_part_def)
qed

lemma run_one_undefined:
  assumes "d_next_poll s = None" and "d_timers s = []" and "list_all io_part (d_outstanding s)"
  shows "do_run_one E s = Undefined"
proof -
  have "\<not> (d_outstanding s \<noteq> [] \<and> d_fd (last (d_outstanding s)) = -1)"
  proof
    assume a: "d_outstanding s \<noteq> [] \<and> d_fd (last (d_outstanding s)) = -1"
    then have "last (d_outstanding s) \<in> set (d_outstanding s)" by simp
    then have "0 \<le> d_fd (last (d_outstanding s))" using assms(3) by (simp add: list_all_iff io_part_def)
    with a show False by simp
  qed
  then have "run_turn E s = Undefined"
    using assms(1,2) by (auto simp: run_turn_def handle_timer_def handle_scheduled_def handle_io_def)
  then show ?thesis by (simp add: do_run_one_def loop_while.simps)
qed

text \<open>
  Once the context had nothing to do, its iterator into \<^verbatim>\<open>d_poll\<close> is no longer valid: running it once more uses it, with nothing new to do as well as after
  a connection was asked to be accepted.
\<close>

theorem poll_second_run_undefined:
  assumes "\<not> poll_failed E s'" and "booked E s" and "valid s" and "do_run_one E s = Returns (0, s')" and "0 \<le> f"
  shows "do_run_one E s' = Undefined \<and> (\<exists>s''. ask E (R_accept f p q fl) c s' = Returns s'' \<and> do_run_one E s'' = Undefined)"
proof -
  have r: "booked E s'" "pending s' = {#}" "d_next_poll s' = None"
    using do_run_one_ok [OF assms(2,3), of 0 s'] assms(1,4) by auto
  then have n: "d_timers s' = []" "list_all io_part (d_outstanding s')" using shape_nothing [of s'] by (auto simp: booked_def)
  define s'' where "s'' = submit_io E f POLLIN (Accept_op f p q) c (s'\<lparr>asked := asked s' @ [c]\<rparr>)"
  have "ask E (R_accept f p q fl) c s' = Returns s''" by (rule ask_step) (simp add: do_accept_def s''_def)
  moreover have "do_run_one E s'' = Undefined"
    by (rule run_one_undefined) (use r n assms(5) in \<open>simp_all add: s''_def submit_io_def Let_def io_part_def\<close>)
  ultimately show ?thesis using run_one_undefined [OF r(3) n] by blast
qed

section \<open>Refused connections\<close>

text \<open>
  The error of a connection attempt is lost: when \<^verbatim>\<open>poll\<close> reports the socket and \<^verbatim>\<open>SO_ERROR\<close> has an error, the continuation gets 0, which is what it gets for a
  connection that was made. System calls that succeed leave \<^verbatim>\<open>errno\<close> as it is.
\<close>

theorem poll_connect_error_lost:
  assumes "quiet E"
    and "\<And>e w. errno E (set_errno E e w) = e"
    and "\<And>w. errno E (snd (so_error E f w)) = errno E w"
    and "\<And>w. fst (so_error E f w) \<noteq> 0"
    and "\<And>ps sl w. \<exists>rev w'. sys_poll E ps sl w = (1, rev, w') \<and> rev 0 AND (POLLIN OR POLLOUT) \<noteq> 0 \<and> errno E w' = errno E w"
    and s: "d_timers s = []" "d_next_poll s = Some (length (d_poll s))"
    and l: "d_outstanding s = \<lparr>node = n, d_fd = f, d_events = POLLIN OR POLLOUT, d_operation = Connect_op f, d_id = c\<rparr> # o2 # ops"
    and ops: "list_all (\<lambda>op. 0 \<le> d_fd op) (o2 # ops)" and f: "0 \<le> f"
  shows "\<exists>s'. do_run_one E s = Returns (1, s') \<and> delivered s' = delivered s @ [(c, 0)]"
proof -
  let ?op = "\<lparr>node = n, d_fd = f, d_events = POLLIN OR POLLOUT, d_operation = Connect_op f, d_id = c\<rparr>"
  let ?pf = "\<lambda>op. \<lparr>fd = d_fd op, events = d_events op, revents = 0\<rparr>"
  have last: "d_fd (last (d_outstanding s)) \<noteq> -1"
  proof -
    have "last (d_outstanding s) \<in> set (o2 # ops)" using last_in_set [of "o2 # ops"] by (simp add: l)
    then have "0 \<le> d_fd (last (d_outstanding s))" using ops unfolding list_all_iff by blast
    then show ?thesis by simp
  qed
  have t0: "handle_timer E x = Returns (0, x)" if "d_timers x = []" for x using that by (simp add: handle_timer_def)
  have h0: "handle_scheduled E x = Returns (0, x)" if "d_outstanding x = d_outstanding s" for x
    using that last by (simp add: handle_scheduled_def)
  have i0: "handle_io E s = Returns (0, s)" using s(2) by (simp add: handle_io_def)
  have tw: "takeWhile (\<lambda>op. \<not> d_fd op < 0) (d_outstanding s) = ?op # o2 # ops"
    using ops f by (simp add: l list_all_iff takeWhile_eq_all_conv not_less)
  define ps where "ps = map ?pf (?op # o2 # ops)"
  let ?s1 = "s\<lparr>d_poll := ps, d_next_poll := None\<rparr>"
  let ?s2 = "?s1\<lparr>world := set_errno E 0 (world s)\<rparr>"
  obtain rev w where k: "sys_poll E ps (-1) (set_errno E 0 (world s)) = (1, rev, w)" "rev 0 AND (POLLIN OR POLLOUT) \<noteq> 0" "errno E w = 0"
    using assms(5) [of ps "-1" "set_errno E 0 (world s)"] assms(2) by auto
  let ?s3 = "s\<lparr>d_poll := map (\<lambda>(i, p). p\<lparr>revents := rev i\<rparr>) (enumerate 0 ps), d_next_poll := Some 0, world := w\<rparr>"
  have "poll_once E ?s1 = (Some True, ?s3)"
    using k s(1) by (simp add: poll_once_def poll_sleep_def Let_def)
  then have "poll E s = Returns (True, ?s3)"
    using s(1) tw by (simp add: poll_def ps_def [symmetric] loop_while.simps) (simp add: ps_def)
  then have turn1: "run_turn E s = Returns (None, ?s3)"
    by (simp add: run_turn_def t0 s(1) h0 i0)
  obtain err w1 where so: "so_error E f w = (err, w1)" by fastforce
  then have e: "err \<noteq> 0" "errno E w1 = 0" using assms(3) [of w] assms(4) [of w] k(3) by auto
  define s3 where "s3 = ?s3"
  define p0 where "p0 = \<lparr>fd = f, events = POLLIN OR POLLOUT, revents = rev 0\<rparr>"
  have s3: "d_timers s3 = []" "d_outstanding s3 = ?op # o2 # ops" "world s3 = w" "delivered s3 = delivered s" "d_next_poll s3 = Some 0"
    using s(1) l by (simp_all add: s3_def)
  obtain ps' where ps': "d_poll s3 = p0 # ps'" by (simp add: s3_def ps_def p0_def)
  obtain s4 where d: "call E ?op (s3\<lparr>d_next_poll := Some 0, d_outstanding := o2 # ops\<rparr>) = Returns (True, s4)"
      and s4: "delivered s4 = delivered s @ [(c, 0)]"
    using so e assms(1) s3 by (simp add: call_def Let_def deliver_quiet)
  have m: "fd p0 = f" "revents p0 AND (POLLIN OR POLLOUT) \<noteq> 0" "revents p0 \<noteq> 0" using k(2) by (auto simp: p0_def)
  have "handle_ops E p0 [] (?op # o2 # ops) (s3\<lparr>d_next_poll := Some 0\<rparr>) = Returns (True, s4)"
    using d m by simp
  then have io: "handle_io E s3 = Returns (1, s4\<lparr>d_next_poll := map_option Suc (d_next_poll s4)\<rparr>)"
    using m(3) by (simp add: handle_io_def s3 ps')
  have "run_turn E s3 = Returns (Some 1, s4\<lparr>d_next_poll := map_option Suc (d_next_poll s4)\<rparr>)"
    by (simp add: run_turn_def t0 h0 io s3 l)
  from run_one_again [OF turn1] run_one_done [OF this] s4 show ?thesis by (simp add: s3_def)
qed

section \<open>The theorems at work\<close>

text \<open>A world that is only \<^verbatim>\<open>errno\<close>: connecting and accepting do not succeed at once, every descriptor is reported by \<^verbatim>\<open>poll\<close>.\<close>

definition demo_env :: "(nat, int) poll_env" where
  "demo_env =
     \<lparr>sys = (\<lambda>call w. case call of S_connect f p n \<Rightarrow> (-1, 115) | S_accept f p q \<Rightarrow> (-1, EAGAIN) | _ \<Rightarrow> (0, w)),
      so_error = (\<lambda>f w. (111, w)), sys_poll = (\<lambda>ps sleep w. (1, \<lambda>i. 5, w)),
      errno = (\<lambda>w. w), set_errno = (\<lambda>e w. e), clock = (\<lambda>w. (7, w)), handler = (\<lambda>c rc w. ([], w))\<rparr>"

abbreviation demo_new :: "(nat, int) poll_context" where
  "demo_new \<equiv> poll_new demo_env 0 (3, 4) 0"

lemma demo_ok: "quiet demo_env" "handlers_ok own demo_env" "\<not> poll_failed demo_env s"
  by (simp_all add: quiet_def handlers_ok_def poll_failed_def demo_env_def)

lemma demo_new_fields:
  "d_timers demo_new = []" "d_poll demo_new = []" "d_next_poll demo_new = Some 0" "delivered demo_new = []" "fresh demo_new = 1" "d_completion demo_new = 0"
  "d_outstanding demo_new = [\<lparr>node = 0, d_fd = 3, d_events = POLLIN, d_operation = Wake, d_id = 0\<rparr>]"
  by (simp_all add: poll_new_def submit_io_def Let_def)

lemma demo_new_ok: "booked demo_env demo_new" "valid demo_new" "shape demo_new"
  using poll_new_ok [of 0 demo_env "(3, 4)" 0] demo_ok by (auto simp: booked_def)

lemma demo_idle: "idle_shape demo_new \<lparr>node = 0, d_fd = 3, d_events = POLLIN, d_operation = Wake, d_id = 0\<rparr> []"
  by (simp add: idle_shape_def demo_new_fields)

theorem poll_run_completes_witness:
  "\<exists>s cnt s'. ask_all demo_env [(R_nop, 1), (R_nop, 2)] demo_new = Returns s \<and> io_run (do_run_one demo_env) s = Returns (cnt, s') \<and>
     mset (map fst (delivered s')) = mset (asked s') \<and> pending s' = {#}"
proof -
  from ask_nops [OF demo_idle, of demo_env "[1, 2]"] obtain s new
    where s: "ask_all demo_env [(R_nop, 1), (R_nop, 2)] demo_new = Returns s"
      and i: "idle_shape s \<lparr>node = 0, d_fd = 3, d_events = POLLIN, d_operation = Wake, d_id = 0\<rparr> ([] @ new)" by auto
  from run_loop_nops [OF demo_ok(1) i, of 0] obtain cnt s' where r: "io_run (do_run_one demo_env) s = Returns (cnt, s')"
    by (auto simp: io_run_def)
  have "mset (map fst (delivered s')) = mset (asked s') \<and> pending s' = {#}"
    using poll_run_completes [OF demo_ok(2) [of 0], of "(3, 4)" "[(R_nop, 1), (R_nop, 2)]" 0 s] demo_ok(3) s r by auto
  with s r show ?thesis by blast
qed

theorem poll_nops_reversed_witness:
  "\<exists>s s'. ask_all demo_env [(R_nop, 1), (R_nop, 2)] demo_new = Returns s \<and>
     io_run (do_run_one demo_env) s = Returns (2, s') \<and> delivered s' = [(2, 0), (1, 0)]"
  using poll_nops_reversed [OF demo_ok(1), of "(3, 4)" "[1, 2]" 0 0] by simp

theorem poll_cancel_operation_witness:
  "\<exists>s1 s2. ask demo_env (R_cancel 8) 9 (submit_io demo_env 5 POLLIN (Accept_op 5 0 0) 8 demo_new) = Returns s1 \<and>
     do_run_one demo_env s1 = Returns (1, s2) \<and> delivered s2 = [(9, 0), (8, - ECANCELED)] \<and> length (d_outstanding s2) = 1"
proof -
  let ?s = "submit_io demo_env 5 POLLIN (Accept_op 5 0 0) 8 demo_new"
  let ?o = "\<lparr>node = 1, d_fd = 5, d_events = POLLIN, d_operation = Accept_op 5 0 0, d_id = 8\<rparr>"
  have "shape ?s" by (rule submit_io_shape [OF demo_new_ok(3)]) (simp_all add: io_part_def)
  moreover have "d_outstanding ?s = [] @ ?o # d_outstanding demo_new" by (simp add: submit_io_def Let_def demo_new_fields)
  ultimately show ?thesis
    using poll_cancel_operation [OF demo_ok(1), of ?s "[]" ?o "d_outstanding demo_new" 8 9] by (auto simp: demo_new_fields)
qed

theorem poll_cancel_timer_witness:
  "\<exists>s1 s2. ask demo_env (R_cancel 8) 9 (demo_new\<lparr>d_timers := [\<lparr>d_expiry = 100, d_continuation = 8\<rparr>]\<rparr>) = Returns s1 \<and>
     do_run_one demo_env s1 = Returns (1, s2) \<and> delivered s2 = [(9, -1)] \<and> d_timers s2 = [\<lparr>d_expiry = 100, d_continuation = 8\<rparr>]"
  using poll_cancel_timer [OF demo_ok(1), of "demo_new\<lparr>d_timers := [\<lparr>d_expiry = 100, d_continuation = 8\<rparr>]\<rparr>" 8 9] demo_new_ok(3)
  by (simp add: demo_new_fields) (simp add: demo_env_def)

theorem poll_second_run_undefined_witness:
  "\<exists>s'. do_run_one demo_env demo_new = Returns (0, s') \<and> do_run_one demo_env s' = Undefined"
proof -
  from run_one_idle [OF demo_idle, of demo_env] obtain s' where s': "do_run_one demo_env demo_new = Returns (0, s')" by blast
  from poll_second_run_undefined [OF demo_ok(3) demo_new_ok(1,2) this, of 5] s' show ?thesis by auto
qed

theorem poll_connect_error_lost_witness:
  "\<exists>s'. do_run_one demo_env (submit_io demo_env 5 (POLLIN OR POLLOUT) (Connect_op 5) 9 demo_new) = Returns (1, s') \<and> delivered s' = [(9, 0)]"
proof -
  let ?s = "submit_io demo_env 5 (POLLIN OR POLLOUT) (Connect_op 5) 9 demo_new"
  let ?w = "\<lparr>node = 0, d_fd = 3, d_events = POLLIN, d_operation = Wake, d_id = 0\<rparr>"
  have s: "d_timers ?s = []" "d_next_poll ?s = Some (length (d_poll ?s))" "delivered ?s = []"
    "d_outstanding ?s = \<lparr>node = 1, d_fd = 5, d_events = POLLIN OR POLLOUT, d_operation = Connect_op 5, d_id = 9\<rparr> # ?w # []"
    by (simp_all add: submit_io_def Let_def demo_new_fields)
  have nz: "(5 :: 16 word) AND (POLLIN OR POLLOUT) \<noteq> 0" by (simp add: POLLIN_def POLLOUT_def)
  have "\<exists>s'. do_run_one demo_env ?s = Returns (1, s') \<and> delivered s' = delivered ?s @ [(9, 0)]"
    by (rule poll_connect_error_lost [OF demo_ok(1) _ _ _ _ s(1,2,4)]) (use nz in \<open>simp_all add: demo_env_def\<close>)
  with s(3) show ?thesis by simp
qed

end
