(* ===== verification/Ring.thy ===== *)
theory Ring
  imports Prelude
begin

text \<open>
  \<^verbatim>\<open>ring\<close> of \<^verbatim>\<open>src/src/nstd/file/ring.hpp\<close>: an array used by two sides with a head and a tail that are counted in 32 bits and wrap around, and a mask
  that turns a count into an index. It refines a queue of bounded length.
\<close>

unbundle bit_operations_syntax

section \<open>Model\<close>

record 'a ring =
  d_head :: "32 word"
  d_tail :: "32 word"
  d_mask :: "32 word"
  d_array :: "nat \<Rightarrow> 'a"

definition ring_mask :: "'a ring \<Rightarrow> 32 word \<Rightarrow> 32 word" where
  "ring_mask r index = index AND d_mask r"

definition ring_get :: "'a ring \<Rightarrow> 32 word \<Rightarrow> 'a" where
  "ring_get r index = d_array r (unat (ring_mask r index))"

definition ring_put :: "'a ring \<Rightarrow> 32 word \<Rightarrow> 'a \<Rightarrow> 'a ring" where
  "ring_put r index x = r\<lparr>d_array := (d_array r)(unat (ring_mask r index) := x)\<rparr>"

definition advance_head :: "'a ring \<Rightarrow> 'a ring" where
  "advance_head r = r\<lparr>d_head := d_head r + 1\<rparr>"

definition advance_tail :: "'a ring \<Rightarrow> 'a ring" where
  "advance_tail r = r\<lparr>d_tail := d_tail r + 1\<rparr>"

section \<open>The queue\<close>

text \<open>The number of entries in use, and the entries from the head on.\<close>

definition used :: "'a ring \<Rightarrow> nat" where
  "used r = unat (d_tail r - d_head r)"

definition entries :: "'a ring \<Rightarrow> 'a list" where
  "entries r = map (\<lambda>k. ring_get r (d_head r + of_nat k)) [0..<used r]"

text \<open>A ring of \<open>2 ^ k\<close> entries; there are never more in use.\<close>

definition ring_ok :: "nat \<Rightarrow> 'a ring \<Rightarrow> bool" where
  "ring_ok k r = (k < 32 \<and> d_mask r = mask k \<and> used r \<le> 2 ^ k)"

lemma length_entries [simp]: "length (entries r) = used r"
  by (simp add: entries_def)

lemma mod_add_left_inj: "(a + i) mod n = (a + j) mod n \<Longrightarrow> i mod n = j mod n" for a :: nat
  by (simp add: nat_mod_eq_iff)

lemma index_value:
  assumes "k < 32" and "d_mask r = mask k"
  shows "unat (ring_mask r (h + of_nat i)) = (unat h + i) mod 2 ^ k"
proof -
  have d: "(2 ^ k :: nat) dvd 2 ^ 32" by (rule le_imp_power_dvd) (use assms(1) in simp)
  have "unat (h + of_nat i :: 32 word) = (unat h + i) mod 2 ^ 32"
    by (simp add: unat_word_ariths unat_of_nat mod_add_right_eq)
  then have "unat (h + of_nat i :: 32 word) mod 2 ^ k = (unat h + i) mod 2 ^ k"
    using d by (simp add: mod_mod_cancel)
  moreover have "unat (take_bit k (h + of_nat i :: 32 word)) = take_bit k (unat (h + of_nat i :: 32 word))"
    by (simp add: unsigned_take_bit_eq)
  ultimately have "unat (take_bit k (h + of_nat i :: 32 word)) = (unat h + i) mod 2 ^ k" by (simp only: take_bit_eq_mod)
  then show ?thesis using assms(2) by (simp add: ring_mask_def take_bit_eq_mask)
qed

lemma index_inj:
  assumes "k < 32" and "d_mask r = mask k" and "i < 2 ^ k" and "j < 2 ^ k"
  shows "ring_mask r (h + of_nat i) = ring_mask r (h + of_nat j) \<longleftrightarrow> i = j"
proof -
  have "(unat h + i) mod 2 ^ k = (unat h + j) mod 2 ^ k \<Longrightarrow> i = j"
    using assms(3,4) mod_add_left_inj [of "unat h" i "2 ^ k" j] by simp
  then show ?thesis using index_value [OF assms(1,2)] by metis
qed

text \<open>Taking the first entry.\<close>

lemma used_advance_head:
  assumes "d_head r \<noteq> d_tail r"
  shows "used r = Suc (used (advance_head r))"
proof -
  have "d_tail r - d_head r \<noteq> 0" using assms by auto
  then have "unat (d_tail r - d_head r) = Suc (unat (d_tail r - d_head r - 1))"
    using unat_minus_one [of "d_tail r - d_head r"] unat_gt_0 [of "d_tail r - d_head r"] by simp
  then show ?thesis by (simp add: used_def advance_head_def algebra_simps)
qed

lemma entries_advance_head:
  assumes "d_head r \<noteq> d_tail r"
  shows "entries r = ring_get r (d_head r) # entries (advance_head r)"
proof -
  let ?g = "\<lambda>k. ring_get r (d_head r + of_nat k)"
  have "[0..<used r] = 0 # map Suc [0..<used (advance_head r)]"
    by (simp add: used_advance_head [OF assms] upt_conv_Cons map_Suc_upt)
  moreover have "ring_get (advance_head r) (d_head (advance_head r) + of_nat k) = ?g (Suc k)" for k
    by (simp add: advance_head_def ring_get_def ring_mask_def algebra_simps)
  ultimately show ?thesis by (simp add: entries_def comp_def)
qed

text \<open>Storing an entry behind the last one.\<close>

lemma used_advance_tail:
  assumes "ring_ok k r" and "used r < 2 ^ k"
  shows "used (advance_tail r) = Suc (used r)"
proof -
  have "used r < 2 ^ 32 - 1"
  proof -
    have "(2 :: nat) ^ k \<le> 2 ^ 31" by (rule power_increasing) (use assms(1) in \<open>auto simp: ring_ok_def\<close>)
    with assms(2) show ?thesis by simp
  qed
  then have "unat ((d_tail r - d_head r) + 1) = Suc (unat (d_tail r - d_head r))"
    by (simp add: used_def unat_word_ariths)
  then show ?thesis by (simp add: used_def advance_tail_def algebra_simps)
qed

lemma ring_tail_index: "d_tail r = d_head r + of_nat (used r)"
  by (simp add: used_def)

lemma entries_put:
  assumes "ring_ok k r" and "used r < 2 ^ k"
  shows "entries (advance_tail (ring_put r (d_tail r) x)) = entries r @ [x]"
proof -
  let ?r = "advance_tail (ring_put r (d_tail r) x)"
  have k: "k < 32" "d_mask r = mask k" using assms(1) by (auto simp: ring_ok_def)
  have u: "used ?r = Suc (used r)"
    using used_advance_tail [OF assms] by (simp add: used_def advance_tail_def ring_put_def)
  have same: "ring_get ?r (d_head r + of_nat i) = ring_get r (d_head r + of_nat i)" if "i < used r" for i
  proof -
    have "ring_mask r (d_head r + of_nat i) \<noteq> ring_mask r (d_head r + of_nat (used r))"
      using index_inj [OF k, of i "used r" "d_head r"] that assms(2) by auto
    then have "unat (ring_mask r (d_head r + of_nat i)) \<noteq> unat (ring_mask r (d_tail r))"
      unfolding ring_tail_index [of r] by (simp add: word_unat_eq_iff)
    then show ?thesis by (simp add: advance_tail_def ring_put_def ring_get_def ring_mask_def)
  qed
  have new: "ring_get ?r (d_head r + of_nat (used r)) = x"
    unfolding ring_tail_index [of r, symmetric] by (simp add: advance_tail_def ring_put_def ring_get_def ring_mask_def)
  have h: "d_head ?r = d_head r" by (simp add: advance_tail_def ring_put_def)
  show ?thesis using same new by (simp add: entries_def u h)
qed

lemma ring_ok_advance_head: "ring_ok k r \<Longrightarrow> d_head r \<noteq> d_tail r \<Longrightarrow> ring_ok k (advance_head r)"
  using used_advance_head [of r] by (simp add: ring_ok_def) (simp add: advance_head_def)

lemma ring_ok_put:
  assumes "ring_ok k r" and "used r < 2 ^ k"
  shows "ring_ok k (advance_tail (ring_put r (d_tail r) x))"
proof -
  have "used (advance_tail (ring_put r (d_tail r) x)) = Suc (used r)"
    using used_advance_tail [OF assms] by (simp add: used_def advance_tail_def ring_put_def)
  with assms show ?thesis by (simp add: ring_ok_def advance_tail_def ring_put_def)
qed

lemma entries_empty: "d_head r = d_tail r \<longleftrightarrow> entries r = []"
proof -
  have "used r = 0 \<longleftrightarrow> d_tail r - d_head r = 0" using unat_gt_0 [of "d_tail r - d_head r"] unfolding used_def by (metis gr0I less_irrefl)
  then show ?thesis by (auto simp: entries_def)
qed

text \<open>
  C13: The ring refines a bounded queue, through the wrap-around of its 32-bit counters: with fewer than \<open>2 ^ k\<close> entries in use, storing at the tail appends;
  reading at the head and advancing it takes the first entry; head and tail are equal when the queue is empty; the size stays within bounds.
\<close>

theorem ring_refines_queue:
  assumes "ring_ok k r"
  shows "(d_head r = d_tail r \<longleftrightarrow> entries r = []) \<and>
    (entries r \<noteq> [] \<longrightarrow> ring_get r (d_head r) = hd (entries r) \<and> entries (advance_head r) = tl (entries r) \<and> ring_ok k (advance_head r)) \<and>
    (length (entries r) < 2 ^ k \<longrightarrow>
       entries (advance_tail (ring_put r (d_tail r) x)) = entries r @ [x] \<and> ring_ok k (advance_tail (ring_put r (d_tail r) x)))"
  using entries_empty [of r] entries_advance_head [of r] ring_ok_advance_head [OF assms] entries_put [OF assms] ring_ok_put [OF assms]
  by auto

text \<open>A full turn of the counters: the tail wraps to 1 while the head is at the largest value.\<close>

theorem ring_refines_queue_witness:
  "\<exists>r :: nat ring. ring_ok 1 r \<and> d_head r = 4294967295 \<and> entries r = [7] \<and>
     entries (advance_tail (ring_put r (d_tail r) 8)) = [7, 8] \<and> entries (advance_head r) = []"
proof -
  let ?r = "\<lparr>d_head = 4294967295, d_tail = 0, d_mask = 1, d_array = (\<lambda>_. 7)\<rparr> :: nat ring"
  have ok: "ring_ok 1 ?r" by (simp add: ring_ok_def used_def)
  have e: "entries ?r = [7]" by (simp add: entries_def used_def ring_get_def)
  have "(entries ?r \<noteq> [] \<longrightarrow> ring_get ?r (d_head ?r) = hd (entries ?r) \<and> entries (advance_head ?r) = tl (entries ?r) \<and> ring_ok 1 (advance_head ?r)) \<and>
    (length (entries ?r) < 2 ^ 1 \<longrightarrow> entries (advance_tail (ring_put ?r (d_tail ?r) 8)) = entries ?r @ [8] \<and> ring_ok 1 (advance_tail (ring_put ?r (d_tail ?r) 8)))"
    using ring_refines_queue [OF ok, of 8] by blast
  then have "entries (advance_tail (ring_put ?r (d_tail ?r) 8)) = [7, 8]" "entries (advance_head ?r) = []" unfolding e by simp_all
  with ok e show ?thesis by (intro exI [of _ ?r]) simp
qed

end
