(* ===== verification/Ring_Context.thy ===== *)
theory Ring_Context
  imports File_Context Ring
begin

text \<open>
  \<^verbatim>\<open>ring_context\<close> of \<^verbatim>\<open>src/src/nstd/file/ring_context.{hpp,cpp}\<close>: requests are written to the submission ring shared with the kernel, results are read
  from the completion ring. \<^verbatim>\<open>io_uring_enter\<close>, which works on both rings, and what continuations do are parameters; the
  laws of the former are stated below. The destructor and the members without a definition in the sources (\<^verbatim>\<open>poll\<close>, \<^verbatim>\<open>stop\<close> and others) are left out.
\<close>

section \<open>Model\<close>

datatype opcode = OP_NOP | OP_TIMEOUT | OP_ASYNC_CANCEL | OP_ACCEPT | OP_CONNECT | OP_SENDMSG | OP_RECVMSG | OP_READV | OP_WRITEV | OP_OPENAT

datatype 'p ptr = Null | Ptr 'p | Io addr

record 'p sqe =
  opcode :: opcode
  sqe_fd :: int
  sqe_flags :: "8 word"
  sqe_addr :: "'p ptr"
  sqe_addr2 :: "'p ptr"
  sqe_len :: "32 word"
  sqe_off :: "64 word"
  op_flags :: "32 word"
  sqe_data :: addr

definition sqe_zero :: "'p sqe" where
  "sqe_zero = \<lparr>opcode = OP_NOP, sqe_fd = 0, sqe_flags = 0, sqe_addr = Null, sqe_addr2 = Null, sqe_len = 0, sqe_off = 0, op_flags = 0, sqe_data = 0\<rparr>"

record cqe =
  cqe_data :: addr
  res :: int

text \<open>The memory shared with the kernel.\<close>

record 'p uring =
  sq :: "32 word ring"
  sqes :: "nat \<Rightarrow> 'p sqe"
  cq :: "cqe ring"

record ('p, 'k, 'w) ring_env =
  enter :: "nat \<Rightarrow> nat \<Rightarrow> 'p uring \<times> 'k \<Rightarrow> 'p uring \<times> 'k"
  handler :: "addr \<Rightarrow> int \<Rightarrow> 'w \<Rightarrow> ('p request \<times> addr) list \<times> 'w"

text \<open>
  The last fields are not in the code: the kernel and the world, what was asked and delivered so far, and whether an
  element was ever written to a submission ring that was full.
\<close>

record ('p, 'k, 'w) ring_context =
  rings :: "'p uring"
  d_outstanding :: "32 word"
  kernel :: 'k
  world :: 'w
  asked :: "addr list"
  delivered :: "(addr \<times> int) list"
  overrun :: bool

definition io_uring_enter :: "('p, 'k, 'w) ring_env \<Rightarrow> nat \<Rightarrow> nat \<Rightarrow> ('p, 'k, 'w) ring_context \<Rightarrow> ('p, 'k, 'w) ring_context" where
  "io_uring_enter K n m s = (let (u, k) = enter K n m (rings s, kernel s) in s\<lparr>rings := u, kernel := k\<rparr>)"

definition intern_submit :: "('p, 'k, 'w) ring_env \<Rightarrow> ('p, 'k, 'w) ring_context \<Rightarrow> ('p, 'k, 'w) ring_context" where
  "intern_submit K s = io_uring_enter K 1 0 s"

definition ring_submit :: "('p, 'k, 'w) ring_env \<Rightarrow> 'p sqe \<Rightarrow> ('p, 'k, 'w) ring_context \<Rightarrow> ('p, 'k, 'w) ring_context" where
  "ring_submit K e s =
     (let u = rings s;
          tail = d_tail (sq u);
          index = ring_mask (sq u) tail;
          u = u\<lparr>sqes := (sqes u)(unat index := e)\<rparr>;
          u = u\<lparr>sq := (sq u)\<lparr>d_array := (d_array (sq u))(unat index := index)\<rparr>\<rparr>;
          s = s\<lparr>d_outstanding := d_outstanding s + 1, overrun := overrun s \<or> used (sq u) > unat (d_mask (sq u))\<rparr>;
          u = u\<lparr>sq := advance_tail (sq u)\<rparr>
      in intern_submit K (s\<lparr>rings := u\<rparr>))"

text \<open>The operations fill an element; \<^verbatim>\<open>flags\<close> of an element has 8 bits, \<^verbatim>\<open>len\<close> 32.\<close>

definition ring_timer :: "('p, 'k, 'w) ring_env \<Rightarrow> 'p \<Rightarrow> addr \<Rightarrow> ('p, 'k, 'w) ring_context \<Rightarrow> ('p, 'k, 'w) ring_context" where
  "ring_timer K time c s = ring_submit K (sqe_zero\<lparr>opcode := OP_TIMEOUT, op_flags := 0, sqe_addr := Ptr time, sqe_len := 1, sqe_off := 0, sqe_data := c\<rparr>) s"

definition ring_cancel :: "('p, 'k, 'w) ring_env \<Rightarrow> addr \<Rightarrow> addr \<Rightarrow> ('p, 'k, 'w) ring_context \<Rightarrow> ('p, 'k, 'w) ring_context" where
  "ring_cancel K t c s = ring_submit K (sqe_zero\<lparr>opcode := OP_ASYNC_CANCEL, sqe_addr := Io t, sqe_data := c\<rparr>) s"

definition ring_nop :: "('p, 'k, 'w) ring_env \<Rightarrow> addr \<Rightarrow> ('p, 'k, 'w) ring_context \<Rightarrow> ('p, 'k, 'w) ring_context" where
  "ring_nop K c s = ring_submit K (sqe_zero\<lparr>opcode := OP_NOP, sqe_data := c\<rparr>) s"

definition ring_accept :: "('p, 'k, 'w) ring_env \<Rightarrow> int \<Rightarrow> 'p \<Rightarrow> 'p \<Rightarrow> int \<Rightarrow> addr \<Rightarrow> ('p, 'k, 'w) ring_context \<Rightarrow> ('p, 'k, 'w) ring_context" where
  "ring_accept K f addr len fl c s =
     ring_submit K (sqe_zero\<lparr>opcode := OP_ACCEPT, sqe_fd := f, sqe_flags := word_of_int fl, sqe_addr := Ptr addr, sqe_addr2 := Ptr len, sqe_data := c\<rparr>) s"

definition ring_connect :: "('p, 'k, 'w) ring_env \<Rightarrow> int \<Rightarrow> 'p \<Rightarrow> int \<Rightarrow> addr \<Rightarrow> ('p, 'k, 'w) ring_context \<Rightarrow> ('p, 'k, 'w) ring_context" where
  "ring_connect K f addr len c s =
     ring_submit K (sqe_zero\<lparr>opcode := OP_CONNECT, sqe_fd := f, sqe_addr := Ptr addr, sqe_off := word_of_int len, sqe_data := c\<rparr>) s"

definition ring_sendmsg :: "('p, 'k, 'w) ring_env \<Rightarrow> int \<Rightarrow> 'p \<Rightarrow> int \<Rightarrow> addr \<Rightarrow> ('p, 'k, 'w) ring_context \<Rightarrow> ('p, 'k, 'w) ring_context" where
  "ring_sendmsg K f msg fl c s =
     ring_submit K (sqe_zero\<lparr>opcode := OP_SENDMSG, sqe_fd := f, sqe_addr := Ptr msg, sqe_flags := word_of_int fl, sqe_data := c\<rparr>) s"

definition ring_recvmsg :: "('p, 'k, 'w) ring_env \<Rightarrow> int \<Rightarrow> 'p \<Rightarrow> int \<Rightarrow> addr \<Rightarrow> ('p, 'k, 'w) ring_context \<Rightarrow> ('p, 'k, 'w) ring_context" where
  "ring_recvmsg K f msg fl c s =
     ring_submit K (sqe_zero\<lparr>opcode := OP_RECVMSG, sqe_fd := f, sqe_addr := Ptr msg, sqe_flags := word_of_int fl, sqe_data := c\<rparr>) s"

definition ring_read :: "('p, 'k, 'w) ring_env \<Rightarrow> int \<Rightarrow> 'p \<Rightarrow> nat \<Rightarrow> addr \<Rightarrow> ('p, 'k, 'w) ring_context \<Rightarrow> ('p, 'k, 'w) ring_context" where
  "ring_read K f vec n c s =
     ring_submit K (sqe_zero\<lparr>opcode := OP_READV, sqe_fd := f, sqe_addr := Ptr vec, sqe_len := of_nat n, sqe_data := c\<rparr>) s"

definition ring_write :: "('p, 'k, 'w) ring_env \<Rightarrow> int \<Rightarrow> 'p \<Rightarrow> nat \<Rightarrow> addr \<Rightarrow> ('p, 'k, 'w) ring_context \<Rightarrow> ('p, 'k, 'w) ring_context" where
  "ring_write K f vec n c s =
     ring_submit K (sqe_zero\<lparr>opcode := OP_WRITEV, sqe_fd := f, sqe_addr := Ptr vec, sqe_len := of_nat n, sqe_data := c\<rparr>) s"

definition ring_open_at :: "('p, 'k, 'w) ring_env \<Rightarrow> int \<Rightarrow> 'p \<Rightarrow> int \<Rightarrow> addr \<Rightarrow> ('p, 'k, 'w) ring_context \<Rightarrow> ('p, 'k, 'w) ring_context" where
  "ring_open_at K f name fl c s =
     ring_submit K (sqe_zero\<lparr>opcode := OP_OPENAT, sqe_fd := f, sqe_addr := Ptr name, op_flags := word_of_int fl, sqe_data := c\<rparr>) s"

fun ring_request :: "('p, 'k, 'w) ring_env \<Rightarrow> 'p request \<times> addr \<Rightarrow> ('p, 'k, 'w) ring_context \<Rightarrow> ('p, 'k, 'w) ring_context" where
  "ring_request K (R_cancel t, c) s = ring_cancel K t c s"
| "ring_request K (R_nop, c) s = ring_nop K c s"
| "ring_request K (R_timer p sec nsec, c) s = ring_timer K p c s"
| "ring_request K (R_accept f p q fl, c) s = ring_accept K f p q fl c s"
| "ring_request K (R_connect f p n, c) s = ring_connect K f p n c s"
| "ring_request K (R_sendmsg f p fl, c) s = ring_sendmsg K f p fl c s"
| "ring_request K (R_recvmsg f p fl, c) s = ring_recvmsg K f p fl c s"
| "ring_request K (R_read f p n, c) s = ring_read K f p n c s"
| "ring_request K (R_write f p n, c) s = ring_write K f p n c s"
| "ring_request K (R_open_at f p fl, c) s = ring_open_at K f p fl c s"

definition ring_ask :: "('p, 'k, 'w) ring_env \<Rightarrow> 'p request \<times> addr \<Rightarrow> ('p, 'k, 'w) ring_context \<Rightarrow> ('p, 'k, 'w) ring_context" where
  "ring_ask K rc s = ring_request K rc (s\<lparr>asked := asked s @ [snd rc]\<rparr>)"

text \<open>\<^verbatim>\<open>result\<close> of a continuation, with what it asks for.\<close>

definition ring_deliver :: "('p, 'k, 'w) ring_env \<Rightarrow> addr \<Rightarrow> int \<Rightarrow> ('p, 'k, 'w) ring_context \<Rightarrow> ('p, 'k, 'w) ring_context" where
  "ring_deliver K c rc s =
     (let (rs, w) = handler K c rc (world s)
      in fold (ring_ask K) rs (s\<lparr>world := w, delivered := delivered s @ [(c, rc)]\<rparr>))"

definition process_result :: "('p, 'k, 'w) ring_env \<Rightarrow> ('p, 'k, 'w) ring_context \<Rightarrow> nat \<times> ('p, 'k, 'w) ring_context" where
  "process_result K s =
     (let head = d_head (cq (rings s));
          tail = d_tail (cq (rings s))
      in if head \<noteq> tail
         then
           let result = ring_get (cq (rings s)) head;
               s = s\<lparr>rings := (rings s)\<lparr>cq := advance_head (cq (rings s))\<rparr>\<rparr>;
               s = s\<lparr>d_outstanding := d_outstanding s - 1\<rparr>
           in (1, ring_deliver K (cqe_data result) (res result) s)
         else (0, s))"

definition ring_run_one :: "('p, 'k, 'w) ring_env \<Rightarrow> ('p, 'k, 'w) ring_context \<Rightarrow> nat \<times> ('p, 'k, 'w) ring_context" where
  "ring_run_one K s = (if d_outstanding s = 0 then (0, s) else process_result K (io_uring_enter K 0 1 s))"

definition ring_run :: "('p, 'k, 'w) ring_env \<Rightarrow> ('p, 'k, 'w) ring_context \<Rightarrow> (64 word \<times> ('p, 'k, 'w) ring_context) run" where
  "ring_run K s =
     of_loop (loop_while (\<lambda>(rc, s). d_outstanding s \<noteq> 0)
       (\<lambda>(rc, s). let (n, s) = ring_run_one K s in Some (rc + of_nat n, s)) (0, s))"

section \<open>The kernel\<close>

text \<open>
  What \<^verbatim>\<open>io_uring_enter\<close> does with rings of \<open>2 ^ a\<close> and \<open>2 ^ b\<close> entries; \<open>inflight\<close> are the \<^verbatim>\<open>user_data\<close> of the requests the kernel has taken and not completed.
  It takes at most as many entries as it is told to and there are, none if it fails, and appends results of requests it has to the
  completion queue, as long as there is room; it leaves the rest alone.
\<close>

definition queued :: "'p uring \<Rightarrow> 'p sqe list" where
  "queued u = map (\<lambda>i. sqes u (unat i)) (entries (sq u))"

definition enters :: "nat \<Rightarrow> nat \<Rightarrow> ('k \<Rightarrow> addr multiset) \<Rightarrow> nat \<Rightarrow> 'p uring \<Rightarrow> 'k \<Rightarrow> 'p uring \<Rightarrow> 'k \<Rightarrow> nat \<Rightarrow> cqe list \<Rightarrow> bool" where
  "enters a b inflight n u k u' k' j cs =
     (j \<le> min n (used (sq u)) \<and> sqes u' = sqes u \<and> sq u' = (sq u)\<lparr>d_head := d_head (sq u) + of_nat j\<rparr> \<and>
      ring_ok b (cq u') \<and> entries (cq u') = entries (cq u) @ cs \<and>
      inflight k' + mset (map cqe_data cs) = inflight k + mset (map sqe_data (take j (queued u))))"

definition kernel_ok :: "nat \<Rightarrow> nat \<Rightarrow> ('k \<Rightarrow> addr multiset) \<Rightarrow> ('p, 'k, 'w) ring_env \<Rightarrow> bool" where
  "kernel_ok a b inflight K =
     (\<forall>n m u k u' k'. ring_ok a (sq u) \<longrightarrow> ring_ok b (cq u) \<longrightarrow> enter K n m (u, k) = (u', k') \<longrightarrow>
        (\<exists>j cs. enters a b inflight n u k u' k' j cs))"

section \<open>Accounting\<close>

text \<open>What is pending: results not read, requests the kernel has, and requests it has not taken.\<close>

definition pending :: "('k \<Rightarrow> addr multiset) \<Rightarrow> ('p, 'k, 'w) ring_context \<Rightarrow> addr multiset" where
  "pending inflight s = mset (map cqe_data (entries (cq (rings s)))) + inflight (kernel s) + mset (map sqe_data (queued (rings s)))"

text \<open>Every entry of the submission ring is the index it is stored at.\<close>

definition own_index :: "32 word ring \<Rightarrow> bool" where
  "own_index q \<longleftrightarrow> entries q = map (\<lambda>i. ring_mask q (d_head q + of_nat i)) [0..<used q]"

text \<open>
  What was asked is delivered, pending or in \<open>X\<close>, and the count of outstanding operations is that of the
  pending ones.
\<close>

definition booked :: "nat \<Rightarrow> nat \<Rightarrow> ('k \<Rightarrow> addr multiset) \<Rightarrow> addr multiset \<Rightarrow> ('p, 'k, 'w) ring_context \<Rightarrow> bool" where
  "booked a b inflight X s =
     (ring_ok a (sq (rings s)) \<and> ring_ok b (cq (rings s)) \<and> own_index (sq (rings s)) \<and>
      mset (asked s) = mset (map fst (delivered s)) + pending inflight s + X \<and>
      d_outstanding s = of_nat (size (pending inflight s)))"

text \<open>The counter of outstanding operations has 32 bits.\<close>

definition fits :: "('p, 'k, 'w) ring_context \<Rightarrow> bool" where
  "fits s = (length (asked s) < 2 ^ 32 \<and> \<not> overrun s)"

lemma pending_asked:
  assumes "booked a b inflight X s"
  shows "size (pending inflight s) + length (delivered s) + size X = length (asked s)"
proof -
  have "size (mset (asked s)) = size (mset (map fst (delivered s)) + pending inflight s + X)" using assms by (simp add: booked_def)
  then show ?thesis by simp
qed

lemma outstanding_empty:
  assumes "booked a b inflight X s" and "pending inflight s = {#}"
  shows "d_outstanding s = 0"
  using assms by (simp add: booked_def)

lemma outstanding_zero:
  assumes "booked a b inflight X s" and "length (asked s) < 2 ^ 32"
  shows "d_outstanding s = 0 \<longleftrightarrow> pending inflight s = {#}"
proof -
  have "size (pending inflight s) < 2 ^ 32" using pending_asked [OF assms(1)] assms(2) by simp
  then have "unat (d_outstanding s) = size (pending inflight s)"
    using assms(1) by (simp add: booked_def unat_of_nat)
  then show ?thesis using outstanding_empty [OF assms(1)] by auto
qed

subsection \<open>The submission ring\<close>

lemma own_index_advance:
  assumes "own_index q" and "d_head q \<noteq> d_tail q"
  shows "own_index (advance_head q)"
proof -
  have "[0..<used q] = 0 # map Suc [0..<used (advance_head q)]"
    by (simp add: used_advance_head [OF assms(2)] upt_conv_Cons map_Suc_upt)
  with assms(1) entries_advance_head [OF assms(2)] show ?thesis
    by (simp add: own_index_def comp_def advance_head_def ring_mask_def algebra_simps)
qed

lemma own_index_put:
  assumes "ring_ok a q" "used q < 2 ^ a" "own_index q"
  shows "own_index (advance_tail (ring_put q (d_tail q) (ring_mask q (d_tail q))))"
proof -
  let ?q = "advance_tail (ring_put q (d_tail q) (ring_mask q (d_tail q)))"
  have "entries ?q = entries q @ [ring_mask q (d_tail q)]" by (rule entries_put [OF assms(1,2)])
  moreover have "used ?q = Suc (used q)" using calculation length_entries [of ?q] by simp
  moreover have "d_head ?q = d_head q" "ring_mask ?q = ring_mask q"
    by (simp_all add: advance_tail_def ring_put_def ring_mask_def fun_eq_iff)
  ultimately show ?thesis using assms(3) by (simp add: own_index_def ring_tail_index [of q, symmetric])
qed

text \<open>Writing an element where the next entry points leaves the elements of the entries there are.\<close>

lemma queued_other:
  assumes "ring_ok a (sq u)" "used (sq u) < 2 ^ a" "own_index (sq u)"
  shows "map (\<lambda>i. ((sqes u)(unat (ring_mask (sq u) (d_tail (sq u))) := e)) (unat i)) (entries (sq u)) = queued u"
proof -
  have k: "a < 32" "d_mask (sq u) = mask a" using assms(1) by (simp_all add: ring_ok_def)
  have "unat i \<noteq> unat (ring_mask (sq u) (d_tail (sq u)))" if "i \<in> set (entries (sq u))" for i
  proof -
    from that assms(3) obtain l where l: "i = ring_mask (sq u) (d_head (sq u) + of_nat l)" "l < used (sq u)" by (auto simp: own_index_def)
    then have "i \<noteq> ring_mask (sq u) (d_tail (sq u))"
      using index_inj [OF k, of l "used (sq u)" "d_head (sq u)"] assms(2) unfolding ring_tail_index [of "sq u"] by auto
    then show ?thesis by (simp add: word_unat_eq_iff)
  qed
  then show ?thesis unfolding queued_def by (intro map_cong) auto
qed

lemma unat_mask32: "a < 32 \<Longrightarrow> unat (mask a :: 32 word) = 2 ^ a - 1"
  using uint_mask_eq [where 'a = 32, of a] by (simp add: unat_eq_nat_uint mask_eq_exp_minus_1 nat_diff_distrib nat_power_eq min_def)

text \<open>One entry at most is taken: what is queued moves to the kernel.\<close>

lemma enters_moves:
  assumes "enters a b inflight n u k u' k' j cs" "n \<le> 1" "ring_ok a (sq u)" "own_index (sq u)"
  shows "ring_ok a (sq u')" "own_index (sq u')" "mset (map sqe_data (take j (queued u))) + mset (map sqe_data (queued u')) = mset (map sqe_data (queued u))"
proof -
  have e: "j \<le> 1" "j \<le> used (sq u)" "sqes u' = sqes u" "sq u' = (sq u)\<lparr>d_head := d_head (sq u) + of_nat j\<rparr>"
    using assms(1,2) by (simp_all add: enters_def)
  have "ring_ok a (sq u') \<and> own_index (sq u') \<and>
    mset (map sqe_data (take j (queued u))) + mset (map sqe_data (queued u')) = mset (map sqe_data (queued u))"
  proof (cases "j = 0")
    case True
    with e assms(3,4) show ?thesis by (simp add: queued_def)
  next
    case False
    with e(1) have "j = 1" by simp
    with e(4) have j: "j = 1" "sq u' = advance_head (sq u)" by (simp_all add: advance_head_def)
    have n: "d_head (sq u) \<noteq> d_tail (sq u)" using e(2) j(1) by (auto simp: used_def)
    have "queued u = sqes u (unat (ring_get (sq u) (d_head (sq u)))) # queued u'"
      unfolding queued_def entries_advance_head [OF n] using e(3) j(2) by simp
    then show ?thesis using j ring_ok_advance_head [OF assms(3) n] own_index_advance [OF assms(4) n] by simp
  qed
  then show "ring_ok a (sq u')" "own_index (sq u')"
    "mset (map sqe_data (take j (queued u))) + mset (map sqe_data (queued u')) = mset (map sqe_data (queued u))" by blast+
qed

lemma enter_ok:
  assumes "kernel_ok a b inflight K" and "booked a b inflight X s"
  shows "booked a b inflight X (io_uring_enter K 0 m s) \<and> pending inflight (io_uring_enter K 0 m s) = pending inflight s \<and>
    asked (io_uring_enter K 0 m s) = asked s \<and> delivered (io_uring_enter K 0 m s) = delivered s \<and> world (io_uring_enter K 0 m s) = world s \<and>
    queued (rings (io_uring_enter K 0 m s)) = queued (rings s)"
proof -
  obtain u k where u: "enter K 0 m (rings s, kernel s) = (u, k)" by fastforce
  have r: "ring_ok a (sq (rings s))" "ring_ok b (cq (rings s))" "own_index (sq (rings s))" using assms(2) by (simp_all add: booked_def)
  from assms(1) r u obtain j cs where cs: "enters a b inflight 0 (rings s) (kernel s) u k j cs" unfolding kernel_ok_def by blast
  have q: "sq u = sq (rings s)" "queued u = queued (rings s)" using cs by (simp_all add: enters_def queued_def)
  have p: "pending inflight (io_uring_enter K 0 m s) = pending inflight s"
    using cs q by (simp add: io_uring_enter_def u pending_def enters_def ac_simps)
  have "booked a b inflight X (io_uring_enter K 0 m s)"
    using assms(2) cs p q by (simp add: booked_def enters_def) (simp add: io_uring_enter_def u)
  then show ?thesis using p q by (simp add: io_uring_enter_def u)
qed

lemma submit_overrun: "\<not> overrun (ring_submit K e s) \<Longrightarrow> \<not> overrun s \<and> used (sq (rings s)) \<le> unat (d_mask (sq (rings s)))"
  by (simp add: ring_submit_def intern_submit_def io_uring_enter_def Let_def used_def split: prod.splits)

lemma submit_ok:
  assumes "kernel_ok a b inflight K" and "booked a b inflight (add_mset (sqe_data e) X) s" and "\<not> overrun (ring_submit K e s)"
  shows "booked a b inflight X (ring_submit K e s) \<and> asked (ring_submit K e s) = asked s \<and> delivered (ring_submit K e s) = delivered s"
proof -
  let ?q = "sq (rings s)"
  let ?i = "ring_mask ?q (d_tail ?q)"
  let ?q' = "advance_tail (ring_put ?q (d_tail ?q) ?i)"
  let ?u = "(rings s)\<lparr>sqes := (sqes (rings s))(unat ?i := e), sq := ?q'\<rparr>"
  have qk: "ring_ok a ?q" "own_index ?q" and c: "ring_ok b (cq (rings s))" using assms(2) by (simp_all add: booked_def)
  have lt: "used ?q < 2 ^ a" using submit_overrun [OF assms(3)] qk(1) unat_mask32 [of a] by (simp add: ring_ok_def le_diff_conv2 Suc_le_eq)
  have e: "entries ?q' = entries ?q @ [?i]" by (rule entries_put [OF qk(1) lt])
  have ok: "ring_ok a ?q'" "own_index ?q'" by (rule ring_ok_put [OF qk(1) lt], rule own_index_put [OF qk(1) lt qk(2)])
  have qd: "queued ?u = queued (rings s) @ [e]" using queued_other [OF qk(1) lt qk(2), of e] by (simp add: queued_def e)
  obtain u k where u: "enter K 1 0 (?u, kernel s) = (u, k)" by fastforce
  have "ring_ok a (sq ?u)" "ring_ok b (cq ?u)" using ok(1) c by simp_all
  with assms(1) u obtain j cs where cs: "enters a b inflight 1 ?u (kernel s) u k j cs" unfolding kernel_ok_def by blast
  have m: "ring_ok a (sq u)" "own_index (sq u)"
      "mset (map sqe_data (take j (queued ?u))) + mset (map sqe_data (queued u)) = mset (map sqe_data (queued ?u))"
    using enters_moves [OF cs] ok by simp_all
  have sub: "\<exists>ov. ring_submit K e s = s\<lparr>d_outstanding := d_outstanding s + 1, overrun := ov, rings := u, kernel := k\<rparr>"
  proof -
    have "(rings s)\<lparr>sqes := (sqes (rings s))(unat ?i := e), sq := advance_tail (?q\<lparr>d_array := (d_array ?q)(unat ?i := ?i)\<rparr>)\<rparr> = ?u"
      by (simp add: ring_put_def)
    then show ?thesis using u by (simp add: ring_submit_def intern_submit_def io_uring_enter_def Let_def) blast
  qed
  then obtain ov where sub: "ring_submit K e s = s\<lparr>d_outstanding := d_outstanding s + 1, overrun := ov, rings := u, kernel := k\<rparr>" by blast
  have "inflight k + mset (map cqe_data cs) + mset (map sqe_data (queued u)) =
      inflight (kernel s) + (mset (map sqe_data (take j (queued ?u))) + mset (map sqe_data (queued u)))"
    using cs by (simp add: enters_def add.assoc)
  also have "\<dots> = inflight (kernel s) + mset (map sqe_data (queued (rings s))) + {#sqe_data e#}" by (subst m(3), subst qd) simp
  finally have "pending inflight (ring_submit K e s) = add_mset (sqe_data e) (pending inflight s)"
    using cs by (simp add: sub pending_def enters_def ac_simps)
  then have "booked a b inflight X (ring_submit K e s)"
    using assms(2) cs m(1,2) by (simp add: booked_def enters_def) (simp add: sub)
  then show ?thesis by (simp add: sub)
qed

lemmas ring_defs = ring_cancel_def ring_nop_def ring_timer_def ring_accept_def ring_connect_def ring_sendmsg_def
  ring_recvmsg_def ring_read_def ring_write_def ring_open_at_def

lemma ring_ask_submits: "\<exists>e. ring_ask K (r, c) s = ring_submit K e (s\<lparr>asked := asked s @ [c]\<rparr>) \<and> sqe_data e = c"
  by (cases r) (auto simp: ring_ask_def ring_defs)

lemma ring_ask_overrun: "\<not> overrun (ring_ask K rc s) \<Longrightarrow> \<not> overrun s"
proof (cases rc)
  case (Pair r c)
  assume "\<not> overrun (ring_ask K rc s)"
  with ring_ask_submits [of K r c s] Pair show ?thesis using submit_overrun by fastforce
qed

lemma asks_overrun: "\<not> overrun (fold (ring_ask K) rs s) \<Longrightarrow> \<not> overrun s"
  by (induction rs arbitrary: s) (auto dest: ring_ask_overrun)

lemma ring_ask_ok:
  assumes "kernel_ok a b inflight K" and "booked a b inflight X s" and "\<not> overrun (ring_ask K rc s)"
  shows "booked a b inflight X (ring_ask K rc s) \<and> delivered (ring_ask K rc s) = delivered s"
proof -
  obtain r c where rc: "rc = (r, c)" by (cases rc)
  let ?s = "s\<lparr>asked := asked s @ [c]\<rparr>"
  have b: "booked a b inflight (add_mset c X) ?s" using assms(2) by (simp add: booked_def pending_def)
  from ring_ask_submits [of K r c s] obtain e where "ring_ask K rc s = ring_submit K e ?s" "sqe_data e = c" using rc by blast
  then show ?thesis using submit_ok [OF assms(1), of e X ?s] b assms(3) by simp
qed

lemma asks_ok:
  "kernel_ok a b inflight K \<Longrightarrow> booked a b inflight X s \<Longrightarrow> \<not> overrun (fold (ring_ask K) rs s) \<Longrightarrow>
    booked a b inflight X (fold (ring_ask K) rs s) \<and> delivered (fold (ring_ask K) rs s) = delivered s"
proof (induction rs arbitrary: s)
  case (Cons rc rs)
  then have "\<not> overrun (ring_ask K rc s)" by (auto dest: asks_overrun)
  from ring_ask_ok [OF Cons.prems(1,2) this] Cons.IH [OF Cons.prems(1), of "ring_ask K rc s"] Cons.prems(3) show ?case by simp
qed simp

lemma ring_deliver_ok:
  assumes "kernel_ok a b inflight K" and "booked a b inflight (add_mset c X) s" and "\<not> overrun (ring_deliver K c rc s)"
  shows "booked a b inflight X (ring_deliver K c rc s) \<and> delivered (ring_deliver K c rc s) = delivered s @ [(c, rc)] \<and> \<not> overrun s"
proof -
  obtain rs w where h: "handler K c rc (world s) = (rs, w)" by fastforce
  let ?s = "s\<lparr>world := w, delivered := delivered s @ [(c, rc)]\<rparr>"
  have "booked a b inflight X ?s" using assms(2) by (simp add: booked_def pending_def)
  from asks_ok [OF assms(1) this, of rs] asks_overrun [of K rs ?s] assms(3) show ?thesis by (simp add: ring_deliver_def h)
qed

text \<open>With a result in the ring, the first one is delivered.\<close>

lemma process_ok:
  assumes "kernel_ok a b inflight K" and "booked a b inflight X s" and "process_result K s = (n, s')" and "\<not> overrun s'"
  shows "if entries (cq (rings s)) = [] then n = 0 \<and> s' = s
    else n = 1 \<and> booked a b inflight X s' \<and> (\<exists>c rc. delivered s' = delivered s @ [(c, rc)]) \<and> \<not> overrun s"
proof (cases "entries (cq (rings s))")
  case Nil
  then show ?thesis using assms(3) entries_empty [of "cq (rings s)"] by (simp add: process_result_def)
next
  case (Cons x xs)
  let ?q = "cq (rings s)"
  have n: "d_head ?q \<noteq> d_tail ?q" using entries_empty [of ?q] Cons by auto
  have x: "ring_get ?q (d_head ?q) = x" and xs: "entries (advance_head ?q) = xs" using entries_advance_head [OF n] Cons by auto
  let ?s = "s\<lparr>rings := (rings s)\<lparr>cq := advance_head ?q\<rparr>, d_outstanding := d_outstanding s - 1\<rparr>"
  have "ring_ok b (advance_head ?q)" using ring_ok_advance_head [OF _ n] assms(2) by (simp add: booked_def)
  then have b: "booked a b inflight (add_mset (cqe_data x) X) ?s"
    using assms(2) by (simp add: booked_def pending_def queued_def Cons xs)
  have r: "n = 1" "s' = ring_deliver K (cqe_data x) (res x) ?s" using assms(3) n x by (simp_all add: process_result_def Let_def)
  from ring_deliver_ok [OF assms(1) b, of "res x"] assms(4) r Cons show ?thesis by auto
qed

lemma run_one_ok:
  assumes "kernel_ok a b inflight K" and "booked a b inflight X s" and "ring_run_one K s = (n, s')" and "\<not> overrun s'"
  shows "booked a b inflight X s' \<and> \<not> overrun s \<and> (n = 0 \<and> delivered s' = delivered s \<and> asked s' = asked s \<or> n = 1 \<and> (\<exists>c rc. delivered s' = delivered s @ [(c, rc)]))"
proof (cases "d_outstanding s = 0")
  case True
  then show ?thesis using assms by (simp add: ring_run_one_def)
next
  case False
  note e = enter_ok [OF assms(1,2), of 1]
  have "process_result K (io_uring_enter K 0 1 s) = (n, s')" using assms(3) False by (simp add: ring_run_one_def)
  moreover have "overrun (io_uring_enter K 0 1 s) = overrun s" by (simp add: io_uring_enter_def split: prod.splits)
  ultimately show ?thesis using process_ok [OF assms(1) _ _ assms(4), of X "io_uring_enter K 0 1 s" n] e assms(4)
    by (simp split: if_splits)
qed

lemma run_one_overrun:
  assumes "\<not> overrun (snd (ring_run_one K s))"
  shows "\<not> overrun s"
proof -
  have "\<not> overrun (ring_deliver K c r u) \<Longrightarrow> \<not> overrun u" for c r u
    using asks_overrun [of K "fst (handler K c r (world u))" "u\<lparr>world := snd (handler K c r (world u)), delivered := delivered u @ [(c, r)]\<rparr>"]
    by (simp add: ring_deliver_def split: prod.splits)
  then have p: "\<not> overrun (snd (process_result K t)) \<Longrightarrow> \<not> overrun t" for t
    by (force simp: process_result_def Let_def split: if_splits)
  have e: "overrun (io_uring_enter K 0 1 s) = overrun s" by (simp add: io_uring_enter_def split: prod.splits)
  show ?thesis using assms p [of "io_uring_enter K 0 1 s"] e by (simp add: ring_run_one_def split: if_splits)
qed

lemma run_one_count: "fst (ring_run_one K s) \<le> 1"
  by (simp add: ring_run_one_def process_result_def Let_def)

interpretation rc: file_context "\<lambda>s. Returns (ring_run_one K s)" "\<lambda>s. kernel_ok a b inflight K \<and> (\<not> overrun s \<longrightarrow> booked a b inflight {#} s)" fits
    "\<lambda>s. d_outstanding s \<noteq> 0" "\<lambda>s. mset (asked s)" "\<lambda>s. mset (map fst (delivered s))" "pending inflight" for K a b inflight
proof (unfold_locales, goal_cases)
  case (1 s)
  then show ?case by (simp add: booked_def fits_def)
next
  case (2 s)
  then show ?case by simp
next
  case (3 s n s')
  then have r: "ring_run_one K s = (n, s')" by simp
  then have "n = 1" using run_one_count [of K s] 3(3) by simp
  then show ?case using r 3(1) run_one_ok [of a b inflight K "{#}" s n s'] run_one_overrun [of K s] by auto
next
  case (4 s s')
  then have r: "ring_run_one K s = (0, s')" "\<not> overrun s'" by (simp_all add: fits_def)
  then have "\<not> overrun s" using run_one_overrun [of K s] by auto
  then have b: "booked a b inflight {#} s'" using 4 run_one_ok [OF _ _ r] by auto
  then show ?case using outstanding_zero [OF b] 4 by (auto simp: fits_def) (simp_all add: booked_def)
qed

section \<open>Runs\<close>

text \<open>A new context on rings of \<open>2 ^ a\<close> and \<open>2 ^ b\<close> entries as \<^verbatim>\<open>io_uring_setup\<close> leaves them.\<close>

definition ring_new :: "nat \<Rightarrow> nat \<Rightarrow> (nat \<Rightarrow> 'p sqe) \<Rightarrow> (nat \<Rightarrow> cqe) \<Rightarrow> 'k \<Rightarrow> 'w \<Rightarrow> ('p, 'k, 'w) ring_context" where
  "ring_new a b es cs k w =
     \<lparr>rings = \<lparr>sq = \<lparr>d_head = 0, d_tail = 0, d_mask = mask a, d_array = (\<lambda>_. 0)\<rparr>, sqes = es,
               cq = \<lparr>d_head = 0, d_tail = 0, d_mask = mask b, d_array = cs\<rparr>\<rparr>,
      d_outstanding = 0, kernel = k, world = w, asked = [], delivered = [], overrun = False\<rparr>"

lemma ring_new_ok:
  assumes "a < 32" and "b < 32" and "inflight k = {#}"
  shows "booked a b inflight {#} (ring_new a b es cs k w)"
  using assms by (simp add: booked_def ring_new_def ring_ok_def used_def pending_def queued_def own_index_def entries_def)

text \<open>
  \<^verbatim>\<open>run\<close> of the context interface gives up when a wait ends without a result; \<^verbatim>\<open>ring_context::run\<close> goes on until nothing is outstanding.
\<close>

lemma ring_io_run_accounts:
  assumes "kernel_ok a b inflight K" and "booked a b inflight {#} s"
    and "io_run (\<lambda>s. Returns (ring_run_one K s)) s = Returns (cnt, s')" and "length (asked s') < 2 ^ 32" and "\<not> overrun s'"
  shows "mset (asked s') = mset (map fst (delivered s')) + pending inflight s' \<and> (d_outstanding s' \<noteq> 0 \<or> pending inflight s' = {#})"
  using rc.run_complete [OF _ assms(3), of a b inflight] assms by (simp add: fits_def)

text \<open>
  C10: Whatever is asked of a new ring context and whatever its continuations ask in turn, and whatever calls of \<^verbatim>\<open>io_uring_enter\<close> fail on the way: when
  \<^verbatim>\<open>ring_context::run\<close> returns, every continuation got exactly one result, and the value returned is their number, provided fewer than \<open>2 ^ 32\<close> operations were
  asked for and none was written to a full submission ring. The kernel takes at most the requests it is told to and gives each
  request it took at most one result.
\<close>

theorem ring_run_completes:
  assumes "kernel_ok a b inflight K" and "a < 32" and "b < 32" and "inflight k = {#}"
    and "ring_run K (fold (ring_ask K) rs (ring_new a b es cs k w)) = Returns (cnt, s')"
    and "length (asked s') < 2 ^ 32" and "\<not> overrun s'"
  shows "mset (map fst (delivered s')) = mset (asked s') \<and> pending inflight s' = {#} \<and> cnt = of_nat (length (asked s'))"
proof -
  let ?s = "fold (ring_ask K) rs (ring_new a b es cs k w)"
  let ?I = "\<lambda>(rc, t). \<not> overrun t \<longrightarrow> booked a b inflight {#} t \<and> rc = (of_nat (length (delivered t)) :: 64 word)"
  have new: "booked a b inflight {#} (ring_new a b es cs k w)" by (rule ring_new_ok) (use assms in simp_all)
  from assms(5) have l: "loop_while (\<lambda>(rc, s). d_outstanding s \<noteq> 0)
      (\<lambda>(rc, s). let (n, s) = ring_run_one K s in Some (rc + of_nat n, s)) (0, ?s) = Some (cnt, s')" by (simp add: ring_run_def)
  have "?I (cnt, s') \<and> \<not> (case (cnt, s') of (rc, s) \<Rightarrow> d_outstanding s \<noteq> 0)"
  proof (rule loop_while_partial [OF l, where I = ?I], goal_cases)
    case 1
    then show ?case using asks_ok [OF assms(1) new, of rs] by (simp add: ring_new_def)
  next
    case (2 x y)
    obtain rc t where x: "x = (rc, t)" by (cases x)
    obtain n t' where r: "ring_run_one K t = (n, t')" by fastforce
    then have y: "y = (rc + of_nat n, t')" using 2(3) x by simp
    have "booked a b inflight {#} t' \<and> rc + of_nat n = of_nat (length (delivered t'))" if "\<not> overrun t'"
    proof -
      have "booked a b inflight {#} t" "rc = of_nat (length (delivered t))" using that 2(1) x run_one_overrun [of K t] r by auto
      then show ?thesis using run_one_ok [OF assms(1) _ r that, of "{#}"] by auto
    qed
    then show ?case using y by simp
  qed
  then have b: "booked a b inflight {#} s'" "cnt = of_nat (length (delivered s'))" "d_outstanding s' = 0" using assms(7) by auto
  then have "pending inflight s' = {#}" using outstanding_zero [OF b(1) assms(6)] by simp
  with b pending_asked [OF b(1)] show ?thesis by (simp add: booked_def)
qed

definition quiet :: "('p, 'k, 'w) ring_env \<Rightarrow> bool" where
  "quiet K = (\<forall>c rc w. fst (handler K c rc w) = [])"

lemma deliver_asked:
  assumes "quiet K"
  shows "asked (ring_deliver K c rc s) = asked s"
proof -
  obtain w where "handler K c rc (world s) = ([], w)" using assms unfolding quiet_def by (metis prod.collapse)
  then show ?thesis by (simp add: ring_deliver_def)
qed

lemma run_one_asked: "quiet K \<Longrightarrow> asked (snd (ring_run_one K s)) = asked s"
  by (auto simp: ring_run_one_def process_result_def Let_def deliver_asked io_uring_enter_def split: prod.splits)

text \<open>
  A wait for a result can be cut short by a signal. \<open>patience\<close> bounds how often that still happens: with a request taken and nothing
  in the completion ring, a wait gives a result or is one of these.
\<close>

definition attentive :: "nat \<Rightarrow> nat \<Rightarrow> ('k \<Rightarrow> addr multiset) \<Rightarrow> ('k \<Rightarrow> nat) \<Rightarrow> ('p, 'k, 'w) ring_env \<Rightarrow> bool" where
  "attentive a b inflight patience K =
     (\<forall>u k u' k'. ring_ok a (sq u) \<longrightarrow> ring_ok b (cq u) \<longrightarrow> enter K 0 1 (u, k) = (u', k') \<longrightarrow>
        patience k' \<le> patience k \<and>
        (entries (cq u) = [] \<longrightarrow> inflight k \<noteq> {#} \<longrightarrow> entries (cq u') \<noteq> [] \<or> patience k' < patience k))"

lemma quiet_process:
  assumes "quiet K"
  shows "kernel (snd (process_result K s)) = kernel s \<and> queued (rings (snd (process_result K s))) = queued (rings s) \<and>
    overrun (snd (process_result K s)) = overrun s"
proof -
  have "\<exists>w. handler K c rc v = ([], w)" for c rc v using assms unfolding quiet_def by (metis prod.collapse)
  then have "kernel (ring_deliver K c rc t) = kernel t \<and> rings (ring_deliver K c rc t) = rings t \<and> overrun (ring_deliver K c rc t) = overrun t" for c rc t
  proof -
    obtain w where "handler K c rc (world t) = ([], w)" using \<open>\<And>c rc v. \<exists>w. handler K c rc v = ([], w)\<close> by blast
    then show ?thesis by (simp add: ring_deliver_def)
  qed
  then show ?thesis by (simp add: process_result_def Let_def queued_def)
qed

text \<open>A turn of the loop delivers a result or is a wait that was cut short.\<close>

lemma quiet_turn:
  assumes K: "kernel_ok a b inflight K" "attentive a b inflight patience K" "quiet K"
    and s: "booked a b inflight {#} s" "\<not> overrun s" "queued (rings s) = []" "length (asked s) < 2 ^ 32" "d_outstanding s \<noteq> 0"
    and r: "ring_run_one K s = (n, s')"
  shows "booked a b inflight {#} s' \<and> \<not> overrun s' \<and> queued (rings s') = [] \<and> asked s' = asked s \<and>
    n + size (pending inflight s') = size (pending inflight s) \<and>
    size (pending inflight s') + patience (kernel s') < size (pending inflight s) + patience (kernel s)"
proof -
  define t where "t = io_uring_enter K 0 1 s"
  obtain u k where u: "enter K 0 1 (rings s, kernel s) = (u, k)" by fastforce
  then have t: "t = s\<lparr>rings := u, kernel := k\<rparr>" by (simp add: t_def io_uring_enter_def)
  have p: "process_result K t = (n, s')" using r s(5) by (simp add: ring_run_one_def t_def)
  note e = enter_ok [OF K(1) s(1), of 1, folded t_def]
  have same: "kernel s' = k" "queued (rings s') = []" "\<not> overrun s'"
    using quiet_process [OF K(3), of t] p e s(2,3) t by simp_all
  have asked: "asked s' = asked s" using run_one_asked [OF K(3), of s] r by simp
  have ok: "ring_ok a (sq (rings s))" "ring_ok b (cq (rings s))" using s(1) by (simp_all add: booked_def)
  have le: "patience k \<le> patience (kernel s)"
    and prog: "entries (cq (rings s)) = [] \<Longrightarrow> inflight (kernel s) \<noteq> {#} \<Longrightarrow> entries (cq u) \<noteq> [] \<or> patience k < patience (kernel s)"
    using K(2) ok u unfolding attentive_def by blast+
  have grow: "\<exists>c. entries (cq u) = entries (cq (rings s)) @ c" using K(1) ok u unfolding kernel_ok_def enters_def by blast
  have "pending inflight s \<noteq> {#}" using outstanding_zero [OF s(1,4)] s(5) by simp
  then have cut: "entries (cq u) \<noteq> [] \<or> patience k < patience (kernel s)"
    using prog grow s(3) by (fastforce simp: pending_def)
  have pr: "if entries (cq u) = [] then n = 0 \<and> s' = t
      else n = 1 \<and> booked a b inflight {#} s' \<and> (\<exists>c rc. delivered s' = delivered t @ [(c, rc)]) \<and> \<not> overrun t"
    using process_ok [OF K(1) _ p same(3), of "{#}"] e t by simp
  show ?thesis
  proof (cases "entries (cq u) = []")
    case True
    with pr have p': "n = 0" "s' = t" by simp_all
    then have "pending inflight s' = pending inflight s" "booked a b inflight {#} s'" using e by simp_all
    then show ?thesis using cut same asked True p'(1) by simp
  next
    case False
    then have b: "booked a b inflight {#} s'" and n: "n = 1" and "length (delivered s') = Suc (length (delivered s))" using pr e by auto
    then have "Suc (size (pending inflight s')) = size (pending inflight s)" using pending_asked [OF b] pending_asked [OF s(1)] asked by simp
    then show ?thesis using b n le same asked by simp
  qed
qed

lemma quiet_run:
  assumes K: "kernel_ok a b inflight K" "attentive a b inflight patience K" "quiet K"
    and s: "booked a b inflight {#} s" "\<not> overrun s" "queued (rings s) = []" "length (asked s) < 2 ^ 32"
  shows "\<exists>rc s'. ring_run K s = Returns (rc, s') \<and> booked a b inflight {#} s' \<and> asked s' = asked s \<and>
    rc + of_nat (size (pending inflight s')) = of_nat (size (pending inflight s)) \<and> d_outstanding s' = 0"
proof -
  let ?I = "\<lambda>(rc, t). booked a b inflight {#} t \<and> \<not> overrun t \<and> queued (rings t) = [] \<and> asked t = asked s \<and>
    rc + of_nat (size (pending inflight t)) = (of_nat (size (pending inflight s)) :: 64 word)"
  have "\<exists>x. loop_while (\<lambda>(rc, s). d_outstanding s \<noteq> 0) (\<lambda>(rc, s). let (n, s) = ring_run_one K s in Some (rc + of_nat n, s)) (0 :: 64 word, s) = Some x \<and>
    ?I x \<and> \<not> (case x of (rc, s) \<Rightarrow> d_outstanding s \<noteq> 0)"
  proof (rule loop_while_total [where I = ?I and m = "\<lambda>(rc, t). size (pending inflight t) + patience (kernel t)"], goal_cases)
    case 1
    then show ?case using s by simp
  next
    case (2 x)
    obtain rc t where x: "x = (rc, t)" by (cases x)
    obtain n t' where r: "ring_run_one K t = (n, t')" by fastforce
    from 2 x have t: "booked a b inflight {#} t" "\<not> overrun t" "queued (rings t) = []" "length (asked t) < 2 ^ 32" "d_outstanding t \<noteq> 0"
      "asked t = asked s" "rc + of_nat (size (pending inflight t)) = of_nat (size (pending inflight s))" using s(4) by auto
    note q = quiet_turn [OF K t(1-5) r]
    then have "rc + of_nat n + of_nat (size (pending inflight t')) = (of_nat (size (pending inflight s)) :: 64 word)"
      using t(7) by (metis add.assoc of_nat_add)
    with q show ?case using x r t(6) by simp
  qed
  then show ?thesis by (auto simp: ring_run_def)
qed

text \<open>
  C14: With continuations that ask for nothing more, \<^verbatim>\<open>ring_context::run\<close> returns: it counts the operations that were pending and has delivered them all, provided
  every request was taken by the kernel when it was submitted (none is left in the submission ring), the kernel completes the requests it has taken, waits for
  a result fail or are interrupted only finitely often, and fewer than \<open>2 ^ 32\<close> operations were asked for. That the first condition is needed is shown below.
\<close>

theorem ring_run_returns:
  assumes K: "kernel_ok a b inflight K" "attentive a b inflight patience K" "quiet K"
    and s: "booked a b inflight {#} s" "\<not> overrun s" "queued (rings s) = []" "length (asked s) < 2 ^ 32"
  shows "\<exists>s'. ring_run K s = Returns (of_nat (size (pending inflight s)), s') \<and>
    mset (map fst (delivered s')) = mset (asked s) \<and> pending inflight s' = {#}"
proof -
  from quiet_run [OF K s] obtain rc s' where r: "ring_run K s = Returns (rc, s')" and I: "booked a b inflight {#} s'" "asked s' = asked s"
      "rc + of_nat (size (pending inflight s')) = of_nat (size (pending inflight s))" "d_outstanding s' = 0" by blast
  have "pending inflight s' = {#}" using outstanding_zero [OF I(1)] I(2,4) s(4) by simp
  with r I show ?thesis by (auto simp: booked_def)
qed

text \<open>
  The result of \<^verbatim>\<open>io_uring_enter\<close> is not looked at: with a kernel that refuses what is submitted, \<^verbatim>\<open>run\<close> does not return, and no continuation learns of it.
\<close>

theorem ring_submit_refused:
  assumes "\<And>n m x. enter K n m x = x" and "d_outstanding s = 0" and "d_head (cq (rings s)) = d_tail (cq (rings s))"
  shows "ring_run K (ring_ask K rc s) = Hangs"
proof -
  obtain r c where rc: "rc = (r, c)" by (cases rc)
  have "\<exists>e. ring_ask K rc s = ring_submit K e (s\<lparr>asked := asked s @ [c]\<rparr>)" unfolding rc by (cases r) (auto simp: ring_ask_def ring_defs)
  then obtain e where e: "ring_ask K rc s = ring_submit K e (s\<lparr>asked := asked s @ [c]\<rparr>)" by blast
  let ?I = "\<lambda>(rc, t). d_outstanding t = 1 \<and> d_head (cq (rings t)) = d_tail (cq (rings t))"
  have "loop_while (\<lambda>(rc, s). d_outstanding s \<noteq> 0) (\<lambda>(rc, s). let (n, s) = ring_run_one K s in Some (rc + of_nat n, s)) (0 :: 64 word, ring_ask K rc s) = None"
  proof (rule loop_while_diverges [where I = ?I], goal_cases)
    case 1
    then show ?case using assms by (simp add: e ring_submit_def intern_submit_def io_uring_enter_def Let_def)
  next
    case (2 x)
    then show ?case by auto
  next
    case (3 x y)
    then show ?case using assms(1) by (auto simp: ring_run_one_def process_result_def io_uring_enter_def Let_def)
  qed
  then show ?thesis by (simp add: ring_run_def)
qed

section \<open>The theorems at work\<close>

text \<open>A kernel that answers every request with 0, as soon as there is room for the result.\<close>

definition post :: "addr \<Rightarrow> cqe ring \<Rightarrow> cqe ring" where
  "post c q = advance_tail (ring_put q (d_tail q) \<lparr>cqe_data = c, res = 0\<rparr>)"

definition echo_env :: "nat \<Rightarrow> ('p, addr list, unit) ring_env" where
  "echo_env b =
     \<lparr>enter = (\<lambda>n m (u, k).
        let k1 = k @ map sqe_data (take n (queued u)); room = 2 ^ b - used (cq u)
        in (u\<lparr>sq := (sq u)\<lparr>d_head := d_head (sq u) + of_nat (min n (used (sq u)))\<rparr>, cq := fold post (take room k1) (cq u)\<rparr>, drop room k1)),
      handler = (\<lambda>c rc w. ([], w))\<rparr>"

lemma post_all:
  "ring_ok b q \<Longrightarrow> used q + length cs \<le> 2 ^ b \<Longrightarrow>
    ring_ok b (fold post cs q) \<and> entries (fold post cs q) = entries q @ map (\<lambda>c. \<lparr>cqe_data = c, res = 0\<rparr>) cs"
proof (induction cs arbitrary: q)
  case (Cons c cs)
  have u: "used q < 2 ^ b" using Cons.prems(2) by simp
  have "ring_ok b (post c q)" unfolding post_def by (rule ring_ok_put [OF Cons.prems(1) u])
  moreover have e: "entries (post c q) = entries q @ [\<lparr>cqe_data = c, res = 0\<rparr>]" unfolding post_def by (rule entries_put [OF Cons.prems(1) u])
  moreover have "used (post c q) = Suc (used q)" using length_entries [of "post c q"] e by simp
  ultimately show ?case using Cons by simp
qed simp

lemma echo_ok: "kernel_ok a b mset (echo_env b)"
  unfolding kernel_ok_def
proof (intro allI impI)
  fix n m u k u' k'
  assume r: "ring_ok a (sq u)" "ring_ok b (cq u)" and e: "enter (echo_env b) n m (u, k) = (u', k')"
  define k1 where "k1 = k @ map sqe_data (take n (queued u))"
  define room where "room = 2 ^ b - used (cq u)"
  let ?cs = "map (\<lambda>c. \<lparr>cqe_data = c, res = 0\<rparr>) (take room k1)"
  have le: "used (cq u) + length (take room k1) \<le> 2 ^ b" using r(2) by (auto simp: room_def ring_ok_def)
  have u': "u' = u\<lparr>sq := (sq u)\<lparr>d_head := d_head (sq u) + of_nat (min n (used (sq u)))\<rparr>, cq := fold post (take room k1) (cq u)\<rparr>" "k' = drop room k1"
    using e by (simp_all add: echo_env_def k1_def room_def Let_def)
  have "mset (drop room k1) + mset (take room k1) = mset k1" by (metis append_take_drop_id mset_append add.commute)
  moreover have "take n (queued u) = take (min n (used (sq u))) (queued u)" by (simp add: queued_def min_def)
  ultimately have "enters a b mset n u k u' k' (min n (used (sq u))) ?cs"
    using post_all [OF r(2) le] by (simp add: enters_def u' k1_def comp_def)
  then show "\<exists>j cs. enters a b mset n u k u' k' j cs" by blast
qed

lemma echo_attentive: "attentive a b mset (\<lambda>_. 0) (echo_env b)"
  unfolding attentive_def
proof (intro allI impI conjI)
  fix u k u' k'
  assume r: "ring_ok b (cq u)" and e: "enter (echo_env b) 0 1 (u, k) = (u', k')" and k: "entries (cq u) = []" "mset k \<noteq> {#}"
  have z: "used (cq u) = 0" using k(1) length_entries [of "cq u"] by simp
  have "cq u' = fold post (take (2 ^ b) k) (cq u)" using e z by (auto simp: echo_env_def Let_def)
  then have "entries (cq u') = map (\<lambda>c. \<lparr>cqe_data = c, res = 0\<rparr>) (take (2 ^ b) k)" using post_all [OF r, of "take (2 ^ b) k"] z k(1) by simp
  then show "entries (cq u') \<noteq> [] \<or> (0 :: nat) < 0" using k(2) by simp
qed simp

lemma echo_quiet: "quiet (echo_env b)"
  by (simp add: quiet_def echo_env_def)

abbreviation echo_new :: "(nat, addr list, unit) ring_context" where
  "echo_new \<equiv> ring_new 1 1 (\<lambda>_. sqe_zero) (\<lambda>_. \<lparr>cqe_data = 0, res = 0\<rparr>) [] ()"

lemma echo_new_ok: "booked 1 1 mset {#} echo_new"
  by (rule ring_new_ok) simp_all

text \<open>It takes what is submitted at once.\<close>

lemma echo_ask:
  assumes "booked 1 1 mset {#} s" "queued (rings s) = []" "\<not> overrun s"
  shows "booked 1 1 mset {#} (ring_ask (echo_env 1) rc s) \<and> queued (rings (ring_ask (echo_env 1) rc s)) = [] \<and>
    \<not> overrun (ring_ask (echo_env 1) rc s) \<and> asked (ring_ask (echo_env 1) rc s) = asked s @ [snd rc]"
proof -
  obtain r c where rc: "rc = (r, c)" by (cases rc)
  from ring_ask_submits [of "echo_env 1" r c s] obtain e where e: "ring_ask (echo_env 1) rc s = ring_submit (echo_env 1) e (s\<lparr>asked := asked s @ [c]\<rparr>)"
    using rc by blast
  have h: "d_head (sq (rings s)) = d_tail (sq (rings s))" using assms(2) entries_empty [of "sq (rings s)"] by (simp add: queued_def)
  have o: "\<not> overrun (ring_ask (echo_env 1) rc s) \<and> asked (ring_ask (echo_env 1) rc s) = asked s @ [c]"
    using h assms(3) unfolding e by (simp add: ring_submit_def intern_submit_def io_uring_enter_def Let_def echo_env_def used_def)
  have "sq (rings (ring_ask (echo_env 1) rc s)) = advance_head (advance_tail (ring_put (sq (rings s)) (d_tail (sq (rings s))) (ring_mask (sq (rings s)) (d_tail (sq (rings s))))))"
    using h unfolding e by (simp add: ring_submit_def intern_submit_def io_uring_enter_def Let_def echo_env_def used_def advance_tail_def advance_head_def ring_put_def)
  then have "queued (rings (ring_ask (echo_env 1) rc s)) = []"
    using h by (simp add: queued_def entries_def used_def advance_tail_def advance_head_def ring_put_def)
  with o ring_ask_ok [OF echo_ok assms(1), of rc] rc show ?thesis by simp
qed

lemma echo_asks:
  "booked 1 1 mset {#} s \<Longrightarrow> queued (rings s) = [] \<Longrightarrow> \<not> overrun s \<Longrightarrow>
   (let t = fold (ring_ask (echo_env 1)) rs s
    in booked 1 1 mset {#} t \<and> queued (rings t) = [] \<and> \<not> overrun t \<and> asked t = asked s @ map snd rs)"
proof (induction rs arbitrary: s)
  case (Cons rc rs)
  then show ?case using echo_ask [OF Cons.prems, of rc] Cons.IH [of "ring_ask (echo_env 1) rc s"] by simp
qed simp

lemma echo_asked:
  "let t = fold (ring_ask (echo_env 1)) rs echo_new
   in booked 1 1 mset {#} t \<and> queued (rings t) = [] \<and> \<not> overrun t \<and> asked t = map snd rs \<and> delivered t = []"
proof -
  have q: "queued (rings echo_new) = []" "\<not> overrun echo_new" "asked echo_new = []" "delivered echo_new = []"
    by (simp_all add: ring_new_def queued_def entries_def used_def)
  from echo_asks [OF echo_new_ok q(1,2), of rs] asks_ok [OF echo_ok echo_new_ok, of rs] q show ?thesis by (simp add: Let_def)
qed

text \<open>Three operations on a completion ring with two entries.\<close>

theorem ring_run_returns_witness:
  "\<exists>s'. ring_run (echo_env 1) (fold (ring_ask (echo_env 1)) [(R_nop, 5), (R_nop, 6), (R_read 4 0 1, 7)] echo_new) = Returns (3, s') \<and>
     mset (map fst (delivered s')) = {#5, 6, 7#}"
proof -
  let ?s = "fold (ring_ask (echo_env 1)) [(R_nop, 5), (R_nop, 6), (R_read 4 0 1, 7)] echo_new"
  have s: "booked 1 1 mset {#} ?s" "\<not> overrun ?s" "queued (rings ?s) = []" "asked ?s = [5, 6, 7]" "delivered ?s = []"
    using echo_asked [of "[(R_nop, 5), (R_nop, 6), (R_read 4 0 1, 7)]"] unfolding Let_def by simp_all
  have "size (pending mset ?s) = 3" using pending_asked [OF s(1)] s(4,5) by simp
  then show ?thesis using ring_run_returns [OF echo_ok echo_attentive echo_quiet s(1-3)] unfolding s(4) by (auto simp: \<open>size _ = 3\<close>)
qed

lemma quiet_overrun:
  assumes "quiet K" and "ring_run K s = Returns (cnt, s')"
  shows "asked s' = asked s \<and> overrun s' = overrun s"
proof -
  let ?I = "\<lambda>(rc :: 64 word, t). asked t = asked s \<and> overrun t = overrun s"
  from assms(2) have l: "loop_while (\<lambda>(rc, s). d_outstanding s \<noteq> 0)
      (\<lambda>(rc, s). let (n, s) = ring_run_one K s in Some (rc + of_nat n, s)) (0, s) = Some (cnt, s')" by (simp add: ring_run_def)
  have "overrun (snd (ring_run_one K t)) = overrun t" for t
    using quiet_process [OF assms(1)] by (simp add: ring_run_one_def io_uring_enter_def split: prod.splits)
  with run_one_asked [OF assms(1)] have step: "asked t' = asked t \<and> overrun t' = overrun t" if "ring_run_one K t = (n, t')" for t t' n
    using that by (metis snd_conv)
  have "?I (cnt, s') \<and> \<not> (case (cnt, s') of (rc, s) \<Rightarrow> d_outstanding s \<noteq> 0)"
    by (rule loop_while_partial [OF l, where I = ?I]) (simp, clarsimp simp: step split: prod.splits)
  then show ?thesis by simp
qed

theorem ring_run_completes_witness:
  "\<exists>s'. ring_run (echo_env 1) (fold (ring_ask (echo_env 1)) [(R_nop, 5), (R_read 4 0 1, 7)] echo_new) = Returns (2, s') \<and>
     mset (map fst (delivered s')) = {#5, 7#}"
proof -
  let ?s = "fold (ring_ask (echo_env 1)) [(R_nop, 5), (R_read 4 0 1, 7)] echo_new"
  have s: "booked 1 1 mset {#} ?s" "\<not> overrun ?s" "queued (rings ?s) = []" "asked ?s = [5, 7]"
    using echo_asked [of "[(R_nop, 5), (R_read 4 0 1, 7)]"] unfolding Let_def by simp_all
  from quiet_run [OF echo_ok echo_attentive echo_quiet s(1-3)] s(4) obtain cnt s' where r: "ring_run (echo_env 1) ?s = Returns (cnt, s')" by auto
  have "asked s' = [5, 7]" "\<not> overrun s'" using quiet_overrun [OF echo_quiet r] s by simp_all
  with ring_run_completes [OF echo_ok [of 1 1] _ _ _ r] r show ?thesis by auto
qed

definition refusing_env :: "(nat, unit, unit) ring_env" where
  "refusing_env = \<lparr>enter = (\<lambda>n m x. x), handler = (\<lambda>c rc w. ([], w))\<rparr>"

theorem ring_submit_refused_witness:
  "ring_run refusing_env (ring_ask refusing_env (R_nop, 5) (ring_new 1 1 (\<lambda>_. sqe_zero) (\<lambda>_. \<lparr>cqe_data = 0, res = 0\<rparr>) () ())) = Hangs"
  by (rule ring_submit_refused) (simp_all add: refusing_env_def ring_new_def)

end
