(* ===== verification/Resources.thy ===== *)
theory Resources
  imports Ring
begin

text \<open>
  The owners of system resources: \<^verbatim>\<open>descriptor\<close> of \<^verbatim>\<open>src/src/nstd/file/descriptor.{hpp,cpp}\<close> for file descriptors, \<^verbatim>\<open>mapped_memory\<close> of
  \<^verbatim>\<open>src/src/nstd/file/mapped_memory.{hpp,cpp}\<close>, and \<^verbatim>\<open>ring_context::setup\<close>, which maps the rings.
\<close>

unbundle bit_operations_syntax

section \<open>descriptor\<close>

text \<open>The objects that live, by address, with their \<^verbatim>\<open>d_fd\<close>; what was opened and closed so far.\<close>

record descriptors =
  d_fd :: "addr \<rightharpoonup> int"
  opened :: "int list"
  closed :: "int list"

definition close_fd :: "int \<Rightarrow> descriptors \<Rightarrow> descriptors" where
  "close_fd fd s = (if fd < 0 then s else s\<lparr>closed := closed s @ [fd]\<rparr>)"

text \<open>The operations; \<^const>\<open>None\<close> is an access to an object that does not exist, or a second one at an address in use.\<close>

datatype descriptor_op = Construct addr int | Move_construct addr addr | Move_assign addr addr | Destroy addr

fun descriptor_step :: "descriptor_op \<Rightarrow> descriptors \<Rightarrow> descriptors option" where
  "descriptor_step (Construct x fd) s =
     (if x \<in> dom (d_fd s) then None
      else Some (s\<lparr>d_fd := (d_fd s)(x \<mapsto> fd), opened := (if fd < 0 then opened s else opened s @ [fd])\<rparr>))"
| "descriptor_step (Move_construct x other) s =
     (if x \<in> dom (d_fd s) then None
      else do { fd \<leftarrow> d_fd s other; Some (s\<lparr>d_fd := (d_fd s)(other \<mapsto> -1, x \<mapsto> fd)\<rparr>) })"
| "descriptor_step (Move_assign x other) s =
     do { old \<leftarrow> d_fd s x;
          fd \<leftarrow> d_fd s other;
          Some (if x \<noteq> other
                then let s = close_fd old s in s\<lparr>d_fd := (d_fd s)(other \<mapsto> -1, x \<mapsto> fd)\<rparr>
                else s) }"
| "descriptor_step (Destroy x) s =
     do { fd \<leftarrow> d_fd s x; let s = close_fd fd s in Some (s\<lparr>d_fd := (d_fd s)(x := None)\<rparr>) }"

definition is_open :: "addr \<Rightarrow> descriptors \<Rightarrow> bool" where
  "is_open x s = (case d_fd s x of Some fd \<Rightarrow> 0 \<le> fd | None \<Rightarrow> False)"

fun descriptor_run :: "descriptor_op list \<Rightarrow> descriptors \<Rightarrow> descriptors option" where
  "descriptor_run [] s = Some s"
| "descriptor_run (op # ops) s = do { s \<leftarrow> descriptor_step op s; descriptor_run ops s }"

definition no_descriptors :: descriptors where
  "no_descriptors = \<lparr>d_fd = Map.empty, opened = [], closed = []\<rparr>"

text \<open>What the objects own.\<close>

definition fds :: "(addr \<rightharpoonup> int) \<Rightarrow> int multiset" where
  "fds m = filter_mset (\<lambda>fd. 0 \<le> fd) (image_mset (\<lambda>x. the (m x)) (mset_set (dom m)))"

definition owning :: "descriptors \<Rightarrow> bool" where
  "owning s = (finite (dom (d_fd s)) \<and> mset (opened s) = mset (closed s) + fds (d_fd s))"

abbreviation own :: "int \<Rightarrow> int multiset" where
  "own fd \<equiv> (if 0 \<le> fd then {#fd#} else {#})"

lemma fds_remove:
  assumes "finite (dom m)" and "m x = Some fd"
  shows "fds m = own fd + fds (m(x := None))"
proof -
  have "mset_set (dom m) = add_mset x (mset_set (dom m - {x}))"
    using assms by (metis domI mset_set.remove)
  moreover have "image_mset (\<lambda>y. the ((m(x := None)) y)) (mset_set (dom m - {x})) = image_mset (\<lambda>y. the (m y)) (mset_set (dom m - {x}))"
    using assms(1) by (intro image_mset_cong) auto
  ultimately show ?thesis using assms(2) by (simp add: fds_def)
qed

lemma fds_insert:
  assumes "finite (dom m)"
  shows "fds (m(x \<mapsto> fd)) = own fd + fds (m(x := None))"
  using fds_remove [of "m(x \<mapsto> fd)" x fd] assms by simp

lemma fds_fresh: "finite (dom m) \<Longrightarrow> x \<notin> dom m \<Longrightarrow> fds (m(x \<mapsto> fd)) = own fd + fds m"
  using fds_insert [of m x fd] by (simp add: fun_upd_idem domIff)

lemma fds_move:
  assumes "finite (dom m)" and "m y = Some fd" and "x \<noteq> y"
  shows "fds (m(y \<mapsto> -1, x \<mapsto> fd)) + own (case m x of Some old \<Rightarrow> old | None \<Rightarrow> -1) = fds m"
proof -
  have f: "finite (dom (m(x := None)))" "finite (dom (m(y \<mapsto> -1)))" using assms(1) by simp_all
  have "fds (m(y \<mapsto> -1, x \<mapsto> fd)) = own fd + fds ((m(x := None))(y \<mapsto> -1))"
    using fds_insert [OF f(2), of x fd] assms(3) by (simp add: fun_upd_twist)
  also have "fds ((m(x := None))(y \<mapsto> -1)) = fds ((m(x := None))(y := None))" using fds_insert [OF f(1), of y "-1"] by simp
  also have "own fd + fds ((m(x := None))(y := None)) = fds (m(x := None))" using fds_remove [OF f(1), of y fd] assms by simp
  finally have e: "fds (m(y \<mapsto> -1, x \<mapsto> fd)) = fds (m(x := None))" .
  show ?thesis
  proof (cases "m x")
    case None
    then show ?thesis using e by (simp add: fun_upd_idem)
  next
    case (Some old)
    then show ?thesis using e fds_remove [OF assms(1) Some] by simp
  qed
qed

lemma descriptor_step_owning:
  assumes "owning s" and "descriptor_step op s = Some s'"
  shows "owning s'"
proof -
  have f: "finite (dom (d_fd s))" and m: "mset (opened s) = mset (closed s) + fds (d_fd s)" using assms(1) by (simp_all add: owning_def)
  show ?thesis
  proof (cases op)
    case (Construct x fd)
    then show ?thesis using assms(2) f m fds_fresh [OF f, of x fd] by (auto simp: owning_def domIff split: if_splits)
  next
    case (Move_construct x y)
    then obtain fd where y: "d_fd s y = Some fd" "x \<notin> dom (d_fd s)" and s': "s' = s\<lparr>d_fd := (d_fd s)(y \<mapsto> -1, x \<mapsto> fd)\<rparr>"
      using assms(2) by (auto split: if_splits bind_splits)
    have ne: "x \<noteq> y" using y by auto
    show ?thesis using fds_move [OF f y(1) ne] y(2) f m by (simp add: owning_def s' domIff)
  next
    case (Move_assign x y)
    then obtain old fd where y: "d_fd s x = Some old" "d_fd s y = Some fd"
        and s': "s' = (if x \<noteq> y then (close_fd old s)\<lparr>d_fd := (d_fd (close_fd old s))(y \<mapsto> -1, x \<mapsto> fd)\<rparr> else s)"
      using assms(2) by (auto split: bind_splits simp: Let_def)
    show ?thesis
    proof (cases "x = y")
      case False
      then show ?thesis using fds_move [OF f y(2) False] y(1) f m
        by (auto simp: owning_def s' close_fd_def not_less split: if_splits)
    qed (use assms(1) s' in simp)
  next
    case (Destroy x)
    then obtain fd where x: "d_fd s x = Some fd" and s': "s' = (close_fd fd s)\<lparr>d_fd := (d_fd (close_fd fd s))(x := None)\<rparr>"
      using assms(2) by (auto split: bind_splits simp: Let_def)
    show ?thesis using fds_remove [OF f x] f m by (auto simp: owning_def s' close_fd_def not_less split: if_splits)
  qed
qed

text \<open>
  C30: Descriptors are closed exactly once: in every sequence of constructions, moves and destructions, what was opened is what was closed and what living
  objects still own, and when no object is left, everything that was opened has been closed once.
\<close>

theorem descriptors_closed_once:
  assumes "descriptor_run ops no_descriptors = Some s"
  shows "mset (opened s) = mset (closed s) + fds (d_fd s) \<and> (dom (d_fd s) = {} \<longrightarrow> mset (closed s) = mset (opened s))"
proof -
  have "owning t \<Longrightarrow> descriptor_run ops t = Some s \<Longrightarrow> owning s" for t
    by (induction ops arbitrary: t) (auto split: bind_splits dest: descriptor_step_owning)
  moreover have "owning no_descriptors" by (simp add: owning_def no_descriptors_def fds_def)
  ultimately have "owning s" using assms by blast
  then show ?thesis by (auto simp: owning_def fds_def)
qed

theorem descriptors_closed_once_witness:
  "\<exists>s. descriptor_run [Construct 1 5, Construct 2 6, Move_construct 3 1, Move_assign 3 2, Destroy 1, Destroy 2, Destroy 3] no_descriptors = Some s \<and>
     mset (closed s) = {#5, 6#}"
proof -
  let ?ops = "[Construct 1 5, Construct 2 6, Move_construct 3 1, Move_assign 3 2, Destroy 1, Destroy 2, Destroy 3]"
  have "\<exists>s. descriptor_run ?ops no_descriptors = Some s \<and> dom (d_fd s) = {} \<and> opened s = [5, 6]"
    by (simp add: no_descriptors_def close_fd_def dom_def)
  then obtain s where s: "descriptor_run ?ops no_descriptors = Some s" "dom (d_fd s) = {}" "opened s = [5, 6]" by blast
  have "mset (closed s) = mset (opened s)" using descriptors_closed_once [OF s(1)] s(2) by blast
  then have "mset (closed s) = {#5, 6#}" by (simp add: s(3))
  with s(1) show ?thesis by blast
qed

section \<open>mapped_memory\<close>

text \<open>\<^const>\<open>None\<close> is the null pointer. \<open>mmap len fd off\<close> is the system call, \<^const>\<open>None\<close> for \<^verbatim>\<open>MAP_FAILED\<close>.\<close>

record mapped_memory =
  d_base :: "addr option"
  d_length :: nat

type_synonym mmap = "nat \<Rightarrow> int \<Rightarrow> nat \<Rightarrow> addr option"

definition mm_empty :: mapped_memory where
  "mm_empty = \<lparr>d_base = None, d_length = 0\<rparr>"

definition mm_map :: "mmap \<Rightarrow> nat \<Rightarrow> int \<Rightarrow> nat \<Rightarrow> mapped_memory \<Rightarrow> bool \<times> mapped_memory" where
  "mm_map mmap len fd off m =
     (let m = m\<lparr>d_length := len\<rparr> in
      case mmap len fd off of
        None \<Rightarrow> (False, m\<lparr>d_base := None\<rparr>)
      | Some b \<Rightarrow> (True, m\<lparr>d_base := Some b\<rparr>))"

text \<open>The move constructor: the new object and what is left of the old one. The destructor: the calls of \<^verbatim>\<open>munmap\<close>.\<close>

definition mm_move :: "mapped_memory \<Rightarrow> mapped_memory \<times> mapped_memory" where
  "mm_move other = (\<lparr>d_base = d_base other, d_length = 0\<rparr>, other\<lparr>d_base := None\<rparr>)"

definition mm_destroy :: "mapped_memory \<Rightarrow> (addr \<times> nat) list" where
  "mm_destroy m = (case d_base m of None \<Rightarrow> [] | Some b \<Rightarrow> [(b, d_length m)])"

definition mm_at_offset :: "mapped_memory \<Rightarrow> nat \<Rightarrow> addr option" where
  "mm_at_offset m off = map_option (\<lambda>b. b + off) (d_base m)"

text \<open>A mapped region is unmapped with its length, but with length 0 once it was moved: it stays mapped.\<close>

lemma mm_unmaps: "mm_map mmap len fd off m = (True, m') \<Longrightarrow> \<exists>b. mmap len fd off = Some b \<and> mm_destroy m' = [(b, len)]"
  by (auto simp: mm_map_def mm_destroy_def Let_def split: option.splits)

lemma mm_move_forgets_length:
  "mm_map mmap len fd off m = (True, m') \<Longrightarrow> mm_destroy (fst (mm_move m')) = [(the (d_base m'), 0)] \<and> mm_destroy (snd (mm_move m')) = []"
  by (auto simp: mm_map_def mm_destroy_def mm_move_def Let_def split: option.splits)

section \<open>ring_context::setup\<close>

record uring_params =
  sq_entries :: "32 word"
  cq_entries :: "32 word"
  sq_off_array :: "32 word"
  cq_off_cqes :: "32 word"
  single_mmap :: bool

record ring_maps =
  smem :: mapped_memory
  cmem :: mapped_memory
  emem :: mapped_memory

definition IORING_OFF_SQ_RING :: nat where "IORING_OFF_SQ_RING = 0"
definition IORING_OFF_CQ_RING :: nat where "IORING_OFF_CQ_RING = 0x8000000"
definition IORING_OFF_SQES :: nat where "IORING_OFF_SQES = 0x10000000"

text \<open>
  \<open>res\<close> is the result of \<^verbatim>\<open>io_uring_setup\<close>: the descriptor with the parameters the kernel filled in, or \<^const>\<open>None\<close>; \<open>err\<close> is \<^verbatim>\<open>errno\<close> after a failure. The
  sizes are computed in 64 bits from 32-bit numbers and do not overflow; an index entry has 4 bytes, a result 16, a request 64.
\<close>

definition ring_setup :: "mmap \<Rightarrow> (int \<times> uring_params) option \<Rightarrow> int \<Rightarrow> int + ring_maps" where
  "ring_setup mmap res err =
     (case res of
        None \<Rightarrow> Inl err
      | Some (fd, P) \<Rightarrow>
          (let smap = unat (sq_off_array P) + unat (sq_entries P) * 4;
               cmap = unat (cq_off_cqes P) + unat (cq_entries P) * 16;
               sqmap = unat (sq_entries P) * 64;
               (s_ok, sm) = mm_map mmap (if single_mmap P then max smap cmap else smap) fd IORING_OFF_SQ_RING mm_empty
           in if \<not> s_ok then Inl err
              else
                let (c_ok, cm) = (if single_mmap P then (True, mm_empty) else mm_map mmap cmap fd IORING_OFF_CQ_RING mm_empty)
                in if \<not> c_ok then Inl err
                   else
                     let (e_ok, em) = mm_map mmap sqmap fd IORING_OFF_SQES mm_empty
                     in if \<not> e_ok then Inl err else Inr \<lparr>smem = sm, cmem = cm, emem = em\<rparr>))"

text \<open>The memory of the completion ring.\<close>

definition completion_mem :: "uring_params \<Rightarrow> ring_maps \<Rightarrow> mapped_memory" where
  "completion_mem P M = (if single_mmap P then smem M else cmem M)"

lemma mask_bound: "unat ((i :: 32 word) AND mask k) < 2 ^ k"
proof -
  have "unat (take_bit k i) = take_bit k (unat i)" by (simp add: unsigned_take_bit_eq)
  then show ?thesis by (simp add: take_bit_eq_mask)  (metis take_bit_eq_mask take_bit_nat_less_exp)
qed

text \<open>
  C15: After a successful setup everything the context reads and writes through a masked index lies in memory that is mapped, whatever the counters
  are: the index array and the requests with \<open>2 ^ a\<close> entries, the results with \<open>2 ^ b\<close>, with one mapping for both rings or with two.
\<close>

theorem ring_setup_bounds:
  assumes "ring_setup mmap (Some (fd, P)) err = Inr M"
    and "unat (sq_entries P) = 2 ^ a" and "unat (cq_entries P) = 2 ^ b"
  shows "unat (sq_off_array P) + 4 * unat (i AND mask a :: 32 word) + 4 \<le> d_length (smem M) \<and> d_base (smem M) \<noteq> None \<and>
    unat (cq_off_cqes P) + 16 * unat (j AND mask b :: 32 word) + 16 \<le> d_length (completion_mem P M) \<and> d_base (completion_mem P M) \<noteq> None \<and>
    64 * unat (i AND mask a :: 32 word) + 64 \<le> d_length (emem M) \<and> d_base (emem M) \<noteq> None"
  using assms mask_bound [of i a] mask_bound [of j b]
  by (auto simp: ring_setup_def mm_map_def Let_def completion_mem_def split: if_splits option.splits)

definition demo_params :: uring_params where
  "demo_params = \<lparr>sq_entries = 2, cq_entries = 4, sq_off_array = 64, cq_off_cqes = 128, single_mmap = True\<rparr>"

theorem ring_setup_bounds_witness:
  "\<exists>M. ring_setup (\<lambda>len fd off. Some 4096) (Some (3, demo_params)) 0 = Inr M \<and> d_length (smem M) = 192 \<and>
     64 + 4 * unat (4294967295 AND mask 1 :: 32 word) + 4 \<le> d_length (smem M)"
proof -
  have e: "\<exists>M. ring_setup (\<lambda>len fd off. Some 4096) (Some (3, demo_params)) 0 = Inr M \<and> d_length (smem M) = 192"
    by (simp add: ring_setup_def demo_params_def mm_map_def)
  then obtain M where M: "ring_setup (\<lambda>len fd off. Some 4096) (Some (3, demo_params)) 0 = Inr M" "d_length (smem M) = 192" by blast
  from ring_setup_bounds [OF M(1), of 1 2 4294967295 0] have "64 + 4 * unat (4294967295 AND mask 1 :: 32 word) + 4 \<le> d_length (smem M)"
    by (simp add: demo_params_def)
  with M show ?thesis by blast
qed

end
