(* ===== verification/Async_Io.thy ===== *)
theory Async_Io
  imports File_Context
begin

text \<open>
  The operation state of the asynchronous I/O senders, \<^verbatim>\<open>src/src/nstd/file/async_io.hpp\<close>: \<^verbatim>\<open>state_base\<close> with the callback \<^verbatim>\<open>cancel\<close> and the receiver of
  the sender before it. Starting, the result of the operation, a stop request and the result of cancelling come from different threads; they
  meet in the counter \<^verbatim>\<open>d_outstanding\<close>. The steps are cut at the atomic accesses. A context gives one result to each request, a stop callback
  is called at most once.
\<close>

section \<open>Model\<close>

text \<open>
  Where the operation is: not reached, counted, callback registered, started, result stored, done, or not reached because of an error
  before it. Where cancelling is.
\<close>

datatype op_phase = Upstream | Counted | Engaged | Started | Stored | Op_Done | Failed

datatype cancel_phase = No_Stop | Issued | Flagged | Cancel_Done | Skipped

text \<open>How the receiver is completed; an error has the code it is made from.\<close>

datatype io_completion = Complete int | Error_Code int | Upstream_Error | Stopped

record io_state =
  op :: op_phase
  stop :: cancel_phase
  d_outstanding :: "64 word"
  d_cancelled :: bool
  d_result :: int
  completions :: "io_completion list"

definition io_new :: io_state where
  "io_new = \<lparr>op = Upstream, stop = No_Stop, d_outstanding = 0, d_cancelled = False, d_result = 0, completions = []\<rparr>"

definition complete :: "io_completion \<Rightarrow> io_state \<Rightarrow> io_state" where
  "complete c s = s\<lparr>completions := completions s @ [c]\<rparr>"

text \<open>The receiver for the sender before: \<^verbatim>\<open>set_value\<close> in three steps, and \<^verbatim>\<open>set_error\<close>.\<close>

definition set_value_count :: "io_state \<Rightarrow> io_state" where
  "set_value_count s = s\<lparr>d_outstanding := d_outstanding s + 1, op := Counted\<rparr>"

definition engage_callback :: "io_state \<Rightarrow> io_state" where
  "engage_callback s = s\<lparr>op := Engaged\<rparr>"

definition set_value_start :: "io_state \<Rightarrow> io_state" where
  "set_value_start s = s\<lparr>op := Started\<rparr>"

definition receiver_set_error :: "io_state \<Rightarrow> io_state" where
  "receiver_set_error s = complete Upstream_Error (s\<lparr>op := Failed\<rparr>)"

text \<open>\<^verbatim>\<open>state_base::do_result\<close>: storing the result, then counting down.\<close>

definition result_store :: "int \<Rightarrow> io_state \<Rightarrow> io_state" where
  "result_store r s = s\<lparr>d_result := r, op := Stored\<rparr>"

definition result_finish :: "io_state \<Rightarrow> io_state" where
  "result_finish s =
     (let s = s\<lparr>d_outstanding := d_outstanding s - 1, op := Op_Done\<rparr> in
      if d_outstanding s = 0
      then
        if d_result s < 0
        then if d_cancelled s then complete Stopped s else complete (Error_Code (d_result s)) s
        else complete (Complete (d_result s)) s
      else s)"

text \<open>\<^verbatim>\<open>cancel::operator()\<close>, called by the stop callback, and \<^verbatim>\<open>cancel::do_result\<close>.\<close>

definition cancel_call :: "io_state \<Rightarrow> io_state" where
  "cancel_call s =
     (let s = s\<lparr>d_outstanding := d_outstanding s + 1\<rparr> in
      s\<lparr>stop := (if d_outstanding s = 2 then Issued else Skipped)\<rparr>)"

definition cancel_flag :: "io_state \<Rightarrow> io_state" where
  "cancel_flag s = s\<lparr>d_cancelled := True, stop := Flagged\<rparr>"

definition cancel_finish :: "io_state \<Rightarrow> io_state" where
  "cancel_finish s =
     (let s = s\<lparr>d_outstanding := d_outstanding s - 1, stop := Cancel_Done\<rparr> in
      if d_outstanding s = 0
      then if d_result s < 0 then complete Stopped s else complete (Complete (d_result s)) s
      else s)"

inductive io_step :: "io_state \<Rightarrow> io_state \<Rightarrow> bool" where
  reach: "op s = Upstream \<Longrightarrow> io_step s (set_value_count s)"
| fail: "op s = Upstream \<Longrightarrow> io_step s (receiver_set_error s)"
| engage: "op s = Counted \<Longrightarrow> io_step s (engage_callback s)"
| start: "op s = Engaged \<Longrightarrow> io_step s (set_value_start s)"
| result: "op s = Started \<Longrightarrow> io_step s (result_store r s)"
| finish: "op s = Stored \<Longrightarrow> io_step s (result_finish s)"
| stop: "op s \<in> {Engaged, Started, Stored, Op_Done} \<Longrightarrow> stop s = No_Stop \<Longrightarrow> io_step s (cancel_call s)"
| flag: "stop s = Issued \<Longrightarrow> io_step s (cancel_flag s)"
| cancelled: "stop s = Flagged \<Longrightarrow> io_step s (cancel_finish s)"

inductive reachable :: "io_state \<Rightarrow> bool" where
  new: "reachable io_new"
| more: "reachable s \<Longrightarrow> io_step s s' \<Longrightarrow> reachable s'"

lemmas io_defs = io_new_def complete_def set_value_count_def engage_callback_def set_value_start_def receiver_set_error_def
  result_store_def result_finish_def cancel_call_def cancel_flag_def cancel_finish_def Let_def

text \<open>Nothing more happens to the operation.\<close>

definition finished :: "io_state \<Rightarrow> bool" where
  "finished s = (op s = Failed \<or> op s = Op_Done \<and> stop s \<notin> {Issued, Flagged})"

text \<open>What the receiver gets: the result, or the error, or the stop if cancelling came back before the last count.\<close>

definition outcome :: "io_state \<Rightarrow> io_completion" where
  "outcome s =
     (if op s = Failed then Upstream_Error
      else if 0 \<le> d_result s then Complete (d_result s)
      else if d_cancelled s then Stopped
      else Error_Code (d_result s))"

definition busy :: "io_state \<Rightarrow> nat" where
  "busy s = (if op s \<in> {Counted, Engaged, Started, Stored} then 1 else 0) + (if stop s \<in> {Issued, Flagged, Skipped} then 1 else 0)"

definition io_inv :: "io_state \<Rightarrow> bool" where
  "io_inv s =
     (d_outstanding s = of_nat (busy s) \<and>
      (op s \<in> {Upstream, Counted, Failed} \<longrightarrow> stop s = No_Stop) \<and> (stop s = Skipped \<longrightarrow> op s = Op_Done) \<and>
      (d_cancelled s \<longleftrightarrow> stop s \<in> {Flagged, Cancel_Done}) \<and>
      completions s = (if finished s then [outcome s] else []))"

lemma io_inv_new: "io_inv io_new"
  by (simp add: io_inv_def io_new_def busy_def finished_def)

lemma io_inv_step:
  assumes "io_step s s'" and "io_inv s"
  shows "io_inv s'"
  using assms
proof (cases rule: io_step.cases)
  case finish
  then show ?thesis using assms(2)
    by (cases "stop s") (auto simp: io_defs io_inv_def busy_def finished_def outcome_def split: if_splits)
next
  case stop
  then show ?thesis using assms(2)
    by (cases "op s") (auto simp: io_defs io_inv_def busy_def finished_def outcome_def split: if_splits)
next
  case cancelled
  then show ?thesis using assms(2)
    by (cases "op s") (auto simp: io_defs io_inv_def busy_def finished_def outcome_def split: if_splits)
qed (auto simp: io_defs io_inv_def busy_def finished_def outcome_def split: if_splits)

lemma reachable_inv: "reachable s \<Longrightarrow> io_inv s"
  by (induction rule: reachable.induct) (auto intro: io_inv_new io_inv_step)

text \<open>
  C11: In every interleaving of starting, the result, a stop request and the result of cancelling, the receiver of an asynchronous operation is completed at most
  once and exactly when nothing is outstanding any more, with the result if that is not negative, with stopped if the operation failed and
  cancelling came back, with the error otherwise.
\<close>

theorem async_io_completes_once:
  assumes "reachable s"
  shows "completions s = (if finished s then [outcome s] else [])"
  using reachable_inv [OF assms] by (simp add: io_inv_def)

definition cancelled_run :: io_state where
  "cancelled_run = cancel_finish (result_finish (result_store (-125) (cancel_flag (cancel_call (set_value_start (engage_callback (set_value_count io_new)))))))"

lemma cancelled_run_reachable: "reachable cancelled_run"
proof -
  have "reachable (set_value_count io_new)" by (rule more [OF new]) (simp add: reach io_new_def)
  then have "reachable (engage_callback (set_value_count io_new))" by (rule more) (simp add: engage set_value_count_def)
  then have "reachable (set_value_start (engage_callback (set_value_count io_new)))" by (rule more) (simp add: start engage_callback_def)
  then have "reachable (cancel_call (set_value_start (engage_callback (set_value_count io_new))))"
    by (rule more) (rule stop, simp_all add: io_defs)
  then have "reachable (cancel_flag (cancel_call (set_value_start (engage_callback (set_value_count io_new)))))"
    by (rule more) (rule flag, simp add: io_defs)
  then have "reachable (result_store (-125) (cancel_flag (cancel_call (set_value_start (engage_callback (set_value_count io_new))))))"
    by (rule more) (rule result, simp add: io_defs)
  then have "reachable (result_finish (result_store (-125) (cancel_flag (cancel_call (set_value_start (engage_callback (set_value_count io_new)))))))"
    by (rule more) (rule finish, simp add: io_defs)
  then show ?thesis unfolding cancelled_run_def by (rule more) (rule cancelled, simp add: io_defs)
qed

theorem async_io_completes_once_witness: "finished cancelled_run \<and> completions cancelled_run = [Stopped]"
proof -
  have "finished cancelled_run" "outcome cancelled_run = Stopped"
    by (simp_all add: cancelled_run_def io_defs finished_def outcome_def)
  then show ?thesis using async_io_completes_once [OF cancelled_run_reachable] by simp
qed

section \<open>Progress\<close>

text \<open>Each step takes the operation or the cancelling one phase further.\<close>

fun op_left :: "op_phase \<Rightarrow> nat" where
  "op_left Upstream = 5" | "op_left Counted = 4" | "op_left Engaged = 3" | "op_left Started = 2" | "op_left Stored = 1" | "op_left Op_Done = 0" | "op_left Failed = 0"

fun stop_left :: "cancel_phase \<Rightarrow> nat" where
  "stop_left No_Stop = 3" | "stop_left Issued = 2" | "stop_left Flagged = 1" | "stop_left Cancel_Done = 0" | "stop_left Skipped = 0"

definition left :: "io_state \<Rightarrow> nat" where
  "left s = op_left (op s) + stop_left (stop s)"

lemma io_step_left: "io_step s s' \<Longrightarrow> left s' < left s"
  by (cases rule: io_step.cases) (auto simp: left_def io_defs)

lemma io_progress: "\<not> finished s \<Longrightarrow> \<exists>s'. io_step s s' \<and> (stop s' = No_Stop \<longleftrightarrow> stop s = No_Stop)"
proof (cases "op s")
  case Upstream
  then show ?thesis using reach [OF Upstream] by (auto simp: io_defs)
next
  case Counted
  then show ?thesis using engage [OF Counted] by (auto simp: io_defs)
next
  case Engaged
  then show ?thesis using start [OF Engaged] by (auto simp: io_defs)
next
  case Started
  then show ?thesis using result [OF Started, of 0] by (auto simp: io_defs)
next
  case Stored
  moreover have "stop (result_finish s) = stop s" by (simp add: io_defs)
  ultimately show ?thesis using finish [OF Stored] by metis
next
  case Op_Done
  moreover assume "\<not> finished s"
  ultimately consider "stop s = Issued" | "stop s = Flagged" by (auto simp: finished_def)
  then show ?thesis
  proof cases
    case 1
    then show ?thesis using flag [OF 1] by (auto simp: io_defs)
  next
    case 2
    moreover have "stop (cancel_finish s) = Cancel_Done" by (simp add: io_defs)
    ultimately show ?thesis using cancelled [OF 2] by auto
  qed
next
  case Failed
  moreover assume "\<not> finished s"
  ultimately show ?thesis by (simp add: finished_def)
qed

lemma op_left_le: "op_left p \<le> 5" by (cases p) auto

lemma stop_left_le: "stop_left c \<le> 3" by (cases c) auto

text \<open>
  C12: An asynchronous operation does not get stuck: from every state that is reached, each run of steps has at most eight of them, and unless the receiver has been
  completed there is a next step that does not depend on a stop request.
\<close>

theorem async_io_finishes:
  assumes "reachable s" and "(io_step ^^ n) s t"
  shows "n \<le> 8 \<and> (completions t = [outcome t] \<or> (\<exists>u. io_step t u \<and> (stop u = No_Stop \<longleftrightarrow> stop t = No_Stop)))"
proof -
  have r: "reachable t \<and> left t + n \<le> left s"
    using assms
  proof (induction n arbitrary: t)
    case (Suc n)
    from Suc.prems(2) obtain u where u: "(io_step ^^ n) s u" "io_step u t" by (auto elim: relpowp_Suc_E)
    from Suc.IH [OF Suc.prems(1) u(1)] u(2) io_step_left [OF u(2)] show ?case by (auto intro: more)
  qed simp
  have "left s \<le> 8" using op_left_le [of "op s"] stop_left_le [of "stop s"] by (simp add: left_def)
  moreover have "completions t = [outcome t]" if "finished t" using reachable_inv [of t] r that by (simp add: io_inv_def)
  ultimately show ?thesis using r io_progress [of t] by auto
qed

theorem async_io_finishes_witness:
  "(io_step ^^ 2) io_new (engage_callback (set_value_count io_new)) \<and> (\<exists>u. io_step (engage_callback (set_value_count io_new)) u \<and> stop u = No_Stop)"
proof -
  let ?t = "engage_callback (set_value_count io_new)"
  have "io_step io_new (set_value_count io_new)" by (rule reach) (simp add: io_new_def)
  moreover have "io_step (set_value_count io_new) ?t" by (rule engage) (simp add: io_defs)
  ultimately have p: "(io_step ^^ 2) io_new ?t" by (auto simp: numeral_2_eq_2)
  have "completions ?t = []" "stop ?t = No_Stop" by (simp_all add: io_defs)
  with async_io_finishes [OF new p] p show ?thesis by simp
qed

end
