(* ===== verification/Net_Operations.thy ===== *)
theory Net_Operations
  imports Repeat_Until Buffers Ip_Address Poll_Context "HOL-Library.Signed_Division"
begin

text \<open>
  The asynchronous operations on sockets, files and timers as the senders of \<^verbatim>\<open>src/src/nstd/net/async_*.hpp\<close>, \<^verbatim>\<open>file/open.hpp\<close>, \<^verbatim>\<open>file/read.hpp\<close> and \<^verbatim>\<open>timer/async_wait.hpp\<close>
  define them: what state they keep, what they ask of the context and what they make of the result. The operations \<^verbatim>\<open>async_read\<close> and
  \<^verbatim>\<open>async_write\<close>, which are only expressions composed from these and the sender algorithms, are not modelled.
\<close>

section \<open>Operations\<close>

text \<open>A name of length 0 is the null pointer \<^verbatim>\<open>msg_name\<close>; arguments of requests are what the pointers lead to.\<close>

record msghdr =
  msg_iov :: "iovec list"
  msg_iovlen :: nat
  msg_name :: "byte list"
  msg_namelen :: nat

datatype io_arg = Msg msghdr | Vec "iovec list" | Sock_addr "byte list" | Len nat | Path string | Time

definition msg_of :: "iovec list \<Rightarrow> msghdr" where
  "msg_of v = \<lparr>msg_iov = v, msg_iovlen = length v, msg_name = [], msg_namelen = 0\<rparr>"

definition sizeof_sockaddr_storage :: nat where "sizeof_sockaddr_storage = 128"

subsection \<open>async_accept\<close>

definition async_accept_start :: "int \<Rightarrow> byte list \<Rightarrow> io_arg request" where
  "async_accept_start h storage = R_accept h (Sock_addr storage) (Len sizeof_sockaddr_storage) 0"

definition async_accept_complete :: "bool \<Rightarrow> protocol \<Rightarrow> byte list \<Rightarrow> nat \<Rightarrow> int \<Rightarrow> (protocol \<times> int) \<times> endpoint" where
  "async_accept_complete little p storage len f = ((p, f), endpoint_set_address little storage len endpoint_default)"

subsection \<open>async_connect\<close>

definition async_connect_state :: "bool \<Rightarrow> junk \<Rightarrow> endpoint \<Rightarrow> byte list \<Rightarrow> byte list \<times> nat" where
  "async_connect_state little j ep storage = endpoint_get_address little j ep storage"

definition async_connect_start :: "int \<Rightarrow> byte list \<times> nat \<Rightarrow> io_arg request" where
  "async_connect_start h st = R_connect h (Sock_addr (fst st)) (int (snd st))"

subsection \<open>async_send, async_send_to, async_receive, async_receive_from\<close>

definition async_send_state :: "buffer_seq \<Rightarrow> int \<Rightarrow> (msghdr \<times> int) option" where
  "async_send_state bufs fl = do { v \<leftarrow> get_iovec bufs; Some (msg_of v, fl) }"

definition async_send_start :: "int \<Rightarrow> msghdr \<times> int \<Rightarrow> io_arg request" where
  "async_send_start h st = R_sendmsg h (Msg (fst st)) (snd st)"

definition async_send_complete :: "int \<Rightarrow> 64 word" where
  "async_send_complete n = word_of_int n"

definition async_send_to_state :: "bool \<Rightarrow> junk \<Rightarrow> buffer_seq \<Rightarrow> int \<Rightarrow> endpoint \<Rightarrow> byte list \<Rightarrow> (msghdr \<times> int) option" where
  "async_send_to_state little j bufs fl ep storage =
     do { v \<leftarrow> get_iovec bufs;
          let (name, len) = endpoint_get_address little j ep storage
          in Some ((msg_of v)\<lparr>msg_name := name, msg_namelen := len\<rparr>, fl) }"

definition async_send_to_start :: "int \<Rightarrow> msghdr \<times> int \<Rightarrow> io_arg request" where
  "async_send_to_start h st = R_sendmsg h (Msg (fst st)) (snd st)"

definition async_receive_state :: "buffer_seq \<Rightarrow> int \<Rightarrow> (msghdr \<times> int) option" where
  "async_receive_state bufs fl = do { v \<leftarrow> get_iovec bufs; Some (msg_of v, fl) }"

definition async_receive_start :: "int \<Rightarrow> msghdr \<times> int \<Rightarrow> io_arg request" where
  "async_receive_start h st = R_recvmsg h (Msg (fst st)) (snd st)"

definition async_receive_from_state :: "buffer_seq \<Rightarrow> int \<Rightarrow> byte list \<Rightarrow> (msghdr \<times> int) option" where
  "async_receive_from_state bufs fl storage =
     do { v \<leftarrow> get_iovec bufs; Some ((msg_of v)\<lparr>msg_name := storage, msg_namelen := sizeof_sockaddr_storage\<rparr>, fl) }"

definition async_receive_from_start :: "int \<Rightarrow> msghdr \<times> int \<Rightarrow> io_arg request" where
  "async_receive_from_start h st = R_recvmsg h (Msg (fst st)) (snd st)"

definition async_receive_from_complete :: "bool \<Rightarrow> msghdr \<Rightarrow> int \<Rightarrow> 64 word \<times> endpoint" where
  "async_receive_from_complete little msg n = (word_of_int n, endpoint_set_address little (msg_name msg) (msg_namelen msg) endpoint_default)"

subsection \<open>async_read_some, async_write_some\<close>

definition some_state :: "buffer_seq \<Rightarrow> (iovec list \<times> msghdr) option" where
  "some_state bufs = do { v \<leftarrow> get_iovec bufs; Some (v, msg_of v) }"

definition async_read_some_start :: "bool \<Rightarrow> int \<Rightarrow> iovec list \<times> msghdr \<Rightarrow> io_arg request" where
  "async_read_some_start is_socket h st =
     (if is_socket then R_recvmsg h (Msg (snd st)) 0 else R_read h (Vec (fst st)) (length (fst st)))"

definition async_write_some_start :: "bool \<Rightarrow> int \<Rightarrow> iovec list \<times> msghdr \<Rightarrow> io_arg request" where
  "async_write_some_start is_socket h st =
     (if is_socket then R_sendmsg h (Msg (snd st)) 0 else R_write h (Vec (fst st)) (length (fst st)))"

subsection \<open>open and read of files\<close>

definition AT_FDCWD :: int where "AT_FDCWD = -100"

definition open_set_value :: "int \<Rightarrow> string \<Rightarrow> io_arg request" where
  "open_set_value flags name = R_open_at AT_FDCWD (Path name) flags"

text \<open>The results: a descriptor or a size, and the error with its code made positive.\<close>

definition open_do_result :: "int \<Rightarrow> int + int" where
  "open_do_result res = (if -1 < res then Inr res else Inl (- res))"

definition read_do_result :: "int \<Rightarrow> int + 64 word" where
  "read_do_result res = (if -1 < res then Inr (word_of_int res) else Inl (- res))"

text \<open>\<^verbatim>\<open>read_receiver::submit\<close>: the request is made first, then the vector is set up for the buffer at \<open>buf\<close> with \<open>n\<close> bytes.\<close>

definition read_submit :: "int \<Rightarrow> addr \<Rightarrow> nat \<Rightarrow> iovec list \<Rightarrow> io_arg request \<times> iovec list" where
  "read_submit f buf n vec = (R_read f (Vec vec) 1, vec[0 := \<lparr>iov_base = buf, iov_len = n\<rparr>])"

definition read_receiver_new :: "iovec list" where
  "read_receiver_new = [\<lparr>iov_base = 0, iov_len = 0\<rparr>]"

lemma read_asks_for_nothing:
  "read_submit f buf n read_receiver_new = (R_read f (Vec [\<lparr>iov_base = 0, iov_len = 0\<rparr>]) 1, [\<lparr>iov_base = buf, iov_len = n\<rparr>])"
  by (simp add: read_submit_def read_receiver_new_def)

subsection \<open>async_wait\<close>

text \<open>\<^verbatim>\<open>wait_traits::to_wait_duration\<close> and \<^verbatim>\<open>start\<close>: the time left in nanoseconds, split by a division that rounds to zero.\<close>

definition to_wait_duration :: "int \<Rightarrow> int \<Rightarrow> int" where
  "to_wait_duration t now = t - now"

definition async_wait_start :: "int \<Rightarrow> int \<Rightarrow> io_arg request" where
  "async_wait_start t now =
     (let nsec = to_wait_duration t now
      in R_timer Time (word_of_int (nsec sdiv 1000000000)) (word_of_int (nsec smod 1000000000)))"

text \<open>
  The two members of the time specification bring the point in time through the context: the timer it makes expires at that point, also when
  the time is over already and the seconds are a negative number kept in an unsigned one.
\<close>

theorem async_wait_expiry:
  assumes "- (2 ^ 63) \<le> t" and "t < 2 ^ 63"
  shows "case async_wait_start t now of R_timer p sec nsec \<Rightarrow> timer_expiry now sec nsec = t | _ \<Rightarrow> False"
proof -
  define q where "q = (t - now) sdiv 1000000000"
  define r where "r = (t - now) smod 1000000000"
  have "q * 1000000000 + r = t - now" unfolding q_def r_def by (rule sdiv_mult_smod_eq)
  then have "now + (q * 1000000000 + r) = t" by simp
  then have "word_of_int now + (word_of_int q * 1000000000 + word_of_int r) = (word_of_int t :: 64 word)" by auto
  then have "timer_expiry now (word_of_int q) (word_of_int r) = sint (word_of_int t :: 64 word)"
    by (simp only: timer_expiry_def)
  also have "\<dots> = t" using assms by (simp add: sint_sbintrunc' signed_take_bit_int_eq_self)
  finally show ?thesis by (simp add: async_wait_start_def to_wait_duration_def Let_def q_def r_def)
qed

theorem async_wait_expiry_witness:
  "case async_wait_start 5 2000000007 of R_timer p sec nsec \<Rightarrow> timer_expiry 2000000007 sec nsec = 5 | _ \<Rightarrow> False"
  by (rule async_wait_expiry) simp_all

end
