(* ===== verification/Observer_Context.thy ===== *)
theory Observer_Context
  imports File_Context
begin

text \<open>
  \<^verbatim>\<open>observer_context\<close> of \<^verbatim>\<open>src/src/nstd/file/observer_context.{hpp,cpp}\<close>: a context that hands every request to another one, with a continuation of its own
  that passes the result on; and \<^verbatim>\<open>test_context\<close> of \<^verbatim>\<open>test_context.{hpp,cpp}\<close>, which keeps results until they are asked for. The output the
  observer prints is left out.
\<close>

section \<open>The observer\<close>

text \<open>
  \<open>outstanding\<close> are the observer's continuations with the one each passes its result to; \<open>sent\<close> is what it asked of the context below. The mutex is not
  recursive: locking it while it is held does not return.
\<close>

record 'p observer =
  d_mutex :: bool
  outstanding :: "(addr \<times> addr) list"
  fresh :: addr
  sent :: "('p request \<times> addr) list"
  asked :: "addr list"
  delivered :: "(addr \<times> int) list"

definition ENOENT :: int where "ENOENT = 2"

definition lock :: "'p observer \<Rightarrow> 'p observer run" where
  "lock s = (if d_mutex s then Hangs else Returns (s\<lparr>d_mutex := True\<rparr>))"

definition unlock :: "'p observer \<Rightarrow> 'p observer" where
  "unlock s = s\<lparr>d_mutex := False\<rparr>"

definition obs_add :: "addr \<Rightarrow> 'p observer \<Rightarrow> (addr \<times> 'p observer) run" where
  "obs_add cont s =
     (let rc = fresh s; s = s\<lparr>fresh := fresh s + 1\<rparr> in
      run_bind (lock s) (\<lambda>s. Returns (rc, unlock (s\<lparr>outstanding := (rc, cont) # outstanding s\<rparr>))))"

definition forward :: "'p request \<Rightarrow> addr \<Rightarrow> 'p observer \<Rightarrow> 'p observer run" where
  "forward r cont s = run_bind (obs_add cont s) (\<lambda>(a, s). Returns (s\<lparr>sent := sent s @ [(r, a)]\<rparr>))"

definition obs_nop :: "addr \<Rightarrow> 'p observer \<Rightarrow> 'p observer run" where
  "obs_nop cont s = forward R_nop cont s"

definition obs_timer :: "'p \<Rightarrow> 64 word \<Rightarrow> 64 word \<Rightarrow> addr \<Rightarrow> 'p observer \<Rightarrow> 'p observer run" where
  "obs_timer p sec nsec cont s = forward (R_timer p sec nsec) cont s"

definition obs_accept :: "int \<Rightarrow> 'p \<Rightarrow> 'p \<Rightarrow> int \<Rightarrow> addr \<Rightarrow> 'p observer \<Rightarrow> 'p observer run" where
  "obs_accept f p q fl cont s = forward (R_accept f p q fl) cont s"

definition obs_connect :: "int \<Rightarrow> 'p \<Rightarrow> int \<Rightarrow> addr \<Rightarrow> 'p observer \<Rightarrow> 'p observer run" where
  "obs_connect f p n cont s = forward (R_connect f p n) cont s"

definition obs_sendmsg :: "int \<Rightarrow> 'p \<Rightarrow> int \<Rightarrow> addr \<Rightarrow> 'p observer \<Rightarrow> 'p observer run" where
  "obs_sendmsg f p fl cont s = forward (R_sendmsg f p fl) cont s"

definition obs_recvmsg :: "int \<Rightarrow> 'p \<Rightarrow> int \<Rightarrow> addr \<Rightarrow> 'p observer \<Rightarrow> 'p observer run" where
  "obs_recvmsg f p fl cont s = forward (R_recvmsg f p fl) cont s"

definition obs_read :: "int \<Rightarrow> 'p \<Rightarrow> nat \<Rightarrow> addr \<Rightarrow> 'p observer \<Rightarrow> 'p observer run" where
  "obs_read f p n cont s = forward (R_read f p n) cont s"

definition obs_write :: "int \<Rightarrow> 'p \<Rightarrow> nat \<Rightarrow> addr \<Rightarrow> 'p observer \<Rightarrow> 'p observer run" where
  "obs_write f p n cont s = forward (R_read f p n) cont s"

definition obs_open_at :: "int \<Rightarrow> 'p \<Rightarrow> int \<Rightarrow> addr \<Rightarrow> 'p observer \<Rightarrow> 'p observer run" where
  "obs_open_at f p fl cont s = forward (R_open_at f p fl) cont s"

text \<open>
  \<^verbatim>\<open>do_cancel\<close>: an id that is not known is answered at once, with the mutex still held; \<open>asks\<close> says whether that continuation asks the observer for something
  while it gets its result, which locks the mutex again.
\<close>

definition obs_cancel :: "(addr \<Rightarrow> int \<Rightarrow> bool) \<Rightarrow> addr \<Rightarrow> addr \<Rightarrow> 'p observer \<Rightarrow> 'p observer run" where
  "obs_cancel asks t cont s =
     run_bind (lock s) (\<lambda>s.
     case find (\<lambda>(a, c). c = t) (outstanding s) of
       None \<Rightarrow>
         (let s = s\<lparr>delivered := delivered s @ [(cont, - ENOENT)]\<rparr> in
          if asks cont (- ENOENT) \<and> d_mutex s then Hangs else Returns (unlock s))
     | Some (a, c) \<Rightarrow> forward (R_cancel a) cont (unlock s))"

fun obs_request :: "(addr \<Rightarrow> int \<Rightarrow> bool) \<Rightarrow> 'p request \<times> addr \<Rightarrow> 'p observer \<Rightarrow> 'p observer run" where
  "obs_request asks (R_cancel t, c) s = obs_cancel asks t c s"
| "obs_request asks (R_nop, c) s = obs_nop c s"
| "obs_request asks (R_timer p sec nsec, c) s = obs_timer p sec nsec c s"
| "obs_request asks (R_accept f p q fl, c) s = obs_accept f p q fl c s"
| "obs_request asks (R_connect f p n, c) s = obs_connect f p n c s"
| "obs_request asks (R_sendmsg f p fl, c) s = obs_sendmsg f p fl c s"
| "obs_request asks (R_recvmsg f p fl, c) s = obs_recvmsg f p fl c s"
| "obs_request asks (R_read f p n, c) s = obs_read f p n c s"
| "obs_request asks (R_write f p n, c) s = obs_write f p n c s"
| "obs_request asks (R_open_at f p fl, c) s = obs_open_at f p fl c s"

text \<open>\<^verbatim>\<open>continuation::do_result\<close>: take the observer's continuation out of the list, then call the client's.\<close>

definition obs_result :: "addr \<Rightarrow> int \<Rightarrow> 'p observer \<Rightarrow> 'p observer run" where
  "obs_result a rc s =
     (case map_of (outstanding s) a of
        None \<Rightarrow> Undefined
      | Some cont \<Rightarrow>
          run_bind (lock s) (\<lambda>s.
          let s = unlock (s\<lparr>outstanding := filter (\<lambda>(b, c). b \<noteq> a) (outstanding s)\<rparr>)
          in Returns (s\<lparr>delivered := delivered s @ [(cont, rc)]\<rparr>)))"

text \<open>What happens to an observer: a client asks, or the context below gives a result.\<close>

datatype 'p obs_event = Asked "'p request" addr | Result addr int

fun obs_step :: "(addr \<Rightarrow> int \<Rightarrow> bool) \<Rightarrow> 'p obs_event \<Rightarrow> 'p observer \<Rightarrow> 'p observer run" where
  "obs_step asks (Asked r c) s = obs_request asks (r, c) (s\<lparr>asked := asked s @ [c]\<rparr>)"
| "obs_step asks (Result a rc) s = obs_result a rc s"

fun obs_events :: "(addr \<Rightarrow> int \<Rightarrow> bool) \<Rightarrow> 'p obs_event list \<Rightarrow> 'p observer \<Rightarrow> 'p observer run" where
  "obs_events asks [] s = Returns s"
| "obs_events asks (e # es) s = run_bind (obs_step asks e s) (obs_events asks es)"

definition obs_new :: "'p observer" where
  "obs_new = \<lparr>d_mutex = False, outstanding = [], fresh = 0, sent = [], asked = [], delivered = []\<rparr>"

section \<open>Accounting\<close>

definition obs_inv :: "addr multiset \<Rightarrow> 'p observer \<Rightarrow> bool" where
  "obs_inv X s =
     (\<not> d_mutex s \<and> distinct (map fst (outstanding s)) \<and> (\<forall>p \<in> set (outstanding s). fst p < fresh s) \<and>
      mset (asked s) = mset (map fst (delivered s)) + mset (map snd (outstanding s)) + X)"

lemma forward_ok:
  assumes "obs_inv (add_mset c X) s"
  shows "\<exists>s'. forward r c s = Returns s' \<and> obs_inv X s' \<and> sent s' = sent s @ [(r, fresh s)] \<and> map_of (outstanding s') (fresh s) = Some c"
proof -
  let ?s = "s\<lparr>d_mutex := False, fresh := fresh s + 1, outstanding := (fresh s, c) # outstanding s, sent := sent s @ [(r, fresh s)]\<rparr>"
  have "forward r c s = Returns ?s" using assms by (simp add: forward_def obs_add_def lock_def unlock_def obs_inv_def Let_def)
  moreover have "fresh s \<notin> fst ` set (outstanding s)" "\<forall>p \<in> set (outstanding s). fst p < fresh s + 1" using assms by (auto simp: obs_inv_def)
  then have "obs_inv X ?s" using assms by (simp add: obs_inv_def)
  ultimately show ?thesis by simp
qed

lemmas obs_defs = obs_nop_def obs_timer_def obs_accept_def obs_connect_def obs_sendmsg_def obs_recvmsg_def obs_read_def obs_write_def obs_open_at_def

definition passed_on :: "'p request \<Rightarrow> 'p request" where
  "passed_on r = (case r of R_write f p n \<Rightarrow> R_read f p n | _ \<Rightarrow> r)"

lemma request_forward: "\<nexists>t. r = R_cancel t \<Longrightarrow> obs_request asks (r, c) s = forward (passed_on r) c s"
  by (cases r) (simp_all add: obs_defs passed_on_def)

lemma cancel_ok:
  assumes "obs_inv (add_mset c X) s" and "obs_cancel asks t c s = Returns s'"
  shows "obs_inv X s'"
proof (cases "find (\<lambda>(a, c). c = t) (outstanding s)")
  case None
  then have "s' = s\<lparr>delivered := delivered s @ [(c, - ENOENT)], d_mutex := False\<rparr>"
    using assms by (auto simp: obs_cancel_def lock_def unlock_def Let_def split: if_splits)
  then show ?thesis using assms(1) by (simp add: obs_inv_def)
next
  case (Some p)
  obtain a d where p: "p = (a, d)" by (cases p)
  have "unlock (s\<lparr>d_mutex := True\<rparr>) = s" using assms(1) by (simp add: unlock_def obs_inv_def)
  then have "forward (R_cancel a) c s = Returns s'" using assms Some p by (auto simp: obs_cancel_def lock_def obs_inv_def)
  then show ?thesis using forward_ok [OF assms(1), of "R_cancel a"] by auto
qed

lemma request_ok:
  assumes "obs_inv (add_mset c X) s" and "obs_request asks (r, c) s = Returns s'"
  shows "obs_inv X s'"
proof (cases "\<exists>t. r = R_cancel t")
  case True
  then show ?thesis using cancel_ok [OF assms(1)] assms(2) by auto
next
  case False
  then have "forward (passed_on r) c s = Returns s'" using assms(2) request_forward [of r asks c s] by auto
  then show ?thesis using forward_ok [OF assms(1), of "passed_on r"] by auto
qed

lemma filter_fst:
  assumes "distinct (map fst xs)" and "map_of xs a = Some c"
  shows "mset (map snd xs) = add_mset c (mset (map snd (filter (\<lambda>(b, c). b \<noteq> a) xs)))"
proof -
  from assms obtain ys zs where xs: "xs = ys @ (a, c) # zs" by (metis map_of_SomeD in_set_conv_decomp)
  then have "a \<notin> fst ` set ys" "a \<notin> fst ` set zs" using assms(1) by auto
  then have "filter (\<lambda>(b, c). b \<noteq> a) ys = ys" "filter (\<lambda>(b, c). b \<noteq> a) zs = zs" by (force intro: filter_True)+
  then show ?thesis by (simp add: xs)
qed

lemma result_ok:
  assumes "obs_inv X s" and "obs_result a rc s = Returns s'"
  shows "obs_inv X s'"
proof -
  obtain c where c: "map_of (outstanding s) a = Some c" using assms(2) by (auto simp: obs_result_def split: option.splits)
  have "mset (map snd (outstanding s)) = add_mset c (mset (map snd (filter (\<lambda>(b, c). b \<noteq> a) (outstanding s))))"
    by (rule filter_fst) (use assms(1) c in \<open>simp_all add: obs_inv_def\<close>)
  moreover have "s' = s\<lparr>outstanding := filter (\<lambda>(b, c). b \<noteq> a) (outstanding s), d_mutex := False, delivered := delivered s @ [(c, rc)]\<rparr>"
    using assms(2) c by (auto simp: obs_result_def lock_def unlock_def Let_def split: if_splits)
  ultimately show ?thesis
    using assms(1) by (simp add: obs_inv_def distinct_map_filter)
qed

lemma events_ok: "obs_inv {#} s \<Longrightarrow> obs_events asks es s = Returns s' \<Longrightarrow> obs_inv {#} s'"
proof (induction es arbitrary: s)
  case (Cons e es)
  then obtain t where t: "obs_step asks e s = Returns t" "obs_events asks es t = Returns s'" by auto
  have "obs_inv {#} t"
  proof (cases e)
    case (Asked r c)
    have "obs_inv {#c#} (s\<lparr>asked := asked s @ [c]\<rparr>)" using Cons.prems(1) by (simp add: obs_inv_def)
    with request_ok [of c "{#}"] t(1) Asked show ?thesis by auto
  next
    case (Result a rc)
    with result_ok [OF Cons.prems(1)] t(1) show ?thesis by auto
  qed
  with Cons.IH t(2) show ?case by blast
qed simp

text \<open>
  The observer loses and doubles nothing: after any sequence of requests and results, the clients' continuations that were asked for are those that got a
  result and those that wait for one behind a continuation of the observer; when the context below has answered everything, each got one result.
\<close>

theorem observer_accounts:
  assumes "obs_events asks es obs_new = Returns s"
  shows "mset (asked s) = mset (map fst (delivered s)) + mset (map snd (outstanding s)) \<and>
    (outstanding s = [] \<longrightarrow> mset (map fst (delivered s)) = mset (asked s))"
proof -
  have "obs_inv {#} (obs_new :: 'a observer)" by (simp add: obs_inv_def obs_new_def)
  from events_ok [OF this assms] show ?thesis by (simp add: obs_inv_def)
qed

theorem observer_accounts_witness:
  "\<exists>s. obs_events (\<lambda>_ _. False) [Asked R_nop 7, Asked (R_read 3 (0 :: nat) 1) 8, Asked (R_cancel 8) 9, Result 1 (-125), Result 2 0, Result 0 0] obs_new = Returns s \<and>
     mset (map fst (delivered s)) = {#7, 8, 9#}"
proof -
  let ?es = "[Asked R_nop 7, Asked (R_read 3 (0 :: nat) 1) 8, Asked (R_cancel 8) 9, Result 1 (-125), Result 2 0, Result 0 0]"
  have "\<exists>s. obs_events (\<lambda>_ _. False) ?es obs_new = Returns s \<and> outstanding s = [] \<and> asked s = [7, 8, 9]"
    by (simp add: obs_new_def obs_defs forward_def obs_add_def lock_def unlock_def obs_cancel_def obs_result_def)
  then obtain s where s: "obs_events (\<lambda>_ _. False) ?es obs_new = Returns s" "outstanding s = []" "asked s = [7, 8, 9]" by blast
  have "mset (map fst (delivered s)) = mset (asked s)" using observer_accounts [OF s(1)] s(2) by blast
  then have "mset (map fst (delivered s)) = {#7, 8, 9#}" by (simp add: s(3))
  with s(1) show ?thesis by blast
qed

text \<open>
  The observer passes requests on as they are, with a continuation of its own in place of the client's; a write, though, it passes on as a read.
\<close>

theorem observer_forwards:
  assumes "obs_inv (add_mset c X) s" and "\<And>t. r \<noteq> R_cancel t"
  shows "\<exists>s'. obs_request asks (r, c) s = Returns s' \<and>
    sent s' = sent s @ [(passed_on r, fresh s)] \<and> map_of (outstanding s') (fresh s) = Some c"
  using forward_ok [OF assms(1), of "passed_on r"] request_forward [of r asks c s] assms(2) by auto

theorem observer_forwards_witness:
  "\<exists>s'. obs_request (\<lambda>_ _. False) (R_write 5 (0 :: nat) 1, 7) (obs_new\<lparr>asked := [7]\<rparr>) = Returns s' \<and> sent s' = [(R_read 5 0 1, 0)]"
proof -
  have "obs_inv {#7#} (obs_new\<lparr>asked := [7]\<rparr>)" by (simp add: obs_inv_def obs_new_def)
  from observer_forwards [OF this, of "R_write 5 0 1" "\<lambda>_ _. False"] show ?thesis by (auto simp: obs_new_def passed_on_def)
qed

text \<open>A canceller that asks the observer for something when its id is not known locks the mutex that the observer holds.\<close>

lemma observer_cancel_deadlock:
  assumes "\<not> d_mutex s" and "t \<notin> snd ` set (outstanding s)" and "asks c (- ENOENT)"
  shows "obs_request asks (R_cancel t, c) s = Hangs"
proof -
  have "find (\<lambda>(a, c). c = t) (outstanding s) = None" using assms(2) unfolding find_None_iff by force
  then show ?thesis using assms by (simp add: obs_cancel_def lock_def)
qed

section \<open>The test context\<close>

text \<open>Results that are ready; what the functions for the operations do is set by a test, by default the result \<open>-1\<close> is made ready.\<close>

record test_context =
  d_ready :: "(int \<times> addr) list"
  t_delivered :: "(addr \<times> int) list"

definition make_ready :: "int \<Rightarrow> addr \<Rightarrow> test_context \<Rightarrow> test_context" where
  "make_ready rc cont s = s\<lparr>d_ready := (rc, cont) # d_ready s\<rparr>"

definition test_run_one :: "test_context \<Rightarrow> nat \<times> test_context" where
  "test_run_one s =
     (if d_ready s = [] then (0, s)
      else
        let (rc, cont) = last (d_ready s);
            s = s\<lparr>d_ready := butlast (d_ready s)\<rparr>
        in (1, s\<lparr>t_delivered := t_delivered s @ [(cont, rc)]\<rparr>))"

text \<open>The constructor sets every function but \<^verbatim>\<open>on_write\<close>; calling that one throws \<^verbatim>\<open>std::bad_function_call\<close>: \<^const>\<open>None\<close>.\<close>

definition test_default :: "'p request \<Rightarrow> addr \<Rightarrow> test_context \<Rightarrow> test_context option" where
  "test_default r cont s = (case r of R_write f p n \<Rightarrow> None | _ \<Rightarrow> Some (make_ready (-1) cont s))"

text \<open>Results are delivered in the order in which they were made ready.\<close>

primrec test_run :: "nat \<Rightarrow> test_context \<Rightarrow> test_context" where
  "test_run 0 s = s"
| "test_run (Suc n) s = test_run n (snd (test_run_one s))"

lemma test_run_delivers:
  "d_ready t = rev rs \<Longrightarrow> t_delivered (test_run (length rs) t) = t_delivered t @ map (\<lambda>(rc, c). (c, rc)) rs"
proof (induction rs arbitrary: t)
  case (Cons a rs)
  obtain rc c where a: "a = (rc, c)" by (cases a)
  have t: "d_ready (snd (test_run_one t)) = rev rs" "t_delivered (snd (test_run_one t)) = t_delivered t @ [(c, rc)]"
    using Cons.prems by (simp_all add: test_run_one_def a)
  from Cons.IH [OF t(1)] show ?case by (simp add: t(2) a)
qed simp

lemma test_context_fifo:
  assumes "d_ready s = []"
  shows "t_delivered (test_run (length rs) (fold (\<lambda>(rc, c). make_ready rc c) rs s)) = t_delivered s @ map (\<lambda>(rc, c). (c, rc)) rs"
proof -
  have "d_ready (fold (\<lambda>(rc, c). make_ready rc c) rs s) = rev rs @ d_ready s \<and> t_delivered (fold (\<lambda>(rc, c). make_ready rc c) rs s) = t_delivered s"
    by (induction rs arbitrary: s) (auto simp: make_ready_def)
  with test_run_delivers assms show ?thesis by simp
qed

end
