(* ===== verification/Algorithms.thy ===== *)
theory Algorithms
  imports Prelude
begin

text \<open>
  The algorithms of \<^verbatim>\<open>src/src/nstd/algorithm\<close> on the cursors of \<^verbatim>\<open>src/src/nstd/cursor\<close>. An algorithm gets the three operations of a cursor, a
  projection that reads the value for a key and the two ends; a loop that does not reach the end does not return (\<^const>\<open>None\<close>). The locale is what
  the algorithms rely on, with their specifications as facts on the sequence of values; pointers into an array and
  integers are cursors.
\<close>

section \<open>Model\<close>

record ('c, 'e, 'k) cursor =
  at_same_pos :: "'c \<Rightarrow> 'e \<Rightarrow> bool"
  key :: "'c \<Rightarrow> 'k"
  step :: "'c \<Rightarrow> 'c"

definition find_if :: "('c, 'e, 'k) cursor \<Rightarrow> ('k \<Rightarrow> 'a) \<Rightarrow> 'c \<Rightarrow> 'e \<Rightarrow> ('a \<Rightarrow> bool) \<Rightarrow> 'c option" where
  "find_if C read it e predicate =
     loop_while (\<lambda>it. \<not> at_same_pos C it e \<and> \<not> predicate (read (key C it))) (\<lambda>it. Some (step C it)) it"

definition negate :: "('a \<Rightarrow> bool) \<Rightarrow> 'a \<Rightarrow> bool" where
  "negate predicate x = (\<not> predicate x)"

definition find_if_not :: "('c, 'e, 'k) cursor \<Rightarrow> ('k \<Rightarrow> 'a) \<Rightarrow> 'c \<Rightarrow> 'e \<Rightarrow> ('a \<Rightarrow> bool) \<Rightarrow> 'c option" where
  "find_if_not C read first e predicate = find_if C read first e (negate predicate)"

definition cursor_find :: "('c, 'e, 'k) cursor \<Rightarrow> ('k \<Rightarrow> 'a) \<Rightarrow> 'c \<Rightarrow> 'e \<Rightarrow> 'a \<Rightarrow> 'c option" where
  "cursor_find C read first e v = find_if C read first e (\<lambda>x. x = v)"

definition all_of :: "('c, 'e, 'k) cursor \<Rightarrow> ('k \<Rightarrow> 'a) \<Rightarrow> 'c \<Rightarrow> 'e \<Rightarrow> ('a \<Rightarrow> bool) \<Rightarrow> bool option" where
  "all_of C read first e predicate =
     do { it \<leftarrow> find_if C read first e (negate predicate); Some (at_same_pos C it e) }"

definition any_of :: "('c, 'e, 'k) cursor \<Rightarrow> ('k \<Rightarrow> 'a) \<Rightarrow> 'c \<Rightarrow> 'e \<Rightarrow> ('a \<Rightarrow> bool) \<Rightarrow> bool option" where
  "any_of C read first e predicate =
     do { it \<leftarrow> find_if C read first e predicate; Some (\<not> at_same_pos C it e) }"

definition none_of :: "('c, 'e, 'k) cursor \<Rightarrow> ('k \<Rightarrow> 'a) \<Rightarrow> 'c \<Rightarrow> 'e \<Rightarrow> ('a \<Rightarrow> bool) \<Rightarrow> bool option" where
  "none_of C read first e predicate =
     do { it \<leftarrow> find_if C read first e predicate; Some (at_same_pos C it e) }"

text \<open>The result of \<^verbatim>\<open>distance\<close> is a \<^verbatim>\<open>size_t\<close>.\<close>

definition distance :: "('c, 'e, 'k) cursor \<Rightarrow> 'c \<Rightarrow> 'e \<Rightarrow> 64 word option" where
  "distance C it e =
     map_option snd (loop_while (\<lambda>(it, rc). \<not> at_same_pos C it e) (\<lambda>(it, rc). Some (step C it, rc + 1)) (it, 0))"

text \<open>The callable has a state of its own.\<close>

definition for_each :: "('c, 'e, 'k) cursor \<Rightarrow> ('k \<Rightarrow> 'a) \<Rightarrow> 'c \<Rightarrow> 'e \<Rightarrow> ('a \<Rightarrow> 'f \<Rightarrow> 'f) \<Rightarrow> 'f \<Rightarrow> ('c \<times> 'f) option" where
  "for_each C readable cur e fun f =
     loop_while (\<lambda>(cur, f). \<not> at_same_pos C cur e) (\<lambda>(cur, f). Some (step C cur, fun (readable (key C cur)) f)) (cur, f)"

definition mismatch :: "('c, 'e, 'k) cursor \<Rightarrow> ('k \<Rightarrow> 'a) \<Rightarrow> 'c \<Rightarrow> 'e \<Rightarrow> ('d, 'f, 'l) cursor \<Rightarrow> ('l \<Rightarrow> 'b) \<Rightarrow> 'd \<Rightarrow> 'f \<Rightarrow> ('a \<Rightarrow> 'b \<Rightarrow> bool) \<Rightarrow> ('c \<times> 'd) option" where
  "mismatch C1 readable1 cursor1 end1 C2 readable2 cursor2 end2 predicate =
     loop_while
       (\<lambda>(cursor1, cursor2). \<not> at_same_pos C1 cursor1 end1 \<and> \<not> at_same_pos C2 cursor2 end2 \<and>
          predicate (readable1 (key C1 cursor1)) (readable2 (key C2 cursor2)))
       (\<lambda>(cursor1, cursor2). Some (step C1 cursor1, step C2 cursor2)) (cursor1, cursor2)"

text \<open>One turn of the loop in \<^verbatim>\<open>search\<close> with its guard; the last component is the value to return.\<close>

definition search_turn :: "('c, 'e, 'k) cursor \<Rightarrow> ('k \<Rightarrow> 'a) \<Rightarrow> 'e \<Rightarrow> ('d, 'f, 'l) cursor \<Rightarrow> ('l \<Rightarrow> 'b) \<Rightarrow> 'd \<Rightarrow> 'f \<Rightarrow> ('a \<Rightarrow> 'b \<Rightarrow> bool) \<Rightarrow> ('a \<Rightarrow> bool)
    \<Rightarrow> 'c \<Rightarrow> ('c \<times> 'c option) option" where
  "search_turn C1 readable1 end1 C2 readable2 begin2 end2 predicate find_predicate cur1 =
     do {
       cur1 \<leftarrow> find_if C1 readable1 cur1 end1 find_predicate;
       if at_same_pos C1 cur1 end1 then Some (cur1, Some cur1)
       else
         let begin1 = cur1; cur1 = step C1 cur1 in
         do {
           p \<leftarrow> mismatch C1 readable1 cur1 end1 C2 readable2 begin2 end2 predicate;
           if at_same_pos C2 (snd p) end2 then Some (cur1, Some begin1)
           else if at_same_pos C1 (fst p) end1 then Some (cur1, Some (fst p))
           else Some (cur1, None)
         }
     }"

definition search :: "('c, 'e, 'k) cursor \<Rightarrow> ('k \<Rightarrow> 'a) \<Rightarrow> 'c \<Rightarrow> 'e \<Rightarrow> ('d, 'f, 'l) cursor \<Rightarrow> ('l \<Rightarrow> 'b) \<Rightarrow> 'd \<Rightarrow> 'f \<Rightarrow> ('a \<Rightarrow> 'b \<Rightarrow> bool) \<Rightarrow> 'c option" where
  "search C1 readable1 begin1 end1 C2 readable2 begin2 end2 predicate =
     (if at_same_pos C2 begin2 end2 then Some begin1
      else
        let find_predicate = (\<lambda>x. predicate x (readable2 (key C2 begin2)));
            begin2 = step C2 begin2
        in do {
             (cur1, rc) \<leftarrow> loop_while (\<lambda>(cur1, rc). rc = None)
               (\<lambda>(cur1, rc). search_turn C1 readable1 end1 C2 readable2 begin2 end2 predicate find_predicate cur1) (begin1, None);
             rc
           })"

text \<open>The overloads without a predicate compare for equality, those for iterators use the identity as projection.\<close>

definition mismatch_equal :: "('c, 'e, 'k) cursor \<Rightarrow> ('k \<Rightarrow> 'a) \<Rightarrow> 'c \<Rightarrow> 'e \<Rightarrow> ('d, 'f, 'l) cursor \<Rightarrow> ('l \<Rightarrow> 'a) \<Rightarrow> 'd \<Rightarrow> 'f \<Rightarrow> ('c \<times> 'd) option" where
  "mismatch_equal C1 readable1 begin1 end1 C2 readable2 begin2 end2 =
     mismatch C1 readable1 begin1 end1 C2 readable2 begin2 end2 (\<lambda>x y. x = y)"

definition search_equal :: "('c, 'e, 'k) cursor \<Rightarrow> ('k \<Rightarrow> 'a) \<Rightarrow> 'c \<Rightarrow> 'e \<Rightarrow> ('d, 'f, 'l) cursor \<Rightarrow> ('l \<Rightarrow> 'a) \<Rightarrow> 'd \<Rightarrow> 'f \<Rightarrow> 'c option" where
  "search_equal C1 readable1 begin1 end1 C2 readable2 begin2 end2 =
     search C1 readable1 begin1 end1 C2 readable2 begin2 end2 (\<lambda>x y. x = y)"

definition for_each_iterator :: "('c, 'e, 'k) cursor \<Rightarrow> 'c \<Rightarrow> 'e \<Rightarrow> ('k \<Rightarrow> 'f \<Rightarrow> 'f) \<Rightarrow> 'f \<Rightarrow> ('c \<times> 'f) option" where
  "for_each_iterator C begin e fun f = for_each C (\<lambda>x. x) begin e fun f"

definition nstd_min :: "'a::linorder \<Rightarrow> 'a \<Rightarrow> 'a" where
  "nstd_min t0 t1 = (if t1 < t0 then t1 else t0)"

section \<open>Ranges\<close>

lemma funpow_then: "(f ^^ m) ((f ^^ n) x) = (f ^^ (n + m)) x"
  by (metis add.commute comp_apply funpow_add)

lemma takeWhile_all: "length xs \<le> length (takeWhile P xs) \<longleftrightarrow> (\<forall>x \<in> set xs. P x)"
proof (induction xs)
  case (Cons x xs)
  then show ?case by simp
qed simp

text \<open>
  What the algorithms need of a cursor: from some positions the end is reached by stepping, and \<open>keys it e\<close> are the keys on the way.
\<close>

locale cursor_range =
  fixes C :: "('c, 'e, 'k) cursor"
    and keys :: "'c \<Rightarrow> 'e \<Rightarrow> 'k list"
    and reaches :: "'c \<Rightarrow> 'e \<Rightarrow> bool"
  assumes at_end: "reaches it e \<Longrightarrow> at_same_pos C it e \<longleftrightarrow> keys it e = []"
    and advance: "reaches it e \<Longrightarrow> keys it e \<noteq> [] \<Longrightarrow> keys it e = key C it # keys (step C it) e \<and> reaches (step C it) e"
begin

lemma reaches_later: "reaches it e \<Longrightarrow> n \<le> length (keys it e) \<Longrightarrow> reaches ((step C ^^ n) it) e \<and> keys ((step C ^^ n) it) e = drop n (keys it e)"
proof (induction n arbitrary: it)
  case (Suc n)
  then have ne: "keys it e \<noteq> []" by auto
  from advance [OF Suc.prems(1) this] Suc.prems(2) have k: "keys it e = key C it # keys (step C it) e" "reaches (step C it) e"
    and n: "n \<le> length (keys (step C it) e)" by auto
  from Suc.IH [OF k(2) n] have "reaches ((step C ^^ n) (step C it)) e" "keys ((step C ^^ n) (step C it)) e = drop n (keys (step C it) e)" by auto
  then show ?case using k(1) by (simp add: funpow_swap1)
qed simp

text \<open>The first position with a property, as a number of steps.\<close>

lemma find_if_range:
  assumes "reaches it e"
  shows "find_if C rd it e P = Some ((step C ^^ length (takeWhile (\<lambda>k. \<not> P (rd k)) (keys it e))) it)"
  using assms
proof (induction "keys it e" arbitrary: it)
  case Nil
  then have "at_same_pos C it e" using at_end by simp
  then show ?case using Nil by (simp add: find_if_def)
next
  case (Cons k ks)
  then have ne: "keys it e \<noteq> []" by auto
  from advance [OF Cons.prems ne] have k: "keys it e = key C it # keys (step C it) e" "reaches (step C it) e" by auto
  have "\<not> at_same_pos C it e" using at_end Cons.prems ne by simp
  show ?case
  proof (cases "P (rd (key C it))")
    case True
    then show ?thesis by (simp add: find_if_def k(1))
  next
    case False
    have "find_if C rd it e P = find_if C rd (step C it) e P"
      using False \<open>\<not> at_same_pos C it e\<close> by (simp add: find_if_def loop_while_step)
    moreover have "ks = keys (step C it) e" using Cons.hyps(2) k(1) by simp
    ultimately show ?thesis using Cons.hyps(1) [OF _ k(2)] False by (simp add: k(1) funpow_swap1)
  qed
qed

lemma takeWhile_end: "reaches it e \<Longrightarrow> at_same_pos C ((step C ^^ length (takeWhile P (keys it e))) it) e \<longleftrightarrow> (\<forall>k \<in> set (keys it e). P k)"
  using reaches_later [of it e "length (takeWhile P (keys it e))"] at_end [of "(step C ^^ length (takeWhile P (keys it e))) it" e]
  by (simp add: length_takeWhile_le takeWhile_all)

lemma quantifiers_range:
  assumes "reaches it e"
  shows "all_of C rd it e P = Some (\<forall>k \<in> set (keys it e). P (rd k))"
    and "any_of C rd it e P = Some (\<exists>k \<in> set (keys it e). P (rd k))"
    and "none_of C rd it e P = Some (\<not> (\<exists>k \<in> set (keys it e). P (rd k)))"
  using assms by (simp_all add: all_of_def any_of_def none_of_def find_if_range takeWhile_end negate_def)

lemma for_each_range:
  assumes "reaches it e"
  shows "for_each C rd it e g f = Some ((step C ^^ length (keys it e)) it, fold g (map rd (keys it e)) f)"
  using assms
proof (induction "keys it e" arbitrary: it f)
  case Nil
  then have "at_same_pos C it e" using at_end by simp
  then show ?case using Nil by (simp add: for_each_def)
next
  case (Cons k ks)
  then have ne: "keys it e \<noteq> []" by auto
  from advance [OF Cons.prems ne] have k: "keys it e = key C it # keys (step C it) e" "reaches (step C it) e" by auto
  have "for_each C rd it e g f = for_each C rd (step C it) e g (g (rd (key C it)) f)"
    using at_end Cons.prems ne by (simp add: for_each_def loop_while_step)
  moreover have "ks = keys (step C it) e" using Cons.hyps(2) k(1) by simp
  ultimately show ?case using Cons.hyps(1) [OF _ k(2)] by (simp add: k(1) funpow_swap1)
qed

lemma distance_range:
  assumes "reaches it e"
  shows "distance C it e = Some (of_nat (length (keys it e)))"
proof -
  have "loop_while (\<lambda>(it, rc). \<not> at_same_pos C it e) (\<lambda>(it, rc). Some (step C it, rc + 1)) (it, n) =
      Some ((step C ^^ length (keys it e)) it, n + of_nat (length (keys it e)))" for n :: "64 word"
    using assms
  proof (induction "keys it e" arbitrary: it n)
    case Nil
    then have "at_same_pos C it e" using at_end by simp
    then show ?case using Nil by simp
  next
    case (Cons k ks)
    then have ne: "keys it e \<noteq> []" by auto
    from advance [OF Cons.prems ne] have k: "keys it e = key C it # keys (step C it) e" "reaches (step C it) e" by auto
    moreover have "ks = keys (step C it) e" using Cons.hyps(2) k(1) by simp
    ultimately show ?case using Cons.hyps(1) [OF _ k(2), of "n + 1"] at_end Cons.prems ne
      by (simp add: loop_while_step [where s = "(it, n)"] funpow_swap1)
  qed
  then show ?thesis by (simp add: distance_def)
qed

end

text \<open>The length of the common part of two sequences, and the places where one is in the other.\<close>

fun common :: "('k \<Rightarrow> 'l \<Rightarrow> bool) \<Rightarrow> 'k list \<Rightarrow> 'l list \<Rightarrow> nat" where
  "common P (x # xs) (y # ys) = (if P x y then Suc (common P xs ys) else 0)"
| "common P xs ys = 0"

definition match_at :: "('k \<Rightarrow> 'l \<Rightarrow> bool) \<Rightarrow> 'k list \<Rightarrow> 'l list \<Rightarrow> nat \<Rightarrow> bool" where
  "match_at P xs ys n = (n + length ys \<le> length xs \<and> list_all2 P (take (length ys) (drop n xs)) ys)"

lemma common_le: "common P xs ys \<le> length xs" "common P xs ys \<le> length ys"
  by (induction P xs ys rule: common.induct) auto

lemma common_all: "common P xs ys = length ys \<longleftrightarrow> length ys \<le> length xs \<and> list_all2 P (take (length ys) xs) ys"
  by (induction P xs ys rule: common.induct) auto

lemma match_at_Cons: "n < length xs \<Longrightarrow> match_at P xs (y # ys) n \<longleftrightarrow> P (xs ! n) y \<and> common P (drop (Suc n) xs) ys = length ys"
  unfolding match_at_def common_all by (auto simp: Cons_nth_drop_Suc [symmetric])

lemma no_match_short: "length xs < n + length ys \<Longrightarrow> \<not> match_at P xs ys n"
  by (simp add: match_at_def)

text \<open>From \<open>n\<close> on, \<open>scan\<close> is the first place whose element has the property, or the end.\<close>

definition scan :: "('k \<Rightarrow> bool) \<Rightarrow> 'k list \<Rightarrow> nat \<Rightarrow> nat" where
  "scan Q xs n = n + length (takeWhile (\<lambda>k. \<not> Q k) (drop n xs))"

lemma scan_props:
  assumes "n \<le> length xs"
  shows "n \<le> scan Q xs n" and "scan Q xs n \<le> length xs"
    and "scan Q xs n < length xs \<Longrightarrow> Q (xs ! scan Q xs n)"
    and "n \<le> j \<Longrightarrow> j < scan Q xs n \<Longrightarrow> \<not> Q (xs ! j)"
proof -
  let ?t = "takeWhile (\<lambda>k. \<not> Q k) (drop n xs)"
  show "n \<le> scan Q xs n" by (simp add: scan_def)
  show "scan Q xs n \<le> length xs" using length_takeWhile_le [of "\<lambda>k. \<not> Q k" "drop n xs"] assms by (simp add: scan_def)
  show "Q (xs ! scan Q xs n)" if "scan Q xs n < length xs"
    using nth_length_takeWhile [of "\<lambda>k. \<not> Q k" "drop n xs"] that assms by (simp add: scan_def)
  show "\<not> Q (xs ! j)" if "n \<le> j" and "j < scan Q xs n"
  proof -
    have lt: "j - n < length ?t" using that by (simp add: scan_def)
    then have "?t ! (j - n) \<in> set ?t" by (rule nth_mem)
    then have "\<not> Q (?t ! (j - n))" by (rule set_takeWhileD [THEN conjunct2])
    then show ?thesis using takeWhile_nth [OF lt] that assms by simp
  qed
qed

definition none_between :: "('k \<Rightarrow> 'l \<Rightarrow> bool) \<Rightarrow> 'k list \<Rightarrow> 'l list \<Rightarrow> nat \<Rightarrow> nat \<Rightarrow> bool" where
  "none_between P xs ys n m = (\<forall>j. n \<le> j \<longrightarrow> j < m \<longrightarrow> \<not> match_at P xs ys j)"

lemma none_between_scan: "n \<le> length xs \<Longrightarrow> none_between P xs (y # ys) n (scan (\<lambda>k. P k y) xs n)"
  unfolding none_between_def
proof (intro allI impI)
  fix j assume n: "n \<le> length xs" and j: "n \<le> j" "j < scan (\<lambda>k. P k y) xs n"
  from scan_props(2) [OF n, of "\<lambda>k. P k y"] j(2) have "j < length xs" by simp
  with scan_props(4) [OF n j] show "\<not> match_at P xs (y # ys) j" by (simp add: match_at_Cons)
qed

lemma none_between_Suc: "none_between P xs ys n m \<Longrightarrow> \<not> match_at P xs ys m \<Longrightarrow> none_between P xs ys n (Suc m)"
  by (auto simp: none_between_def less_Suc_eq)

lemma none_between_trans: "none_between P xs ys n m \<Longrightarrow> none_between P xs ys m l \<Longrightarrow> none_between P xs ys n l"
  unfolding none_between_def by (meson linorder_not_le)

lemma none_between_end: "none_between P xs ys n m \<Longrightarrow> length xs < m + length ys \<Longrightarrow> none_between P xs ys n l"
  by (auto simp: none_between_def) (metis linorder_not_le add_le_mono1 le_trans match_at_def)

locale two_ranges = one: cursor_range C1 keys1 reaches1 + two: cursor_range C2 keys2 reaches2
  for C1 :: "('c, 'e, 'k) cursor" and keys1 and reaches1 and C2 :: "('d, 'f, 'l) cursor" and keys2 and reaches2
begin

lemma mismatch_range:
  assumes "reaches1 it1 e1" and "reaches2 it2 e2"
  shows "mismatch C1 rd1 it1 e1 C2 rd2 it2 e2 P =
    Some ((step C1 ^^ common (\<lambda>k l. P (rd1 k) (rd2 l)) (keys1 it1 e1) (keys2 it2 e2)) it1,
          (step C2 ^^ common (\<lambda>k l. P (rd1 k) (rd2 l)) (keys1 it1 e1) (keys2 it2 e2)) it2)"
  using assms
proof (induction "keys1 it1 e1" arbitrary: it1 it2)
  case Nil
  then have "at_same_pos C1 it1 e1" using one.at_end by simp
  then show ?case using Nil(1) [symmetric] by (simp add: mismatch_def)
next
  case (Cons k ks)
  then have ne: "keys1 it1 e1 \<noteq> []" by auto
  from one.advance [OF Cons.prems(1) ne] have k: "keys1 it1 e1 = key C1 it1 # keys1 (step C1 it1) e1" "reaches1 (step C1 it1) e1" by auto
  have n1: "\<not> at_same_pos C1 it1 e1" using one.at_end Cons.prems(1) ne by simp
  show ?case
  proof (cases "keys2 it2 e2 = [] \<or> \<not> P (rd1 (key C1 it1)) (rd2 (key C2 it2))")
    case True
    have "common (\<lambda>k l. P (rd1 k) (rd2 l)) (keys1 it1 e1) (keys2 it2 e2) = 0"
      using True two.advance [OF Cons.prems(2)] by (cases "keys2 it2 e2") (auto simp: k(1))
    moreover have "at_same_pos C2 it2 e2 \<or> \<not> P (rd1 (key C1 it1)) (rd2 (key C2 it2))" using True two.at_end [OF Cons.prems(2)] by blast
    ultimately show ?thesis by (auto simp: mismatch_def)
  next
    case False
    then have l: "keys2 it2 e2 = key C2 it2 # keys2 (step C2 it2) e2" "reaches2 (step C2 it2) e2" and n2: "\<not> at_same_pos C2 it2 e2"
      using two.advance [OF Cons.prems(2)] two.at_end [OF Cons.prems(2)] by auto
    have "mismatch C1 rd1 it1 e1 C2 rd2 it2 e2 P = mismatch C1 rd1 (step C1 it1) e1 C2 rd2 (step C2 it2) e2 P"
      using False n1 n2 by (simp add: mismatch_def loop_while_step)
    moreover have "ks = keys1 (step C1 it1) e1" using Cons.hyps(2) k(1) by simp
    ultimately show ?thesis using Cons.hyps(1) [OF _ k(2) l(2)] False by (simp add: k(1) l(1) funpow_swap1)
  qed
qed

text \<open>A turn of \<^verbatim>\<open>search\<close> finds the place, finds out that there is none, or goes on behind a place that is none.\<close>

lemma search_turn_range:
  fixes rd1 rd2 P
  assumes r1: "reaches1 it1 e1" and r2: "reaches2 it2 e2" and ne: "keys2 it2 e2 \<noteq> []"
    and n: "n \<le> length (keys1 it1 e1)"
  defines "Q \<equiv> \<lambda>k l. P (rd1 k) (rd2 l)"
    and "turn \<equiv> search_turn C1 rd1 e1 C2 rd2 (step C2 it2) e2 P (\<lambda>x. P x (rd2 (key C2 it2))) ((step C1 ^^ n) it1)"
    and "xs \<equiv> keys1 it1 e1" and "ys \<equiv> keys2 it2 e2"
  shows "(\<exists>m k. turn = Some ((step C1 ^^ m) it1, Some ((step C1 ^^ k) it1)) \<and> n \<le> k \<and> none_between Q xs ys n k \<and> (match_at Q xs ys k \<or> k = length xs)) \<or>
    (\<exists>m. turn = Some ((step C1 ^^ m) it1, None) \<and> n < m \<and> m \<le> length xs \<and> none_between Q xs ys n m)"
proof -
  define y where "y = key C2 it2"
  define zs where "zs = keys2 (step C2 it2) e2"
  have ys: "ys = y # zs" and r2': "reaches2 (step C2 it2) e2" using two.advance [OF r2 ne] by (auto simp: ys_def y_def zs_def)
  have r: "reaches1 ((step C1 ^^ i) it1) e1" "keys1 ((step C1 ^^ i) it1) e1 = drop i xs" if "i \<le> length xs" for i
    using one.reaches_later [OF r1] that by (auto simp: xs_def)
  have at_end: "at_same_pos C1 ((step C1 ^^ i) it1) e1 \<longleftrightarrow> i = length xs" if "i \<le> length xs" for i
    using one.at_end [OF r(1) [OF that]] r(2) [OF that] that by auto
  have n: "n \<le> length xs" using n by (simp add: xs_def)
  define a where "a = scan (\<lambda>k. Q k y) xs n"
  note a = scan_props(1-3) [OF n, of "\<lambda>k. Q k y", folded a_def]
  have none: "none_between Q xs ys n a" unfolding ys a_def by (rule none_between_scan [OF n])
  have find: "find_if C1 rd1 ((step C1 ^^ n) it1) e1 (\<lambda>x. P x (rd2 y)) = Some ((step C1 ^^ a) it1)"
    using one.find_if_range [OF r(1) [OF n], of rd1 "\<lambda>x. P x (rd2 y)"] r(2) [OF n] by (simp add: a_def scan_def Q_def funpow_then)
  show ?thesis
  proof (cases "a = length xs")
    case True
    then have "turn = Some ((step C1 ^^ a) it1, Some ((step C1 ^^ a) it1))"
      using at_end [OF a(2)] find by (simp add: turn_def search_turn_def y_def)
    then show ?thesis using none a(1) True by blast
  next
    case False
    then have lt: "a < length xs" using a(2) by simp
    then have a1: "Suc a \<le> length xs" by simp
    define c where "c = common Q (drop (Suc a) xs) zs"
    have mm: "mismatch C1 rd1 ((step C1 ^^ Suc a) it1) e1 C2 rd2 (step C2 it2) e2 P = Some ((step C1 ^^ (Suc a + c)) it1, (step C2 ^^ c) (step C2 it2))"
      using mismatch_range [OF r(1) [OF a1] r2', of rd1 rd2 P] r(2) [OF a1] by (simp add: c_def Q_def zs_def funpow_then del: funpow.simps)
    have c: "c \<le> length (drop (Suc a) xs)" "c \<le> length zs" unfolding c_def by (rule common_le)+
    have e2: "at_same_pos C2 ((step C2 ^^ c) (step C2 it2)) e2 \<longleftrightarrow> c = length zs"
      using two.reaches_later [OF r2'] two.at_end [of "(step C2 ^^ c) (step C2 it2)" e2] c(2) by (auto simp: zs_def)
    have c': "Suc a + c \<le> length xs" using c(1) a1 by simp
    have m: "match_at Q xs ys a \<longleftrightarrow> c = length zs" using a(3) [OF lt] lt by (simp add: ys match_at_Cons c_def)
    have turn: "turn = Some ((step C1 ^^ Suc a) it1, if c = length zs then Some ((step C1 ^^ a) it1) else if Suc a + c = length xs then Some ((step C1 ^^ (Suc a + c)) it1) else None)"
      using at_end [OF a(2)] False mm e2 at_end [OF c'] find by (simp add: turn_def search_turn_def y_def) (metis comp_apply funpow.simps(2))
    show ?thesis
    proof (cases "c = length zs")
      case True
      then have "turn = Some ((step C1 ^^ Suc a) it1, Some ((step C1 ^^ a) it1))" by (simp only: turn if_True refl)
      then show ?thesis using none a(1) m True by blast
    next
      case c_less: False
      show ?thesis
      proof (cases "Suc a + c = length xs")
        case True
        have "turn = Some ((step C1 ^^ Suc a) it1, Some ((step C1 ^^ length xs) it1))" using c_less by (simp only: turn True if_False if_True refl)
        moreover have "length xs < a + length ys" using True c_less c(2) by (simp add: ys)
        then have "none_between Q xs ys n (length xs)" using none none_between_end by blast
        ultimately show ?thesis using n by blast
      next
        case False
        have "turn = Some ((step C1 ^^ Suc a) it1, None)" using c_less False by (simp only: turn if_False)
        moreover have "none_between Q xs ys n (Suc a)" using none m c_less by (simp add: none_between_Suc)
        ultimately show ?thesis using a(1) a1 by (intro disjI2 exI [of _ "Suc a"]) simp
      qed
    qed
  qed
qed

text \<open>The whole loop: the first match, or the end if there is none.\<close>

lemma search_loop:
  fixes rd1 rd2 P
  assumes r1: "reaches1 it1 e1" and r2: "reaches2 it2 e2" and ne: "keys2 it2 e2 \<noteq> []"
    and n: "n \<le> length (keys1 it1 e1)"
  defines "Q \<equiv> \<lambda>k l. P (rd1 k) (rd2 l)"
    and "turn \<equiv> search_turn C1 rd1 e1 C2 rd2 (step C2 it2) e2 P (\<lambda>x. P x (rd2 (key C2 it2)))"
    and "xs \<equiv> keys1 it1 e1" and "ys \<equiv> keys2 it2 e2"
  assumes none: "none_between Q xs ys 0 n"
  shows "\<exists>c k. loop_while (\<lambda>(cur1, rc). rc = None) (\<lambda>(cur1, rc). turn cur1) ((step C1 ^^ n) it1, None) = Some (c, Some ((step C1 ^^ k) it1)) \<and>
    none_between Q xs ys 0 k \<and> (match_at Q xs ys k \<or> k = length xs)"
  using n none
proof (induction "length xs - n" arbitrary: n rule: less_induct)
  case less
  from search_turn_range [OF r1 r2 ne less.prems(1), where P = P and ?rd1.0 = rd1 and ?rd2.0 = rd2, folded Q_def turn_def xs_def ys_def]
  consider (stop) m k where "turn ((step C1 ^^ n) it1) = Some ((step C1 ^^ m) it1, Some ((step C1 ^^ k) it1))" "none_between Q xs ys n k" "match_at Q xs ys k \<or> k = length xs"
    | (more) m where "turn ((step C1 ^^ n) it1) = Some ((step C1 ^^ m) it1, None)" "n < m" "m \<le> length xs" "none_between Q xs ys n m"
    by blast
  then show ?case
  proof cases
    case stop
    then show ?thesis using none_between_trans [OF less.prems(2) stop(2)] by (auto simp: loop_while_step [where s = "((step C1 ^^ n) it1, None)"])
  next
    case more
    have "none_between Q xs ys 0 m" by (rule none_between_trans [OF less.prems(2) more(4)])
    moreover have "length xs - m < length xs - n" using more by simp
    ultimately obtain c k where "loop_while (\<lambda>(cur1, rc). rc = None) (\<lambda>(cur1, rc). turn cur1) ((step C1 ^^ m) it1, None) = Some (c, Some ((step C1 ^^ k) it1))"
        "none_between Q xs ys 0 k" "match_at Q xs ys k \<or> k = length xs"
      using less.hyps [of m] more(3) by (auto simp: xs_def)
    then show ?thesis using more(1) by (auto simp: loop_while_step [where s = "((step C1 ^^ n) it1, None)"])
  qed
qed

lemma search_range:
  fixes rd1 rd2 P
  assumes r1: "reaches1 it1 e1" and r2: "reaches2 it2 e2"
  defines "Q \<equiv> \<lambda>k l. P (rd1 k) (rd2 l)" and "xs \<equiv> keys1 it1 e1" and "ys \<equiv> keys2 it2 e2"
  shows "\<exists>k. search C1 rd1 it1 e1 C2 rd2 it2 e2 P = Some ((step C1 ^^ k) it1) \<and>
    none_between Q xs ys 0 k \<and> (match_at Q xs ys k \<or> k = length xs)"
proof (cases "ys = []")
  case True
  then have "search C1 rd1 it1 e1 C2 rd2 it2 e2 P = Some ((step C1 ^^ 0) it1)" using two.at_end [OF r2] by (simp add: search_def ys_def)
  moreover have "match_at Q xs ys 0" "none_between Q xs ys 0 0" by (simp_all add: True match_at_def none_between_def)
  ultimately show ?thesis by blast
next
  case False
  then have ne: "keys2 it2 e2 \<noteq> []" by (simp add: ys_def)
  have "none_between Q xs ys 0 0" by (simp add: none_between_def)
  from search_loop [OF r1 r2 ne, where n = 0 and P = P and ?rd1.0 = rd1 and ?rd2.0 = rd2, folded Q_def xs_def ys_def] this obtain c k where
    "loop_while (\<lambda>(cur1, rc). rc = None) (\<lambda>(cur1, rc). search_turn C1 rd1 e1 C2 rd2 (step C2 it2) e2 P (\<lambda>x. P x (rd2 (key C2 it2))) cur1) (it1, None) = Some (c, Some ((step C1 ^^ k) it1))"
    "none_between Q xs ys 0 k" "match_at Q xs ys k \<or> k = length xs" by auto
  then show ?thesis using ne two.at_end [OF r2] by (auto simp: search_def)
qed

end

section \<open>Cursors\<close>

text \<open>Pointers into an array \<open>xs\<close>, as their index; and unsigned integers of 32 bits, which step around.\<close>

definition array_cursor :: "'a list \<Rightarrow> (nat, nat, 'a) cursor" where
  "array_cursor xs = \<lparr>at_same_pos = (=), key = (\<lambda>i. xs ! i), step = Suc\<rparr>"

definition integer_cursor :: "(32 word, 32 word, 32 word) cursor" where
  "integer_cursor = \<lparr>at_same_pos = (=), key = (\<lambda>i. i), step = (\<lambda>i. i + 1)\<rparr>"

lemma array_step: "(step (array_cursor xs) ^^ n) i = i + n"
  by (induction n arbitrary: i) (simp_all add: array_cursor_def funpow_swap1)

definition slice :: "'a list \<Rightarrow> nat \<Rightarrow> nat \<Rightarrow> 'a list" where
  "slice xs i j = take (j - i) (drop i xs)"

lemma slice_Cons: "i < j \<Longrightarrow> j \<le> length xs \<Longrightarrow> slice xs i j = xs ! i # slice xs (Suc i) j"
  by (auto simp: slice_def Suc_diff_Suc [symmetric] Cons_nth_drop_Suc [symmetric] take_Cons split: nat.splits)

lemma slice_Nil: "i \<le> j \<Longrightarrow> j \<le> length xs \<Longrightarrow> slice xs i j = [] \<longleftrightarrow> i = j"
  by (auto simp: slice_def)

interpretation arr: cursor_range "array_cursor xs" "slice xs" "\<lambda>i j. i \<le> j \<and> j \<le> length xs"
  by unfold_locales (auto simp: array_cursor_def slice_Nil slice_Cons)

fun words_from :: "32 word \<Rightarrow> nat \<Rightarrow> 32 word list" where
  "words_from i 0 = []"
| "words_from i (Suc n) = i # words_from (i + 1) n"

lemma words_from_Nil: "words_from i n = [] \<longleftrightarrow> n = 0"
  by (cases n) auto

lemma unat_diff_step: "(i :: 32 word) \<noteq> j \<Longrightarrow> unat (j - i) = Suc (unat (j - (i + 1)))"
proof -
  assume "i \<noteq> j"
  then have "j - i \<noteq> 0" by simp
  then have "unat (j - i - 1) = unat (j - i) - 1" "0 < unat (j - i)" by (simp_all add: unat_minus_one unat_gt_0)
  then show ?thesis by (simp add: diff_diff_eq)
qed

interpretation ints: cursor_range integer_cursor "\<lambda>i j. words_from i (unat (j - i))" "\<lambda>i j. True"
proof unfold_locales
  fix i e :: "32 word"
  show "at_same_pos integer_cursor i e \<longleftrightarrow> words_from i (unat (e - i)) = []" by (auto simp: integer_cursor_def words_from_Nil unat_eq_zero)
  assume "words_from i (unat (e - i)) \<noteq> []"
  then have "i \<noteq> e" by auto
  then show "words_from i (unat (e - i)) = key integer_cursor i # words_from (step integer_cursor i) (unat (e - step integer_cursor i)) \<and> True"
    by (simp add: integer_cursor_def unat_diff_step)
qed

interpretation arrs: two_ranges "array_cursor xs" "slice xs" "\<lambda>i j. i \<le> j \<and> j \<le> length xs" "array_cursor ys" "slice ys" "\<lambda>i j. i \<le> j \<and> j \<le> length ys"
  by unfold_locales

text \<open>Matching between two parts of arrays, by index.\<close>

lemma match_at_slice:
  assumes "i \<le> m" "m \<le> length xs" and "j \<le> n" "n \<le> length ys"
  shows "match_at P (slice xs i m) (slice ys j n) k \<longleftrightarrow> i + k + (n - j) \<le> m \<and> (\<forall>l < n - j. P (xs ! (i + k + l)) (ys ! (j + l)))"
proof -
  have len: "length (slice xs i m) = m - i" "length (slice ys j n) = n - j" using assms by (simp_all add: slice_def)
  have nth: "slice xs i m ! l = xs ! (i + l)" if "l < m - i" for l using that assms by (simp add: slice_def)
  have nth': "slice ys j n ! l = ys ! (j + l)" if "l < n - j" for l using that assms by (simp add: slice_def)
  have "k + (n - j) \<le> m - i \<longleftrightarrow> i + k + (n - j) \<le> m" using assms by auto
  moreover have "list_all2 P (take (n - j) (drop k (slice xs i m))) (slice ys j n) \<longleftrightarrow> (\<forall>l < n - j. P (xs ! (i + k + l)) (ys ! (j + l)))"
    if "k + (n - j) \<le> m - i"
    using that by (simp add: list_all2_conv_all_nth len nth nth' add.assoc)
  ultimately show ?thesis by (auto simp: match_at_def len)
qed

text \<open>
  C36: \<^verbatim>\<open>search\<close> on two ranges of arrays returns, and returns the first position of the first range where the second one is found under the predicate, or
  the end of the first range if it is not found anywhere.
\<close>

theorem search_first:
  assumes "i \<le> m" and "m \<le> length xs" and "j \<le> n" and "n \<le> length ys"
  shows "\<exists>k. search (array_cursor xs) rd1 i m (array_cursor ys) rd2 j n P = Some k \<and> i \<le> k \<and>
    (let found = (\<lambda>k. k + (n - j) \<le> m \<and> (\<forall>l < n - j. P (rd1 (xs ! (k + l))) (rd2 (ys ! (j + l)))))
     in (found k \<or> k = m) \<and> (\<forall>k'. i \<le> k' \<longrightarrow> k' < k \<longrightarrow> \<not> found k'))"
proof -
  let ?Q = "\<lambda>k l. P (rd1 k) (rd2 l)"
  from arrs.search_range [of i m xs j n ys rd1 rd2 P] assms obtain k where
    k: "search (array_cursor xs) rd1 i m (array_cursor ys) rd2 j n P = Some ((step (array_cursor xs) ^^ k) i)"
      "none_between ?Q (slice xs i m) (slice ys j n) 0 k" "match_at ?Q (slice xs i m) (slice ys j n) k \<or> k = length (slice xs i m)" by auto
  define found where "found = (\<lambda>k. k + (n - j) \<le> m \<and> (\<forall>l < n - j. P (rd1 (xs ! (k + l))) (rd2 (ys ! (j + l)))))"
  have f: "match_at ?Q (slice xs i m) (slice ys j n) k' \<longleftrightarrow> found (i + k')" for k'
    using match_at_slice [OF assms] by (simp add: found_def)
  have "found (i + k) \<or> i + k = m" using k(3) assms unfolding f by (auto simp: slice_def)
  moreover have "\<not> found k'" if "i \<le> k'" "k' < i + k" for k'
    using k(2) that f [of "k' - i"] by (auto simp: none_between_def)
  ultimately show ?thesis using k(1) by (auto simp: array_step found_def Let_def)
qed

theorem search_first_witness:
  "search (array_cursor ''abcabd'') id 0 6 (array_cursor ''abd'') id 0 3 (=) = Some 3"
proof -
  obtain k where k: "search (array_cursor ''abcabd'') id 0 6 (array_cursor ''abd'') id 0 3 (=) = Some k"
      "(k + 3 \<le> 6 \<and> (\<forall>l < 3. ''abcabd'' ! (k + l) = ''abd'' ! l)) \<or> k = 6"
      "\<forall>k' < k. \<not> (k' + 3 \<le> 6 \<and> (\<forall>l < 3. ''abcabd'' ! (k' + l) = ''abd'' ! l))"
    using search_first [of 0 6 "''abcabd''" 0 3 "''abd''" id id "(=)"] by (auto simp: Let_def)
  have three: "\<forall>l < 3. ''abcabd'' ! (3 + l) = ''abd'' ! l" by (simp add: All_less_Suc numeral_3_eq_3 eval_nat_numeral)
  then have "\<not> 3 < k" using k(3) by auto
  moreover have "k \<noteq> 0" using k(2) by (intro notI) (auto dest!: spec [of _ 2])
  moreover have "k \<noteq> 1" "k \<noteq> 2" using k(2) by (intro notI; auto dest!: spec [of _ 0])+
  ultimately have "k = 3" by simp
  with k(1) show ?thesis by simp
qed

text \<open>
  The quantifier algorithms agree with the quantifiers on the values of a range of an array, and \<^verbatim>\<open>for_each\<close> calls its function for the values in order.
\<close>

theorem quantifier_algorithms:
  assumes "i \<le> m" and "m \<le> length xs"
  shows "all_of (array_cursor xs) rd i m P = Some (\<forall>k. i \<le> k \<longrightarrow> k < m \<longrightarrow> P (rd (xs ! k))) \<and>
    any_of (array_cursor xs) rd i m P = Some (\<exists>k. i \<le> k \<and> k < m \<and> P (rd (xs ! k))) \<and>
    none_of (array_cursor xs) rd i m P = Some (\<forall>k. i \<le> k \<longrightarrow> k < m \<longrightarrow> \<not> P (rd (xs ! k))) \<and>
    for_each (array_cursor xs) rd i m g f = Some (m, fold g (map (\<lambda>k. rd (xs ! k)) [i..<m]) f)"
proof -
  have s: "slice xs i m = map (\<lambda>k. xs ! k) [i..<m]" using assms by (auto simp: slice_def intro!: nth_equalityI)
  then have "set (slice xs i m) = (\<lambda>k. xs ! k) ` {i..<m}" by simp
  then show ?thesis
    using assms arr.quantifiers_range [of i m xs rd P] arr.for_each_range [of i m xs rd g f]
    by (auto simp: s array_step comp_def)
qed

theorem quantifier_algorithms_witness:
  "all_of (array_cursor [2, 4, 5 :: nat]) id 0 2 (\<lambda>x. x < 5) = Some True \<and> for_each (array_cursor [2, 4, 5 :: nat]) id 0 2 (\<lambda>x s. s + x) 0 = Some (2, 6)"
  using quantifier_algorithms [of 0 2 "[2, 4, 5 :: nat]" id "\<lambda>x. x < 5" "\<lambda>x s. s + x" 0]
  by (auto simp: less_Suc_eq numeral_2_eq_2)

text \<open>The distance between integers is the difference, modulo \<open>2 ^ 32\<close>.\<close>

lemma words_from_length: "length (words_from i n) = n"
  by (induction n arbitrary: i) simp_all

lemma integer_distance: "distance integer_cursor i j = Some (of_nat (unat (j - i)))"
  using ints.distance_range [of i j] by (simp add: words_from_length)

text \<open>Searching a range for itself finds it at its beginning, and two equal ranges have no mismatch before the end.\<close>

lemma search_equal_self:
  assumes "i \<le> m" and "m \<le> length xs"
  shows "search_equal (array_cursor xs) rd i m (array_cursor xs) rd i m = Some i"
proof -
  obtain k where k: "search (array_cursor xs) rd i m (array_cursor xs) rd i m (\<lambda>x y. x = y) = Some ((step (array_cursor xs) ^^ k) i)"
      "none_between (\<lambda>k l. rd k = rd l) (slice xs i m) (slice xs i m) 0 k"
    using arrs.search_range [of i m xs i m xs rd rd "\<lambda>x y. x = y"] assms by auto
  moreover have "match_at (\<lambda>k l. rd k = rd l) ks ks 0" for ks by (simp add: match_at_def list_all2_refl)
  then have "k = 0" using k(2) by (cases k) (auto simp: none_between_def)
  ultimately show ?thesis by (simp add: search_equal_def)
qed

lemma for_each_iterator_array:
  assumes "i \<le> m" and "m \<le> length xs"
  shows "for_each_iterator (array_cursor xs) i m g f = Some (m, fold g (slice xs i m) f)"
  using assms arr.for_each_range [of i m xs "\<lambda>x. x" g f] by (auto simp: for_each_iterator_def array_step slice_def)

end
