(* ===== verification/P_Queue.thy ===== *)
theory P_Queue
  imports Max_Queue Heap_Order
begin

text \<open>
  \<^verbatim>\<open>boost::priority_queue\<close> of \<^verbatim>\<open>src/src/old-boost/heaps/p_queue.{hpp,cc}\<close>: a binary heap in a vector of values. \<^verbatim>\<open>pop\<close> moves the hole down to a leaf and
  fills it with the last value, which then goes up; it and \<^verbatim>\<open>push\<close> make the vector an instance of the queue contract. \<^verbatim>\<open>change_top\<close> forgets
  the one child of a node that has no second one.
\<close>

section \<open>Model\<close>

text \<open>
  The value \<^verbatim>\<open>siftup\<close> gets is a reference, in \<^verbatim>\<open>pop\<close> into the vector itself: it is read from the vector each time it is used.
\<close>

function pq_siftup_loop :: "nat \<Rightarrow> ('a::linorder list \<Rightarrow> 'a) \<Rightarrow> 'a list \<Rightarrow> 'a list" where
  "pq_siftup_loop idx v c =
     (if idx \<noteq> 0 \<and> c ! ((idx - 1) div 2) < v c
      then pq_siftup_loop ((idx - 1) div 2) v (c[idx := c ! ((idx - 1) div 2)])
      else c[idx := v c])"
  by auto
termination by (relation "measure fst") auto

declare pq_siftup_loop.simps [simp del]

definition pq_siftup :: "nat \<Rightarrow> ('a::linorder list \<Rightarrow> 'a) \<Rightarrow> 'a list \<Rightarrow> 'a list" where
  "pq_siftup idx v c = (if idx = 0 then c else pq_siftup_loop idx v c)"

definition pq_push :: "'a::linorder \<Rightarrow> 'a list \<Rightarrow> 'a list" where
  "pq_push val c = pq_siftup (length (c @ [val]) - 1) (\<lambda>_. val) (c @ [val])"

definition pq_top :: "'a list \<Rightarrow> 'a" where
  "pq_top c = c ! 0"

definition pq_empty :: "'a list \<Rightarrow> bool" where
  "pq_empty c = (c = [])"

text \<open>The larger of two children, the second one at \<^verbatim>\<open>cidx\<close>.\<close>

definition larger :: "nat \<Rightarrow> 'a::linorder list \<Rightarrow> nat" where
  "larger cidx c = (if c ! cidx < c ! (cidx - 1) then cidx - 1 else cidx)"

function pq_pop_loop :: "nat \<Rightarrow> nat \<Rightarrow> nat \<Rightarrow> 'a::linorder list \<Rightarrow> nat \<times> nat \<times> 'a list" where
  "pq_pop_loop len hidx cidx c =
     (if cidx < len
      then let cidx = larger cidx c in pq_pop_loop len cidx (cidx * 2 + 2) (c[hidx := c ! cidx])
      else (hidx, cidx, c))"
  by auto
termination by (relation "measure (\<lambda>(len, hidx, cidx, c). len - cidx)") (auto simp: larger_def)

declare pq_pop_loop.simps [simp del]

definition pq_pop :: "'a::linorder list \<Rightarrow> 'a list" where
  "pq_pop c =
     (let len = length c;
          (hidx, cidx, c) = pq_pop_loop len 0 2 c;
          c = c[hidx := c ! (len - 1)];
          c = (if cidx \<noteq> len then pq_siftup hidx (\<lambda>c. c ! (len - 1)) c else c)
      in butlast c)"

function pq_change_loop :: "nat \<Rightarrow> 'a::linorder \<Rightarrow> nat \<Rightarrow> nat \<Rightarrow> 'a list \<Rightarrow> nat \<times> 'a list" where
  "pq_change_loop len tmp hidx cidx c =
     (if cidx < len
      then let cidx = larger cidx c in
        if c ! cidx < tmp then (hidx, c)
        else pq_change_loop len tmp cidx (cidx * 2 + 2) (c[hidx := c ! cidx])
      else (hidx, c))"
  by auto
termination by (relation "measure (\<lambda>(len, tmp, hidx, cidx, c). len - cidx)") (auto simp: larger_def)

declare pq_change_loop.simps [simp del]

definition pq_change_top :: "'a::linorder \<Rightarrow> 'a list \<Rightarrow> 'a list" where
  "pq_change_top val c = (let (hidx, c) = pq_change_loop (length c) val 0 2 c in c[hidx := val])"

section \<open>siftup\<close>

text \<open>A value that does not depend on what \<^verbatim>\<open>siftup\<close> writes, which is at the position and its ancestors, goes up to its place.\<close>

lemma siftup_loop_ok:
  assumes "heap_above 2 idx (c[idx := x])" and "idx < length c"
    and "\<And>c'. length c' = length c \<Longrightarrow> (\<And>i. idx < i \<Longrightarrow> c' ! i = c ! i) \<Longrightarrow> v c' = x"
  shows "heap_ordered 2 (pq_siftup_loop idx v c) \<and> mset (pq_siftup_loop idx v c) = mset (c[idx := x]) \<and> length (pq_siftup_loop idx v c) = length c \<and>
    (\<forall>i > idx. pq_siftup_loop idx v c ! i = c ! i)"
  using assms
proof (induction idx v c rule: pq_siftup_loop.induct)
  case (1 idx v c)
  let ?p = "parent 2 idx" and ?d = "c[idx := c ! parent 2 idx]"
  have v: "v c = x" by (rule "1.prems"(3)) simp_all
  show ?case
  proof (cases "idx \<noteq> 0 \<and> c ! ?p < x")
    case True
    have p: "?p < idx" using True by (intro parent_less) simp
    have e: "?d[?p := x] = (c[idx := x])[idx := c[idx := x] ! ?p, ?p := c[idx := x] ! idx]"
      using p "1.prems"(2) by simp
    have above: "heap_above 2 ?p (?d[?p := x])" unfolding e
      by (rule heap_above_step) (use "1.prems" True p in auto)
    have mset: "mset (?d[?p := x]) = mset (c[idx := x])" unfolding e
      by (rule mset_swap) (use "1.prems" p in auto)
    have step: "pq_siftup_loop idx v c = pq_siftup_loop ?p v ?d"
      using True v by (subst pq_siftup_loop.simps) (simp add: parent_def)
    have "v c' = x" if "length c' = length ?d" "\<And>i. ?p < i \<Longrightarrow> c' ! i = ?d ! i" for c'
      using that p by (intro "1.prems"(3)) auto
    then have "heap_ordered 2 (pq_siftup_loop ?p v ?d) \<and> mset (pq_siftup_loop ?p v ?d) = mset (?d[?p := x]) \<and> length (pq_siftup_loop ?p v ?d) = length ?d \<and>
        (\<forall>i > ?p. pq_siftup_loop ?p v ?d ! i = ?d ! i)"
      using "1.IH" True v above p "1.prems"(2) by (simp add: parent_def)
    then show ?thesis using step mset p by simp
  next
    case False
    have r: "pq_siftup_loop idx v c = c[idx := x]"
      using False v by (subst pq_siftup_loop.simps) (auto simp: parent_def)
    have "idx = 0 \<or> c[idx := x] ! idx \<le> c[idx := x] ! ?p"
      using False "1.prems"(2) parent_less [of idx 2] by (cases "idx = 0") (auto simp: nth_list_update)
    from heap_above_done [OF "1.prems"(1) this] r show ?thesis by simp
  qed
qed

lemma pq_push_ok:
  assumes "heap_ordered 2 c"
  shows "heap_ordered 2 (pq_push x c) \<and> mset (pq_push x c) = add_mset x (mset c)"
proof (cases "c = []")
  case True
  then show ?thesis by (simp add: pq_push_def pq_siftup_def heap_ordered_def)
next
  case False
  from siftup_loop_ok [of "length c" "c @ [x]" x "\<lambda>_. x"] heap_above_snoc [OF assms] False show ?thesis
    by (simp add: pq_push_def pq_siftup_def)
qed

section \<open>pop\<close>

lemma mset_hole:
  assumes "m < length c" and "k < length c" and "m \<noteq> k"
  shows "mset (c[k := c ! m, m := y]) = mset (c[k := y])"
proof -
  have "c[k := c ! m, m := y] = (c[k := y])[k := c[k := y] ! m, m := c[k := y] ! k]" using assms by simp
  also have "mset \<dots> = mset (c[k := y])" by (rule mset_swap) (use assms in auto)
  finally show ?thesis .
qed

lemma larger_child:
  assumes "cidx < length c" and "cidx = k * 2 + 2"
  shows "larger cidx c < length c" and "0 < larger cidx c" and "parent 2 (larger cidx c) = k"
    and "0 < i \<Longrightarrow> i < length c \<Longrightarrow> parent 2 i = k \<Longrightarrow> c ! i \<le> c ! larger cidx c"
proof -
  show "larger cidx c < length c" "0 < larger cidx c" "parent 2 (larger cidx c) = k"
    using assms by (auto simp: larger_def parent_def)
  show "c ! i \<le> c ! larger cidx c" if "0 < i" "i < length c" "parent 2 i = k"
  proof -
    have "i = cidx \<or> i = cidx - 1" using children [of 2 i k] that assms(2) by auto
    then show ?thesis by (auto simp: larger_def)
  qed
qed

definition hole_at :: "'a::linorder list \<Rightarrow> nat \<Rightarrow> 'a list \<Rightarrow> bool" where
  "hole_at c0 h c = (h < length c \<and> length c = length c0 \<and> heap_hole 2 h c \<and> (\<forall>y. mset (c[h := y]) = mset (c0[0 := y])) \<and> (0 < h \<longrightarrow> c ! parent 2 h = c ! h))"

lemma hole_at_step:
  assumes "hole_at c0 h c" and "cidx < length c" and "cidx = h * 2 + 2"
  shows "hole_at c0 (larger cidx c) (c[h := c ! larger cidx c])"
proof -
  note m = larger_child [OF assms(2,3)]
  have h: "h < larger cidx c" using parent_less [OF m(2), of 2] m(3) by simp
  have c: "h < length c" "length c = length c0" "heap_hole 2 h c" "\<And>y. mset (c[h := y]) = mset (c0[0 := y])"
    using assms(1) by (simp_all add: hole_at_def)
  have "heap_hole 2 (larger cidx c) (c[h := c ! larger cidx c])"
    by (rule heap_hole_step [OF c(3) m(1-3)]) (rule m(4))
  moreover have "mset ((c[h := c ! larger cidx c])[larger cidx c := y]) = mset (c0[0 := y])" for y
    using mset_hole [OF m(1) c(1)] h c(4) by simp
  ultimately show ?thesis using m(1,3) h c(1,2) by (simp add: hole_at_def)
qed

lemma pop_loop_ok:
  assumes "hole_at c0 hidx c" and "cidx = hidx * 2 + 2"
  shows "\<exists>h d. pq_pop_loop (length c) hidx cidx c = (h, h * 2 + 2, d) \<and> hole_at c0 h d \<and> length d \<le> h * 2 + 2"
  using assms
proof (induction "length c - cidx" arbitrary: hidx cidx c rule: less_induct)
  case less
  show ?case
  proof (cases "cidx < length c")
    case True
    let ?m = "larger cidx c" and ?d = "c[hidx := c ! larger cidx c]"
    have "length ?d - (?m * 2 + 2) < length c - cidx" using True larger_child(2) [OF True less.prems(2)] by (auto simp: larger_def)
    from less.hyps [OF this hole_at_step [OF less.prems(1) True less.prems(2)] refl] show ?thesis
      using True by (simp add: pq_pop_loop.simps [of "length c" hidx cidx] Let_def)
  next
    case False
    then have "pq_pop_loop (length c) hidx cidx c = (hidx, hidx * 2 + 2, c)" using less.prems(2) by (simp add: pq_pop_loop.simps)
    then show ?thesis using less.prems False by auto
  qed
qed

lemma mset_butlast_hole:
  assumes "d \<noteq> []" and "mset d = mset (c0[0 := last d])" and "c0 \<noteq> []"
  shows "mset (butlast d) = mset c0 - {#c0 ! 0#}"
proof -
  have "add_mset (last d) (mset (butlast d)) = mset d"
    by (metis append_butlast_last_id assms(1) mset.simps(1,2) mset_append union_mset_add_mset_right add.right_neutral)
  also have "\<dots> = add_mset (last d) (mset c0 - {#c0 ! 0#})" using assms(2,3) by (simp add: mset_update)
  finally show ?thesis by simp
qed

lemma heap_ordered_butlast:
  assumes "heap_ordered 2 c"
  shows "heap_ordered 2 (butlast c)"
  unfolding heap_ordered_def
proof (intro allI impI)
  fix i assume i: "0 < i" "i < length (butlast c)"
  then have "parent 2 i < length (butlast c)" using parent_less [OF i(1), of 2] by simp
  then show "butlast c ! i \<le> butlast c ! parent 2 i" using assms i by (simp add: heap_ordered_def nth_butlast)
qed

text \<open>The three ways the hole is closed: it is the last place, its one child is the last place, or it has no child.\<close>

lemma close_last:
  assumes "hole_at c0 h d" and "h = length d - 1"
  shows "heap_ordered 2 (butlast d)"
  unfolding heap_ordered_def
proof (intro allI impI)
  fix i assume i: "0 < i" "i < length (butlast d)"
  then have "parent 2 i < length (butlast d)" using parent_less [OF i(1), of 2] by simp
  then show "butlast d ! i \<le> butlast d ! parent 2 i" using assms i by (simp add: hole_at_def heap_hole_def nth_butlast)
qed

lemma close_single:
  assumes "hole_at c0 h d" and "length d = h * 2 + 2"
  shows "heap_ordered 2 (butlast (d[h := d ! (length d - 1)]))"
  unfolding heap_ordered_def
proof (intro allI impI)
  let ?d = "d[h := d ! (length d - 1)]"
  fix i assume i: "0 < i" "i < length (butlast ?d)"
  then have p: "parent 2 i < length d - 1" using parent_less [OF i(1), of 2] by simp
  have ph: "parent 2 i \<noteq> h" using children [of 2 i h] i assms(2) by auto
  have pl: "parent 2 (length d - 1) = h" using assms(2) by (simp add: parent_def)
  have i': "i < length d" using i(2) by simp
  have hole: "\<And>i. 0 < i \<Longrightarrow> i < length d \<Longrightarrow> i \<noteq> h \<Longrightarrow> parent 2 i \<noteq> h \<Longrightarrow> d ! i \<le> d ! parent 2 i" "h < length d"
    "\<And>i. 0 < i \<Longrightarrow> i < length d \<Longrightarrow> parent 2 i = h \<Longrightarrow> 0 < h \<Longrightarrow> d ! i \<le> d ! parent 2 h"
    using assms(1) unfolding hole_at_def heap_hole_def by blast+
  have "?d ! i \<le> ?d ! parent 2 i"
  proof (cases "i = h")
    case True
    with hole(2) hole(3) [of "length d - 1"] pl ph i(1) assms(2) show ?thesis by simp
  next
    case False
    with hole(1) [OF i(1) i'] ph show ?thesis by simp
  qed
  then show "butlast ?d ! i \<le> butlast ?d ! parent 2 i" using i p by (simp add: nth_butlast)
qed

lemma pq_pop_ok:
  assumes "heap_ordered 2 c" and "c \<noteq> []"
  shows "heap_ordered 2 (pq_pop c) \<and> mset (pq_pop c) = mset c - {#c ! 0#}"
proof -
  let ?n = "length c"
  have "hole_at c 0 c" using assms by (simp add: hole_at_def heap_hole_root)
  from pop_loop_ok [OF this, of 2] obtain h d where
    l: "pq_pop_loop ?n 0 2 c = (h, h * 2 + 2, d)" and hd: "hole_at c h d" and no: "length d \<le> h * 2 + 2" by auto
  have d: "length d = ?n" "h < ?n" "\<And>y. mset (d[h := y]) = mset (c[0 := y])" using hd by (simp_all add: hole_at_def)
  define x where "x = d ! (?n - 1)"
  define e where "e = d[h := x]"
  have e: "length e = ?n" "mset e = mset (c[0 := x])" "e ! (?n - 1) = x" using d by (simp_all add: e_def x_def nth_list_update)
  have pop: "pq_pop c = butlast (if h * 2 + 2 \<noteq> ?n then pq_siftup h (\<lambda>c. c ! (?n - 1)) e else e)"
    by (simp add: pq_pop_def l x_def e_def Let_def)
  have mset: "mset (butlast f) = mset c - {#c ! 0#}" if "length f = ?n" "mset f = mset e" "f ! (?n - 1) = x" for f
  proof (rule mset_butlast_hole)
    show "f \<noteq> []" using that(1) assms(2) by auto
    then have "last f = x" using that(1,3) by (simp add: last_conv_nth)
    then show "mset f = mset (c[0 := last f])" using that(2) e(2) by simp
  qed (rule assms(2))
  consider "h * 2 + 2 = ?n" | "h * 2 + 2 \<noteq> ?n" "h = ?n - 1" | "h * 2 + 2 \<noteq> ?n" "h < ?n - 1" using d(2) by linarith
  then show ?thesis
  proof cases
    case 1
    then show ?thesis using close_single [OF hd] d(1) mset [of e] e by (simp add: pop e_def x_def)
  next
    case 2
    have "pq_siftup h (\<lambda>c. c ! (?n - 1)) e = e"
    proof (cases "h = 0")
      case False
      then have "d ! parent 2 h = x" "parent 2 h < h" using hd 2 parent_less [of h 2] by (simp_all add: hole_at_def x_def)
      then show ?thesis using False d(1) 2 by (simp add: pq_siftup_def pq_siftup_loop.simps parent_def e_def x_def)
    qed (simp add: pq_siftup_def)
    moreover have "e = d" using d(1) 2 by (simp add: e_def x_def)
    ultimately show ?thesis using close_last [OF hd] d(1) mset [of e] e 2 by (simp add: pop)
  next
    case 3
    have "parent 2 i \<noteq> h" if "0 < i" "i < length d" for i using children [of 2 i h] that no 3(1) d(1) by auto
    then have above: "heap_above 2 h (e[h := x])" unfolding e_def
      using heap_hole_fill [of 2 h d x] hd by (simp add: hole_at_def)
    let ?f = "pq_siftup_loop h (\<lambda>c. c ! (?n - 1)) e"
    have f: "heap_ordered 2 ?f" "mset ?f = mset (e[h := x])" "length ?f = ?n" "?f ! (?n - 1) = x"
      using siftup_loop_ok [OF above, of "\<lambda>c. c ! (?n - 1)"] e d(2) 3 by auto
    have "h \<noteq> 0" using no d(1) 3 by auto
    then have "pq_pop c = butlast ?f" using 3 by (simp add: pop pq_siftup_def)
    moreover have "e[h := x] = e" by (simp add: e_def)
    ultimately show ?thesis using heap_ordered_butlast [OF f(1)] mset [OF f(3) _ f(4)] f(2) by simp
  qed
qed

interpretation pq: max_queue "[]" pq_empty pq_push pq_top pq_pop "heap_ordered 2" mset
proof unfold_locales
  fix q :: "'a list"
  assume "heap_ordered 2 q" "mset q \<noteq> {#}"
  then show "pq_top q \<in># mset q \<and> (\<forall>x \<in># mset q. x \<le> pq_top q)"
    using heap_ordered_max by (auto simp: pq_top_def in_set_conv_nth)
qed (use pq_push_ok pq_pop_ok in \<open>auto simp: heap_ordered_def [of _ "[]"] pq_empty_def pq_top_def\<close>)

section \<open>change_top\<close>

lemma change_loop_ok:
  assumes "hole_at c0 hidx c" and "cidx = hidx * 2 + 2" and "odd (length c)" and "0 < hidx \<Longrightarrow> val \<le> c ! parent 2 hidx"
  shows "case pq_change_loop (length c) val hidx cidx c of (h, d) \<Rightarrow> hole_at c0 h d \<and> heap_ordered 2 (d[h := val])"
  using assms
proof (induction "length c - cidx" arbitrary: hidx cidx c rule: less_induct)
  case less
  have fill: "heap_ordered 2 (c[hidx := val])" if "\<And>i. 0 < i \<Longrightarrow> i < length c \<Longrightarrow> parent 2 i = hidx \<Longrightarrow> c ! i \<le> val"
    unfolding heap_ordered_def
  proof (intro allI impI)
    fix i assume i: "0 < i" "i < length (c[hidx := val])"
    have p: "parent 2 i < i" using i(1) by (rule parent_less)
    have h: "hidx < length c" "i \<noteq> hidx \<Longrightarrow> parent 2 i \<noteq> hidx \<Longrightarrow> c ! i \<le> c ! parent 2 i"
      using less.prems(1) i unfolding hole_at_def heap_hole_def by auto
    show "c[hidx := val] ! i \<le> c[hidx := val] ! parent 2 i"
      using that [OF i(1)] i h p less.prems(4) by (cases "i = hidx"; cases "parent 2 i = hidx") auto
  qed
  show ?case
  proof (cases "cidx < length c")
    case True
    let ?m = "larger cidx c" and ?d = "c[hidx := c ! larger cidx c]"
    note m = larger_child [OF True less.prems(2)]
    show ?thesis
    proof (cases "c ! ?m < val")
      case True
      then have "heap_ordered 2 (c[hidx := val])" using m(4) by (intro fill) (rule order.trans [OF _ less_imp_le])
      then show ?thesis using True \<open>cidx < length c\<close> less.prems(1) by (simp add: pq_change_loop.simps [of "length c" val hidx cidx])
    next
      case False
      have "length ?d - (?m * 2 + 2) < length c - cidx" using True m(2) by (auto simp: larger_def)
      moreover have "hole_at c0 ?m ?d" by (rule hole_at_step [OF less.prems(1) True less.prems(2)])
      moreover have "val \<le> ?d ! parent 2 ?m" using False m(3) less.prems(1) by (simp add: hole_at_def)
      ultimately have "case pq_change_loop (length ?d) val ?m (?m * 2 + 2) ?d of (h, d) \<Rightarrow> hole_at c0 h d \<and> heap_ordered 2 (d[h := val])"
        using less.prems(3) by (intro less.hyps) simp_all
      then show ?thesis using True False by (simp add: pq_change_loop.simps [of "length c" val hidx cidx] Let_def)
    qed
  next
    case False
    have "heap_ordered 2 (c[hidx := val])"
    proof (rule fill)
      fix i assume "0 < i" "i < length c" "parent 2 i = hidx"
      then have "hidx * 2 < i" using children [of 2 i hidx] by simp
      with \<open>i < length c\<close> False less.prems(2) have "length c = 2 * (hidx + 1)" by simp
      with less.prems(3) show "c ! i \<le> val" by (metis dvd_triv_left)
    qed
    then show ?thesis using False less.prems(1) by (simp add: pq_change_loop.simps [of "length c" val hidx cidx])
  qed
qed

section \<open>Properties\<close>

text \<open>
  The binary heap is a priority queue: \<^verbatim>\<open>push\<close> and \<^verbatim>\<open>pop\<close> keep its order, \<^verbatim>\<open>pop\<close> removes the value \<^verbatim>\<open>top\<close> gives, which is a largest one, and taking everything out after pushing a list
  ends with the list in descending order.
\<close>

theorem p_queue_sorts:
  "\<exists>q ys. loop_while (\<lambda>(q, out). \<not> pq_empty q) (\<lambda>(q, out). Some (pq_pop q, out @ [pq_top q])) (fold pq_push xs [], []) = Some (q, ys) \<and>
     mset ys = mset xs \<and> sorted_wrt (\<ge>) ys"
  by (rule pq.queue_sort)

text \<open>\<^verbatim>\<open>change_top\<close> replaces the top and keeps the order if the number of values is odd, so that every node has no or two children.\<close>

lemma p_queue_change_top:
  assumes "heap_ordered 2 c" and "odd (length c)"
  shows "heap_ordered 2 (pq_change_top val c) \<and> mset (pq_change_top val c) = add_mset val (mset c - {#pq_top c#})"
proof -
  have "c \<noteq> []" using assms(2) by auto
  then have "hole_at c 0 c" using assms by (simp add: hole_at_def heap_hole_root)
  from change_loop_ok [OF this, of 2 val] assms(2) obtain h d where
    "pq_change_loop (length c) val 0 2 c = (h, d)" "hole_at c h d" "heap_ordered 2 (d[h := val])" by (auto split: prod.splits)
  then show ?thesis using \<open>c \<noteq> []\<close> by (simp add: pq_change_top_def hole_at_def mset_update pq_top_def)
qed

text \<open>
  \<^verbatim>\<open>change_top\<close> does not look at a node without a sibling: after it has given a heap of two values a smaller top, the top is not the largest value.
\<close>

theorem p_queue_change_top_single:
  "y < x \<Longrightarrow> heap_ordered 2 [x, y] \<and> pq_change_top z [x, y] = [z, y] \<and> (z < y \<longrightarrow> \<not> heap_ordered 2 (pq_change_top z [x, y]))"
  by (auto simp: pq_change_top_def pq_change_loop.simps heap_ordered_def parent_def less_Suc_eq)

theorem p_queue_change_top_single_witness: "pq_change_top (1 :: nat) [10, 9] = [1, 9] \<and> \<not> heap_ordered 2 (pq_change_top (1 :: nat) [10, 9])"
  using p_queue_change_top_single [of "9 :: nat" 10 1] by auto

end
