(* ===== verification/P_Heap.thy ===== *)
theory P_Heap
  imports Max_Queue
begin

text \<open>
  \<^verbatim>\<open>boost::pairing_heap\<close> of \<^verbatim>\<open>src/src/old-boost/heaps/p_heap.{hpp,cc}\<close> on a store of nodes: a node has a pointer to its next sibling, one to its first child, and the address of
  the pointer that leads to it, through which it unlinks itself. The heap of pointers is related to trees of addresses; every operation returns and
  keeps that relation, the order of the trees and the set of allocated nodes.
\<close>

section \<open>Model\<close>

text \<open>The address of a pointer: the heap's \<^verbatim>\<open>m_root\<close>, or a field of a node.\<close>

datatype loc = Root | Next addr | Children addr

text \<open>\<open>alloc\<close> are the nodes allocated and not deleted.\<close>

record 'a p_heap =
  m_prev :: "addr \<Rightarrow> loc option"
  m_next :: "addr \<Rightarrow> addr option"
  m_children :: "addr \<Rightarrow> addr option"
  m_data :: "addr \<Rightarrow> 'a"
  m_root :: "addr option"
  m_size :: nat
  alloc :: "addr list"

fun fetch :: "'a p_heap \<Rightarrow> loc \<Rightarrow> addr option" where
  "fetch s Root = m_root s"
| "fetch s (Next n) = m_next s n"
| "fetch s (Children n) = m_children s n"

fun store :: "loc \<Rightarrow> addr option \<Rightarrow> 'a p_heap \<Rightarrow> 'a p_heap" where
  "store Root p s = s\<lparr>m_root := p\<rparr>"
| "store (Next n) p s = s\<lparr>m_next := (m_next s)(n := p)\<rparr>"
| "store (Children n) p s = s\<lparr>m_children := (m_children s)(n := p)\<rparr>"

definition node_insert :: "loc \<Rightarrow> addr \<Rightarrow> 'a p_heap \<Rightarrow> 'a p_heap" where
  "node_insert l n s =
     (let s = s\<lparr>m_next := (m_next s)(n := fetch s l)\<rparr>;
          s = (case m_next s n of None \<Rightarrow> s | Some k \<Rightarrow> s\<lparr>m_prev := (m_prev s)(k := Some (Next n))\<rparr>);
          s = s\<lparr>m_prev := (m_prev s)(n := Some l)\<rparr>
      in store l (Some n) s)"

definition node_set_root :: "loc \<Rightarrow> addr \<Rightarrow> 'a p_heap \<Rightarrow> 'a p_heap" where
  "node_set_root l n s = store l (Some n) (s\<lparr>m_next := (m_next s)(n := None), m_prev := (m_prev s)(n := Some l)\<rparr>)"

text \<open>The pointer \<^verbatim>\<open>m_prev\<close> leads to is written; for a node that is not linked it is 0 (\<^const>\<open>None\<close>).\<close>

definition node_remove :: "addr \<Rightarrow> 'a p_heap \<Rightarrow> 'a p_heap option" where
  "node_remove n s =
     (let s = (case m_next s n of None \<Rightarrow> s | Some k \<Rightarrow> s\<lparr>m_prev := (m_prev s)(k := m_prev s n)\<rparr>) in
      case m_prev s n of
        None \<Rightarrow> None
      | Some l \<Rightarrow> let s = store l (m_next s n) s in Some (s\<lparr>m_prev := (m_prev s)(n := None)\<rparr>))"

definition ph_link :: "addr \<Rightarrow> addr \<Rightarrow> 'a::linorder p_heap \<Rightarrow> addr \<times> 'a p_heap" where
  "ph_link n1 n2 s =
     (if m_data s n2 < m_data s n1
      then (n1, node_insert (Children n1) n2 s)
      else (n2, node_insert (Children n2) n1 s))"

partial_function (option) recursive_link :: "addr \<Rightarrow> addr \<Rightarrow> addr option \<Rightarrow> 'a::linorder p_heap \<Rightarrow> (addr \<times> 'a p_heap) option" where
  "recursive_link n1 n2 c s =
     do {
       s \<leftarrow> node_remove n1 s;
       s \<leftarrow> node_remove n2 s;
       let (n1, s) = ph_link n1 n2 s;
       case c of
         None \<Rightarrow> Some (n1, s)
       | Some c \<Rightarrow>
           do {
             (c, s) \<leftarrow> (case m_next s c of
               Some k \<Rightarrow> recursive_link c k (m_next s k) s
             | None \<Rightarrow> do { s \<leftarrow> node_remove c s; Some (c, s) });
             Some (ph_link n1 c s)
           }
     }"

definition ph_unlink :: "addr \<Rightarrow> 'a::linorder p_heap \<Rightarrow> 'a p_heap option" where
  "ph_unlink n s =
     do {
       s \<leftarrow> node_remove n s;
       case m_children s n of
         None \<Rightarrow> Some s
       | Some c \<Rightarrow>
           do {
             (c, s) \<leftarrow> (case m_next s c of
               Some k \<Rightarrow> recursive_link c k (m_next s k) s
             | None \<Rightarrow> do { s \<leftarrow> node_remove c s; Some (c, s) });
             let (r, s) = (case m_root s of None \<Rightarrow> (c, s) | Some r \<Rightarrow> ph_link r c s);
             Some (node_set_root Root r s)
           }
     }"

definition ph_new :: "'a p_heap" where
  "ph_new = \<lparr>m_prev = (\<lambda>_. None), m_next = (\<lambda>_. None), m_children = (\<lambda>_. None), m_data = (\<lambda>_. undefined),
     m_root = None, m_size = 0, alloc = []\<rparr>"

text \<open>\<^verbatim>\<open>push\<close>: \<open>rc\<close> is the address of the new node; its constructor leaves \<^verbatim>\<open>m_next\<close> as it is.\<close>

definition ph_push :: "addr \<Rightarrow> 'a::linorder \<Rightarrow> 'a p_heap \<Rightarrow> 'a p_heap" where
  "ph_push rc d s =
     (let s = s\<lparr>alloc := rc # alloc s, m_prev := (m_prev s)(rc := None), m_children := (m_children s)(rc := None), m_data := (m_data s)(rc := d)\<rparr>;
          first = (m_size s = 0);
          s = s\<lparr>m_size := m_size s + 1\<rparr>;
          (r, s) = (if first then (rc, s) else ph_link rc (the (m_root s)) s)
      in node_set_root Root r s)"

definition ph_top :: "'a p_heap \<Rightarrow> 'a" where
  "ph_top s = m_data s (the (m_root s))"

definition ph_empty :: "'a p_heap \<Rightarrow> bool" where
  "ph_empty s = (m_size s = 0)"

definition ph_remove :: "addr \<Rightarrow> 'a::linorder p_heap \<Rightarrow> 'a p_heap option" where
  "ph_remove n s =
     do {
       s \<leftarrow> ph_unlink n s;
       let s = s\<lparr>m_size := m_size s - 1\<rparr>;
       Some (s\<lparr>alloc := remove1 n (alloc s)\<rparr>)
     }"

definition ph_pop :: "'a::linorder p_heap \<Rightarrow> 'a p_heap option" where
  "ph_pop s = ph_remove (the (m_root s)) s"

definition ph_change :: "addr \<Rightarrow> 'a::linorder \<Rightarrow> 'a p_heap \<Rightarrow> 'a p_heap option" where
  "ph_change n d s =
     do {
       s \<leftarrow> ph_unlink n s;
       let s = s\<lparr>m_data := (m_data s)(n := d)\<rparr>;
       let (r, s) = (case m_root s of None \<Rightarrow> (n, s) | Some r \<Rightarrow> ph_link n r s);
       Some (node_set_root Root r s)
     }"

definition ph_change_top :: "'a::linorder \<Rightarrow> 'a p_heap \<Rightarrow> 'a p_heap option" where
  "ph_change_top d s = ph_change (the (m_root s)) d s"

definition ph_decrease :: "addr \<Rightarrow> 'a::linorder \<Rightarrow> 'a p_heap \<Rightarrow> 'a p_heap option" where
  "ph_decrease n d s = ph_change n d s"

definition ph_increase :: "addr \<Rightarrow> 'a::linorder \<Rightarrow> 'a p_heap \<Rightarrow> 'a p_heap option" where
  "ph_increase n d s = ph_change n d s"

text \<open>
  The iterator holds a queue of nodes; \<^verbatim>\<open>operator++\<close> replaces the first one by its children. The destructor deletes the nodes it comes to, after stepping behind
  each; \<open>None\<close> also stands for reading a deleted node.
\<close>

definition push_siblings :: "addr option \<Rightarrow> addr list \<Rightarrow> 'a p_heap \<Rightarrow> addr list option" where
  "push_siblings tmp q s =
     map_option snd (loop_while (\<lambda>(tmp, q). tmp \<noteq> None)
       (\<lambda>(tmp, q). case tmp of None \<Rightarrow> None | Some k \<Rightarrow> if k \<in> set (alloc s) then Some (m_next s k, q @ [k]) else None) (tmp, q))"

definition iterator_next :: "addr list \<Rightarrow> 'a p_heap \<Rightarrow> addr list option" where
  "iterator_next q s =
     (if hd q \<in> set (alloc s) then push_siblings (m_children s (hd q)) (tl q) s else None)"

definition ph_begin :: "'a p_heap \<Rightarrow> addr list" where
  "ph_begin s = (case m_root s of None \<Rightarrow> [] | Some r \<Rightarrow> [r])"

definition ph_dtor :: "'a p_heap \<Rightarrow> 'a p_heap option" where
  "ph_dtor s =
     map_option snd (loop_while (\<lambda>(q, s). q \<noteq> [])
       (\<lambda>(q, s). do { q' \<leftarrow> iterator_next q s; Some (q', s\<lparr>alloc := remove1 (hd q) (alloc s)\<rparr>) }) (ph_begin s, s))"

section \<open>Trees\<close>

text \<open>
  A tree of node addresses. \<open>sibs s l hs\<close>: the list that starts at the pointer \<open>l\<close> consists of the trees \<open>hs\<close>, each node knowing the pointer that leads to it.
  \<open>loose s t\<close>: the part of that for a root that is not in a list.
\<close>

datatype tree = Hp (root: addr) (kids: "tree list")

fun tnodes :: "tree \<Rightarrow> addr set" and fnodes :: "tree list \<Rightarrow> addr set" where
  "tnodes (Hp n ts) = insert n (fnodes ts)"
| "fnodes [] = {}"
| "fnodes (t # ts) = tnodes t \<union> fnodes ts"

text \<open>No address twice.\<close>

fun tdist :: "tree \<Rightarrow> bool" and fdist :: "tree list \<Rightarrow> bool" where
  "tdist (Hp n ts) = (n \<notin> fnodes ts \<and> fdist ts)"
| "fdist [] = True"
| "fdist (t # ts) = (tdist t \<and> fdist ts \<and> tnodes t \<inter> fnodes ts = {})"

fun sibs :: "'a p_heap \<Rightarrow> loc \<Rightarrow> tree list \<Rightarrow> bool" where
  "sibs s l [] = (fetch s l = None)"
| "sibs s l (Hp n cs # hs) = (fetch s l = Some n \<and> m_prev s n = Some l \<and> sibs s (Children n) cs \<and> sibs s (Next n) hs)"

definition loose :: "'a p_heap \<Rightarrow> tree \<Rightarrow> bool" where
  "loose s t = sibs s (Children (root t)) (kids t)"

definition locs :: "addr set \<Rightarrow> loc set" where
  "locs A = Next ` A \<union> Children ` A"

text \<open>From \<open>s\<close> to \<open>s'\<close> only \<^verbatim>\<open>m_prev\<close> of the nodes in \<open>A\<close> and the pointers \<open>L\<close> are changed, and no data.\<close>

definition within :: "addr set \<Rightarrow> loc set \<Rightarrow> 'a p_heap \<Rightarrow> 'a p_heap \<Rightarrow> bool" where
  "within A L s s' =
     ((\<forall>n. n \<notin> A \<longrightarrow> m_prev s' n = m_prev s n) \<and> (\<forall>l. l \<notin> L \<longrightarrow> fetch s' l = fetch s l) \<and>
      m_data s' = m_data s \<and> m_size s' = m_size s \<and> alloc s' = alloc s)"

lemma root_tnodes [simp]: "root t \<in> tnodes t"
  by (cases t) simp

lemma locs_simps [simp]: "Next n \<in> locs A \<longleftrightarrow> n \<in> A" "Children n \<in> locs A \<longleftrightarrow> n \<in> A" "Root \<notin> locs A" "locs {} = {}"
  by (auto simp: locs_def)

lemma locs_mono: "A \<subseteq> B \<Longrightarrow> locs A \<subseteq> locs B"
  by (auto simp: locs_def)

lemma locs_disjoint: "locs A \<inter> locs B = {} \<longleftrightarrow> A \<inter> B = {}"
  by (auto simp: locs_def)

lemma within_refl: "within A L s s"
  by (simp add: within_def)

lemma within_prev: "within A L s s' \<Longrightarrow> n \<notin> A \<Longrightarrow> m_prev s' n = m_prev s n"
  by (simp add: within_def)

lemma within_fetch: "within A L s s' \<Longrightarrow> l \<notin> L \<Longrightarrow> fetch s' l = fetch s l"
  by (simp add: within_def)

lemma within_rest: "within A L s s' \<Longrightarrow> m_data s' = m_data s \<and> m_size s' = m_size s \<and> alloc s' = alloc s"
  by (simp add: within_def)

lemma within_mono: "within A L s s' \<Longrightarrow> A \<subseteq> B \<Longrightarrow> L \<subseteq> M \<Longrightarrow> within B M s s'"
  unfolding within_def by blast

lemma within_trans: "within A L s s' \<Longrightarrow> within A L s' s'' \<Longrightarrow> within A L s s''"
  unfolding within_def by simp

text \<open>What a tree is made of is not changed by what happens elsewhere.\<close>

lemma sibs_frame:
  assumes "within A L s s'" and "sibs s l hs" and "fnodes hs \<inter> A = {}" and "l \<notin> L" and "locs (fnodes hs) \<inter> L = {}"
  shows "sibs s' l hs"
  using assms
proof (induction s l hs rule: sibs.induct)
  case (1 s l)
  then show ?case using within_fetch by fastforce
next
  case (2 s l n cs hs)
  have n: "n \<notin> A" "Next n \<notin> L" "Children n \<notin> L" using 2 by (auto simp: locs_def)
  have "locs (fnodes cs) \<inter> L = {}" "locs (fnodes hs) \<inter> L = {}" "fnodes cs \<inter> A = {}" "fnodes hs \<inter> A = {}"
    using "2.prems"(3,5) by (auto simp: locs_def image_Un)
  then have "sibs s' (Children n) cs" "sibs s' (Next n) hs" using "2.IH" "2.prems" n by auto
  then show ?case using 2 n within_fetch [OF "2.prems"(1), of l] within_prev [OF "2.prems"(1), of n] by simp
qed

lemma loose_frame:
  assumes "within A L s s'" and "loose s t" and "tnodes t \<inter> A = {}" and "locs (tnodes t) \<inter> L = {}"
  shows "loose s' t"
proof (cases t)
  case (Hp n cs)
  have "sibs s' (Children n) cs"
    by (rule sibs_frame [OF assms(1)]) (use assms(2-) in \<open>auto simp: Hp loose_def locs_def\<close>)
  then show ?thesis by (simp add: Hp loose_def)
qed

lemma sibs_links: "sibs s l hs \<Longrightarrow> m_prev s' = m_prev s \<Longrightarrow> (\<And>k. fetch s' k = fetch s k) \<Longrightarrow> sibs s' l hs"
  by (induction s l hs rule: sibs.induct) auto

lemma fnodes_empty: "fnodes hs = {} \<longleftrightarrow> hs = []"
  by (cases hs) (auto intro: root_tnodes)

text \<open>The first node of a list.\<close>

lemma sibs_first: "sibs s l hs \<Longrightarrow> fetch s l = (case hs of [] \<Rightarrow> None | h # _ \<Rightarrow> Some (root h))"
  by (cases hs; cases "hd hs") auto

lemma sibs_Cons: "sibs s l (t # hs) \<longleftrightarrow> fetch s l = Some (root t) \<and> m_prev s (root t) = Some l \<and> loose s t \<and> sibs s (Next (root t)) hs"
  by (cases t) (simp add: loose_def)

lemma sibs_tl_next: "sibs s l (t # hs) \<Longrightarrow> m_next s (root t) = (case hs of [] \<Rightarrow> None | h # _ \<Rightarrow> Some (root h))"
  using sibs_first [of s "Next (root t)" hs] by (simp add: sibs_Cons)

section \<open>Linking\<close>

lemma fetch_store [simp]: "fetch (store l p s) k = (if k = l then p else fetch s k)"
  by (cases l; cases k) auto

lemma store_simps [simp]:
  "m_prev (store l p s) = m_prev s" "m_data (store l p s) = m_data s" "m_size (store l p s) = m_size s" "alloc (store l p s) = alloc s"
  by (cases l; simp)+

lemma fetch_prev [simp]: "fetch (s\<lparr>m_prev := f\<rparr>) k = fetch s k"
  by (cases k) auto

lemma fetch_next [simp]: "fetch (s\<lparr>m_next := f\<rparr>) k = (case k of Next n \<Rightarrow> f n | _ \<Rightarrow> fetch s k)"
  by (cases k) auto

lemma insert_child:
  assumes p: "loose s (Hp p cs)" and n: "loose s (Hp n ks)" and d: "tdist (Hp p cs)" "tdist (Hp n ks)" "tnodes (Hp p cs) \<inter> tnodes (Hp n ks) = {}"
  shows "loose (node_insert (Children p) n s) (Hp p (Hp n ks # cs)) \<and>
    within (tnodes (Hp p cs) \<union> tnodes (Hp n ks)) (locs (tnodes (Hp p cs) \<union> tnodes (Hp n ks))) s (node_insert (Children p) n s)"
proof -
  let ?s = "node_insert (Children p) n s"
  have cs: "sibs s (Children p) cs" and ks: "sibs s (Children n) ks" using p n by (simp_all add: loose_def)
  have first: "m_children s p = (case cs of [] \<Rightarrow> None | h # _ \<Rightarrow> Some (root h))" using sibs_first [OF cs] by simp
  have fetch: "fetch ?s l = (if l = Children p then Some n else if l = Next n then m_children s p else fetch s l)" for l
    by (cases l) (auto simp: node_insert_def Let_def split: option.splits)
  have prev: "m_prev ?s k = (if k = n then Some (Children p) else if m_children s p = Some k then Some (Next n) else m_prev s k)" for k
    by (auto simp: node_insert_def Let_def split: option.splits)
  have rest: "m_data ?s = m_data s \<and> m_size ?s = m_size s \<and> alloc ?s = alloc s"
    by (simp add: node_insert_def Let_def split: option.splits)
  define A where "A = insert n (case cs of [] \<Rightarrow> {} | h # _ \<Rightarrow> {root h})"
  have w: "within A {Children p, Next n} s ?s"
    unfolding within_def using rest by (auto simp: fetch prev first A_def split: list.splits if_splits)
  have "root h \<in> fnodes cs" if "cs = h # hs" for h hs using that by simp
  then have A: "A \<subseteq> insert n (fnodes cs)" by (auto simp: A_def split: list.splits)
  have "sibs ?s (Children n) ks"
    by (rule sibs_frame [OF w ks]) (use d A in \<open>auto simp: locs_def\<close>)
  moreover have "sibs ?s (Next n) cs"
  proof (cases cs)
    case (Cons h hs)
    obtain r rs where hr: "h = Hp r rs" by (cases h)
    have A: "A = {n, r}" by (simp add: A_def Cons hr)
    have h: "sibs s (Children r) rs" "sibs s (Next r) hs" using cs by (simp_all add: Cons hr)
    have "sibs ?s (Children r) rs" by (rule sibs_frame [OF w h(1)]) (use d in \<open>auto simp: A Cons hr locs_def\<close>)
    moreover have "sibs ?s (Next r) hs" by (rule sibs_frame [OF w h(2)]) (use d in \<open>auto simp: A Cons hr locs_def\<close>)
    moreover have "m_next ?s n = Some r" "m_prev ?s r = Some (Next n)"
      using fetch [of "Next n"] prev [of r] d by (simp_all add: first Cons hr)
    ultimately show ?thesis by (simp add: Cons hr)
  qed (use first fetch [of "Next n"] in simp)
  moreover have "m_children ?s p = Some n" "m_prev ?s n = Some (Children p)"
    using fetch [of "Children p"] prev [of n] by simp_all
  ultimately have "loose ?s (Hp p (Hp n ks # cs))" by (simp add: loose_def)
  moreover have "within (tnodes (Hp p cs) \<union> tnodes (Hp n ks)) (locs (tnodes (Hp p cs) \<union> tnodes (Hp n ks))) s ?s"
    by (rule within_mono [OF w]) (use A in auto)
  ultimately show ?thesis by blast
qed

text \<open>The tree that linking two trees gives; its root is the larger one.\<close>

definition linked :: "(addr \<Rightarrow> 'a::linorder) \<Rightarrow> tree \<Rightarrow> tree \<Rightarrow> tree" where
  "linked f t1 t2 = (if f (root t2) < f (root t1) then Hp (root t1) (t2 # kids t1) else Hp (root t2) (t1 # kids t2))"

text \<open>No node has data that compares larger than that of a node above it.\<close>

fun tord :: "(addr \<Rightarrow> 'a::linorder) \<Rightarrow> tree \<Rightarrow> bool" and ford :: "(addr \<Rightarrow> 'a::linorder) \<Rightarrow> tree list \<Rightarrow> bool" where
  "tord f (Hp n ts) = ((\<forall>m \<in> fnodes ts. f m \<le> f n) \<and> ford f ts)"
| "ford f [] = True"
| "ford f (t # ts) = (tord f t \<and> ford f ts)"

lemma tord_root: "tord f t \<Longrightarrow> m \<in> tnodes t \<Longrightarrow> f m \<le> f (root t)"
  by (cases t) auto

lemma ford_cong:
  "(\<And>m. m \<in> tnodes t \<Longrightarrow> f m = g m) \<Longrightarrow> tord f t = tord g t"
  "(\<And>m. m \<in> fnodes hs \<Longrightarrow> f m = g m) \<Longrightarrow> ford f hs = ford g hs"
  by (induction t and hs rule: tnodes_fnodes.induct) auto

lemma ford_upd: "n \<notin> fnodes hs \<Longrightarrow> ford (f(n := d)) hs = ford f hs"
  by (rule ford_cong(2)) auto

lemma linked_nodes [simp]: "tnodes (linked f t1 t2) = tnodes t1 \<union> tnodes t2"
  by (cases t1; cases t2) (auto simp: linked_def)

lemma linked_dist: "tdist t1 \<Longrightarrow> tdist t2 \<Longrightarrow> tnodes t1 \<inter> tnodes t2 = {} \<Longrightarrow> tdist (linked f t1 t2)"
  by (cases t1; cases t2) (auto simp: linked_def)

lemma linked_ord:
  assumes "tord f t1" and "tord f t2"
  shows "tord f (linked f t1 t2)"
proof -
  obtain n1 k1 n2 k2 where t: "t1 = Hp n1 k1" "t2 = Hp n2 k2" by (metis tree.exhaust)
  have "\<forall>m \<in> tnodes t1. f m \<le> f n1" "\<forall>m \<in> tnodes t2. f m \<le> f n2" using assms tord_root by (auto simp: t)
  then show ?thesis using assms by (auto simp: linked_def t intro: order_trans)
qed

lemma link_trees:
  assumes "loose s t1" and "loose s t2" and "tdist t1" and "tdist t2" and "tnodes t1 \<inter> tnodes t2 = {}"
  shows "\<exists>s'. ph_link (root t1) (root t2) s = (root (linked (m_data s) t1 t2), s') \<and> loose s' (linked (m_data s) t1 t2) \<and>
    within (tnodes t1 \<union> tnodes t2) (locs (tnodes t1 \<union> tnodes t2)) s s'"
proof -
  obtain n1 k1 n2 k2 where t: "t1 = Hp n1 k1" "t2 = Hp n2 k2" by (metis tree.exhaust)
  have "tnodes t2 \<inter> tnodes t1 = {}" using assms(5) by blast
  then show ?thesis
    using assms insert_child [of s n1 k1 n2 k2] insert_child [of s n2 k2 n1 k1]
    by (auto simp: ph_link_def linked_def t Un_commute)
qed

section \<open>Unlinking\<close>

text \<open>The first tree of a list is taken out.\<close>

lemma remove_first:
  assumes sb: "sibs s l (t # hs)" and d: "fdist (t # hs)" and l: "l \<notin> locs (fnodes (t # hs))"
  shows "\<exists>s'. node_remove (root t) s = Some s' \<and> sibs s' l hs \<and> loose s' t \<and> within (fnodes (t # hs)) (insert l (locs (fnodes (t # hs)))) s s'"
proof -
  obtain n cs where t: "t = Hp n cs" by (cases t)
  have h: "m_prev s n = Some l" "sibs s (Children n) cs" "sibs s (Next n) hs" using sb by (simp_all add: t)
  have nxt: "m_next s n = (case hs of [] \<Rightarrow> None | h # _ \<Rightarrow> Some (root h))" using sibs_first [OF h(3)] by simp
  define s' where "s' = the (node_remove n s)"
  have fresh: "m_next s n \<noteq> Some n" using d nxt root_tnodes by (auto simp: t split: list.splits)
  have rm: "node_remove n s = Some s'"
    using h(1) fresh by (auto simp: s'_def node_remove_def Let_def split: option.splits)
  have fetch: "fetch s' k = (if k = l then m_next s n else fetch s k)" for k
    using h(1) fresh by (auto simp: s'_def node_remove_def Let_def split: option.splits)
  have prev: "m_prev s' k = (if k = n then None else if m_next s n = Some k then Some l else m_prev s k)" for k
    using h(1) fresh by (auto simp: s'_def node_remove_def Let_def split: option.splits)
  have rest: "m_data s' = m_data s \<and> m_size s' = m_size s \<and> alloc s' = alloc s"
    using h(1) fresh by (auto simp: s'_def node_remove_def Let_def split: option.splits)
  define A where "A = insert n (case hs of [] \<Rightarrow> {} | h # _ \<Rightarrow> {root h})"
  have w: "within A {l} s s'"
    unfolding within_def using rest by (auto simp: fetch prev nxt A_def split: list.splits if_splits)
  have A: "A \<subseteq> insert n (fnodes hs)" by (auto simp: A_def split: list.splits)
  have "sibs s' (Children n) cs"
    by (rule sibs_frame [OF w h(2)]) (use d l A in \<open>auto simp: t locs_def\<close>)
  then have "loose s' t" by (simp add: t loose_def)
  moreover have "sibs s' l hs"
  proof (cases hs)
    case (Cons h ts)
    obtain r rs where hr: "h = Hp r rs" by (cases h)
    have A: "A = {n, r}" by (simp add: A_def Cons hr)
    have k: "sibs s (Children r) rs" "sibs s (Next r) ts" using h by (simp_all add: Cons hr)
    have "sibs s' (Children r) rs" by (rule sibs_frame [OF w k(1)]) (use d l in \<open>auto simp: A Cons hr t locs_def\<close>)
    moreover have "sibs s' (Next r) ts" by (rule sibs_frame [OF w k(2)]) (use d l in \<open>auto simp: A Cons hr t locs_def\<close>)
    ultimately show ?thesis using fetch [of l] prev [of r] d by (auto simp: nxt Cons hr t)
  qed (use nxt fetch [of l] in simp)
  moreover have "within (fnodes (t # hs)) (insert l (locs (fnodes (t # hs)))) s s'"
    by (rule within_mono [OF w]) (use A in \<open>auto simp: t\<close>)
  ultimately show ?thesis using rm by (auto simp: t)
qed

text \<open>Pairing up: neighbours are linked two by two, then the results from the last to the first.\<close>

fun paired :: "(addr \<Rightarrow> 'a::linorder) \<Rightarrow> tree list \<Rightarrow> tree" where
  "paired f (t1 # t2 # t3 # ts) = linked f (linked f t1 t2) (paired f (t3 # ts))"
| "paired f [t1, t2] = linked f t1 t2"
| "paired f [t] = t"
| "paired f [] = undefined"

lemma paired_tree:
  "ts \<noteq> [] \<Longrightarrow> tnodes (paired f ts) = fnodes ts"
  "ts \<noteq> [] \<Longrightarrow> fdist ts \<Longrightarrow> tdist (paired f ts)"
  "ts \<noteq> [] \<Longrightarrow> ford f ts \<Longrightarrow> tord f (paired f ts)"
proof (induction f ts rule: paired.induct)
  case (1 f t1 t2 t3 ts)
  { case 1 show ?case using "1.IH"(1) by auto }
  { case 2
    have "tdist (linked f t1 t2)" by (rule linked_dist) (use 2 in auto)
    moreover have "tdist (paired f (t3 # ts))" by (rule "1.IH"(2)) (use 2 in auto)
    ultimately show ?case using "1.IH"(1) 2 by (auto intro!: linked_dist) }
  { case 3 then show ?case using "1.IH"(3) by (auto intro!: linked_ord) }
qed (auto intro: linked_dist linked_ord)

definition gather :: "addr \<Rightarrow> 'a::linorder p_heap \<Rightarrow> (addr \<times> 'a p_heap) option" where
  "gather c s = (case m_next s c of
     Some k \<Rightarrow> recursive_link c k (m_next s k) s
   | None \<Rightarrow> do { s \<leftarrow> node_remove c s; Some (c, s) })"

lemma recursive_link_gather:
  "recursive_link n1 n2 c s = do {
     s \<leftarrow> node_remove n1 s;
     s \<leftarrow> node_remove n2 s;
     let (n1, s) = ph_link n1 n2 s;
     case c of None \<Rightarrow> Some (n1, s) | Some c \<Rightarrow> do { (c, s) \<leftarrow> gather c s; Some (ph_link n1 c s) }
   }"
  by (subst recursive_link.simps) (simp only: gather_def)

text \<open>Two trees at the front of a list are taken out and linked.\<close>

lemma link_front:
  assumes sb: "sibs s l (t1 # t2 # vs)" and d: "fdist (t1 # t2 # vs)" and l: "l \<notin> locs (fnodes (t1 # t2 # vs))"
  shows "\<exists>s1 s2 s3. node_remove (root t1) s = Some s1 \<and> node_remove (root t2) s1 = Some s2 \<and>
    ph_link (root t1) (root t2) s2 = (root (linked (m_data s) t1 t2), s3) \<and> loose s3 (linked (m_data s) t1 t2) \<and> sibs s3 l vs \<and>
    within (fnodes (t1 # t2 # vs)) (insert l (locs (fnodes (t1 # t2 # vs)))) s s3"
proof -
  let ?ts = "t1 # t2 # vs" and ?f = "m_data s"
  let ?W = "within (fnodes ?ts) (insert l (locs (fnodes ?ts)))"
  obtain s1 where s1: "node_remove (root t1) s = Some s1" "sibs s1 l (t2 # vs)" "loose s1 t1" "?W s s1"
    using remove_first [OF sb d l] by blast
  have l1: "l \<notin> locs (fnodes (t2 # vs))" using l by (auto simp: locs_def)
  obtain s2 where s2: "node_remove (root t2) s1 = Some s2" "sibs s2 l vs" "loose s2 t2"
    "within (fnodes (t2 # vs)) (insert l (locs (fnodes (t2 # vs)))) s1 s2"
    using remove_first [of s1 l t2 vs] s1(2) d l1 by auto
  have t1: "loose s2 t1" by (rule loose_frame [OF s2(4) s1(3)]) (use d l in \<open>auto simp: locs_def\<close>)
  have f2: "m_data s2 = ?f" using within_rest [OF s1(4)] within_rest [OF s2(4)] by simp
  obtain s3 where s3: "ph_link (root t1) (root t2) s2 = (root (linked ?f t1 t2), s3)" "loose s3 (linked ?f t1 t2)"
    "within (tnodes t1 \<union> tnodes t2) (locs (tnodes t1 \<union> tnodes t2)) s2 s3"
    using link_trees [OF t1 s2(3)] d f2 by auto
  have "sibs s3 l vs" by (rule sibs_frame [OF s3(3) s2(2)]) (use d l in \<open>auto simp: locs_def\<close>)
  moreover have "?W s1 s2" by (rule within_mono [OF s2(4)]) (auto simp: locs_def)
  moreover have "?W s2 s3" by (rule within_mono [OF s3(3)]) (auto simp: locs_def)
  ultimately show ?thesis using s1 s2 s3 within_trans by blast
qed

lemma gather_list:
  assumes "sibs s l ts" and "ts \<noteq> []" and "fdist ts" and "l \<notin> locs (fnodes ts)"
  shows "\<exists>s'. gather (root (hd ts)) s = Some (root (paired (m_data s) ts), s') \<and> fetch s' l = None \<and> loose s' (paired (m_data s) ts) \<and>
    within (fnodes ts) (insert l (locs (fnodes ts))) s s'"
  using assms
proof (induction "length ts" arbitrary: s ts rule: less_induct)
  case less
  consider "ts = []" | t where "ts = [t]" | t1 t2 vs where "ts = t1 # t2 # vs" by (metis list.exhaust)
  then show ?case
  proof cases
    case 1
    then show ?thesis using less.prems by simp
  next
    case 2
    then show ?thesis using remove_first [of s l t "[]"] less.prems sibs_tl_next [of s l t "[]"] by (auto simp: gather_def)
  next
    case ts: 3
    let ?N = "fnodes ts" and ?f = "m_data s" and ?W = "within (fnodes ts) (insert l (locs (fnodes ts)))" and ?t = "linked (m_data s) t1 t2"
    have nx: "m_next s (root t1) = Some (root t2)" "m_next s (root t2) = (case vs of [] \<Rightarrow> None | h # _ \<Rightarrow> Some (root h))"
      using sibs_tl_next [of s l t1 "t2 # vs"] sibs_tl_next [of s "Next (root t1)" t2 vs] less.prems(1) by (simp_all add: ts sibs_Cons)
    obtain s1 s2 s3 where s3: "node_remove (root t1) s = Some s1" "node_remove (root t2) s1 = Some s2"
      "ph_link (root t1) (root t2) s2 = (root ?t, s3)" "loose s3 ?t" "sibs s3 l vs" "?W s s3"
      using link_front [of s l t1 t2 vs] less.prems unfolding ts by blast
    have g: "gather (root (hd ts)) s = (case m_next s (root t2) of None \<Rightarrow> Some (root ?t, s3)
        | Some c \<Rightarrow> do { (c, s) \<leftarrow> gather c s3; Some (ph_link (root ?t) c s) })"
      by (simp add: gather_def nx(1) ts recursive_link_gather s3(1-3))
    show ?thesis
    proof (cases vs)
      case Nil
      then show ?thesis using g nx(2) s3(4-6) by (auto simp: ts)
    next
      case c: (Cons t3 ws)
      have l3: "l \<notin> locs (fnodes vs)" using less.prems(4) by (auto simp: ts locs_def)
      obtain s4 where s4: "gather (root t3) s3 = Some (root (paired ?f vs), s4)" "fetch s4 l = None" "loose s4 (paired ?f vs)"
        "within (fnodes vs) (insert l (locs (fnodes vs))) s3 s4"
        using less.hyps [OF _ s3(5) _ _ l3] less.prems(3) within_rest [OF s3(6)] by (auto simp: ts c)
      have W4: "?W s3 s4" by (rule within_mono [OF s4(4)]) (auto simp: ts locs_def)
      have p: "tnodes (paired ?f vs) = fnodes vs" "tdist (paired ?f vs)" using paired_tree [of vs] less.prems(3) by (auto simp: c ts)
      have a: "loose s4 ?t" by (rule loose_frame [OF s4(4) s3(4)]) (use less.prems in \<open>auto simp: ts locs_def\<close>)
      have b: "tdist ?t" by (rule linked_dist) (use less.prems(3) in \<open>auto simp: ts\<close>)
      have i: "tnodes ?t \<inter> tnodes (paired ?f vs) = {}" using less.prems(3) p(1) by (auto simp: ts)
      obtain s5 where s5: "ph_link (root ?t) (root (paired ?f vs)) s4 = (root (linked ?f ?t (paired ?f vs)), s5)"
        "loose s5 (linked ?f ?t (paired ?f vs))" "within ?N (locs ?N) s4 s5"
        using link_trees [OF a s4(3) b p(2) i] within_rest [OF s3(6)] within_rest [OF W4] p(1) by (auto simp: ts Un_assoc)
      have "?W s4 s5" by (rule within_mono [OF s5(3)]) auto
      then have "?W s s5" using within_trans s3(6) W4 by blast
      moreover have "fetch s5 l = None" using within_fetch [OF s5(3) less.prems(4)] s4(2) by simp
      ultimately show ?thesis using g nx(2) s4(1) s5 by (auto simp: ts c)
    qed
  qed
qed

text \<open>A node anywhere in a forest, with what is below it: the forest without it, and its tree.\<close>

fun prune :: "addr \<Rightarrow> tree list \<Rightarrow> tree list" where
  "prune n [] = []"
| "prune n (Hp m cs # hs) = (if n = m then hs else if n \<in> fnodes cs then Hp m (prune n cs) # hs else Hp m cs # prune n hs)"

fun subtree :: "addr \<Rightarrow> tree list \<Rightarrow> tree" where
  "subtree n [] = undefined"
| "subtree n (Hp m cs # hs) = (if n = m then Hp m cs else if n \<in> fnodes cs then subtree n cs else subtree n hs)"

lemma prune_length: "length (prune n hs) \<le> length hs"
  by (induction n hs rule: prune.induct) auto

lemma subtree_root: "n \<in> fnodes hs \<Longrightarrow> root (subtree n hs) = n"
  by (induction n hs rule: prune.induct) auto

lemma prune_nodes: "n \<in> fnodes hs \<Longrightarrow> fdist hs \<Longrightarrow> fnodes (prune n hs) \<union> tnodes (subtree n hs) = fnodes hs"
  by (induction n hs rule: prune.induct) auto

lemma prune_subset: "n \<in> fnodes hs \<Longrightarrow> fdist hs \<Longrightarrow> fnodes (prune n hs) \<subseteq> fnodes hs \<and> tnodes (subtree n hs) \<subseteq> fnodes hs"
  using prune_nodes by blast

lemma prune_disjoint: "n \<in> fnodes hs \<Longrightarrow> fdist hs \<Longrightarrow> fnodes (prune n hs) \<inter> tnodes (subtree n hs) = {}"
proof (induction n hs rule: prune.induct)
  case (2 n m cs hs)
  then show ?case using prune_subset [of n cs] prune_subset [of n hs] by auto blast+
qed simp

lemma prune_dist: "n \<in> fnodes hs \<Longrightarrow> fdist hs \<Longrightarrow> fdist (prune n hs) \<and> tdist (subtree n hs)"
proof (induction n hs rule: prune.induct)
  case (2 n m cs hs)
  then show ?case using prune_subset [of n cs] prune_subset [of n hs] by auto blast+
qed simp

lemma prune_ord: "n \<in> fnodes hs \<Longrightarrow> fdist hs \<Longrightarrow> ford f hs \<Longrightarrow> ford f (prune n hs) \<and> tord f (subtree n hs)"
proof (induction n hs rule: prune.induct)
  case (2 n m cs hs)
  then show ?case using prune_subset [of n cs] prune_subset [of n hs] by auto blast+
qed simp

lemma remove_node:
  assumes "sibs s l hs" and "fdist hs" and "n \<in> fnodes hs" and "l \<notin> locs (fnodes hs)"
  shows "\<exists>s'. node_remove n s = Some s' \<and> sibs s' l (prune n hs) \<and> loose s' (subtree n hs) \<and> within (fnodes hs) (insert l (locs (fnodes hs))) s s'"
  using assms
proof (induction s l hs rule: sibs.induct)
  case (1 s l)
  then show ?case by simp
next
  case (2 s l m cs hs)
  let ?W = "within (fnodes (Hp m cs # hs)) (insert l (locs (fnodes (Hp m cs # hs))))"
  have h: "fetch s l = Some m" "m_prev s m = Some l" "sibs s (Children m) cs" "sibs s (Next m) hs" using "2.prems"(1) by simp_all
  consider "n = m" | "n \<noteq> m" "n \<in> fnodes cs" | "n \<noteq> m" "n \<notin> fnodes cs" "n \<in> fnodes hs" using "2.prems"(3) by auto
  then show ?case
  proof cases
    case 1
    then show ?thesis using remove_first [OF "2.prems"(1,2,4)] by simp
  next
    case c: 2
    obtain s' where s': "node_remove n s = Some s'" "sibs s' (Children m) (prune n cs)" "loose s' (subtree n cs)"
      "within (fnodes cs) (insert (Children m) (locs (fnodes cs))) s s'"
      using "2.IH"(1) [OF h(3) _ c(2)] "2.prems"(2) by auto
    have "sibs s' (Next m) hs" by (rule sibs_frame [OF s'(4) h(4)]) (use "2.prems"(2) in \<open>auto simp: locs_def\<close>)
    moreover have "fetch s' l = Some m" using within_fetch [OF s'(4), of l] h(1) "2.prems"(4) by (auto simp: locs_def)
    moreover have "m_prev s' m = Some l" using within_prev [OF s'(4), of m] h(2) "2.prems"(2) by simp
    moreover have "?W s s'" by (rule within_mono [OF s'(4)]) (auto simp: locs_def)
    ultimately show ?thesis using s' c by simp
  next
    case c: 3
    obtain s' where s': "node_remove n s = Some s'" "sibs s' (Next m) (prune n hs)" "loose s' (subtree n hs)"
      "within (fnodes hs) (insert (Next m) (locs (fnodes hs))) s s'"
      using "2.IH"(2) [OF h(4) _ c(3)] "2.prems"(2) by auto
    have "sibs s' (Children m) cs" by (rule sibs_frame [OF s'(4) h(3)]) (use "2.prems"(2) in \<open>auto simp: locs_def\<close>)
    moreover have "fetch s' l = Some m" using within_fetch [OF s'(4), of l] h(1) "2.prems"(4) by (auto simp: locs_def)
    moreover have "m_prev s' m = Some l" using within_prev [OF s'(4), of m] h(2) "2.prems"(2) by simp
    moreover have "?W s s'" by (rule within_mono [OF s'(4)]) (auto simp: locs_def)
    ultimately show ?thesis using s' c by simp
  qed
qed

section \<open>The operations\<close>

definition ph_tree :: "'a::linorder p_heap \<Rightarrow> tree list \<Rightarrow> bool" where
  "ph_tree s hs = (sibs s Root hs \<and> length hs \<le> 1 \<and> fdist hs \<and> ford (m_data s) hs)"

text \<open>Only links differ; the pointer to the children of \<open>n\<close> is 0.\<close>

definition relinked :: "addr \<Rightarrow> 'a p_heap \<Rightarrow> 'a p_heap \<Rightarrow> bool" where
  "relinked n s s' = (m_children s' n = None \<and> m_data s' = m_data s \<and> m_size s' = m_size s \<and> alloc s' = alloc s)"

lemma set_root_tree:
  assumes "loose s t" and "tdist t" and "tord (m_data s) t"
  shows "ph_tree (node_set_root Root (root t) s) [t]"
proof -
  obtain n ks where t: "t = Hp n ks" by (cases t)
  let ?s = "node_set_root Root n s"
  have "fetch ?s l = fetch s l" if "l \<notin> {Root, Next n}" for l using that by (cases l) (auto simp: node_set_root_def)
  then have w: "within {n} {Root, Next n} s ?s" by (simp add: within_def node_set_root_def)
  have "sibs ?s (Children n) ks"
    by (rule sibs_frame [OF w]) (use assms(1,2) in \<open>auto simp: loose_def t locs_def\<close>)
  then show ?thesis using assms by (simp add: ph_tree_def t node_set_root_def)
qed

lemma set_root_rest [simp]:
  "m_data (node_set_root Root n s) = m_data s" "m_size (node_set_root Root n s) = m_size s" "alloc (node_set_root Root n s) = alloc s"
  "m_children (node_set_root Root n s) = m_children s"
  by (simp_all add: node_set_root_def)

lemma ph_tree_cases:
  assumes "ph_tree s hs"
  obtains "hs = []" "m_root s = None" | t where "hs = [t]" "m_root s = Some (root t)" "loose s t" "tdist t" "tord (m_data s) t"
  using assms by (cases hs) (auto simp: ph_tree_def sibs_Cons)

text \<open>A loose tree is linked with the one at the root, on either side, and the result is made the root.\<close>

lemma install:
  assumes "ph_tree s hs" and t: "loose s t" "tdist t" "tord (m_data s) t" and i: "tnodes t \<inter> fnodes hs = {}"
    and rs: "rs = (case m_root s of None \<Rightarrow> (root t, s) | Some r \<Rightarrow> ph_link r (root t) s) \<or>
      rs = (case m_root s of None \<Rightarrow> (root t, s) | Some r \<Rightarrow> ph_link (root t) r s)"
  shows "\<exists>hs'. ph_tree (node_set_root Root (fst rs) (snd rs)) hs' \<and> fnodes hs' = fnodes hs \<union> tnodes t \<and>
    m_data (snd rs) = m_data s \<and> m_size (snd rs) = m_size s \<and> alloc (snd rs) = alloc s \<and>
    (\<forall>n. n \<notin> fnodes hs \<union> tnodes t \<longrightarrow> m_children (snd rs) n = m_children s n)"
  using assms(1)
proof (cases rule: ph_tree_cases)
  case 1
  then show ?thesis using set_root_tree [OF t] rs by (intro exI [where x = "[t]"]) auto
next
  case (2 h)
  have hs: "fnodes hs = tnodes h" "tnodes h \<inter> tnodes t = {}" "tnodes t \<inter> tnodes h = {}" using i 2(1) by auto
  have goal: ?thesis if w: "within (tnodes h \<union> tnodes t) (locs (tnodes h \<union> tnodes t)) s (snd rs)"
    and l: "loose (snd rs) u" "tdist u" "tord (m_data s) u" "tnodes u = tnodes h \<union> tnodes t" and r: "fst rs = root u" for u
  proof -
    have "m_children (snd rs) n = m_children s n" if "n \<notin> tnodes h \<union> tnodes t" for n
      using within_fetch [OF w, of "Children n"] that by simp
    moreover have "ph_tree (node_set_root Root (fst rs) (snd rs)) [u]"
      using set_root_tree [OF l(1,2)] l(3) r within_rest [OF w] by simp
    ultimately show ?thesis using within_rest [OF w] l(4) hs(1) by (intro exI [where x = "[u]"]) auto
  qed
  consider "rs = ph_link (root h) (root t) s" | "rs = ph_link (root t) (root h) s" using rs 2(2) by auto
  then show ?thesis
  proof cases
    case 1
    then show ?thesis
      using link_trees [OF 2(3) t(1) 2(4) t(2) hs(2)] linked_dist [OF 2(4) t(2) hs(2), of "m_data s"] linked_ord [OF 2(5) t(3)] goal [of "linked (m_data s) h t"] by auto
  next
    case c: 2
    then show ?thesis
      using link_trees [OF t(1) 2(3) t(2) 2(4) hs(3)] linked_dist [OF t(2) 2(4) hs(3), of "m_data s"] linked_ord [OF t(3) 2(5)] goal [of "linked (m_data s) t h"] by (auto simp: Un_commute)
  qed
qed

lemma unlink_gather:
  "ph_unlink n s = do {
     s \<leftarrow> node_remove n s;
     case m_children s n of
       None \<Rightarrow> Some s
     | Some c \<Rightarrow> do {
         (c, s) \<leftarrow> gather c s;
         let (r, s) = (case m_root s of None \<Rightarrow> (c, s) | Some r \<Rightarrow> ph_link r c s);
         Some (node_set_root Root r s)
       }
   }"
  by (simp only: ph_unlink_def gather_def)

lemma unlink_tree:
  assumes t: "ph_tree s hs" and n: "n \<in> fnodes hs"
  shows "\<exists>s' hs'. ph_unlink n s = Some s' \<and> ph_tree s' hs' \<and> fnodes hs' = fnodes hs - {n} \<and> relinked n s s'"
proof -
  have sb: "sibs s Root hs" and d: "fdist hs" and o: "ford (m_data s) hs" and l: "length hs \<le> 1" using t by (auto simp: ph_tree_def)
  obtain ks where sub: "subtree n hs = Hp n ks" using subtree_root [OF n] by (cases "subtree n hs") auto
  let ?hs = "prune n hs" and ?f = "m_data s"
  obtain s1 where s1: "node_remove n s = Some s1" "sibs s1 Root ?hs" "loose s1 (Hp n ks)" "m_data s1 = ?f" "m_size s1 = m_size s" "alloc s1 = alloc s"
    using remove_node [OF sb d n] sub by (auto dest: within_rest)
  have p: "fdist ?hs" "fdist ks" "n \<notin> fnodes ks" "ford ?f ?hs" "ford ?f ks" "length ?hs \<le> 1"
    using prune_dist [OF n d] prune_ord [OF n d o] prune_length [of n hs] l by (auto simp: sub)
  have N: "fnodes ?hs \<inter> insert n (fnodes ks) = {}" "fnodes ?hs \<union> insert n (fnodes ks) = fnodes hs"
    using prune_disjoint [OF n d] prune_nodes [OF n d] by (simp_all add: sub)
  have kids: "sibs s1 (Children n) ks" using s1(3) by (simp add: loose_def)
  show ?thesis
  proof (cases "ks = []")
    case True
    then have "ph_tree s1 ?hs" "m_children s1 n = None" using s1 p kids by (auto simp: ph_tree_def)
    then show ?thesis using s1 N True by (intro exI [where x = s1] exI [where x = ?hs]) (auto simp: unlink_gather relinked_def)
  next
    case False
    let ?c = "paired ?f ks"
    have c: "tnodes ?c = fnodes ks" "tdist ?c" "tord ?f ?c" using paired_tree [OF False] p by auto
    obtain s2 where s2: "gather (root (hd ks)) s1 = Some (root ?c, s2)" "m_children s2 n = None" "loose s2 ?c"
      and w: "within (fnodes ks) (insert (Children n) (locs (fnodes ks))) s1 s2"
      using gather_list [OF kids False p(2)] p(3) s1(4) by auto
    have r: "m_data s2 = ?f" "m_size s2 = m_size s" "alloc s2 = alloc s" using within_rest [OF w] s1 by auto
    have "sibs s2 Root ?hs" by (rule sibs_frame [OF w s1(2)]) (use N(1) in \<open>auto simp: locs_def\<close>)
    then have pt: "ph_tree s2 ?hs" using p r by (simp add: ph_tree_def)
    define rs where "rs = (case m_root s2 of None \<Rightarrow> (root ?c, s2) | Some r \<Rightarrow> ph_link r (root ?c) s2)"
    have "ph_unlink n s = Some (node_set_root Root (fst rs) (snd rs))"
      using s1(1) s2(1) sibs_first [OF kids] False by (cases ks) (auto simp: unlink_gather rs_def split: prod.splits)
    moreover obtain hs' where "ph_tree (node_set_root Root (fst rs) (snd rs)) hs'" "fnodes hs' = fnodes ?hs \<union> tnodes ?c"
      "m_data (snd rs) = m_data s2" "m_size (snd rs) = m_size s2" "alloc (snd rs) = alloc s2"
      "\<forall>n. n \<notin> fnodes ?hs \<union> tnodes ?c \<longrightarrow> m_children (snd rs) n = m_children s2 n"
      using install [OF pt s2(3) c(2), of rs] c r N(1) rs_def by auto
    ultimately show ?thesis using c(1) N p(3) r s2(2)
      by (intro exI [where x = "node_set_root Root (fst rs) (snd rs)"] exI [where x = hs']) (auto simp: relinked_def)
  qed
qed

text \<open>The invariant: the nodes allocated are those of the tree.\<close>

definition ph_invar :: "'a::linorder p_heap \<Rightarrow> bool" where
  "ph_invar s = ((\<exists>hs. ph_tree s hs \<and> fnodes hs = set (alloc s)) \<and> distinct (alloc s) \<and> m_size s = length (alloc s))"

definition ph_elems :: "'a p_heap \<Rightarrow> 'a multiset" where
  "ph_elems s = image_mset (m_data s) (mset (alloc s))"

lemma ph_new_invar: "ph_invar ph_new" "ph_elems ph_new = {#}"
  by (auto simp: ph_invar_def ph_elems_def ph_new_def ph_tree_def intro!: exI [where x = "[]"])

lemma relinked_data: "relinked n s s' \<Longrightarrow> m_data s' = m_data s"
  by (simp add: relinked_def)

lemma ph_push_invar:
  assumes i: "ph_invar s" and rc: "rc \<notin> set (alloc s)"
  shows "ph_invar (ph_push rc d s) \<and> ph_elems (ph_push rc d s) = add_mset d (ph_elems s) \<and> alloc (ph_push rc d s) = rc # alloc s \<and>
    m_data (ph_push rc d s) = (m_data s)(rc := d)"
proof -
  obtain hs where hs: "ph_tree s hs" "fnodes hs = set (alloc s)" "distinct (alloc s)" "m_size s = length (alloc s)"
    using i by (auto simp: ph_invar_def)
  let ?s = "s\<lparr>alloc := rc # alloc s, m_prev := (m_prev s)(rc := None), m_children := (m_children s)(rc := None), m_data := (m_data s)(rc := d),
    m_size := m_size s + 1\<rparr>"
  define s0 where "s0 = s\<lparr>m_prev := (m_prev s)(rc := None), m_children := (m_children s)(rc := None)\<rparr>"
  have "fetch s0 l = fetch s l" if "l \<noteq> Children rc" for l using that by (cases l) (auto simp: s0_def)
  then have w: "within {rc} {Children rc} s s0" by (simp add: within_def) (simp add: s0_def)
  have "sibs s0 Root hs"
    by (rule sibs_frame [OF w]) (use hs rc in \<open>auto simp: ph_tree_def locs_def\<close>)
  moreover have "fetch ?s l = fetch s0 l" for l by (cases l) (simp_all add: s0_def)
  moreover have "m_prev ?s = m_prev s0" by (simp add: s0_def)
  ultimately have sb: "sibs ?s Root hs" by (blast intro: sibs_links)
  have pt: "ph_tree ?s hs"
    using hs(1) sb rc hs(2) by (simp add: ph_tree_def ford_upd)
  define rs where "rs = (case m_root ?s of None \<Rightarrow> (rc, ?s) | Some r \<Rightarrow> ph_link rc r ?s)"
  have rs: "rs = (case m_root ?s of None \<Rightarrow> (root (Hp rc []), ?s) | Some r \<Rightarrow> ph_link (root (Hp rc [])) r ?s)"
    by (simp add: rs_def split: option.split)
  have "m_size s = 0 \<longleftrightarrow> hs = []" using hs(2,4) fnodes_empty [of hs] by auto
  then have "m_size s = 0 \<longleftrightarrow> m_root s = None" using hs(1) by (auto elim: ph_tree_cases)
  then have push: "ph_push rc d s = node_set_root Root (fst rs) (snd rs)"
    by (auto simp: ph_push_def Let_def rs_def split: prod.splits)
  obtain hs' where hs': "ph_tree (node_set_root Root (fst rs) (snd rs)) hs'" "fnodes hs' = fnodes hs \<union> tnodes (Hp rc [])"
    "m_data (snd rs) = m_data ?s" "m_size (snd rs) = m_size ?s" "alloc (snd rs) = alloc ?s"
    using install [OF pt, of "Hp rc []" rs] rs rc hs(2) by (auto simp: loose_def)
  have "image_mset ((m_data s)(rc := d)) (mset (alloc s)) = image_mset (m_data s) (mset (alloc s))"
    by (rule image_mset_cong) (use rc in auto)
  then show ?thesis using hs' hs rc by (auto simp: push ph_invar_def ph_elems_def)
qed

lemma ph_remove_invar:
  assumes i: "ph_invar s" and n: "n \<in> set (alloc s)"
  shows "\<exists>s'. ph_remove n s = Some s' \<and> ph_invar s' \<and> ph_elems s' = ph_elems s - {#m_data s n#} \<and>
    alloc s' = remove1 n (alloc s) \<and> m_data s' = m_data s"
proof -
  obtain hs where hs: "ph_tree s hs" "fnodes hs = set (alloc s)" "distinct (alloc s)" "m_size s = length (alloc s)"
    using i by (auto simp: ph_invar_def)
  obtain s1 hs' where s1: "ph_unlink n s = Some s1" "ph_tree s1 hs'" "fnodes hs' = fnodes hs - {n}"
    and r: "m_data s1 = m_data s" "m_size s1 = m_size s" "alloc s1 = alloc s"
    using unlink_tree [OF hs(1), of n] n hs(2) by (auto simp: relinked_def)
  let ?s = "s1\<lparr>m_size := m_size s1 - 1, alloc := remove1 n (alloc s1)\<rparr>"
  have "fetch ?s l = fetch s1 l" for l by (cases l) simp_all
  moreover have "m_prev ?s = m_prev s1" by simp
  ultimately have "sibs ?s Root hs'" using s1(2) sibs_links unfolding ph_tree_def by blast
  then have "ph_tree ?s hs'" using s1(2) by (simp add: ph_tree_def)
  then have "ph_invar ?s" using s1(3) hs n r by (auto simp: ph_invar_def length_remove1)
  moreover have "ph_elems ?s = ph_elems s - {#m_data s n#}"
    using r n image_mset_Diff [of "{#n#}" "mset (alloc s)"] by (simp add: ph_elems_def)
  ultimately show ?thesis using s1(1) r by (simp add: ph_remove_def)
qed

lemma ph_change_invar:
  assumes i: "ph_invar s" and n: "n \<in> set (alloc s)"
  shows "\<exists>s'. ph_change n d s = Some s' \<and> ph_invar s' \<and> ph_elems s' = add_mset d (ph_elems s - {#m_data s n#}) \<and>
    alloc s' = alloc s \<and> m_data s' = (m_data s)(n := d)"
proof -
  obtain hs where hs: "ph_tree s hs" "fnodes hs = set (alloc s)" "distinct (alloc s)" "m_size s = length (alloc s)"
    using i by (auto simp: ph_invar_def)
  obtain s1 hs' where s1: "ph_unlink n s = Some s1" "ph_tree s1 hs'" "fnodes hs' = fnodes hs - {n}"
    and r: "m_data s1 = m_data s" "m_size s1 = m_size s" "alloc s1 = alloc s" "m_children s1 n = None"
    using unlink_tree [OF hs(1), of n] n hs(2) by (auto simp: relinked_def)
  let ?s = "s1\<lparr>m_data := (m_data s1)(n := d)\<rparr>"
  have "fetch ?s l = fetch s1 l" for l by (cases l) simp_all
  moreover have "m_prev ?s = m_prev s1" by simp
  ultimately have "sibs ?s Root hs'" using s1(2) sibs_links unfolding ph_tree_def by blast
  then have pt: "ph_tree ?s hs'"
    using s1(2,3) by (simp add: ph_tree_def ford_upd)
  define rs where "rs = (case m_root ?s of None \<Rightarrow> (n, ?s) | Some r \<Rightarrow> ph_link n r ?s)"
  have rs: "rs = (case m_root ?s of None \<Rightarrow> (root (Hp n []), ?s) | Some r \<Rightarrow> ph_link (root (Hp n [])) r ?s)"
    by (simp add: rs_def split: option.split)
  have ch: "ph_change n d s = Some (node_set_root Root (fst rs) (snd rs))"
    using s1(1) by (auto simp: ph_change_def rs_def Let_def split: prod.splits)
  obtain ts where ts: "ph_tree (node_set_root Root (fst rs) (snd rs)) ts" "fnodes ts = fnodes hs' \<union> tnodes (Hp n [])"
    "m_data (snd rs) = m_data ?s" "m_size (snd rs) = m_size ?s" "alloc (snd rs) = alloc ?s"
    using install [OF pt, of "Hp n []" rs] rs s1(3) r(4) by (auto simp: loose_def)
  obtain xs ys where "alloc s = xs @ n # ys" using split_list [OF n] by blast
  then obtain A where A: "mset (alloc s) = add_mset n A" "n \<notin># A" using hs(3) that [of "mset (xs @ ys)"] by auto
  then have "image_mset ((m_data s)(n := d)) A = image_mset (m_data s) A" by (auto intro!: image_mset_cong)
  then have "image_mset ((m_data s)(n := d)) (mset (alloc s)) = add_mset d (ph_elems s - {#m_data s n#})"
    by (simp add: ph_elems_def A(1))
  then show ?thesis using ts hs n s1(3) r by (auto simp: ch ph_invar_def ph_elems_def)
qed

lemma ph_top_invar:
  assumes i: "ph_invar s" and ne: "ph_elems s \<noteq> {#}"
  shows "\<exists>r. m_root s = Some r \<and> r \<in> set (alloc s) \<and> (\<forall>n \<in> set (alloc s). m_data s n \<le> m_data s r)"
proof -
  obtain hs where hs: "ph_tree s hs" "fnodes hs = set (alloc s)" using i by (auto simp: ph_invar_def)
  have "hs \<noteq> []" using hs(2) ne by (auto simp: ph_elems_def)
  then obtain t where t: "hs = [t]" "m_root s = Some (root t)" "tord (m_data s) t" using ph_tree_cases [OF hs(1)] by metis
  then have "set (alloc s) = tnodes t" using hs(2) by simp
  then show ?thesis using t tord_root [OF t(3)] by auto
qed

section \<open>The contract\<close>

text \<open>An allocator that returns an address that is not in use.\<close>

definition unused :: "addr list \<Rightarrow> addr" where
  "unused xs = Suc (foldr max xs 0)"

lemma unused: "unused xs \<notin> set xs"
proof -
  have "x \<le> foldr max xs 0" if "x \<in> set xs" for x using that by (induction xs) auto
  then show ?thesis by (force simp: unused_def)
qed

lemma pop_root:
  assumes i: "ph_invar s" and ne: "ph_elems s \<noteq> {#}"
  shows "\<exists>s'. ph_pop s = Some s' \<and> ph_invar s' \<and> ph_elems s' = ph_elems s - {#ph_top s#}"
proof -
  obtain r where "m_root s = Some r" "r \<in> set (alloc s)" using ph_top_invar [OF assms] by blast
  then show ?thesis using ph_remove_invar [OF i, of r] by (auto simp: ph_pop_def ph_top_def)
qed

interpretation ph: max_queue "ph_new :: 'a::linorder p_heap" ph_empty "\<lambda>x s. ph_push (unused (alloc s)) x s" ph_top "\<lambda>s. the (ph_pop s)" ph_invar ph_elems
proof (unfold_locales, goal_cases)
  case 1
  then show ?case by (rule ph_new_invar)
next
  case 2
  then show ?case by (rule ph_new_invar)
next
  case (3 q)
  then show ?case by (auto simp: ph_empty_def ph_elems_def ph_invar_def)
next
  case (4 q x)
  then show ?case using ph_push_invar unused by blast
next
  case (5 q x)
  then show ?case using ph_push_invar unused by blast
next
  case (6 q)
  then show ?case using ph_top_invar [OF 6] by (auto simp: ph_top_def ph_elems_def)
next
  case (7 q)
  then show ?case using pop_root [OF 7] by auto
next
  case (8 q)
  then show ?case using pop_root [OF 8] by auto
qed

section \<open>The iterator and the destructor\<close>

lemma push_siblings_list:
  assumes "sibs s l ts" and "fnodes ts \<subseteq> set (alloc s)"
  shows "push_siblings (fetch s l) q s = Some (q @ map root ts)"
  using assms
proof (induction ts arbitrary: l q)
  case (Cons t ts)
  have n: "m_next s (root t) = fetch s (Next (root t))" by simp
  have "root t \<in> set (alloc s)" using Cons.prems(2) by auto
  moreover have "push_siblings (m_next s (root t)) (q @ [root t]) s = Some ((q @ [root t]) @ map root ts)"
    unfolding n by (rule Cons.IH) (use Cons.prems in \<open>auto simp: sibs_Cons\<close>)
  ultimately show ?case using Cons.prems(1)
    by (simp add: sibs_Cons push_siblings_def loop_while_step [where s = "(Some (root t), q)"])
qed (simp add: push_siblings_def)

lemma fnodes_append [simp]: "fnodes (ts @ us) = fnodes ts \<union> fnodes us"
  by (induction ts) auto

lemma fdist_append: "fdist (ts @ us) \<longleftrightarrow> fdist ts \<and> fdist us \<and> fnodes ts \<inter> fnodes us = {}"
  by (induction ts) auto

text \<open>What is in the queue is the forest of the nodes not deleted yet.\<close>

definition dtor_inv :: "'a p_heap \<Rightarrow> addr list \<times> 'a p_heap \<Rightarrow> bool" where
  "dtor_inv s0 qs = (\<exists>ts xs. snd qs = s0\<lparr>alloc := xs\<rparr> \<and> fst qs = map root ts \<and> (\<forall>t \<in> set ts. loose s0 t) \<and> fdist ts \<and>
     fnodes ts = set xs \<and> distinct xs)"

lemma sibs_loose: "sibs s l ts \<Longrightarrow> t \<in> set ts \<Longrightarrow> loose s t"
  by (induction ts arbitrary: l) (auto simp: sibs_Cons)

lemma sibs_alloc [simp]: "sibs (s\<lparr>alloc := xs\<rparr>) l ts = sibs s l ts"
proof -
  have "fetch (s\<lparr>alloc := xs\<rparr>) k = fetch s k" for k by (cases k) auto
  then show ?thesis using sibs_links [of s l ts "s\<lparr>alloc := xs\<rparr>"] sibs_links [of "s\<lparr>alloc := xs\<rparr>" l ts s] by auto
qed

lemma dtor_step:
  assumes "dtor_inv s0 (q, s)" and "q \<noteq> []"
  shows "\<exists>q'. iterator_next q s = Some q' \<and> dtor_inv s0 (q', s\<lparr>alloc := remove1 (hd q) (alloc s)\<rparr>) \<and> hd q \<in> set (alloc s)"
proof -
  obtain ts xs where inv: "s = s0\<lparr>alloc := xs\<rparr>" "q = map root ts" "\<forall>t \<in> set ts. loose s0 t" "fdist ts" "fnodes ts = set xs" "distinct xs"
    using assms(1) by (auto simp: dtor_inv_def)
  obtain n ks us where ts: "ts = Hp n ks # us" using assms(2) inv(2) by (cases ts) (auto intro: tree.exhaust)
  have ks: "sibs s0 (Children n) ks" using inv(3) by (simp add: ts loose_def)
  have "push_siblings (fetch s (Children n)) (tl q) s = Some (tl q @ map root ks)"
    by (rule push_siblings_list) (use ks inv in \<open>auto simp: ts\<close>)
  then have "iterator_next q s = Some (map root (us @ ks))" using inv by (auto simp: iterator_next_def ts)
  moreover have "dtor_inv s0 (map root (us @ ks), s\<lparr>alloc := remove1 (hd q) (alloc s)\<rparr>)"
    unfolding dtor_inv_def using inv ks
    by (intro exI [where x = "us @ ks"] exI [where x = "remove1 n xs"]) (auto simp: ts fdist_append intro: sibs_loose)
  ultimately show ?thesis using inv by (auto simp: ts)
qed

lemma dtor_deletes_all:
  assumes "ph_invar s"
  shows "\<exists>s'. ph_dtor s = Some s' \<and> alloc s' = []"
proof -
  obtain hs where hs: "ph_tree s hs" "fnodes hs = set (alloc s)" "distinct (alloc s)" using assms by (auto simp: ph_invar_def)
  have "ph_begin s = map root hs" using hs(1) by (cases rule: ph_tree_cases) (auto simp: ph_begin_def)
  then have "dtor_inv s (ph_begin s, s)"
    using hs by (auto simp: dtor_inv_def ph_tree_def intro!: exI [where x = hs] exI [where x = "alloc s"] intro: sibs_loose)
  then have "\<exists>r. loop_while (\<lambda>(q, s). q \<noteq> [])
      (\<lambda>(q, s). do { q' \<leftarrow> iterator_next q s; Some (q', s\<lparr>alloc := remove1 (hd q) (alloc s)\<rparr>) }) (ph_begin s, s) = Some r \<and>
    dtor_inv s r \<and> \<not> (case r of (q, s) \<Rightarrow> q \<noteq> [])"
  proof (rule loop_while_total [where m = "\<lambda>(q, s). length (alloc s)"], goal_cases)
    case (1 r)
    obtain q t where r: "r = (q, t)" by (cases r)
    then obtain q' where "iterator_next q t = Some q'" "dtor_inv s (q', t\<lparr>alloc := remove1 (hd q) (alloc t)\<rparr>)" "hd q \<in> set (alloc t)"
      using dtor_step [of s q t] 1 by auto
    then show ?case by (auto simp: r length_remove1 intro!: Suc_le_lessD dest: length_pos_if_in_set)
  qed
  then show ?thesis by (auto simp: ph_dtor_def dtor_inv_def fnodes_empty)
qed

section \<open>What the heap promises\<close>

text \<open>
  C32: sorting by the pairing heap: however many values are pushed, emptying it by \<^verbatim>\<open>top\<close> and \<^verbatim>\<open>pop\<close> ends and yields the same values, largest first; the recursive
  pairing ends and no null pointer is written.
\<close>

theorem pairing_heap_sorts:
  "\<exists>s ys. loop_while (\<lambda>(s, out). \<not> ph_empty s) (\<lambda>(s, out). do { s' \<leftarrow> ph_pop s; Some (s', out @ [ph_top s]) })
     (fold (\<lambda>x s. ph_push (unused (alloc s)) x s) xs ph_new, []) = Some (s, ys) \<and> mset ys = mset xs \<and> sorted_wrt (\<ge>) ys"
proof -
  let ?b = "\<lambda>(s, out). \<not> ph_empty s" and ?init = "(fold (\<lambda>x s. ph_push (unused (alloc s)) x s) xs ph_new, [])"
  have "rel_option (\<lambda>s t. s = t \<and> ph_invar (fst s)) (loop_while ?b (\<lambda>(s, out). Some (the (ph_pop s), out @ [ph_top s])) ?init)
    (loop_while ?b (\<lambda>(s, out). do { s' \<leftarrow> ph_pop s; Some (s', out @ [ph_top s]) }) ?init)"
  proof (rule loop_while_sim, goal_cases)
    case 1
    then show ?case using ph.push_list [OF ph_new_invar(1), of xs] by simp
  next
    case (3 s t)
    then show ?case using pop_root [of "fst s"] ph.is_empty_iff [of "fst s"] by (auto split: prod.splits)
  qed auto
  then show ?thesis using ph.queue_sort [of xs] by (auto simp: option_rel_Some1)
qed

text \<open>
  C31: On a heap in good order and for a node of it, \<^verbatim>\<open>remove\<close> and \<^verbatim>\<open>change\<close> (hence \<^verbatim>\<open>increase\<close> and \<^verbatim>\<open>decrease\<close>) return, leave the heap in good order, and remove
  or replace that node's value and no other.
\<close>

theorem pairing_heap_update:
  assumes "ph_invar s" and "n \<in> set (alloc s)"
  shows "(\<exists>s'. ph_remove n s = Some s' \<and> ph_invar s' \<and> ph_elems s' = ph_elems s - {#m_data s n#}) \<and>
    (\<exists>s'. ph_change n d s = Some s' \<and> ph_invar s' \<and> ph_elems s' = add_mset d (ph_elems s - {#m_data s n#}) \<and> m_data s' = (m_data s)(n := d))"
  using ph_remove_invar [OF assms] ph_change_invar [OF assms] by blast

lemma three_values: "\<exists>s :: nat p_heap. ph_invar s \<and> 1 \<in> set (alloc s) \<and> m_data s 1 = 5 \<and> ph_elems s = {#5, 3, 7#}"
proof -
  let ?a = "ph_push 1 5 ph_new :: nat p_heap" and ?b = "ph_push 2 3 (ph_push 1 5 ph_new) :: nat p_heap"
  let ?c = "ph_push 3 7 ?b :: nat p_heap"
  have new: "alloc (ph_new :: nat p_heap) = []" by (simp add: ph_new_def)
  have a: "ph_invar ?a" "ph_elems ?a = {#5#}" "alloc ?a = [1]" "m_data ?a 1 = 5"
    using ph_push_invar [of "ph_new :: nat p_heap" 1 5] by (auto simp: ph_new_invar new)
  have b: "ph_invar ?b" "ph_elems ?b = {#3, 5#}" "alloc ?b = [2, 1]" "m_data ?b 1 = 5"
    using ph_push_invar [OF a(1), of 2 3] a by auto
  have c: "ph_invar ?c" "ph_elems ?c = {#7, 3, 5#}" "alloc ?c = [3, 2, 1]" "m_data ?c 1 = 5"
    using ph_push_invar [OF b(1), of 3 7] b by auto
  then show ?thesis by (intro exI [where x = ?c]) auto
qed

theorem pairing_heap_update_witness:
  "\<exists>s s' :: nat p_heap. ph_elems s = {#5, 3, 7#} \<and> ph_change 1 9 s = Some s' \<and> ph_elems s' = {#9, 3, 7#}"
proof -
  obtain s :: "nat p_heap" where s: "ph_invar s" "1 \<in> set (alloc s)" "m_data s 1 = 5" "ph_elems s = {#5, 3, 7#}" using three_values by blast
  obtain s' where "ph_change 1 9 s = Some s'" "ph_elems s' = add_mset 9 (ph_elems s - {#m_data s 1#})"
    using pairing_heap_update [OF s(1,2), of 9] by blast
  then show ?thesis using s by (intro exI [where x = s] exI [where x = s']) simp
qed

text \<open>The destructor ends, reads no deleted node and deletes every node.\<close>

theorem pairing_heap_dtor:
  assumes "ph_invar s"
  shows "\<exists>s'. ph_dtor s = Some s' \<and> alloc s' = []"
  using assms by (rule dtor_deletes_all)

theorem pairing_heap_dtor_witness:
  "\<exists>s s' :: nat p_heap. ph_elems s = {#5, 3, 7#} \<and> ph_dtor s = Some s' \<and> alloc s' = []"
  using three_values pairing_heap_dtor by blast

end
