(* ===== verification/Sockets.thy ===== *)
theory Sockets
  imports Net_Operations Intrusive_List "HOL-Library.Sublist"
begin

text \<open>
  The socket objects of \<^verbatim>\<open>src/src/nstd/net\<close>: \<^verbatim>\<open>socket_base\<close>, \<^verbatim>\<open>basic_socket\<close>, \<^verbatim>\<open>basic_socket_acceptor\<close>, \<^verbatim>\<open>basic_datagram_socket\<close> and \<^verbatim>\<open>basic_stream_socket\<close> with its synchronous operations and its queue of
  operations that send, and the timer object \<^verbatim>\<open>basic_waitable_timer\<close>. The system calls are a parameter: functions on a state of the system that return what the call
  returns; a call that fails leaves its reason in \<^verbatim>\<open>errno\<close>. An exception is \<open>Inl\<close> of the error code.
\<close>

section \<open>Model\<close>

record 'k system =
  sys_socket :: "int \<Rightarrow> int \<Rightarrow> int \<Rightarrow> 'k \<Rightarrow> int \<times> 'k"
  sys_setsockopt :: "int \<Rightarrow> int \<Rightarrow> int \<Rightarrow> int \<Rightarrow> 'k \<Rightarrow> int \<times> 'k"
  sys_bind :: "int \<Rightarrow> byte list \<Rightarrow> nat \<Rightarrow> 'k \<Rightarrow> int \<times> 'k"
  sys_listen :: "int \<Rightarrow> int \<Rightarrow> 'k \<Rightarrow> int \<times> 'k"
  sys_accept :: "int \<Rightarrow> 'k \<Rightarrow> int \<times> 'k"
  sys_sendmsg :: "int \<Rightarrow> msghdr \<Rightarrow> int \<Rightarrow> 'k \<Rightarrow> int \<times> 'k"
  sys_recvmsg :: "int \<Rightarrow> msghdr \<Rightarrow> int \<Rightarrow> 'k \<Rightarrow> int \<times> 'k"
  sys_close :: "int \<Rightarrow> 'k \<Rightarrow> 'k"
  errno :: "'k \<Rightarrow> int"

subsection \<open>Protocols and options\<close>

record internet_protocol =
  p_family :: int
  p_type :: int
  p_protocol :: int

definition tcp :: "protocol \<Rightarrow> internet_protocol" where
  "tcp p = \<lparr>p_family = uint (d_family p), p_type = 1, p_protocol = 6\<rparr>"

definition udp :: "protocol \<Rightarrow> internet_protocol" where
  "udp p = \<lparr>p_family = uint (d_family p), p_type = 2, p_protocol = 17\<rparr>"

definition SOL_SOCKET :: int where "SOL_SOCKET = 1"
definition SO_REUSEADDR :: int where "SO_REUSEADDR = 2"
definition SOMAXCONN :: int where "SOMAXCONN = 4096"
definition O_NONBLOCK :: "32 word" where "O_NONBLOCK = 2048"

record socket_option =
  o_level :: int
  o_name :: int
  o_value :: int

definition boolean_socket_option :: "int \<Rightarrow> bool \<Rightarrow> socket_option" where
  "boolean_socket_option Name v = \<lparr>o_level = SOL_SOCKET, o_name = Name, o_value = of_bool v\<rparr>"

definition integer_socket_option :: "int \<Rightarrow> int \<Rightarrow> socket_option" where
  "integer_socket_option Name v = \<lparr>o_level = SOL_SOCKET, o_name = Name, o_value = v\<rparr>"

text \<open>\<^verbatim>\<open>message_flags\<close>: an enumeration with the bit operations and an output operator.\<close>

type_synonym message_flags = "32 word"

definition flag_peek :: message_flags where "flag_peek = 2"
definition flag_out_of_band :: message_flags where "flag_out_of_band = 1"
definition flag_do_not_route :: message_flags where "flag_do_not_route = 4"

definition flags_print :: "message_flags \<Rightarrow> string" where
  "flags_print flags =
     (let format_flag = (\<lambda>(flag, name) (out, sep). if and flag flags \<noteq> 0 then (out @ sep @ name, ''|'') else (out, sep))
      in fst (fold format_flag [(flag_peek, ''peek''), (flag_out_of_band, ''out_of_band''), (flag_do_not_route, ''do_not_route'')] ([], [])))"

subsection \<open>Sockets\<close>

record socket =
  s_fd :: int
  s_flags :: "32 word"
  s_protocol :: "internet_protocol option"

definition socket_default :: socket where
  "socket_default = \<lparr>s_fd = -1, s_flags = 0, s_protocol = None\<rparr>"

text \<open>Destroying a descriptor and giving it a new value.\<close>

definition socket_dtor :: "'k system \<Rightarrow> socket \<Rightarrow> 'k \<Rightarrow> 'k" where
  "socket_dtor os s k = (if s_fd s < 0 then k else sys_close os (s_fd s) k)"

definition socket_base_open :: "'k system \<Rightarrow> int \<Rightarrow> int \<Rightarrow> int \<Rightarrow> socket \<Rightarrow> 'k \<Rightarrow> int \<times> socket \<times> 'k" where
  "socket_base_open os domain ty protocol s k =
     (let (fd, k) = sys_socket os domain ty protocol k;
          k = socket_dtor os s k
      in (fd, s\<lparr>s_fd := fd\<rparr>, k))"

definition socket_base_ctor :: "'k system \<Rightarrow> int \<Rightarrow> int \<Rightarrow> int \<Rightarrow> 'k \<Rightarrow> (int + socket) \<times> 'k" where
  "socket_base_ctor os domain ty protocol k =
     (let (fd, s, k) = socket_base_open os domain ty protocol socket_default k
      in if fd < 0 then (Inl (errno os k), socket_dtor os s k) else (Inr s, k))"

definition socket_base_non_blocking :: "socket \<Rightarrow> bool" where
  "socket_base_non_blocking s = (and (s_flags s) O_NONBLOCK \<noteq> 0)"

definition socket_is_open :: "socket \<Rightarrow> bool" where
  "socket_is_open s = (0 \<le> s_fd s)"

definition basic_socket_open :: "'k system \<Rightarrow> internet_protocol \<Rightarrow> socket \<Rightarrow> 'k \<Rightarrow> socket \<times> 'k" where
  "basic_socket_open os proto s k =
     (let s = s\<lparr>s_protocol := Some proto\<rparr>;
          (fd, s, k) = socket_base_open os (p_family proto) (p_type proto) (p_protocol proto) s k
      in (s, k))"

definition basic_socket_ctor :: "'k system \<Rightarrow> internet_protocol \<Rightarrow> 'k \<Rightarrow> socket \<times> 'k" where
  "basic_socket_ctor os proto k = basic_socket_open os proto socket_default k"

definition basic_socket_of_fd :: "internet_protocol \<Rightarrow> int \<Rightarrow> socket" where
  "basic_socket_of_fd proto handle = \<lparr>s_fd = handle, s_flags = 0, s_protocol = Some proto\<rparr>"

text \<open>\<^verbatim>\<open>protocol()\<close> reads the optional; \<^const>\<open>None\<close> if it is empty.\<close>

definition socket_get_protocol :: "socket \<Rightarrow> internet_protocol option" where
  "socket_get_protocol s = s_protocol s"

subsection \<open>basic_socket_acceptor\<close>

definition acceptor_ctor :: "'k system \<Rightarrow> internet_protocol \<Rightarrow> 'k \<Rightarrow> (int + socket) \<times> 'k" where
  "acceptor_ctor os proto k =
     (case socket_base_ctor os (p_family proto) (p_type proto) (p_protocol proto) k of
        (Inl e, k) \<Rightarrow> (Inl e, k)
      | (Inr s, k) \<Rightarrow> (Inr (s\<lparr>s_protocol := Some proto\<rparr>), k))"

definition acceptor_set_option :: "'k system \<Rightarrow> socket_option \<Rightarrow> socket \<Rightarrow> 'k \<Rightarrow> 'k" where
  "acceptor_set_option os opt s k = snd (sys_setsockopt os (s_fd s) (o_level opt) (o_name opt) (o_value opt) k)"

definition acceptor_listen :: "'k system \<Rightarrow> int \<Rightarrow> socket \<Rightarrow> 'k \<Rightarrow> (int + unit) \<times> 'k" where
  "acceptor_listen os n s k =
     (let (rc, k) = sys_listen os (s_fd s) n k in if rc \<noteq> 0 then (Inl (errno os k), k) else (Inr (), k))"

text \<open>\<open>storage\<close> and \<open>j\<close> are the bytes of the local \<^verbatim>\<open>sockaddr_storage\<close>, which is not initialised.\<close>

definition acceptor_bind :: "'k system \<Rightarrow> bool \<Rightarrow> junk \<Rightarrow> byte list \<Rightarrow> endpoint \<Rightarrow> socket \<Rightarrow> 'k \<Rightarrow> (int + unit) \<times> 'k" where
  "acceptor_bind os little j storage ep s k =
     (let (storage, size) = address_get_address little j (d_address ep) (d_port ep) storage;
          (rc, k) = sys_bind os (s_fd s) storage size k
      in if rc \<noteq> 0 then (Inl (errno os k), k) else (Inr (), k))"

text \<open>The delegating constructor: an exception after the first constructor is done destroys the object.\<close>

definition acceptor_endpoint_ctor ::
  "'k system \<Rightarrow> bool \<Rightarrow> junk \<Rightarrow> byte list \<Rightarrow> (protocol \<Rightarrow> internet_protocol) \<Rightarrow> endpoint \<Rightarrow> bool \<Rightarrow> 'k \<Rightarrow> (int + socket) \<times> 'k" where
  "acceptor_endpoint_ctor os little j storage proto ep reuse k =
     (case acceptor_ctor os (proto (endpoint.d_protocol ep)) k of
        (Inl e, k) \<Rightarrow> (Inl e, k)
      | (Inr s, k) \<Rightarrow>
          let k = (if reuse then acceptor_set_option os (boolean_socket_option SO_REUSEADDR True) s k else k) in
          (case acceptor_bind os little j storage ep s k of
             (Inl e, k) \<Rightarrow> (Inl e, socket_dtor os s k)
           | (Inr _, k) \<Rightarrow>
               (case acceptor_listen os SOMAXCONN s k of
                  (Inl e, k) \<Rightarrow> (Inl e, socket_dtor os s k)
                | (Inr _, k) \<Rightarrow> (Inr s, k))))"

text \<open>\<open>ec\<close> is the error code passed by reference. \<^const>\<open>None\<close> as a result: the acceptor has no protocol.\<close>

definition accept_ec :: "'k system \<Rightarrow> socket \<Rightarrow> int \<Rightarrow> 'k \<Rightarrow> (socket \<times> int \<times> 'k) option" where
  "accept_ec os s ec k =
     (let (res, k) = sys_accept os (s_fd s) k in
      if res < 0 then Some (socket_default, errno os k, k)
      else do { proto \<leftarrow> socket_get_protocol s; Some (basic_socket_of_fd proto res, ec, k) })"

definition accept :: "'k system \<Rightarrow> socket \<Rightarrow> 'k \<Rightarrow> ((int + socket) \<times> 'k) option" where
  "accept os s k =
     do { (rc, ec, k) \<leftarrow> accept_ec os s 0 k;
          Some (if ec \<noteq> 0 then (Inl ec, socket_dtor os rc k) else (Inr rc, k)) }"

subsection \<open>basic_datagram_socket\<close>

definition datagram_endpoint_ctor ::
  "'k system \<Rightarrow> bool \<Rightarrow> junk \<Rightarrow> byte list \<Rightarrow> (protocol \<Rightarrow> internet_protocol) \<Rightarrow> endpoint \<Rightarrow> 'k \<Rightarrow> (int + socket) \<times> 'k" where
  "datagram_endpoint_ctor os little j storage proto ep k =
     (let (s, k) = basic_socket_ctor os (proto (endpoint.d_protocol ep)) k;
          (address, socklen) = endpoint_get_address little j ep storage;
          (rc, k) = sys_bind os (s_fd s) address socklen k
      in if rc \<noteq> 0 then (Inl (errno os k), socket_dtor os s k) else (Inr s, k))"

subsection \<open>basic_stream_socket: synchronous operations\<close>

definition stream_iovec :: "buffer_seq \<Rightarrow> iovec list" where
  "stream_iovec bufs = map (\<lambda>b. \<lparr>iov_base = const_buffer_data b, iov_len = const_buffer_size b\<rparr>) (seq_buffers bufs)"

text \<open>The four overloads of each operation; a size is returned and \<open>ec\<close> updated, or \<^verbatim>\<open>system_error\<close> thrown.\<close>

definition receive_flags_ec :: "'k system \<Rightarrow> socket \<Rightarrow> buffer_seq \<Rightarrow> message_flags \<Rightarrow> int \<Rightarrow> 'k \<Rightarrow> 64 word \<times> int \<times> 'k" where
  "receive_flags_ec os s bufs flags ec k =
     (let v = stream_iovec bufs;
          message = \<lparr>msg_iov = v, msg_iovlen = length (seq_buffers bufs), msg_name = [], msg_namelen = 0\<rparr>;
          (rc, k) = sys_recvmsg os (s_fd s) message (sint flags) k
      in if rc < 0 then (0, errno os k, k) else (word_of_int rc, ec, k))"

definition throw_ec :: "('k \<Rightarrow> 64 word \<times> int \<times> 'k) \<Rightarrow> 'k \<Rightarrow> (int + 64 word) \<times> 'k" where
  "throw_ec f k = (let (rc, ec, k) = f k in if ec \<noteq> 0 then (Inl ec, k) else (Inr rc, k))"

definition receive_ec :: "'k system \<Rightarrow> socket \<Rightarrow> buffer_seq \<Rightarrow> int \<Rightarrow> 'k \<Rightarrow> 64 word \<times> int \<times> 'k" where
  "receive_ec os s bufs ec k = receive_flags_ec os s bufs 0 ec k"

definition receive :: "'k system \<Rightarrow> socket \<Rightarrow> buffer_seq \<Rightarrow> 'k \<Rightarrow> (int + 64 word) \<times> 'k" where
  "receive os s bufs k = throw_ec (receive_ec os s bufs 0) k"

definition receive_flags :: "'k system \<Rightarrow> socket \<Rightarrow> buffer_seq \<Rightarrow> message_flags \<Rightarrow> 'k \<Rightarrow> (int + 64 word) \<times> 'k" where
  "receive_flags os s bufs flags k = throw_ec (receive_flags_ec os s bufs flags 0) k"

definition read_some_ec :: "'k system \<Rightarrow> socket \<Rightarrow> buffer_seq \<Rightarrow> int \<Rightarrow> 'k \<Rightarrow> 64 word \<times> int \<times> 'k" where
  "read_some_ec os s bufs ec k = receive_ec os s bufs ec k"

definition read_some :: "'k system \<Rightarrow> socket \<Rightarrow> buffer_seq \<Rightarrow> 'k \<Rightarrow> (int + 64 word) \<times> 'k" where
  "read_some os s bufs k = throw_ec (read_some_ec os s bufs 0) k"

definition send_flags_ec :: "'k system \<Rightarrow> socket \<Rightarrow> buffer_seq \<Rightarrow> message_flags \<Rightarrow> int \<Rightarrow> 'k \<Rightarrow> 64 word \<times> int \<times> 'k" where
  "send_flags_ec os s bufs flags ec k =
     (let v = stream_iovec bufs;
          message = \<lparr>msg_iov = v, msg_iovlen = length (seq_buffers bufs), msg_name = [], msg_namelen = 0\<rparr>;
          (rc, k) = sys_sendmsg os (s_fd s) message (sint flags) k
      in if rc < 0 then (0, errno os k, k) else (word_of_int rc, ec, k))"

definition send_ec :: "'k system \<Rightarrow> socket \<Rightarrow> buffer_seq \<Rightarrow> int \<Rightarrow> 'k \<Rightarrow> 64 word \<times> int \<times> 'k" where
  "send_ec os s bufs ec k = send_flags_ec os s bufs 0 ec k"

definition send :: "'k system \<Rightarrow> socket \<Rightarrow> buffer_seq \<Rightarrow> 'k \<Rightarrow> (int + 64 word) \<times> 'k" where
  "send os s bufs k = throw_ec (send_ec os s bufs 0) k"

definition send_flags :: "'k system \<Rightarrow> socket \<Rightarrow> buffer_seq \<Rightarrow> message_flags \<Rightarrow> 'k \<Rightarrow> (int + 64 word) \<times> 'k" where
  "send_flags os s bufs flags k = throw_ec (send_flags_ec os s bufs flags 0) k"

definition write_some_ec :: "'k system \<Rightarrow> socket \<Rightarrow> buffer_seq \<Rightarrow> int \<Rightarrow> 'k \<Rightarrow> 64 word \<times> int \<times> 'k" where
  "write_some_ec os s bufs ec k = send_ec os s bufs ec k"

definition write_some :: "'k system \<Rightarrow> socket \<Rightarrow> buffer_seq \<Rightarrow> 'k \<Rightarrow> (int + 64 word) \<times> 'k" where
  "write_some os s bufs k = throw_ec (send_ec os s bufs 0) k"

subsection \<open>basic_stream_socket: the queue of operations that send\<close>

text \<open>\<open>submitted\<close> are the operations whose \<^verbatim>\<open>submit\<close> was called.\<close>

record send_queue =
  d_send_queue :: links
  submitted :: "addr list"

definition op_submit :: "addr \<Rightarrow> send_queue \<Rightarrow> send_queue" where
  "op_submit op s = s\<lparr>submitted := submitted s @ [op]\<rparr>"

definition enqueue :: "addr \<Rightarrow> addr \<Rightarrow> send_queue \<Rightarrow> send_queue" where
  "enqueue h op s =
     (let s = s\<lparr>d_send_queue := il_push_back h op (d_send_queue s)\<rparr>
      in if op = il_front h (d_send_queue s) then op_submit op s else s)"

definition send_complete :: "addr \<Rightarrow> addr \<Rightarrow> send_queue \<Rightarrow> send_queue" where
  "send_complete h op s =
     (let front = (il_front h (d_send_queue s) = op);
          s = s\<lparr>d_send_queue := il_erase op (d_send_queue s)\<rparr>
      in if front \<and> \<not> il_empty h (d_send_queue s) then op_submit (il_front h (d_send_queue s)) s else s)"

subsection \<open>basic_waitable_timer\<close>

text \<open>Time points and durations are counts of the clock's ticks; \<open>now\<close> is what \<^verbatim>\<open>Clock::now\<close> returns.\<close>

record 's waitable_timer =
  t_scheduler :: 's
  t_time_point :: int

definition timer_at :: "'s \<Rightarrow> int \<Rightarrow> 's waitable_timer" where
  "timer_at scheduler t = \<lparr>t_scheduler = scheduler, t_time_point = t\<rparr>"

definition timer_default :: "'s \<Rightarrow> 's waitable_timer" where
  "timer_default scheduler = timer_at scheduler 0"

definition timer_after :: "'s \<Rightarrow> int \<Rightarrow> int \<Rightarrow> 's waitable_timer" where
  "timer_after scheduler now d = timer_at scheduler (now + d)"

definition expiry :: "'s waitable_timer \<Rightarrow> int" where
  "expiry t = t_time_point t"

section \<open>Ownership of descriptors\<close>

text \<open>
  What the system promises: \<open>fds\<close> are the open descriptors. A new socket or an accepted connection is a descriptor that was not open; closing
  removes it; the other calls open and close nothing; \<^verbatim>\<open>accept\<close> that fails sets \<^verbatim>\<open>errno\<close>.
\<close>

definition opens :: "('k \<Rightarrow> int set) \<Rightarrow> 'k \<Rightarrow> int \<times> 'k \<Rightarrow> bool" where
  "opens fds k r = (if fst r < 0 then fds (snd r) = fds k else fst r \<notin> fds k \<and> fds (snd r) = insert (fst r) (fds k))"

definition system_ok :: "'k system \<Rightarrow> ('k \<Rightarrow> int set) \<Rightarrow> bool" where
  "system_ok os fds =
     ((\<forall>d t p k. opens fds k (sys_socket os d t p k)) \<and> (\<forall>h k. opens fds k (sys_accept os h k)) \<and>
      (\<forall>h k. fds (sys_close os h k) = fds k - {h}) \<and>
      (\<forall>h l n v k. fds (snd (sys_setsockopt os h l n v k)) = fds k) \<and> (\<forall>h b n k. fds (snd (sys_bind os h b n k)) = fds k) \<and>
      (\<forall>h n k. fds (snd (sys_listen os h n k)) = fds k) \<and> (\<forall>h k. fst (sys_accept os h k) < 0 \<longrightarrow> errno os (snd (sys_accept os h k)) \<noteq> 0))"

lemma system_socket: "system_ok os fds \<Longrightarrow> sys_socket os d t p k = (h, k') \<Longrightarrow>
    (h < 0 \<longrightarrow> fds k' = fds k) \<and> (0 \<le> h \<longrightarrow> h \<notin> fds k \<and> fds k' = insert h (fds k))"
  unfolding system_ok_def opens_def by (metis fst_conv snd_conv not_less)

lemma system_accept: "system_ok os fds \<Longrightarrow> sys_accept os s k = (h, k') \<Longrightarrow>
    (h < 0 \<longrightarrow> fds k' = fds k \<and> errno os k' \<noteq> 0) \<and> (0 \<le> h \<longrightarrow> h \<notin> fds k \<and> fds k' = insert h (fds k))"
  unfolding system_ok_def opens_def by (metis fst_conv snd_conv not_less)

lemma system_rest:
  assumes "system_ok os fds"
  shows "sys_bind os h b n k = (rc, k') \<Longrightarrow> fds k' = fds k" "sys_listen os h m k = (rc, k') \<Longrightarrow> fds k' = fds k"
    "fds (acceptor_set_option os opt s k) = fds k" "fds (socket_dtor os s k) = (if s_fd s < 0 then fds k else fds k - {s_fd s})"
proof -
  have b: "fds (snd (sys_bind os h b n k)) = fds k" and l: "fds (snd (sys_listen os h m k)) = fds k" for h b n m k
    using assms by (simp_all add: system_ok_def)
  show "sys_bind os h b n k = (rc, k') \<Longrightarrow> fds k' = fds k" "sys_listen os h m k = (rc, k') \<Longrightarrow> fds k' = fds k"
    using b [of h b n k] l [of h m k] by simp_all
  show "fds (acceptor_set_option os opt s k) = fds k" "fds (socket_dtor os s k) = (if s_fd s < 0 then fds k else fds k - {s_fd s})"
    using assms by (simp_all add: system_ok_def acceptor_set_option_def socket_dtor_def)
qed

text \<open>An outcome of a constructor: a new socket that owns a descriptor, or an exception and nothing is left open.\<close>

definition owns_or_nothing :: "('k \<Rightarrow> int set) \<Rightarrow> 'k \<Rightarrow> (int + socket) \<times> 'k \<Rightarrow> bool" where
  "owns_or_nothing fds k r = (case r of (Inl e, k') \<Rightarrow> fds k' = fds k | (Inr s, k') \<Rightarrow> 0 \<le> s_fd s \<and> s_fd s \<notin> fds k \<and> fds k' = insert (s_fd s) (fds k))"

lemma acceptor_ctor_owns:
  assumes "system_ok os fds"
  shows "owns_or_nothing fds k (acceptor_ctor os proto k)"
  using system_socket [OF assms, of "p_family proto" "p_type proto" "p_protocol proto" k] system_rest(4) [OF assms]
  by (auto simp: owns_or_nothing_def acceptor_ctor_def socket_base_ctor_def socket_base_open_def socket_default_def Let_def
      split: prod.splits sum.splits if_splits)

text \<open>
  The constructor of an acceptor leaks nothing: either it returns an open socket that owns the one descriptor opened, or it throws and every descriptor is
  closed again, whichever of the four system calls failed.
\<close>

theorem acceptor_leaks_nothing:
  assumes "system_ok os fds"
  shows "owns_or_nothing fds k (acceptor_endpoint_ctor os little j storage proto ep reuse k)"
proof -
  obtain r k1 where 1: "acceptor_ctor os (proto (endpoint.d_protocol ep)) k = (r, k1)" by fastforce
  have o1: "owns_or_nothing fds k (r, k1)" using acceptor_ctor_owns [OF assms, of k "proto (endpoint.d_protocol ep)"] 1 by simp
  show ?thesis
  proof (cases r)
    case (Inl e)
    then show ?thesis using 1 o1 by (simp add: acceptor_endpoint_ctor_def)
  next
    case (Inr s)
    define k2 where "k2 = (if reuse then acceptor_set_option os (boolean_socket_option SO_REUSEADDR True) s k1 else k1)"
    obtain b k3 where 3: "acceptor_bind os little j storage ep s k2 = (b, k3)" by fastforce
    obtain l k4 where 4: "acceptor_listen os SOMAXCONN s k3 = (l, k4)" by fastforce
    have "fds k2 = fds k1" using system_rest(3) [OF assms] by (simp add: k2_def)
    moreover have "fds k3 = fds k2" using 3 system_rest(1) [OF assms] by (auto simp: acceptor_bind_def Let_def split: prod.splits if_splits)
    moreover have "fds k4 = fds k3" using 4 system_rest(2) [OF assms] by (auto simp: acceptor_listen_def Let_def split: prod.splits if_splits)
    moreover have "acceptor_endpoint_ctor os little j storage proto ep reuse k =
        (case b of Inl e \<Rightarrow> (Inl e, socket_dtor os s k3) | Inr _ \<Rightarrow> (case l of Inl e \<Rightarrow> (Inl e, socket_dtor os s k4) | Inr _ \<Rightarrow> (Inr s, k4)))"
      using 1 3 4 by (auto simp: acceptor_endpoint_ctor_def Inr k2_def Let_def split: sum.splits)
    ultimately show ?thesis using o1 system_rest(4) [OF assms] by (auto simp: owns_or_nothing_def Inr split: sum.splits)
  qed
qed

text \<open>A system with descriptors numbered as they are opened, on which every call but \<^verbatim>\<open>listen\<close> succeeds.\<close>

definition sample_system :: "(nat \<times> int set) system" where
  "sample_system = \<lparr>sys_socket = (\<lambda>_ _ _ (n, F). (int n, n + 1, insert (int n) F)), sys_setsockopt = (\<lambda>_ _ _ _ k. (0, k)), sys_bind = (\<lambda>_ _ _ k. (0, k)),
     sys_listen = (\<lambda>_ _ k. (-1, k)), sys_accept = (\<lambda>_ (n, F). (int n, n + 1, insert (int n) F)), sys_sendmsg = (\<lambda>_ _ _ k. (0, k)),
     sys_recvmsg = (\<lambda>_ _ _ k. (0, k)), sys_close = (\<lambda>h (n, F). (n, F - {h})), errno = (\<lambda>_. 98)\<rparr>"

definition sample_fds :: "nat \<times> int set \<Rightarrow> int set" where
  "sample_fds k = {h \<in> snd k. h < int (fst k)}"

lemma sample_system_ok: "system_ok sample_system sample_fds"
  by (auto simp: system_ok_def opens_def sample_system_def sample_fds_def)

theorem acceptor_leaks_nothing_witness:
  "\<exists>k. acceptor_endpoint_ctor sample_system True \<lparr>j_pad = replicate 8 0, j_flow = [], j_scope = []\<rparr> (replicate 128 0) tcp
     (endpoint_of_address (V4 v4_default) 80) True (3, {0, 1, 2}) = (Inl 98, k) \<and> sample_fds k = {0, 1, 2}"
proof -
  let ?r = "acceptor_endpoint_ctor sample_system True \<lparr>j_pad = replicate 8 0, j_flow = [], j_scope = []\<rparr> (replicate 128 0) tcp
     (endpoint_of_address (V4 v4_default) 80) True (3, {0, 1, 2})"
  have "fst ?r = Inl 98"
    by (simp add: acceptor_endpoint_ctor_def acceptor_ctor_def socket_base_ctor_def socket_base_open_def acceptor_bind_def acceptor_listen_def
        sample_system_def socket_dtor_def socket_default_def Let_def split: prod.splits)
  moreover have "owns_or_nothing sample_fds (3, {0, 1, 2}) ?r" by (rule acceptor_leaks_nothing [OF sample_system_ok])
  moreover have "sample_fds (3, {0, 1, 2}) = {0, 1, 2}" by (auto simp: sample_fds_def)
  ultimately show ?thesis by (cases ?r) (auto simp: owns_or_nothing_def)
qed

text \<open>Accepting a connection and the constructor of a datagram socket leak nothing either.\<close>

lemma accept_leaks_nothing:
  assumes "system_ok os fds" and "accept os s k = Some r"
  shows "owns_or_nothing fds k r"
  using assms(2) system_accept [OF assms(1), of "s_fd s" k] system_rest(4) [OF assms(1)]
  by (auto simp: accept_def accept_ec_def owns_or_nothing_def basic_socket_of_fd_def socket_default_def socket_dtor_def Let_def
      split: prod.splits if_splits bind_splits)

section \<open>The queue of operations that send\<close>

datatype sq_event = Enqueue addr | Complete addr

fun sq_step :: "addr \<Rightarrow> sq_event \<Rightarrow> send_queue \<Rightarrow> send_queue" where
  "sq_step h (Enqueue op) s = enqueue h op s"
| "sq_step h (Complete op) s = send_complete h op s"

text \<open>The specification: a list of operations; the first one is submitted.\<close>

fun spec_step :: "sq_event \<Rightarrow> addr list \<times> addr list \<Rightarrow> addr list \<times> addr list" where
  "spec_step (Enqueue x) (q, out) = (q @ [x], if q = [] then out @ [x] else out)"
| "spec_step (Complete x) (q, out) =
     (let q' = remove1 x q in (q', if x = hd q \<and> q' \<noteq> [] then out @ [hd q'] else out))"

text \<open>An operation is enqueued while it is not in the queue (nor the head node), and completes while it is.\<close>

fun sq_allowed :: "addr \<Rightarrow> sq_event list \<Rightarrow> addr list \<Rightarrow> bool" where
  "sq_allowed h [] q = True"
| "sq_allowed h (Enqueue x # es) q = (x \<noteq> h \<and> x \<notin> set q \<and> sq_allowed h es (q @ [x]))"
| "sq_allowed h (Complete x # es) q = (x \<in> set q \<and> sq_allowed h es (remove1 x q))"

fun enqueued :: "sq_event list \<Rightarrow> addr list" where
  "enqueued [] = []"
| "enqueued (Enqueue x # es) = x # enqueued es"
| "enqueued (Complete x # es) = enqueued es"

lemma subseq_keeps_distinct: "subseq xs ys \<Longrightarrow> distinct ys \<Longrightarrow> distinct xs"
  by (induction rule: list_emb.induct) (auto dest: list_emb_set)

lemma subseq_set: "subseq xs ys \<Longrightarrow> set xs \<subseteq> set ys"
  by (induction rule: list_emb.induct) auto

lemma ring_hd: "ring s h q \<Longrightarrow> q \<noteq> [] \<Longrightarrow> il_front h s = hd q"
  using ring_front [of s h "hd q" "tl q"] by simp

lemma step_refines:
  assumes r: "ring (d_send_queue s) h q" and a: "sq_allowed h [e] q"
  shows "case spec_step e (q, submitted s) of (q', out) \<Rightarrow> ring (d_send_queue (sq_step h e s)) h q' \<and> submitted (sq_step h e s) = out"
proof (cases e)
  case (Enqueue x)
  have p: "ring (il_push_back h x (d_send_queue s)) h (q @ [x])" using ring_push_back [OF r] a by (simp add: Enqueue)
  have "il_front h (il_push_back h x (d_send_queue s)) = hd (q @ [x])" using ring_hd [OF p] by simp
  moreover have "hd (q @ [x]) = x \<longleftrightarrow> q = []" using a by (cases q) (auto simp: Enqueue)
  ultimately show ?thesis using p by (auto simp: Enqueue enqueue_def op_submit_def Let_def)
next
  case (Complete x)
  then have "x \<in> set q" using a by simp
  then obtain xs ys where q: "q = xs @ x # ys" "x \<notin> set xs" by (meson split_list_first)
  have p: "ring (il_erase x (d_send_queue s)) h (remove1 x q)"
    using ring_erase [of "d_send_queue s" h xs x ys] r q by (simp add: remove1_append)
  have "il_front h (d_send_queue s) = hd q" using ring_hd [OF r] q by simp
  moreover have "il_empty h (il_erase x (d_send_queue s)) \<longleftrightarrow> remove1 x q = []" using ring_empty_iff [OF p] .
  ultimately show ?thesis using p ring_hd [OF p] by (auto simp: Complete send_complete_def op_submit_def Let_def)
qed

lemma run_refines:
  assumes "ring (d_send_queue s) h q" and "sq_allowed h es q"
  shows "case fold spec_step es (q, submitted s) of (q', out) \<Rightarrow>
    ring (d_send_queue (fold (sq_step h) es s)) h q' \<and> submitted (fold (sq_step h) es s) = out"
  using assms
proof (induction es arbitrary: s q)
  case (Cons e es)
  obtain q' out where s: "spec_step e (q, submitted s) = (q', out)" by fastforce
  have a: "sq_allowed h [e] q" "sq_allowed h es q'" using Cons.prems(2) s by (cases e; auto simp: Let_def)+
  have r: "ring (d_send_queue (sq_step h e s)) h q'" "submitted (sq_step h e s) = out" using step_refines [OF Cons.prems(1) a(1)] s by auto
  then show ?case using Cons.IH [OF r(1) a(2)] s by simp
qed simp

text \<open>
  The invariant: of what was enqueued so far, \<open>E1\<close> is not waiting any more; what was submitted is part of it, in order, and the last one submitted is
  the first in the queue; the others in the queue are part of the rest, in order.
\<close>

definition sq_inv :: "addr list \<Rightarrow> addr list \<Rightarrow> addr list \<Rightarrow> bool" where
  "sq_inv E q out = (\<exists>E1 E2. E = E1 @ E2 \<and> subseq out E1 \<and> subseq (tl q) E2 \<and> (q \<noteq> [] \<longrightarrow> out \<noteq> [] \<and> last out = hd q))"

lemma sq_inv_enqueue:
  assumes "sq_inv E q out"
  shows "sq_inv (E @ [x]) (q @ [x]) (if q = [] then out @ [x] else out)"
proof (cases "q = []")
  case True
  obtain E1 E2 where "E = E1 @ E2" "subseq out E1" using assms by (auto simp: sq_inv_def)
  then have "subseq out E" by (simp add: list_emb_prefix)
  then have "subseq (out @ [x]) (E @ [x])" by (simp add: list_emb_append_mono)
  then show ?thesis using True unfolding sq_inv_def by (intro exI [where x = "E @ [x]"] exI [where x = "[]"]) simp
next
  case False
  obtain E1 E2 where "E = E1 @ E2" "subseq out E1" "subseq (tl q) E2" "out \<noteq> []" "last out = hd q" using assms False by (auto simp: sq_inv_def)
  then show ?thesis using False unfolding sq_inv_def
    by (intro exI [where x = E1] exI [where x = "E2 @ [x]"]) (simp add: list_emb_append_mono)
qed

lemma sq_inv_complete:
  assumes "sq_inv E q out" and "x \<in> set q"
  shows "sq_inv E (remove1 x q) (if x = hd q \<and> remove1 x q \<noteq> [] then out @ [hd (remove1 x q)] else out)"
proof -
  obtain y ys where q: "q = y # ys" using assms(2) by (cases q) auto
  obtain E1 E2 where E: "E = E1 @ E2" "subseq out E1" "subseq ys E2" "out \<noteq> []" "last out = y" using assms(1) by (auto simp: sq_inv_def q)
  consider "x = y" "ys = []" | z zs where "x = y" "ys = z # zs" | "x \<noteq> y" by (cases ys) auto
  then show ?thesis
  proof cases
    case 1
    then show ?thesis using E unfolding sq_inv_def
      by (intro exI [where x = "E1 @ E2"] exI [where x = "[]"]) (simp add: q list_emb_prefix)
  next
    case 2
    obtain A B where "E2 = A @ z # B" "subseq zs B" using E(3) 2 list_emb_ConsD by fastforce
    moreover have "subseq (out @ [z]) ((E1 @ A) @ [z])" using E(2) by (intro list_emb_append_mono list_emb_prefix) simp_all
    ultimately show ?thesis using E(1) 2 unfolding sq_inv_def
      by (intro exI [where x = "E1 @ A @ [z]"] exI [where x = B]) (simp add: q)
  next
    case 3
    have "subseq (remove1 x ys) ys" by (induction ys) auto
    then have "subseq (remove1 x ys) E2" using E(3) subseq_order.order_trans by blast
    then show ?thesis using E 3 unfolding sq_inv_def by (intro exI [where x = E1] exI [where x = E2]) (simp add: q)
  qed
qed

lemma spec_inv:
  assumes "sq_allowed h es q" and "sq_inv E q out"
  shows "case fold spec_step es (q, out) of (q', out') \<Rightarrow> sq_inv (E @ enqueued es) q' out'"
  using assms
proof (induction es arbitrary: q out E)
  case (Cons e es)
  show ?case
  proof (cases e)
    case (Enqueue x)
    then show ?thesis using Cons.IH [of "q @ [x]" "E @ [x]"] sq_inv_enqueue [OF Cons.prems(2), of x] Cons.prems(1) by simp
  next
    case (Complete x)
    then show ?thesis using Cons.IH [of "remove1 x q" E] sq_inv_complete [OF Cons.prems(2), of x] Cons.prems(1) by (simp add: Let_def)
  qed
qed simp

definition send_queue_new :: "addr \<Rightarrow> links \<Rightarrow> send_queue" where
  "send_queue_new h ls = \<lparr>d_send_queue = il_new h ls, submitted = []\<rparr>"

text \<open>
  C34: the socket sends one operation at a time, in the order they were enqueued: after any sequence of enqueuing distinct operations and completing queued ones, in any
  order, the list links the operations \<open>q\<close> that are not complete; those submitted are, in order, among those enqueued, each once; and of those in the queue
  exactly the first one is submitted.
\<close>

theorem send_queue_one_at_a_time:
  assumes "sq_allowed h es []" and "distinct (enqueued es)"
  shows "\<exists>q. let s = fold (sq_step h) es (send_queue_new h ls) in
    ring (d_send_queue s) h q \<and> subseq (submitted s) (enqueued es) \<and> distinct (submitted s) \<and>
    set q \<inter> set (submitted s) = (case q of [] \<Rightarrow> {} | x # _ \<Rightarrow> {x})"
proof -
  let ?s = "fold (sq_step h) es (send_queue_new h ls)"
  obtain q out where f: "fold spec_step es ([], []) = (q, out)" by fastforce
  have r: "ring (d_send_queue ?s) h q" "submitted ?s = out"
    using run_refines [of "send_queue_new h ls" h "[]" es] assms(1) f by (auto simp: send_queue_new_def ring_new)
  have "sq_inv (enqueued es) q out" using spec_inv [OF assms(1), of "[]" "[]"] f by (simp add: sq_inv_def)
  then obtain E1 E2 where E: "enqueued es = E1 @ E2" "subseq out E1" "subseq (tl q) E2" "q \<noteq> [] \<longrightarrow> out \<noteq> [] \<and> last out = hd q"
    by (auto simp: sq_inv_def)
  have "subseq out (enqueued es)" using E(1,2) by (simp add: list_emb_prefix)
  moreover from this have "distinct out" using assms(2) subseq_keeps_distinct by blast
  moreover have "set (tl q) \<inter> set out = {}" using E(1) assms(2) subseq_set [OF E(2)] subseq_set [OF E(3)] by auto
  then have "set q \<inter> set out = (case q of [] \<Rightarrow> {} | x # _ \<Rightarrow> {x})" using E(4) by (cases q) auto
  ultimately show ?thesis using r by (auto simp: Let_def)
qed

theorem send_queue_one_at_a_time_witness:
  "\<exists>q. ring (d_send_queue (fold (sq_step 0) [Enqueue 1, Enqueue 2, Enqueue 3, Complete 2, Complete 1] (send_queue_new 0 \<lparr>d_next = id, d_prev = id\<rparr>))) 0 q \<and>
     subseq (submitted (fold (sq_step 0) [Enqueue 1, Enqueue 2, Enqueue 3, Complete 2, Complete 1] (send_queue_new 0 \<lparr>d_next = id, d_prev = id\<rparr>))) [1, 2, 3]"
  using send_queue_one_at_a_time [of 0 "[Enqueue 1, Enqueue 2, Enqueue 3, Complete 2, Complete 1]" "\<lparr>d_next = id, d_prev = id\<rparr>"] by (auto simp: Let_def)

section \<open>Synchronous operations\<close>

text \<open>The operations that block hand the system the same vector as the asynchronous ones.\<close>

lemma stream_iovec_get_iovec: "get_iovec bufs = Some (stream_iovec bufs)"
proof -
  have id: "\<lparr>iov_base = const_buffer_data b, iov_len = const_buffer_size b\<rparr> = b" for b
    by (simp add: const_buffer_data_def const_buffer_size_def)
  show ?thesis by (cases bufs) (simp_all add: stream_iovec_def id array_iovec_def vector_iovec_def array_iovec_transform_def map_nth)
qed

text \<open>Without an error code to fill, a failed call throws the error, another one returns the number of bytes.\<close>

lemma receive_result:
  assumes "sys_recvmsg os (s_fd s) (msg_of (stream_iovec bufs)) (sint flags) k = (rc, k')" and "rc < 0 \<longrightarrow> errno os k' \<noteq> 0"
  shows "receive_flags os s bufs flags k = (if rc < 0 then Inl (errno os k') else Inr (word_of_int rc), k')"
  using assms by (simp add: receive_flags_def throw_ec_def receive_flags_ec_def msg_of_def stream_iovec_def Let_def)

lemma send_result:
  assumes "sys_sendmsg os (s_fd s) (msg_of (stream_iovec bufs)) (sint flags) k = (rc, k')" and "rc < 0 \<longrightarrow> errno os k' \<noteq> 0"
  shows "send_flags os s bufs flags k = (if rc < 0 then Inl (errno os k') else Inr (word_of_int rc), k')"
  using assms by (simp add: send_flags_def throw_ec_def send_flags_ec_def msg_of_def stream_iovec_def Let_def)

lemma some_is_receive_send: "read_some os s bufs = receive_flags os s bufs 0" "write_some os s bufs = send_flags os s bufs 0"
  by (simp_all add: fun_eq_iff read_some_def read_some_ec_def receive_ec_def receive_flags_def write_some_def send_ec_def send_flags_def throw_ec_def Let_def)

text \<open>A failure to open is not reported by \<^verbatim>\<open>basic_socket\<close>; \<^verbatim>\<open>protocol()\<close> of the closed socket answers.\<close>

lemma open_failure_silent:
  assumes "sys_socket os (p_family p) (p_type p) (p_protocol p) k = (-1, k')"
  shows "basic_socket_ctor os p k = (\<lparr>s_fd = -1, s_flags = 0, s_protocol = Some p\<rparr>, k')"
  using assms by (simp add: basic_socket_ctor_def basic_socket_open_def socket_base_open_def socket_default_def socket_dtor_def)

text \<open>An endpoint made from the IPv6 protocol and a port has an IPv4 address, and the acceptor binds its IPv6 socket to that.\<close>

lemma endpoint_of_v6_binds_v4:
  "acceptor_bind os little j storage (endpoint_of_protocol protocol_v6 port) s =
   acceptor_bind os little j storage (endpoint_of_address (V4 v4_default) port) s"
  by (simp add: acceptor_bind_def endpoint_of_protocol_def endpoint_of_address_def address_default_def fun_eq_iff)

end
