(* ===== verification/Execution_Context.thy ===== *)
theory Execution_Context
  imports File_Context
begin

text \<open>
  \<^verbatim>\<open>execution_context\<close> of \<^verbatim>\<open>src/src/nstd/executor/execution_context.{hpp,cpp}\<close>: the registry of services, a vector of pointers indexed by a key that every type of service gets, for all
  contexts, when it is asked for first. The registry is shown to implement a map from types to services; destruction shuts the services down
  and deletes them in reverse order of their keys, if every key below the size of the vector has a service, and is undefined otherwise.
\<close>

section \<open>Model\<close>

text \<open>\<open>'t\<close> are the key types. The table of keys, the static variables of \<^verbatim>\<open>next_key\<close> and \<^verbatim>\<open>get_key\<close>, is shared by all contexts; \<open>calls\<close> are the calls of services' functions.\<close>

datatype fork_event = Prepare | Parent | Child

datatype service_call = Shutdown addr | Notify fork_event addr | Delete addr

record 't execution_context =
  key_count :: nat
  keys :: "'t \<rightharpoonup> nat"
  d_running :: bool
  d_services :: "addr option list"
  calls :: "service_call list"

definition context_new :: "nat \<Rightarrow> ('t \<rightharpoonup> nat) \<Rightarrow> 't execution_context" where
  "context_new n ks = \<lparr>key_count = n, keys = ks, d_running = True, d_services = [], calls = []\<rparr>"

definition get_key :: "'t \<Rightarrow> 't execution_context \<Rightarrow> nat \<times> 't execution_context" where
  "get_key t c =
     (case keys c t of
        Some k \<Rightarrow> (k, c)
      | None \<Rightarrow> (key_count c, c\<lparr>key_count := key_count c + 1, keys := (keys c)(t \<mapsto> key_count c)\<rparr>))"

definition intern_has_service :: "nat \<Rightarrow> 't execution_context \<Rightarrow> bool" where
  "intern_has_service index c = (index < length (d_services c) \<and> d_services c ! index \<noteq> None)"

text \<open>
  What the constructor of the service does: it makes an object, throws, or uses the services of the context it is given. The mutex is held, so the last does
  not return.
\<close>

datatype construction = Constructs addr | Ctor_throws | Uses_context

datatype service_error = Service_already_exists | Ctor_exception

definition intern_make_service :: "construction \<Rightarrow> nat \<Rightarrow> 't execution_context \<Rightarrow> ((service_error + addr) \<times> 't execution_context) run" where
  "intern_make_service ctor index c =
     (let c = (if length (d_services c) \<le> index then c\<lparr>d_services := d_services c @ replicate (index + 1 - length (d_services c)) None\<rparr> else c) in
      case ctor of
        Constructs a \<Rightarrow> Returns (Inr a, c\<lparr>d_services := (d_services c)[index := Some a]\<rparr>)
      | Ctor_throws \<Rightarrow> Returns (Inl Ctor_exception, c)
      | Uses_context \<Rightarrow> Hangs)"

definition has_service :: "'t \<Rightarrow> 't execution_context \<Rightarrow> bool \<times> 't execution_context" where
  "has_service t c = (let (index, c) = get_key t c in (intern_has_service index c, c))"

definition make_service :: "construction \<Rightarrow> 't \<Rightarrow> 't execution_context \<Rightarrow> ((service_error + addr) \<times> 't execution_context) run" where
  "make_service ctor t c =
     (let (index, c) = get_key t c in
      if intern_has_service index c then Returns (Inl Service_already_exists, c) else intern_make_service ctor index c)"

definition use_service :: "construction \<Rightarrow> 't \<Rightarrow> 't execution_context \<Rightarrow> ((service_error + addr) \<times> 't execution_context) run" where
  "use_service ctor t c =
     (let (index, c) = get_key t c in
      if intern_has_service index c then Returns (Inr (the (d_services c ! index)), c) else intern_make_service ctor index c)"

text \<open>The loops over the services; a call through a null pointer is undefined, deleting one does nothing.\<close>

fun for_each_service :: "(addr \<Rightarrow> service_call) \<Rightarrow> addr option list \<Rightarrow> 't execution_context \<Rightarrow> 't execution_context run" where
  "for_each_service f [] c = Returns c"
| "for_each_service f (None # svcs) c = Undefined"
| "for_each_service f (Some a # svcs) c = for_each_service f svcs (c\<lparr>calls := calls c @ [f a]\<rparr>)"

definition notify_fork :: "fork_event \<Rightarrow> 't execution_context \<Rightarrow> 't execution_context run" where
  "notify_fork ev c =
     (if ev = Prepare then for_each_service (Notify ev) (d_services c) c else for_each_service (Notify ev) (rev (d_services c)) c)"

definition shutdown :: "'t execution_context \<Rightarrow> 't execution_context run" where
  "shutdown c =
     (if d_running c then run_bind (for_each_service Shutdown (rev (d_services c)) c) (\<lambda>c. Returns (c\<lparr>d_running := False\<rparr>)) else Returns c)"

definition destroy :: "'t execution_context \<Rightarrow> 't execution_context" where
  "destroy c =
     (let c = c\<lparr>calls := calls c @ map Delete (List.map_filter (\<lambda>svc. svc) (rev (d_services c)))\<rparr> in c\<lparr>d_services := []\<rparr>)"

definition context_dtor :: "'t execution_context \<Rightarrow> 't execution_context run" where
  "context_dtor c = run_bind (shutdown c) (\<lambda>c. Returns (destroy c))"

section \<open>The registry\<close>

definition lookup :: "'a option list \<Rightarrow> nat \<Rightarrow> 'a option" where
  "lookup xs i = (if i < length xs then xs ! i else None)"

lemma lookup_update: "i < length xs \<Longrightarrow> lookup (xs[i := v]) j = (if j = i then v else lookup xs j)"
  by (simp add: lookup_def)

lemma lookup_resize: "lookup (xs @ replicate n None) j = lookup xs j"
  by (simp add: lookup_def nth_append)

definition service_at :: "'t execution_context \<Rightarrow> nat \<Rightarrow> addr option" where
  "service_at c i = lookup (d_services c) i"

text \<open>Every key is given to one type.\<close>

definition keys_ok :: "'t execution_context \<Rightarrow> bool" where
  "keys_ok c = (inj_on (keys c) (dom (keys c)) \<and> (\<forall>k \<in> ran (keys c). k < key_count c) \<and> (\<forall>i. service_at c i \<noteq> None \<longrightarrow> i \<in> ran (keys c)))"

text \<open>The service of a type.\<close>

definition registered :: "'t execution_context \<Rightarrow> 't \<Rightarrow> addr option" where
  "registered c t = (case keys c t of None \<Rightarrow> None | Some i \<Rightarrow> service_at c i)"

lemma intern_has_iff: "intern_has_service i c \<longleftrightarrow> service_at c i \<noteq> None"
  by (simp add: intern_has_service_def service_at_def lookup_def)

lemma get_key_props:
  assumes "keys_ok c" and "get_key t c = (k, c')"
  shows "keys_ok c'" "keys c' t = Some k" "registered c' = registered c" "d_services c' = d_services c" "d_running c' = d_running c" "calls c' = calls c"
proof -
  have i: "inj_on (keys c) (dom (keys c))" and b: "\<forall>k \<in> ran (keys c). k < key_count c"
    and s: "\<forall>i. service_at c i \<noteq> None \<longrightarrow> i \<in> ran (keys c)" using assms(1) by (auto simp: keys_ok_def)
  show rest: "d_services c' = d_services c" "d_running c' = d_running c" "calls c' = calls c" "keys c' t = Some k"
    using assms(2) by (auto simp: get_key_def split: option.splits)
  have "keys_ok c' \<and> registered c' = registered c"
  proof (cases "keys c t")
    case None
    then have c': "c' = c\<lparr>key_count := key_count c + 1, keys := (keys c)(t \<mapsto> key_count c)\<rparr>" using assms(2) by (auto simp: get_key_def)
    have new: "keys c u \<noteq> Some (key_count c)" for u using b by (auto simp: ran_def)
    have "inj_on ((keys c)(t \<mapsto> key_count c)) (insert t (dom (keys c)))"
      using i new None by (auto simp: inj_on_def dom_def split: if_splits)
    then have "keys_ok c'" using b s None by (auto simp: keys_ok_def c' less_Suc_eq service_at_def)
    have "service_at c (key_count c) = None" using s b by blast
    then have "registered c' = registered c" using None by (auto simp: fun_eq_iff registered_def c' service_at_def split: option.splits)
    with \<open>keys_ok c'\<close> show ?thesis by blast
  next
    case (Some k')
    then show ?thesis using assms by (simp add: get_key_def)
  qed
  then show "keys_ok c'" "registered c' = registered c" by simp_all
qed

lemma keys_ok_service: "keys_ok c \<Longrightarrow> keys c t = Some i \<Longrightarrow> keys c u = Some i \<Longrightarrow> t = u"
  unfolding keys_ok_def inj_on_def by (metis domI)

lemma intern_make_props:
  assumes "keys_ok c" and "keys c t = Some i" and "intern_make_service ctor i c = Returns (r, c')"
  shows "keys_ok c' \<and> registered c' = (case r of Inr a \<Rightarrow> (registered c)(t \<mapsto> a) | Inl _ \<Rightarrow> registered c) \<and> i < length (d_services c') \<and>
    r = (case ctor of Constructs a \<Rightarrow> Inr a | _ \<Rightarrow> Inl Ctor_exception)"
proof -
  define d where "d = (if length (d_services c) \<le> i then d_services c @ replicate (i + 1 - length (d_services c)) None else d_services c)"
  have len: "i < length d" by (simp add: d_def)
  have at: "lookup d j = service_at c j" for j by (simp add: d_def service_at_def lookup_resize)
  have s: "\<forall>j. service_at c j \<noteq> None \<longrightarrow> j \<in> ran (keys c)" using assms(1) by (simp add: keys_ok_def)
  have def': "intern_make_service ctor i c = (case ctor of Constructs a \<Rightarrow> Returns (Inr a, c\<lparr>d_services := d[i := Some a]\<rparr>)
      | Ctor_throws \<Rightarrow> Returns (Inl Ctor_exception, c\<lparr>d_services := d\<rparr>) | Uses_context \<Rightarrow> Hangs)"
    by (simp add: intern_make_service_def Let_def d_def split: construction.splits)
  have i: "i \<in> ran (keys c)" using assms(2) by (auto simp: ran_def)
  show ?thesis
  proof (cases ctor)
    case (Constructs a)
    then have c': "c' = c\<lparr>d_services := d[i := Some a]\<rparr>" "r = Inr a" using assms(3) def' by auto
    have sv: "service_at c' j = (if j = i then Some a else service_at c j)" for j using len at [of j] by (simp add: service_at_def c' lookup_update)
    have "keys_ok c'" using assms(1) s i by (simp add: keys_ok_def sv) (simp add: c')
    moreover have "registered c' u = ((registered c)(t \<mapsto> a)) u" for u
    proof (cases "u = t")
      case True
      then show ?thesis using assms(2) sv by (simp add: registered_def c'(1))
    next
      case False
      then have "keys c u \<noteq> Some i" using keys_ok_service [OF assms(1,2), of u] by blast
      then show ?thesis using False sv by (auto simp: registered_def c'(1) split: option.splits)
    qed
    ultimately show ?thesis using len Constructs by (auto simp: c' fun_eq_iff)
  next
    case Ctor_throws
    then have c': "c' = c\<lparr>d_services := d\<rparr>" "r = Inl Ctor_exception" using assms(3) def' by auto
    have sv: "service_at c' j = service_at c j" for j using at [of j] by (simp add: service_at_def c')
    have "keys_ok c'" using assms(1) s by (simp add: keys_ok_def sv) (simp add: c')
    moreover have "registered c' = registered c" using sv by (auto simp: fun_eq_iff registered_def c'(1) split: option.splits)
    ultimately show ?thesis using len Ctor_throws by (simp add: c')
  next
    case Uses_context
    then show ?thesis using assms(3) def' by simp
  qed
qed

text \<open>A history of one context: its operations, and requests of keys by other contexts.\<close>

datatype 't request_of = Has 't | Make construction 't | Use construction 't | Key_elsewhere 't

text \<open>The answers: whether there is a service, or which one or which error.\<close>

datatype answer = Found bool | Gave "service_error + addr" | Nothing

fun context_step :: "'t request_of \<Rightarrow> 't execution_context \<Rightarrow> (answer \<times> 't execution_context) run" where
  "context_step (Has t) c = (case has_service t c of (b, c) \<Rightarrow> Returns (Found b, c))"
| "context_step (Make ctor t) c = run_bind (make_service ctor t c) (\<lambda>(r, c). Returns (Gave r, c))"
| "context_step (Use ctor t) c = run_bind (use_service ctor t c) (\<lambda>(r, c). Returns (Gave r, c))"
| "context_step (Key_elsewhere t) c = Returns (Nothing, snd (get_key t c))"

fun context_run :: "'t request_of list \<Rightarrow> 't execution_context \<Rightarrow> (answer list \<times> 't execution_context) run" where
  "context_run [] c = Returns ([], c)"
| "context_run (r # rs) c = run_bind (context_step r c) (\<lambda>(a, c). run_bind (context_run rs c) (\<lambda>(as, c). Returns (a # as, c)))"

text \<open>The specification: a map from types to services.\<close>

fun made :: "construction \<Rightarrow> service_error + addr" where
  "made (Constructs a) = Inr a"
| "made _ = Inl Ctor_exception"

definition add_service :: "construction \<Rightarrow> 't \<Rightarrow> ('t \<rightharpoonup> addr) \<Rightarrow> answer \<times> ('t \<rightharpoonup> addr)" where
  "add_service ctor t m = (Gave (made ctor), case made ctor of Inr a \<Rightarrow> m(t \<mapsto> a) | Inl _ \<Rightarrow> m)"

fun spec_step :: "'t request_of \<Rightarrow> ('t \<rightharpoonup> addr) \<Rightarrow> answer \<times> ('t \<rightharpoonup> addr)" where
  "spec_step (Has t) m = (Found (m t \<noteq> None), m)"
| "spec_step (Make ctor t) m = (if m t \<noteq> None then (Gave (Inl Service_already_exists), m) else add_service ctor t m)"
| "spec_step (Use ctor t) m = (case m t of Some a \<Rightarrow> (Gave (Inr a), m) | None \<Rightarrow> add_service ctor t m)"
| "spec_step (Key_elsewhere t) m = (Nothing, m)"

fun spec_run :: "'t request_of list \<Rightarrow> ('t \<rightharpoonup> addr) \<Rightarrow> answer list \<times> ('t \<rightharpoonup> addr)" where
  "spec_run [] m = ([], m)"
| "spec_run (r # rs) m = (let (a, m) = spec_step r m; (as, m) = spec_run rs m in (a # as, m))"

lemma lookup_key:
  assumes "keys_ok c" and "get_key t c = (i, c')"
  shows "service_at c' i = registered c t"
proof -
  have "registered c' t = service_at c' i" using get_key_props(2) [OF assms] by (simp add: registered_def)
  then show ?thesis using get_key_props(3) [OF assms] by simp
qed

lemma make_refines:
  assumes ok: "keys_ok c" and k: "get_key t c = (i, c1)" and none: "registered c t = None" and r: "intern_make_service ctor i c1 = Returns (r, c')"
  shows "keys_ok c' \<and> (Gave r, registered c') = add_service ctor t (registered c)"
  using intern_make_props [OF get_key_props(1,2) [OF ok k] r] get_key_props(3) [OF ok k]
  by (cases ctor) (auto simp: add_service_def)

lemma context_step_refines:
  assumes ok: "keys_ok c" and s: "context_step r c = Returns (a, c')"
  shows "keys_ok c' \<and> spec_step r (registered c) = (a, registered c')"
proof -
  have key: "\<exists>i c1. get_key t c = (i, c1) \<and> keys_ok c1 \<and> registered c1 = registered c \<and> service_at c1 i = registered c t" for t
    using get_key_props(1,3) [OF ok] lookup_key [OF ok] by (metis surj_pair)
  show ?thesis
  proof (cases r)
    case (Has t)
    then show ?thesis using s key [of t] by (auto simp: has_service_def intern_has_iff)
  next
    case (Make ctor t)
    obtain i c1 where k: "get_key t c = (i, c1)" "keys_ok c1" "registered c1 = registered c" "service_at c1 i = registered c t" using key by blast
    show ?thesis
    proof (cases "registered c t")
      case None
      then show ?thesis using s k make_refines [OF ok k(1) None] by (auto simp: Make make_service_def intern_has_iff)
    next
      case (Some b)
      then show ?thesis using s k by (auto simp: Make make_service_def intern_has_iff)
    qed
  next
    case (Use ctor t)
    obtain i c1 where k: "get_key t c = (i, c1)" "keys_ok c1" "registered c1 = registered c" "service_at c1 i = registered c t" using key by blast
    show ?thesis
    proof (cases "registered c t")
      case None
      then show ?thesis using s k make_refines [OF ok k(1) None] by (auto simp: Use use_service_def intern_has_iff)
    next
      case (Some b)
      then have "d_services c1 ! i = Some b" using k(4) by (auto simp: service_at_def lookup_def split: if_splits)
      then show ?thesis using s k Some by (auto simp: Use use_service_def intern_has_iff)
    qed
  next
    case (Key_elsewhere t)
    then show ?thesis using s key [of t] by auto
  qed
qed

text \<open>
  C33: the registry implements a map from types of services to services: in every history of requests that returns, whatever keys other contexts ask for in between, the
  answers and the services registered in the end are those of the map; a second service of a type is refused, and a constructor that throws leaves no service.
\<close>

theorem registry_refines_map:
  fixes rs :: "'t request_of list"
  assumes "context_run rs (context_new n (\<lambda>_. None)) = Returns (as, c)"
  shows "spec_run rs (\<lambda>_. None) = (as, registered c)"
proof -
  have step: "spec_run rs (registered d) = (as, registered c)" if "keys_ok d" "context_run rs d = Returns (as, c)" for d as
    using that
  proof (induction rs arbitrary: d as)
    case (Cons r rs)
    obtain a d' as' where r: "context_step r d = Returns (a, d')" "context_run rs d' = Returns (as', c)" "as = a # as'"
      using Cons.prems(2) by (auto split: prod.splits)
    then show ?case using context_step_refines [OF Cons.prems(1) r(1)] Cons.IH [of d' as'] by simp
  qed simp
  have ok: "keys_ok (context_new n (\<lambda>_. None) :: 't execution_context)" by (simp add: keys_ok_def context_new_def service_at_def lookup_def)
  have "registered (context_new n (\<lambda>_. None) :: 't execution_context) = (\<lambda>_. None)" by (simp add: context_new_def registered_def fun_eq_iff)
  then show ?thesis using step [OF ok assms] by simp
qed

theorem registry_refines_map_witness:
  "\<exists>c. context_run [Key_elsewhere (1 :: nat), Make (Constructs 10) 2, Use (Constructs 11) 2, Make (Constructs 12) 2, Has 1] (context_new 0 (\<lambda>_. None)) =
      Returns ([Nothing, Gave (Inr 10), Gave (Inr 10), Gave (Inl Service_already_exists), Found False], c) \<and> registered c 2 = Some 10"
proof -
  let ?rs = "[Key_elsewhere (1 :: nat), Make (Constructs 10) 2, Use (Constructs 11) 2, Make (Constructs 12) 2, Has 1]"
  have "\<exists>as c. context_run ?rs (context_new 0 (\<lambda>_. None)) = Returns (as, c)"
    by (simp add: context_new_def get_key_def make_service_def use_service_def has_service_def intern_has_service_def intern_make_service_def)
  then obtain as c where c: "context_run ?rs (context_new 0 (\<lambda>_. None)) = Returns (as, c)" by blast
  have m: "spec_run ?rs (\<lambda>_. None) = ([Nothing, Gave (Inr 10), Gave (Inr 10), Gave (Inl Service_already_exists), Found False], [2 \<mapsto> 10])"
    by (simp add: add_service_def)
  have e: "as = [Nothing, Gave (Inr 10), Gave (Inr 10), Gave (Inl Service_already_exists), Found False] \<and> registered c = [2 \<mapsto> 10]"
    using registry_refines_map [OF c] unfolding m by simp
  then have "registered c 2 = Some 10" by simp
  then show ?thesis using c e by blast
qed

section \<open>Destruction\<close>

lemma for_each_services: "for_each_service f (map Some as) c = Returns (c\<lparr>calls := calls c @ map f as\<rparr>)"
  by (induction as arbitrary: c) simp_all

lemma map_filter_services: "List.map_filter (\<lambda>svc. svc) (map Some as) = as"
  by (induction as) (simp_all add: List.map_filter_simps)

lemma for_each_hole: "None \<in> set svcs \<Longrightarrow> for_each_service f svcs c = Undefined"
  by (induction f svcs c rule: for_each_service.induct) auto

lemma all_services: "None \<notin> set svcs \<Longrightarrow> \<exists>as. svcs = map Some as"
proof (induction svcs)
  case (Cons s svcs)
  then obtain a where "s = Some a" by (cases s) auto
  moreover obtain as where "svcs = map Some as" using Cons by auto
  ultimately show ?case by (intro exI [where x = "a # as"]) simp
qed simp

text \<open>
  C35: destroying a running context shuts every service down and then deletes every one, both in reverse order of the keys, if there is no null pointer in the vector; with a null
  pointer, which a type leaves there that has a smaller key and no service in this context, the behaviour is undefined.
\<close>

theorem context_destruction:
  assumes "d_running c"
  shows "(None \<in> set (d_services c) \<longrightarrow> context_dtor c = Undefined) \<and>
    (None \<notin> set (d_services c) \<longrightarrow> (\<exists>as. d_services c = map Some as \<and>
       context_dtor c = Returns (c\<lparr>d_running := False, calls := calls c @ map Shutdown (rev as) @ map Delete (rev as), d_services := []\<rparr>)))"
proof -
  have "context_dtor c = Returns (c\<lparr>d_running := False, calls := calls c @ map Shutdown (rev as) @ map Delete (rev as), d_services := []\<rparr>)"
    if "d_services c = map Some as" for as
    using assms that by (simp add: context_dtor_def shutdown_def destroy_def rev_map for_each_services map_filter_services)
  then show ?thesis
    using assms all_services [of "d_services c"] by (auto simp: context_dtor_def shutdown_def for_each_hole)
qed

theorem context_destruction_witness:
  "context_dtor \<lparr>key_count = 2, keys = [1 \<mapsto> 0, 2 \<mapsto> (1 :: nat)], d_running = True, d_services = [None, Some 10], calls = []\<rparr> = Undefined \<and>
   (\<exists>c. context_dtor \<lparr>key_count = 2, keys = [1 \<mapsto> 0, (2 :: nat) \<mapsto> 1], d_running = True, d_services = [Some 9, Some 10], calls = []\<rparr> = Returns c \<and>
     calls c = [Shutdown 10, Shutdown 9, Delete 10, Delete 9])"
  using context_destruction [of "\<lparr>key_count = 2, keys = [1 \<mapsto> 0, 2 \<mapsto> (1 :: nat)], d_running = True, d_services = [None, Some 10], calls = []\<rparr>"]
    context_destruction [of "\<lparr>key_count = 2, keys = [1 \<mapsto> 0, (2 :: nat) \<mapsto> 1], d_running = True, d_services = [Some 9, Some 10], calls = []\<rparr>"]
  by auto

text \<open>The null pointer comes from the order in which types are used anywhere in the program.\<close>

lemma second_key_first:
  "t \<noteq> u \<Longrightarrow> \<exists>c. context_run [Key_elsewhere t, Make (Constructs a) u] (context_new 0 (\<lambda>_. None)) = Returns ([Nothing, Gave (Inr a)], c) \<and> context_dtor c = Undefined"
  by (auto simp: context_new_def get_key_def make_service_def intern_has_service_def intern_make_service_def context_dtor_def shutdown_def for_each_hole)

end
