(* ===== verification/Tasks.thy ===== *)
theory Tasks
  imports Senders
begin

text \<open>
  \<^verbatim>\<open>task\<close> of \<^verbatim>\<open>src/src/nstd/execution/task.hpp\<close>, a coroutine that is a sender, and \<^verbatim>\<open>run\<close> of \<^verbatim>\<open>src/src/nstd/execution/run.hpp\<close>. The body of a coroutine is a parameter: a tree of what it does between two
  suspensions. Awaiting a sender connects it with a receiver that stores the values and resumes the coroutine; the other completions are assertions
  that fail. What a task delivers is shown to be what the body computes from the values of the senders it awaits.
\<close>

section \<open>Model\<close>

text \<open>
  A body returns, leaves by an exception, or awaits a sender. Then it goes on with the values, or with the exception that connecting the sender threw, which it may catch; on the way to
  the next suspension it may change the state of the program.
\<close>

datatype ('v, 't, 'e, 'w) coroutine =
    Co_return "'v cval list"
  | Co_throw 'v
  | Co_await "('v, 't, 'e, 'w) sender" "'v + 'v cval list \<Rightarrow> 'w \<Rightarrow> 'w \<times> ('v, 't, 'e, 'w) coroutine"

text \<open>\<^verbatim>\<open>awaitable::receiver\<close>: \<open>go_on\<close> resumes the coroutine with the stored values, \<open>no_env\<close> is the receiver's environment, which answers nothing.\<close>

definition await_receiver :: "'e \<Rightarrow> ('v cval list \<Rightarrow> 'w act) \<Rightarrow> ('v, 'e, 'w) receiver" where
  "await_receiver no_env go_on =
     \<lparr>complete = (\<lambda>c w. case ctag c of Set_Value \<Rightarrow> go_on (cargs c) w | Set_Error \<Rightarrow> None | Set_Stopped \<Rightarrow> None),
      get_env = no_env\<rparr>"

text \<open>\<^verbatim>\<open>await_suspend\<close>: an exception of the connect leaves it and reaches the body; \<open>go_on\<close> gets what \<^verbatim>\<open>await_resume\<close> returns.\<close>

definition await_suspend :: "'e \<Rightarrow> ('v, 't, 'e, 'w) sender \<Rightarrow> ('v + 'v cval list \<Rightarrow> 'w act) \<Rightarrow> 'w act" where
  "await_suspend no_env d_sender go_on w =
     (case connect d_sender (await_receiver no_env (\<lambda>vs. go_on (Inr vs))) of
        Connected start \<Rightarrow> start w
      | Connect_Throws x \<Rightarrow> go_on (Inl x) w
      | Connect_Terminates \<Rightarrow> None)"

definition then_act :: "'w \<times> 'w act \<Rightarrow> 'w option" where
  "then_act p = snd p (fst p)"

text \<open>
  Resuming the coroutine: \<open>return_value\<close> is \<^verbatim>\<open>promise_type::return_value\<close> or \<^verbatim>\<open>return_void\<close>, \<^verbatim>\<open>unhandled_exception\<close> terminates.
\<close>

primrec resume :: "'e \<Rightarrow> ('v cval list \<Rightarrow> 'w act) \<Rightarrow> ('v, 't, 'e, 'w) coroutine \<Rightarrow> 'w act" where
  "resume no_env return_value (Co_return vs) = return_value vs"
| "resume no_env return_value (Co_throw x) = (\<lambda>w. None)"
| "resume no_env return_value (Co_await s k) = await_suspend no_env s (\<lambda>x w. then_act (map_prod id (resume no_env return_value) (k x w)))"

text \<open>\<^verbatim>\<open>task_state\<close>: starting sets \<^verbatim>\<open>completion\<close>, through which \<^verbatim>\<open>complete\<close> is called, and resumes the coroutine, which is suspended initially.\<close>

definition task_complete :: "('v, 'e, 'w) receiver \<Rightarrow> 'v cval list \<Rightarrow> 'w act" where
  "task_complete d_receiver vs = complete d_receiver (Completion Set_Value vs)"

definition task_start :: "'e \<Rightarrow> ('v, 't, 'e, 'w) coroutine \<Rightarrow> ('v, 'f, 'w) receiver \<Rightarrow> 'w act" where
  "task_start no_env handle d_receiver = resume no_env (task_complete d_receiver) handle"

text \<open>The type of the result: \<open>[]\<close> for \<^verbatim>\<open>void\<close>.\<close>

definition task_signatures :: "'t ctype list \<Rightarrow> 't signatures" where
  "task_signatures ts = [Sig Set_Value ts, set_error_exception, set_stopped_sig]"

definition task :: "'e \<Rightarrow> 't ctype list \<Rightarrow> ('v, 't, 'e, 'w) coroutine \<Rightarrow> ('v, 't, 'f, 'w) sender" where
  "task no_env ts handle =
     \<lparr>connect = (\<lambda>r. Connected (task_start no_env handle r)), get_completion_signatures = (\<lambda>_. task_signatures ts)\<rparr>"

subsection \<open>run\<close>

text \<open>The receiver sets a flag, which is in the state at \<open>put\<close> and \<open>get\<close>; \<open>run_one\<close> is that of the context.\<close>

definition run_receiver :: "'e \<Rightarrow> ('w \<Rightarrow> 'w) \<Rightarrow> ('v, 'e, 'w) receiver" where
  "run_receiver no_env set_done = \<lparr>complete = (\<lambda>c w. Some (set_done w)), get_env = no_env\<rparr>"

definition run_sender :: "'e \<Rightarrow> ('w \<Rightarrow> bool) \<Rightarrow> ('w \<Rightarrow> 'w) \<Rightarrow> ('w \<Rightarrow> (nat \<times> 'w) option) \<Rightarrow> ('v, 't, 'e, 'w) sender \<Rightarrow> 'w \<Rightarrow> (bool \<times> 'w) option" where
  "run_sender no_env is_done set_done run_one s w =
     (case connect s (run_receiver no_env set_done) of
        Connected start \<Rightarrow>
          do {
            w \<leftarrow> start w;
            loop_while (\<lambda>(go, w). go) (\<lambda>(go, w). if is_done w then Some (False, w) else do { (n, w) \<leftarrow> run_one w; Some (n = 1, w) }) (True, w)
          }
      | _ \<Rightarrow> None)"

section \<open>What a task delivers\<close>

text \<open>The value of a body: it goes on with the values the awaited senders deliver.\<close>

inductive evaluates :: "'e \<Rightarrow> ('v, 't, 'e, 'w) coroutine \<Rightarrow> 'w \<Rightarrow> 'v cval list \<Rightarrow> 'w \<Rightarrow> bool" for no_env where
  ev_return: "evaluates no_env (Co_return vs) w vs w"
| ev_await: "delivers s no_env w (Completion Set_Value as) w1 \<Longrightarrow> k (Inr as) w1 = (w2, t) \<Longrightarrow> evaluates no_env t w2 vs w3 \<Longrightarrow>
    evaluates no_env (Co_await s k) w vs w3"
| ev_throws: "(\<And>r. get_env r = no_env \<Longrightarrow> connect s r = Connect_Throws x) \<Longrightarrow> k (Inl x) w = (w2, t) \<Longrightarrow> evaluates no_env t w2 vs w3 \<Longrightarrow>
    evaluates no_env (Co_await s k) w vs w3"

inductive_cases ev_returnE: "evaluates no_env (Co_return us) w vs w'"

lemma await_env [simp]: "get_env (await_receiver no_env f) = no_env"
  by (simp add: await_receiver_def)

lemma await_suspend_delivers:
  assumes "delivers s no_env w c w1"
  shows "await_suspend no_env s go_on w = (if ctag c = Set_Value then go_on (Inr (cargs c)) w1 else None)"
  using deliversD [OF assms, of "await_receiver no_env (\<lambda>vs. go_on (Inr vs))"]
  by (auto simp: await_suspend_def await_receiver_def split: tag.split)

lemma resume_evaluates: "evaluates no_env t w vs w' \<Longrightarrow> resume no_env ret t w = ret vs w'"
proof (induction rule: evaluates.induct)
  case (ev_await s w as w1 k w2 t vs w3)
  then show ?case by (simp add: await_suspend_delivers [OF ev_await.hyps(1)] then_act_def)
next
  case (ev_throws s x k w w2 t vs w3)
  then show ?case by (simp add: await_suspend_def then_act_def)
qed simp

text \<open>
  A task delivers what its body computes: if the body, given the values of the senders it awaits, in turn, returns \<open>vs\<close>, starting the task with any receiver
  completes that with the value \<open>vs\<close>, in the state the body comes to, and does nothing else.
\<close>

theorem task_delivers:
  assumes "evaluates no_env body w vs w'"
  shows "delivers (task no_env ts body) e w (Completion Set_Value vs) w'"
  by (rule deliversI) (simp add: task_def task_start_def task_complete_def resume_evaluates [OF assms])

text \<open>The body \<^verbatim>\<open>auto x = co_await just(7); auto y = co_await just(x); co_return y\<close>.\<close>

definition sample_body :: "(nat, nat, unit, nat list) coroutine" where
  "sample_body = Co_await (just (\<lambda>_. 0) [7]) (\<lambda>x w. (1 # w, Co_await (just (\<lambda>_. 0) [8]) (\<lambda>y w. (2 # w, Co_return (case x of Inr vs \<Rightarrow> vs | Inl _ \<Rightarrow> [])))))"

theorem task_delivers_witness: "delivers (task () [Type 0] sample_body) () [] (Completion Set_Value [Value 7]) [2, 1]"
proof (rule task_delivers)
  have j: "delivers (just (\<lambda>_ :: nat. 0 :: nat) [n]) () w (Completion Set_Value [Value n]) w" for n and w :: "nat list"
    using delivers_just [of "\<lambda>_. 0" Set_Value "[n]"] by (simp add: just_def)
  show "evaluates () sample_body [] [Value 7] [2, 1]"
    unfolding sample_body_def
    by (rule ev_await [OF j refl], rule ev_await [OF j refl], simp, rule ev_return)
qed

text \<open>
  A task never reports an error or a stop: the first awaited sender that completes with one makes the assertion of the receiver fail, although the task declares both
  completions and its body could handle them.
\<close>

inductive runs_into :: "'e \<Rightarrow> ('v, 't, 'e, 'w) coroutine \<Rightarrow> 'w \<Rightarrow> 'v completion \<Rightarrow> bool" for no_env where
  into_here: "delivers s no_env w c w1 \<Longrightarrow> ctag c \<noteq> Set_Value \<Longrightarrow> runs_into no_env (Co_await s k) w c"
| into_later: "delivers s no_env w (Completion Set_Value as) w1 \<Longrightarrow> k (Inr as) w1 = (w2, t) \<Longrightarrow> runs_into no_env t w2 c \<Longrightarrow>
    runs_into no_env (Co_await s k) w c"

theorem task_error_aborts:
  assumes "runs_into no_env body w c"
  shows "\<exists>start. connect (task no_env ts body) r = Connected start \<and> start w = None"
proof -
  have "resume no_env ret body w = None" for ret
    using assms
  proof (induction rule: runs_into.induct)
    case (into_here s w c w1 k)
    then show ?case by (simp add: await_suspend_delivers [OF into_here.hyps(1)])
  next
    case (into_later s w as w1 k w2 t c)
    then show ?case by (simp add: await_suspend_delivers [OF into_later.hyps(1)] then_act_def)
  qed
  then show ?thesis by (simp add: task_def task_start_def)
qed

theorem task_error_aborts_witness:
  "\<exists>start. connect (task () [Type 0] (Co_await (just_error (\<lambda>_ :: nat. 0 :: nat) 5) (\<lambda>x w. (w, Co_return [])))) (run_receiver () id) = Connected start \<and> start () = None"
proof (rule task_error_aborts)
  have "delivers (just_error (\<lambda>_ :: nat. 0 :: nat) 5) () () (Completion Set_Error [Value 5]) ()"
    using delivers_just [of "\<lambda>_. 0" Set_Error "[5]"] by (simp add: just_error_def)
  then show "runs_into () (Co_await (just_error (\<lambda>_ :: nat. 0 :: nat) 5) (\<lambda>x w. (w, Co_return []))) () (Completion Set_Error [Value 5])"
    by (rule into_here) simp
qed

section \<open>Signatures\<close>

text \<open>The body returns values of the types declared.\<close>

primrec body_typed :: "('v \<Rightarrow> 't) \<Rightarrow> 't ctype list \<Rightarrow> ('v, 't, 'e, 'w) coroutine \<Rightarrow> bool" where
  "body_typed ty ts (Co_return vs) = (map (cval_type ty) vs = ts)"
| "body_typed ty ts (Co_throw x) = True"
| "body_typed ty ts (Co_await s k) = (\<forall>x w. snd (map_prod id (body_typed ty ts) (k x w)))"

lemma resume_cong:
  assumes "\<And>vs. map (cval_type ty) vs = ts \<Longrightarrow> ret vs = ret' vs"
  shows "body_typed ty ts t \<Longrightarrow> resume no_env ret t = resume no_env ret' t"
proof (induction t)
  case (Co_return vs)
  then show ?case using assms by simp
next
  case (Co_await s k)
  have "then_act (map_prod id (resume no_env ret) (k x w)) = then_act (map_prod id (resume no_env ret') (k x w))" for x w
  proof -
    obtain w' u where k: "k x w = (w', u)" by fastforce
    have "(w', u) \<in> range (k x)" using k by (metis rangeI)
    moreover have "body_typed ty ts u" using Co_await.prems k by (metis body_typed.simps(3) map_prod_simp snd_conv)
    ultimately have "resume no_env ret u = resume no_env ret' u" using Co_await.IH [of "k x" "(w', u)" u] by simp
    then show ?thesis by (simp add: k then_act_def)
  qed
  then show ?case by simp
qed simp

text \<open>A task keeps to its signatures; with a body that returns what its type says, the only completion is that value.\<close>

theorem task_keeps_signatures:
  assumes "body_typed ty ts body"
  shows "keeps_signatures ty (task no_env ts body)"
  unfolding keeps_signatures_def
proof (intro allI impI, goal_cases)
  case a: (1 r r')
  have "task_complete r vs = task_complete r' vs" if "map (cval_type ty) vs = ts" for vs
    using agree_onD [OF a, of "Completion Set_Value vs"] that by (simp add: task_complete_def task_def task_signatures_def)
  then show ?case
    using resume_cong [of ty ts "task_complete r" "task_complete r'", OF _ assms] by (simp add: task_def task_start_def)
qed

theorem task_keeps_signatures_witness: "keeps_signatures (\<lambda>_. 0) (task () [Type 0] (Co_return [Value (3 :: nat)]) :: (nat, nat, unit, unit) sender)"
  by (rule task_keeps_signatures) simp

section \<open>run\<close>

text \<open>
  When \<^verbatim>\<open>run\<close> returns, the sender has completed or the context has nothing left to do; the code then destroys the operation state, in the second case while it may still be
  in use.
\<close>

lemma run_sender_returns:
  assumes "connect s (run_receiver no_env set_done) = Connected start" and "start w = Some w1"
    and "\<And>w. run_one w \<noteq> None" and "\<And>w n w'. run_one w = Some (n, w') \<Longrightarrow> n = 1 \<Longrightarrow> work w' < (work w :: nat)"
  shows "\<exists>w'. run_sender no_env is_done set_done run_one s w = Some (False, w')"
proof -
  let ?c = "\<lambda>(go, w). if is_done w then Some (False, w) else do { (n, w) \<leftarrow> run_one w; Some (n = 1, w) }"
  have "\<exists>r. loop_while (\<lambda>(go, w). go) ?c (True, w1) = Some r \<and> True \<and> \<not> (case r of (go, w) \<Rightarrow> go)"
  proof (rule loop_while_total [where m = "\<lambda>(go, w). if go then Suc (work w) else 0"], goal_cases)
    case (2 p)
    obtain w where p: "p = (True, w)" using 2 by (cases p) auto
    obtain n w' where "run_one w = Some (n, w')" using assms(3) [of w] by auto
    then show ?case using assms(4) [of w n w'] by (auto simp: p)
  qed simp
  then show ?thesis using assms(1,2) by (auto simp: run_sender_def)
qed

lemma run_sender_inline:
  assumes "delivers s no_env w c w1" and "is_done (set_done w1)"
  shows "run_sender no_env is_done set_done run_one s w = Some (False, set_done w1)"
proof -
  have "\<exists>start. connect s (run_receiver no_env set_done) = Connected start \<and> start w = Some (set_done w1)"
    using deliversD [OF assms(1), of "run_receiver no_env set_done"] by (simp add: run_receiver_def)
  then show ?thesis using assms(2) by (auto simp: run_sender_def loop_while_step [where s = "(True, set_done w1)"])
qed

end
