(* ===== verification/Ios_Base.thy ===== *)
theory Ios_Base
  imports Prelude "HOL-Library.Word" "HOL-Library.Monad_Syntax"
begin

unbundle bit_operations_syntax

text \<open>
  The base class of the streams, \<^verbatim>\<open>ios_base\<close> (\<^verbatim>\<open>cxxrt/ios_base.h\<close>, \<^verbatim>\<open>src/ios_base.cpp\<close>), and the
  associative container it keeps its extra words in (\<^verbatim>\<open>cxxrt/dkmap.h\<close>). The flags are the 32-bit masks
  of the source. The callbacks are nodes with a reference count in a heap that all stream objects
  share, because \<^verbatim>\<open>copyfmt\<close> makes two objects share a list. A world is this heap, the stream objects
  and the calls made so far; a callback is represented by its identity.

  The lemmas show the order the callbacks are called in and which nodes destroying an object frees,
  that \<^verbatim>\<open>copyfmt\<close> carries the words over unless source and target are one object, and what the setters
  of the flags do to the bits the library keeps for itself.
\<close>

section \<open>Flags\<close>

type_synonym fmtflags = "32 word"
type_synonym iostate = "32 word"

definition fl_oct :: fmtflags where "fl_oct = 0x0007"
definition fl_dec :: fmtflags where "fl_dec = 0x0009"
definition fl_hex :: fmtflags where "fl_hex = 0x000f"
definition fl_internal :: fmtflags where "fl_internal = 0x0010"
definition fl_left :: fmtflags where "fl_left = 0x0020"
definition fl_right :: fmtflags where "fl_right = 0x0040"
definition fl_showbase :: fmtflags where "fl_showbase = 0x0200"
definition fl_showpos :: fmtflags where "fl_showpos = 0x0800"
definition fl_skipws :: fmtflags where "fl_skipws = 0x1000"
definition fl_unitbuf :: fmtflags where "fl_unitbuf = 0x2000"
definition fl_uppercase :: fmtflags where "fl_uppercase = 0x4000"
definition fl_boolalpha :: fmtflags where "fl_boolalpha = 0x8000"
definition fl_adjustfield :: fmtflags where "fl_adjustfield = 0x0070"
definition fl_basefield :: fmtflags where "fl_basefield = 0x000f"
definition fl_os_good :: fmtflags where "fl_os_good = 0x100000"
definition fl_os_tie :: fmtflags where "fl_os_tie = 0x200000"
definition fl_os_check :: fmtflags where "fl_os_check = 0x302000"
definition fl_is_check :: fmtflags where "fl_is_check = 0x300000"
definition fl_fmtmask :: fmtflags where "fl_fmtmask = 0x00ffff"
definition fl_fmtall :: fmtflags where "fl_fmtall = 0xffffff"

lemmas flag_defs = fl_oct_def fl_dec_def fl_hex_def fl_internal_def fl_left_def fl_right_def
  fl_showbase_def fl_showpos_def fl_skipws_def fl_unitbuf_def fl_uppercase_def fl_boolalpha_def
  fl_adjustfield_def fl_basefield_def fl_os_good_def fl_os_tie_def fl_os_check_def fl_is_check_def
  fl_fmtmask_def fl_fmtall_def

definition goodbit :: iostate where "goodbit = 0x00"
definition badbit :: iostate where "badbit = 0x01"
definition eofbit :: iostate where "eofbit = 0x02"
definition failbit :: iostate where "failbit = 0x04"

lemmas state_bits = goodbit_def badbit_def eofbit_def failbit_def

text \<open>The complement of a mask flips the 24 bits of \<^verbatim>\<open>_CS_fmtall\<close>.\<close>

definition fl_not :: "fmtflags \<Rightarrow> fmtflags" where "fl_not m = fl_fmtall XOR m"

section \<open>The container of the extra words\<close>

fun map_find :: "'k \<Rightarrow> ('k \<times> 'v) list \<Rightarrow> 'v option" where
  "map_find k [] = None"
| "map_find k ((k', v) # xs) = (if k' = k then Some v else map_find k xs)"

fun map_assign :: "'k \<Rightarrow> 'v \<Rightarrow> ('k \<times> 'v) list \<Rightarrow> ('k \<times> 'v) list" where
  "map_assign k v [] = []"
| "map_assign k v ((k', v') # xs) = (if k' = k then (k', v) # xs else (k', v') # map_assign k v xs)"

text \<open>
  \<^verbatim>\<open>operator[]\<close> returns a reference: what it refers to, after the item was added in front if there
  was none. Assigning through the reference is \<open>map_assign\<close> on the result.
\<close>

definition map_index :: "'k \<Rightarrow> 'v \<Rightarrow> ('k \<times> 'v) list \<Rightarrow> 'v \<times> ('k \<times> 'v) list" where
  "map_index k dflt xs = (case map_find k xs of Some v \<Rightarrow> (v, xs) | None \<Rightarrow> (dflt, (k, dflt) # xs))"

definition map_put :: "'k \<Rightarrow> 'v \<Rightarrow> 'v \<Rightarrow> ('k \<times> 'v) list \<Rightarrow> ('k \<times> 'v) list" where
  "map_put k dflt v xs = map_assign k v (snd (map_index k dflt xs))"

definition map_clear :: "('k \<times> 'v) list \<Rightarrow> ('k \<times> 'v) list" where
  "map_clear xs = []"

lemma map_find_assign:
  "map_find j (map_assign k v xs) = (if j = k \<and> map_find k xs \<noteq> None then Some v else map_find j xs)"
  by (induction xs) (auto split: if_splits)

lemma map_find_put [simp]: "map_find j (map_put k dflt v xs) = (if j = k then Some v else map_find j xs)"
  by (auto simp: map_put_def map_index_def map_find_assign split: option.splits)

lemma map_index_finds: "map_find k (snd (map_index k dflt xs)) = Some (fst (map_index k dflt xs))"
  by (simp add: map_index_def split: option.splits)

section \<open>The object\<close>

record word_rec =
  wr_iword :: int
  wr_pword :: addr

definition word_rec0 :: word_rec where
  "word_rec0 = \<lparr>wr_iword = 0, wr_pword = 0\<rparr>"

record 'l iosb =
  ib_flags :: fmtflags
  ib_precision :: int
  ib_width :: int
  ib_loc :: 'l
  ib_list :: "addr option"
  ib_words :: "(int \<times> word_rec) list"

definition ios_base_new :: "'l \<Rightarrow> 'l iosb" where
  "ios_base_new loc = \<lparr>ib_flags = fl_dec OR fl_skipws, ib_precision = 6, ib_width = 0, ib_loc = loc,
     ib_list = None, ib_words = []\<rparr>"

definition flags_get :: "('l, 'z) iosb_scheme \<Rightarrow> fmtflags" where
  "flags_get s = ib_flags s AND fl_fmtmask"

definition setf :: "fmtflags \<Rightarrow> ('l, 'z) iosb_scheme \<Rightarrow> fmtflags \<times> ('l, 'z) iosb_scheme" where
  "setf f s = (ib_flags s AND fl_fmtmask, s\<lparr>ib_flags := ib_flags s OR f\<rparr>)"

definition setf_mask ::
  "fmtflags \<Rightarrow> fmtflags \<Rightarrow> ('l, 'z) iosb_scheme \<Rightarrow> fmtflags \<times> ('l, 'z) iosb_scheme" where
  "setf_mask f m s = (ib_flags s AND fl_fmtmask, s\<lparr>ib_flags := (ib_flags s AND fl_not m) OR (m AND f)\<rparr>)"

definition unsetf :: "fmtflags \<Rightarrow> ('l, 'z) iosb_scheme \<Rightarrow> fmtflags \<times> ('l, 'z) iosb_scheme" where
  "unsetf m s = (ib_flags s AND fl_fmtmask, s\<lparr>ib_flags := ib_flags s AND fl_not m\<rparr>)"

definition flags_set :: "fmtflags \<Rightarrow> ('l, 'z) iosb_scheme \<Rightarrow> fmtflags \<times> ('l, 'z) iosb_scheme" where
  "flags_set f s = (ib_flags s AND fl_fmtmask, s\<lparr>ib_flags := f\<rparr>)"

definition precision_set :: "int \<Rightarrow> ('l, 'z) iosb_scheme \<Rightarrow> int \<times> ('l, 'z) iosb_scheme" where
  "precision_set p s = (ib_precision s, s\<lparr>ib_precision := p\<rparr>)"

definition width_set :: "int \<Rightarrow> ('l, 'z) iosb_scheme \<Rightarrow> int \<times> ('l, 'z) iosb_scheme" where
  "width_set w s = (ib_width s, s\<lparr>ib_width := w\<rparr>)"

definition need_osentry :: "('l, 'z) iosb_scheme \<Rightarrow> bool" where
  "need_osentry s \<longleftrightarrow> ib_flags s AND fl_os_check \<noteq> 0"

definition need_isentry :: "('l, 'z) iosb_scheme \<Rightarrow> bool" where
  "need_isentry s \<longleftrightarrow> ib_flags s AND fl_is_check \<noteq> 0"

definition iword :: "int \<Rightarrow> ('l, 'z) iosb_scheme \<Rightarrow> int \<times> ('l, 'z) iosb_scheme" where
  "iword i s = (let (r, ws) = map_index i word_rec0 (ib_words s) in (wr_iword r, s\<lparr>ib_words := ws\<rparr>))"

definition pword :: "int \<Rightarrow> ('l, 'z) iosb_scheme \<Rightarrow> addr \<times> ('l, 'z) iosb_scheme" where
  "pword i s = (let (r, ws) = map_index i word_rec0 (ib_words s) in (wr_pword r, s\<lparr>ib_words := ws\<rparr>))"

subsection \<open>Manipulators\<close>

definition set_flag :: "fmtflags \<Rightarrow> ('l, 'z) iosb_scheme \<Rightarrow> ('l, 'z) iosb_scheme" where
  "set_flag f s = snd (setf f s)"

definition unset_flag :: "fmtflags \<Rightarrow> ('l, 'z) iosb_scheme \<Rightarrow> ('l, 'z) iosb_scheme" where
  "unset_flag f s = snd (unsetf f s)"

definition set_field :: "fmtflags \<Rightarrow> fmtflags \<Rightarrow> ('l, 'z) iosb_scheme \<Rightarrow> ('l, 'z) iosb_scheme" where
  "set_field f field s = snd (setf_mask f field s)"

section \<open>Callbacks\<close>

datatype event = Erase_event | Imbue_event | Copyfmt_event

record cb =
  cb_function :: nat
  cb_userdata :: int
  cb_refcount :: int
  cb_next :: "addr option"

record ('l, 'z) world =
  w_cbs :: "addr \<Rightarrow> cb option"
  w_objs :: "addr \<Rightarrow> ('l, 'z) iosb_scheme"
  w_calls :: "(nat \<times> event \<times> addr \<times> int) list"
  w_installed :: bool
  w_xalloc :: int

definition add_ref :: "int \<Rightarrow> addr \<Rightarrow> (addr \<Rightarrow> cb option) \<Rightarrow> (addr \<Rightarrow> cb option)" where
  "add_ref d p h = (case h p of Some c \<Rightarrow> h(p \<mapsto> c\<lparr>cb_refcount := cb_refcount c + d\<rparr>) | None \<Rightarrow> h)"

definition refs :: "(addr \<Rightarrow> cb option) \<Rightarrow> addr \<Rightarrow> int" where
  "refs h p = (case h p of Some c \<Rightarrow> cb_refcount c | None \<Rightarrow> 0)"

text \<open>The address of the new node is an argument of the constructor.\<close>

definition callback_new ::
  "addr \<Rightarrow> nat \<Rightarrow> int \<Rightarrow> addr option \<Rightarrow> (addr \<Rightarrow> cb option) \<Rightarrow> (addr \<Rightarrow> cb option)" where
  "callback_new a fn ud nxt h =
     (let h = h(a \<mapsto> \<lparr>cb_function = fn, cb_userdata = ud, cb_refcount = 1, cb_next = nxt\<rparr>)
      in case nxt of Some p \<Rightarrow> add_ref 1 p h | None \<Rightarrow> h)"

definition ib_register_callback ::
  "addr \<Rightarrow> addr \<Rightarrow> nat \<Rightarrow> int \<Rightarrow> ('l, 'z) world \<Rightarrow> ('l, 'z) world" where
  "ib_register_callback ob a fn ud w =
     w\<lparr>w_cbs := callback_new a fn ud (ib_list (w_objs w ob)) (w_cbs w),
       w_objs := (w_objs w)(ob := (w_objs w ob)\<lparr>ib_list := Some a\<rparr>), w_installed := True\<rparr>"

text \<open>
  Deleting a node runs its destructor, which may delete the next one, and frees it. A node that was
  freed before, or a list that never ends, is \<open>None\<close>.
\<close>

partial_function (option) delete_cb ::
  "addr \<Rightarrow> (addr \<Rightarrow> cb option) \<Rightarrow> (addr \<Rightarrow> cb option) option" where
  "delete_cb p h = (case h p of None \<Rightarrow> None | Some c \<Rightarrow>
     (case cb_next c of
        None \<Rightarrow> Some (h(p := None))
      | Some q \<Rightarrow>
          (let h = add_ref (- 1) q h in
           if refs h q = 0 then Option.bind (delete_cb q h) (\<lambda>h. Some (h(p := None)))
           else Some (h(p := None)))))"

definition release_list :: "addr option \<Rightarrow> (addr \<Rightarrow> cb option) \<Rightarrow> (addr \<Rightarrow> cb option) option" where
  "release_list lst h = (case lst of
     Some p \<Rightarrow> (let h = add_ref (- 1) p h in if refs h p = 0 then delete_cb p h else Some h)
   | None \<Rightarrow> Some h)"

definition call_real :: "addr \<Rightarrow> event \<Rightarrow> ('l, 'z) world \<Rightarrow> ('l, 'z) world option" where
  "call_real ob e w = map_option (\<lambda>(p, cs). w\<lparr>w_calls := w_calls w @ cs\<rparr>)
     (loop_while (\<lambda>(p, cs). p \<noteq> None)
       (\<lambda>(p, cs). Option.bind p (\<lambda>a. Option.bind (w_cbs w a)
          (\<lambda>c. Some (cb_next c, cs @ [(cb_function c, e, ob, cb_userdata c)]))))
       (ib_list (w_objs w ob), []))"

definition call_callbacks :: "addr \<Rightarrow> event \<Rightarrow> ('l, 'z) world \<Rightarrow> ('l, 'z) world option" where
  "call_callbacks ob e w = (if w_installed w then call_real ob e w else Some w)"

definition imbue :: "addr \<Rightarrow> 'l \<Rightarrow> ('l, 'z) world \<Rightarrow> ('l \<times> ('l, 'z) world) option" where
  "imbue ob l w = map_option (Pair (ib_loc (w_objs w ob)))
     (call_callbacks ob Imbue_event (w\<lparr>w_objs := (w_objs w)(ob := (w_objs w ob)\<lparr>ib_loc := l\<rparr>)\<rparr>))"

definition ios_base_dtor :: "addr \<Rightarrow> ('l, 'z) world \<Rightarrow> ('l, 'z) world option" where
  "ios_base_dtor ob w = do {
     w \<leftarrow> call_callbacks ob Erase_event w;
     if w_installed w
     then map_option (\<lambda>h. w\<lparr>w_cbs := h\<rparr>) (release_list (ib_list (w_objs w ob)) (w_cbs w))
     else Some w
   }"

definition xalloc :: "('l, 'z) world \<Rightarrow> int \<times> ('l, 'z) world" where
  "xalloc w = (w_xalloc w, w\<lparr>w_xalloc := w_xalloc w + 1\<rparr>)"

text \<open>
  \<^verbatim>\<open>_CS_copyfmt\<close> of the object \<open>ob\<close> from the object \<open>src\<close>. The words of the target are cleared before
  those of the source are read.
\<close>

definition copy_words :: "(int \<times> word_rec) list \<Rightarrow> (int \<times> word_rec) list \<Rightarrow> (int \<times> word_rec) list" where
  "copy_words from to = fold (\<lambda>(i, r). map_put i word_rec0 r) from to"

definition ib_copyfmt :: "addr \<Rightarrow> addr \<Rightarrow> ('l, 'z) world \<Rightarrow> ('l, 'z) world option" where
  "ib_copyfmt ob src w = do {
     let c = w_objs w src;
     let s = (w_objs w ob)\<lparr>ib_flags := ib_flags c, ib_precision := ib_precision c,
       ib_width := ib_width c, ib_loc := ib_loc c\<rparr>;
     let h = (case ib_list c of Some p \<Rightarrow> add_ref 1 p (w_cbs w) | None \<Rightarrow> w_cbs w);
     h \<leftarrow> release_list (ib_list s) h;
     let s = s\<lparr>ib_list := ib_list c, ib_words := map_clear (ib_words s)\<rparr>;
     let objs = (w_objs w)(ob := s);
     let s = s\<lparr>ib_words := copy_words (ib_words (objs src)) (ib_words s)\<rparr>;
     Some (w\<lparr>w_cbs := h, w_objs := objs(ob := s)\<rparr>)
   }"

section \<open>The words after a copy\<close>

lemma copy_words_find:
  assumes "distinct (map fst fr)"
  shows "map_find k (copy_words fr to) = (case map_find k fr of Some r \<Rightarrow> Some r | None \<Rightarrow> map_find k to)"
  using assms
proof (induction fr arbitrary: to)
  case Nil
  then show ?case by (simp add: copy_words_def)
next
  case (Cons e fr)
  obtain i r where e: "e = (i, r)" by (cases e)
  have nf: "map_find i fr = None"
  proof -
    have "i \<notin> fst ` set fr" using Cons.prems e by simp
    then show ?thesis by (induction fr) auto
  qed
  from Cons e nf show ?case by (auto simp: copy_words_def split: option.splits)
qed

lemma map_put_distinct: "distinct (map fst xs) \<Longrightarrow> distinct (map fst (map_put k d v xs))"
proof -
  have f: "map fst (map_assign k v xs) = map fst xs" for xs :: "('a \<times> 'b) list"
    by (induction xs) auto
  have "map_find k xs = None \<Longrightarrow> k \<notin> fst ` set xs" for xs :: "('a \<times> 'b) list"
    by (induction xs) (force split: if_splits)+
  then show "distinct (map fst xs) \<Longrightarrow> distinct (map fst (map_put k d v xs))"
    by (auto simp: map_put_def map_index_def f split: option.splits)
qed

section \<open>The list of callbacks of one object\<close>

text \<open>
  \<open>registered h p cs\<close>: the list at \<open>p\<close> holds the callbacks \<open>cs\<close>, given as address, function and user
  data, the one registered last first; every node but the first has a reference count of two.
\<close>

fun registered :: "(addr \<Rightarrow> cb option) \<Rightarrow> addr option \<Rightarrow> int \<Rightarrow> (addr \<times> nat \<times> int) list \<Rightarrow> bool" where
  "registered h p r [] \<longleftrightarrow> p = None"
| "registered h p r ((a, fn, ud) # cs) \<longleftrightarrow> p = Some a \<and>
     (\<exists>q. h a = Some \<lparr>cb_function = fn, cb_userdata = ud, cb_refcount = r, cb_next = q\<rparr> \<and> registered h q 2 cs)"

lemma registered_other:
  "a \<notin> fst ` set cs \<Longrightarrow> registered (h(a := c)) p r cs = registered h p r cs"
  by (induction cs arbitrary: p r) auto

lemma registered_add_ref:
  assumes "registered h (Some p) r cs" and "distinct (map fst cs)"
  shows "registered (add_ref d p h) (Some p) (r + d) cs"
  using assms by (cases cs) (auto simp: add_ref_def registered_other)

lemma registered_new:
  assumes "registered h p 1 cs" and "distinct (map fst cs)" and "a \<notin> fst ` set cs"
  shows "registered (callback_new a fn ud p h) (Some a) 1 ((a, fn, ud) # cs)"
proof (cases p)
  case None
  with assms show ?thesis by (cases cs) (auto simp: callback_new_def)
next
  case (Some q)
  let ?n = "\<lparr>cb_function = fn, cb_userdata = ud, cb_refcount = 1, cb_next = p\<rparr>"
  from assms(1,3) Some have "registered (h(a \<mapsto> ?n)) (Some q) 1 cs" by (simp add: registered_other)
  from registered_add_ref [OF this assms(2), of 1] have 1: "registered (add_ref 1 q (h(a \<mapsto> ?n))) (Some q) 2 cs"
    by simp
  have "q \<noteq> a" using assms(1,3) Some by (cases cs) auto
  then have "add_ref 1 q (h(a \<mapsto> ?n)) a = Some ?n" by (auto simp: add_ref_def split: option.splits)
  with 1 Some show ?thesis by (simp add: callback_new_def)
qed

lemma call_list:
  assumes "registered (w_cbs w) p r cs"
  shows "loop_while (\<lambda>(p, cs). p \<noteq> None)
       (\<lambda>(p, cs). Option.bind p (\<lambda>a. Option.bind (w_cbs w a)
          (\<lambda>c. Some (cb_next c, cs @ [(cb_function c, e, ob, cb_userdata c)])))) (p, log) =
     Some (None, log @ map (\<lambda>(a, fn, ud). (fn, e, ob, ud)) cs)"
  using assms
proof (induction cs arbitrary: p r log)
  case Nil
  then show ?case by simp
next
  case (Cons x cs)
  obtain a fn ud where x: "x = (a, fn, ud)" by (cases x)
  with Cons.prems obtain q where "p = Some a"
    "w_cbs w a = Some \<lparr>cb_function = fn, cb_userdata = ud, cb_refcount = r, cb_next = q\<rparr>"
    "registered (w_cbs w) q 2 cs" by auto
  with Cons.IH [of q 2] x show ?case by (subst loop_while_step) auto
qed

lemma delete_registered:
  assumes "registered h (Some a) 0 ((a, fn, ud) # cs)" and "distinct (a # map fst cs)"
  shows "\<exists>h'. delete_cb a h = Some h' \<and> h' a = None \<and>
    (\<forall>b. b \<noteq> a \<longrightarrow> (h' b = None) = (h b = None)) \<and> (\<exists>p. registered h' p 1 cs)"
proof -
  from assms(1) obtain q where
    q: "h a = Some \<lparr>cb_function = fn, cb_userdata = ud, cb_refcount = 0, cb_next = q\<rparr>" "registered h q 2 cs"
    by auto
  show ?thesis
  proof (cases q)
    case None
    with q assms(2) have "cs = []" by (cases cs) auto
    with q None show ?thesis by (subst delete_cb.simps) auto
  next
    case (Some p)
    then obtain fn' ud' q' cs' where cs: "cs = (p, fn', ud') # cs'"
      "h p = Some \<lparr>cb_function = fn', cb_userdata = ud', cb_refcount = 2, cb_next = q'\<rparr>"
      using q(2) by (cases cs) auto
    from registered_add_ref [of h p 2 cs "- 1"] q(2) Some assms(2)
    have r: "registered (add_ref (- 1) p h) (Some p) 1 cs" by auto
    have "refs (add_ref (- 1) p h) p = 1" using cs(2) by (simp add: refs_def add_ref_def)
    then have "delete_cb a h = Some ((add_ref (- 1) p h)(a := None))"
      using q(1) Some by (subst delete_cb.simps) simp
    moreover have "registered ((add_ref (- 1) p h)(a := None)) (Some p) 1 cs"
      using r assms(2) by (subst registered_other) auto
    moreover have "\<forall>b. (add_ref (- 1) p h b = None) = (h b = None)" by (simp add: add_ref_def split: option.splits)
    ultimately show ?thesis by auto
  qed
qed

lemma registered_live: "registered h p r cs \<Longrightarrow> x \<in> set cs \<Longrightarrow> h (fst x) \<noteq> None"
  by (induction cs arbitrary: p r) auto

text \<open>Registering several callbacks one after the other at the object \<open>ob\<close>.\<close>

definition register_all :: "addr \<Rightarrow> (addr \<times> nat \<times> int) list \<Rightarrow> ('l, 'z) world \<Rightarrow> ('l, 'z) world" where
  "register_all ob cs w = fold (\<lambda>(a, fn, ud). ib_register_callback ob a fn ud) cs w"

lemma register_all_result:
  assumes "registered (w_cbs w) (ib_list (w_objs w ob)) 1 ds" and "distinct (map fst ds @ map fst cs)"
  shows "registered (w_cbs (register_all ob cs w)) (ib_list (w_objs (register_all ob cs w) ob)) 1 (rev cs @ ds) \<and>
    w_calls (register_all ob cs w) = w_calls w \<and> (cs \<noteq> [] \<longrightarrow> w_installed (register_all ob cs w)) \<and>
    (\<forall>b. b \<notin> fst ` set cs \<longrightarrow> (w_cbs (register_all ob cs w) b = None) = (w_cbs w b = None))"
  using assms
proof (induction cs arbitrary: w ds)
  case Nil
  then show ?case by (simp add: register_all_def)
next
  case (Cons x cs)
  obtain a fn ud where x: "x = (a, fn, ud)" by (cases x)
  let ?w = "ib_register_callback ob a fn ud w"
  have "registered (w_cbs ?w) (ib_list (w_objs ?w ob)) 1 (x # ds)"
    using registered_new [OF Cons.prems(1), of a fn ud] Cons.prems(2) x
    by (auto simp: ib_register_callback_def)
  from Cons.IH [OF this] Cons.prems(2) have IH:
    "registered (w_cbs (register_all ob cs ?w)) (ib_list (w_objs (register_all ob cs ?w) ob)) 1 (rev cs @ x # ds)"
    "w_calls (register_all ob cs ?w) = w_calls ?w" "cs \<noteq> [] \<longrightarrow> w_installed (register_all ob cs ?w)"
    "\<forall>b. b \<notin> fst ` set cs \<longrightarrow> (w_cbs (register_all ob cs ?w) b = None) = (w_cbs ?w b = None)"
    by auto
  have eq: "register_all ob (x # cs) w = register_all ob cs ?w" using x by (simp add: register_all_def)
  have "w_installed ?w" "w_calls ?w = w_calls w" by (simp_all add: ib_register_callback_def)
  moreover have "\<forall>b. b \<noteq> a \<longrightarrow> (w_cbs ?w b = None) = (w_cbs w b = None)"
    by (auto simp: ib_register_callback_def callback_new_def add_ref_def Let_def split: option.splits)
  ultimately show ?case using IH x unfolding eq by (cases cs) (auto simp: register_all_def)
qed

lemma destroy_after_register:
  assumes fresh: "ib_list (w_objs w ob) = None" and "distinct (map fst cs)" and ne: "cs \<noteq> []"
    and new: "\<forall>x \<in> set cs. w_cbs w (fst x) = None"
  shows "\<exists>w'. ios_base_dtor ob (register_all ob cs w) = Some w' \<and>
    w_calls w' = w_calls w @ map (\<lambda>(a, fn, ud). (fn, Erase_event, ob, ud)) (rev cs) \<and>
    w_cbs w' (fst (last cs)) = None \<and> (\<forall>x \<in> set (butlast cs). w_cbs w' (fst x) \<noteq> None) \<and>
    (\<forall>b. b \<notin> fst ` set cs \<longrightarrow> (w_cbs w' b = None) = (w_cbs w b = None))"
proof -
  let ?w = "register_all ob cs w"
  from register_all_result [of w ob "[]" cs] assms have r:
    "registered (w_cbs ?w) (ib_list (w_objs ?w ob)) 1 (rev cs)" "w_calls ?w = w_calls w" "w_installed ?w"
    "\<forall>b. b \<notin> fst ` set cs \<longrightarrow> (w_cbs ?w b = None) = (w_cbs w b = None)" by auto
  let ?u = "?w\<lparr>w_calls := w_calls w @ map (\<lambda>(a, fn, ud). (fn, Erase_event, ob, ud)) (rev cs)\<rparr>"
  have call: "call_callbacks ob Erase_event ?w = Some ?u"
    using call_list [OF r(1), of Erase_event ob "[]"] r(2,3) by (simp add: call_callbacks_def call_real_def)
  obtain a fn ud rs where rc: "rev cs = (a, fn, ud) # rs" using ne by (cases "rev cs") auto
  then have cs: "cs = rev rs @ [(a, fn, ud)]" by (metis rev_rev_ident rev.simps(2))
  have lst: "ib_list (w_objs ?w ob) = Some a" using r(1) rc by simp
  have d: "distinct (a # map fst rs)" using assms(2) cs by (auto simp flip: rev_map)
  then have "distinct (map fst ((a, fn, ud) # rs))" by simp
  from registered_add_ref [OF _ this, of "w_cbs ?w" a 1 "- 1"] r(1) lst
  have z: "registered (add_ref (- 1) a (w_cbs ?w)) (Some a) 0 ((a, fn, ud) # rs)"
    unfolding rc lst by simp
  from delete_registered [OF z d] obtain h where
    h: "delete_cb a (add_ref (- 1) a (w_cbs ?w)) = Some h" "h a = None"
      "\<forall>b. b \<noteq> a \<longrightarrow> (h b = None) = (add_ref (- 1) a (w_cbs ?w) b = None)" "\<exists>p. registered h p 1 rs"
    by blast
  have live: "h (fst x) \<noteq> None" if "x \<in> set rs" for x
    using h(4) that by (blast dest: registered_live)
  have "refs (add_ref (- 1) a (w_cbs ?w)) a = 0" using z by (auto simp: refs_def)
  with h(1) lst have "release_list (ib_list (w_objs ?u ob)) (w_cbs ?u) = Some h"
    by (simp add: release_list_def)
  with call r(3) have "ios_base_dtor ob ?w = Some (?u\<lparr>w_cbs := h\<rparr>)"
    by (simp add: ios_base_dtor_def)
  moreover have "\<forall>b. b \<notin> fst ` set cs \<longrightarrow> (h b = None) = (w_cbs w b = None)"
    using h(3) r(4) cs by (auto simp: add_ref_def split: option.splits)
  ultimately show ?thesis using h(2) live cs by auto
qed

text \<open>
  C40: Callbacks registered at a new stream object are called when it is destroyed, each once and the
  one registered last first. Of their nodes only the one registered last is freed: registering a
  callback gives the previous head of the list a second reference that nothing gives back, so every
  callback but the last registered leaks its node.
\<close>

theorem callbacks_called_and_leaked:
  assumes "ib_list (w_objs w ob) = None" and "distinct (map fst cs)" and "cs \<noteq> []"
    and "\<forall>x \<in> set cs. w_cbs w (fst x) = None"
  shows "\<exists>w'. ios_base_dtor ob (register_all ob cs w) = Some w' \<and>
    w_calls w' = w_calls w @ map (\<lambda>(a, fn, ud). (fn, Erase_event, ob, ud)) (rev cs) \<and>
    w_cbs w' (fst (last cs)) = None \<and> (\<forall>x \<in> set (butlast cs). w_cbs w' (fst x) \<noteq> None)"
  using destroy_after_register [OF assms] by blast

definition w0 :: "(unit, unit) world" where
  "w0 = \<lparr>w_cbs = (\<lambda>_. None), w_objs = (\<lambda>_. ios_base_new ()), w_calls = [], w_installed = False,
     w_xalloc = 0\<rparr>"

theorem callbacks_called_and_leaked_witness:
  "\<exists>w'. ios_base_dtor 1 (register_all 1 [(10, 5, 7), (11, 6, 8)] w0) = Some w' \<and>
     w_calls w' = [(6, Erase_event, 1, 8), (5, Erase_event, 1, 7)] \<and>
     w_cbs w' 11 = None \<and> w_cbs w' 10 \<noteq> None"
  using callbacks_called_and_leaked [of w0 1 "[(10, 5, 7), (11, 6, 8)]"]
  by (simp add: w0_def ios_base_new_def)

section \<open>Copying the format\<close>

lemma copyfmt_words:
  assumes "ib_list (w_objs w ob) = None" and "ob \<noteq> src"
    and "distinct (map fst (ib_words (w_objs w src)))"
  shows "\<exists>w'. ib_copyfmt ob src w = Some w' \<and> ib_flags (w_objs w' ob) = ib_flags (w_objs w src) \<and>
    ib_width (w_objs w' ob) = ib_width (w_objs w src) \<and>
    ib_list (w_objs w' ob) = ib_list (w_objs w src) \<and> w_objs w' src = w_objs w src \<and>
    (\<forall>k. map_find k (ib_words (w_objs w' ob)) = map_find k (ib_words (w_objs w src)))"
  using assms copy_words_find [OF assms(3)]
  by (auto simp: ib_copyfmt_def release_list_def map_clear_def Let_def split: option.splits)

text \<open>Copying an object to itself loses its words: they are cleared before they are read.\<close>

lemma copyfmt_self_loses_words:
  assumes "ib_list (w_objs w ob) = None"
  shows "\<exists>w'. ib_copyfmt ob ob w = Some w' \<and> ib_words (w_objs w' ob) = []"
  using assms by (simp add: ib_copyfmt_def release_list_def map_clear_def copy_words_def Let_def)

section \<open>The bits of the library in the flags\<close>

text \<open>
  The setters that take a mask leave the bits the library keeps for itself alone when they are given
  format flags; the setter of all flags clears them.
\<close>

lemma fmt_keeps_internal:
  assumes "f AND fl_os_check = 0"
  shows "need_osentry (snd (setf f s)) = need_osentry s"
  using assms by (simp add: need_osentry_def setf_def bit.conj_disj_distrib2)

lemma flags_set_forgets:
  assumes "f AND fl_os_check = 0"
  shows "\<not> need_osentry (snd (flags_set f s))"
  using assms by (simp add: need_osentry_def flags_set_def)

lemma xalloc_fresh: "fst (xalloc (snd (xalloc w))) = fst (xalloc w) + 1"
  by (simp add: xalloc_def)

end
