(* ===== verification/Cxxrt_Algorithm.thy ===== *)
theory Cxxrt_Algorithm
  imports Prelude "HOL-Library.Multiset" "HOL-Library.Monad_Syntax"
begin

text \<open>
  The algorithms of the run-time library's own header \<^verbatim>\<open>cxxrt/algorithm.h\<close>: the quicksort the
  locale cache sorts its scan table with, and \<^verbatim>\<open>_CS_copy\<close>, \<^verbatim>\<open>_CS_find\<close> and \<^verbatim>\<open>_CS_fill_n\<close>. A
  range \<^verbatim>\<open>[b, e)\<close> is the array it lies in together with two indices. The operators of the element
  type are parameters, as in the template; the locale \<open>keyed_order\<close> states what the quicksort needs
  of them: \<^verbatim>\<open><\<close> and \<^verbatim>\<open>==\<close> compare a key. It then sorts, permutes and terminates for every range,
  repeated keys included. A step below the array is \<open>None\<close>.
\<close>

section \<open>The algorithms\<close>

subsection \<open>Partition\<close>

definition swap_at :: "nat \<Rightarrow> nat \<Rightarrow> 'a list \<Rightarrow> 'a list" where
  "swap_at b e xs = xs[b := xs ! e, e := xs ! b]"

definition lower_end :: "('a \<Rightarrow> 'a \<Rightarrow> bool) \<Rightarrow> 'a list \<Rightarrow> nat \<Rightarrow> nat \<Rightarrow> nat option" where
  "lower_end lt xs b = loop_while (\<lambda>e. lt (xs ! b) (xs ! e)) (\<lambda>e. if e = 0 then None else Some (e - 1))"

definition raise_begin :: "('a \<Rightarrow> 'a \<Rightarrow> bool) \<Rightarrow> 'a list \<Rightarrow> nat \<Rightarrow> nat \<Rightarrow> nat option" where
  "raise_begin lt xs b e =
     loop_while (\<lambda>b. lt (xs ! b) (xs ! e)) (\<lambda>b. if Suc b < length xs then Some (Suc b) else None) b"

definition partition_from_end ::
  "('a \<Rightarrow> 'a \<Rightarrow> bool) \<Rightarrow> ('a \<Rightarrow> 'a \<Rightarrow> bool) \<Rightarrow> 'a list \<times> nat \<times> nat \<Rightarrow> ('a list \<times> nat \<times> nat) option" where
  "partition_from_end lt eq = (\<lambda>(xs, b, e). do {
     e \<leftarrow> lower_end lt xs b e;
     Some (if b \<noteq> e then if eq (xs ! b) (xs ! e) then (xs, Suc b, e) else (swap_at b e xs, b, e)
           else (xs, b, e))
   })"

definition partition_from_begin ::
  "('a \<Rightarrow> 'a \<Rightarrow> bool) \<Rightarrow> ('a \<Rightarrow> 'a \<Rightarrow> bool) \<Rightarrow> 'a list \<times> nat \<times> nat \<Rightarrow> ('a list \<times> nat \<times> nat) option" where
  "partition_from_begin lt eq = (\<lambda>(xs, b, e). do {
     b \<leftarrow> raise_begin lt xs b e;
     Some (if b \<noteq> e then if eq (xs ! b) (xs ! e) then (xs, b, e - 1) else (swap_at b e xs, b, e)
           else (xs, b, e))
   })"

definition partition_turn ::
  "('a \<Rightarrow> 'a \<Rightarrow> bool) \<Rightarrow> ('a \<Rightarrow> 'a \<Rightarrow> bool) \<Rightarrow> 'a list \<times> nat \<times> nat \<Rightarrow> ('a list \<times> nat \<times> nat) option" where
  "partition_turn lt eq s = partition_from_end lt eq s \<bind> partition_from_begin lt eq"

definition partition_range ::
  "('a \<Rightarrow> 'a \<Rightarrow> bool) \<Rightarrow> ('a \<Rightarrow> 'a \<Rightarrow> bool) \<Rightarrow> 'a list \<Rightarrow> nat \<Rightarrow> nat \<Rightarrow> ('a list \<times> nat) option" where
  "partition_range lt eq xs b e =
     map_option (\<lambda>(xs, b, e). (xs, b))
       (loop_while (\<lambda>(xs, b, e). b < e) (partition_turn lt eq) (xs, b, e - 1))"

subsection \<open>Quicksort\<close>

partial_function (option) quicksort ::
  "('a \<Rightarrow> 'a \<Rightarrow> bool) \<Rightarrow> ('a \<Rightarrow> 'a \<Rightarrow> bool) \<Rightarrow> 'a list \<Rightarrow> nat \<Rightarrow> nat \<Rightarrow> 'a list option" where
  "quicksort lt eq xs b e =
     (if b \<noteq> e then do {
        (xs, mid) \<leftarrow> partition_range lt eq xs b e;
        xs \<leftarrow> quicksort lt eq xs b mid;
        quicksort lt eq xs (Suc mid) e
      } else Some xs)"

subsection \<open>Copy, find and fill\<close>

text \<open>
  A source range is the list of the values it goes through; the destination is an array and the
  index the output iterator stands at.
\<close>

fun copy_to :: "'a list \<Rightarrow> nat \<Rightarrow> 'a list \<Rightarrow> 'a list \<times> nat" where
  "copy_to [] d ds = (ds, d)"
| "copy_to (x # xs) d ds = copy_to xs (Suc d) (ds[d := x])"

function find_from :: "'a list \<Rightarrow> nat \<Rightarrow> nat \<Rightarrow> 'a \<Rightarrow> nat" where
  "find_from xs b e v = (if b < e \<and> xs ! b \<noteq> v then find_from xs (Suc b) e v else b)"
  by pat_completeness auto
termination by (relation "measure (\<lambda>(xs, b, e, v). e - b)") auto

function fill_range :: "nat \<Rightarrow> nat \<Rightarrow> 'a \<Rightarrow> 'a list \<Rightarrow> 'a list \<times> nat" where
  "fill_range b e v xs = (if b < e then fill_range (Suc b) e v (xs[b := v]) else (xs, b))"
  by pat_completeness auto
termination by (relation "measure (\<lambda>(b, e, v, xs). e - b)") auto

declare find_from.simps [simp del] fill_range.simps [simp del]

section \<open>Permuting a range\<close>

definition permutes_range :: "nat \<Rightarrow> nat \<Rightarrow> 'a list \<Rightarrow> 'a list \<Rightarrow> bool" where
  "permutes_range b e xs ys \<longleftrightarrow> length ys = length xs \<and> mset ys = mset xs \<and>
     take b ys = take b xs \<and> drop e ys = drop e xs"

lemma permutes_range_refl [simp]: "permutes_range b e xs xs"
  by (simp add: permutes_range_def)

lemma permutes_range_trans [trans]:
  "permutes_range b e xs ys \<Longrightarrow> permutes_range b e ys zs \<Longrightarrow> permutes_range b e xs zs"
  by (simp add: permutes_range_def)

lemma permutes_range_length: "permutes_range b e xs ys \<Longrightarrow> length ys = length xs"
  by (simp add: permutes_range_def)

lemma permutes_range_outside:
  assumes "permutes_range b e xs ys" and "i < b \<or> e \<le> i" and "i < length xs"
  shows "ys ! i = xs ! i"
proof -
  from assms(1) have p: "length ys = length xs" "take b ys = take b xs" "drop e ys = drop e xs"
    by (simp_all add: permutes_range_def)
  show ?thesis
  proof (cases "i < b")
    case True
    with p(2) show ?thesis by (metis nth_take)
  next
    case False
    with assms(2) have "e \<le> i" by simp
    with p assms(3) show ?thesis by (metis le_add_diff_inverse nth_drop order_trans less_imp_le)
  qed
qed

lemma permutes_range_swap:
  assumes "b \<le> i" "i < e" "b \<le> j" "j < e" "e \<le> length xs"
  shows "permutes_range b e xs (swap_at i j xs)"
  using assms mset_swap [of j xs i] by (simp add: permutes_range_def swap_at_def)

lemma permutes_range_mono:
  assumes "permutes_range b e xs ys" and "b' \<le> b" and "e \<le> e'"
  shows "permutes_range b' e' xs ys"
proof -
  from assms have "take b' ys = take b' xs" by (metis permutes_range_def take_take min.absorb1)
  moreover from assms have "drop e' ys = drop e' xs"
    by (metis permutes_range_def drop_drop le_add_diff_inverse2)
  ultimately show ?thesis using assms by (simp add: permutes_range_def)
qed

lemma slice_split: "b \<le> e \<Longrightarrow> xs = take b xs @ take (e - b) (drop b xs) @ drop e xs"
  by (metis append_take_drop_id drop_drop le_add_diff_inverse2)

lemma permutes_range_slice:
  assumes "permutes_range b e xs ys" and "b \<le> e"
  shows "mset (take (e - b) (drop b ys)) = mset (take (e - b) (drop b xs))"
proof -
  from assms(1) have p: "mset ys = mset xs" "take b ys = take b xs" "drop e ys = drop e xs"
    by (simp_all add: permutes_range_def)
  have "mset (take b ys @ take (e - b) (drop b ys) @ drop e ys) =
      mset (take b xs @ take (e - b) (drop b xs) @ drop e xs)"
    using p(1) assms(2) by (metis slice_split)
  with p(2,3) show ?thesis by simp
qed

lemma set_slice: "e \<le> length xs \<Longrightarrow> set (take (e - b) (drop b xs)) = {xs ! i |i. b \<le> i \<and> i < e}"
proof (intro equalityI subsetI)
  fix x assume le: "e \<le> length xs" and "x \<in> set (take (e - b) (drop b xs))"
  then obtain j where "j < length (take (e - b) (drop b xs))" "x = take (e - b) (drop b xs) ! j"
    by (metis in_set_conv_nth)
  with le have "x = xs ! (b + j)" "b + j < e" by auto
  then show "x \<in> {xs ! i |i. b \<le> i \<and> i < e}" by (auto intro!: exI [of _ "b + j"])
next
  fix x assume "e \<le> length xs" and "x \<in> {xs ! i |i. b \<le> i \<and> i < e}"
  then obtain i where i: "x = xs ! i" "b \<le> i" "i < e" "e \<le> length xs" by auto
  then have "take (e - b) (drop b xs) ! (i - b) = x" "i - b < length (take (e - b) (drop b xs))"
    by auto
  then show "x \<in> set (take (e - b) (drop b xs))" by (metis nth_mem)
qed

lemma permutes_range_all:
  assumes "permutes_range b e xs ys" and "e \<le> length xs"
    and "\<And>i. b \<le> i \<Longrightarrow> i < e \<Longrightarrow> P (xs ! i)" and "b \<le> i" and "i < e"
  shows "P (ys ! i)"
proof -
  from assms(4,5) have "b \<le> e" by simp
  from permutes_range_slice [OF assms(1) this]
  have "set (take (e - b) (drop b ys)) = set (take (e - b) (drop b xs))"
    by (metis set_mset_mset)
  with assms(1,2) have "{ys ! i |i. b \<le> i \<and> i < e} = {xs ! i |i. b \<le> i \<and> i < e}"
    by (simp add: set_slice permutes_range_length)
  with assms(4,5) have "ys ! i \<in> {xs ! i |i. b \<le> i \<and> i < e}" by blast
  with assms(3) show ?thesis by auto
qed

lemma swap_at_nth:
  "i < length xs \<Longrightarrow> j < length xs \<Longrightarrow>
   swap_at i j xs ! k = (if k = j then xs ! i else if k = i then xs ! j else xs ! k)"
  by (auto simp: swap_at_def nth_list_update)

text \<open>
  Around the indices \<open>b\<close> and \<open>e\<close> the range \<open>[lo, hi)\<close> is partitioned: what lies left of \<open>b\<close> is not
  above the pivot's key, what lies right of \<open>e\<close> not below it. The pivot stands at \<open>p\<close>.
\<close>

definition parted ::
  "('a \<Rightarrow> 'k :: linorder) \<Rightarrow> 'a list \<Rightarrow> nat \<Rightarrow> nat \<Rightarrow> 'k \<Rightarrow> nat \<Rightarrow> 'a list \<Rightarrow> nat \<Rightarrow> nat \<Rightarrow> bool" where
  "parted key zs lo hi pv p xs b e \<longleftrightarrow> permutes_range lo hi zs xs \<and> hi \<le> length xs \<and>
     lo \<le> b \<and> b \<le> e \<and> e < hi \<and> key (xs ! p) = pv \<and>
     (\<forall>i. lo \<le> i \<and> i < b \<longrightarrow> key (xs ! i) \<le> pv) \<and> (\<forall>i. e < i \<and> i < hi \<longrightarrow> pv \<le> key (xs ! i))"

section \<open>What the element type promises, and what the quicksort then does\<close>

locale keyed_order =
  fixes lt :: "'a \<Rightarrow> 'a \<Rightarrow> bool" and eq :: "'a \<Rightarrow> 'a \<Rightarrow> bool" and key :: "'a \<Rightarrow> 'k :: linorder"
  assumes lt_key: "lt x y \<longleftrightarrow> key x < key y"
    and eq_key: "eq x y \<longleftrightarrow> key x = key y"
begin

lemma lower_end_stops:
  assumes "b \<le> e" and "e < length xs"
  shows "\<exists>e'. lower_end lt xs b e = Some e' \<and> b \<le> e' \<and> e' \<le> e \<and> key (xs ! e') \<le> key (xs ! b) \<and>
    (\<forall>i. e' < i \<and> i \<le> e \<longrightarrow> key (xs ! b) < key (xs ! i))"
proof -
  let ?I = "\<lambda>e'. b \<le> e' \<and> e' \<le> e \<and> (\<forall>i. e' < i \<and> i \<le> e \<longrightarrow> key (xs ! b) < key (xs ! i))"
  have "\<exists>e'. lower_end lt xs b e = Some e' \<and> ?I e' \<and> \<not> lt (xs ! b) (xs ! e')"
    unfolding lower_end_def
  proof (rule loop_while_total [where m = id])
    fix s assume I: "?I s" and lt: "lt (xs ! b) (xs ! s)"
    then have "s \<noteq> b" by (auto simp: lt_key)
    with I have s: "s \<noteq> 0" "b \<le> s - 1" by auto
    have "\<forall>i. s - 1 < i \<and> i \<le> e \<longrightarrow> key (xs ! b) < key (xs ! i)"
    proof (intro allI impI)
      fix i assume "s - 1 < i \<and> i \<le> e"
      with I lt show "key (xs ! b) < key (xs ! i)" by (cases "i = s") (auto simp: lt_key)
    qed
    with I s show "\<exists>s'. (if s = 0 then None else Some (s - 1)) = Some s' \<and> ?I s' \<and> id s' < id s"
      by auto
  qed (use assms in auto)
  then show ?thesis by (auto simp: lt_key not_less)
qed

lemma raise_begin_stops:
  assumes "b \<le> e" and "e < length xs"
  shows "\<exists>b'. raise_begin lt xs b e = Some b' \<and> b \<le> b' \<and> b' \<le> e \<and> key (xs ! e) \<le> key (xs ! b') \<and>
    (\<forall>i. b \<le> i \<and> i < b' \<longrightarrow> key (xs ! i) < key (xs ! e))"
proof -
  let ?I = "\<lambda>b'. b \<le> b' \<and> b' \<le> e \<and> (\<forall>i. b \<le> i \<and> i < b' \<longrightarrow> key (xs ! i) < key (xs ! e))"
  have "\<exists>b'. raise_begin lt xs b e = Some b' \<and> ?I b' \<and> \<not> lt (xs ! b') (xs ! e)"
    unfolding raise_begin_def
  proof (rule loop_while_total [where m = "\<lambda>b'. e - b'"])
    fix s assume I: "?I s" and lt: "lt (xs ! s) (xs ! e)"
    then have "s \<noteq> e" by (auto simp: lt_key)
    with I lt have "?I (Suc s)" by (auto simp: lt_key less_Suc_eq)
    moreover from I \<open>s \<noteq> e\<close> assms have "Suc s < length xs" "s < e" by auto
    ultimately show "\<exists>s'. (if Suc s < length xs then Some (Suc s) else None) = Some s' \<and> ?I s' \<and>
        e - s' < e - s"
      by auto
  qed (use assms in auto)
  then show ?thesis by (auto simp: lt_key not_less)
qed

lemma from_end_parts:
  assumes p: "parted key zs lo hi pv b xs b e" and be: "b < e"
  shows "\<exists>ys b' e'. partition_from_end lt eq (xs, b, e) = Some (ys, b', e') \<and>
    parted key zs lo hi pv e' ys b' e' \<and>
    (e' - b' < e - b \<or> e' - b' = e - b \<and> key (ys ! b') < pv)"
proof -
  note P = p [unfolded parted_def]
  from P be have len: "b \<le> e" "e < length xs" and pv: "key (xs ! b) = pv" by auto
  from lower_end_stops [OF len] obtain e' where
    e': "lower_end lt xs b e = Some e'" "b \<le> e'" "e' \<le> e" "key (xs ! e') \<le> pv"
      "\<And>i. e' < i \<Longrightarrow> i \<le> e \<Longrightarrow> pv < key (xs ! i)"
    using P by auto
  have above: "\<forall>i. e' < i \<and> i < hi \<longrightarrow> pv \<le> key (xs ! i)"
    using e'(5) P by (metis less_imp_le not_le)
  consider "b = e'" | "b < e'" "key (xs ! e') = pv" | "b < e'" "key (xs ! e') < pv"
    using e'(2,4) by fastforce
  then show ?thesis
  proof cases
    case 1
    with e' above P be have "parted key zs lo hi pv e' xs b e'" by (auto simp: parted_def)
    moreover have "partition_from_end lt eq (xs, b, e) = Some (xs, b, e')"
      using e'(1) 1 by (simp add: partition_from_end_def)
    ultimately show ?thesis using 1 be by auto
  next
    case 2
    with e' above P have "parted key zs lo hi pv e' xs (Suc b) e'"
      by (auto simp: parted_def less_Suc_eq)
    moreover have "partition_from_end lt eq (xs, b, e) = Some (xs, Suc b, e')"
      using e'(1) 2 pv by (simp add: partition_from_end_def eq_key)
    moreover have "e' - Suc b < e - b" using 2(1) e'(3) by simp
    ultimately show ?thesis by blast
  next
    case 3
    let ?ys = "swap_at b e' xs"
    have "permutes_range lo hi xs ?ys" using P e'(2,3) by (intro permutes_range_swap) auto
    with P have "permutes_range lo hi zs ?ys" by (blast intro: permutes_range_trans)
    moreover from len e' have nth: "\<And>k. ?ys ! k = (if k = e' then xs ! b else if k = b then xs ! e' else xs ! k)"
      by (intro swap_at_nth) auto
    ultimately have "parted key zs lo hi pv e' ?ys b e'"
      using P e'(2,3) above by (auto simp: parted_def swap_at_def)
    moreover have "partition_from_end lt eq (xs, b, e) = Some (?ys, b, e')"
      using e'(1) 3 pv by (simp add: partition_from_end_def eq_key)
    moreover have "e' - b < e - b \<or> e' - b = e - b \<and> key (?ys ! b) < pv"
      using 3 e'(3) nth by auto
    ultimately show ?thesis by blast
  qed
qed

lemma from_begin_parts:
  assumes p: "parted key zs lo hi pv e xs b e"
  shows "\<exists>ys b' e'. partition_from_begin lt eq (xs, b, e) = Some (ys, b', e') \<and>
    parted key zs lo hi pv b' ys b' e' \<and>
    e' - b' \<le> e - b \<and> (key (xs ! b) < pv \<longrightarrow> e' - b' < e - b)"
proof -
  note P = p [unfolded parted_def]
  from P have len: "b \<le> e" "e < length xs" and pv: "key (xs ! e) = pv" by auto
  from raise_begin_stops [OF len] obtain b' where
    b': "raise_begin lt xs b e = Some b'" "b \<le> b'" "b' \<le> e" "pv \<le> key (xs ! b')"
      "\<And>i. b \<le> i \<Longrightarrow> i < b' \<Longrightarrow> key (xs ! i) < pv"
    using P by auto
  have below: "\<forall>i. lo \<le> i \<and> i < b' \<longrightarrow> key (xs ! i) \<le> pv"
    using b'(5) P by (metis less_imp_le not_le)
  have moved: "key (xs ! b) < pv \<Longrightarrow> b < b'"
    using b'(2,4) by (metis le_neq_implies_less not_le)
  consider "b' = e" | "b' < e" "key (xs ! b') = pv" | "b' < e" "pv < key (xs ! b')"
    using b'(3,4) by fastforce
  then show ?thesis
  proof cases
    case 1
    with b' below P have "parted key zs lo hi pv b' xs b' e" by (auto simp: parted_def)
    moreover have "partition_from_begin lt eq (xs, b, e) = Some (xs, b', e)"
      using b'(1) 1 by (simp add: partition_from_begin_def)
    moreover have "e - b' \<le> e - b \<and> (key (xs ! b) < pv \<longrightarrow> e - b' < e - b)"
      using moved 1 b'(2) by auto
    ultimately show ?thesis by blast
  next
    case 2
    have "pv \<le> key (xs ! i)" if "e - 1 < i" "i < hi" for i
      using that P by (cases "i = e") auto
    with b' below P 2 have "parted key zs lo hi pv b' xs b' (e - 1)"
      by (auto simp: parted_def)
    moreover have "partition_from_begin lt eq (xs, b, e) = Some (xs, b', e - 1)"
      using b'(1) 2 pv by (simp add: partition_from_begin_def eq_key)
    moreover have "e - 1 - b' \<le> e - b \<and> (key (xs ! b) < pv \<longrightarrow> e - 1 - b' < e - b)"
      using 2(1) b'(2) by auto
    ultimately show ?thesis by blast
  next
    case 3
    let ?ys = "swap_at b' e xs"
    have "permutes_range lo hi xs ?ys" using P b'(2,3) by (intro permutes_range_swap) auto
    with P have "permutes_range lo hi zs ?ys" by (blast intro: permutes_range_trans)
    moreover from len b' have nth: "\<And>k. ?ys ! k = (if k = e then xs ! b' else if k = b' then xs ! e else xs ! k)"
      by (intro swap_at_nth) auto
    ultimately have "parted key zs lo hi pv b' ?ys b' e"
      using P b'(2,3) below by (auto simp: parted_def swap_at_def)
    moreover have "partition_from_begin lt eq (xs, b, e) = Some (?ys, b', e)"
      using b'(1) 3 pv by (simp add: partition_from_begin_def eq_key)
    moreover have "e - b' \<le> e - b \<and> (key (xs ! b) < pv \<longrightarrow> e - b' < e - b)"
      using moved 3(1) b'(2) by auto
    ultimately show ?thesis by blast
  qed
qed

lemma partition_parts:
  assumes "b < e" and "e \<le> length xs"
  shows "\<exists>ys m. partition_range lt eq xs b e = Some (ys, m) \<and> parted key xs b e (key (xs ! b)) m ys m m"
proof -
  let ?pv = "key (xs ! b)"
  let ?I = "\<lambda>(ys, b', e'). parted key xs b e ?pv b' ys b' e'"
  have "\<exists>s'. loop_while (\<lambda>(xs, b, e). b < e) (partition_turn lt eq) (xs, b, e - 1) = Some s' \<and> ?I s' \<and>
      \<not> (\<lambda>(xs, b, e). b < e) s'"
  proof (rule loop_while_total [where m = "\<lambda>(xs, b, e). e - b"])
    show "?I (xs, b, e - 1)" using assms by (auto simp: parted_def)
  next
    fix s assume I: "?I s" and g: "(\<lambda>(xs :: 'a list, b, e). b < e) s"
    obtain ys b' e' where s: "s = (ys, b', e')" by (cases s)
    from I g s have p: "parted key xs b e ?pv b' ys b' e'" "b' < e'" by auto
    from from_end_parts [OF this] obtain ys1 b1 e1 where
      1: "partition_from_end lt eq s = Some (ys1, b1, e1)" "parted key xs b e ?pv e1 ys1 b1 e1"
        "e1 - b1 < e' - b' \<or> e1 - b1 = e' - b' \<and> key (ys1 ! b1) < ?pv"
      using s by auto
    from from_begin_parts [OF 1(2)] obtain ys2 b2 e2 where
      2: "partition_from_begin lt eq (ys1, b1, e1) = Some (ys2, b2, e2)" "parted key xs b e ?pv b2 ys2 b2 e2"
        "e2 - b2 \<le> e1 - b1" "key (ys1 ! b1) < ?pv \<longrightarrow> e2 - b2 < e1 - b1"
      by auto
    from 1(3) 2(3,4) have "e2 - b2 < e' - b'" by linarith
    with 1(1) 2(1,2) s show "\<exists>s'. partition_turn lt eq s = Some s' \<and> ?I s' \<and>
        (\<lambda>(xs :: 'a list, b, e). e - b) s' < (\<lambda>(xs :: 'a list, b, e). e - b) s"
      by (auto simp: partition_turn_def)
  qed
  then obtain ys m e' where
    l: "loop_while (\<lambda>(xs, b, e). b < e) (partition_turn lt eq) (xs, b, e - 1) = Some (ys, m, e')"
      "parted key xs b e ?pv m ys m e'" "\<not> m < e'"
    by auto
  then have "e' = m" by (auto simp: parted_def)
  with l show ?thesis by (auto simp: partition_range_def)
qed

lemma quicksort_range:
  assumes "b \<le> e" and "e \<le> length xs"
  shows "\<exists>ys. quicksort lt eq xs b e = Some ys \<and> permutes_range b e xs ys \<and>
    (\<forall>i j. b \<le> i \<and> i \<le> j \<and> j < e \<longrightarrow> key (ys ! i) \<le> key (ys ! j))"
  using assms
proof (induction "e - b" arbitrary: b e xs rule: less_induct)
  case less
  show ?case
  proof (cases "b = e")
    case True
    then show ?thesis by (auto simp: quicksort.simps)
  next
    case False
    with less.prems have "b < e" by simp
    from partition_parts [OF this less.prems(2)] obtain ys m where
      part: "partition_range lt eq xs b e = Some (ys, m)" "parted key xs b e (key (xs ! b)) m ys m m"
      by blast
    let ?pv = "key (xs ! b)"
    note P = part(2) [unfolded parted_def]
    have "\<exists>zs. quicksort lt eq ys b m = Some zs \<and> permutes_range b m ys zs \<and>
        (\<forall>i j. b \<le> i \<and> i \<le> j \<and> j < m \<longrightarrow> key (zs ! i) \<le> key (zs ! j))"
      by (rule less.hyps) (use P in auto)
    then obtain zs where
      zs: "quicksort lt eq ys b m = Some zs" "permutes_range b m ys zs"
        "\<And>i j. b \<le> i \<Longrightarrow> i \<le> j \<Longrightarrow> j < m \<Longrightarrow> key (zs ! i) \<le> key (zs ! j)" by blast
    have "\<exists>us. quicksort lt eq zs (Suc m) e = Some us \<and> permutes_range (Suc m) e zs us \<and>
        (\<forall>i j. Suc m \<le> i \<and> i \<le> j \<and> j < e \<longrightarrow> key (us ! i) \<le> key (us ! j))"
      by (rule less.hyps) (use P zs(2) in \<open>auto simp: permutes_range_length\<close>)
    then obtain us where
      us: "quicksort lt eq zs (Suc m) e = Some us" "permutes_range (Suc m) e zs us"
        "\<And>i j. Suc m \<le> i \<Longrightarrow> i \<le> j \<Longrightarrow> j < e \<Longrightarrow> key (us ! i) \<le> key (us ! j)"
      by blast
    have perm: "permutes_range b e xs us"
      using P permutes_range_mono [OF zs(2), of b e] permutes_range_mono [OF us(2), of b e]
      by (meson order_refl le_SucI less_imp_le permutes_range_trans)
    have zl: "length zs = length ys" using zs(2) by (rule permutes_range_length)
    have ul: "length us = length ys" using us(2) zl by (simp add: permutes_range_length)
    have low: "us ! i = zs ! i" if "i \<le> m" for i
      using permutes_range_outside [OF us(2)] that P zl by auto
    have mid: "key (us ! m) = ?pv"
      using low [of m] permutes_range_outside [OF zs(2), of m] P by auto
    have left: "key (us ! i) \<le> ?pv" if "b \<le> i" "i < m" for i
      using permutes_range_all [OF zs(2), of "\<lambda>x. key x \<le> ?pv"] P that low by auto
    have zr: "?pv \<le> key (zs ! i)" if "m < i" "i < e" for i
      using permutes_range_outside [OF zs(2), of i] P that by auto
    have right: "?pv \<le> key (us ! i)" if "m < i" "i < e" for i
      using permutes_range_all [OF us(2), of "\<lambda>x. ?pv \<le> key x"] zr P zl that by auto
    have "key (us ! i) \<le> key (us ! j)" if "b \<le> i" "i \<le> j" "j < e" for i j
    proof -
      consider "j < m" | "i \<le> m" "m \<le> j" | "m < i" using that by linarith
      then show ?thesis
      proof cases
        case 1 with zs(3) low that show ?thesis by simp
      next
        case 2
        have "key (us ! i) \<le> ?pv" using left [of i] mid 2 that by (cases "i = m") auto
        also have "?pv \<le> key (us ! j)" using right [of j] mid 2 that by (cases "j = m") auto
        finally show ?thesis .
      next
        case 3 with us(3) that show ?thesis by simp
      qed
    qed
    with perm part(1) zs(1) us(1) False show ?thesis by (subst quicksort.simps) auto
  qed
qed

lemma quicksort_sorts:
  "\<exists>ys. quicksort lt eq xs 0 (length xs) = Some ys \<and> mset ys = mset xs \<and> sorted (map key ys)"
proof -
  obtain ys where ys: "quicksort lt eq xs 0 (length xs) = Some ys" "permutes_range 0 (length xs) xs ys"
    "\<And>i j. i \<le> j \<Longrightarrow> j < length xs \<Longrightarrow> key (ys ! i) \<le> key (ys ! j)"
    using quicksort_range [of 0 "length xs" xs] by auto
  from ys(2) have "length ys = length xs" "mset ys = mset xs" by (simp_all add: permutes_range_def)
  with ys show ?thesis by (auto simp: sorted_iff_nth_mono)
qed

end

section \<open>Copy, find and fill\<close>

lemma copy_to_result:
  "d + length xs \<le> length ds \<Longrightarrow>
   copy_to xs d ds = (take d ds @ xs @ drop (d + length xs) ds, d + length xs)"
proof (induction xs arbitrary: d ds)
  case (Cons x xs)
  from Cons.prems have "take (Suc d) (ds[d := x]) = take d ds @ [x]"
    by (simp add: take_Suc_conv_app_nth)
  with Cons show ?case by simp
qed simp

lemma find_from_result:
  assumes "b \<le> e"
  shows "b \<le> find_from xs b e v \<and> find_from xs b e v \<le> e \<and>
    (\<forall>i. b \<le> i \<and> i < find_from xs b e v \<longrightarrow> xs ! i \<noteq> v) \<and>
    (find_from xs b e v < e \<longrightarrow> xs ! find_from xs b e v = v)"
  using assms
proof (induction xs b e v rule: find_from.induct)
  case (1 xs b e v)
  show ?case
  proof (cases "b < e \<and> xs ! b \<noteq> v")
    case True
    with 1 have IH: "Suc b \<le> find_from xs (Suc b) e v" "find_from xs (Suc b) e v \<le> e"
      "\<forall>i. Suc b \<le> i \<and> i < find_from xs (Suc b) e v \<longrightarrow> xs ! i \<noteq> v"
      "find_from xs (Suc b) e v < e \<longrightarrow> xs ! find_from xs (Suc b) e v = v"
      by auto
    have "find_from xs b e v = find_from xs (Suc b) e v"
      using True by (subst find_from.simps) simp
    moreover have "xs ! i \<noteq> v" if "b \<le> i" "i < find_from xs (Suc b) e v" for i
      using IH(3) True that by (cases "i = b") auto
    ultimately show ?thesis using IH by auto
  next
    case False
    then have "find_from xs b e v = b" by (subst find_from.simps) auto
    with False 1(2) show ?thesis by auto
  qed
qed

lemma fill_range_result:
  "b \<le> e \<Longrightarrow> e \<le> length xs \<Longrightarrow>
   fill_range b e v xs = (take b xs @ replicate (e - b) v @ drop e xs, e)"
proof (induction b e v xs rule: fill_range.induct)
  case (1 b e v xs)
  show ?case
  proof (cases "b < e")
    case True
    with 1 have "take (Suc b) (xs[b := v]) = take b xs @ [v]"
      by (simp add: take_Suc_conv_app_nth)
    moreover from True have "e - b = Suc (e - Suc b)" by simp
    ultimately show ?thesis using 1 True by (subst fill_range.simps) simp
  next
    case False
    with 1 show ?thesis by (subst fill_range.simps) simp
  qed
qed

end
