(* ===== verification/Locale_Cache.thy ===== *)
theory Locale_Cache
  imports Cxxrt_Algorithm "HOL-Library.Char_ord"
begin

text \<open>
  The locale cache \<^verbatim>\<open>_CS_cache\<close> (\<^verbatim>\<open>cxxrt/lcache.h\<close>, \<^verbatim>\<open>srccxx/lcache.cc\<close>): the facet that keeps
  the widened characters of the numeric facets. Formatted output indexes the tables of digits;
  formatted input looks a character up in a sorted table of 31 entries by an unrolled binary search.
  The facets \<^verbatim>\<open>numpunct\<close> and \<^verbatim>\<open>ctype\<close> it is made from are virtual: what they return is a record of
  parameters. The order of the character type is that of its type class.

  \<open>cache_find_class\<close> shows that the search returns the class of every character for every pair of
  facets, also when the thousands separator or the decimal point repeats another entry.
\<close>

section \<open>The cache\<close>

definition exponent_index :: nat where "exponent_index = 14"
definition positive_index :: nat where "positive_index = 16"
definition negative_index :: nat where "negative_index = 17"
definition binary_index :: nat where "binary_index = 18"
definition hexadecimal_index :: nat where "hexadecimal_index = 19"
definition separator_index :: nat where "separator_index = 20"
definition punct_index :: nat where "punct_index = 21"

lemmas table_indices = exponent_index_def positive_index_def negative_index_def binary_index_def
  hexadecimal_index_def separator_index_def punct_index_def

definition cb_plus :: nat where "cb_plus = 16"
definition cb_minus :: nat where "cb_minus = 17"
definition cb_hex :: nat where "cb_hex = 18"
definition cb_space :: nat where "cb_space = 19"
definition cb_sep :: nat where "cb_sep = 20"
definition cb_point :: nat where "cb_point = 21"
definition cb_none :: nat where "cb_none = 22"

lemmas scan_classes = cb_plus_def cb_minus_def cb_hex_def cb_space_def cb_sep_def cb_point_def
  cb_none_def

text \<open>
  The strings of narrow characters. \<open>CHR 0x09\<close> and \<open>CHR 0x0A\<close> are the tabulator and the newline.
  The grouping is a string whose characters are small signed numbers.
\<close>

definition lt_chars :: string where "lt_chars = ''0123456789abcdef+-bx,.''"
definition ut_chars :: string where "ut_chars = ''0123456789ABCDEF+-BX,.''"
definition st_chars :: string where
  "st_chars = ''0123456789abcdefABCDEF+-xX '' @ [CHR 0x09, CHR 0x0A] @ '',.''"

definition ivals :: "nat list" where
  "ivals = [0, 1, 2, 3, 4, 5, 6, 7, 8, 9, 10, 11, 12, 13, 14, 15, 10, 11, 12, 13, 14, 15,
     cb_plus, cb_minus, cb_hex, cb_hex, cb_space, cb_space, cb_space, cb_sep, cb_point]"

record 'c numpunct =
  np_grouping :: "int list"
  np_thousands_sep :: 'c
  np_decimal_point :: 'c
  np_truename :: "'c list"
  np_falsename :: "'c list"

record 'c cache =
  m_grouping :: "int list"
  m_scan_table :: "'c list"
  m_vals_table :: "nat list"
  m_lower_table :: "'c list"
  m_upper_table :: "'c list"

record 'c sort_val =
  sv_wide :: 'c
  sv_val :: nat

definition sv_less :: "('c :: linorder) sort_val \<Rightarrow> 'c sort_val \<Rightarrow> bool" where
  "sv_less x y \<longleftrightarrow> sv_wide x < sv_wide y"

definition sv_equal :: "('c :: linorder) sort_val \<Rightarrow> 'c sort_val \<Rightarrow> bool" where
  "sv_equal x y \<longleftrightarrow> sv_wide x = sv_wide y"

definition setup_scan_table :: "('c :: linorder) list \<Rightarrow> ('c list \<times> nat list) option" where
  "setup_scan_table chars =
     (let arr = map (\<lambda>i. \<lparr>sv_wide = chars ! i, sv_val = ivals ! i\<rparr>) [0..<31] in
      map_option (\<lambda>arr. (map sv_wide arr, map sv_val arr)) (quicksort sv_less sv_equal arr 0 31))"

text \<open>
  \<^verbatim>\<open>_CS_init\<close> returns a null pointer when a facet is missing. The 32nd element of the tables of the
  source is never read and is left out. Widening the first 30 characters leaves the last element to
  be set.
\<close>

definition scan_chars :: "'c numpunct \<Rightarrow> (char \<Rightarrow> 'c) \<Rightarrow> 'c list" where
  "scan_chars np widen = (map widen (take 30 st_chars))[29 := np_thousands_sep np] @ [np_decimal_point np]"

definition digit_table :: "'c numpunct \<Rightarrow> (char \<Rightarrow> 'c) \<Rightarrow> string \<Rightarrow> 'c list" where
  "digit_table np widen chars =
     map widen (take 20 chars) @ [np_thousands_sep np, np_decimal_point np]"

definition cache_init ::
  "('c :: linorder) numpunct option \<Rightarrow> (char \<Rightarrow> 'c) option \<Rightarrow> 'c cache option" where
  "cache_init np ct = do {
     np \<leftarrow> np;
     widen \<leftarrow> ct;
     (chars, vals) \<leftarrow> setup_scan_table (scan_chars np widen);
     Some \<lparr>m_grouping = np_grouping np, m_scan_table = chars, m_vals_table = vals,
       m_lower_table = digit_table np widen lt_chars, m_upper_table = digit_table np widen ut_chars\<rparr>
   }"

definition find_step :: "('c :: linorder) list \<Rightarrow> 'c \<Rightarrow> nat \<Rightarrow> nat \<Rightarrow> nat" where
  "find_step t c d fnd = (if t ! fnd < c then fnd + d else fnd - d)"

definition cache_find :: "('c :: linorder) cache \<Rightarrow> 'c \<Rightarrow> nat" where
  "cache_find ch c =
     (let t = m_scan_table ch;
          f0 = 15;
          f1 = find_step t c 8 f0;
          f2 = find_step t c 4 f1;
          f3 = find_step t c 2 f2;
          f4 = find_step t c 1 f3;
          fnd = (if t ! f0 \<noteq> c then if t ! f1 \<noteq> c then if t ! f2 \<noteq> c then if t ! f3 \<noteq> c
                 then f4 else f3 else f2 else f1 else f0)
      in if t ! fnd = c then m_vals_table ch ! fnd else cb_none)"

section \<open>The order of the elements meets the contract of the quicksort\<close>

interpretation sv: keyed_order sv_less sv_equal sv_wide
  by unfold_locales (simp_all add: sv_less_def sv_equal_def)

section \<open>The search\<close>

text \<open>The character is somewhere strictly within \<open>d\<close> of the index \<open>f\<close>.\<close>

definition near :: "'c list \<Rightarrow> 'c \<Rightarrow> nat \<Rightarrow> nat \<Rightarrow> bool" where
  "near t c f d \<longleftrightarrow> (\<exists>i < length t. t ! i = c \<and> i < f + d \<and> f < i + d)"

lemma near_step:
  assumes "sorted t" and "near t c f (2 * d)" and "t ! f \<noteq> c" and "f < length t" and "d \<le> f"
  shows "near t c (find_step t c d f) d"
proof -
  from assms(2) obtain i where i: "i < length t" "t ! i = c" "i < f + 2 * d" "f < i + 2 * d"
    by (auto simp: near_def)
  show ?thesis
  proof (cases "t ! f < c")
    case True
    have "f < i"
    proof (rule ccontr)
      assume "\<not> f < i"
      with assms(1,4) have "t ! i \<le> t ! f" by (simp add: sorted_nth_mono)
      with True i(2) show False by simp
    qed
    with i True show ?thesis by (auto simp: near_def find_step_def intro!: exI [of _ i])
  next
    case False
    have "i < f"
    proof (rule ccontr)
      assume "\<not> i < f"
      with assms(1) i(1) have "t ! f \<le> t ! i" by (simp add: sorted_nth_mono)
      with False i(2) assms(3) show False by simp
    qed
    with i False assms(5) show ?thesis by (auto simp: near_def find_step_def intro!: exI [of _ i])
  qed
qed

lemma near_here: "near t c f 1 \<Longrightarrow> f < length t \<and> t ! f = c"
proof -
  assume "near t c f 1"
  then obtain i where "i < length t" "t ! i = c" "i < f + 1" "f < i + 1" by (auto simp: near_def)
  moreover from this have "i = f" by simp
  ultimately show ?thesis by simp
qed

lemma find_step_bounds: "find_step t c d f \<in> {f - d, f + d}"
  by (simp add: find_step_def)

lemma cache_find_search:
  assumes sorted: "sorted (m_scan_table ch)" and len: "length (m_scan_table ch) = 31"
  shows "if c \<in> set (m_scan_table ch)
    then \<exists>i < 31. m_scan_table ch ! i = c \<and> cache_find ch c = m_vals_table ch ! i
    else cache_find ch c = cb_none"
proof -
  define t where "t = m_scan_table ch"
  define f1 where "f1 = find_step t c 8 15"
  define f2 where "f2 = find_step t c 4 f1"
  define f3 where "f3 = find_step t c 2 f2"
  define f4 where "f4 = find_step t c 1 f3"
  have f: "f1 \<in> {7, 23}" "f1 - 4 \<le> f2 \<and> f2 \<le> f1 + 4" "f2 - 2 \<le> f3 \<and> f3 \<le> f2 + 2"
    "f3 - 1 \<le> f4 \<and> f4 \<le> f3 + 1"
    using find_step_bounds [of t c 8 15] find_step_bounds [of t c 4 f1]
      find_step_bounds [of t c 2 f2] find_step_bounds [of t c 1 f3]
    by (auto simp: f1_def f2_def f3_def f4_def)
  have b: "4 \<le> f1" "f1 < 31" "2 \<le> f2" "f2 < 31" "1 \<le> f3" "f3 < 31" "f4 < 31"
    using f by auto
  define fnd where "fnd = (if t ! 15 \<noteq> c then if t ! f1 \<noteq> c then if t ! f2 \<noteq> c then if t ! f3 \<noteq> c
                 then f4 else f3 else f2 else f1 else 15)"
  have cf: "cache_find ch c = (if t ! fnd = c then m_vals_table ch ! fnd else cb_none)"
    by (simp add: cache_find_def Let_def t_def f1_def f2_def f3_def f4_def fnd_def)
  have fb: "fnd < 31" using b by (simp add: fnd_def)
  have l: "length t = 31" and s: "sorted t" using sorted len by (simp_all add: t_def)
  show ?thesis
  proof (cases "c \<in> set t")
    case False
    with fb l have "t ! fnd \<noteq> c" by (metis nth_mem)
    with False cf show ?thesis by (simp add: t_def)
  next
    case True
    then have n0: "near t c 15 (2 * 8)" using l by (auto simp: near_def in_set_conv_nth)
    have "t ! fnd = c"
    proof (rule ccontr)
      assume nf: "t ! fnd \<noteq> c"
      then have ne: "t ! 15 \<noteq> c" "t ! f1 \<noteq> c" "t ! f2 \<noteq> c" "t ! f3 \<noteq> c" "t ! f4 \<noteq> c"
        by (auto simp: fnd_def split: if_splits)
      from near_step [OF s n0 ne(1)] l have "near t c f1 (2 * 4)" by (simp add: f1_def)
      from near_step [OF s this ne(2)] l b have "near t c f2 (2 * 2)" by (simp add: f2_def)
      from near_step [OF s this ne(3)] l b have "near t c f3 (2 * 1)" by (simp add: f3_def)
      from near_step [OF s this ne(4)] l b have "near t c f4 1" by (simp add: f4_def)
      with near_here [of t c f4] ne(5) show False by blast
    qed
    with fb cf True show ?thesis by (auto simp: t_def)
  qed
qed

section \<open>Setting the cache up\<close>

lemma scan_chars_length [simp]: "length (scan_chars np widen) = 31"
  by (simp add: scan_chars_def st_chars_def)

lemma setup_scan_table_sorts:
  "\<exists>cs vs. setup_scan_table chars = Some (cs, vs) \<and> sorted cs \<and> length cs = 31 \<and> length vs = 31 \<and>
     mset (zip cs vs) = mset (map (\<lambda>i. (chars ! i, ivals ! i)) [0..<31])"
proof -
  define js where "js = [0..<31 :: nat]"
  define arr where "arr = map (\<lambda>i. \<lparr>sv_wide = chars ! i, sv_val = ivals ! i\<rparr>) js"
  have len: "length arr = 31" by (simp add: arr_def js_def)
  obtain ys where ys: "quicksort sv_less sv_equal arr 0 31 = Some ys" "mset ys = mset arr"
    "sorted (map sv_wide ys)"
    using sv.quicksort_sorts [of arr] len by metis
  have "length ys = 31" using ys(2) len by (metis size_mset)
  have "zip (map sv_wide ys) (map sv_val ys) = map (\<lambda>x. (sv_wide x, sv_val x)) ys"
    by (simp add: zip_map_map zip_same_conv_map)
  then have "mset (zip (map sv_wide ys) (map sv_val ys)) =
      image_mset (\<lambda>x. (sv_wide x, sv_val x)) (mset arr)"
    using ys(2) by simp
  also have "\<dots> = mset (map (\<lambda>i. (chars ! i, ivals ! i)) js)"
    by (simp add: arr_def image_mset.compositionality comp_def)
  finally have z: "mset (zip (map sv_wide ys) (map sv_val ys)) = mset (map (\<lambda>i. (chars ! i, ivals ! i)) js)" .
  have "setup_scan_table chars = Some (map sv_wide ys, map sv_val ys)"
    unfolding setup_scan_table_def Let_def js_def [symmetric] arr_def [symmetric] ys(1) by simp
  then show ?thesis unfolding js_def [symmetric] using z ys(3) \<open>length ys = 31\<close> by auto
qed

lemma cache_init_result:
  "\<exists>ch. cache_init (Some np) (Some widen) = Some ch \<and> m_grouping ch = np_grouping np \<and>
     m_lower_table ch = digit_table np widen lt_chars \<and>
     m_upper_table ch = digit_table np widen ut_chars \<and>
     (\<forall>c. if c \<in> set (scan_chars np widen)
          then \<exists>i < 31. scan_chars np widen ! i = c \<and> cache_find ch c = ivals ! i
          else cache_find ch c = cb_none)"
proof -
  let ?cs = "scan_chars np widen"
  obtain cs vs where t: "setup_scan_table ?cs = Some (cs, vs)" "sorted cs" "length cs = 31"
    "length vs = 31" "mset (zip cs vs) = mset (map (\<lambda>i. (?cs ! i, ivals ! i)) [0..<31])"
    using setup_scan_table_sorts by blast
  define ch where "ch = \<lparr>m_grouping = np_grouping np, m_scan_table = cs, m_vals_table = vs,
    m_lower_table = digit_table np widen lt_chars, m_upper_table = digit_table np widen ut_chars\<rparr>"
  have zs: "set (zip cs vs) = (\<lambda>i. (?cs ! i, ivals ! i)) ` {0..<31}"
    using arg_cong [OF t(5), of set_mset] by (simp del: upt_Suc)
  have "set cs = fst ` set (zip cs vs)" using t(3,4) by (metis list.set_map map_fst_zip)
  then have set: "set cs = set ?cs"
    unfolding zs by (auto simp: image_image set_conv_nth)
  have "if c \<in> set ?cs then \<exists>i < 31. ?cs ! i = c \<and> cache_find ch c = ivals ! i
      else cache_find ch c = cb_none" for c
  proof (cases "c \<in> set ?cs")
    case True
    with cache_find_search [of ch c] t set obtain i where
      i: "i < 31" "cs ! i = c" "cache_find ch c = vs ! i" by (auto simp: ch_def)
    with t(3,4) have "(c, vs ! i) \<in> set (zip cs vs)" by (auto simp: set_zip)
    with zs i True show ?thesis by auto
  next
    case False
    with cache_find_search [of ch c] t set show ?thesis by (simp add: ch_def)
  qed
  moreover have "cache_init (Some np) (Some widen) = Some ch"
    using t(1) by (simp add: cache_init_def ch_def)
  moreover have "m_grouping ch = np_grouping np" "m_lower_table ch = digit_table np widen lt_chars"
    "m_upper_table ch = digit_table np widen ut_chars"
    by (simp_all add: ch_def)
  ultimately show ?thesis by blast
qed

text \<open>
  C38: The cache is set up whenever both facets are there, and looking a character up in it gives the
  class of an entry of the table of scanned characters that the character is equal to, and 22 exactly
  when there is none: the unrolled search over the sorted table misses no entry, for every way the
  facets widen the characters. The table is that of the code, with 31 characters; the comment at its
  declaration in \<^verbatim>\<open>lcache.h\<close> lists a carriage return as a further one, which here has no class.
\<close>

theorem cache_find_class:
  "\<exists>ch. cache_init (Some np) (Some widen) = Some ch \<and> m_grouping ch = np_grouping np \<and>
     (\<forall>c. if c \<in> set (scan_chars np widen)
          then \<exists>i < 31. scan_chars np widen ! i = c \<and> cache_find ch c = ivals ! i
          else cache_find ch c = cb_none)"
  using cache_init_result [of np widen] by blast

end
