(* ===== verification/Streambuf.thy ===== *)
theory Streambuf
  imports Prelude "HOL-Library.Monad_Syntax" "HOL-Library.Word"
begin

text \<open>
  The stream buffer of the run-time library (\<^verbatim>\<open>cxxrt/streambuf.h\<close>, \<^verbatim>\<open>srccxx/streambuf.cc\<close>). The
  six pointers of a \<^verbatim>\<open>basic_streambuf\<close> are offsets into the array its areas lie in; \<open>g_set\<close> and
  \<open>p_set\<close> tell whether the pointers of an area were ever set, that is whether they are not null. The
  record is extended by the members of a derived class. The virtual functions are a table, a
  parameter of the functions that call them; the implementations of the base class are the functions
  whose name starts with \<open>base_\<close>. The \<^verbatim>\<open>int_type\<close> of the character traits is an option, \<open>None\<close> being
  \<^verbatim>\<open>eof()\<close>.

  A virtual function may throw, and a loop over the buffer may never end: an operation yields
  \<open>None\<close> when it does not return, otherwise a result or the exception, and the buffer it leaves.

  Locales state what a derived class promises: \<open>char_source\<close> for the get area (which characters
  are still to be read), \<open>base_source\<close> when \<^verbatim>\<open>uflow\<close> is that of the base class, and \<open>char_sink\<close> for the put area (what storing a character does). Their lemmas
  are what every client of a stream buffer can rely on.
\<close>

section \<open>Operations that may throw or not return\<close>

datatype 'a outcome = Ret 'a | Throw

type_synonym ('s, 'a) io = "'s \<Rightarrow> ('a outcome \<times> 's) option"

definition io_ret :: "'a \<Rightarrow> ('s, 'a) io" where
  "io_ret a s = Some (Ret a, s)"

definition io_bind :: "('s, 'a) io \<Rightarrow> ('a \<Rightarrow> ('s, 'b) io) \<Rightarrow> ('s, 'b) io" where
  "io_bind m f s = Option.bind (m s) (\<lambda>(r, s'). case r of Ret a \<Rightarrow> f a s' | Throw \<Rightarrow> Some (Throw, s'))"

partial_function (option) io_loop ::
  "('a \<Rightarrow> bool) \<Rightarrow> ('a \<Rightarrow> ('s, 'a) io) \<Rightarrow> 'a \<Rightarrow> 's \<Rightarrow> ('a outcome \<times> 's) option" where
  "io_loop g b a s =
     (if g a then Option.bind (b a s) (\<lambda>(r, s'). case r of Ret a' \<Rightarrow> io_loop g b a' s' | Throw \<Rightarrow> Some (Throw, s'))
      else Some (Ret a, s))"

declare io_loop.simps [code]

lemma io_bind_ret [simp]: "m s = Some (Ret a, s') \<Longrightarrow> io_bind m f s = f a s'"
  by (simp add: io_bind_def)

lemma io_bind_throw [simp]: "m s = Some (Throw, s') \<Longrightarrow> io_bind m f s = Some (Throw, s')"
  by (simp add: io_bind_def)

lemma io_ret_apply [simp]: "io_ret a s = Some (Ret a, s)"
  by (simp add: io_ret_def)

lemma io_loop_done [simp]: "\<not> g a \<Longrightarrow> io_loop g b a s = Some (Ret a, s)"
  by (simp add: io_loop.simps)

lemma io_loop_step: "g a \<Longrightarrow> b a s = Some (Ret a', s') \<Longrightarrow> io_loop g b a s = io_loop g b a' s'"
  by (subst io_loop.simps) simp

lemma io_loop_throw: "g a \<Longrightarrow> b a s = Some (Throw, s') \<Longrightarrow> io_loop g b a s = Some (Throw, s')"
  by (subst io_loop.simps) simp

lemma io_loop_total:
  assumes "I a s"
    and "\<And>a s. I a s \<Longrightarrow> g a \<Longrightarrow> \<exists>a' s'. b a s = Some (Ret a', s') \<and> I a' s' \<and> m a' s' < (m a s :: nat)"
  shows "\<exists>a' s'. io_loop g b a s = Some (Ret a', s') \<and> I a' s' \<and> \<not> g a'"
  using assms(1)
proof (induction "m a s" arbitrary: a s rule: less_induct)
  case less
  show ?case
  proof (cases "g a")
    case True
    with less.prems assms(2) obtain a' s' where
      1: "b a s = Some (Ret a', s')" "I a' s'" "m a' s' < m a s" by blast
    from less.hyps [OF 1(3) 1(2)] show ?thesis by (simp add: io_loop_step [of g a b s, OF True 1(1)])
  next
    case False
    with less.prems show ?thesis by simp
  qed
qed

text \<open>A loop whose guard holds for ever does not return, unless its body throws.\<close>

lemma io_loop_diverges:
  assumes "I a s"
    and "\<And>a s. I a s \<Longrightarrow> g a"
    and "\<And>a s. I a s \<Longrightarrow> \<exists>a' s'. b a s = Some (Ret a', s') \<and> I a' s'"
  shows "io_loop g b a s = None"
proof -
  have "g' = g \<longrightarrow> b' = b \<longrightarrow> I a s \<longrightarrow> False" if "io_loop g' b' a s = Some r" for g' b' a s r
  proof (rule io_loop.raw_induct
      [where P = "\<lambda>g' b' a s r. g' = g \<longrightarrow> b' = b \<longrightarrow> I a s \<longrightarrow> False", OF _ that])
    fix lp :: "('a \<Rightarrow> bool) \<Rightarrow> ('a \<Rightarrow> ('b, 'a) io) \<Rightarrow> 'a \<Rightarrow> 'b \<Rightarrow> ('a outcome \<times> 'b) option" and g' b' a s r
    assume IH: "\<And>g' b' a s r. lp g' b' a s = Some r \<Longrightarrow> g' = g \<longrightarrow> b' = b \<longrightarrow> I a s \<longrightarrow> False"
      and eq: "(if g' a then Option.bind (b' a s)
          (\<lambda>(r, s'). case r of Ret a' \<Rightarrow> lp g' b' a' s' | Throw \<Rightarrow> Some (Throw, s'))
        else Some (Ret a, s)) = Some r"
    show "g' = g \<longrightarrow> b' = b \<longrightarrow> I a s \<longrightarrow> False"
    proof (intro impI)
      assume gb: "g' = g" "b' = b" and I: "I a s"
      from assms(3) [OF I] obtain a' s' where "b a s = Some (Ret a', s')" "I a' s'" by blast
      with assms(2) [OF I] gb eq have "lp g b a' s' = Some r" by simp
      with IH \<open>I a' s'\<close> show False by blast
    qed
  qed
  with assms(1) show ?thesis by (cases "io_loop g b a s") blast+
qed

section \<open>The stream buffer\<close>

subsection \<open>The areas\<close>

record 'c streambuf =
  sb_mem :: "'c list"
  gbeg :: nat
  gcur :: nat
  gend :: nat
  pbeg :: nat
  pcur :: nat
  pend :: nat
  g_set :: bool
  p_set :: bool

record ('c, 's) vtable =
  v_underflow :: "('s, 'c option) io"
  v_uflow :: "('s, 'c option) io"
  v_pbackfail :: "'c option \<Rightarrow> ('s, 'c option) io"
  v_overflow :: "'c option \<Rightarrow> ('s, 'c option) io"
  v_showmanyc :: "('s, int) io"
  v_xsgetn :: "int \<Rightarrow> ('s, 'c list) io"
  v_xsputn :: "'c list \<Rightarrow> ('s, nat) io"
  v_sync :: "('s, int) io"

text \<open>
  The moves take an \<^verbatim>\<open>int\<close>; most callers pass a difference of pointers or a size, which loses the bits
  above the lower 32.
\<close>

definition to_int :: "int \<Rightarrow> int" where
  "to_int n = sint (word_of_int n :: 32 word)"

definition gbump :: "int \<Rightarrow> ('c, 'z) streambuf_scheme \<Rightarrow> ('c, 'z) streambuf_scheme" where
  "gbump n s = s\<lparr>gcur := nat (int (gcur s) + to_int n)\<rparr>"

definition pbump :: "int \<Rightarrow> ('c, 'z) streambuf_scheme \<Rightarrow> ('c, 'z) streambuf_scheme" where
  "pbump n s = s\<lparr>pcur := nat (int (pcur s) + to_int n)\<rparr>"

definition setg :: "nat \<Rightarrow> nat \<Rightarrow> nat \<Rightarrow> ('c, 'z) streambuf_scheme \<Rightarrow> ('c, 'z) streambuf_scheme" where
  "setg b c e s = s\<lparr>gbeg := b, gcur := c, gend := e, g_set := True\<rparr>"

definition setp :: "nat \<Rightarrow> nat \<Rightarrow> ('c, 'z) streambuf_scheme \<Rightarrow> ('c, 'z) streambuf_scheme" where
  "setp b e s = s\<lparr>pbeg := b, pcur := b, pend := e, p_set := True\<rparr>"

definition mem_copy :: "nat \<Rightarrow> 'c list \<Rightarrow> ('c, 'z) streambuf_scheme \<Rightarrow> ('c, 'z) streambuf_scheme" where
  "mem_copy p cs s = s\<lparr>sb_mem := take p (sb_mem s) @ cs @ drop (p + length cs) (sb_mem s)\<rparr>"

definition get_slice :: "nat \<Rightarrow> ('c, 'z) streambuf_scheme \<Rightarrow> 'c list" where
  "get_slice n s = take n (drop (gcur s) (sb_mem s))"

lemma to_int_id: "- (2 ^ 31) \<le> n \<Longrightarrow> n < 2 ^ 31 \<Longrightarrow> to_int n = n"
  by (simp add: to_int_def sint_sbintrunc' signed_take_bit_int_eq_self)

lemma to_int_one [simp]: "to_int 0 = 0" "to_int 1 = 1" "to_int (- 1) = - 1"
  by (simp_all add: to_int_id)

lemma to_int_nat [simp]: "n < 2 ^ 31 \<Longrightarrow> to_int (int n) = int n"
  by (rule to_int_id) simp_all

lemma to_int_range: "- (2 ^ 31) \<le> to_int n \<and> to_int n < 2 ^ 31"
  using sint_greater_eq [of "word_of_int n :: 32 word"] sint_less [of "word_of_int n :: 32 word"] by (simp add: to_int_def)

lemma to_int_le: "0 \<le> n \<Longrightarrow> to_int n \<le> n"
  using to_int_range [of n] to_int_id [of n] by (cases "n < 2 ^ 31") auto

lemmas area_defs = gbump_def pbump_def setg_def setp_def mem_copy_def

subsection \<open>Reading\<close>

definition sgetc ::
  "('c, ('c, 'z) streambuf_scheme) vtable \<Rightarrow> (('c, 'z) streambuf_scheme, 'c option) io" where
  "sgetc vt s = (if gend s = gcur s then v_underflow vt s else io_ret (Some (sb_mem s ! gcur s)) s)"

definition sbumpc ::
  "('c, ('c, 'z) streambuf_scheme) vtable \<Rightarrow> (('c, 'z) streambuf_scheme, 'c option) io" where
  "sbumpc vt s = (if gcur s \<noteq> gend s then io_ret (Some (sb_mem s ! gcur s)) (s\<lparr>gcur := Suc (gcur s)\<rparr>)
     else v_uflow vt s)"

definition snextc ::
  "('c, ('c, 'z) streambuf_scheme) vtable \<Rightarrow> (('c, 'z) streambuf_scheme, 'c option) io" where
  "snextc vt s =
     (if gend s - gcur s = 0 then
        io_bind (sbumpc vt) (\<lambda>c. case c of None \<Rightarrow> io_ret None | Some _ \<Rightarrow> sgetc vt) s
      else if gend s - gcur s = 1 then sgetc vt (gbump 1 s)
      else io_ret (Some (sb_mem s ! gcur (gbump 1 s))) (gbump 1 s))"

definition in_avail ::
  "('c, ('c, 'z) streambuf_scheme) vtable \<Rightarrow> (('c, 'z) streambuf_scheme, int) io" where
  "in_avail vt s = (if gend s \<noteq> gcur s then io_ret (int (gend s) - int (gcur s)) s else v_showmanyc vt s)"

definition sgetn ::
  "('c, ('c, 'z) streambuf_scheme) vtable \<Rightarrow> int \<Rightarrow> (('c, 'z) streambuf_scheme, 'c list) io" where
  "sgetn vt = v_xsgetn vt"

definition sputbackc :: "('c, ('c, 'z) streambuf_scheme) vtable \<Rightarrow> 'c \<Rightarrow>
    (('c, 'z) streambuf_scheme, 'c option) io" where
  "sputbackc vt c s =
     (if gbeg s = gcur s \<or> c \<noteq> sb_mem s ! (gcur s - 1) then v_pbackfail vt (Some c) s
      else io_ret (Some (sb_mem s ! (gcur s - 1))) (s\<lparr>gcur := gcur s - 1\<rparr>))"

definition sungetc ::
  "('c, ('c, 'z) streambuf_scheme) vtable \<Rightarrow> (('c, 'z) streambuf_scheme, 'c option) io" where
  "sungetc vt s =
     (if gbeg s = gcur s then v_pbackfail vt None s
      else io_ret (Some (sb_mem s ! (gcur s - 1))) (s\<lparr>gcur := gcur s - 1\<rparr>))"

subsection \<open>Writing\<close>

definition sputc :: "('c, ('c, 'z) streambuf_scheme) vtable \<Rightarrow> 'c \<Rightarrow>
    (('c, 'z) streambuf_scheme, 'c option) io" where
  "sputc vt c s =
     (if pcur s = pend s then v_overflow vt (Some c) s
      else io_ret (Some c) (s\<lparr>sb_mem := (sb_mem s)[pcur s := c], pcur := Suc (pcur s)\<rparr>))"

definition sputn :: "('c, ('c, 'z) streambuf_scheme) vtable \<Rightarrow> 'c list \<Rightarrow>
    (('c, 'z) streambuf_scheme, nat) io" where
  "sputn vt = v_xsputn vt"

definition pubsync :: "('c, 's) vtable \<Rightarrow> ('s, int) io" where
  "pubsync vt = v_sync vt"

subsection \<open>The virtual functions of the base class\<close>

definition base_underflow :: "('s, 'c option) io" where
  "base_underflow = io_ret None"

definition base_uflow :: "(('c, 'z) streambuf_scheme, 'c option) io \<Rightarrow>
    (('c, 'z) streambuf_scheme, 'c option) io" where
  "base_uflow underflow = io_bind underflow (\<lambda>c s. case c of None \<Rightarrow> io_ret None s
     | Some _ \<Rightarrow> io_ret (Some (sb_mem s ! gcur s)) (s\<lparr>gcur := Suc (gcur s)\<rparr>))"

definition base_pbackfail :: "'c option \<Rightarrow> ('s, 'c option) io" where
  "base_pbackfail c = io_ret None"

definition base_overflow :: "'c option \<Rightarrow> ('s, 'c option) io" where
  "base_overflow c = io_ret None"

definition base_showmanyc :: "('s, int) io" where
  "base_showmanyc = io_ret 0"

definition base_sync :: "('s, int) io" where
  "base_sync = io_ret 0"

text \<open>
  The loop variable of \<^verbatim>\<open>xsgetn\<close> is what has been read so far and whether \<^verbatim>\<open>break\<close> was reached, that
  of \<^verbatim>\<open>xsputn\<close> what remains to be written and the same.
\<close>

definition xsgetn_turn :: "('c, ('c, 'z) streambuf_scheme) vtable \<Rightarrow> int \<Rightarrow> 'c list \<times> bool \<Rightarrow>
    (('c, 'z) streambuf_scheme, 'c list \<times> bool) io" where
  "xsgetn_turn vt n = (\<lambda>(out, stop) s.
     if gcur s \<noteq> gend s then
       let csize = min (int (gend s) - int (gcur s)) (n - int (length out))
       in io_ret (out @ get_slice (nat csize) s, False) (gbump csize s)
     else io_bind (sbumpc vt)
       (\<lambda>c. io_ret (case c of None \<Rightarrow> (out, True) | Some ch \<Rightarrow> (out @ [ch], False))) s)"

definition base_xsgetn :: "('c, ('c, 'z) streambuf_scheme) vtable \<Rightarrow> int \<Rightarrow>
    (('c, 'z) streambuf_scheme, 'c list) io" where
  "base_xsgetn vt n = io_bind
     (io_loop (\<lambda>(out, stop). int (length out) < n \<and> \<not> stop) (xsgetn_turn vt n) ([], False))
     (\<lambda>(out, stop). io_ret out)"

definition xsputn_turn :: "('c, ('c, 'z) streambuf_scheme) vtable \<Rightarrow> 'c list \<times> bool \<Rightarrow>
    (('c, 'z) streambuf_scheme, 'c list \<times> bool) io" where
  "xsputn_turn vt = (\<lambda>(cs, stop) s.
     let t = pend s - pcur s in
     if t \<noteq> 0 then
       let t = (if length cs < t then length cs else t)
       in io_ret (drop t cs, False) (pbump (int t) (mem_copy (pcur s) (take t cs) s))
     else io_bind (sputc vt (hd cs))
       (\<lambda>c. io_ret (case c of None \<Rightarrow> (cs, True) | Some _ \<Rightarrow> (tl cs, False))) s)"

definition base_xsputn :: "('c, ('c, 'z) streambuf_scheme) vtable \<Rightarrow> 'c list \<Rightarrow>
    (('c, 'z) streambuf_scheme, nat) io" where
  "base_xsputn vt cs s =
     (if length cs < pend s - pcur s
      then io_ret (length cs) (pbump (int (length cs)) (mem_copy (pcur s) cs s))
      else io_bind (io_loop (\<lambda>(cs, stop). cs \<noteq> [] \<and> \<not> stop) (xsputn_turn vt) (cs, False))
        (\<lambda>(rst, stop). io_ret (length cs - length rst)) s)"

section \<open>What a get area promises\<close>

text \<open>
  \<open>rest\<close> is the sequence of characters that are still to be read. The get area holds a prefix of it,
  and \<^verbatim>\<open>underflow\<close> on an empty area provides the next character in the area, or reports the end. \<open>keep\<close> is
  what reading does not change. A class that leaves \<^verbatim>\<open>uflow\<close> to the base class promises no more; one that
  has its own has to take the character that \<^verbatim>\<open>underflow\<close> would provide.
\<close>

locale get_area =
  fixes vt :: "('c, ('c, 'z) streambuf_scheme) vtable"
    and inv :: "('c, 'z) streambuf_scheme \<Rightarrow> bool"
    and rest :: "('c, 'z) streambuf_scheme \<Rightarrow> 'c list"
    and keep :: "('c, 'z) streambuf_scheme \<Rightarrow> 'k"
  assumes area: "inv s \<Longrightarrow> gcur s \<le> gend s \<and> gend s \<le> length (sb_mem s) \<and>
      take (gend s - gcur s) (rest s) = get_slice (gend s - gcur s) s"
    and bump: "inv s \<Longrightarrow> gcur s + n \<le> gend s \<Longrightarrow>
      inv (s\<lparr>gcur := gcur s + n\<rparr>) \<and> rest (s\<lparr>gcur := gcur s + n\<rparr>) = drop n (rest s) \<and>
      keep (s\<lparr>gcur := gcur s + n\<rparr>) = keep s"
    and underflow: "inv s \<Longrightarrow> gcur s = gend s \<Longrightarrow>
      \<exists>s'. v_underflow vt s = Some (Ret (case rest s of [] \<Rightarrow> None | c # _ \<Rightarrow> Some c), s') \<and> inv s' \<and>
        rest s' = rest s \<and> keep s' = keep s \<and> (rest s \<noteq> [] \<longrightarrow> gcur s' < gend s')"
begin

abbreviation next_char :: "'c list \<Rightarrow> 'c option" where
  "next_char cs \<equiv> (case cs of [] \<Rightarrow> None | c # _ \<Rightarrow> Some c)"

lemma here:
  assumes "inv s" and "gcur s < gend s"
  shows "rest s \<noteq> []" and "sb_mem s ! gcur s = hd (rest s)"
proof -
  from area [OF assms(1)] have a: "gend s \<le> length (sb_mem s)"
    "take (gend s - gcur s) (rest s) = take (gend s - gcur s) (drop (gcur s) (sb_mem s))"
    by (simp_all add: get_slice_def)
  from assms(2) a(1) have ne: "take (gend s - gcur s) (drop (gcur s) (sb_mem s)) \<noteq> []" by simp
  with a(2) show "rest s \<noteq> []" by auto
  from assms(2) a(1) have "hd (take (gend s - gcur s) (drop (gcur s) (sb_mem s))) = sb_mem s ! gcur s"
    by (simp add: hd_drop_conv_nth)
  moreover have "hd (take (gend s - gcur s) (rest s)) = hd (rest s)" using assms(2) by simp
  ultimately show "sb_mem s ! gcur s = hd (rest s)" using a(2) by simp
qed

lemma bump_Suc:
  "inv s \<Longrightarrow> gcur s < gend s \<Longrightarrow>
   inv (s\<lparr>gcur := Suc (gcur s)\<rparr>) \<and> rest (s\<lparr>gcur := Suc (gcur s)\<rparr>) = tl (rest s) \<and>
   keep (s\<lparr>gcur := Suc (gcur s)\<rparr>) = keep s"
  using bump [of s 1] by (simp add: drop_Suc)

lemma sgetc_reads:
  assumes "inv s"
  shows "\<exists>s'. sgetc vt s = Some (Ret (next_char (rest s)), s') \<and> inv s' \<and> rest s' = rest s \<and>
    keep s' = keep s \<and> (rest s \<noteq> [] \<longrightarrow> gcur s' < gend s')"
proof (cases "gcur s = gend s")
  case True
  with underflow [OF assms True] show ?thesis by (simp add: sgetc_def)
next
  case False
  with area [OF assms] have "gcur s < gend s" by simp
  from here [OF assms this] False assms \<open>gcur s < gend s\<close> show ?thesis
    by (cases "rest s") (auto simp: sgetc_def)
qed

lemma base_uflow_reads:
  assumes "inv s" and "gcur s = gend s"
  shows "\<exists>s'. base_uflow (v_underflow vt) s = Some (Ret (next_char (rest s)), s') \<and> inv s' \<and> rest s' = tl (rest s) \<and>
    keep s' = keep s"
proof -
  from underflow [OF assms] obtain s' where
    u: "v_underflow vt s = Some (Ret (next_char (rest s)), s')" "inv s'" "rest s' = rest s" "keep s' = keep s"
      "rest s \<noteq> [] \<Longrightarrow> gcur s' < gend s'" by blast
  show ?thesis
  proof (cases "rest s")
    case Nil
    with u show ?thesis by (auto simp: base_uflow_def)
  next
    case (Cons c cs)
    with u have lt: "gcur s' < gend s'" by simp
    from here [OF u(2) lt] bump_Suc [OF u(2) lt] Cons u show ?thesis by (auto simp: base_uflow_def)
  qed
qed

end

locale char_source = get_area +
  assumes uflow: "inv s \<Longrightarrow> gcur s = gend s \<Longrightarrow>
      \<exists>s'. v_uflow vt s = Some (Ret (case rest s of [] \<Rightarrow> None | c # _ \<Rightarrow> Some c), s') \<and> inv s' \<and>
        rest s' = tl (rest s) \<and> keep s' = keep s"
begin

lemma sbumpc_reads:
  assumes "inv s"
  shows "\<exists>s'. sbumpc vt s = Some (Ret (next_char (rest s)), s') \<and> inv s' \<and> rest s' = tl (rest s) \<and>
    keep s' = keep s"
proof (cases "gcur s = gend s")
  case True
  with uflow [OF assms True] show ?thesis by (simp add: sbumpc_def)
next
  case False
  with area [OF assms] have lt: "gcur s < gend s" by simp
  from here [OF assms lt] bump_Suc [OF assms lt] False show ?thesis
    by (cases "rest s") (auto simp: sbumpc_def)
qed

lemma snextc_reads:
  assumes "inv s"
  shows "\<exists>s'. snextc vt s = Some (Ret (next_char (tl (rest s))), s') \<and> inv s' \<and> rest s' = tl (rest s) \<and>
    keep s' = keep s"
proof -
  consider "gend s - gcur s = 0" | "gend s - gcur s = 1" | "1 < gend s - gcur s" by linarith
  then show ?thesis
  proof cases
    case 1
    from sbumpc_reads [OF assms] obtain s' where
      b: "sbumpc vt s = Some (Ret (next_char (rest s)), s')" "inv s'" "rest s' = tl (rest s)"
      "keep s' = keep s" by blast
    show ?thesis
    proof (cases "rest s")
      case Nil
      with b 1 show ?thesis by (auto simp: snextc_def)
    next
      case (Cons c cs)
      with b 1 sgetc_reads [OF b(2)] show ?thesis by (auto simp: snextc_def)
    qed
  next
    case 2
    then have "gcur s < gend s" by simp
    from bump_Suc [OF assms this] have
      b: "inv (gbump 1 s)" "rest (gbump 1 s) = tl (rest s)" "keep (gbump 1 s) = keep s" by (simp_all add: gbump_def nat_add_distrib)
    from sgetc_reads [OF b(1)] b(2,3) 2 show ?thesis by (auto simp: snextc_def)
  next
    case 3
    then have "gcur s < gend s" by simp
    from bump_Suc [OF assms this] have
      b: "inv (gbump 1 s)" "rest (gbump 1 s) = tl (rest s)" "keep (gbump 1 s) = keep s" by (simp_all add: gbump_def nat_add_distrib)
    have "gcur (gbump 1 s) < gend (gbump 1 s)" using 3 by (simp add: gbump_def)
    from here [OF b(1) this] b(2) have "tl (rest s) \<noteq> []" "sb_mem (gbump 1 s) ! gcur (gbump 1 s) = hd (tl (rest s))"
      by simp_all
    moreover have "sb_mem (gbump 1 s) = sb_mem s" by (simp add: gbump_def)
    ultimately show ?thesis using 3 b by (cases "tl (rest s)") (auto simp: snextc_def)
  qed
qed

lemma xsgetn_step:
  assumes "inv s" and "int (length out) < n" and "n < 2 ^ 31 \<or> length (rest s) < 2 ^ 31"
  shows "\<exists>out' stop s'. xsgetn_turn vt n (out, False) s = Some (Ret (out', stop), s') \<and> inv s' \<and>
    keep s' = keep s \<and> out' @ rest s' = out @ rest s \<and> int (length out') \<le> n \<and>
    (if stop then rest s' = [] \<and> out' = out else length out < length out')"
proof (cases "gcur s = gend s")
  case True
  from sbumpc_reads [OF assms(1)] obtain s' where
    b: "sbumpc vt s = Some (Ret (next_char (rest s)), s')" "inv s'" "rest s' = tl (rest s)"
      "keep s' = keep s" by blast
  with assms(2) True show ?thesis by (cases "rest s") (auto simp: xsgetn_turn_def)
next
  case False
  define k where "k = nat (min (int (gend s) - int (gcur s)) (n - int (length out)))"
  from area [OF assms(1)] False have a: "gcur s < gend s" "gend s \<le> length (sb_mem s)"
    "take (gend s - gcur s) (rest s) = get_slice (gend s - gcur s) s" by auto
  have k: "int k = min (int (gend s) - int (gcur s)) (n - int (length out))" "0 < k"
    "gcur s + k \<le> gend s" "k \<le> gend s - gcur s" "int (length out + k) \<le> n"
    using a(1) assms(2) by (auto simp: k_def)
  have "gend s - gcur s \<le> length (rest s)"
    using arg_cong [OF a(3), of length] a(1,2) by (simp add: get_slice_def)
  then have small: "k < 2 ^ 31" using k(4,5) assms(3) by auto
  from bump [OF assms(1) k(3)] have
    b: "inv (gbump (int k) s)" "rest (gbump (int k) s) = drop k (rest s)" "keep (gbump (int k) s) = keep s"
    using small by (simp_all add: gbump_def nat_add_distrib)
  have sl: "get_slice k s = take k (rest s)"
  proof -
    have "take k (get_slice (gend s - gcur s) s) = get_slice k s"
      using k(4) by (simp add: get_slice_def min_absorb1)
    with a(3) k(4) show ?thesis by (metis take_take min.absorb1)
  qed
  have len: "length (get_slice k s) = k" using a(2) k(3) by (simp add: get_slice_def)
  have "xsgetn_turn vt n (out, False) s = Some (Ret (out @ get_slice k s, False), gbump (int k) s)"
    using False k(1) by (simp add: xsgetn_turn_def Let_def k_def [symmetric] del: of_nat_min)
  then show ?thesis using b sl len k(2,5) by auto
qed

lemma base_xsgetn_reads:
  assumes "inv s" and "n < 2 ^ 31 \<or> length (rest s) < 2 ^ 31"
  shows "\<exists>s'. base_xsgetn vt n s = Some (Ret (take (nat n) (rest s)), s') \<and> inv s' \<and>
    rest s' = drop (nat n) (rest s) \<and> keep s' = keep s"
proof -
  let ?I = "\<lambda>(out, stop) s'. inv s' \<and> keep s' = keep s \<and> out @ rest s' = rest s \<and> (0 \<le> n \<longrightarrow> int (length out) \<le> n) \<and>
    (stop \<longrightarrow> rest s' = []) \<and> (n < 0 \<longrightarrow> out = [])"
  let ?g = "\<lambda>(out, stop). int (length out) < n \<and> \<not> stop"
  have "\<exists>a' s'. io_loop ?g (xsgetn_turn vt n) ([], False) s = Some (Ret a', s') \<and> ?I a' s' \<and> \<not> ?g a'"
  proof (rule io_loop_total [where m = "\<lambda>(out, stop) s. 2 * (nat n - length out) + (if stop then 0 else 1)"])
    show "?I ([], False) s" using assms by simp
  next
    fix a t assume I: "?I a t" and g: "?g a"
    obtain out stop where a: "a = (out, stop)" by (cases a)
    with g have g': "int (length out) < n" "\<not> stop" by auto
    from I a have I': "inv t" "out @ rest t = rest s" "keep t = keep s" by auto
    have "length (rest t) \<le> length (rest s)" using arg_cong [OF I'(2), of length] by simp
    with assms(2) have "n < 2 ^ 31 \<or> length (rest t) < 2 ^ 31" by auto
    from xsgetn_step [OF I'(1) g'(1) this] obtain out' stop' t' where
      1: "xsgetn_turn vt n a t = Some (Ret (out', stop'), t')" "inv t'"
        "keep t' = keep t" "out' @ rest t' = out @ rest t" "int (length out') \<le> n"
        "if stop' then rest t' = [] \<and> out' = out else length out < length out'"
      using a g'(2) by auto
    have "?I (out', stop') t'" using 1(2-6) I'(2,3) g'(1) by (auto split: if_splits)
    moreover have "2 * (nat n - length out') + (if stop' then 0 else 1) <
        2 * (nat n - length out) + (if stop then 0 else 1 :: nat)"
      using 1(5,6) g' by (auto split: if_splits)
    ultimately show "\<exists>a' t'. xsgetn_turn vt n a t = Some (Ret a', t') \<and> ?I a' t' \<and>
        (\<lambda>(out, stop) s. 2 * (nat n - length out) + (if stop then 0 else 1)) a' t' <
        (\<lambda>(out, stop) s. 2 * (nat n - length out) + (if stop then 0 else 1)) a t"
      using 1(1) a by (intro exI [of _ "(out', stop')"] exI [of _ t'] conjI) simp_all
  qed
  then obtain a' s' where
    l': "io_loop ?g (xsgetn_turn vt n) ([], False) s = Some (Ret a', s')" "?I a' s'" "\<not> ?g a'" by blast
  obtain out stop where a': "a' = (out, stop)" by (cases a')
  note l = l' [unfolded a']
  then have "out = take (nat n) (rest s) \<and> rest s' = drop (nat n) (rest s)"
  proof (cases "int (length out) < n")
    case True
    with l have "rest s' = []" "out = rest s" by auto
    with True show ?thesis by auto
  next
    case False
    with l have "length out = nat n" by (cases "0 \<le> n") auto
    with l have "out @ rest s' = rest s" by simp
    with \<open>length out = nat n\<close> show ?thesis by (metis append_eq_conv_conj)
  qed
  with l show ?thesis by (auto simp: base_xsgetn_def)
qed

end

text \<open>The \<^verbatim>\<open>uflow\<close> of the base class is right for every get area.\<close>

locale base_source = get_area +
  assumes base: "v_uflow vt = base_uflow (v_underflow vt)"

sublocale base_source \<subseteq> char_source
  by unfold_locales (simp add: base base_uflow_reads)

section \<open>What a put area promises\<close>

text \<open>
  \<open>abs\<close> is what the buffer holds and where it writes, \<open>put\<close> the effect of one character on it, and \<open>fits\<close> tells
  what the buffer can hold, which is never as much as \<open>2 ^ 31\<close> characters more. As long as it fits, a
  character stored through the put pointer has this effect, and so has one given to \<^verbatim>\<open>overflow\<close> when
  the area is full.
\<close>

locale char_sink =
  fixes vt :: "('c, ('c, 'z) streambuf_scheme) vtable"
    and inv :: "('c, 'z) streambuf_scheme \<Rightarrow> bool"
    and abs :: "('c, 'z) streambuf_scheme \<Rightarrow> 'a"
    and put :: "'c \<Rightarrow> 'a \<Rightarrow> 'a"
    and fits :: "'a \<Rightarrow> bool"
  assumes room: "inv s \<Longrightarrow> pcur s \<le> pend s \<and> pend s \<le> length (sb_mem s)"
    and store: "inv s \<Longrightarrow> pcur s < pend s \<Longrightarrow> fits (put c (abs s)) \<Longrightarrow>
      inv (s\<lparr>sb_mem := (sb_mem s)[pcur s := c], pcur := Suc (pcur s)\<rparr>) \<and>
      abs (s\<lparr>sb_mem := (sb_mem s)[pcur s := c], pcur := Suc (pcur s)\<rparr>) = put c (abs s)"
    and fits_before: "fits (put c a) \<Longrightarrow> fits a"
    and fits_length: "fits (fold put cs a) \<Longrightarrow> length cs < 2 ^ 31"
    and overflow: "inv s \<Longrightarrow> pcur s = pend s \<Longrightarrow> fits (put c (abs s)) \<Longrightarrow>
      \<exists>s'. v_overflow vt (Some c) s = Some (Ret (Some c), s') \<and> inv s' \<and> abs s' = put c (abs s)"
begin

lemma fits_part: "fits (fold put cs a) \<Longrightarrow> fits a"
  by (induction cs arbitrary: a) (auto dest: fits_before)

lemma fits_first: "fits (fold put (c # cs) a) \<Longrightarrow> fits (put c a)"
  using fits_part [of cs "put c a"] by simp

lemma fits_take: "fits (fold put cs a) \<Longrightarrow> fits (fold put (take k cs) a)"
  by (rule fits_part [of "drop k cs"]) (simp flip: fold_append [THEN fun_cong, simplified comp_apply])

lemma sputc_puts:
  assumes "inv s" and "fits (put c (abs s))"
  shows "\<exists>s'. sputc vt c s = Some (Ret (Some c), s') \<and> inv s' \<and> abs s' = put c (abs s)"
proof (cases "pcur s = pend s")
  case True
  with overflow [OF assms(1) True assms(2)] show ?thesis by (simp add: sputc_def)
next
  case False
  with room [OF assms(1)] have "pcur s < pend s" by simp
  from store [OF assms(1) this assms(2)] False show ?thesis by (simp add: sputc_def)
qed

lemma copy_puts:
  "inv s \<Longrightarrow> pcur s + length cs \<le> pend s \<Longrightarrow> fits (fold put cs (abs s)) \<Longrightarrow>
   inv (pbump (int (length cs)) (mem_copy (pcur s) cs s)) \<and>
   abs (pbump (int (length cs)) (mem_copy (pcur s) cs s)) = fold put cs (abs s)"
proof (induction cs arbitrary: s)
  case Nil
  then show ?case by (simp add: pbump_def mem_copy_def)
next
  case (Cons c cs)
  let ?t = "s\<lparr>sb_mem := (sb_mem s)[pcur s := c], pcur := Suc (pcur s)\<rparr>"
  have room: "pcur s < length (sb_mem s)" using room [OF Cons.prems(1)] Cons.prems(2) by simp
  have len: "length (c # cs) < 2 ^ 31" by (rule fits_length [OF Cons.prems(3)])
  from store [OF Cons.prems(1) _ fits_first [OF Cons.prems(3)]] Cons.prems(2) have t: "inv ?t" "abs ?t = put c (abs s)" by auto
  have "take (Suc (pcur s)) ((sb_mem s)[pcur s := c]) = take (pcur s) (sb_mem s) @ [c]"
    using room by (simp add: take_Suc_conv_app_nth)
  then have eq: "pbump (int (length cs)) (mem_copy (pcur ?t) cs ?t) =
      pbump (int (length (c # cs))) (mem_copy (pcur s) (c # cs) s)"
    using len to_int_nat [OF len] by (simp add: pbump_def mem_copy_def nat_add_distrib algebra_simps)
  from Cons.IH [OF t(1)] Cons.prems(2,3) t(2) show ?case unfolding eq by simp
qed

lemma base_xsputn_puts:
  assumes "inv s" and "fits (fold put cs (abs s))"
  shows "\<exists>s'. base_xsputn vt cs s = Some (Ret (length cs), s') \<and> inv s' \<and> abs s' = fold put cs (abs s)"
proof (cases "length cs < pend s - pcur s")
  case True
  then have "pcur s + length cs \<le> pend s" by simp
  from copy_puts [OF assms(1) this assms(2)] True show ?thesis by (auto simp: base_xsputn_def)
next
  case False
  let ?I = "\<lambda>a t. inv t \<and> \<not> snd a \<and> fold put (fst a) (abs t) = fold put cs (abs s)"
  let ?g = "\<lambda>(cs, stop). cs \<noteq> [] \<and> \<not> stop"
  have "\<exists>a' s'. io_loop ?g (xsputn_turn vt) (cs, False) s = Some (Ret a', s') \<and> ?I a' s' \<and> \<not> ?g a'"
  proof (rule io_loop_total [where m = "\<lambda>a t. length (fst a)"])
    show "?I (cs, False) s" using assms by simp
  next
    fix a t assume I: "?I a t" and g: "?g a"
    obtain ds where a: "a = (ds, False)" "ds \<noteq> []" using g by (cases a) auto
    have room: "pcur t \<le> pend t" using room [of t] I by simp
    have f: "fits (fold put ds (abs t))" using I a(1) assms(2) by simp
    show "\<exists>a' t'. xsputn_turn vt a t = Some (Ret a', t') \<and> ?I a' t' \<and> length (fst a') < length (fst a)"
    proof (cases "pend t - pcur t = 0")
      case True
      have "fits (put (hd ds) (abs t))" using f a(2) fits_first [of "hd ds" "tl ds" "abs t"] by simp
      with sputc_puts [of t "hd ds"] I obtain t' where
        p: "sputc vt (hd ds) t = Some (Ret (Some (hd ds)), t')" "inv t'" "abs t' = put (hd ds) (abs t)"
        by auto
      then have "xsputn_turn vt a t = Some (Ret (tl ds, False), t')"
        using True a by (simp add: xsputn_turn_def)
      moreover have "fold put (tl ds) (abs t') = fold put ds (abs t)"
        using a(2) p(3) by (cases ds) auto
      ultimately show ?thesis using p I a by auto
    next
      case False
      define k where "k = (if length ds < pend t - pcur t then length ds else pend t - pcur t)"
      let ?u = "pbump (int k) (mem_copy (pcur t) (take k ds) t)"
      have k: "0 < k" "k \<le> length ds" "pcur t + k \<le> pend t"
        using False a(2) room by (auto simp: k_def)
      then have "inv ?u \<and> abs ?u = fold put (take k ds) (abs t)"
        using copy_puts [of t "take k ds"] I fits_take [OF f, of k] by (simp add: min_absorb2)
      moreover have "xsputn_turn vt a t = Some (Ret (drop k ds, False), ?u)"
        using False a by (simp add: xsputn_turn_def Let_def k_def)
      moreover have "fold put (drop k ds) (fold put (take k ds) (abs t)) = fold put ds (abs t)"
        by (metis append_take_drop_id fold_append o_apply)
      ultimately show ?thesis using k I a by auto
    qed
  qed
  then obtain a' s' where l: "io_loop ?g (xsputn_turn vt) (cs, False) s = Some (Ret a', s')"
    "?I a' s'" "\<not> ?g a'" by blast
  moreover from l have "a' = ([], False)" by (cases a') auto
  ultimately show ?thesis using False by (auto simp: base_xsputn_def)
qed

end

end
