(* ===== verification/Ios.thy ===== *)
theory Ios
  imports Ios_Base Locale_Cache Streambuf
begin

text \<open>
  The class template \<^verbatim>\<open>basic_ios\<close> (\<^verbatim>\<open>cxxrt/ios.h\<close>, \<^verbatim>\<open>srccxx/ios.cc\<close>): the state of a stream, its
  exception mask, its stream buffer and the stream it is tied to. The record extends that of
  \<^verbatim>\<open>ios_base\<close>; the stream buffer is part of it, \<open>None\<close> being a null pointer. Its locale is the facets
  the streams use. The stream a stream is tied to is another object: that it is flushed is recorded.

  Operations are those of the theory of the stream buffer, on the stream: they may throw. Using a
  null stream buffer has no defined result and is \<open>None\<close>.

  The output functions skip the sentry when two bits among the flags say that nothing is to be done.
  \<open>entry_ok\<close> is what these bits have to promise; the lemmas show which functions keep it and which do
  not.
\<close>

unbundle bit_operations_syntax

section \<open>The stream\<close>

record 'c facets =
  lf_numpunct :: "'c numpunct"
  lf_widen :: "char \<Rightarrow> 'c"
  lf_space :: "'c \<Rightarrow> bool"
  lf_cache :: "'c cache"

record ('c, 's) ios = "'c facets iosb" +
  io_sbuf :: "'s option"
  io_state :: iostate
  io_exceptions :: iostate
  io_tie :: "addr option"
  io_newline :: 'c
  io_fill :: 'c
  io_gcount :: int
  io_flushed :: "addr list"

type_synonym ('c, 's, 'a) stream_op = "(('c, 's) ios, 'a) io"

subsection \<open>Exceptions and the stream buffer\<close>

definition io_catch :: "('s, 'a) io \<Rightarrow> ('s, 'a) io \<Rightarrow> ('s, 'a) io" where
  "io_catch m h s = (case m s of Some (Throw, s') \<Rightarrow> h s' | r \<Rightarrow> r)"

definition on_sbuf :: "('s, 'a) io \<Rightarrow> ('c, 's, 'a) stream_op" where
  "on_sbuf m s = (case io_sbuf s of None \<Rightarrow> None
     | Some b \<Rightarrow> (case m b of None \<Rightarrow> None | Some (r, b') \<Rightarrow> Some (r, s\<lparr>io_sbuf := Some b'\<rparr>)))"

definition io_mod :: "('s \<Rightarrow> 's) \<Rightarrow> ('s, unit) io" where
  "io_mod f s = Some (Ret (), f s)"

definition io_read :: "('s \<Rightarrow> 'a) \<Rightarrow> ('s, 'a) io" where
  "io_read f s = Some (Ret (f s), s)"

lemma io_catch_ret [simp]: "m s = Some (Ret a, s') \<Longrightarrow> io_catch m h s = Some (Ret a, s')"
  by (simp add: io_catch_def)

lemma io_catch_throw [simp]: "m s = Some (Throw, s') \<Longrightarrow> io_catch m h s = h s'"
  by (simp add: io_catch_def)

lemma io_mod_apply [simp]: "io_mod f s = Some (Ret (), f s)"
  by (simp add: io_mod_def)

lemma io_read_apply [simp]: "io_read f s = Some (Ret (f s), s)"
  by (simp add: io_read_def)

lemma on_sbuf_ret:
  "io_sbuf s = Some b \<Longrightarrow> m b = Some (r, b') \<Longrightarrow> on_sbuf m s = Some (r, s\<lparr>io_sbuf := Some b'\<rparr>)"
  by (simp add: on_sbuf_def)

lemma on_sbuf_bind [simp]:
  "io_sbuf s = Some b \<Longrightarrow> m b = Some (Ret a, b') \<Longrightarrow>
   io_bind (on_sbuf m) f s = f a (s\<lparr>io_sbuf := Some b'\<rparr>)"
  by (simp add: on_sbuf_def io_bind_def)

subsection \<open>State\<close>

definition clear :: "iostate \<Rightarrow> ('c, 's, unit) stream_op" where
  "clear st s =
     (let s = s\<lparr>io_state := (if io_sbuf s = None then st OR badbit else st)\<rparr> in
      if io_state s AND io_exceptions s \<noteq> 0 then Some (Throw, s)
      else if io_state s = goodbit then io_ret () (unset_flag fl_os_good s)
      else io_ret () (set_flag fl_os_good s))"

definition setstate :: "iostate \<Rightarrow> ('c, 's, unit) stream_op" where
  "setstate st s = clear (io_state s OR st) s"

definition process_exception :: "('c, 's, unit) stream_op" where
  "process_exception s =
     (let s = set_flag fl_os_good (s\<lparr>io_state := io_state s OR badbit\<rparr>) in
      if io_exceptions s AND badbit \<noteq> 0 then Some (Throw, s) else io_ret () s)"

definition good :: "('c, 's) ios \<Rightarrow> bool" where "good s \<longleftrightarrow> io_state s = goodbit"
definition eof :: "('c, 's) ios \<Rightarrow> bool" where "eof s \<longleftrightarrow> io_state s AND eofbit \<noteq> 0"
definition fail :: "('c, 's) ios \<Rightarrow> bool" where "fail s \<longleftrightarrow> io_state s AND (failbit OR badbit) \<noteq> 0"
definition bad :: "('c, 's) ios \<Rightarrow> bool" where "bad s \<longleftrightarrow> io_state s AND badbit \<noteq> 0"

definition to_void_ptr :: "('c, 's) ios \<Rightarrow> bool" where
  "to_void_ptr s \<longleftrightarrow> io_state s AND (failbit OR badbit) = 0 \<and> io_sbuf s \<noteq> None"

definition set_exceptions :: "iostate \<Rightarrow> ('c, 's, unit) stream_op" where
  "set_exceptions ex s = clear (io_state s) (s\<lparr>io_exceptions := ex\<rparr>)"

subsection \<open>The other members\<close>

definition ios_init :: "'s option \<Rightarrow> ('c, 's) ios \<Rightarrow> ('c, 's) ios" where
  "ios_init sb s =
     (let s = s\<lparr>io_sbuf := sb, io_state := (if sb = None then badbit else goodbit)\<rparr>;
          s = (if sb = None then set_flag fl_os_good s else s);
          w = lf_widen (ib_loc s)
      in s\<lparr>io_exceptions := goodbit, io_tie := None, io_fill := w CHR '' '', io_newline := w CHR 0x0A\<rparr>)"

text \<open>The constructor from a stream buffer; the members a derived class adds start at zero.\<close>

definition ios_new :: "'c facets \<Rightarrow> 's option \<Rightarrow> 'c \<Rightarrow> ('c, 's) ios" where
  "ios_new loc sb zero =
     (let s = \<lparr>ib_flags = fl_dec OR fl_skipws, ib_precision = 6, ib_width = 0, ib_loc = loc,
        ib_list = None, ib_words = [], io_sbuf = sb, io_state = (if sb = None then badbit else goodbit),
        io_exceptions = goodbit, io_tie = None, io_newline = zero, io_fill = zero, io_gcount = 0,
        io_flushed = []\<rparr>
      in ios_init sb (if sb = None then set_flag fl_os_good s else s))"

definition rdbuf_set :: "'s option \<Rightarrow> ('c, 's, 's option) stream_op" where
  "rdbuf_set sb = io_bind (io_read io_sbuf) (\<lambda>old. io_bind (io_mod (io_sbuf_update (\<lambda>_. sb)))
     (\<lambda>_. io_bind (clear goodbit) (\<lambda>_. io_ret old)))"

definition tie_set :: "addr option \<Rightarrow> ('c, 's) ios \<Rightarrow> addr option \<times> ('c, 's) ios" where
  "tie_set t s = (io_tie s,
     (if t = None then unset_flag fl_os_tie (s\<lparr>io_tie := t\<rparr>) else set_flag fl_os_tie (s\<lparr>io_tie := t\<rparr>)))"

definition fill_set :: "'c \<Rightarrow> ('c, 's) ios \<Rightarrow> 'c \<times> ('c, 's) ios" where
  "fill_set f s = (io_fill s, s\<lparr>io_fill := f\<rparr>)"

text \<open>
  \<^verbatim>\<open>copyfmt\<close> between two different streams that have no callbacks, where the calls of the callbacks do nothing and the
  reference counts of their lists are not touched; what \<^verbatim>\<open>ios_base\<close> does with callbacks is \<open>ib_copyfmt\<close>.
\<close>

definition ios_copyfmt :: "('c, 's) ios \<Rightarrow> ('c, 's, unit) stream_op" where
  "ios_copyfmt cpy s =
     (let s = s\<lparr>io_tie := io_tie cpy\<rparr>;
          s = (if io_tie s = None then unset_flag fl_os_tie s else set_flag fl_os_tie s);
          s = s\<lparr>io_fill := io_fill cpy\<rparr>;
          s = s\<lparr>ib_flags := ib_flags cpy, ib_precision := ib_precision cpy, ib_width := ib_width cpy, ib_loc := ib_loc cpy,
                ib_list := ib_list cpy, ib_words := ib_words cpy\<rparr>
      in set_exceptions (io_exceptions cpy) s)"

definition widen :: "char \<Rightarrow> ('c, 's) ios \<Rightarrow> 'c" where
  "widen c s = lf_widen (ib_loc s) c"

section \<open>The two bits\<close>

text \<open>
  When the bits do not ask for a sentry, the stream is good, has a stream buffer, and has neither a
  tied stream nor unit buffering.
\<close>

definition entry_ok :: "('c, 's) ios \<Rightarrow> bool" where
  "entry_ok s \<longleftrightarrow> (\<not> need_osentry s \<longrightarrow> good s \<and> io_sbuf s \<noteq> None \<and> io_tie s = None \<and>
     ib_flags s AND fl_unitbuf = 0)"

lemma check_split: "(f :: fmtflags) AND fl_os_check = 0 \<longleftrightarrow>
    f AND fl_os_good = 0 \<and> f AND fl_os_tie = 0 \<and> f AND fl_unitbuf = 0"
proof -
  have m: "fl_os_check = fl_os_good OR (fl_os_tie OR fl_unitbuf)" by (simp add: flag_defs)
  show ?thesis
    unfolding m bit.conj_disj_distrib by (simp add: or_eq_0_iff)
qed

lemma flag_values:
  "fl_not fl_os_good AND fl_os_good = 0" "fl_not fl_os_good AND fl_os_tie = fl_os_tie"
  "fl_not fl_os_good AND fl_unitbuf = fl_unitbuf" "fl_not fl_os_tie AND fl_os_tie = 0"
  "fl_not fl_os_tie AND fl_os_good = fl_os_good" "fl_not fl_os_tie AND fl_unitbuf = fl_unitbuf"
  "fl_os_good AND fl_os_tie = 0" "fl_os_good AND fl_unitbuf = 0" "fl_os_tie AND fl_os_good = 0"
  "fl_os_tie AND fl_unitbuf = 0" "fl_os_good \<noteq> 0" "fl_os_tie \<noteq> 0"
  by (simp_all add: fl_not_def flag_defs)

lemmas flag_simps = set_flag_def unset_flag_def setf_def unsetf_def need_osentry_def check_split
  bit.conj_disj_distrib2 and.assoc flag_values or_eq_0_iff

lemma state_or_bad: "(st :: iostate) OR badbit \<noteq> goodbit" and "badbit \<noteq> goodbit"
  by (simp_all add: state_bits or_eq_0_iff)

text \<open>
  The stronger form the functions keep: each of the three bits stands for its own condition.
\<close>

definition bits_ok :: "('c, 's) ios \<Rightarrow> bool" where
  "bits_ok s \<longleftrightarrow> (ib_flags s AND fl_os_good = 0 \<longrightarrow> good s) \<and>
     (ib_flags s AND fl_os_tie = 0 \<longrightarrow> io_tie s = None) \<and> (good s \<longrightarrow> io_sbuf s \<noteq> None)"

lemma bits_entry: "bits_ok s \<Longrightarrow> entry_ok s"
  by (auto simp: bits_ok_def entry_ok_def need_osentry_def check_split)

lemma bits_ok_new: "bits_ok (ios_new loc sb zero)"
  by (auto simp: bits_ok_def ios_new_def ios_init_def Let_def good_def state_bits flag_simps)

lemma bits_ok_clear:
  assumes "io_tie s = None \<or> ib_flags s AND fl_os_tie \<noteq> 0"
    and "clear st s = Some (Ret (), s')"
  shows "bits_ok s'"
  using assms
  by (auto simp: clear_def bits_ok_def good_def Let_def flag_simps state_or_bad split: if_splits)

lemma bits_ok_setstate:
  assumes "bits_ok s" and "setstate st s = Some (Ret (), s')"
  shows "bits_ok s'"
  using assms by (auto simp: setstate_def bits_ok_def [of s] intro: bits_ok_clear)

lemma bits_ok_rdbuf:
  assumes "bits_ok s" and "rdbuf_set sb s = Some (Ret old, s')"
  shows "bits_ok s'"
proof -
  from assms(2) have "clear goodbit (s\<lparr>io_sbuf := sb\<rparr>) = Some (Ret (), s')"
    by (auto simp: rdbuf_set_def io_bind_def split: bind_splits outcome.splits)
  then show ?thesis using assms(1) by (intro bits_ok_clear) (auto simp: bits_ok_def)
qed

lemma bits_ok_tie: "bits_ok s \<Longrightarrow> bits_ok (snd (tie_set t s))"
  by (auto simp: bits_ok_def tie_set_def good_def flag_simps)

lemma bits_ok_process:
  assumes "bits_ok s" and "process_exception s = Some (r, s')"
  shows "bits_ok s'"
  using assms
  by (auto simp: process_exception_def bits_ok_def good_def Let_def flag_simps state_or_bad split: if_splits)

lemma bits_ok_flag:
  assumes "bits_ok s"
  shows "bits_ok (set_flag f s)" and "bits_ok (snd (width_set w s))" and "bits_ok (snd (fill_set c s))"
  using assms by (auto simp: bits_ok_def good_def flag_simps width_set_def fill_set_def)

text \<open>
  Setting a state that the exception mask asks for leaves the bits as they were: a stream that was
  good and fails in this way does not ask for a sentry any more.
\<close>

lemma clear_throw_leaves_bits:
  assumes "io_sbuf s \<noteq> None" and "\<not> need_osentry s" and "st AND io_exceptions s \<noteq> 0"
  shows "\<exists>s'. clear st s = Some (Throw, s') \<and> io_state s' = st \<and> \<not> need_osentry s'"
  using assms by (auto simp: clear_def need_osentry_def)

text \<open>Setting all flags of a failed stream has the same effect.\<close>

lemma flags_set_leaves_state:
  assumes "f AND fl_os_check = 0"
  shows "io_state (snd (flags_set f s)) = io_state s \<and> \<not> need_osentry (snd (flags_set f s))"
  using flags_set_forgets [OF assms] by (simp add: flags_set_def)

section \<open>Every sequence of operations on a stream\<close>

text \<open>
  The operations a program has on a stream, without callbacks. A mask given to the setters is one of format
  flags; all flags are set at once only if the bits set are right for the stream as it is, which a stream that is good and not tied
  allows for all of them; and the stream whose format is copied keeps to the same rules.
\<close>

datatype ('c, 's) ios_act =
  Clear iostate | Setstate iostate | Exceptions iostate | Tie "addr option" | Width int | Fill 'c
  | Setf fmtflags | Unsetf fmtflags | Setmask fmtflags fmtflags | Exception | Precision int
  | Flags fmtflags | Rdbuf "'s option" | Copyfmt "('c, 's) ios"

definition fmt_only :: "fmtflags \<Rightarrow> bool" where
  "fmt_only f \<longleftrightarrow> f AND (fl_os_good OR fl_os_tie) = 0"

fun act_ok :: "('c, 's) ios_act \<Rightarrow> ('c, 's) ios \<Rightarrow> bool" where
  "act_ok (Setf f) s = fmt_only f"
| "act_ok (Unsetf f) s = fmt_only f"
| "act_ok (Setmask f m) s = fmt_only m"
| "act_ok (Flags f) s = ((f AND fl_os_good = 0 \<longrightarrow> good s) \<and> (f AND fl_os_tie = 0 \<longrightarrow> io_tie s = None))"
| "act_ok (Copyfmt cpy) s = (bits_ok cpy \<and> ib_list cpy = None \<and> ib_list s = None)"
| "act_ok _ s = True"

fun act :: "('c, 's) ios_act \<Rightarrow> ('c, 's, unit) stream_op" where
  "act (Clear st) = clear st"
| "act (Setstate st) = setstate st"
| "act (Exceptions ex) = set_exceptions ex"
| "act (Tie t) = io_mod (\<lambda>s. snd (tie_set t s))"
| "act (Width w) = io_mod (\<lambda>s. snd (width_set w s))"
| "act (Fill c) = io_mod (\<lambda>s. snd (fill_set c s))"
| "act (Setf f) = io_mod (set_flag f)"
| "act (Unsetf f) = io_mod (unset_flag f)"
| "act (Setmask f m) = io_mod (set_field f m)"
| "act Exception = process_exception"
| "act (Precision p) = io_mod (\<lambda>s. snd (precision_set p s))"
| "act (Flags f) = io_mod (\<lambda>s. snd (flags_set f s))"
| "act (Rdbuf sb) = io_bind (rdbuf_set sb) (\<lambda>_. io_ret ())"
| "act (Copyfmt cpy) = ios_copyfmt cpy"

text \<open>Running the operations up to the first that throws.\<close>

fun acts :: "('c, 's) ios_act list \<Rightarrow> ('c, 's, unit) stream_op" where
  "acts [] = io_ret ()"
| "acts (a # as) = io_bind (act a) (\<lambda>_. acts as)"

fun acts_ok :: "('c, 's) ios_act list \<Rightarrow> ('c, 's) ios \<Rightarrow> bool" where
  "acts_ok [] s = True"
| "acts_ok (a # as) s = (act_ok a s \<and> (case act a s of Some (Ret _, s) \<Rightarrow> acts_ok as s | _ \<Rightarrow> True))"

lemma fmt_only_keeps:
  assumes "fmt_only f"
  shows "fl_not f AND fl_os_good = fl_os_good" and "fl_not f AND fl_os_tie = fl_os_tie"
    and "f AND fl_os_good = 0" and "f AND fl_os_tie = 0"
proof -
  from assms show "f AND fl_os_good = 0" "f AND fl_os_tie = 0"
    by (simp_all add: fmt_only_def bit.conj_disj_distrib or_eq_0_iff)
  then show "fl_not f AND fl_os_good = fl_os_good" "fl_not f AND fl_os_tie = fl_os_tie"
    by (simp_all add: fl_not_def bit.conj_xor_distrib2 fl_fmtall_def fl_os_good_def fl_os_tie_def)
qed

lemma bits_ok_act:
  assumes "bits_ok s" and "act_ok a s" and "act a s = Some (Ret (), s')"
  shows "bits_ok s'"
proof (cases a)
  case (Clear st)
  with assms show ?thesis by (auto simp: bits_ok_def [of s] intro: bits_ok_clear)
next
  case (Setstate st)
  with assms show ?thesis by (auto intro: bits_ok_setstate)
next
  case (Exceptions ex)
  with assms show ?thesis
    by (auto simp: set_exceptions_def bits_ok_def [of s] intro!: bits_ok_clear [of "s\<lparr>io_exceptions := ex\<rparr>"])
next
  case (Tie t)
  with assms show ?thesis by (auto intro: bits_ok_tie)
next
  case (Unsetf f)
  with assms fmt_only_keeps [of f] show ?thesis by (auto simp: bits_ok_def good_def flag_simps)
next
  case (Setmask f m)
  with assms fmt_only_keeps [of m] show ?thesis
    by (auto simp: bits_ok_def good_def set_field_def setf_mask_def bit.conj_disj_distrib2 and.assoc or_eq_0_iff)
next
  case Exception
  with assms show ?thesis by (auto intro: bits_ok_process)
next
  case (Precision p)
  with assms show ?thesis by (auto simp: bits_ok_def good_def precision_set_def)
next
  case (Flags f)
  with assms show ?thesis by (auto simp: bits_ok_def good_def flags_set_def)
next
  case (Rdbuf sb)
  with assms(3) obtain old where "rdbuf_set sb s = Some (Ret old, s')"
    by (auto simp: io_bind_def io_ret_def split: bind_splits outcome.splits)
  with assms(1) show ?thesis by (rule bits_ok_rdbuf)
next
  case (Copyfmt cpy)
  with assms show ?thesis by (auto simp: ios_copyfmt_def set_exceptions_def Let_def bits_ok_def [of cpy]
      set_flag_def unset_flag_def setf_def unsetf_def elim!: bits_ok_clear [rotated])
qed (use assms in \<open>auto intro: bits_ok_flag\<close>)

lemma bits_ok_acts:
  assumes "bits_ok s" and "acts_ok as s" and "acts as s = Some (Ret (), s')"
  shows "bits_ok s'"
  using assms
proof (induction as arbitrary: s)
  case (Cons a as)
  from Cons.prems(3) obtain t where "act a s = Some (Ret (), t)" "acts as t = Some (Ret (), s')"
    by (auto simp: io_bind_def split: bind_splits outcome.splits)
  with Cons show ?case by (auto intro: bits_ok_act)
qed simp

text \<open>
  C27: After every sequence of operations on a new stream in which none throws, the masks given
  to the setters are format flags, \<^verbatim>\<open>flags(f)\<close> sets the internal bits that a stream which is not good or is tied needs, and formats are copied between streams
  without callbacks, from one whose bits are right: a stream that does not ask for a sentry is good, has a stream
  buffer and needs no flushing, so that the output functions may leave the sentry out. Without these
  conditions it is not so, see above.
\<close>

theorem stream_bits_invariant:
  assumes "acts_ok as (ios_new loc sb zero)" and "acts as (ios_new loc sb zero) = Some (Ret (), s)"
  shows "need_osentry s \<or> (good s \<and> io_sbuf s \<noteq> None \<and> io_tie s = None \<and> ib_flags s AND fl_unitbuf = 0)"
  using bits_entry [OF bits_ok_acts [OF bits_ok_new assms]] by (auto simp: entry_ok_def)

text \<open>
  The facets of the examples: the characters of the C locale and a grouping; the examples do not look
  up classes of characters.
\<close>

definition plain_facets :: "int list \<Rightarrow> char facets" where
  "plain_facets g = \<lparr>lf_numpunct = \<lparr>np_grouping = g, np_thousands_sep = CHR '','', np_decimal_point = CHR ''.'',
       np_truename = ''true'', np_falsename = ''false''\<rparr>,
     lf_widen = id, lf_space = (\<lambda>c. c = CHR '' ''),
     lf_cache = \<lparr>m_grouping = g, m_scan_table = [], m_vals_table = [],
       m_lower_table = ''0123456789abcdef+-bx,.'', m_upper_table = ''0123456789ABCDEF+-BX,.''\<rparr>\<rparr>"

text \<open>A stream that fails asks for the sentry, and does not any more once its state is cleared.\<close>

theorem stream_bits_invariant_witness:
  "\<exists>s s'. acts [Setstate failbit] (ios_new (plain_facets []) (Some ()) CHR 0x00) = Some (Ret (), s) \<and> need_osentry s \<and>
     acts [Setstate failbit, Tie (Some 5), Tie None, Clear goodbit, Flags fl_hex, Rdbuf (Some ()),
       Copyfmt (ios_new (plain_facets []) None CHR 0x00)] (ios_new (plain_facets []) (Some ()) CHR 0x00) = Some (Ret (), s') \<and>
     \<not> need_osentry s' \<and> good s' \<and> io_tie s' = None"
proof -
  let ?s0 = "ios_new (plain_facets []) (Some ()) CHR 0x00"
  let ?as = "[Setstate failbit, Tie (Some 5), Tie None, Clear goodbit, Flags fl_hex, Rdbuf (Some ()),
    Copyfmt (ios_new (plain_facets []) None CHR 0x00)] :: (char, unit) ios_act list"
  let ?last = "\<lambda>as. snd (the (acts as ?s0))"
  note d = ios_new_def ios_init_def setstate_def clear_def tie_set_def need_osentry_def state_bits rdbuf_set_def ios_copyfmt_def set_exceptions_def
      set_flag_def unset_flag_def setf_def unsetf_def fl_not_def flag_defs flags_set_def good_def Let_def
  have ok: "acts [Setstate failbit] ?s0 = Some (Ret (), ?last [Setstate failbit])" "acts ?as ?s0 = Some (Ret (), ?last ?as)"
    "need_osentry (?last [Setstate failbit])" "\<not> need_osentry (?last ?as)"
    by (simp_all add: d)
  have "bits_ok (ios_new (plain_facets []) (None :: unit option) CHR 0x00)" by (rule bits_ok_new)
  moreover have "ib_list (ios_new (plain_facets []) sb CHR 0x00) = None" for sb :: "unit option" by (simp add: d)
  ultimately have "acts_ok ?as ?s0" by (simp add: d)
  with stream_bits_invariant [OF _ ok(2)] ok show ?thesis by blast
qed

end
