(* ===== verification/Num_Put.thy ===== *)
theory Num_Put
  imports Ios
begin

text \<open>
  Formatted output of integers: the facet \<^verbatim>\<open>num_put\<close> (\<^verbatim>\<open>srccxx/num_put.cc\<close>). An \<^verbatim>\<open>unsigned long\<close> is a
  64-bit word; a \<^verbatim>\<open>long\<close> is such a word read with its sign. The source fills a buffer of 64
  characters from its end: the text written so far is the list \<open>out\<close>, and the position where fill
  characters go is given by the number of characters behind it. Text that does not fit into the
  buffer has no defined result.

  The template functions for an output iterator are modelled in the form specialised for the
  iterator on a stream buffer, which is the one the streams use: the state is that of the buffer, and
  the flag the iterator keeps is passed along.
\<close>

unbundle bit_operations_syntax

section \<open>Formatting\<close>

type_synonym ulong = "64 word"

subsection \<open>Digits\<close>

definition char_max :: int where "char_max = 127"

definition digit_loop :: "ulong \<Rightarrow> 'c list \<Rightarrow> ulong \<times> 'c list \<Rightarrow> (ulong \<times> 'c list) option" where
  "digit_loop b cvt = loop_while (\<lambda>(v, out). v > 0)
     (\<lambda>(v, out). Some (v div b, cvt ! unat (v mod b) # out))"

definition grouped_turn :: "ulong \<Rightarrow> int list \<Rightarrow> 'c list \<Rightarrow> ulong \<times> 'c list \<times> nat \<times> int \<Rightarrow>
    ulong \<times> 'c list \<times> nat \<times> int" where
  "grouped_turn b g cvt = (\<lambda>(v, out, gi, ns).
     let (out, gi, ns) =
       (if ns = 1 then
          if gi < length g then (cvt ! separator_index # out, gi + 1, g ! gi)
          else (cvt ! separator_index # out, gi, g ! (gi - 1))
        else (out, gi, ns - 1))
     in (v div b, cvt ! unat (v mod b) # out, gi, ns))"

definition grouped_loop :: "ulong \<Rightarrow> int list \<Rightarrow> 'c list \<Rightarrow> ulong \<times> 'c list \<times> nat \<times> int \<Rightarrow>
    (ulong \<times> 'c list \<times> nat \<times> int) option" where
  "grouped_loop b g cvt = loop_while (\<lambda>(v, out, gi, ns). v > 0) (\<lambda>s. Some (grouped_turn b g cvt s))"

definition cs_digits :: "ulong \<Rightarrow> int list \<Rightarrow> ulong \<Rightarrow> 'c list \<Rightarrow> 'c list \<Rightarrow> 'c list option" where
  "cs_digits base g v out cvt =
     (if v = 0 then Some (cvt ! 0 # out)
      else if g = [] \<or> g ! 0 = char_max then
        map_option snd
          (if base = 8 then digit_loop 8 cvt (v, out)
           else if base = 10 then digit_loop 10 cvt (v, out)
           else if base = 16 then digit_loop 16 cvt (v, out)
           else digit_loop base cvt (v, out))
      else map_option (\<lambda>(v, out, gi, ns). out) (grouped_loop base g cvt (v, out, 1, g ! 0 + 1)))"

subsection \<open>Sign and prefix\<close>

definition cs_sign :: "bool \<Rightarrow> fmtflags \<Rightarrow> 'c list \<Rightarrow> 'c list \<Rightarrow> 'c list" where
  "cs_sign neg fmt out cvt =
     (if neg then cvt ! negative_index # out
      else if fmt AND fl_showpos \<noteq> 0 then cvt ! positive_index # out
      else out)"

definition cs_prefix :: "ulong \<Rightarrow> fmtflags \<Rightarrow> 'c list \<Rightarrow> ulong \<Rightarrow> bool \<Rightarrow> 'c list \<Rightarrow> 'c list" where
  "cs_prefix base fmt out v neg cvt =
     (if fl_showbase AND fmt \<noteq> 0 then
        if base = 2 then cvt ! 0 # cvt ! binary_index # out
        else if base = 8 then if v \<noteq> 0 then cvt ! 0 # out else out
        else if base = 16 then cvt ! 0 # cvt ! hexadecimal_index # out
        else if base = 10 then cs_sign neg fmt out cvt
        else out
      else if base = 10 then cs_sign neg fmt out cvt
      else out)"

subsection \<open>The whole number\<close>

definition fmt_base :: "fmtflags \<Rightarrow> ulong" where
  "fmt_base fmt = (let b = ucast (fmt AND fl_basefield) + 1 in if b = 1 then 10 else b)"

text \<open>
  The value of type \<^verbatim>\<open>long\<close> or \<^verbatim>\<open>unsigned long\<close> is a word, with whether the type is signed. Negating
  the smallest \<^verbatim>\<open>long\<close> is undefined: there is no result.
\<close>

definition is_negative :: "bool \<Rightarrow> fmtflags \<Rightarrow> ulong \<Rightarrow> bool" where
  "is_negative sg fmt v \<longleftrightarrow> sg \<and> sint v < 0 \<and> fmt_base fmt = 10"

definition magnitude :: "bool \<Rightarrow> fmtflags \<Rightarrow> ulong \<Rightarrow> ulong" where
  "magnitude sg fmt v = (if is_negative sg fmt v then - v else v)"

definition long_min :: ulong where
  "long_min = 2 ^ 63"

definition cs_format :: "fmtflags \<Rightarrow> int list \<Rightarrow> bool \<Rightarrow> ulong \<Rightarrow> 'c list \<Rightarrow> ('c list \<times> nat) option" where
  "cs_format fmt g sg v cvt =
     (let base = fmt_base fmt; neg = is_negative sg fmt v; adj = fmt AND fl_adjustfield in
      if neg \<and> v = long_min then None
      else do {
        ds \<leftarrow> cs_digits base g (magnitude sg fmt v) [] cvt;
        let out = cs_prefix base fmt ds v neg cvt;
        Some (out,
          if adj = fl_left then 0
          else if adj = fl_internal then if base \<noteq> 8 then length ds else 0
          else length out)
      })"

definition do_num_put_long :: "fmtflags \<Rightarrow> int list \<Rightarrow> ulong \<Rightarrow> 'c list \<Rightarrow> ('c list \<times> nat) option" where
  "do_num_put_long fmt g v cvt = cs_format fmt g True v cvt"

definition do_num_put_ulong :: "fmtflags \<Rightarrow> int list \<Rightarrow> ulong \<Rightarrow> 'c list \<Rightarrow> ('c list \<times> nat) option" where
  "do_num_put_ulong fmt g v cvt = cs_format fmt g False v cvt"

definition do_num_put_pointer :: "fmtflags \<Rightarrow> int list \<Rightarrow> ulong \<Rightarrow> 'c list \<Rightarrow> ('c list \<times> nat) option" where
  "do_num_put_pointer fmt g v cvt = cs_format ((fmt AND fl_not fl_basefield) OR fl_hex) g True v cvt"

section \<open>Writing through an iterator on a stream buffer\<close>

text \<open>The number of fill characters and the room for them are of type \<^verbatim>\<open>int\<close>.\<close>

definition fill_turn :: "('c, ('c, 'z) streambuf_scheme) vtable \<Rightarrow> 'c \<Rightarrow> int \<Rightarrow>
    (('c, 'z) streambuf_scheme, int) io" where
  "fill_turn vt fill n s =
     (let t = to_int (int (pend s) - int (pcur s)) in
      if t > 0 then
        let t = (if t > n then n else t)
        in io_ret (n - t) (pbump t (mem_copy (pcur s) (replicate (nat t) fill) s))
      else io_bind (sputc vt fill) (\<lambda>_. io_ret (n - 1)) s)"

definition os_fill_n :: "('c, ('c, 'z) streambuf_scheme) vtable \<Rightarrow> int \<Rightarrow> 'c \<Rightarrow>
    (('c, 'z) streambuf_scheme, unit) io" where
  "os_fill_n vt n fill = io_bind (io_loop (\<lambda>n. n > 0) (fill_turn vt fill) (to_int n)) (\<lambda>_. io_ret ())"

text \<open>Assigning to the iterator sets its flag when the buffer refuses the character.\<close>

definition osit_assign :: "('c, ('c, 'z) streambuf_scheme) vtable \<Rightarrow> 'c \<Rightarrow> bool \<Rightarrow>
    (('c, 'z) streambuf_scheme, bool) io" where
  "osit_assign vt c failed = io_bind (sputc vt c) (\<lambda>r. io_ret (if r = None then True else failed))"

fun osit_assign_all :: "('c, ('c, 'z) streambuf_scheme) vtable \<Rightarrow> 'c list \<Rightarrow> bool \<Rightarrow>
    (('c, 'z) streambuf_scheme, bool) io" where
  "osit_assign_all vt [] failed = io_ret failed"
| "osit_assign_all vt (c # cs) failed = io_bind (osit_assign vt c failed) (osit_assign_all vt cs)"

definition os_num_copy :: "('c, ('c, 'z) streambuf_scheme) vtable \<Rightarrow> 'c list \<Rightarrow> bool \<Rightarrow>
    (('c, 'z) streambuf_scheme, bool) io" where
  "os_num_copy vt cs failed s =
     (if int (length cs) < int (pend s) - int (pcur s)
      then io_ret failed (mem_copy (pcur s) cs (pbump (int (length cs)) s))
      else osit_assign_all vt cs failed s)"

definition copy_turn :: "('c, ('c, 'z) streambuf_scheme) vtable \<Rightarrow> 'c list \<Rightarrow>
    (('c, 'z) streambuf_scheme, 'c list) io" where
  "copy_turn vt cs s =
     (let n = int (pend s) - int (pcur s) in
      if n \<noteq> 0 then
        let n = (if int (length cs) < n then int (length cs) else n)
        in io_ret (drop (nat n) cs) (pbump n (mem_copy (pcur s) (take (nat n) cs) s))
      else io_bind (sputc vt (hd cs)) (\<lambda>_. io_ret (tl cs)) s)"

definition os_copy :: "('c, ('c, 'z) streambuf_scheme) vtable \<Rightarrow> 'c list \<Rightarrow>
    (('c, 'z) streambuf_scheme, unit) io" where
  "os_copy vt cs = io_bind (io_loop (\<lambda>cs. cs \<noteq> []) (copy_turn vt) cs) (\<lambda>_. io_ret ())"

section \<open>The facet\<close>

definition digit_chars :: "('c, 's) ios \<Rightarrow> 'c list" where
  "digit_chars s =
     (if flags_get s AND fl_uppercase \<noteq> 0 then m_upper_table (lf_cache (ib_loc s))
      else m_lower_table (lf_cache (ib_loc s)))"

text \<open>
  \<^verbatim>\<open>_CS_new_num_put\<close>, given one of the formatting functions. The width is reset when it was set.
\<close>

definition new_num_put :: "('c, ('c, 'z) streambuf_scheme) vtable \<Rightarrow>
    (fmtflags \<Rightarrow> int list \<Rightarrow> ulong \<Rightarrow> 'c list \<Rightarrow> ('c list \<times> nat) option) \<Rightarrow> ulong \<Rightarrow>
    ('c, ('c, 'z) streambuf_scheme, bool) stream_op" where
  "new_num_put vt fm v s =
     (case fm (flags_get s) (m_grouping (lf_cache (ib_loc s))) v (digit_chars s) of
        None \<Rightarrow> None
      | Some (out, fp) \<Rightarrow>
          if length out > 64 then None
          else if ib_width s \<noteq> 0 then
            let (w, s) = width_set 0 s; f = to_int (w - int (length out)); k = length out - fp in
            if f > 0 then
              io_bind (on_sbuf (os_num_copy vt (take k out) False)) (\<lambda>failed.
              io_bind (on_sbuf (os_fill_n vt f (io_fill s))) (\<lambda>_.
              on_sbuf (os_num_copy vt (drop k out) failed))) s
            else on_sbuf (os_num_copy vt out False) s
          else on_sbuf (os_num_copy vt out False) s)"

definition do_put_long :: "('c, ('c, 'z) streambuf_scheme) vtable \<Rightarrow> ulong \<Rightarrow>
    ('c, ('c, 'z) streambuf_scheme, bool) stream_op" where
  "do_put_long vt v = new_num_put vt do_num_put_long v"

definition do_put_ulong :: "('c, ('c, 'z) streambuf_scheme) vtable \<Rightarrow> ulong \<Rightarrow>
    ('c, ('c, 'z) streambuf_scheme, bool) stream_op" where
  "do_put_ulong vt v = new_num_put vt do_num_put_ulong v"

definition do_put_pointer :: "('c, ('c, 'z) streambuf_scheme) vtable \<Rightarrow> ulong \<Rightarrow>
    ('c, ('c, 'z) streambuf_scheme, bool) stream_op" where
  "do_put_pointer vt v = new_num_put vt do_num_put_pointer v"

definition do_put_bool :: "('c, ('c, 'z) streambuf_scheme) vtable \<Rightarrow> bool \<Rightarrow>
    ('c, ('c, 'z) streambuf_scheme, bool) stream_op" where
  "do_put_bool vt b s =
     (if flags_get s AND fl_boolalpha = 0 then do_put_long vt (if b then 1 else 0) s
      else
        let np = lf_numpunct (ib_loc s);
            str = (if b then np_truename np else np_falsename np);
            n = ib_width s - int (length str)
        in io_bind
             (if flags_get s AND fl_adjustfield = fl_left
              then io_bind (on_sbuf (os_copy vt str)) (\<lambda>_. on_sbuf (os_fill_n vt n (io_fill s)))
              else io_bind (on_sbuf (os_fill_n vt n (io_fill s))) (\<lambda>_. on_sbuf (os_copy vt str)))
             (\<lambda>_. io_bind (io_mod (\<lambda>s. snd (width_set 0 s))) (\<lambda>_. io_ret False)) s)"

section \<open>The digits\<close>

text \<open>The digits of a number, the most significant first; zero has none.\<close>

function base_digits :: "nat \<Rightarrow> nat \<Rightarrow> nat list" where
  "base_digits b n = (if n = 0 \<or> b < 2 then [] else base_digits b (n div b) @ [n mod b])"
  by pat_completeness auto
termination by (relation "measure snd") auto

declare base_digits.simps [simp del]

definition digits_value :: "nat \<Rightarrow> nat list \<Rightarrow> nat" where
  "digits_value b ds = foldl (\<lambda>a d. a * b + d) 0 ds"

lemma base_digits_0 [simp]: "base_digits b 0 = []"
  by (simp add: base_digits.simps)

lemma base_digits_step: "0 < n \<Longrightarrow> 2 \<le> b \<Longrightarrow> base_digits b n = base_digits b (n div b) @ [n mod b]"
  by (subst base_digits.simps) simp

lemma base_digits_value: "2 \<le> b \<Longrightarrow> digits_value b (base_digits b n) = n"
proof (induction b n rule: base_digits.induct)
  case (1 b n)
  then show ?case by (cases "n = 0") (auto simp: base_digits_step digits_value_def)
qed

lemma base_digits_less: "d \<in> set (base_digits b n) \<Longrightarrow> d < b"
proof (induction b n rule: base_digits.induct)
  case (1 b n)
  then show ?case by (cases "n = 0 \<or> b < 2") (auto simp: base_digits.simps [of b n])
qed

lemma base_digits_length: "2 \<le> b \<Longrightarrow> n < b ^ k \<Longrightarrow> length (base_digits b n) \<le> k"
proof (induction b n arbitrary: k rule: base_digits.induct)
  case (1 b n)
  show ?case
  proof (cases "n = 0")
    case False
    with 1 obtain k' where k: "k = Suc k'" by (cases k) auto
    with 1 have "n div b < b ^ k'" by (simp add: less_mult_imp_div_less mult.commute)
    with 1 False k show ?thesis by (simp add: base_digits_step)
  qed simp
qed

lemma base_digits_head: "2 \<le> b \<Longrightarrow> 0 < n \<Longrightarrow> base_digits b n \<noteq> [] \<and> hd (base_digits b n) \<noteq> 0"
proof (induction b n rule: base_digits.induct)
  case (1 b n)
  show ?case
  proof (cases "n div b = 0")
    case True
    with 1 have "n < b" by (simp add: div_eq_0_iff)
    with 1 True show ?thesis by (simp add: base_digits_step)
  next
    case False
    with 1 have "base_digits b (n div b) \<noteq> []" "hd (base_digits b (n div b)) \<noteq> 0" by auto
    with 1 show ?thesis by (subst (1 2) base_digits_step) simp_all
  qed
qed

lemma digit_loop_result:
  assumes "2 \<le> unat b"
  shows "digit_loop b cvt (v, out) = Some (0, map ((!) cvt) (base_digits (unat b) (unat v)) @ out)"
proof (induction "unat v" arbitrary: v out rule: less_induct)
  case less
  show ?case
  proof (cases "v = 0")
    case True
    then show ?thesis by (simp add: digit_loop_def)
  next
    case False
    then have pos: "0 < v" "0 < unat v" by (simp_all add: word_gt_0 unat_gt_0)
    have lt: "unat (v div b) < unat v" using assms pos by (simp add: unat_div)
    have "digit_loop b cvt (v, out) = digit_loop b cvt (v div b, cvt ! unat (v mod b) # out)"
      unfolding digit_loop_def using pos by (subst loop_while_step) auto
    also have "\<dots> = Some (0, map ((!) cvt) (base_digits (unat b) (unat (v div b))) @ cvt ! unat (v mod b) # out)"
      by (rule less.hyps [OF lt])
    finally show ?thesis
      using assms pos by (simp add: unat_div unat_mod base_digits_step [of "unat v"])
  qed
qed

section \<open>Grouping\<close>

text \<open>
  The separators the loop writes, on digits given from the least significant on, and what a grouping
  means: the groups, from the right, have the sizes the grouping gives, the last of which repeats, and
  a size that is not positive ends the grouping.
\<close>

fun grouped_from :: "int list \<Rightarrow> nat \<Rightarrow> int \<Rightarrow> nat list \<Rightarrow> nat list" where
  "grouped_from g gi ns [] = []"
| "grouped_from g gi ns (d # ds) =
     (if ns = 1 then
        separator_index # d #
          (if gi < length g then grouped_from g (gi + 1) (g ! gi) ds else grouped_from g gi (g ! (gi - 1)) ds)
      else d # grouped_from g gi (ns - 1) ds)"

definition group_size :: "int list \<Rightarrow> nat \<Rightarrow> nat" where
  "group_size g i = nat (g ! min i (length g - 1))"

function sep_groups :: "int list \<Rightarrow> nat \<Rightarrow> nat list \<Rightarrow> nat list" where
  "sep_groups g i ds =
     (let n = group_size g i in
      if n = 0 \<or> length ds \<le> n then ds
      else take n ds @ separator_index # sep_groups g (i + 1) (drop n ds))"
  by pat_completeness auto
termination by (relation "measure (\<lambda>(g, i, ds). length ds)") auto

declare sep_groups.simps [simp del]

lemma grouped_from_none: "ns \<le> 0 \<Longrightarrow> grouped_from g gi ns ds = ds"
  by (induction ds arbitrary: ns) auto

lemma grouped_from_skip:
  "grouped_from g gi (int k + 1) ds = (if length ds \<le> k then ds else take k ds @ grouped_from g gi 1 (drop k ds))"
proof (induction ds arbitrary: k)
  case (Cons d ds)
  then show ?case by (cases k) (auto simp: add.commute)
qed simp

lemma grouped_from_next:
  assumes "gi = min (i + 1) (length g)" and "g \<noteq> []"
  shows "grouped_from g gi 1 (d # ds) = separator_index # d #
    grouped_from g (min (i + 2) (length g)) (g ! min (i + 1) (length g - 1)) ds"
proof (cases "i + 1 < length g")
  case True
  then have "min (i + 1) (length g) = i + 1" "min (i + 2) (length g) = i + 2"
    "min (i + 1) (length g - 1) = i + 1" by auto
  with assms True show ?thesis by simp
next
  case False
  then have "min (i + 1) (length g) = length g" "min (i + 2) (length g) = length g"
    "min (i + 1) (length g - 1) = length g - 1" by auto
  with assms show ?thesis by simp
qed

lemma grouped_from_sep_groups:
  assumes "g \<noteq> []"
  shows "g ! min i (length g - 1) \<noteq> 0 \<Longrightarrow>
    grouped_from g (min (i + 1) (length g)) (g ! min i (length g - 1) + 1) ds = sep_groups g i ds"
  using assms
proof (induction g i ds rule: sep_groups.induct)
  case (1 g i ds)
  define n where "n = group_size g i"
  show ?case
  proof (cases "n = 0")
    case True
    with 1(2) have "g ! min i (length g - 1) + 1 \<le> 0" by (simp add: n_def group_size_def)
    with True show ?thesis
      by (subst sep_groups.simps) (simp add: grouped_from_none n_def [symmetric] Let_def)
  next
    case False
    then have n: "g ! min i (length g - 1) = int n" by (simp add: n_def group_size_def)
    show ?thesis
    proof (cases "length ds \<le> n")
      case True
      with n show ?thesis
        by (subst sep_groups.simps) (simp add: grouped_from_skip n_def [symmetric] Let_def)
    next
      case len: False
      then obtain e es where e: "drop n ds = e # es" by (cases "drop n ds") auto
      let ?m = "g ! min (i + 1) (length g - 1)"
      have step: "separator_index # e # grouped_from g (min (i + 2) (length g)) ?m es =
          separator_index # sep_groups g (i + 1) (e # es)"
      proof (cases "?m \<le> 0")
        case True
        then have "sep_groups g (i + 1) (e # es) = e # es"
          by (subst sep_groups.simps) (simp add: group_size_def)
        with True show ?thesis by (simp add: grouped_from_none)
      next
        case False
        have "grouped_from g (min (i + 1 + 1) (length g)) (?m + 1) (e # es) = sep_groups g (i + 1) (e # es)"
          using 1(1) [OF n_def] \<open>n \<noteq> 0\<close> len e 1(3) False by auto
        with False show ?thesis by (simp add: add.commute)
      qed
      have "grouped_from g (min (i + 1) (length g)) (int n + 1) ds =
          take n ds @ grouped_from g (min (i + 1) (length g)) 1 (e # es)"
        using len e by (simp add: grouped_from_skip)
      also have "\<dots> = take n ds @ separator_index # sep_groups g (i + 1) (e # es)"
        using grouped_from_next [of "min (i + 1) (length g)" i g e es] step 1(3) by simp
      finally show ?thesis
        using n False len e by (subst sep_groups.simps) (simp add: n_def [symmetric] Let_def)
    qed
  qed
qed

lemma grouped_loop_result:
  assumes "2 \<le> unat b"
  shows "\<exists>gi' ns'. grouped_loop b g cvt (v, out, gi, ns) =
    Some (0, map ((!) cvt) (rev (grouped_from g gi ns (rev (base_digits (unat b) (unat v))))) @ out, gi', ns')"
proof (induction "unat v" arbitrary: v out gi ns rule: less_induct)
  case less
  show ?case
  proof (cases "v = 0")
    case True
    then show ?thesis by (simp add: grouped_loop_def)
  next
    case False
    then have pos: "0 < v" "0 < unat v" by (simp_all add: word_gt_0 unat_gt_0)
    have lt: "unat (v div b) < unat v" using assms pos by (simp add: unat_div)
    have "grouped_loop b g cvt (v, out, gi, ns) = grouped_loop b g cvt (grouped_turn b g cvt (v, out, gi, ns))"
      unfolding grouped_loop_def using pos by (subst loop_while_step) auto
    moreover have "rev (base_digits (unat b) (unat v)) = unat v mod unat b # rev (base_digits (unat b) (unat v div unat b))"
      using assms pos by (simp add: base_digits_step [of "unat v"])
    ultimately show ?thesis
      using less.hyps [OF lt] by (auto simp: grouped_turn_def unat_div unat_mod Let_def)
  qed
qed

section \<open>The text of a number\<close>

text \<open>
  The text as indices into the table of digits: the digits with their separators, and what stands in
  front of them.
\<close>

definition digit_text :: "nat \<Rightarrow> int list \<Rightarrow> nat \<Rightarrow> nat list" where
  "digit_text b g n =
     (if n = 0 then [0] else if g = [] \<or> g ! 0 = char_max then base_digits b n
      else rev (sep_groups g 0 (rev (base_digits b n))))"

definition sign_text :: "bool \<Rightarrow> fmtflags \<Rightarrow> nat list" where
  "sign_text neg fmt = (if neg then [negative_index] else if fmt AND fl_showpos \<noteq> 0 then [positive_index] else [])"

definition prefix_text :: "ulong \<Rightarrow> fmtflags \<Rightarrow> ulong \<Rightarrow> bool \<Rightarrow> nat list" where
  "prefix_text base fmt v neg =
     (if base = 10 then sign_text neg fmt
      else if fl_showbase AND fmt \<noteq> 0 then
        if base = 2 then [0, binary_index] else if base = 16 then [0, hexadecimal_index]
        else if base = 8 \<and> v \<noteq> 0 then [0] else []
      else [])"

lemma cs_prefix_text: "cs_prefix base fmt out v neg cvt = map ((!) cvt) (prefix_text base fmt v neg) @ out"
  by (simp add: cs_prefix_def prefix_text_def cs_sign_def sign_text_def)

lemma digits_table:
  assumes "2 \<le> unat base"
  shows "\<exists>ks. cs_digits base g v out cvt = Some (map ((!) cvt) ks @ out) \<and>
    ks = (if v = 0 then [0] else if g = [] \<or> g ! 0 = char_max then base_digits (unat base) (unat v)
      else rev (grouped_from g 1 (g ! 0 + 1) (rev (base_digits (unat base) (unat v)))))"
proof -
  have u: "unat v = 0 \<longleftrightarrow> v = 0" by (simp add: unat_eq_zero)
  show ?thesis
  proof (cases "v = 0 \<or> g = [] \<or> g ! 0 = char_max")
    case True
    then show ?thesis using assms by (auto simp: cs_digits_def digit_loop_result)
  next
    case False
    then show ?thesis
      using grouped_loop_result [OF assms, of g cvt v out 1 "g ! 0 + 1"] by (auto simp: cs_digits_def)
  qed
qed

lemma cs_digits_text:
  assumes "2 \<le> unat base" and "g = [] \<or> g ! 0 \<noteq> 0"
  shows "cs_digits base g v out cvt = Some (map ((!) cvt) (digit_text (unat base) g (unat v)) @ out)"
proof -
  have u: "unat v = 0 \<longleftrightarrow> v = 0" by (simp add: unat_eq_zero)
  have "grouped_from g 1 (g ! 0 + 1) ds = sep_groups g 0 ds" if "g \<noteq> []" for ds
    using grouped_from_sep_groups [OF that, of 0 ds] assms(2) that by (cases g) auto
  with digits_table [OF assms(1), of g v out cvt] show ?thesis
    by (auto simp: digit_text_def u)
qed

lemma sep_groups_filter:
  "\<forall>d \<in> set ds. d \<noteq> separator_index \<Longrightarrow> filter (\<lambda>k. k \<noteq> separator_index) (sep_groups g i ds) = ds"
proof (induction g i ds rule: sep_groups.induct)
  case (1 g i ds)
  define n where "n = group_size g i"
  have *: "filter (\<lambda>k. k \<noteq> separator_index) ds = ds" "filter (\<lambda>k. k \<noteq> separator_index) (take n ds) = take n ds"
    using 1(2) by (auto simp: filter_id_conv dest: in_set_takeD)
  show ?case
  proof (cases "n = 0 \<or> length ds \<le> n")
    case True
    with * show ?thesis by (subst sep_groups.simps) (auto simp: n_def [symmetric] Let_def)
  next
    case False
    have "filter (\<lambda>k. k \<noteq> separator_index) (sep_groups g (i + 1) (drop n ds)) = drop n ds"
      using 1(1) [OF n_def False] 1(2) by (auto dest: in_set_dropD)
    with False * show ?thesis by (subst sep_groups.simps) (simp add: n_def [symmetric] Let_def)
  qed
qed

lemma digit_text_value:
  assumes "2 \<le> b" and "b \<le> 16"
  shows "digits_value b (filter (\<lambda>k. k \<noteq> separator_index) (digit_text b g n)) = n"
proof -
  have "\<forall>d \<in> set (base_digits b n). d \<noteq> separator_index"
    using base_digits_less assms(2) by (fastforce simp: table_indices)
  moreover from this have "filter (\<lambda>k. k \<noteq> separator_index) (base_digits b n) = base_digits b n"
    by (auto simp: filter_id_conv)
  ultimately show ?thesis
    using base_digits_value [OF assms(1), of n]
    by (auto simp: digit_text_def rev_filter [symmetric] sep_groups_filter digits_value_def)
      (simp_all add: table_indices)
qed

lemma fmt_base_range: "2 \<le> unat (fmt_base fmt)" "unat (fmt_base fmt) \<le> 16"
proof -
  have lt: "unat (fmt AND fl_basefield) < 16"
  proof -
    have "fmt AND fl_basefield = take_bit 4 fmt"
      by (simp add: fl_basefield_def take_bit_eq_mask mask_eq_exp_minus_1)
    then have "unat (fmt AND fl_basefield) = take_bit 4 (unat fmt)" by (simp add: unsigned_take_bit_eq)
    then show ?thesis using take_bit_nat_less_exp [of 4 "unat fmt"] by simp
  qed
  have "unat (ucast (fmt AND fl_basefield) :: ulong) = unat (fmt AND fl_basefield)"
    using lt by (simp add: unsigned_ucast_eq take_bit_nat_eq_self)
  with lt have u: "unat (ucast (fmt AND fl_basefield) + 1 :: ulong) = unat (fmt AND fl_basefield) + 1"
    by (simp add: unat_add_lem [THEN iffD1])
  have one: "(b :: ulong) = 1 \<longleftrightarrow> unat b = 1" for b by (metis unat_1 unsigned_word_eqI)
  show "2 \<le> unat (fmt_base fmt)" "unat (fmt_base fmt) \<le> 16"
    using lt u by (auto simp: fmt_base_def Let_def one)
qed

lemma cs_format_text:
  assumes "g = [] \<or> g ! 0 \<noteq> 0" and "\<not> (is_negative sg fmt v \<and> v = long_min)"
  shows "cs_format fmt g sg v cvt = Some (map ((!) cvt)
      (prefix_text (fmt_base fmt) fmt v (is_negative sg fmt v) @
       digit_text (unat (fmt_base fmt)) g (unat (magnitude sg fmt v))),
     if fmt AND fl_adjustfield = fl_left then 0
     else if fmt AND fl_adjustfield = fl_internal then
       if fmt_base fmt \<noteq> 8 then length (digit_text (unat (fmt_base fmt)) g (unat (magnitude sg fmt v))) else 0
     else length (prefix_text (fmt_base fmt) fmt v (is_negative sg fmt v) @
       digit_text (unat (fmt_base fmt)) g (unat (magnitude sg fmt v))))"
proof -
  have "cs_digits (fmt_base fmt) g (magnitude sg fmt v) [] cvt =
      Some (map ((!) cvt) (digit_text (unat (fmt_base fmt)) g (unat (magnitude sg fmt v))))"
    by (simp add: cs_digits_text [OF fmt_base_range(1) assms(1)])
  then show ?thesis using assms(2) unfolding cs_format_def Let_def cs_prefix_text by simp
qed

lemma magnitude_value:
  "int (unat (magnitude sg fmt v)) = (if is_negative sg fmt v then - sint v else uint v)"
proof (cases "is_negative sg fmt v")
  case True
  then have neg: "sint v < 0" by (simp add: is_negative_def)
  have "sint v = uint v - 2 ^ 64"
  proof -
    have "take_bit 64 (uint v) = uint v" using uint_lt2p [of v] by (simp add: take_bit_int_eq_self)
    then have "sint v = uint v - 2 ^ 64 * of_bool (bit (uint v) 63)"
      by (simp add: sint_uint signed_take_bit_eq_take_bit_minus)
    with neg show ?thesis by (cases "bit (uint v) 63") auto
  qed
  moreover have "uint (- v) = (- uint v) mod 2 ^ 64" by (simp add: uint_word_ariths)
  moreover have "(- uint v) mod 2 ^ 64 = 2 ^ 64 - uint v"
  proof -
    have "v \<noteq> 0" using neg by auto
    then have "uint v \<noteq> 0" by (simp add: uint_0_iff)
    then show ?thesis using uint_lt2p [of v] by (subst zmod_zminus1_eq_if) auto
  qed
  ultimately show ?thesis using True by (simp add: magnitude_def)
next
  case False
  then show ?thesis by (simp add: magnitude_def)
qed

text \<open>
  Formatting an integer yields the table's characters of a text that consists of a prefix and
  digits; without the separators the digits denote, in the base the flags give, the value or, when it
  is signed, negative and printed in base ten, its absolute value. The separators divide the digits
  into groups of the sizes the grouping asks for, counted from the right. This holds for every
  grouping that does not start with a zero and every value whose absolute value can be formed.
\<close>

theorem num_put_text:
  assumes "g = [] \<or> g ! 0 \<noteq> 0" and "\<not> (is_negative sg fmt v \<and> v = long_min)"
  shows "\<exists>ds fp. cs_format fmt g sg v cvt = Some (map ((!) cvt)
        (prefix_text (fmt_base fmt) fmt v (is_negative sg fmt v) @ ds), fp) \<and>
      ds = digit_text (unat (fmt_base fmt)) g (unat (magnitude sg fmt v)) \<and>
      int (digits_value (unat (fmt_base fmt)) (filter (\<lambda>k. k \<noteq> separator_index) ds)) =
        (if is_negative sg fmt v then - sint v else uint v)"
  using digit_text_value [OF fmt_base_range, of fmt g "unat (magnitude sg fmt v)"]
    magnitude_value [of sg fmt v]
  by (simp add: cs_format_text [OF assms])

text \<open>With the grouping \<open>[3]\<close> the number -1234567 is written with two separators.\<close>

theorem num_put_text_witness:
  "cs_format fl_dec [3] True (- 1234567) (digit_table \<lparr>np_grouping = [3], np_thousands_sep = CHR '','',
       np_decimal_point = CHR ''.'', np_truename = ''true'', np_falsename = ''false''\<rparr> id lt_chars) =
     Some (''-1,234,567'', 10) \<and>
   (\<exists>ds fp. cs_format fl_dec [3] True (- 1234567) ''0123456789abcdef+-bx,.'' = Some (map ((!) ''0123456789abcdef+-bx,.'')
        (prefix_text (fmt_base fl_dec) fl_dec (- 1234567) (is_negative True fl_dec (- 1234567)) @ ds), fp) \<and>
      int (digits_value (unat (fmt_base fl_dec)) (filter (\<lambda>k. k \<noteq> separator_index) ds)) = 1234567)"
proof
  show "cs_format fl_dec [3] True (- 1234567) (digit_table \<lparr>np_grouping = [3], np_thousands_sep = CHR '','',
       np_decimal_point = CHR ''.'', np_truename = ''true'', np_falsename = ''false''\<rparr> id lt_chars) =
     Some (''-1,234,567'', 10)"
    by code_simp
  have n: "is_negative True fl_dec (- 1234567)" "sint (- 1234567 :: ulong) = - 1234567" by code_simp+
  show "\<exists>ds fp. cs_format fl_dec [3] True (- 1234567) ''0123456789abcdef+-bx,.'' = Some (map ((!) ''0123456789abcdef+-bx,.'')
        (prefix_text (fmt_base fl_dec) fl_dec (- 1234567) (is_negative True fl_dec (- 1234567)) @ ds), fp) \<and>
      int (digits_value (unat (fmt_base fl_dec)) (filter (\<lambda>k. k \<noteq> separator_index) ds)) = 1234567"
    using num_put_text [of "[3]" True fl_dec "- 1234567" "''0123456789abcdef+-bx,.''"] n by (auto simp: long_min_def)
qed

section \<open>The buffer is large enough\<close>

lemma grouped_from_length: "length (grouped_from g gi ns ds) \<le> 2 * length ds"
  by (induction g gi ns ds rule: grouped_from.induct) auto

lemma grouped_from_first: "ns \<noteq> 1 \<Longrightarrow> ds \<noteq> [] \<Longrightarrow> length (grouped_from g gi ns ds) < 2 * length ds"
  using grouped_from_length by (cases ds) (auto simp: le_imp_less_Suc)

lemma prefix_text_length: "length (prefix_text base fmt v neg) \<le> 2"
  by (simp add: prefix_text_def sign_text_def)

lemma base_digits_word:
  assumes "8 \<le> b"
  shows "length (base_digits b (unat (v :: ulong))) \<le> 22"
proof -
  have "unat v < 2 ^ 64" using unsigned_less [of v, where ?'a = nat] by simp
  also have "(2 :: nat) ^ 64 \<le> 8 ^ 22" by simp
  also have "(8 :: nat) ^ 22 \<le> b ^ 22" using assms by (rule power_mono) simp
  finally show ?thesis using assms by (intro base_digits_length) auto
qed

lemma cs_format_length:
  assumes "8 \<le> unat (fmt_base fmt)" and "\<not> (is_negative sg fmt v \<and> v = long_min)"
  shows "\<exists>out fp. cs_format fmt g sg v cvt = Some (out, fp) \<and> length out \<le> 46 \<and> fp \<le> length out"
proof -
  obtain ks where ks: "cs_digits (fmt_base fmt) g (magnitude sg fmt v) [] cvt = Some (map ((!) cvt) ks)"
    "length ks \<le> 44"
  proof -
    let ?v = "magnitude sg fmt v"
    have l: "length (base_digits (unat (fmt_base fmt)) (unat ?v)) \<le> 22" by (rule base_digits_word [OF assms(1)])
    have "length (grouped_from g 1 (g ! 0 + 1) (rev (base_digits (unat (fmt_base fmt)) (unat ?v)))) \<le> 44"
      using grouped_from_length [of g 1 "g ! 0 + 1" "rev (base_digits (unat (fmt_base fmt)) (unat ?v))"] l
      by simp
    with l digits_table [OF fmt_base_range(1), of fmt g ?v "[]" cvt] that show thesis
      by (auto split: if_splits)
  qed
  with prefix_text_length [of "fmt_base fmt" fmt v "is_negative sg fmt v"] assms(2) show ?thesis
    by (simp add: cs_format_def Let_def cs_prefix_text)
qed

text \<open>
  Base two is the base of a field that holds one; the source has a prefix for it. Its 64 digits fill
  the buffer and the prefix overruns it.
\<close>

lemma binary_overruns: "map_option (length \<circ> fst) (cs_format (fl_showbase OR 1) [] False (- 1) ''0123456789abcdef+-bx,.'') = Some 66"
  by code_simp

text \<open>A grouping that starts with a zero puts a separator behind the last digit.\<close>

lemma zero_group_trails: "cs_format fl_dec [0] False 12 ''0123456789abcdef+-bx,.'' = Some (''12,'', 3)"
  by code_simp

text \<open>
  Octal numbers are filled on the right when the adjustment is internal: the position of the fill
  characters is the end of the text.
\<close>

lemma octal_internal_fills_right:
  "cs_format (fl_oct OR fl_internal) [] False 8 ''0123456789abcdef+-bx,.'' = Some (''10'', 0)"
  by code_simp

section \<open>What reaches the stream buffer\<close>

text \<open>Text padded to a width: the fill characters stand in front of the last \<open>fp\<close> characters.\<close>

definition padded :: "int \<Rightarrow> 'c \<Rightarrow> 'c list \<Rightarrow> nat \<Rightarrow> 'c list" where
  "padded w fill out fp =
     take (length out - fp) out @ replicate (nat (w - int (length out))) fill @ drop (length out - fp) out"

lemma padded_length: "length (padded w fill out fp) = max (nat w) (length out)"
proof -
  have "length (padded w fill out fp) = length out + nat (w - int (length out))" by (simp add: padded_def)
  then show ?thesis by linarith
qed

lemma padded_narrow: "w \<le> int (length out) \<Longrightarrow> padded w fill out fp = out"
  by (simp add: padded_def)

lemma width_reset [simp]: "ib_width s = 0 \<Longrightarrow> s\<lparr>ib_width := 0\<rparr> = (s :: ('c, 's) ios)"
  by (cases s) simp

lemma mem_copy_pbump: "mem_copy p cs (pbump n s) = pbump n (mem_copy p cs s)"
  by (simp add: mem_copy_def pbump_def)

context char_sink
begin

lemma os_fill_n_puts:
  assumes "inv s" and "fits (fold put (replicate (nat n) fill) (abs s))" and "- (2 ^ 31) \<le> n"
  shows "\<exists>s'. os_fill_n vt n fill s = Some (Ret (), s') \<and> inv s' \<and>
    abs s' = fold put (replicate (nat n) fill) (abs s)"
proof -
  let ?I = "\<lambda>m t. inv t \<and> fold put (replicate (nat m) fill) (abs t) = fold put (replicate (nat n) fill) (abs s)"
  have "nat n < 2 ^ 31" using fits_length [OF assms(2)] by simp
  then have n: "to_int n = n" by (intro to_int_id assms(3)) simp
  have "\<exists>m t. io_loop (\<lambda>n. n > 0) (fill_turn vt fill) n s = Some (Ret m, t) \<and> ?I m t \<and> \<not> m > 0"
  proof (rule io_loop_total [where m = "\<lambda>m t. nat m"])
    show "?I n s" using assms(1) by simp
  next
    fix m t assume I: "?I m t" and g: "m > 0"
    have room: "pcur t \<le> pend t" using room I by blast
    have f: "fits (fold put (replicate (nat m) fill) (abs t))" using I assms(2) by simp
    let ?t = "to_int (int (pend t) - int (pcur t))"
    have tl: "?t \<le> int (pend t) - int (pcur t)" using room by (intro to_int_le) simp
    show "\<exists>m' t'. fill_turn vt fill m t = Some (Ret m', t') \<and> ?I m' t' \<and> nat m' < nat m"
    proof (cases "?t \<le> 0")
      case True
      have "replicate (nat m) fill = fill # replicate (nat (m - 1)) fill" using g by (simp flip: replicate_Suc add: Suc_nat_eq_nat_zadd1)
      with f fits_first have "fits (put fill (abs t))" by metis
      with sputc_puts [of t fill] I obtain t' where
        p: "sputc vt fill t = Some (Ret (Some fill), t')" "inv t'" "abs t' = put fill (abs t)" by auto
      have "nat m = Suc (nat (m - 1))" using g by simp
      then have "fold put (replicate (nat (m - 1)) fill) (abs t') = fold put (replicate (nat m) fill) (abs t)"
        using p(3) by simp
      moreover have "fill_turn vt fill m t = Some (Ret (m - 1), t')"
        using p(1) True by (simp add: fill_turn_def)
      ultimately show ?thesis using p(2) I g by auto
    next
      case False
      define k where "k = nat (min ?t m)"
      have k: "0 < k" "pcur t + k \<le> pend t" "int k \<le> m" "k \<le> nat m" "int k = (if ?t > m then m else ?t)"
        using False room g tl by (auto simp: k_def)
      let ?t = "pbump (int k) (mem_copy (pcur t) (replicate k fill) t)"
      have c: "inv ?t \<and> abs ?t = fold put (replicate k fill) (abs t)"
        using copy_puts [of t "replicate k fill"] I k(2,4) fits_take [OF f, of k] by (simp add: min_absorb2)
      have "fill_turn vt fill m t = Some (Ret (m - int k), ?t)"
        using False unfolding fill_turn_def Let_def k(5) [symmetric] by simp
      moreover have "fold put (replicate (nat (m - int k)) fill) (fold put (replicate k fill) (abs t)) =
          fold put (replicate (nat m) fill) (abs t)"
      proof -
        have "nat m = k + nat (m - int k)" using k by simp
        then show ?thesis by (metis replicate_add fold_append o_apply)
      qed
      ultimately show ?thesis using c I k by auto
    qed
  qed
  then obtain m t where l: "io_loop (\<lambda>n. n > 0) (fill_turn vt fill) n s = Some (Ret m, t)" "?I m t" "\<not> m > 0"
    by blast
  then have "nat m = 0" by simp
  with l show ?thesis by (auto simp: os_fill_n_def n)
qed

lemma osit_assign_all_puts:
  "inv s \<Longrightarrow> fits (fold put cs (abs s)) \<Longrightarrow> \<exists>s'. osit_assign_all vt cs failed s = Some (Ret failed, s') \<and> inv s' \<and> abs s' = fold put cs (abs s)"
proof (induction cs arbitrary: s)
  case (Cons c cs)
  from sputc_puts [OF Cons.prems(1) fits_first [OF Cons.prems(2)]] obtain t where
    t: "sputc vt c s = Some (Ret (Some c), t)" "inv t" "abs t = put c (abs s)" by blast
  from Cons.IH [OF t(2)] t Cons.prems(2) show ?case by (auto simp: osit_assign_def)
qed simp

lemma os_num_copy_puts:
  assumes "inv s" and "fits (fold put cs (abs s))"
  shows "\<exists>s'. os_num_copy vt cs failed s = Some (Ret failed, s') \<and> inv s' \<and> abs s' = fold put cs (abs s)"
proof (cases "int (length cs) < int (pend s) - int (pcur s)")
  case True
  then have "pcur s + length cs \<le> pend s" by simp
  from copy_puts [OF assms(1) this assms(2)] True show ?thesis by (simp add: os_num_copy_def mem_copy_pbump)
next
  case False
  with osit_assign_all_puts [OF assms] show ?thesis by (simp add: os_num_copy_def)
qed

lemma os_copy_puts:
  assumes "inv s" and "fits (fold put cs (abs s))"
  shows "\<exists>s'. os_copy vt cs s = Some (Ret (), s') \<and> inv s' \<and> abs s' = fold put cs (abs s)"
proof -
  let ?I = "\<lambda>ds t. inv t \<and> fold put ds (abs t) = fold put cs (abs s)"
  have "\<exists>ds t. io_loop (\<lambda>cs. cs \<noteq> []) (copy_turn vt) cs s = Some (Ret ds, t) \<and> ?I ds t \<and> \<not> ds \<noteq> []"
  proof (rule io_loop_total [where m = "\<lambda>ds t. length ds"])
    show "?I cs s" using assms(1) by simp
  next
    fix ds t assume I: "?I ds t" and g: "ds \<noteq> []"
    have room: "pcur t \<le> pend t" using room I by blast
    have f: "fits (fold put ds (abs t))" using I assms(2) by simp
    show "\<exists>ds' t'. copy_turn vt ds t = Some (Ret ds', t') \<and> ?I ds' t' \<and> length ds' < length ds"
    proof (cases "pcur t = pend t")
      case True
      have "fits (put (hd ds) (abs t))" using f g fits_first [of "hd ds" "tl ds" "abs t"] by simp
      with sputc_puts [of t "hd ds"] I obtain t' where
        p: "sputc vt (hd ds) t = Some (Ret (Some (hd ds)), t')" "inv t'" "abs t' = put (hd ds) (abs t)" by auto
      moreover have "copy_turn vt ds t = Some (Ret (tl ds), t')" using p(1) True by (simp add: copy_turn_def)
      ultimately show ?thesis using I g by (cases ds) auto
    next
      case False
      define k where "k = (if length ds < pend t - pcur t then length ds else pend t - pcur t)"
      have k: "0 < k" "pcur t + k \<le> pend t" "k \<le> length ds" using False room g by (auto simp: k_def)
      let ?t = "pbump (int k) (mem_copy (pcur t) (take k ds) t)"
      have c: "inv ?t \<and> abs ?t = fold put (take k ds) (abs t)"
        using copy_puts [of t "take k ds"] I k fits_take [OF f, of k] by (simp add: min_absorb2)
      have "(if int (length ds) < int (pend t) - int (pcur t) then int (length ds)
          else int (pend t) - int (pcur t)) = int k" using room by (auto simp: k_def)
      then have "copy_turn vt ds t = Some (Ret (drop k ds), ?t)"
        using False unfolding copy_turn_def Let_def by simp
      moreover have "fold put (drop k ds) (fold put (take k ds) (abs t)) = fold put ds (abs t)"
        by (metis append_take_drop_id fold_append o_apply)
      ultimately show ?thesis using c I k by auto
    qed
  qed
  then show ?thesis by (auto simp: os_copy_def)
qed

lemma new_num_put_puts:
  assumes b: "io_sbuf s = Some b" "inv b"
    and fm: "fm (flags_get s) (m_grouping (lf_cache (ib_loc s))) v (digit_chars s) = Some (out, fp)"
    and len: "length out \<le> 64" and w: "0 \<le> ib_width s"
    and fit: "fits (fold put (padded (ib_width s) (io_fill s) out fp) (abs b))"
  shows "\<exists>b'. new_num_put vt fm v s = Some (Ret False, s\<lparr>ib_width := 0, io_sbuf := Some b'\<rparr>) \<and> inv b' \<and>
    abs b' = fold put (padded (ib_width s) (io_fill s) out fp) (abs b)"
proof -
  let ?s = "s\<lparr>ib_width := 0\<rparr>"
  have sb: "io_sbuf ?s = Some b" using b(1) by simp
  have f: "to_int (ib_width s - int (length out)) = ib_width s - int (length out)"
  proof (rule to_int_id)
    show "- (2 ^ 31) \<le> ib_width s - int (length out)" using len w by simp
    show "ib_width s - int (length out) < 2 ^ 31" using fits_length [OF fit] len w unfolding padded_length by simp
  qed
  show ?thesis
  proof (cases "ib_width s \<noteq> 0 \<and> ib_width s - int (length out) > 0")
    case True
    let ?k = "length out - fp"
    let ?fs = "replicate (nat (ib_width s - int (length out))) (io_fill s)"
    have ft: "fits (fold put (drop ?k out) (fold put ?fs (fold put (take ?k out) (abs b))))" using fit by (simp add: padded_def)
    from os_num_copy_puts [OF b(2), of "take ?k out" False] fits_part [OF fits_part [OF ft]] obtain b1 where
      1: "os_num_copy vt (take ?k out) False b = Some (Ret False, b1)" "inv b1"
        "abs b1 = fold put (take ?k out) (abs b)" by auto
    from os_fill_n_puts [OF 1(2), of "ib_width s - int (length out)" "io_fill s"] fits_part [OF ft] True 1(3) obtain b2 where
      2: "os_fill_n vt (ib_width s - int (length out)) (io_fill s) b1 = Some (Ret (), b2)" "inv b2"
        "abs b2 = fold put (replicate (nat (ib_width s - int (length out))) (io_fill s)) (abs b1)" by auto
    from os_num_copy_puts [OF 2(2), of "drop ?k out" False] ft 1(3) 2(3) obtain b3 where
      3: "os_num_copy vt (drop ?k out) False b2 = Some (Ret False, b3)" "inv b3"
        "abs b3 = fold put (drop ?k out) (abs b2)" by auto
    have "new_num_put vt fm v s =
        io_bind (on_sbuf (os_num_copy vt (take ?k out) False)) (\<lambda>failed.
        io_bind (on_sbuf (os_fill_n vt (ib_width s - int (length out)) (io_fill s))) (\<lambda>_.
        on_sbuf (os_num_copy vt (drop ?k out) failed))) ?s"
      using True fm len f by (simp add: new_num_put_def width_set_def Let_def)
    also have "\<dots> = Some (Ret False, ?s\<lparr>io_sbuf := Some b3\<rparr>)"
      using sb 1(1) 2(1) 3(1)
      by (subst on_sbuf_bind [where b = b and a = False and b' = b1], simp, simp)
        (subst on_sbuf_bind [where b = b1 and a = "()" and b' = b2], simp_all add: on_sbuf_def)
    finally have "new_num_put vt fm v s = Some (Ret False, ?s\<lparr>io_sbuf := Some b3\<rparr>)" .
    with 1 2 3 show ?thesis by (auto simp: padded_def)
  next
    case False
    have p: "padded (ib_width s) (io_fill s) out fp = out" using False by (auto intro: padded_narrow)
    from os_num_copy_puts [OF b(2), of out False] fit p obtain b1 where
      1: "os_num_copy vt out False b = Some (Ret False, b1)" "inv b1" "abs b1 = fold put out (abs b)" by auto
    have "new_num_put vt fm v s = Some (Ret False, ?s\<lparr>io_sbuf := Some b1\<rparr>)"
      using False fm len 1(1) b(1) f by (auto simp: new_num_put_def width_set_def on_sbuf_def)
    then show ?thesis using 1 p by auto
  qed
qed

end

end
