(* ===== verification/Stringbuf.thy ===== *)
theory Stringbuf
  imports Streambuf "HOL-Library.Word"
begin

unbundle bit_operations_syntax

text \<open>
  The string buffer \<^verbatim>\<open>basic_stringbuf\<close> (\<^verbatim>\<open>cxxrt/sstream.h\<close>, \<^verbatim>\<open>srccxx/sstream.cc\<close>): a stream buffer
  whose areas both lie in an array the object owns. The array is \<open>sb_mem\<close>: offset 0 is \<^verbatim>\<open>_CS_m_beg\<close>
  and its length is \<^verbatim>\<open>_CS_m_end - _CS_m_beg\<close>. What \<^verbatim>\<open>new[]\<close> leaves in the elements of a grown array is
  the parameter \<open>junk\<close>. \<open>stringbuf_refines\<close> shows that the buffer, with its areas, its growth and its
  seeking, behaves as a string with a read and a write position.
\<close>

section \<open>The string buffer\<close>

type_synonym openmode = "32 word"

definition om_in :: openmode where "om_in = 0x01"
definition om_out :: openmode where "om_out = 0x02"

datatype seekdir = Beg | Cur | End

record 'c stringbuf = "'c streambuf" +
  m_mode :: openmode

definition has_in :: "openmode \<Rightarrow> bool" where "has_in m \<longleftrightarrow> m AND om_in \<noteq> 0"
definition has_out :: "openmode \<Rightarrow> bool" where "has_out m \<longleftrightarrow> m AND om_out \<noteq> 0"

definition set_areas :: "'c stringbuf \<Rightarrow> 'c stringbuf" where
  "set_areas s =
     (let s = (if has_in (m_mode s) then setg 0 0 (length (sb_mem s)) s else s)
      in if has_out (m_mode s) then setp 0 (length (sb_mem s)) s else s)"

definition stringbuf_new :: "'c list \<Rightarrow> openmode \<Rightarrow> 'c stringbuf" where
  "stringbuf_new str mode = set_areas
     \<lparr>sb_mem = str, gbeg = 0, gcur = 0, gend = 0, pbeg = 0, pcur = 0, pend = 0,
      g_set = False, p_set = False, m_mode = mode\<rparr>"

definition str_get :: "'c stringbuf \<Rightarrow> 'c list" where
  "str_get s =
     (if pbeg s = pend s then
        if gbeg s = gend s then [] else take (gend s - gbeg s) (drop (gbeg s) (sb_mem s))
      else take (pend s - pbeg s) (drop (pbeg s) (sb_mem s)))"

definition str_set :: "'c list \<Rightarrow> 'c stringbuf \<Rightarrow> 'c stringbuf" where
  "str_set str s = set_areas (s\<lparr>sb_mem := str\<rparr>)"

definition str_underflow :: "('c stringbuf, 'c option) io" where
  "str_underflow s = io_ret (if gcur s = gend s then None else Some (sb_mem s ! gcur s)) s"

text \<open>
  \<^verbatim>\<open>not_eof(eof)\<close> is some value that is not \<^verbatim>\<open>eof\<close>: which one is a matter of the traits and the
  parameter \<open>other\<close>.
\<close>

definition str_pbackfail :: "'c \<Rightarrow> 'c option \<Rightarrow> ('c stringbuf, 'c option) io" where
  "str_pbackfail other c s =
     (if gbeg s \<noteq> gcur s then
        case c of
          None \<Rightarrow> io_ret (Some other) (gbump (- 1) s)
        | Some ch \<Rightarrow>
            if ch = sb_mem s ! (gcur s - 1) \<or> has_out (m_mode s) then
              let s = gbump (- 1) s in io_ret c (s\<lparr>sb_mem := (sb_mem s)[gcur s := ch]\<rparr>)
            else io_ret None s
      else io_ret None s)"

definition str_overflow :: "(nat \<Rightarrow> 'c) \<Rightarrow> 'c \<Rightarrow> 'c option \<Rightarrow> ('c stringbuf, 'c option) io" where
  "str_overflow junk other c s =
     (case c of
        None \<Rightarrow> io_ret (Some other) s
      | Some ch \<Rightarrow>
          if has_out (m_mode s) then
            if pcur s \<noteq> pend s then
              io_ret c (pbump 1 (s\<lparr>sb_mem := (sb_mem s)[pcur s := ch]\<rparr>))
            else if pend s \<noteq> length (sb_mem s) then
              let s = s\<lparr>sb_mem := (sb_mem s)[pcur s := ch]\<rparr>;
                  s = setp (pbeg s) (pend s + 1) s;
                  s = pbump (int (pend s) - int (pbeg s)) s;
                  s = (if g_set s then setg (gbeg s) (gcur s) (pcur s) s else s)
              in io_ret c s
            else
              let size = length (sb_mem s);
                  asize = (if size = 0 then 256 else 2 * size);
                  s = s\<lparr>sb_mem := sb_mem s @ map junk [size..<asize]\<rparr>;
                  s = s\<lparr>sb_mem := (sb_mem s)[size := ch]\<rparr>;
                  s = setp 0 (size + 1) s;
                  s = pbump (int size + 1) s;
                  s = (if has_in (m_mode s) then setg (pbeg s) (pbeg s + (gcur s - gbeg s)) (pcur s) s
                       else s)
              in io_ret c s
          else io_ret None s)"

definition str_sync :: "('c stringbuf, int) io" where
  "str_sync = io_ret 0"

text \<open>
  A position is an option, \<open>None\<close> being \<^verbatim>\<open>pos_type(off_type(-1))\<close>. A seek relative to the position of an
  area that was never set computes with a null pointer before it fails; the failure is the model's
  result at once.
\<close>

definition seek_to :: "openmode \<Rightarrow> nat \<Rightarrow> 'c stringbuf \<Rightarrow> nat option \<times> 'c stringbuf" where
  "seek_to which np s =
     (let w = which AND (om_in OR om_out) in
      if w = om_in then
        if has_in (m_mode s) \<and> g_set s then (Some np, gbump (int np - int (gcur s)) s) else (None, s)
      else if w = om_out then
        if has_out (m_mode s) \<and> p_set s then (Some np, pbump (int np - int (pcur s)) s) else (None, s)
      else if w = om_in OR om_out then
        if m_mode s AND (om_in OR om_out) = om_in OR om_out \<and> g_set s \<and> p_set s then
          (Some np, pbump (int np - int (pcur s)) (gbump (int np - int (gcur s)) s))
        else (None, s)
      else (None, s))"

definition seekoff :: "int \<Rightarrow> seekdir \<Rightarrow> openmode \<Rightarrow> 'c stringbuf \<Rightarrow> nat option \<times> 'c stringbuf" where
  "seekoff off dir which s =
     (let e = int (if has_out (m_mode s) then pend s else gend s) in
      case dir of
        Beg \<Rightarrow> if off < 0 \<or> e < off then (None, s) else seek_to which (nat off) s
      | End \<Rightarrow> if off > 0 \<or> e < - off then (None, s) else seek_to which (nat (e + off)) s
      | Cur \<Rightarrow>
          if which AND (om_in OR om_out) = om_in OR om_out then (None, s)
          else if \<not> (if has_in which then g_set s else p_set s) then (None, s)
          else
            let np = int (if has_in which then gcur s else pcur s)
            in if off < - np \<or> e - np < off then (None, s) else seek_to which (nat (np + off)) s)"

definition seekpos :: "int \<Rightarrow> openmode \<Rightarrow> 'c stringbuf \<Rightarrow> nat option \<times> 'c stringbuf" where
  "seekpos pos which s =
     (let e = int (if has_out (m_mode s) then pend s else gend s) in
      if pos < 0 \<or> e < pos then (None, s)
      else
        let w = which AND (om_in OR om_out) AND m_mode s in
        if w = om_in then (Some (nat pos), gbump (pos - int (gcur s)) s)
        else if w = om_out then (Some (nat pos), pbump (pos - int (pcur s)) s)
        else if w = om_in OR om_out then
          (Some (nat pos), pbump (pos - int (pcur s)) (gbump (pos - int (gcur s)) s))
        else (None, s))"

text \<open>
  The table of virtual functions. The recursion of the base class's \<^verbatim>\<open>xsgetn\<close> and \<^verbatim>\<open>xsputn\<close> through
  the table stops at \<^verbatim>\<open>uflow\<close> and \<^verbatim>\<open>overflow\<close>, so they are given the table without themselves.
\<close>

definition str_vt0 :: "(nat \<Rightarrow> 'c) \<Rightarrow> 'c \<Rightarrow> ('c, 'c stringbuf) vtable" where
  "str_vt0 junk other =
     \<lparr>v_underflow = str_underflow, v_uflow = base_uflow str_underflow,
      v_pbackfail = str_pbackfail other, v_overflow = str_overflow junk other,
      v_showmanyc = base_showmanyc, v_xsgetn = (\<lambda>_. io_ret []), v_xsputn = (\<lambda>_. io_ret 0),
      v_sync = str_sync\<rparr>"

definition str_vt :: "(nat \<Rightarrow> 'c) \<Rightarrow> 'c \<Rightarrow> ('c, 'c stringbuf) vtable" where
  "str_vt junk other = (str_vt0 junk other)\<lparr>v_xsgetn := base_xsgetn (str_vt0 junk other),
     v_xsputn := base_xsputn (str_vt0 junk other)\<rparr>"

section \<open>The invariant\<close>

definition content_length :: "'c stringbuf \<Rightarrow> nat" where
  "content_length s = (if has_out (m_mode s) then pend s else gend s)"

definition sbuf_ok :: "'c stringbuf \<Rightarrow> bool" where
  "sbuf_ok s \<longleftrightarrow> content_length s \<le> length (sb_mem s) \<and> gbeg s = 0 \<and> pbeg s = 0 \<and>
     g_set s = has_in (m_mode s) \<and> p_set s = has_out (m_mode s) \<and>
     (if has_in (m_mode s) then gcur s \<le> gend s \<and> gend s = content_length s else gcur s = 0 \<and> gend s = 0) \<and>
     (if has_out (m_mode s) then pcur s \<le> pend s else pcur s = 0 \<and> pend s = 0)"

definition content :: "'c stringbuf \<Rightarrow> 'c list" where
  "content s = take (content_length s) (sb_mem s)"

lemma content_len [simp]: "sbuf_ok s \<Longrightarrow> length (content s) = content_length s"
  by (simp add: content_def sbuf_ok_def)

lemma sbuf_ok_areas:
  assumes "sbuf_ok s"
  shows "gcur s \<le> gend s" "gend s \<le> length (sb_mem s)" "pcur s \<le> pend s" "pend s \<le> length (sb_mem s)"
  using assms by (auto simp: sbuf_ok_def content_length_def split: if_splits)

definition rest :: "'c stringbuf \<Rightarrow> 'c list" where
  "rest s = drop (gcur s) (take (gend s) (sb_mem s))"

definition sbuf_keep :: "'c stringbuf \<Rightarrow> openmode \<times> 'c list \<times> nat" where
  "sbuf_keep s = (m_mode s, content s, pcur s)"

lemma sbuf_ok_gcur: "sbuf_ok s \<Longrightarrow> n \<le> gend s \<Longrightarrow> sbuf_ok (s\<lparr>gcur := n\<rparr>)"
  by (cases "has_out (m_mode s)"; cases "has_in (m_mode s)") (simp_all add: sbuf_ok_def content_length_def)

lemma sbuf_source_area:
  assumes "sbuf_ok s"
  shows "take (gend s - gcur s) (rest s) = get_slice (gend s - gcur s) s"
  by (simp add: rest_def get_slice_def drop_take)

lemma sbuf_underflow:
  assumes "sbuf_ok s" and "gcur s = gend s"
  shows "str_underflow s = Some (Ret (case rest s of [] \<Rightarrow> None | c # _ \<Rightarrow> Some c), s) \<and> rest s = []"
  using assms by (simp add: str_underflow_def rest_def)

lemma sbuf_bump:
  assumes "sbuf_ok s" and "gcur s + n \<le> gend s"
  shows "sbuf_ok (s\<lparr>gcur := gcur s + n\<rparr>) \<and> rest (s\<lparr>gcur := gcur s + n\<rparr>) = drop n (rest s) \<and>
    sbuf_keep (s\<lparr>gcur := gcur s + n\<rparr>) = sbuf_keep s"
  using sbuf_ok_gcur [OF assms]
  by (simp add: rest_def add.commute sbuf_keep_def content_def content_length_def)

text \<open>The get area of a string buffer meets the contract of a source of characters.\<close>

lemma str_vt_simps [simp]:
  "v_underflow (str_vt0 junk other) = str_underflow" "v_underflow (str_vt junk other) = str_underflow"
  "v_uflow (str_vt0 junk other) = base_uflow str_underflow"
  "v_uflow (str_vt junk other) = base_uflow str_underflow"
  "v_overflow (str_vt0 junk other) = str_overflow junk other"
  "v_overflow (str_vt junk other) = str_overflow junk other"
  "v_pbackfail (str_vt junk other) = str_pbackfail other"
  "v_xsgetn (str_vt junk other) = base_xsgetn (str_vt0 junk other)"
  "v_xsputn (str_vt junk other) = base_xsputn (str_vt0 junk other)"
  "v_sync (str_vt junk other) = str_sync"
  by (simp_all add: str_vt_def str_vt0_def)

interpretation source0: base_source "str_vt0 junk other" sbuf_ok rest sbuf_keep for junk other
  by unfold_locales (auto simp: sbuf_source_area sbuf_bump dest: sbuf_ok_areas sbuf_underflow)

interpretation source: base_source "str_vt junk other" sbuf_ok rest sbuf_keep for junk other
  by unfold_locales (auto simp: sbuf_source_area sbuf_bump dest: sbuf_ok_areas sbuf_underflow)

section \<open>The put area\<close>

text \<open>What the buffer stands for: its mode, the string and the positions to read and to write at.\<close>

type_synonym 'c sspec = "openmode \<times> 'c list \<times> nat \<times> nat"

definition sbuf_abs :: "'c stringbuf \<Rightarrow> 'c sspec" where
  "sbuf_abs s = (m_mode s, content s, gcur s, pcur s)"

definition spec_put :: "'c \<Rightarrow> 'c sspec \<Rightarrow> 'c sspec" where
  "spec_put c = (\<lambda>(m, xs, r, w). (m, if w < length xs then xs[w := c] else xs @ [c], r, Suc w))"

text \<open>The moves of the put pointer are of type \<^verbatim>\<open>int\<close>: they are right for fewer than \<open>2 ^ 31\<close> characters.\<close>

definition str_fits :: "'c sspec \<Rightarrow> bool" where
  "str_fits = (\<lambda>(m, xs, r, w). length xs < 2 ^ 31 \<and> w < 2 ^ 31)"

lemma fold_spec_put_at: "\<exists>xs'. fold spec_put cs (m, xs, r, w) = (m, xs', r, w + length cs)"
proof (induction cs arbitrary: xs w)
  case (Cons c cs)
  from Cons [of "if w < length xs then xs[w := c] else xs @ [c]" "Suc w"] show ?case by (simp add: spec_put_def)
qed simp

lemma str_fits_before: "str_fits (spec_put c a) \<Longrightarrow> str_fits a"
  by (cases a) (auto simp: str_fits_def spec_put_def split: if_splits)

lemma str_fits_length: "str_fits (fold spec_put cs a) \<Longrightarrow> length cs < 2 ^ 31"
proof -
  assume "str_fits (fold spec_put cs a)"
  moreover obtain m xs r w where "a = (m, xs, r, w)" by (cases a)
  moreover from this fold_spec_put_at obtain xs' where "fold spec_put cs a = (m, xs', r, w + length cs)" by blast
  ultimately show ?thesis by (simp add: str_fits_def)
qed

definition writable :: "'c stringbuf \<Rightarrow> bool" where
  "writable s \<longleftrightarrow> sbuf_ok s \<and> has_out (m_mode s)"

lemma sbuf_store:
  assumes "writable s" and "pcur s < pend s"
  shows "writable (s\<lparr>sb_mem := (sb_mem s)[pcur s := c], pcur := Suc (pcur s)\<rparr>) \<and>
    sbuf_abs (s\<lparr>sb_mem := (sb_mem s)[pcur s := c], pcur := Suc (pcur s)\<rparr>) = spec_put c (sbuf_abs s)"
  using assms
  by (auto simp: writable_def sbuf_ok_def content_length_def sbuf_abs_def spec_put_def content_def
      take_update_swap min_def split: if_splits)

lemma take_grow:
  "n < length xs \<Longrightarrow> take (Suc n) (xs[n := c]) = take n xs @ [c]"
  by (simp add: take_Suc_conv_app_nth)

lemma sbuf_overflow:
  assumes "writable s" and "pcur s = pend s" and "str_fits (spec_put c (sbuf_abs s))"
  shows "\<exists>t. str_overflow junk other (Some c) s = Some (Ret (Some c), t) \<and> writable t \<and>
    sbuf_abs t = spec_put c (sbuf_abs s)"
proof (cases "pend s = length (sb_mem s)")
  case False
  let ?t = "s\<lparr>sb_mem := (sb_mem s)[pcur s := c], pcur := Suc (pcur s), pend := Suc (pend s)\<rparr>"
  let ?u = "if has_in (m_mode s) then ?t\<lparr>gend := Suc (pend s)\<rparr> else ?t"
  have ok: "sbuf_ok s" "has_out (m_mode s)" using assms(1) by (simp_all add: writable_def)
  with False have lt: "pend s < length (sb_mem s)" by (auto simp: sbuf_ok_def content_length_def)
  have sm: "Suc (pend s) < 2 ^ 31" using assms(2,3) by (simp add: str_fits_def spec_put_def sbuf_abs_def)
  have "str_overflow junk other (Some c) s = Some (Ret (Some c), ?u)"
    using ok False assms(2) to_int_nat [OF sm]
    by (auto simp: str_overflow_def Let_def area_defs sbuf_ok_def nat_add_distrib)
  moreover have "writable ?u"
    using ok lt assms(2) by (auto simp: writable_def sbuf_ok_def content_length_def split: if_splits)
  moreover have "sbuf_abs ?u = spec_put c (sbuf_abs s)"
    using ok lt assms(2) by (simp add: sbuf_abs_def spec_put_def content_def content_length_def take_grow)
  ultimately show ?thesis by blast
next
  case True
  define sz where "sz = length (sb_mem s)"
  define asz where "asz = (if sz = 0 then 256 else 2 * sz)"
  define mem where "mem = (sb_mem s @ map junk [sz..<asz])[sz := c]"
  let ?t = "s\<lparr>sb_mem := mem, pcur := Suc sz, pend := Suc sz\<rparr>"
  let ?u = "if has_in (m_mode s) then ?t\<lparr>gend := Suc sz\<rparr> else ?t"
  have ok: "sbuf_ok s" "has_out (m_mode s)" using assms(1) by (simp_all add: writable_def)
  have sm: "Suc sz < 2 ^ 31" using True assms(2,3) by (simp add: str_fits_def spec_put_def sbuf_abs_def sz_def)
  have lt: "sz < asz" by (simp add: asz_def)
  have len: "length mem = asz" using lt by (simp add: mem_def sz_def)
  have tk: "take (Suc sz) mem = sb_mem s @ [c]"
    using lt unfolding mem_def by (subst take_grow) (simp_all add: sz_def)
  have "str_overflow junk other (Some c) s = Some (Ret (Some c), ?u)"
    using ok True assms(2) to_int_nat [OF sm]
    by (auto simp: str_overflow_def Let_def area_defs sbuf_ok_def nat_add_distrib mem_def asz_def sz_def add.commute
        simp flip: sz_def)
  moreover have "writable ?u"
    using ok lt len True assms(2) by (auto simp: writable_def sbuf_ok_def content_length_def sz_def split: if_splits)
  moreover have "sbuf_abs ?u = spec_put c (sbuf_abs s)"
    using ok True assms(2) tk by (simp add: sbuf_abs_def spec_put_def content_def content_length_def sz_def)
  ultimately show ?thesis by blast
qed

lemma writable_areas: "writable s \<Longrightarrow> pcur s \<le> pend s \<and> pend s \<le> length (sb_mem s)"
  by (auto simp: writable_def dest: sbuf_ok_areas)

interpretation sink0: char_sink "str_vt0 junk other" writable sbuf_abs spec_put str_fits for junk other
  by unfold_locales (auto simp: writable_areas sbuf_store sbuf_overflow dest: str_fits_before str_fits_length)

interpretation sink: char_sink "str_vt junk other" writable sbuf_abs spec_put str_fits for junk other
  by unfold_locales (auto simp: writable_areas sbuf_store sbuf_overflow dest: str_fits_before str_fits_length)

section \<open>Refinement of a string with two positions\<close>

subsection \<open>The operations of a stream buffer and what they do to the string\<close>

datatype 'c sop =
  OGet | OBump | ONext | OGetn int | OPutback 'c | OUnget | OPut 'c | OPutn "'c list"
  | OSeekoff int seekdir openmode | OSeekpos int openmode | OStr | OSetStr "'c list"

datatype 'c sres = RChar "'c option" | RChars "'c list" | RCount nat | RPos "nat option" | RUnit

definition on_result :: "('a \<Rightarrow> 'b) \<Rightarrow> ('a outcome \<times> 's) option \<Rightarrow> ('b \<times> 's) option" where
  "on_result f r = (case r of Some (Ret a, s) \<Rightarrow> Some (f a, s) | _ \<Rightarrow> None)"

fun sbuf_exec :: "('c, 'c stringbuf) vtable \<Rightarrow> 'c sop \<Rightarrow> 'c stringbuf \<Rightarrow> ('c sres \<times> 'c stringbuf) option" where
  "sbuf_exec vt OGet s = on_result RChar (sgetc vt s)"
| "sbuf_exec vt OBump s = on_result RChar (sbumpc vt s)"
| "sbuf_exec vt ONext s = on_result RChar (snextc vt s)"
| "sbuf_exec vt (OGetn n) s = on_result RChars (sgetn vt n s)"
| "sbuf_exec vt (OPutback c) s = on_result RChar (sputbackc vt c s)"
| "sbuf_exec vt OUnget s = on_result RChar (sungetc vt s)"
| "sbuf_exec vt (OPut c) s = on_result RChar (sputc vt c s)"
| "sbuf_exec vt (OPutn cs) s = on_result RCount (sputn vt cs s)"
| "sbuf_exec vt (OSeekoff n d w) s = (case seekoff n d w s of (p, s) \<Rightarrow> Some (RPos p, s))"
| "sbuf_exec vt (OSeekpos n w) s = (case seekpos n w s of (p, s) \<Rightarrow> Some (RPos p, s))"
| "sbuf_exec vt OStr s = Some (RChars (str_get s), s)"
| "sbuf_exec vt (OSetStr cs) s = Some (RUnit, str_set cs s)"

definition char_at :: "'c list \<Rightarrow> nat \<Rightarrow> 'c option" where
  "char_at xs i = (if i < length xs then Some (xs ! i) else None)"

definition spec_seek :: "openmode \<Rightarrow> nat \<Rightarrow> 'c sspec \<Rightarrow> 'c sres \<times> 'c sspec" where
  "spec_seek which p = (\<lambda>(m, xs, r, w).
     let i = has_in which; out = has_out which in
     if (i \<or> out) \<and> (i \<longrightarrow> has_in m) \<and> (out \<longrightarrow> has_out m)
     then (RPos (Some p), (m, xs, if i then p else r, if out then p else w))
     else (RPos None, (m, xs, r, w)))"

fun spec_exec :: "'c sop \<Rightarrow> 'c sspec \<Rightarrow> 'c sres \<times> 'c sspec" where
  "spec_exec OGet (m, xs, r, w) = (RChar (if has_in m then char_at xs r else None), (m, xs, r, w))"
| "spec_exec OBump (m, xs, r, w) =
     (if has_in m \<and> r < length xs then (RChar (Some (xs ! r)), (m, xs, Suc r, w))
      else (RChar None, (m, xs, r, w)))"
| "spec_exec ONext (m, xs, r, w) =
     (if has_in m \<and> r < length xs then (RChar (char_at xs (Suc r)), (m, xs, Suc r, w))
      else (RChar None, (m, xs, r, w)))"
| "spec_exec (OGetn n) (m, xs, r, w) =
     (if has_in m then (RChars (take (nat n) (drop r xs)), (m, xs, min (r + nat n) (length xs), w))
      else (RChars [], (m, xs, r, w)))"
| "spec_exec (OPutback c) (m, xs, r, w) =
     (if has_in m \<and> 0 < r \<and> (xs ! (r - 1) = c \<or> has_out m)
      then (RChar (Some c), (m, xs[r - 1 := c], r - 1, w)) else (RChar None, (m, xs, r, w)))"
| "spec_exec OUnget (m, xs, r, w) =
     (if has_in m \<and> 0 < r then (RChar (Some (xs ! (r - 1))), (m, xs, r - 1, w))
      else (RChar None, (m, xs, r, w)))"
| "spec_exec (OPut c) (m, xs, r, w) =
     (if has_out m then (RChar (Some c), spec_put c (m, xs, r, w)) else (RChar None, (m, xs, r, w)))"
| "spec_exec (OPutn cs) (m, xs, r, w) =
     (if has_out m then (RCount (length cs), fold spec_put cs (m, xs, r, w))
      else (RCount 0, (m, xs, r, w)))"
| "spec_exec (OSeekoff n d which) (m, xs, r, w) =
     (let from = (case d of Beg \<Rightarrow> Some 0 | End \<Rightarrow> Some (int (length xs))
                  | Cur \<Rightarrow> if has_in which \<and> has_out which then None
                         else Some (int (if has_in which then r else w)))
      in case from of
           Some p \<Rightarrow> if 0 \<le> p + n \<and> p + n \<le> int (length xs) then spec_seek which (nat (p + n)) (m, xs, r, w)
                     else (RPos None, (m, xs, r, w))
         | None \<Rightarrow> (RPos None, (m, xs, r, w)))"
| "spec_exec (OSeekpos n which) (m, xs, r, w) =
     (if 0 \<le> n \<and> n \<le> int (length xs)
      then spec_seek (which AND m) (nat n) (m, xs, r, w)
      else (RPos None, (m, xs, r, w)))"
| "spec_exec OStr (m, xs, r, w) = (RChars xs, (m, xs, r, w))"
| "spec_exec (OSetStr cs) (m, xs, r, w) = (RUnit, (m, if has_in m \<or> has_out m then cs else [], 0, 0))"

subsection \<open>Open modes\<close>

lemma mode_bits: "(w :: openmode) AND 3 = of_bool (bit w 0) + 2 * of_bool (bit w 1)"
proof -
  have "w AND 3 = take_bit 2 w" by (simp add: take_bit_eq_mask mask_eq_exp_minus_1)
  then show ?thesis by (simp add: take_bit_Suc numeral_2_eq_2 bit_Suc bit_0 mod_2_eq_odd)
qed

lemma has_in_bit: "has_in m \<longleftrightarrow> bit m 0"
  by (simp add: has_in_def om_in_def and_one_eq bit_0 odd_iff_mod_2_eq_one)

lemma has_out_bit: "has_out m \<longleftrightarrow> bit m 1"
  using and_exp_eq_0_iff_not_bit [of m 1] by (simp add: has_out_def om_out_def)

lemma mode_in_out: "om_in OR om_out = 3"
  by (simp add: om_in_def om_out_def)

lemma mode_cases:
  "m AND 3 = om_in \<longleftrightarrow> has_in m \<and> \<not> has_out m"
  "m AND 3 = om_out \<longleftrightarrow> \<not> has_in m \<and> has_out m"
  "m AND 3 = 3 \<longleftrightarrow> has_in m \<and> has_out m"
  by (simp_all add: mode_bits has_in_bit has_out_bit om_in_def om_out_def)

lemma mode_and:
  "has_in (v AND w) \<longleftrightarrow> has_in v \<and> has_in w" "has_out (v AND w) \<longleftrightarrow> has_out v \<and> has_out w"
  by (simp_all add: has_in_bit has_out_bit bit_and_iff)

lemma mode_and_cases:
  "w AND 3 AND m = om_in \<longleftrightarrow> has_in (w AND m) \<and> \<not> has_out (w AND m)"
  "w AND 3 AND m = om_out \<longleftrightarrow> \<not> has_in (w AND m) \<and> has_out (w AND m)"
  "w AND 3 AND m = 3 \<longleftrightarrow> has_in (w AND m) \<and> has_out (w AND m)"
proof -
  have "w AND 3 AND m = (w AND m) AND 3" by (simp add: ac_simps)
  then show "w AND 3 AND m = om_in \<longleftrightarrow> has_in (w AND m) \<and> \<not> has_out (w AND m)"
    "w AND 3 AND m = om_out \<longleftrightarrow> \<not> has_in (w AND m) \<and> has_out (w AND m)"
    "w AND 3 AND m = 3 \<longleftrightarrow> has_in (w AND m) \<and> has_out (w AND m)"
    by (simp_all only: mode_cases)
qed

subsection \<open>Every operation\<close>

lemma rest_content:
  "sbuf_ok s \<Longrightarrow> rest s = (if has_in (m_mode s) then drop (gcur s) (content s) else [])"
  by (auto simp: rest_def content_def sbuf_ok_def)

lemma gcur_bound: "sbuf_ok s \<Longrightarrow> gcur s \<le> length (content s)"
  by (cases "has_in (m_mode s)") (auto simp: sbuf_ok_def content_def)

lemma abs_after:
  assumes "sbuf_ok s" "sbuf_ok s'" "sbuf_keep s' = sbuf_keep s" "rest s' = drop n (rest s)"
  shows "sbuf_abs s' = (m_mode s, content s,
    if has_in (m_mode s) then min (gcur s + n) (length (content s)) else gcur s, pcur s)"
proof -
  have k: "m_mode s' = m_mode s" "content s' = content s" "pcur s' = pcur s"
    using assms(3) by (simp_all add: sbuf_keep_def)
  have "gcur s' = (if has_in (m_mode s) then min (gcur s + n) (length (content s)) else gcur s)"
  proof (cases "has_in (m_mode s)")
    case True
    have "length (rest s') = length (content s) - gcur s'" "length (rest s) = length (content s) - gcur s"
      using rest_content [OF assms(2)] rest_content [OF assms(1)] True k by simp_all
    moreover have "gcur s' \<le> length (content s)" "gcur s \<le> length (content s)"
      using gcur_bound [OF assms(2)] gcur_bound [OF assms(1)] k by simp_all
    ultimately show ?thesis using assms(4) True by auto
  next
    case False
    with assms(1,2) k show ?thesis by (simp add: sbuf_ok_def)
  qed
  with k show ?thesis by (simp add: sbuf_abs_def)
qed

abbreviation simulates :: "('c, 'c stringbuf) vtable \<Rightarrow> 'c sop \<Rightarrow> 'c stringbuf \<Rightarrow> bool" where
  "simulates vt op s \<equiv> (\<exists>s'. sbuf_exec vt op s = Some (fst (spec_exec op (sbuf_abs s)), s') \<and>
     sbuf_ok s' \<and> sbuf_abs s' = snd (spec_exec op (sbuf_abs s)))"

definition small :: "'c sspec \<Rightarrow> bool" where
  "small = (\<lambda>(m, xs, r, w). length xs < 2 ^ 31)"

lemma small_abs: "small (sbuf_abs s) \<longleftrightarrow> length (content s) < 2 ^ 31"
  by (simp add: small_def sbuf_abs_def)

lemma char_of_rest:
  assumes "sbuf_ok s"
  shows "(case rest s of [] \<Rightarrow> None | c # _ \<Rightarrow> Some c) =
    (if has_in (m_mode s) then char_at (content s) (gcur s) else None)"
  using rest_content [OF assms]
  by (auto simp: char_at_def Cons_nth_drop_Suc [symmetric] split: list.splits)

lemma char_of_tl_rest:
  assumes "sbuf_ok s"
  shows "(case tl (rest s) of [] \<Rightarrow> None | c # _ \<Rightarrow> Some c) =
    (if has_in (m_mode s) then char_at (content s) (Suc (gcur s)) else None)"
proof -
  have "tl (rest s) = (if has_in (m_mode s) then drop (Suc (gcur s)) (content s) else [])"
    using rest_content [OF assms] by (simp add: drop_Suc tl_drop)
  then show ?thesis
    by (auto simp: char_at_def Cons_nth_drop_Suc [symmetric] split: list.splits)
qed

lemma exec_read:
  assumes "sbuf_ok s" and "op \<in> {OGet, OBump, ONext, OGetn n}" and "small (sbuf_abs s)"
  shows "simulates (str_vt junk other) op s"
proof -
  note b = gcur_bound [OF assms(1)]
  consider "op = OGet" | "op = OBump" | "op = ONext" | "op = OGetn n" using assms(2) by blast
  then show ?thesis
  proof cases
    case 1
    from source.sgetc_reads [OF assms(1)] obtain s' where
      r: "sgetc (str_vt junk other) s = Some (Ret (case rest s of [] \<Rightarrow> None | c # _ \<Rightarrow> Some c), s')"
        "sbuf_ok s'" "rest s' = rest s" "sbuf_keep s' = sbuf_keep s" by blast
    with abs_after [OF assms(1) r(2,4), of 0] b char_of_rest [OF assms(1)] 1 show ?thesis
      by (auto simp: on_result_def sbuf_abs_def)
  next
    case 2
    from source.sbumpc_reads [OF assms(1)] obtain s' where
      r: "sbumpc (str_vt junk other) s = Some (Ret (case rest s of [] \<Rightarrow> None | c # _ \<Rightarrow> Some c), s')"
        "sbuf_ok s'" "rest s' = tl (rest s)" "sbuf_keep s' = sbuf_keep s" by blast
    with abs_after [OF assms(1) r(2,4), of 1] b char_of_rest [OF assms(1)] 2 show ?thesis
      by (auto simp: on_result_def sbuf_abs_def drop_Suc char_at_def)
  next
    case 3
    from source.snextc_reads [OF assms(1)] obtain s' where
      r: "snextc (str_vt junk other) s = Some (Ret (case tl (rest s) of [] \<Rightarrow> None | c # _ \<Rightarrow> Some c), s')"
        "sbuf_ok s'" "rest s' = tl (rest s)" "sbuf_keep s' = sbuf_keep s" by blast
    with abs_after [OF assms(1) r(2,4), of 1] b char_of_tl_rest [OF assms(1)] 3 show ?thesis
      by (auto simp: on_result_def sbuf_abs_def drop_Suc char_at_def)
  next
    case 4
    have "length (rest s) < 2 ^ 31" using assms(3) by (auto simp: rest_content [OF assms(1)] small_abs less_imp_diff_less)
    then obtain s' where
      r: "base_xsgetn (str_vt0 junk other) n s = Some (Ret (take (nat n) (rest s)), s')"
        "sbuf_ok s'" "rest s' = drop (nat n) (rest s)" "sbuf_keep s' = sbuf_keep s"
      using source0.base_xsgetn_reads [OF assms(1), of n junk other] by blast
    with abs_after [OF assms(1) r(2,4,3)] b rest_content [OF assms(1)] 4 show ?thesis
      by (auto simp: on_result_def sbuf_abs_def sgetn_def)
  qed
qed

lemma sbuf_ok_mem: "length m = length (sb_mem s) \<Longrightarrow> sbuf_ok (s\<lparr>sb_mem := m\<rparr>) = sbuf_ok s"
  by (simp add: sbuf_ok_def content_length_def)

lemma sbuf_ok_back:
  assumes "sbuf_ok s" and "0 < gcur s"
  shows "has_in (m_mode s)" and "sbuf_ok (s\<lparr>gcur := gcur s - Suc 0\<rparr>)"
    and "sb_mem s ! (gcur s - Suc 0) = content s ! (gcur s - Suc 0)"
    and "sbuf_ok (s\<lparr>gcur := gcur s - Suc 0, sb_mem := (sb_mem s)[gcur s - Suc 0 := c]\<rparr>)"
    and "content (s\<lparr>gcur := gcur s - Suc 0, sb_mem := (sb_mem s)[gcur s - Suc 0 := c]\<rparr>) =
      (content s)[gcur s - Suc 0 := c]"
proof -
  show i: "has_in (m_mode s)" using assms by (auto simp: sbuf_ok_def split: if_splits)
  have le: "gcur s \<le> content_length s" using assms i by (simp add: sbuf_ok_def)
  show "sbuf_ok (s\<lparr>gcur := gcur s - Suc 0\<rparr>)"
    using sbuf_ok_areas(1) [OF assms(1)] by (intro sbuf_ok_gcur assms(1)) simp
  then show "sbuf_ok (s\<lparr>gcur := gcur s - Suc 0, sb_mem := (sb_mem s)[gcur s - Suc 0 := c]\<rparr>)"
    by (simp add: sbuf_ok_mem)
  show "sb_mem s ! (gcur s - Suc 0) = content s ! (gcur s - Suc 0)"
    using le assms(2) by (simp add: content_def)
  show "content (s\<lparr>gcur := gcur s - Suc 0, sb_mem := (sb_mem s)[gcur s - Suc 0 := c]\<rparr>) =
      (content s)[gcur s - Suc 0 := c]"
    by (simp add: content_def content_length_def take_update_swap)
qed

lemma gbump_back: "gbump (- 1) s = s\<lparr>gcur := gcur s - Suc 0\<rparr>"
proof -
  have "nat (int n + - 1) = n - Suc 0" for n by (cases n) simp_all
  then show ?thesis by (simp only: gbump_def to_int_one)
qed

lemma exec_back:
  assumes "sbuf_ok s" and "op \<in> {OPutback c, OUnget}"
  shows "simulates (str_vt junk other) op s"
proof (cases "gcur s = 0")
  case True
  have "gbeg s = 0" using assms(1) by (simp add: sbuf_ok_def)
  with True assms show ?thesis
    by (auto simp: on_result_def sbuf_abs_def sputbackc_def sungetc_def str_pbackfail_def)
next
  case False
  then have "0 < gcur s" by simp
  note b = sbuf_ok_back [OF assms(1) this]
  have g: "gbeg s = 0" using assms(1) by (simp add: sbuf_ok_def)
  have cg: "content (s\<lparr>gcur := n\<rparr>) = content s" for n by (simp add: content_def content_length_def)
  have id: "(content s)[gcur s - Suc 0 := content s ! (gcur s - Suc 0)] = content s" by simp
  from assms(2) consider "op = OPutback c" | "op = OUnget" by blast
  then show ?thesis
  proof cases
    case 1
    show ?thesis
    proof (cases "c = content s ! (gcur s - Suc 0)")
      case True
      with 1 b g False id cg show ?thesis
        by (auto simp: on_result_def sbuf_abs_def sputbackc_def)
    next
      case ne: False
      show ?thesis
      proof (cases "has_out (m_mode s)")
        case True
        with 1 b g False ne show ?thesis
          by (auto simp: on_result_def sbuf_abs_def sputbackc_def str_pbackfail_def gbump_back)
      next
        case nout: False
        with 1 b g False ne assms(1) show ?thesis
          by (auto simp: on_result_def sbuf_abs_def sputbackc_def str_pbackfail_def)
      qed
    qed
  next
    case 2
    with b g False cg show ?thesis by (auto simp: on_result_def sbuf_abs_def sungetc_def)
  qed
qed

lemma put_small:
  assumes "w \<le> length xs" and "small (fold spec_put cs (m, xs, r, w))"
  shows "str_fits (fold spec_put cs (m, xs, r, w))"
proof -
  have "case fold spec_put cs (m, xs, r, w) of (m, xs, r, w) \<Rightarrow> w \<le> length xs"
    using assms(1)
  proof (induction cs arbitrary: xs w)
    case (Cons c cs)
    from Cons.IH [of "Suc w" "if w < length xs then xs[w := c] else xs @ [c]"] Cons.prems show ?case by (simp add: spec_put_def)
  qed simp
  with assms(2) show ?thesis by (auto simp: small_def str_fits_def)
qed

lemma exec_put:
  assumes "sbuf_ok s" and "op \<in> {OPut c, OPutn cs}" and "small (snd (spec_exec op (sbuf_abs s)))"
  shows "simulates (str_vt junk other) op s"
proof (cases "has_out (m_mode s)")
  case True
  with assms(1) have w: "writable s" by (simp add: writable_def)
  have p: "pcur s \<le> length (content s)" using assms(1) True content_len [OF assms(1)] by (simp only: content_length_def sbuf_ok_def if_True)
  from assms(2) consider "op = OPut c" | "op = OPutn cs" by blast
  then show ?thesis
  proof cases
    case 1
    with assms(3) True have "str_fits (spec_put c (sbuf_abs s))"
      using put_small [OF p, of "[c]"] by (simp add: sbuf_abs_def)
    with 1 sink.sputc_puts [OF w, of c junk other] True show ?thesis
      by (auto simp: on_result_def sbuf_abs_def writable_def)
  next
    case 2
    with assms(3) True have "str_fits (fold spec_put cs (sbuf_abs s))"
      using put_small [OF p, of cs] by (simp add: sbuf_abs_def)
    with 2 sink0.base_xsputn_puts [OF w, of cs junk other] True show ?thesis
      by (auto simp: on_result_def sbuf_abs_def writable_def sputn_def)
  qed
next
  case False
  then have p: "pcur s = 0" "pend s = 0" using assms(1) by (simp_all add: sbuf_ok_def)
  from assms(2) consider "op = OPut c" | "op = OPutn cs" by blast
  then show ?thesis
  proof cases
    case 1
    with p False assms(1) show ?thesis
      by (auto simp: on_result_def sbuf_abs_def sputc_def str_overflow_def)
  next
    case 2
    have "base_xsputn (str_vt0 junk other) cs s = Some (Ret 0, s)"
    proof (cases cs)
      case Nil
      with p show ?thesis by (simp add: base_xsputn_def)
    next
      case (Cons d ds)
      have "xsputn_turn (str_vt0 junk other) (cs, False) s = Some (Ret (cs, True), s)"
        using p False Cons by (simp add: xsputn_turn_def sputc_def str_overflow_def)
      then have "io_loop (\<lambda>(cs, stop). cs \<noteq> [] \<and> \<not> stop) (xsputn_turn (str_vt0 junk other)) (cs, False) s =
          Some (Ret (cs, True), s)"
        using Cons by (subst io_loop_step [where a' = "(cs, True)" and s' = s]) simp_all
      with p show ?thesis by (simp add: base_xsputn_def)
    qed
    with 2 False assms(1) show ?thesis by (auto simp: on_result_def sbuf_abs_def sputn_def)
  qed
qed

lemma seek_simulates:
  assumes ok: "sbuf_ok s" and np: "np \<le> content_length s" and sm: "content_length s < 2 ^ 31"
  shows "\<exists>p s'. seek_to which np s = (p, s') \<and> spec_seek which np (sbuf_abs s) = (RPos p, sbuf_abs s') \<and>
    sbuf_ok s'"
proof -
  have "gcur s \<le> content_length s" "pcur s \<le> content_length s"
    using ok by (cases "has_in (m_mode s)"; cases "has_out (m_mode s)"; simp add: sbuf_ok_def content_length_def)+
  moreover have "to_int (int np - int k) = int np - int k" if "k \<le> content_length s" for k
    by (rule to_int_id) (use that np sm in simp_all)
  ultimately have "to_int (int np - int (gcur s)) = int np - int (gcur s)" "to_int (int np - int (pcur s)) = int np - int (pcur s)" by blast+
  then have g: "gbump (int np - int (gcur s)) s = s\<lparr>gcur := np\<rparr>"
    "pbump (int np - int (pcur s)) s = s\<lparr>pcur := np\<rparr>"
    "pbump (int np - int (pcur s)) (s\<lparr>gcur := np\<rparr>) = s\<lparr>gcur := np, pcur := np\<rparr>"
    by (simp_all add: gbump_def pbump_def)
  have c: "content (s\<lparr>gcur := n\<rparr>) = content s" "content (s\<lparr>pcur := n\<rparr>) = content s"
    "content (s\<lparr>gcur := n, pcur := n\<rparr>) = content s" for n
    by (simp_all add: content_def content_length_def)
  have i: "sbuf_ok (s\<lparr>gcur := np\<rparr>)" if "has_in (m_mode s)"
    using ok np that by (intro sbuf_ok_gcur) (auto simp: sbuf_ok_def)
  have o: "sbuf_ok (t\<lparr>pcur := np\<rparr>)"
    if "sbuf_ok t" "has_out (m_mode t)" "np \<le> content_length t" for t :: "'a stringbuf"
    using that by (cases "has_in (m_mode t)") (simp_all add: sbuf_ok_def content_length_def)
  have "m_mode s AND 3 = 3 \<longleftrightarrow> has_in (m_mode s) \<and> has_out (m_mode s)" by (rule mode_cases)
  moreover have "g_set s = has_in (m_mode s)" "p_set s = has_out (m_mode s)"
    using ok by (simp_all add: sbuf_ok_def)
  moreover have "sbuf_ok (s\<lparr>gcur := np, pcur := np\<rparr>)" if "has_in (m_mode s)" "has_out (m_mode s)"
    using o [OF i] that np by (simp add: content_length_def)
  ultimately show ?thesis
    using ok np i o [OF ok]
    by (cases "has_in which"; cases "has_out which")
      (auto simp: seek_to_def spec_seek_def Let_def mode_in_out mode_cases g c sbuf_abs_def)
qed

lemma exec_seek:
  assumes ok: "sbuf_ok s" and op: "op \<in> {OSeekoff n d which, OSeekpos n which}" and sm: "small (sbuf_abs s)"
  shows "simulates (str_vt junk other) op s"
proof -
  have len: "int (if has_out (m_mode s) then pend s else gend s) = int (length (content s))"
    using ok by (simp add: content_length_def)
  have set: "g_set s = has_in (m_mode s)" "p_set s = has_out (m_mode s)"
    using ok by (simp_all add: sbuf_ok_def)
  have fin: ?thesis
    if "sbuf_exec (str_vt junk other) op s = (case seek_to w np s of (p, s) \<Rightarrow> Some (RPos p, s))"
      "spec_exec op (sbuf_abs s) = spec_seek w np (sbuf_abs s)" "np \<le> length (content s)" for w np
    using seek_simulates [OF ok, of np w] that ok sm by (auto simp: small_abs)
  have fail: ?thesis
    if "sbuf_exec (str_vt junk other) op s = Some (RPos None, s)"
      "spec_exec op (sbuf_abs s) = (RPos None, sbuf_abs s)"
    using that ok by auto
  from op consider "op = OSeekoff n Beg which" | "op = OSeekoff n End which" |
    "op = OSeekoff n Cur which" | "op = OSeekpos n which" by (cases d) blast+
  then show ?thesis
  proof cases
    case 1
    show ?thesis
    proof (cases "n < 0 \<or> int (length (content s)) < n")
      case True
      with 1 show ?thesis by (intro fail) (auto simp: seekoff_def len sbuf_abs_def)
    next
      case False
      with 1 show ?thesis by (intro fin [of which "nat n"]) (auto simp: seekoff_def len sbuf_abs_def)
    qed
  next
    case 2
    show ?thesis
    proof (cases "n > 0 \<or> int (length (content s)) < - n")
      case True
      with 2 show ?thesis by (intro fail) (auto simp: seekoff_def len sbuf_abs_def)
    next
      case False
      with 2 show ?thesis
        by (intro fin [of which "nat (int (length (content s)) + n)"]) (auto simp: seekoff_def len sbuf_abs_def)
    qed
  next
    case 3
    define p where "p = int (if has_in which then gcur s else pcur s)"
    have seek: "sbuf_exec (str_vt junk other) op s =
        (if has_in which \<and> has_out which \<or> \<not> (if has_in which then has_in (m_mode s) else has_out (m_mode s)) \<or>
            n < - p \<or> int (length (content s)) - p < n then Some (RPos None, s)
         else case seek_to which (nat (p + n)) s of (p, s) \<Rightarrow> Some (RPos p, s))"
      using 3 unfolding sbuf_exec.simps
      by (simp add: seekoff_def len set Let_def mode_in_out mode_cases p_def)
    have spec: "spec_exec op (sbuf_abs s) =
        (if has_in which \<and> has_out which \<or> n < - p \<or> int (length (content s)) - p < n
         then (RPos None, sbuf_abs s) else spec_seek which (nat (p + n)) (sbuf_abs s))"
      using 3 by (auto simp: sbuf_abs_def p_def)
    have none: "spec_seek which q (sbuf_abs s) = (RPos None, sbuf_abs s)"
      if "\<not> (if has_in which then has_in (m_mode s) else has_out (m_mode s))" for q
      using that by (auto simp: spec_seek_def sbuf_abs_def split: if_splits)
    show ?thesis
    proof (cases "has_in which \<and> has_out which \<or> n < - p \<or> int (length (content s)) - p < n \<or>
        \<not> (if has_in which then has_in (m_mode s) else has_out (m_mode s))")
      case True
      then show ?thesis by (intro fail) (auto simp: seek spec none simp del: sbuf_exec.simps split: if_splits)
    next
      case False
      then show ?thesis
        by (intro fin [of which "nat (p + n)"]) (auto simp: seek spec simp del: sbuf_exec.simps)
    qed
  next
    case 4
    show ?thesis
    proof (cases "0 \<le> n \<and> n \<le> int (length (content s))")
      case True
      have "seekpos n which s = seek_to (which AND m_mode s) (nat n) s"
        using True set unfolding seekpos_def Let_def len mode_in_out mode_and_cases
        by (auto simp: seek_to_def Let_def mode_in_out mode_cases mode_and)
      with True 4 show ?thesis
        by (intro fin [of "which AND m_mode s" "nat n"]) (auto simp: sbuf_abs_def)
    next
      case False
      with 4 show ?thesis by (intro fail) (auto simp: seekpos_def len sbuf_abs_def)
    qed
  qed
qed

lemma set_areas_ok:
  assumes "gcur s = 0" "gend s = 0" "pcur s = 0" "pend s = 0" "gbeg s = 0" "pbeg s = 0"
    "\<not> g_set s" "\<not> p_set s"
  shows "sbuf_ok (set_areas s) \<and> sbuf_abs (set_areas s) =
    (m_mode s, if has_in (m_mode s) \<or> has_out (m_mode s) then sb_mem s else [], 0, 0)"
  using assms
  by (cases "has_in (m_mode s)"; cases "has_out (m_mode s)")
    (simp_all add: set_areas_def setg_def setp_def sbuf_ok_def sbuf_abs_def content_def content_length_def)

lemma str_set_ok:
  assumes "sbuf_ok s"
  shows "sbuf_ok (str_set cs s) \<and> sbuf_abs (str_set cs s) =
    (m_mode s, if has_in (m_mode s) \<or> has_out (m_mode s) then cs else [], 0, 0)"
  using assms
  by (cases "has_in (m_mode s)"; cases "has_out (m_mode s)")
    (simp_all add: str_set_def set_areas_def setg_def setp_def sbuf_ok_def sbuf_abs_def content_def
      content_length_def)

lemma str_get_content: "sbuf_ok s \<Longrightarrow> str_get s = content s"
  by (cases "has_in (m_mode s)"; cases "has_out (m_mode s)")
    (simp_all add: str_get_def sbuf_ok_def content_def content_length_def)

lemma exec_simulates:
  assumes "sbuf_ok s" and "small (sbuf_abs s)" and "small (snd (spec_exec op (sbuf_abs s)))"
  shows "simulates (str_vt junk other) op s"
proof (cases op)
  case OStr
  with assms(1) show ?thesis by (simp add: str_get_content sbuf_abs_def)
next
  case (OSetStr cs)
  with str_set_ok [OF assms(1), of cs] show ?thesis by (simp add: sbuf_abs_def)
qed (rule exec_read [OF assms(1) _ assms(2)] exec_back [OF assms(1)] exec_put [OF assms(1) _ assms(3)] exec_seek [OF assms(1) _ assms(2)], blast)+

subsection \<open>Sequences of operations\<close>

fun sbuf_run :: "('c, 'c stringbuf) vtable \<Rightarrow> 'c sop list \<Rightarrow> 'c stringbuf \<Rightarrow>
    ('c sres list \<times> 'c stringbuf) option" where
  "sbuf_run vt [] s = Some ([], s)"
| "sbuf_run vt (op # ops) s = do {
     (r, s) \<leftarrow> sbuf_exec vt op s;
     (rs, s) \<leftarrow> sbuf_run vt ops s;
     Some (r # rs, s)
   }"

fun spec_run :: "'c sop list \<Rightarrow> 'c sspec \<Rightarrow> 'c sres list \<times> 'c sspec" where
  "spec_run [] a = ([], a)"
| "spec_run (op # ops) a =
     (case spec_exec op a of (r, a) \<Rightarrow> case spec_run ops a of (rs, a) \<Rightarrow> (r # rs, a))"

text \<open>Every string on the way has fewer than \<open>2 ^ 31\<close> characters.\<close>

fun spec_small :: "'c sop list \<Rightarrow> 'c sspec \<Rightarrow> bool" where
  "spec_small [] a = small a"
| "spec_small (op # ops) a = (small a \<and> spec_small ops (snd (spec_exec op a)))"

lemma spec_small_now: "spec_small ops a \<Longrightarrow> small a"
  by (cases ops) simp_all

lemma run_simulates:
  assumes "sbuf_ok s" and "spec_small ops (sbuf_abs s)"
  shows "\<exists>s'. sbuf_run (str_vt junk other) ops s = Some (fst (spec_run ops (sbuf_abs s)), s') \<and>
    sbuf_ok s' \<and> sbuf_abs s' = snd (spec_run ops (sbuf_abs s))"
  using assms
proof (induction ops arbitrary: s)
  case Nil
  then show ?case by simp
next
  case (Cons op ops)
  have "small (sbuf_abs s)" "small (snd (spec_exec op (sbuf_abs s)))" using Cons.prems(2) spec_small_now [of ops] by simp_all
  from exec_simulates [OF Cons.prems(1) this] obtain t where
    t: "sbuf_exec (str_vt junk other) op s = Some (fst (spec_exec op (sbuf_abs s)), t)" "sbuf_ok t"
      "sbuf_abs t = snd (spec_exec op (sbuf_abs s))" by blast
  from Cons.IH [OF t(2)] Cons.prems(2) t show ?case by (auto split: prod.splits)
qed

lemma new_string_source: "sbuf_ok (stringbuf_new cs om_in)" "rest (stringbuf_new cs om_in) = cs"
  by (simp_all add: sbuf_ok_def rest_def content_length_def stringbuf_new_def
    set_areas_def has_in_def has_out_def om_in_def om_out_def Let_def area_defs)

text \<open>
  C16: A string buffer made from any string and opened in any mode is, for every sequence of stream
  buffer operations (reading, putting back, writing, seeking, taking and replacing its string) in which
  the string never has \<open>2 ^ 31\<close> characters or more, a string with a read and a write position: every operation returns, with the result the string gives,
  whatever the array held where it was not written. In particular what is written can be read back
  as soon as it is written, and growing the array moves no position. The bound is that of the
  type \<^verbatim>\<open>int\<close> of \<^verbatim>\<open>gbump\<close> and \<^verbatim>\<open>pbump\<close>.
\<close>

theorem stringbuf_refines:
  assumes "spec_small ops (mode, if has_in mode \<or> has_out mode then str else [], 0, 0)"
  shows "\<exists>s'. sbuf_run (str_vt junk other) ops (stringbuf_new str mode) =
       Some (fst (spec_run ops (mode, if has_in mode \<or> has_out mode then str else [], 0, 0)), s') \<and>
     sbuf_abs s' = snd (spec_run ops (mode, if has_in mode \<or> has_out mode then str else [], 0, 0))"
proof -
  have "sbuf_ok (stringbuf_new str mode) \<and> sbuf_abs (stringbuf_new str mode) =
      (mode, if has_in mode \<or> has_out mode then str else [], 0, 0)"
    unfolding stringbuf_new_def by (subst set_areas_ok) (simp_all add: set_areas_ok)
  then have ok: "sbuf_ok (stringbuf_new str mode)" and
    a: "sbuf_abs (stringbuf_new str mode) = (mode, if has_in mode \<or> has_out mode then str else [], 0, 0)"
    by simp_all
  from run_simulates [OF ok, of ops junk other] assms show ?thesis unfolding a by blast
qed

text \<open>Writing behind the end of a string that is read at the same time.\<close>

theorem stringbuf_refines_witness:
  "\<exists>s'. sbuf_run (str_vt (\<lambda>_. CHR ''?'') CHR ''!'')
       [OBump, OSeekoff 0 End om_out, OPutn ''cd'', OGetn 9, OSeekpos 1 om_in, OGet, OStr] (stringbuf_new ''ab'' (om_in OR om_out)) =
     Some ([RChar (Some CHR ''a''), RPos (Some 2), RCount 2, RChars ''bcd'', RPos (Some 1), RChar (Some CHR ''b''), RChars ''abcd''], s') \<and>
     sbuf_abs s' = (om_in OR om_out, ''abcd'', 1, 4)"
proof -
  let ?ops = "[OBump, OSeekoff 0 End om_out, OPutn ''cd'', OGetn 9, OSeekpos 1 om_in, OGet, OStr]"
  have m: "has_in (om_in OR om_out)" "has_out (om_in OR om_out)" by (simp_all add: has_in_def has_out_def om_in_def om_out_def)
  have w: "has_in om_in" "\<not> has_out om_in" "\<not> has_in om_out" "has_out om_out"
    by (simp_all add: has_in_def has_out_def om_in_def om_out_def)
  note d = m w mode_and spec_seek_def spec_put_def char_at_def small_def Let_def
  have "spec_small ?ops (om_in OR om_out, ''ab'', 0, 0)" by (simp add: d)
  moreover have "spec_run ?ops (om_in OR om_out, ''ab'', 0, 0) =
      ([RChar (Some CHR ''a''), RPos (Some 2), RCount 2, RChars ''bcd'', RPos (Some 1), RChar (Some CHR ''b''), RChars ''abcd''],
       (om_in OR om_out, ''abcd'', 1, 4))" by (simp add: d)
  ultimately show ?thesis using stringbuf_refines [of ?ops "om_in OR om_out" "''ab''" "\<lambda>_. CHR ''?''" "CHR ''!''"] m by auto
qed

end
