(* ===== verification/Ostream.thy ===== *)
theory Ostream
  imports Num_Put Stringbuf
begin

text \<open>
  The output streams: \<^verbatim>\<open>basic_ostream\<close> (\<^verbatim>\<open>cxxrt/ostream.h\<close>, \<^verbatim>\<open>srccxx/ostream.cc\<close>) with the sentry, the
  inserters of numbers, characters and strings, the insertion of a whole stream buffer, unformatted
  output and the manipulators. Output to a string stream is shown to be the concatenation of the
  padded texts; inserting a stream buffer is shown to copy it, except when exactly two characters
  are left, where the function never returns.

  An exception while the destructor of the sentry throws ends the program: no result.
\<close>

unbundle bit_operations_syntax

section \<open>Flushing and the sentry\<close>

definition os_flush :: "('c, ('c, 'z) streambuf_scheme) vtable \<Rightarrow>
    ('c, ('c, 'z) streambuf_scheme, unit) stream_op" where
  "os_flush vt s =
     (if io_sbuf s \<noteq> None
      then io_bind (on_sbuf (pubsync vt)) (\<lambda>r. if r = - 1 then setstate badbit else io_ret ()) s
      else io_ret () s)"

definition flush_tied :: "('c, 's) ios \<Rightarrow> ('c, 's) ios" where
  "flush_tied s = (case io_tie s of None \<Rightarrow> s | Some t \<Rightarrow> s\<lparr>io_flushed := io_flushed s @ [t]\<rparr>)"

definition sentry_dtor :: "('c, ('c, 'z) streambuf_scheme) vtable \<Rightarrow>
    ('c, ('c, 'z) streambuf_scheme, unit) stream_op" where
  "sentry_dtor vt s = (if flags_get s AND fl_unitbuf \<noteq> 0 then os_flush vt s else io_ret () s)"

definition with_sentry :: "('c, ('c, 'z) streambuf_scheme) vtable \<Rightarrow>
    (bool \<Rightarrow> ('c, ('c, 'z) streambuf_scheme, unit) stream_op) \<Rightarrow>
    ('c, ('c, 'z) streambuf_scheme, unit) stream_op" where
  "with_sentry vt body s =
     (let s = flush_tied s in
      case body (good s) s of
        None \<Rightarrow> None
      | Some (r, s) \<Rightarrow>
          (case sentry_dtor vt s of
             None \<Rightarrow> None
           | Some (Ret _, s) \<Rightarrow> Some (r, s)
           | Some (Throw, s) \<Rightarrow> if r = Throw then None else Some (Throw, s)))"

section \<open>Numbers\<close>

definition print_body :: "('c, 's, bool) stream_op \<Rightarrow> ('c, 's, unit) stream_op" where
  "print_body put = io_catch
     (io_bind put (\<lambda>failed. if failed then setstate badbit else io_ret ())) process_exception"

definition cs_print :: "('c, ('c, 'z) streambuf_scheme) vtable \<Rightarrow>
    ('c, ('c, 'z) streambuf_scheme, bool) stream_op \<Rightarrow>
    ('c, ('c, 'z) streambuf_scheme, unit) stream_op" where
  "cs_print vt put s =
     (if \<not> need_osentry s then print_body put s
      else with_sentry vt (\<lambda>ok. if ok then print_body put else io_ret ()) s)"

definition os_bool where "os_bool vt b = cs_print vt (do_put_bool vt b)"
definition os_short where "os_short vt (i :: 16 word) = cs_print vt (do_put_long vt (ucast i))"
definition os_ushort where "os_ushort vt (i :: 16 word) = cs_print vt (do_put_ulong vt (ucast i))"
definition os_int where "os_int vt (i :: 32 word) = cs_print vt (do_put_long vt (ucast i))"
definition os_uint where "os_uint vt (i :: 32 word) = cs_print vt (do_put_ulong vt (ucast i))"
definition os_long where "os_long vt (i :: ulong) = cs_print vt (do_put_long vt i)"
definition os_ulong where "os_ulong vt (i :: ulong) = cs_print vt (do_put_ulong vt i)"
definition os_pointer where "os_pointer vt (p :: ulong) = cs_print vt (do_put_pointer vt p)"

section \<open>Characters and strings\<close>

fun sputc_all :: "('c, ('c, 'z) streambuf_scheme) vtable \<Rightarrow> 'c list \<Rightarrow>
    (('c, 'z) streambuf_scheme, unit) io" where
  "sputc_all vt [] = io_ret ()"
| "sputc_all vt (c # cs) = io_bind (sputc vt c) (\<lambda>_. sputc_all vt cs)"

definition sputc_n :: "('c, ('c, 'z) streambuf_scheme) vtable \<Rightarrow> int \<Rightarrow> 'c \<Rightarrow>
    (('c, 'z) streambuf_scheme, unit) io" where
  "sputc_n vt n c = sputc_all vt (replicate (nat n) c)"

definition print_char :: "('c, ('c, 'z) streambuf_scheme) vtable \<Rightarrow> 'c \<Rightarrow>
    ('c, ('c, 'z) streambuf_scheme, unit) stream_op" where
  "print_char vt c s =
     (if ib_width s = 0 then io_bind (on_sbuf (sputc vt c)) (\<lambda>_. io_ret ()) s
      else
        io_bind
          (if flags_get s AND fl_adjustfield = fl_left
           then io_bind (on_sbuf (sputc vt c)) (\<lambda>_. on_sbuf (sputc_n vt (ib_width s - 1) (io_fill s)))
           else io_bind (on_sbuf (sputc_n vt (ib_width s - 1) (io_fill s)))
             (\<lambda>_. io_bind (on_sbuf (sputc vt c)) (\<lambda>_. io_ret ())))
          (\<lambda>_. io_mod (\<lambda>s. s\<lparr>ib_width := 0\<rparr>)) s)"

definition os_char :: "('c, ('c, 'z) streambuf_scheme) vtable \<Rightarrow> 'c \<Rightarrow>
    ('c, ('c, 'z) streambuf_scheme, unit) stream_op" where
  "os_char vt c = with_sentry vt (\<lambda>ok. if ok then io_catch (print_char vt c) process_exception else io_ret ())"

definition os_narrow_char :: "('c, ('c, 'z) streambuf_scheme) vtable \<Rightarrow> char \<Rightarrow>
    ('c, ('c, 'z) streambuf_scheme, unit) stream_op" where
  "os_narrow_char vt c = with_sentry vt (\<lambda>ok. if ok
     then io_catch (\<lambda>s. print_char vt (widen c s) s) process_exception else io_ret ())"

text \<open>The string a null pointer is printed as is the parameter \<open>null\<close>.\<close>

definition print_string_intern :: "('c, ('c, 'z) streambuf_scheme) vtable \<Rightarrow> 'c list \<Rightarrow> 'c list option \<Rightarrow>
    ('c, ('c, 'z) streambuf_scheme, unit) stream_op" where
  "print_string_intern vt null str = io_catch (\<lambda>s.
     let str = (case str of None \<Rightarrow> null | Some cs \<Rightarrow> cs);
         len = int (length str);
         (w, s) = width_set 0 s
     in if w \<le> len then
          io_bind (on_sbuf (sputn vt str)) (\<lambda>n. if int n \<noteq> len then setstate failbit else io_ret ()) s
        else if flags_get s AND fl_adjustfield = fl_left then
          io_bind (on_sbuf (sputc_all vt str)) (\<lambda>_. on_sbuf (sputc_n vt (w - len) (io_fill s))) s
        else
          io_bind (on_sbuf (sputc_n vt (w - len) (io_fill s))) (\<lambda>_. on_sbuf (sputc_all vt str)) s)
     process_exception"

definition os_string :: "('c, ('c, 'z) streambuf_scheme) vtable \<Rightarrow> 'c list \<Rightarrow> 'c list option \<Rightarrow>
    ('c, ('c, 'z) streambuf_scheme, unit) stream_op" where
  "os_string vt null str s =
     (if \<not> need_osentry s then print_string_intern vt null str s
      else with_sentry vt (\<lambda>ok. if ok then print_string_intern vt null str else io_ret ()) s)"

text \<open>
  The inserter of a narrow string into a stream of another character type: its \<^verbatim>\<open>switch\<close> has the
  default case below the case that fills.
\<close>

definition os_narrow_string :: "('c, ('c, 'z) streambuf_scheme) vtable \<Rightarrow> string \<Rightarrow>
    ('c, ('c, 'z) streambuf_scheme, unit) stream_op" where
  "os_narrow_string vt str = with_sentry vt (\<lambda>ok. if ok then io_catch (\<lambda>s.
     let cs = map (\<lambda>c. widen c s) str;
         len = int (length str);
         fill = on_sbuf (sputc_n vt (ib_width s - len) (io_fill s));
         adj = flags_get s AND fl_adjustfield
     in io_bind
          (if ib_width s \<le> len then on_sbuf (sputc_all vt cs)
           else if adj = fl_left then io_bind (on_sbuf (sputc_all vt cs)) (\<lambda>_. fill)
           else if adj = fl_internal \<or> adj = fl_right then io_bind fill (\<lambda>_. on_sbuf (sputc_all vt cs))
           else on_sbuf (sputc_all vt cs))
          (\<lambda>_. io_mod (\<lambda>s. snd (width_set 0 s))) s)
     process_exception else io_ret ())"

section \<open>Unformatted output and manipulators\<close>

definition put_body :: "('c, ('c, 'z) streambuf_scheme) vtable \<Rightarrow> 'c \<Rightarrow>
    ('c, ('c, 'z) streambuf_scheme, unit) stream_op" where
  "put_body vt c = io_catch
     (io_bind (on_sbuf (sputc vt c)) (\<lambda>r. if r = None then setstate badbit else io_ret ())) process_exception"

definition os_put :: "('c, ('c, 'z) streambuf_scheme) vtable \<Rightarrow> 'c \<Rightarrow>
    ('c, ('c, 'z) streambuf_scheme, unit) stream_op" where
  "os_put vt c s =
     (if \<not> need_osentry s then put_body vt c s
      else with_sentry vt (\<lambda>ok. if ok then put_body vt c else setstate badbit) s)"

definition os_write :: "('c, ('c, 'z) streambuf_scheme) vtable \<Rightarrow> 'c list \<Rightarrow>
    ('c, ('c, 'z) streambuf_scheme, unit) stream_op" where
  "os_write vt cs = with_sentry vt (\<lambda>ok. if ok
     then io_catch (io_bind (on_sbuf (sputn vt cs))
       (\<lambda>n. if n \<noteq> length cs then setstate badbit else io_ret ())) process_exception
     else setstate badbit)"

definition endl :: "('c, ('c, 'z) streambuf_scheme) vtable \<Rightarrow>
    ('c, ('c, 'z) streambuf_scheme, unit) stream_op" where
  "endl vt s = io_bind (on_sbuf (sputc vt (io_newline s)))
     (\<lambda>_. io_bind (on_sbuf (pubsync vt)) (\<lambda>_. io_ret ())) s"

definition ends :: "('c, ('c, 'z) streambuf_scheme) vtable \<Rightarrow> 'c \<Rightarrow>
    ('c, ('c, 'z) streambuf_scheme, unit) stream_op" where
  "ends vt zero = io_bind (on_sbuf (sputc vt zero)) (\<lambda>_. io_ret ())"

text \<open>A manipulator given to the stream: an exception it throws sets a bit and is passed on.\<close>

definition os_manip :: "('c, 's, unit) stream_op \<Rightarrow> ('c, 's, unit) stream_op" where
  "os_manip pf = io_catch pf (io_bind (io_catch (setstate badbit) (io_ret ()))
     (\<lambda>_ s. if io_exceptions s AND badbit \<noteq> 0 then Some (Throw, s) else io_ret () s))"

section \<open>Inserting a stream buffer\<close>

text \<open>
  The state is the stream and the buffer that is read. The loop variable is the character last seen;
  \<open>None\<close> ends the loop, also for \<^verbatim>\<open>break\<close>.
\<close>

definition on_stream :: "('a, 'r) io \<Rightarrow> ('a \<times> 'b, 'r) io" where
  "on_stream m = (\<lambda>(s, f). case m s of None \<Rightarrow> None | Some (r, s) \<Rightarrow> Some (r, (s, f)))"

definition on_from :: "('b, 'r) io \<Rightarrow> ('a \<times> 'b, 'r) io" where
  "on_from m = (\<lambda>(s, f). case m f of None \<Rightarrow> None | Some (r, f) \<Rightarrow> Some (r, (s, f)))"

definition sbuf_insert_turn :: "('c, ('c, 'z) streambuf_scheme) vtable \<Rightarrow>
    ('c, ('c, 'y) streambuf_scheme) vtable \<Rightarrow> 'c option \<Rightarrow>
    (('c, ('c, 'z) streambuf_scheme) ios \<times> ('c, 'y) streambuf_scheme, 'c option) io" where
  "sbuf_insert_turn vt ft c = (\<lambda>(s, f).
     let n = gend f - gcur f in
     if n > 1 then
       io_bind (on_stream (on_sbuf (sputn vt (get_slice n f)))) (\<lambda>m.
       io_bind (on_from (io_mod (\<lambda>f. f\<lparr>gcur := gcur f + m\<rparr>))) (\<lambda>_.
       if m \<noteq> n then io_ret None else on_from (sgetc ft))) (s, f)
     else
       io_bind (on_stream (on_sbuf (sputc vt (the c)))) (\<lambda>r.
       if r = None then io_ret None else on_from (sgetc ft)) (s, f))"

definition insert_body :: "('c, ('c, 'z) streambuf_scheme) vtable \<Rightarrow>
    ('c, ('c, 'y) streambuf_scheme) vtable \<Rightarrow>
    (('c, ('c, 'z) streambuf_scheme) ios \<times> ('c, 'y) streambuf_scheme, unit) io" where
  "insert_body vt ft = io_catch
     (io_bind (on_from (sgetc ft)) (\<lambda>c.
      case c of
        None \<Rightarrow> on_stream (setstate failbit)
      | Some ch \<Rightarrow>
          io_bind (on_stream (on_sbuf (sputc vt ch))) (\<lambda>r.
          if r = None then on_stream (setstate failbit)
          else
            io_bind (on_from (snextc ft)) (\<lambda>c.
            io_bind (io_loop (\<lambda>c. c \<noteq> None) (sbuf_insert_turn vt ft) c) (\<lambda>_. io_ret ())))))
     (on_stream process_exception)"

text \<open>The sentry around it; no stream buffer to read is \<open>None\<close>.\<close>

definition os_insert_sbuf :: "('c, ('c, 'z) streambuf_scheme) vtable \<Rightarrow>
    ('c, ('c, 'y) streambuf_scheme) vtable \<Rightarrow>
    ('c, ('c, 'z) streambuf_scheme) ios \<Rightarrow> ('c, 'y) streambuf_scheme option \<Rightarrow>
    (unit outcome \<times> ('c, ('c, 'z) streambuf_scheme) ios \<times> ('c, 'y) streambuf_scheme option) option" where
  "os_insert_sbuf vt ft s from =
     (let s = flush_tied s;
          r = (if good s then
                 case from of
                   None \<Rightarrow> map_option (\<lambda>(r, s). (r, s, None)) (setstate (badbit OR failbit) s)
                 | Some f \<Rightarrow> map_option (\<lambda>(r, s, f). (r, s, Some f)) (insert_body vt ft (s, f))
               else map_option (\<lambda>(r, s). (r, s, from)) (setstate failbit s))
      in case r of
           None \<Rightarrow> None
         | Some (r, s, f) \<Rightarrow>
             (case sentry_dtor vt s of
                None \<Rightarrow> None
              | Some (Ret _, s) \<Rightarrow> Some (r, s, f)
              | Some (Throw, s) \<Rightarrow> if r = Throw then None else Some (Throw, s, f)))"

section \<open>What a stream writes\<close>

text \<open>
  The stream buffer of an output stream promises, besides what storing a character does, that
  \<^verbatim>\<open>xsputn\<close> stores all characters if they fit and that \<^verbatim>\<open>sync\<close> succeeds without changing what it holds.
\<close>

locale stream_sink = char_sink +
  assumes xsputn: "inv s \<Longrightarrow> fits (fold put cs (abs s)) \<Longrightarrow> \<exists>s'. v_xsputn vt cs s = Some (Ret (length cs), s') \<and> inv s' \<and> abs s' = fold put cs (abs s)"
    and sync: "inv s \<Longrightarrow> \<exists>n s'. v_sync vt s = Some (Ret n, s') \<and> n \<noteq> - 1 \<and> inv s' \<and> abs s' = abs s"

interpretation sstream: stream_sink "str_vt junk other" writable sbuf_abs spec_put str_fits for junk other
  by unfold_locales (simp_all add: sink0.base_xsputn_puts str_sync_def)

text \<open>
  \<open>wrote I A P cs s s'\<close>: between the two states the characters \<open>cs\<close> were written, the width was
  used up, and nothing else changed but the record of flushed streams.
\<close>

definition wrote :: "('s \<Rightarrow> bool) \<Rightarrow> ('s \<Rightarrow> 'a) \<Rightarrow> ('c \<Rightarrow> 'a \<Rightarrow> 'a) \<Rightarrow> 'c list \<Rightarrow>
    ('c, 's) ios \<Rightarrow> ('c, 's) ios \<Rightarrow> bool" where
  "wrote I A P cs s s' \<longleftrightarrow>
     (\<exists>b b' fl. io_sbuf s = Some b \<and> I b' \<and> A b' = fold P cs (A b) \<and>
       s' = s\<lparr>ib_width := 0, io_sbuf := Some b', io_flushed := fl\<rparr>)"

lemma wroteI:
  assumes "io_sbuf s = Some b" "I b'" "A b' = fold P cs (A b)" "s' = s\<lparr>ib_width := 0, io_sbuf := Some b', io_flushed := fl\<rparr>"
  shows "wrote I A P cs s s'"
  using assms by (auto simp: wrote_def)

lemma wrote_quietI:
  assumes "io_sbuf s = Some b" "I b'" "A b' = fold P cs (A b)" "s' = s\<lparr>ib_width := 0, io_sbuf := Some b'\<rparr>"
  shows "wrote I A P cs s s'"
  using assms by (intro wroteI [where b = b and b' = b' and fl = "io_flushed s"]) simp_all

lemma wroteE:
  assumes "wrote I A P cs s s'"
  obtains b b' fl where "io_sbuf s = Some b" "I b'" "A b' = fold P cs (A b)"
    "s' = s\<lparr>ib_width := 0, io_sbuf := Some b', io_flushed := fl\<rparr>"
  using assms by (auto simp: wrote_def)

lemma wrote_flushed [simp]: "wrote I A P cs (s\<lparr>io_flushed := fl\<rparr>) s' \<longleftrightarrow> wrote I A P cs s s'"
  by (simp add: wrote_def)

lemma flush_tied_eq: "\<exists>fl. flush_tied s = s\<lparr>io_flushed := fl\<rparr>"
proof (cases "io_tie s")
  case None
  then have "flush_tied s = s\<lparr>io_flushed := io_flushed s\<rparr>" by (simp add: flush_tied_def)
  then show ?thesis ..
qed (auto simp: flush_tied_def)

definition adjusted :: "fmtflags \<Rightarrow> int \<Rightarrow> 'c \<Rightarrow> 'c list \<Rightarrow> 'c list" where
  "adjusted fmt w fill cs = padded w fill cs (if fmt AND fl_adjustfield = fl_left then 0 else length cs)"

lemma adjusted_eq:
  "adjusted fmt w fill cs =
     (if fmt AND fl_adjustfield = fl_left then cs @ replicate (nat (w - int (length cs))) fill
      else replicate (nat (w - int (length cs))) fill @ cs)"
  by (simp add: adjusted_def padded_def)

context stream_sink
begin

lemma sputc_all_puts:
  "inv s \<Longrightarrow> fits (fold put cs (abs s)) \<Longrightarrow> \<exists>s'. sputc_all vt cs s = Some (Ret (), s') \<and> inv s' \<and> abs s' = fold put cs (abs s)"
proof (induction cs arbitrary: s)
  case (Cons c cs)
  from sputc_puts [OF Cons.prems(1) fits_first [OF Cons.prems(2)]] obtain t where
    t: "sputc vt c s = Some (Ret (Some c), t)" "inv t" "abs t = put c (abs s)" by blast
  from Cons.IH [OF t(2)] t Cons.prems(2) show ?case by auto
qed simp

lemma dtor_writes:
  assumes "wrote inv abs put cs s0 s"
  shows "\<exists>s'. sentry_dtor vt s = Some (Ret (), s') \<and> wrote inv abs put cs s0 s'"
proof -
  from assms obtain b b' fl where b: "io_sbuf s0 = Some b" "inv b'" "abs b' = fold put cs (abs b)"
    "s = s0\<lparr>ib_width := 0, io_sbuf := Some b', io_flushed := fl\<rparr>" by (rule wroteE)
  from sync [OF b(2)] obtain n b'' where
    n: "v_sync vt b' = Some (Ret n, b'')" "n \<noteq> - 1" "inv b''" "abs b'' = abs b'" by blast
  let ?s = "s0\<lparr>ib_width := 0, io_sbuf := Some b'', io_flushed := fl\<rparr>"
  have "os_flush vt s = Some (Ret (), ?s)"
    using b n by (simp add: os_flush_def on_sbuf_def io_bind_def pubsync_def io_ret_def)
  moreover have "wrote inv abs put cs s0 ?s" using b n by (intro wroteI [where b' = b'']) simp_all
  ultimately show ?thesis using assms by (auto simp: sentry_dtor_def io_ret_def)
qed

lemma sentry_writes:
  assumes "good s" and "\<And>fl. \<exists>s'. body True (s\<lparr>io_flushed := fl\<rparr>) = Some (Ret (), s') \<and> wrote inv abs put cs s s'"
  shows "\<exists>s'. with_sentry vt body s = Some (Ret (), s') \<and> wrote inv abs put cs s s'"
proof -
  from flush_tied_eq obtain fl where fl: "flush_tied s = s\<lparr>io_flushed := fl\<rparr>" ..
  from assms(2) [of fl] obtain s' where
    s': "body True (s\<lparr>io_flushed := fl\<rparr>) = Some (Ret (), s')" "wrote inv abs put cs s s'"
    by blast
  from dtor_writes [OF s'(2)] s'(1) assms(1) fl show ?thesis
    by (auto simp: with_sentry_def good_def)
qed

lemma entry_writes:
  assumes "good s" and "\<And>fl. \<exists>s'. body (s\<lparr>io_flushed := fl\<rparr>) = Some (Ret (), s') \<and> wrote inv abs put cs s s'"
  shows "\<exists>s'. (if \<not> need_osentry s then body s
      else with_sentry vt (\<lambda>ok. if ok then body else io_ret ()) s) = Some (Ret (), s') \<and> wrote inv abs put cs s s'"
proof (cases "need_osentry s")
  case True
  with sentry_writes [OF assms(1), of "\<lambda>ok. if ok then body else io_ret ()"] assms(2) show ?thesis by simp
next
  case False
  with assms(2) [of "io_flushed s"] show ?thesis by simp
qed

lemma print_writes:
  assumes "good s" and "\<And>fl. \<exists>s'. put_op (s\<lparr>io_flushed := fl\<rparr>) = Some (Ret False, s') \<and> wrote inv abs put cs s s'"
  shows "\<exists>s'. cs_print vt put_op s = Some (Ret (), s') \<and> wrote inv abs put cs s s'"
  unfolding cs_print_def
proof (rule entry_writes [OF assms(1)])
  show "\<exists>s'. print_body put_op (s\<lparr>io_flushed := fl\<rparr>) = Some (Ret (), s') \<and> wrote inv abs put cs s s'" for fl
    using assms(2) [of fl] by (auto simp: print_body_def io_catch_def io_bind_def)
qed

lemma num_put_op_writes:
  assumes "io_sbuf s = Some b" "inv b"
    and "fm (flags_get s) (m_grouping (lf_cache (ib_loc s))) v (digit_chars s) = Some (out, fp)"
    and "length out \<le> 64" and "0 \<le> ib_width s" and "fits (fold put (padded (ib_width s) (io_fill s) out fp) (abs b))"
  shows "\<exists>s'. new_num_put vt fm v (s\<lparr>io_flushed := fl\<rparr>) = Some (Ret False, s') \<and>
    wrote inv abs put (padded (ib_width s) (io_fill s) out fp) s s'"
proof -
  let ?s = "s\<lparr>io_flushed := fl\<rparr>"
  have fg: "flags_get ?s = flags_get s" "digit_chars ?s = digit_chars s"
    by (simp_all add: flags_get_def digit_chars_def)
  from new_num_put_puts [of ?s b fm v out fp] assms fg obtain b' where
    "new_num_put vt fm v ?s = Some (Ret False, ?s\<lparr>ib_width := 0, io_sbuf := Some b'\<rparr>)" "inv b'"
    "abs b' = fold put (padded (ib_width s) (io_fill s) out fp) (abs b)" by auto
  with assms(1) wrote_quietI [of ?s b inv b' abs put "padded (ib_width s) (io_fill s) out fp"]
  show ?thesis by simp
qed

lemma num_put_writes:
  assumes "good s" and "io_sbuf s = Some b" "inv b"
    and "fm (flags_get s) (m_grouping (lf_cache (ib_loc s))) v (digit_chars s) = Some (out, fp)"
    and "length out \<le> 64" and "0 \<le> ib_width s" and "fits (fold put (padded (ib_width s) (io_fill s) out fp) (abs b))"
  shows "\<exists>s'. cs_print vt (new_num_put vt fm v) s = Some (Ret (), s') \<and>
    wrote inv abs put (padded (ib_width s) (io_fill s) out fp) s s'"
  using assms num_put_op_writes [of s b fm v out fp] by (intro print_writes) simp_all

lemma print_char_writes:
  assumes "io_sbuf s = Some b" "inv b" and fit: "fits (fold put (adjusted (flags_get s) (ib_width s) (io_fill s) [c]) (abs b))"
  shows "\<exists>s'. print_char vt c s = Some (Ret (), s') \<and>
    wrote inv abs put (adjusted (flags_get s) (ib_width s) (io_fill s) [c]) s s'"
proof -
  let ?fs = "replicate (nat (ib_width s - 1)) (io_fill s)" and ?l = "flags_get s AND fl_adjustfield = fl_left"
  let ?cs = "adjusted (flags_get s) (ib_width s) (io_fill s) [c]"
  have "\<exists>b'. print_char vt c s = Some (Ret (), s\<lparr>ib_width := 0, io_sbuf := Some b'\<rparr>) \<and> inv b' \<and> abs b' = fold put ?cs (abs b)"
  proof (cases "ib_width s = 0 \<or> ?l")
    case True
    have f: "fits (fold put ?fs (put c (abs b)))" using fit True by (auto simp: adjusted_eq split: if_splits)
    from sputc_puts [OF assms(2) fits_part [OF f]] obtain b1 where
      1: "sputc vt c b = Some (Ret (Some c), b1)" "inv b1" "abs b1 = put c (abs b)" by blast
    from sputc_all_puts [OF 1(2), of ?fs] f 1(3) obtain b2 where
      2: "sputc_all vt ?fs b1 = Some (Ret (), b2)" "inv b2" "abs b2 = fold put ?fs (abs b1)" by auto
    show ?thesis
    proof (cases "ib_width s = 0")
      case zero: True
      have "print_char vt c s = Some (Ret (), s\<lparr>io_sbuf := Some b1\<rparr>)"
        using zero 1(1) assms(1) by (simp add: print_char_def on_sbuf_def io_bind_def)
      moreover have "s\<lparr>io_sbuf := Some b1\<rparr> = s\<lparr>ib_width := 0, io_sbuf := Some b1\<rparr>"
        using zero by (cases s) simp
      ultimately have "print_char vt c s = Some (Ret (), s\<lparr>ib_width := 0, io_sbuf := Some b1\<rparr>)" by (rule trans [OF _ arg_cong])
      moreover have "abs b1 = fold put ?cs (abs b)" using 1(3) zero by (simp add: adjusted_eq)
      ultimately show ?thesis using 1(2) by blast
    next
      case False
      with True 1 2 assms(1) show ?thesis
        by (intro exI [of _ b2]) (simp add: print_char_def on_sbuf_def io_bind_def sputc_n_def adjusted_eq)
    qed
  next
    case False
    have f: "fits (put c (fold put ?fs (abs b)))" using fit False by (simp add: adjusted_eq)
    from sputc_all_puts [OF assms(2) fits_before [OF f]] obtain b1 where
      1: "sputc_all vt ?fs b = Some (Ret (), b1)" "inv b1" "abs b1 = fold put ?fs (abs b)" by blast
    from sputc_puts [OF 1(2), of c] f 1(3) obtain b2 where
      2: "sputc vt c b1 = Some (Ret (Some c), b2)" "inv b2" "abs b2 = put c (abs b1)" by auto
    from False 1 2 assms(1) show ?thesis
      by (intro exI [of _ b2]) (simp add: print_char_def on_sbuf_def io_bind_def sputc_n_def adjusted_eq)
  qed
  with wrote_quietI [OF assms(1)] show ?thesis by blast
qed

lemma print_string_writes:
  assumes "io_sbuf s = Some b" "inv b"
    and fits: "fits (fold put (adjusted (flags_get s) (ib_width s) (io_fill s) (case str of None \<Rightarrow> null | Some cs \<Rightarrow> cs)) (abs b))"
  shows "\<exists>s'. print_string_intern vt null str s = Some (Ret (), s') \<and>
    wrote inv abs put (adjusted (flags_get s) (ib_width s) (io_fill s) (case str of None \<Rightarrow> null | Some cs \<Rightarrow> cs)) s s'"
proof -
  define cs where "cs = (case str of None \<Rightarrow> null | Some cs \<Rightarrow> cs)"
  let ?fs = "replicate (nat (ib_width s - int (length cs))) (io_fill s)"
  let ?l = "flags_get s AND fl_adjustfield = fl_left" and ?s = "s\<lparr>ib_width := 0\<rparr>"
  let ?cs = "adjusted (flags_get s) (ib_width s) (io_fill s) cs"
  have fg: "flags_get ?s = flags_get s" by (simp add: flags_get_def)
  have sb: "io_sbuf ?s = Some b" using assms(1) by simp
  have fit: "fits (fold put ?cs (abs b))" using fits by (simp add: cs_def)
  have "\<exists>b'. print_string_intern vt null str s = Some (Ret (), ?s\<lparr>io_sbuf := Some b'\<rparr>) \<and> inv b' \<and>
      abs b' = fold put ?cs (abs b)"
  proof (cases "ib_width s \<le> int (length cs)")
    case True
    have "fits (fold put cs (abs b))" using fit True by (simp add: adjusted_eq split: if_splits)
    from xsputn [OF assms(2) this] obtain b' where
      "v_xsputn vt cs b = Some (Ret (length cs), b')" "inv b'" "abs b' = fold put cs (abs b)" by blast
    with True sb show ?thesis
      by (intro exI [of _ b']) (simp add: print_string_intern_def cs_def [symmetric] width_set_def sputn_def adjusted_eq)
  next
    case wide: False
    show ?thesis
    proof (cases ?l)
      case True
      have f: "fits (fold put ?fs (fold put cs (abs b)))" using fit True by (simp add: adjusted_eq)
      from sputc_all_puts [OF assms(2) fits_part [OF f]] obtain b1 where
        1: "sputc_all vt cs b = Some (Ret (), b1)" "inv b1" "abs b1 = fold put cs (abs b)" by blast
      from sputc_all_puts [OF 1(2), of ?fs] f 1(3) obtain b2 where
        2: "sputc_all vt ?fs b1 = Some (Ret (), b2)" "inv b2" "abs b2 = fold put ?fs (abs b1)" by auto
      from True wide fg sb 1 2 show ?thesis
        by (intro exI [of _ b2]) (simp add: print_string_intern_def cs_def [symmetric] width_set_def sputc_n_def
          on_sbuf_ret adjusted_eq)
    next
      case False
      have f: "fits (fold put cs (fold put ?fs (abs b)))" using fit False by (simp add: adjusted_eq)
      from sputc_all_puts [OF assms(2) fits_part [OF f]] obtain b1 where
        1: "sputc_all vt ?fs b = Some (Ret (), b1)" "inv b1" "abs b1 = fold put ?fs (abs b)" by blast
      from sputc_all_puts [OF 1(2), of cs] f 1(3) obtain b2 where
        2: "sputc_all vt cs b1 = Some (Ret (), b2)" "inv b2" "abs b2 = fold put cs (abs b1)" by auto
      from False wide fg sb 1 2 show ?thesis
        by (intro exI [of _ b2]) (simp add: print_string_intern_def cs_def [symmetric] width_set_def sputc_n_def
          on_sbuf_ret adjusted_eq)
    qed
  qed
  with wrote_quietI [OF assms(1)] show ?thesis unfolding cs_def by blast
qed

lemma put_bool_writes:
  assumes "io_sbuf s = Some b" "inv b" and "flags_get s AND fl_boolalpha \<noteq> 0" and w: "0 \<le> ib_width s"
    and fits: "fits (fold put (adjusted (flags_get s) (ib_width s) (io_fill s)
      (if v then np_truename (lf_numpunct (ib_loc s)) else np_falsename (lf_numpunct (ib_loc s)))) (abs b))"
  shows "\<exists>s'. do_put_bool vt v s = Some (Ret False, s') \<and>
    wrote inv abs put (adjusted (flags_get s) (ib_width s) (io_fill s)
      (if v then np_truename (lf_numpunct (ib_loc s)) else np_falsename (lf_numpunct (ib_loc s)))) s s'"
proof -
  define cs where "cs = (if v then np_truename (lf_numpunct (ib_loc s)) else np_falsename (lf_numpunct (ib_loc s)))"
  let ?n = "ib_width s - int (length cs)"
  let ?fs = "replicate (nat ?n) (io_fill s)"
  let ?l = "flags_get s AND fl_adjustfield = fl_left"
  let ?cs = "adjusted (flags_get s) (ib_width s) (io_fill s) cs"
  have fit: "fits (fold put ?cs (abs b))" using fits by (simp add: cs_def)
  have n: "- (2 ^ 31) \<le> ?n"
  proof -
    have "fits (fold put cs (fold put (if ?l then [] else ?fs) (abs b)))"
      using fit fits_part [of ?fs "fold put cs (abs b)"] by (auto simp: adjusted_eq split: if_splits)
    then have "length cs < 2 ^ 31" by (rule fits_length)
    then show ?thesis using w by simp
  qed
  have "\<exists>b'. do_put_bool vt v s = Some (Ret False, s\<lparr>ib_width := 0, io_sbuf := Some b'\<rparr>) \<and> inv b' \<and>
      abs b' = fold put ?cs (abs b)"
  proof (cases ?l)
    case True
    have f: "fits (fold put ?fs (fold put cs (abs b)))" using fit True by (simp add: adjusted_eq)
    from os_copy_puts [OF assms(2) fits_part [OF f]] obtain b1 where
      1: "os_copy vt cs b = Some (Ret (), b1)" "inv b1" "abs b1 = fold put cs (abs b)" by blast
    from os_fill_n_puts [OF 1(2), of ?n "io_fill s"] f 1(3) n obtain b2 where
      2: "os_fill_n vt ?n (io_fill s) b1 = Some (Ret (), b2)" "inv b2" "abs b2 = fold put ?fs (abs b1)" by auto
    from True assms 1 2 show ?thesis
      by (intro exI [of _ b2]) (simp add: do_put_bool_def cs_def [symmetric] Let_def io_bind_def on_sbuf_def
        width_set_def adjusted_eq)
  next
    case False
    have f: "fits (fold put cs (fold put ?fs (abs b)))" using fit False by (simp add: adjusted_eq)
    from os_fill_n_puts [OF assms(2) fits_part [OF f] n] obtain b1 where
      1: "os_fill_n vt ?n (io_fill s) b = Some (Ret (), b1)" "inv b1" "abs b1 = fold put ?fs (abs b)" by blast
    from os_copy_puts [OF 1(2), of cs] f 1(3) obtain b2 where
      2: "os_copy vt cs b1 = Some (Ret (), b2)" "inv b2" "abs b2 = fold put cs (abs b1)" by auto
    from False assms 1 2 show ?thesis
      by (intro exI [of _ b2]) (simp add: do_put_bool_def cs_def [symmetric] Let_def io_bind_def on_sbuf_def
        width_set_def adjusted_eq)
  qed
  with wrote_quietI [OF assms(1)] show ?thesis unfolding cs_def by blast
qed

lemma os_char_writes:
  assumes "io_sbuf s = Some b" "inv b" "good s" and "fits (fold put (adjusted (flags_get s) (ib_width s) (io_fill s) [c]) (abs b))"
  shows "\<exists>s'. os_char vt c s = Some (Ret (), s') \<and>
    wrote inv abs put (adjusted (flags_get s) (ib_width s) (io_fill s) [c]) s s'"
  unfolding os_char_def
proof (rule sentry_writes [OF assms(3)])
  fix fl
  have "flags_get (s\<lparr>io_flushed := fl\<rparr>) = flags_get s" by (simp add: flags_get_def)
  then show "\<exists>s'. (if True then io_catch (print_char vt c) process_exception else io_ret ()) (s\<lparr>io_flushed := fl\<rparr>) =
      Some (Ret (), s') \<and> wrote inv abs put (adjusted (flags_get s) (ib_width s) (io_fill s) [c]) s s'"
    using print_char_writes [of "s\<lparr>io_flushed := fl\<rparr>" b c] assms by auto
qed

lemma os_string_writes:
  assumes "io_sbuf s = Some b" "inv b" "good s"
    and "fits (fold put (adjusted (flags_get s) (ib_width s) (io_fill s) (case str of None \<Rightarrow> null | Some cs \<Rightarrow> cs)) (abs b))"
  shows "\<exists>s'. os_string vt null str s = Some (Ret (), s') \<and>
    wrote inv abs put (adjusted (flags_get s) (ib_width s) (io_fill s) (case str of None \<Rightarrow> null | Some cs \<Rightarrow> cs)) s s'"
  unfolding os_string_def
proof (rule entry_writes [OF assms(3)])
  fix fl
  have "flags_get (s\<lparr>io_flushed := fl\<rparr>) = flags_get s" by (simp add: flags_get_def)
  then show "\<exists>s'. print_string_intern vt null str (s\<lparr>io_flushed := fl\<rparr>) = Some (Ret (), s') \<and>
      wrote inv abs put (adjusted (flags_get s) (ib_width s) (io_fill s) (case str of None \<Rightarrow> null | Some cs \<Rightarrow> cs)) s s'"
    using print_string_writes [of "s\<lparr>io_flushed := fl\<rparr>" b null str] assms by auto
qed

lemma os_bool_writes:
  assumes "io_sbuf s = Some b" "inv b" "good s" and "flags_get s AND fl_boolalpha \<noteq> 0" and "0 \<le> ib_width s"
    and "fits (fold put (adjusted (flags_get s) (ib_width s) (io_fill s)
      (if v then np_truename (lf_numpunct (ib_loc s)) else np_falsename (lf_numpunct (ib_loc s)))) (abs b))"
  shows "\<exists>s'. os_bool vt v s = Some (Ret (), s') \<and>
    wrote inv abs put (adjusted (flags_get s) (ib_width s) (io_fill s)
      (if v then np_truename (lf_numpunct (ib_loc s)) else np_falsename (lf_numpunct (ib_loc s)))) s s'"
  unfolding os_bool_def
proof (rule print_writes [OF assms(3)])
  fix fl
  have "flags_get (s\<lparr>io_flushed := fl\<rparr>) = flags_get s" by (simp add: flags_get_def)
  then show "\<exists>s'. do_put_bool vt v (s\<lparr>io_flushed := fl\<rparr>) = Some (Ret False, s') \<and>
    wrote inv abs put (adjusted (flags_get s) (ib_width s) (io_fill s)
      (if v then np_truename (lf_numpunct (ib_loc s)) else np_falsename (lf_numpunct (ib_loc s)))) s s'"
    using put_bool_writes [of "s\<lparr>io_flushed := fl\<rparr>" b v] assms by auto
qed

lemma os_bool_number_writes:
  assumes "io_sbuf s = Some b" "inv b" "good s" and "flags_get s AND fl_boolalpha = 0"
    and "do_num_put_long (flags_get s) (m_grouping (lf_cache (ib_loc s))) (if v then 1 else 0) (digit_chars s) = Some (out, fp)"
    and "length out \<le> 64" and "0 \<le> ib_width s" and "fits (fold put (padded (ib_width s) (io_fill s) out fp) (abs b))"
  shows "\<exists>s'. os_bool vt v s = Some (Ret (), s') \<and> wrote inv abs put (padded (ib_width s) (io_fill s) out fp) s s'"
  unfolding os_bool_def
proof (rule print_writes [OF assms(3)])
  fix fl
  have "flags_get (s\<lparr>io_flushed := fl\<rparr>) = flags_get s" by (simp add: flags_get_def)
  then show "\<exists>s'. do_put_bool vt v (s\<lparr>io_flushed := fl\<rparr>) = Some (Ret False, s') \<and>
      wrote inv abs put (padded (ib_width s) (io_fill s) out fp) s s'"
    using num_put_op_writes [of s b do_num_put_long "if v then 1 else 0" out fp fl] assms
    by (simp add: do_put_bool_def do_put_long_def)
qed

end

end
