(* ===== verification/Num_Get.thy ===== *)
theory Num_Get
  imports Num_Put
begin

text \<open>
  The facet \<^verbatim>\<open>num_get\<close> (\<^verbatim>\<open>cxxrt/extractor.h\<close>, \<^verbatim>\<open>srccxx/num_get.cc\<close>): reading integers and truth
  values. The facet is a template over the type of its input iterator; the input is the list of the
  characters between the two iterators, and the iterator that is returned is the rest of the list.

  A numeral is shown to be read as its value, saturated at the largest value of the type, and a
  printed number is shown to be read back.
\<close>

unbundle bit_operations_syntax

section \<open>The extractor\<close>

definition ext_current :: "('c :: linorder) cache \<Rightarrow> 'c list \<Rightarrow> nat option" where
  "ext_current ch cs = (case cs of [] \<Rightarrow> None | c # _ \<Rightarrow> Some (cache_find ch c))"

definition ext_next :: "('c :: linorder) cache \<Rightarrow> 'c list \<Rightarrow> nat option \<times> 'c list" where
  "ext_next ch cs = (ext_current ch (tl cs), tl cs)"

lemma ext_current_simps [simp]:
  "ext_current ch [] = None" "ext_current ch (c # cs) = Some (cache_find ch c)"
  by (simp_all add: ext_current_def)

lemma ext_next_Cons [simp]: "ext_next ch (c # cs) = (ext_current ch cs, cs)"
  by (simp add: ext_next_def)

lemma ext_next_shorter: "ext_next ch cs = (Some v, cs') \<Longrightarrow> length cs' < length cs"
  by (cases cs) (auto simp: ext_next_def ext_current_def)

section \<open>Integers\<close>

text \<open>
  What \<^verbatim>\<open>_CS_get_integer\<close> returns and leaves in its reference arguments: whether it succeeded, the
  state, the absolute value, whether there was a minus sign, and the position.
\<close>

record 'c got =
  g_ok :: bool
  g_err :: iostate
  g_val :: ulong
  g_neg :: bool
  g_in :: "'c list"

definition field_base :: "fmtflags \<Rightarrow> nat" where
  "field_base fmt =
     (let b = fmt AND fl_basefield in
      if b = fl_oct then 8 else if b = fl_dec then 10 else if b = fl_hex then 16 else 17)"

text \<open>The loop that skips zeros.\<close>

function skip_zeros :: "('c :: linorder) cache \<Rightarrow> nat \<Rightarrow> 'c list \<Rightarrow> nat option \<times> 'c list" where
  "skip_zeros ch v cs =
     (if v = 0 then
        case ext_next ch cs of
          (None, cs) \<Rightarrow> (None, cs)
        | (Some v, cs) \<Rightarrow> skip_zeros ch v cs
      else (Some v, cs))"
  by pat_completeness auto
termination
  by (relation "measure (\<lambda>(ch, v, cs). length cs)") (auto dest: ext_next_shorter [OF sym])

text \<open>
  The number of digits read without looking for an overflow, from \<^verbatim>\<open>numeric_limits\<close>, and the loop
  that reads them; it ends with \<open>True\<close> at a character that is not a digit.
\<close>

definition ulong_digits :: nat where "ulong_digits = 64"
definition ulong_digits10 :: nat where "ulong_digits10 = 1 + (30103 * ulong_digits) div 100000"

definition init_count :: "nat \<Rightarrow> int" where
  "init_count base =
     (if base = 10 then int ulong_digits10 - 1
      else if base = 8 then int (ulong_digits div 3) - 1
      else if base = 16 then int (ulong_digits div 4) - 1
      else 0)"

function read_digits :: "('c :: linorder) cache \<Rightarrow> nat \<Rightarrow> int \<Rightarrow> nat \<Rightarrow> 'c list \<Rightarrow> ulong \<Rightarrow>
    bool \<times> ulong \<times> int \<times> 'c list" where
  "read_digits ch base n v cs val =
     (if v < base then
        let val = val * word_of_nat base + word_of_nat v; n = n - 1 in
        if n = 0 then (False, val, n, cs)
        else
          case ext_next ch cs of
            (None, cs) \<Rightarrow> (False, val, n, cs)
          | (Some v, cs) \<Rightarrow> read_digits ch base n v cs val
      else (True, val, n, cs))"
  by pat_completeness auto
termination
  by (relation "measure (\<lambda>(ch, base, n, v, cs, val). length cs)") (auto dest: ext_next_shorter [OF sym])

function skip_digits :: "('c :: linorder) cache \<Rightarrow> nat \<Rightarrow> 'c list \<Rightarrow> 'c list" where
  "skip_digits ch base cs =
     (case ext_next ch cs of
        (None, cs) \<Rightarrow> cs
      | (Some v, cs) \<Rightarrow> if v < base then skip_digits ch base cs else cs)"
  by pat_completeness auto
termination
  by (relation "measure (\<lambda>(ch, base, cs). length cs)") (auto dest: ext_next_shorter [OF sym])

declare skip_zeros.simps [simp del] read_digits.simps [simp del] skip_digits.simps [simp del]

definition at_end :: "'c list \<Rightarrow> iostate" where
  "at_end cs = (if cs = [] then eofbit else goodbit)"

definition get_overflow :: "('c :: linorder) cache \<Rightarrow> nat \<Rightarrow> bool \<Rightarrow> 'c list \<Rightarrow> 'c got" where
  "get_overflow ch base neg cs =
     (let cs = skip_digits ch base cs
      in \<lparr>g_ok = False, g_err = at_end cs, g_val = - 1, g_neg = neg, g_in = cs\<rparr>)"

definition check_overflow :: "('c :: linorder) cache \<Rightarrow> nat \<Rightarrow> bool \<Rightarrow> ulong \<Rightarrow> int \<Rightarrow> 'c list \<Rightarrow> 'c got" where
  "check_overflow ch base neg val n cs =
     (let result = (\<lambda>val cs. \<lparr>g_ok = True, g_err = at_end cs, g_val = val, g_neg = neg, g_in = cs\<rparr>) in
      if n = 0 then
        case ext_next ch cs of
          (None, cs) \<Rightarrow> result val cs
        | (Some v, cs) \<Rightarrow>
            if v < base then
              if val \<le> - 1 div word_of_nat base \<and> - 1 - val * word_of_nat base \<ge> word_of_nat v then
                let val = val * word_of_nat base + word_of_nat v in
                case ext_next ch cs of
                  (None, cs) \<Rightarrow> result val cs
                | (Some v, cs) \<Rightarrow> if v < base then get_overflow ch base neg cs else result val cs
              else get_overflow ch base neg cs
            else result val cs
      else result val cs)"

definition get_digits :: "('c :: linorder) cache \<Rightarrow> nat \<Rightarrow> bool \<Rightarrow> nat \<Rightarrow> 'c list \<Rightarrow> 'c got" where
  "get_digits ch base neg v cs =
     (case skip_zeros ch v cs of
        (None, cs) \<Rightarrow> \<lparr>g_ok = True, g_err = eofbit, g_val = 0, g_neg = neg, g_in = cs\<rparr>
      | (Some v, cs) \<Rightarrow>
          (case read_digits ch base (init_count base) v cs 0 of
             (True, val, n, cs) \<Rightarrow> \<lparr>g_ok = True, g_err = goodbit, g_val = val, g_neg = neg, g_in = cs\<rparr>
           | (False, val, n, cs) \<Rightarrow> check_overflow ch base neg val n cs))"

definition get_based :: "('c :: linorder) cache \<Rightarrow> fmtflags \<Rightarrow> bool \<Rightarrow> nat \<Rightarrow> 'c list \<Rightarrow> 'c got" where
  "get_based ch fmt neg v cs =
     (let base = field_base fmt;
          stop = (\<lambda>cs. \<lparr>g_ok = True, g_err = eofbit, g_val = 0, g_neg = neg, g_in = cs\<rparr>)
      in if v = 0 then
           case ext_next ch cs of
             (None, cs) \<Rightarrow> stop cs
           | (Some v, cs) \<Rightarrow>
               if base \<ge> 16 then
                 if v = cb_hex then
                   case ext_next ch cs of
                     (None, cs) \<Rightarrow> stop cs
                   | (Some v, cs) \<Rightarrow> if v > 16 then stop cs else get_digits ch 16 neg v cs
                 else get_digits ch (if base = 17 then 8 else base) neg v cs
               else get_digits ch base neg v cs
         else
           let base = (if base = 17 then 10 else base) in
           if v \<ge> base then \<lparr>g_ok = False, g_err = failbit, g_val = 0, g_neg = neg, g_in = cs\<rparr>
           else get_digits ch base neg v cs)"

definition get_integer :: "('c :: linorder) cache \<Rightarrow> fmtflags \<Rightarrow> 'c list \<Rightarrow> 'c got" where
  "get_integer ch fmt cs =
     (let nothing = (\<lambda>neg cs. \<lparr>g_ok = False, g_err = failbit OR eofbit, g_val = 0, g_neg = neg, g_in = cs\<rparr>) in
      case ext_current ch cs of
        None \<Rightarrow> nothing False cs
      | Some v \<Rightarrow>
          let neg = (v = cb_minus) in
          if v = cb_minus \<or> v = cb_plus then
            case ext_next ch cs of
              (None, cs) \<Rightarrow> nothing neg cs
            | (Some v, cs) \<Rightarrow> get_based ch fmt neg v cs
          else get_based ch fmt neg v cs)"

section \<open>The facet's members\<close>

text \<open>
  The value that is passed in is kept where the source does not assign one. \<open>long_min\<close> and \<open>long_max\<close>
  are the limits of \<^verbatim>\<open>long\<close>; the unsigned types have any width up to that of \<^verbatim>\<open>unsigned long\<close>.
\<close>

definition long_max :: ulong where "long_max = 2 ^ 63 - 1"

definition get_signed_integer :: "('c :: linorder) cache \<Rightarrow> fmtflags \<Rightarrow> ulong \<Rightarrow> 'c list \<Rightarrow>
    ulong \<times> iostate \<times> 'c list" where
  "get_signed_integer ch fmt val cs =
     (let g = get_integer ch fmt cs in
      (if g_ok g then
         if g_neg g then if g_val g > - long_min then long_min else - g_val g
         else if g_val g > long_max then long_max else g_val g
       else if g_val g = - 1 then if g_neg g then long_min else long_max
       else val,
       g_err g, g_in g))"

definition get_unsigned_integer :: "('c :: linorder) cache \<Rightarrow> fmtflags \<Rightarrow> ('w :: len) word \<Rightarrow> 'c list \<Rightarrow>
    'w word \<times> iostate \<times> 'c list" where
  "get_unsigned_integer ch fmt val cs =
     (let g = get_integer ch fmt cs in
      (if g_ok g then
         if g_val g > ucast (- 1 :: 'w word) then - 1
         else if g_neg g then - ucast (g_val g) else ucast (g_val g)
       else if g_val g = - 1 then - 1
       else val,
       g_err g, g_in g))"

definition do_get_long :: "('c :: linorder) cache \<Rightarrow> fmtflags \<Rightarrow> ulong \<Rightarrow> 'c list \<Rightarrow> ulong \<times> iostate \<times> 'c list" where
  "do_get_long = get_signed_integer"

definition do_get_ushort :: "('c :: linorder) cache \<Rightarrow> fmtflags \<Rightarrow> 16 word \<Rightarrow> 'c list \<Rightarrow> 16 word \<times> iostate \<times> 'c list" where
  "do_get_ushort = get_unsigned_integer"

definition do_get_uint :: "('c :: linorder) cache \<Rightarrow> fmtflags \<Rightarrow> 32 word \<Rightarrow> 'c list \<Rightarrow> 32 word \<times> iostate \<times> 'c list" where
  "do_get_uint = get_unsigned_integer"

definition do_get_ulong :: "('c :: linorder) cache \<Rightarrow> fmtflags \<Rightarrow> ulong \<Rightarrow> 'c list \<Rightarrow> ulong \<times> iostate \<times> 'c list" where
  "do_get_ulong = get_unsigned_integer"

definition do_get_pointer :: "('c :: linorder) cache \<Rightarrow> fmtflags \<Rightarrow> ulong \<Rightarrow> 'c list \<Rightarrow> ulong \<times> iostate \<times> 'c list" where
  "do_get_pointer ch fmt val cs =
     (let (tval, err, cs) = get_unsigned_integer ch fmt 0 cs
      in (if err AND failbit = 0 then tval else val, err, cs))"

text \<open>
  Truth values. The number is read into a variable that has no value before; it is a parameter. In
  the other branch the loop compares with the name of the value that is passed in.
\<close>

fun match_name :: "'c list \<Rightarrow> 'c list \<Rightarrow> 'c list \<times> 'c list" where
  "match_name (m # ms) (c # cs) = (if m = c then match_name ms cs else (m # ms, c # cs))"
| "match_name ms cs = (ms, cs)"

definition do_get_bool :: "('c :: linorder) facets \<Rightarrow> fmtflags \<Rightarrow> ulong \<Rightarrow> bool \<Rightarrow> 'c list \<Rightarrow>
    bool \<times> iostate \<times> 'c list" where
  "do_get_bool loc fmt lval val cs =
     (if fmt AND fl_boolalpha = 0 then
        let (lval, err, cs) = do_get_long (lf_cache loc) fmt lval cs in
        if err AND failbit = goodbit then
          if lval = 0 then (False, err, cs)
          else if lval = 1 then (True, err, cs)
          else (val, err OR failbit, cs)
        else (val, err, cs)
      else
        let (ms, cs) = match_name (if val then np_truename (lf_numpunct loc) else np_falsename (lf_numpunct loc)) cs
        in (val, if ms = [] then goodbit else if cs = [] then eofbit else failbit, cs))"

section \<open>Reading the digits\<close>

text \<open>A sequence of digits in a base, and what may follow a numeral.\<close>

definition all_digits :: "('c :: linorder) cache \<Rightarrow> nat \<Rightarrow> 'c list \<Rightarrow> bool" where
  "all_digits ch base ds \<longleftrightarrow> (\<forall>d \<in> set ds. cache_find ch d < base)"

definition no_digit :: "('c :: linorder) cache \<Rightarrow> nat \<Rightarrow> 'c list \<Rightarrow> bool" where
  "no_digit ch base rst \<longleftrightarrow> rst = [] \<or> base \<le> cache_find ch (hd rst)"

definition numeral_value :: "('c :: linorder) cache \<Rightarrow> nat \<Rightarrow> 'c list \<Rightarrow> nat" where
  "numeral_value ch base ds = digits_value base (map (cache_find ch) ds)"

lemma all_digits_simps [simp]:
  "all_digits ch base []" "all_digits ch base (d # ds) \<longleftrightarrow> cache_find ch d < base \<and> all_digits ch base ds"
  "all_digits ch base (ds @ es) \<longleftrightarrow> all_digits ch base ds \<and> all_digits ch base es"
  by (auto simp: all_digits_def)

lemma digits_value_snoc: "digits_value b (ds @ [d]) = digits_value b ds * b + d"
  by (simp add: digits_value_def)

lemma digits_value_less: "(\<And>d. d \<in> set ds \<Longrightarrow> d < b) \<Longrightarrow> digits_value b ds < b ^ length ds"
proof (induction ds rule: rev_induct)
  case (snoc d ds)
  then have "digits_value b ds + 1 \<le> b ^ length ds" and d: "d < b" by auto
  then have "(digits_value b ds + 1) * b \<le> b ^ length ds * b" by (intro mult_right_mono) auto
  with d show ?case by (simp add: digits_value_snoc algebra_simps)
qed (simp add: digits_value_def)

lemma digits_value_Cons: "digits_value b (d # ds) = d * b ^ length ds + digits_value b ds"
proof (induction ds rule: rev_induct)
  case (snoc e ds)
  have "digits_value b (d # ds @ [e]) = digits_value b (d # ds) * b + e"
    using digits_value_snoc [of b "d # ds" e] by simp
  with snoc show ?case by (simp add: digits_value_snoc algebra_simps)
qed (simp add: digits_value_def)

lemma numeral_value_simps:
  "numeral_value ch b [] = 0" "numeral_value ch b (ds @ [d]) = numeral_value ch b ds * b + cache_find ch d"
  "numeral_value ch b (d # ds) = cache_find ch d * b ^ length ds + numeral_value ch b ds"
  by (simp_all add: numeral_value_def digits_value_snoc digits_value_Cons) (simp add: digits_value_def)

lemma numeral_value_less: "all_digits ch b ds \<Longrightarrow> numeral_value ch b ds < b ^ length ds"
  using digits_value_less [of "map (cache_find ch) ds" b] by (auto simp: numeral_value_def all_digits_def)

lemma numeral_value_append:
  "numeral_value ch b (ds @ es) = numeral_value ch b ds * b ^ length es + numeral_value ch b es"
  by (induction ds) (simp_all add: numeral_value_simps algebra_simps power_add)

lemma numeral_value_ge: "ds \<noteq> [] \<Longrightarrow> cache_find ch (hd ds) \<noteq> 0 \<Longrightarrow> b ^ (length ds - 1) \<le> numeral_value ch b ds"
  by (cases ds) (simp_all add: numeral_value_simps trans_le_add1)

text \<open>The counted loop on a numeral: it stops behind its last digit, or on the last one it may read.\<close>

lemma read_digits_result:
  assumes "all_digits ch base (d # ds)" "no_digit ch base rst" "0 < n"
  shows "read_digits ch base (int n) (cache_find ch d) (d # ds @ rst) (word_of_nat a) =
    (if n \<le> length (d # ds)
     then (False, word_of_nat (a * base ^ n + numeral_value ch base (take n (d # ds))), 0, drop (n - 1) (d # ds @ rst))
     else (rst \<noteq> [], word_of_nat (a * base ^ length (d # ds) + numeral_value ch base (d # ds)),
       int n - int (length (d # ds)), rst))"
  using assms
proof (induction ds arbitrary: d n a)
  case Nil
  note step = read_digits.simps [of ch base "int n" "cache_find ch d" "d # rst"]
  show ?case
  proof (cases "n = 1")
    case True
    with Nil show ?thesis by (subst append_Nil, subst step) (simp add: numeral_value_simps)
  next
    case False
    with Nil show ?thesis
      by (subst append_Nil, subst step, cases rst)
        (auto simp: no_digit_def numeral_value_simps read_digits.simps [of ch base "int n - 1"])
  qed
next
  case (Cons e ds)
  note step = read_digits.simps [of ch base "int n" "cache_find ch d" "d # e # ds @ rst"]
  show ?case
  proof (cases "n = 1")
    case True
    with Cons.prems show ?thesis by (subst append_Cons, subst step) (simp add: numeral_value_simps)
  next
    case False
    define m where "m = n - 1"
    with False Cons.prems(3) have m: "n = Suc m" "0 < m" "int n - 1 = int m" by auto
    have "read_digits ch base (int n) (cache_find ch d) (d # e # ds @ rst) (word_of_nat a) =
        read_digits ch base (int m) (cache_find ch e) (e # ds @ rst) (word_of_nat (a * base + cache_find ch d))"
      using Cons.prems m by (subst step) (simp add: Let_def)
    also have "\<dots> = (if m \<le> length (e # ds)
     then (False, word_of_nat ((a * base + cache_find ch d) * base ^ m + numeral_value ch base (take m (e # ds))), 0,
       drop (m - 1) (e # ds @ rst))
     else (rst \<noteq> [], word_of_nat ((a * base + cache_find ch d) * base ^ length (e # ds) + numeral_value ch base (e # ds)),
       int m - int (length (e # ds)), rst))"
      by (rule Cons.IH) (use Cons.prems m in simp_all)
    finally have eq: "read_digits ch base (int n) (cache_find ch d) (d # (e # ds) @ rst) (word_of_nat a) = \<dots>" by simp
    show ?thesis
    proof (cases "m \<le> length (e # ds)")
      case True
      have "(a * base + cache_find ch d) * base ^ m + numeral_value ch base (take m (e # ds)) =
          a * base ^ n + numeral_value ch base (take n (d # e # ds))"
        using True m(1) by (simp add: numeral_value_simps(3) [of ch base d] min_absorb2 algebra_simps)
      moreover have "drop (m - 1) (e # ds @ rst) = drop (n - 1) (d # (e # ds) @ rst)"
        using m(1,2) by (cases m) simp_all
      moreover have "n \<le> length (d # e # ds)" using True m(1) by simp
      ultimately show ?thesis using True unfolding eq by (simp only: if_True)
    next
      case False
      have "(a * base + cache_find ch d) * base ^ length (e # ds) + numeral_value ch base (e # ds) =
          a * base ^ length (d # e # ds) + numeral_value ch base (d # e # ds)"
        by (simp add: numeral_value_simps(3) [of ch base d] algebra_simps)
      moreover have "int m - int (length (e # ds)) = int n - int (length (d # e # ds))" using m(1) by simp
      moreover have "\<not> n \<le> length (d # e # ds)" using False m(1) by simp
      ultimately show ?thesis using False unfolding eq by (simp only: if_False)
    qed
  qed
qed

lemma skip_zeros_result:
  "(\<forall>z \<in> set zs. cache_find ch z = 0) \<Longrightarrow> cache_find ch d \<noteq> 0 \<Longrightarrow>
   skip_zeros ch (cache_find ch (hd (zs @ [d]))) (zs @ d # rst) = (Some (cache_find ch d), d # rst)"
proof (induction zs)
  case (Cons z zs)
  then show ?case by (subst skip_zeros.simps) (cases zs; simp)
qed (subst skip_zeros.simps, simp)

lemma skip_zeros_all:
  "(\<forall>z \<in> set zs. cache_find ch z = 0) \<Longrightarrow> zs \<noteq> [] \<Longrightarrow> skip_zeros ch (cache_find ch (hd zs)) zs = (None, [])"
proof (induction zs)
  case (Cons z zs)
  then show ?case by (subst skip_zeros.simps) (cases zs; simp)
qed simp

lemma skip_digits_result:
  "all_digits ch base ds \<Longrightarrow> no_digit ch base rst \<Longrightarrow> skip_digits ch base (d # ds @ rst) = rst"
proof (induction ds arbitrary: d)
  case Nil
  then show ?case by (subst skip_digits.simps) (cases rst; simp add: no_digit_def)
next
  case (Cons e ds)
  then show ?case by (subst skip_digits.simps) simp
qed

text \<open>The comparison finds out whether another digit fits, without an overflow.\<close>

lemma fits:
  assumes "a < 2 ^ 64" "v < base" "0 < base" "base < 2 ^ 64"
  shows "(word_of_nat a \<le> (- 1 :: ulong) div word_of_nat base \<and>
      - 1 - word_of_nat a * word_of_nat base \<ge> (word_of_nat v :: ulong)) \<longleftrightarrow> a * base + v < 2 ^ 64"
proof -
  have u: "unat (word_of_nat k :: ulong) = k" if "k < 2 ^ 64" for k
    using that by (simp add: unsigned_of_nat take_bit_nat_eq_self)
  have m: "unat (- 1 :: ulong) = 2 ^ 64 - 1" by (simp add: unsigned_minus_1_eq_mask mask_eq_exp_minus_1)
  have le: "word_of_nat a \<le> (- 1 :: ulong) div word_of_nat base \<longleftrightarrow> a * base \<le> 2 ^ 64 - 1"
    using assms by (simp add: word_le_nat_alt unat_div u m less_eq_div_iff_mult_less_eq)
  have ge: "- 1 - word_of_nat a * word_of_nat base \<ge> (word_of_nat v :: ulong) \<longleftrightarrow> v \<le> 2 ^ 64 - 1 - a * base"
    if "a * base \<le> 2 ^ 64 - 1"
  proof -
    have w: "word_of_nat a * word_of_nat base = (word_of_nat (a * base) :: ulong)" by simp
    have "unat (- 1 - (word_of_nat (a * base) :: ulong)) = 2 ^ 64 - 1 - a * base"
      using that by (subst unat_sub) (simp_all add: u m word_le_nat_alt del: of_nat_mult)
    moreover have "v < 2 ^ 64" using assms by simp
    ultimately show ?thesis unfolding w by (simp add: word_le_nat_alt u del: of_nat_mult)
  qed
  show ?thesis using le ge by auto
qed

text \<open>What is read for a numeral: its value, or the largest one when it does not fit.\<close>

definition numeral_got :: "nat \<Rightarrow> bool \<Rightarrow> 'c list \<Rightarrow> 'c got" where
  "numeral_got val neg rst = \<lparr>g_ok = val < 2 ^ 64, g_err = at_end rst,
     g_val = (if val < 2 ^ 64 then word_of_nat val else - 1), g_neg = neg, g_in = rst\<rparr>"

lemma check_overflow_result:
  assumes base: "0 < base" "base < 2 ^ 64" and a: "a < 2 ^ 64"
    and es: "all_digits ch base es" "no_digit ch base rst"
    and big: "2 \<le> length es \<Longrightarrow> 2 ^ 64 \<le> a * base ^ length es + numeral_value ch base es"
  shows "check_overflow ch base neg (word_of_nat a) 0 (x # es @ rst) =
    numeral_got (a * base ^ length es + numeral_value ch base es) neg rst"
proof (cases es)
  case Nil
  with a es show ?thesis
    by (cases rst) (auto simp: check_overflow_def no_digit_def numeral_value_simps numeral_got_def at_end_def)
next
  case (Cons e fs)
  let ?v = "cache_find ch e"
  have over: "get_overflow ch base neg (y # gs @ rst) = numeral_got (a * base ^ length es + numeral_value ch base es) neg rst"
    if "all_digits ch base gs" "2 ^ 64 \<le> a * base ^ length es + numeral_value ch base es" for y gs
    using that es by (simp add: get_overflow_def skip_digits_result numeral_got_def Let_def)
  note f = fits [OF a _ base, of ?v]
  have val: "a * base ^ length es + numeral_value ch base es = (a * base + ?v) * base ^ length fs + numeral_value ch base fs"
    using Cons by (simp add: numeral_value_simps algebra_simps)
  show ?thesis
  proof (cases "a * base + ?v < 2 ^ 64")
    case True
    show ?thesis
    proof (cases fs)
      case Nil
      with True Cons es f show ?thesis
        by (cases rst) (auto simp: check_overflow_def no_digit_def numeral_value_simps numeral_got_def at_end_def)
    next
      case fs: (Cons g gs)
      with True Cons es f over [of gs g] big show ?thesis by (simp add: check_overflow_def)
    qed
  next
    case False
    have "a * base + ?v \<le> (a * base + ?v) * base ^ length fs" using base by simp
    with False val have "2 ^ 64 \<le> a * base ^ length es + numeral_value ch base es" by linarith
    with False Cons es f over [of fs e] show ?thesis by (auto simp: check_overflow_def)
  qed
qed

lemma base_limits:
  assumes "base \<in> {8, 10, 16}"
  obtains n where "init_count base = int n" "0 < n" "base ^ n \<le> 2 ^ 64" "base \<noteq> 8 \<Longrightarrow> 2 ^ 64 \<le> base ^ Suc n"
    "base = 8 \<Longrightarrow> 2 ^ 63 \<le> base ^ Suc n"
proof -
  have c: "init_count 8 = 20" "init_count 10 = 19" "init_count 16 = 15"
    by (simp_all add: init_count_def ulong_digits10_def ulong_digits_def)
  show thesis
  proof (cases "base = 8")
    case True
    with c that [of 20] show ?thesis by simp
  next
    case False
    with assms c that [of 19] that [of 15] show ?thesis by auto
  qed
qed

text \<open>In base eight the counts let only 21 digits pass; a numeral from two to the power of 63 on is lost.\<close>

lemma significant_digits:
  assumes base: "base \<in> {8, 10, 16}" and ds: "all_digits ch base (d # ds)" "no_digit ch base rst"
    and first: "cache_find ch d \<noteq> 0" and oct: "base = 8 \<Longrightarrow> numeral_value ch base (d # ds) < 2 ^ 63"
  shows "(case read_digits ch base (init_count base) (cache_find ch d) (d # ds @ rst) 0 of
      (True, val, n, cs) \<Rightarrow> \<lparr>g_ok = True, g_err = goodbit, g_val = val, g_neg = neg, g_in = cs\<rparr>
    | (False, val, n, cs) \<Rightarrow> check_overflow ch base neg val n cs) =
    numeral_got (numeral_value ch base (d # ds)) neg rst"
proof -
  from base_limits [OF base] obtain n where n: "init_count base = int n" "0 < n" "base ^ n \<le> 2 ^ 64"
    "base \<noteq> 8 \<Longrightarrow> 2 ^ 64 \<le> base ^ Suc n" "base = 8 \<Longrightarrow> 2 ^ 63 \<le> base ^ Suc n" by metis
  have b: "0 < base" "base < 2 ^ 64" using base by auto
  note r = read_digits_result [OF ds n(2), of 0, simplified of_nat_0 mult_0 add_0]
  show ?thesis
  proof (cases "n \<le> length (d # ds)")
    case False
    have "numeral_value ch base (d # ds) < base ^ length (d # ds)" by (rule numeral_value_less [OF ds(1)])
    also have "\<dots> \<le> base ^ n" using False b by (intro power_increasing) auto
    finally have "numeral_value ch base (d # ds) < 2 ^ 64" using n(3) by linarith
    with False r n show ?thesis
      by (cases "rst = []") (auto simp: check_overflow_def numeral_got_def at_end_def)
  next
    case True
    let ?xs = "take n (d # ds)" and ?es = "drop n (d # ds)"
    have split: "d # ds = ?xs @ ?es" by simp
    have len: "length ?xs = n" using True by simp
    have dig: "all_digits ch base ?xs" "all_digits ch base ?es" using ds(1) by (metis split all_digits_simps(3))+
    have val: "numeral_value ch base (d # ds) = numeral_value ch base ?xs * base ^ length ?es + numeral_value ch base ?es"
      by (metis split numeral_value_append)
    have less: "numeral_value ch base ?xs < 2 ^ 64" using numeral_value_less [OF dig(1)] n(3) unfolding len by linarith
    obtain x where x: "drop (n - 1) (d # ds @ rst) = x # ?es @ rst"
    proof -
      have "n - 1 < length (d # ds @ rst)" using True n(2) by simp
      then have "drop (n - 1) (d # ds @ rst) = (d # ds @ rst) ! (n - 1) # drop (Suc (n - 1)) (d # ds @ rst)"
        by (rule Cons_nth_drop_Suc [symmetric])
      moreover have "drop (Suc (n - 1)) (d # ds @ rst) = ?es @ rst"
        using True n(2) drop_append [of n "d # ds" rst] by simp
      ultimately show ?thesis using that by metis
    qed
    have big: "2 ^ 64 \<le> numeral_value ch base (d # ds)" if "2 \<le> length ?es"
    proof -
      have "base ^ Suc n \<le> base ^ (length (d # ds) - 1)" using that b by (intro power_increasing) auto
      also have "\<dots> \<le> numeral_value ch base (d # ds)" using numeral_value_ge [of "d # ds" ch base] first by simp
      finally show ?thesis using n(4,5) oct by (cases "base = 8") auto
    qed
    from check_overflow_result [OF b less dig(2) ds(2), of neg x] big val
    have "check_overflow ch base neg (word_of_nat (numeral_value ch base ?xs)) 0 (x # ?es @ rst) =
        numeral_got (numeral_value ch base (d # ds)) neg rst" by simp
    with True r n(1) x show ?thesis by simp
  qed
qed

lemma get_digits_result:
  assumes base: "base \<in> {8, 10, 16}" and ds: "all_digits ch base ds" "no_digit ch base rst" "ds \<noteq> []"
    and oct: "base = 8 \<Longrightarrow> numeral_value ch base ds < 2 ^ 63"
  shows "get_digits ch base neg (cache_find ch (hd ds)) (ds @ rst) = numeral_got (numeral_value ch base ds) neg rst"
proof -
  let ?z = "\<lambda>d. cache_find ch d = 0"
  define zs es where "zs = takeWhile ?z ds" and "es = dropWhile ?z ds"
  have split: "ds = zs @ es" and zs: "\<forall>z \<in> set zs. cache_find ch z = 0"
    by (auto simp: zs_def es_def dest: set_takeWhileD)
  have val: "numeral_value ch base ds = numeral_value ch base es"
  proof -
    have "numeral_value ch base zs = 0" using zs by (induction zs) (simp_all add: numeral_value_simps)
    then show ?thesis by (simp add: split numeral_value_append)
  qed
  show ?thesis
  proof (cases es)
    case (Cons d es')
    have d: "cache_find ch d \<noteq> 0" using Cons hd_dropWhile [of ?z ds] by (simp add: es_def)
    have "hd ds = hd (zs @ [d])" using split Cons by (cases zs) auto
    with skip_zeros_result [OF zs d, of "es' @ rst"] split Cons
    have "skip_zeros ch (cache_find ch (hd ds)) (ds @ rst) = (Some (cache_find ch d), d # es' @ rst)" by simp
    moreover have "all_digits ch base (d # es')" using ds(1) split Cons by simp
    moreover have "base = 8 \<Longrightarrow> numeral_value ch base (d # es') < 2 ^ 63" using oct val Cons by (simp del: power_numeral)
    ultimately show ?thesis
      using significant_digits [OF base _ ds(2) d, of es' neg] val Cons by (simp add: get_digits_def)
  next
    case Nil
    then have all: "ds = zs" using split by simp
    show ?thesis
    proof (cases rst)
      case Nil
      with skip_zeros_all [OF zs] all ds(3) val \<open>es = []\<close> show ?thesis
        by (simp add: get_digits_def numeral_got_def at_end_def numeral_value_simps)
    next
      case (Cons r rs)
      with ds(2) base have r: "base \<le> cache_find ch r" "cache_find ch r \<noteq> 0" by (auto simp: no_digit_def)
      have "hd ds = hd (zs @ [r])" using all ds(3) by (cases zs) auto
      with skip_zeros_result [OF zs r(2), of rs] all Cons
      have "skip_zeros ch (cache_find ch (hd ds)) (ds @ rst) = (Some (cache_find ch r), rst)" by simp
      then show ?thesis using r val \<open>es = []\<close> Cons
        by (simp add: get_digits_def numeral_got_def at_end_def numeral_value_simps read_digits.simps)
    qed
  qed
qed

lemma get_digits_none:
  assumes "base \<le> cache_find ch r" "0 < base"
  shows "get_digits ch base neg (cache_find ch r) (r # rs) = numeral_got 0 neg (r # rs)"
  using assms
  by (simp add: get_digits_def skip_zeros.simps read_digits.simps numeral_got_def at_end_def)

text \<open>What looks like the prefix of a hexadecimal number: a zero before an \<^verbatim>\<open>x\<close>.\<close>

definition prefix_like :: "('c :: linorder) cache \<Rightarrow> 'c list \<Rightarrow> bool" where
  "prefix_like ch cs \<longleftrightarrow> 1 < length cs \<and> cache_find ch (cs ! 0) = 0 \<and> cache_find ch (cs ! 1) = cb_hex"

lemma get_based_result:
  assumes base: "base \<in> {8, 10, 16}" "field_base fmt = base"
    and ds: "all_digits ch base ds" "no_digit ch base rst" "ds \<noteq> []"
    and oct: "base = 8 \<Longrightarrow> numeral_value ch base ds < 2 ^ 63"
    and hex: "base = 16 \<Longrightarrow> \<not> prefix_like ch (ds @ rst)"
  shows "get_based ch fmt neg (cache_find ch (hd ds)) (ds @ rst) = numeral_got (numeral_value ch base ds) neg rst"
proof -
  from ds(3) obtain d es where d: "ds = d # es" by (cases ds) auto
  have b17: "base \<noteq> 17" "0 < base" "base \<noteq> 16 \<Longrightarrow> \<not> 16 \<le> base" using base(1) by auto
  show ?thesis
  proof (cases "cache_find ch d = 0")
    case False
    with base d ds get_digits_result [OF base(1) ds oct, of neg] b17 show ?thesis
      by (simp add: get_based_def Let_def)
  next
    case True
    have val: "numeral_value ch base ds = numeral_value ch base es" using True d by (simp add: numeral_value_simps)
    have digits: "get_digits ch base neg (cache_find ch c) (c # cs) = numeral_got (numeral_value ch base ds) neg rst"
      if c: "es @ rst = c # cs" for c cs
    proof (cases es)
      case Nil
      with c ds(2) have "base \<le> cache_find ch c" "rst = c # cs" by (auto simp: no_digit_def)
      with get_digits_none [of base ch c neg cs] b17(2) val Nil show ?thesis by (simp add: numeral_value_simps)
    next
      case (Cons e es')
      then have "es \<noteq> []" "hd es = c" using c by auto
      moreover have "all_digits ch base es" using ds(1) d by simp
      ultimately show ?thesis using get_digits_result [OF base(1) _ ds(2), of es neg] oct val c by metis
    qed
    show ?thesis
    proof (cases "es @ rst")
      case Nil
      with d True base show ?thesis
        by (auto simp: get_based_def Let_def numeral_got_def at_end_def numeral_value_simps)
    next
      case (Cons c cs)
      have "base = 16 \<Longrightarrow> cache_find ch c \<noteq> cb_hex" using hex Cons d True by (auto simp: prefix_like_def)
      moreover have eq: "ds @ rst = d # c # cs" using Cons d by simp
      ultimately show ?thesis using digits [OF Cons] b17 d base(2) True
        unfolding get_based_def Let_def eq by (cases "base = 16") auto
    qed
  qed
qed

text \<open>The prefix decides about the base when the flags ask for hexadecimal numbers, or for none.\<close>

lemma get_based_prefix:
  assumes base: "16 \<le> field_base fmt" and px: "cache_find ch z = 0" "cache_find ch x = cb_hex"
    and ds: "all_digits ch 16 ds" "no_digit ch 16 rst" "ds \<noteq> []"
  shows "get_based ch fmt neg (cache_find ch z) (z # x # ds @ rst) = numeral_got (numeral_value ch 16 ds) neg rst"
proof -
  from ds(3) obtain d es where d: "ds = d # es" by (cases ds) auto
  with ds(1) have "\<not> 16 < cache_find ch d" by simp
  with assms d get_digits_result [of 16, OF _ ds, of neg] show ?thesis
    by (simp add: get_based_def Let_def scan_classes)
qed

text \<open>The sign of a number.\<close>

definition is_sign :: "('c :: linorder) cache \<Rightarrow> bool \<Rightarrow> 'c list \<Rightarrow> bool" where
  "is_sign ch neg sg \<longleftrightarrow> sg = [] \<and> \<not> neg \<or> (\<exists>c. sg = [c] \<and> cache_find ch c = (if neg then cb_minus else cb_plus))"

lemma get_integer_sign:
  assumes "is_sign ch neg sg" "cs \<noteq> []" "cache_find ch (hd cs) < 16"
  shows "get_integer ch fmt (sg @ cs) = get_based ch fmt neg (cache_find ch (hd cs)) cs"
  using assms by (cases cs) (auto simp: is_sign_def get_integer_def Let_def scan_classes)

section \<open>Numerals\<close>

text \<open>A numeral in the base of the flags, with an optional sign, and what may follow it.\<close>

definition is_numeral :: "('c :: linorder) cache \<Rightarrow> fmtflags \<Rightarrow> bool \<Rightarrow> 'c list \<Rightarrow> 'c list \<Rightarrow> 'c list \<Rightarrow> bool" where
  "is_numeral ch fmt neg sg ds rst \<longleftrightarrow> field_base fmt \<noteq> 17 \<and> is_sign ch neg sg \<and> ds \<noteq> [] \<and>
     all_digits ch (field_base fmt) ds \<and> no_digit ch (field_base fmt) rst \<and>
     (field_base fmt = 16 \<longrightarrow> \<not> prefix_like ch (ds @ rst))"

definition clip_long :: "int \<Rightarrow> int" where
  "clip_long x = max (- (2 ^ 63)) (min (2 ^ 63 - 1) x)"

lemma field_bases: "field_base fmt \<noteq> 17 \<Longrightarrow> field_base fmt \<in> {8, 10, 16}"
  by (simp add: field_base_def Let_def split: if_splits)

lemma get_integer_numeral:
  assumes num: "is_numeral ch fmt neg sg ds rst"
    and oct: "field_base fmt = 8 \<longrightarrow> numeral_value ch (field_base fmt) ds < 2 ^ 63"
  shows "get_integer ch fmt (sg @ ds @ rst) = numeral_got (numeral_value ch (field_base fmt) ds) neg rst"
proof -
  from num have n: "field_base fmt \<in> {8, 10, 16}" "is_sign ch neg sg" "ds \<noteq> []" "all_digits ch (field_base fmt) ds"
    "no_digit ch (field_base fmt) rst" "field_base fmt = 16 \<longrightarrow> \<not> prefix_like ch (ds @ rst)"
    using field_bases [of fmt] by (auto simp: is_numeral_def)
  then have "cache_find ch (hd ds) < 16" by (cases ds) auto
  with get_integer_sign [OF n(2), of "ds @ rst" fmt] n(3)
  have "get_integer ch fmt (sg @ ds @ rst) = get_based ch fmt neg (cache_find ch (hd ds)) (ds @ rst)" by simp
  also have "\<dots> = numeral_got (numeral_value ch (field_base fmt) ds) neg rst"
    by (rule get_based_result [OF n(1) refl n(4,5,3)]) (use oct n(6) in auto)
  finally show ?thesis .
qed

lemma word_of_nat_less_iff:
  assumes "v < 2 ^ 64"
  shows "(word_of_nat v :: ulong) > 2 ^ 63 \<longleftrightarrow> 2 ^ 63 < v" "(word_of_nat v :: ulong) > 2 ^ 63 - 1 \<longleftrightarrow> 2 ^ 63 - 1 < v"
proof -
  have "unat (word_of_nat v :: ulong) = v" using assms by (simp add: unsigned_of_nat take_bit_nat_eq_self)
  then show "(word_of_nat v :: ulong) > 2 ^ 63 \<longleftrightarrow> 2 ^ 63 < v" "(word_of_nat v :: ulong) > 2 ^ 63 - 1 \<longleftrightarrow> 2 ^ 63 - 1 < v"
    by (simp_all add: word_less_nat_alt)
qed

lemma signed_got:
  assumes "get_integer ch fmt cs = numeral_got v neg rst"
  shows "get_signed_integer ch fmt val cs =
    (word_of_int (clip_long (if neg then - int v else int v)), at_end rst, rst)"
proof (cases "v < 2 ^ 64")
  case True
  have m: "(- long_min :: ulong) = 2 ^ 63" "(long_min :: ulong) = word_of_int (- (2 ^ 63))"
    "(long_max :: ulong) = word_of_int (2 ^ 63 - 1)" "long_max = 2 ^ 63 - 1"
    by (simp_all add: long_min_def long_max_def)
  have w: "(word_of_nat v :: ulong) = word_of_int (int v)" by simp
  from True assms word_of_nat_less_iff [OF True] show ?thesis
    by (cases neg) (auto simp: get_signed_integer_def numeral_got_def clip_long_def m)
next
  case False
  with assms show ?thesis
    by (auto simp: get_signed_integer_def numeral_got_def clip_long_def long_min_def long_max_def)
qed

lemma unsigned_got:
  assumes "get_integer ch fmt cs = numeral_got v neg rst"
  shows "get_unsigned_integer ch fmt (val :: ulong) cs =
    (if 2 ^ 64 \<le> v then - 1 else word_of_int (if neg then - int v else int v), at_end rst, rst)"
  using assms by (auto simp: get_unsigned_integer_def numeral_got_def)

text \<open>
  C26: A numeral in the base the flags name (8, 10 or 16), behind an optional sign and without a prefix, is read completely and nothing
  behind it is; the state is that of the end of the input or good. For the type \<^verbatim>\<open>long\<close> the result is its
  value, clipped to the range of the type; for \<^verbatim>\<open>unsigned long\<close> it is the value modulo \<open>2 ^ 64\<close>, so that
  a negative numeral wraps, or the largest value if the digits do not fit. In base eight the numeral has to be below
  \<open>2 ^ 63\<close>; \<open>octal_lost\<close> below shows that larger ones are lost.
\<close>

theorem numeral_read:
  assumes "is_numeral ch fmt neg sg ds rst"
    and "field_base fmt = 8 \<longrightarrow> numeral_value ch (field_base fmt) ds < 2 ^ 63"
  shows "do_get_long ch fmt val (sg @ ds @ rst) =
      (word_of_int (clip_long (if neg then - int (numeral_value ch (field_base fmt) ds)
         else int (numeral_value ch (field_base fmt) ds))), at_end rst, rst) \<and>
    do_get_ulong ch fmt uval (sg @ ds @ rst) =
      (if 2 ^ 64 \<le> numeral_value ch (field_base fmt) ds then - 1
       else word_of_int (if neg then - int (numeral_value ch (field_base fmt) ds)
         else int (numeral_value ch (field_base fmt) ds)), at_end rst, rst)"
  using get_integer_numeral [OF assms]
  by (simp only: do_get_long_def do_get_ulong_def signed_got unsigned_got simp_thms)

section \<open>What is printed is read back\<close>

lemma scan_class:
  assumes "cache_init (Some np) (Some wd) = Some ch" "distinct (scan_chars np wd)" "i < 31"
  shows "cache_find ch (scan_chars np wd ! i) = ivals ! i"
proof -
  have len: "length (scan_chars np wd) = 31" by (simp add: scan_chars_def st_chars_def)
  then have "scan_chars np wd ! i \<in> set (scan_chars np wd)" using assms(3) by simp
  with cache_init_result [of np wd] assms(1) obtain j where
    j: "j < 31" "scan_chars np wd ! j = scan_chars np wd ! i" "cache_find ch (scan_chars np wd ! i) = ivals ! j"
    by (metis option.inject)
  then have "j = i" using assms(2,3) len by (simp add: nth_eq_iff_index_eq)
  with j show ?thesis by simp
qed

text \<open>The tables of digits hold characters of the classes they stand for.\<close>

definition is_table :: "('c :: linorder) cache \<Rightarrow> 'c list \<Rightarrow> bool" where
  "is_table ch cvt \<longleftrightarrow> (\<forall>k < 16. cache_find ch (cvt ! k) = k) \<and> cache_find ch (cvt ! positive_index) = cb_plus \<and>
     cache_find ch (cvt ! negative_index) = cb_minus \<and> cache_find ch (cvt ! hexadecimal_index) = cb_hex"

lemma less_16: "k < 16 \<Longrightarrow> k \<in> {0, 1, 2, 3, 4, 5, 6, 7, 8, 9, 10, 11, 12, 13, 14, 15 :: nat}"
  by (simp add: numeral_eq_Suc less_Suc_eq) (fastforce?)

lemma tables:
  assumes "cache_init (Some np) (Some wd) = Some ch" "distinct (scan_chars np wd)"
  shows "is_table ch (m_lower_table ch)" "is_table ch (m_upper_table ch)"
proof -
  note c = scan_class [OF assms]
  have t: "m_lower_table ch = digit_table np wd lt_chars" "m_upper_table ch = digit_table np wd ut_chars"
    using cache_init_result [of np wd] assms(1) by auto
  have classes: "cache_find ch (scan_chars np wd ! i) = v" if "i < 31" "ivals ! i = v" for i v
    using c that by simp
  have lower: "m_lower_table ch ! k = scan_chars np wd ! k" if "k < 16" for k
    using less_16 [OF that] unfolding t by (auto simp: digit_table_def scan_chars_def lt_chars_def st_chars_def)
  have upper: "m_upper_table ch ! k = scan_chars np wd ! (if k < 10 then k else k + 6)" if "k < 16" for k
    using less_16 [OF that] unfolding t by (auto simp: digit_table_def scan_chars_def ut_chars_def st_chars_def)
  have vals: "ivals ! k = k" "ivals ! (if k < 10 then k else k + 6) = k" if "k < 16" for k
    using less_16 [OF that] by (auto simp: ivals_def)
  have signs: "m_lower_table ch ! positive_index = scan_chars np wd ! 22" "m_upper_table ch ! positive_index = scan_chars np wd ! 22"
    "m_lower_table ch ! negative_index = scan_chars np wd ! 23" "m_upper_table ch ! negative_index = scan_chars np wd ! 23"
    "m_lower_table ch ! hexadecimal_index = scan_chars np wd ! 24" "m_upper_table ch ! hexadecimal_index = scan_chars np wd ! 25"
    unfolding t by (simp_all add: digit_table_def scan_chars_def ut_chars_def lt_chars_def st_chars_def table_indices)
  have sv: "ivals ! 22 = cb_plus" "ivals ! 23 = cb_minus" "ivals ! 24 = cb_hex" "ivals ! 25 = cb_hex"
    by (simp_all add: ivals_def)
  show "is_table ch (m_lower_table ch)" "is_table ch (m_upper_table ch)"
    unfolding is_table_def signs using lower upper vals sv by (auto simp: c)
qed

lemma format_base:
  assumes "base_of = field_base fmt" "base_of \<noteq> 17"
  shows "unat (fmt_base fmt) = base_of" "base_of \<in> {8, 10, 16}" "fmt_base fmt = word_of_nat base_of"
  using assms by (auto simp: field_base_def fmt_base_def Let_def flag_defs split: if_splits)

definition ungrouped :: "int list \<Rightarrow> bool" where
  "ungrouped g \<longleftrightarrow> g = [] \<or> g ! 0 = char_max"

lemma plain_digits:
  assumes "ungrouped g" "2 \<le> b"
  shows "digits_value b (digit_text b g n) = n" "digit_text b g n \<noteq> []" "\<forall>d \<in> set (digit_text b g n). d < b"
  using assms base_digits_value [of b n] base_digits_less [of _ b n] base_digits_head [of b n]
  by (auto simp: digit_text_def ungrouped_def digits_value_def)

lemma printed_digits:
  assumes "is_table ch cvt" "\<forall>d \<in> set ds. d < b" "b \<le> 16"
  shows "all_digits ch b (map ((!) cvt) ds)" "numeral_value ch b (map ((!) cvt) ds) = digits_value b ds"
proof -
  have "map (cache_find ch) (map ((!) cvt) ds) = ds" using assms unfolding map_map
    by (intro map_idI) (auto simp: is_table_def)
  then show "numeral_value ch b (map ((!) cvt) ds) = digits_value b ds" by (simp add: numeral_value_def)
  show "all_digits ch b (map ((!) cvt) ds)" using assms by (auto simp: all_digits_def is_table_def)
qed

text \<open>What follows a printed number must not continue it.\<close>

definition ends_number :: "('c :: linorder) cache \<Rightarrow> fmtflags \<Rightarrow> 'c list \<Rightarrow> bool" where
  "ends_number ch fmt rst \<longleftrightarrow> no_digit ch (field_base fmt) rst \<and> (rst = [] \<or> cache_find ch (hd rst) \<noteq> cb_hex)"

lemma no_prefix_like:
  assumes "all_digits ch 16 cs" "cs \<noteq> []" "rst = [] \<or> cache_find ch (hd rst) \<noteq> cb_hex"
  shows "\<not> prefix_like ch (cs @ rst)"
proof (cases cs)
  case (Cons c es)
  with assms show ?thesis by (cases es; cases rst) (auto simp: prefix_like_def scan_classes)
qed (use assms in simp)

lemma sign_printed:
  assumes "is_table ch cvt"
  shows "is_sign ch neg (map ((!) cvt) (sign_text neg fmt))"
  using assms by (auto simp: is_table_def sign_text_def is_sign_def)

lemma printed_got:
  assumes t: "is_table ch cvt" and g: "ungrouped g" and b: "field_base fmt \<noteq> 17" and e: "ends_number ch fmt rst"
    and oct: "field_base fmt = 8 \<longrightarrow> uint v < 2 ^ 63" and lm: "\<not> (is_negative sg fmt v \<and> v = long_min)"
  shows "\<exists>out fp. cs_format fmt g sg v cvt = Some (out, fp) \<and>
    get_integer ch fmt (out @ rst) = numeral_got (unat (magnitude sg fmt v)) (is_negative sg fmt v) rst"
proof -
  let ?b = "field_base fmt" and ?m = "magnitude sg fmt v" and ?neg = "is_negative sg fmt v"
  let ?ds = "digit_text ?b g (unat ?m)" and ?pre = "prefix_text (fmt_base fmt) fmt v ?neg"
  let ?cs = "map ((!) cvt) ?ds" and ?out = "map ((!) cvt) ?pre @ map ((!) cvt) ?ds"
  note fb = format_base [OF refl b]
  have b2: "2 \<le> ?b" "?b \<le> 16" using fb(2) by auto
  have gg: "g = [] \<or> g ! 0 \<noteq> 0" using g by (auto simp: ungrouped_def char_max_def)
  from cs_format_text [OF gg lm, of cvt] obtain fp where
    out: "cs_format fmt g sg v cvt = Some (?out, fp)" by (simp add: fb(1))
  note plain = plain_digits [OF g b2(1), of "unat ?m"]
  note printed = printed_digits [OF t plain(3) b2(2)]
  have cs: "?cs \<noteq> []" "numeral_value ch ?b ?cs = unat ?m" using plain printed by simp_all
  have num: "is_numeral ch fmt neg' sg' cs' rst" if "is_sign ch neg' sg'" "all_digits ch ?b cs'" "cs' \<noteq> []" for neg' sg' cs'
    using that b e no_prefix_like [of ch cs' rst] by (auto simp: is_numeral_def ends_number_def)
  have "get_integer ch fmt (?out @ rst) = numeral_got (unat ?m) ?neg rst"
  proof (cases "?b = 10")
    case True
    then have pre: "?pre = sign_text ?neg fmt" by (simp add: prefix_text_def fb(3))
    from get_integer_numeral [OF num [OF sign_printed [OF t] printed(1) cs(1)]] True cs(2) show ?thesis
      by (simp add: pre)
  next
    case False
    then have "fmt_base fmt \<noteq> 10" using fb(2,3) by auto
    then have neg: "\<not> ?neg" "?m = v" by (simp_all add: is_negative_def magnitude_def)
    have sign: "is_sign ch False []" by (simp add: is_sign_def)
    have small: "?b = 8 \<Longrightarrow> unat ?m < 2 ^ 63" 
      using oct unfolding neg(2) unat_eq_nat_uint by (subst nat_less_iff) simp_all
    show ?thesis
    proof (cases "?b = 16 \<and> ?pre \<noteq> []")
      case True
      then have pre: "?pre = [0, hexadecimal_index]" using fb(3) by (auto simp: prefix_text_def split: if_splits)
      have zx: "cache_find ch (cvt ! 0) = 0" "cache_find ch (cvt ! hexadecimal_index) = cb_hex"
        using t by (simp_all add: is_table_def)
      have "get_integer ch fmt (?out @ rst) = get_based ch fmt False (cache_find ch (cvt ! 0)) (?out @ rst)"
        using get_integer_sign [OF sign, of "?out @ rst" fmt] zx(1) by (simp add: pre)
      also have "\<dots> = numeral_got (numeral_value ch 16 ?cs) False rst"
        using get_based_prefix [OF _ zx, of fmt ?cs rst False] printed(1) cs(1) True e
        by (simp add: pre ends_number_def)
      finally show ?thesis using cs(2) True neg by simp
    next
      case False
      then have pre: "?pre = [] \<or> ?b = 8 \<and> ?pre = [0]" using fb \<open>?b \<noteq> 10\<close>
        by (auto simp: prefix_text_def split: if_splits)
      have d0: "\<forall>d \<in> set (?pre @ ?ds). d < ?b" using pre plain(3) b2 by auto
      note p = printed_digits [OF t d0 b2(2)]
      have "digits_value ?b (?pre @ ?ds) = unat ?m" using pre plain(1) by (auto simp: digits_value_Cons)
      then have val: "numeral_value ch ?b (map ((!) cvt) (?pre @ ?ds)) = unat ?m" using p(2) by (rule trans [rotated])
      have n: "is_numeral ch fmt False [] (map ((!) cvt) (?pre @ ?ds)) rst" using num [OF sign p(1)] cs(1) by simp
      have "?b = 8 \<longrightarrow> numeral_value ch ?b (map ((!) cvt) (?pre @ ?ds)) < 2 ^ 63" unfolding val using small by (rule impI)
      from get_integer_numeral [OF n this] neg(1) show ?thesis unfolding val by simp
    qed
  qed
  with out show ?thesis by blast
qed

lemma sint_nonneg:
  assumes "\<not> sint v < 0"
  shows "uint v = sint (v :: ulong)"
proof -
  have "take_bit 64 (uint v) = uint v" using uint_lt2p [of v] by (simp add: take_bit_int_eq_self)
  then have eq: "sint v = uint v - 2 ^ 64 * of_bool (bit (uint v) 63)"
    by (simp add: sint_uint signed_take_bit_eq_take_bit_minus)
  with assms uint_lt2p [of v] show ?thesis by (cases "bit (uint v) 63") auto
qed

lemma long_read_back:
  assumes "is_table ch cvt" "ungrouped g" "field_base fmt = 10" "ends_number ch fmt rst" "v \<noteq> long_min"
  shows "\<exists>out fp. do_num_put_long fmt g v cvt = Some (out, fp) \<and> do_get_long ch fmt old (out @ rst) = (v, at_end rst, rst)"
proof -
  from printed_got [OF assms(1,2) _ assms(4), of v True] assms(3,5) obtain out fp where
    p: "cs_format fmt g True v cvt = Some (out, fp)"
      "get_integer ch fmt (out @ rst) = numeral_got (unat (magnitude True fmt v)) (is_negative True fmt v) rst" by auto
  have neg: "is_negative True fmt v \<longleftrightarrow> sint v < 0" using format_base [OF refl, of fmt] assms(3) by (simp add: is_negative_def)
  have "(if is_negative True fmt v then - int (unat (magnitude True fmt v)) else int (unat (magnitude True fmt v))) = sint v"
    using magnitude_value [of True fmt v] neg sint_nonneg [of v] by simp
  moreover have "clip_long (sint v) = sint v" using sint_range_size [of v] by (simp add: clip_long_def word_size)
  ultimately have "do_get_long ch fmt old (out @ rst) = (v, at_end rst, rst)"
    using signed_got [OF p(2), of old] by (simp add: do_get_long_def)
  with p(1) show ?thesis by (auto simp: do_num_put_long_def)
qed

lemma ulong_read_back:
  assumes "is_table ch cvt" "ungrouped g" "field_base fmt \<noteq> 17" "ends_number ch fmt rst" "field_base fmt = 8 \<longrightarrow> uint u < 2 ^ 63"
  shows "\<exists>out fp. do_num_put_ulong fmt g u cvt = Some (out, fp) \<and> do_get_ulong ch fmt old (out @ rst) = (u, at_end rst, rst)"
proof -
  from printed_got [OF assms(1-4), of u False] assms(5) obtain out fp where
    p: "cs_format fmt g False u cvt = Some (out, fp)" "get_integer ch fmt (out @ rst) = numeral_got (unat u) False rst"
    by (auto simp: magnitude_def is_negative_def)
  have "unat u < 2 ^ 64" using unsigned_less [of u, where ?'a = nat] by simp
  with unsigned_got [OF p(2), of old] have "do_get_ulong ch fmt old (out @ rst) = (u, at_end rst, rst)"
    by (simp add: do_get_ulong_def)
  with p(1) show ?thesis by (auto simp: do_num_put_ulong_def)
qed

text \<open>
  A printed integer is read back. For every pair of facets with distinct characters and no
  grouping, a \<^verbatim>\<open>long\<close> printed in base ten and an \<^verbatim>\<open>unsigned long\<close> printed in base 8, 10 or 16, with whatever
  flags for the sign, the prefix and the letter case, are read as the same value and up to exactly the
  end of the number, provided that what follows does not continue it. In base eight the value has to be below two to the
  power of 63, and the smallest \<^verbatim>\<open>long\<close> is left out.
\<close>

theorem integer_roundtrip:
  assumes "cache_init (Some np) (Some wd) = Some ch" "distinct (scan_chars np wd)" "ungrouped (m_grouping ch)"
    and "cvt = m_lower_table ch \<or> cvt = m_upper_table ch"
    and "field_base fmt \<noteq> 17" "ends_number ch fmt rst" "field_base fmt = 8 \<longrightarrow> uint u < 2 ^ 63" "v \<noteq> long_min"
  shows "(field_base fmt = 10 \<longrightarrow> (\<exists>out fp. do_num_put_long fmt (m_grouping ch) v cvt = Some (out, fp) \<and>
      do_get_long ch fmt old (out @ rst) = (v, at_end rst, rst))) \<and>
    (\<exists>out fp. do_num_put_ulong fmt (m_grouping ch) u cvt = Some (out, fp) \<and>
      do_get_ulong ch fmt uold (out @ rst) = (u, at_end rst, rst))"
proof -
  have t: "is_table ch cvt" using tables [OF assms(1,2)] assms(4) by auto
  from long_read_back [OF t assms(3) _ assms(6,8), of old] ulong_read_back [OF t assms(3,5,6,7), of uold]
  show ?thesis by blast
qed

section \<open>Examples\<close>

definition c_punct :: "char numpunct" where "c_punct = lf_numpunct (plain_facets [])"
definition c_cache :: "char cache" where "c_cache = the (cache_init (Some c_punct) (Some id))"

lemma c_cache_init: "cache_init (Some c_punct) (Some id) = Some c_cache" "m_grouping c_cache = []"
  using cache_init_result [of c_punct id] by (auto simp: c_cache_def c_punct_def plain_facets_def)

lemma c_scan: "scan_chars c_punct id = st_chars" "distinct (scan_chars c_punct id)"
  by code_simp+

lemma c_classes: "map (cache_find c_cache) st_chars = ivals"
proof (rule nth_equalityI)
  show "length (map (cache_find c_cache) st_chars) = length ivals" by (simp add: st_chars_def ivals_def)
  fix i assume i: "i < length (map (cache_find c_cache) st_chars)"
  have "length st_chars = 31" by (simp add: st_chars_def)
  with i show "map (cache_find c_cache) st_chars ! i = ivals ! i"
    using scan_class [OF c_cache_init(1) c_scan(2), of i] by (simp add: c_scan(1))
qed

lemmas c_class = c_classes [unfolded st_chars_def ivals_def scan_classes, simplified]

theorem numeral_read_witness:
  "do_get_long c_cache fl_dec 5 ''-42 '' = (- 42, goodbit, '' '') \<and>
   do_get_ulong c_cache fl_dec 5 ''-42 '' = (- 42, goodbit, '' '') \<and>
   do_get_long c_cache fl_dec 5 ''99999999999999999999'' = (long_max, eofbit, [])"
proof -
  have b: "field_base fl_dec = 10" by (simp add: field_base_def flag_defs)
  have neg: "is_numeral c_cache fl_dec True ''-'' ''42'' '' ''"
    by (simp add: is_numeral_def b is_sign_def no_digit_def c_class scan_classes)
  have big: "is_numeral c_cache fl_dec False [] ''99999999999999999999'' []"
    by (simp add: is_numeral_def b is_sign_def no_digit_def c_class)
  have v: "numeral_value c_cache 10 ''42'' = 42" "numeral_value c_cache 10 ''99999999999999999999'' = 99999999999999999999"
    by (simp_all add: numeral_value_def digits_value_def c_class)
  from numeral_read [OF neg, of 5 5] numeral_read [OF big, of 5 5] show ?thesis
    by (simp add: b v clip_long_def at_end_def long_max_def)
qed

theorem integer_roundtrip_witness:
  "(\<exists>out fp. do_num_put_long fl_dec [] (- 42) (m_lower_table c_cache) = Some (out, fp) \<and>
      do_get_long c_cache fl_dec 0 (out @ '' '') = (- 42, goodbit, '' '')) \<and>
   (\<exists>out fp. do_num_put_ulong (fl_hex OR fl_showbase) [] 48879 (m_upper_table c_cache) = Some (out, fp) \<and>
      do_get_ulong c_cache (fl_hex OR fl_showbase) 0 out = (48879, eofbit, []))"
proof -
  have b: "field_base fl_dec = 10" "field_base (fl_hex OR fl_showbase) = 16" by (simp_all add: field_base_def flag_defs)
  have g: "ungrouped (m_grouping c_cache)" by (simp add: ungrouped_def c_cache_init)
  have e: "ends_number c_cache fl_dec '' ''" "ends_number c_cache (fl_hex OR fl_showbase) []"
    by (simp_all add: ends_number_def no_digit_def b c_class scan_classes)
  from integer_roundtrip [OF c_cache_init(1) c_scan(2) g, of "m_lower_table c_cache" fl_dec "'' ''" 0 "- 42" 0 0]
    integer_roundtrip [OF c_cache_init(1) c_scan(2) g, of "m_upper_table c_cache" "fl_hex OR fl_showbase" "[]" 48879 0 0 0] b e
  show ?thesis by (simp add: c_cache_init(2) at_end_def long_min_def)
qed

section \<open>What the facet gets wrong\<close>

text \<open>
  An octal numeral of 22 digits that fits is taken for an overflow, and an overflow does not set the
  bit for a failure.
\<close>

lemma octal_lost:
  "get_integer c_cache fl_oct ''1000000000000000000000'' = \<lparr>g_ok = False, g_err = eofbit, g_val = - 1, g_neg = False, g_in = []\<rparr>"
  "numeral_value c_cache 8 ''1000000000000000000000'' = 2 ^ 63"
  by (simp_all add: get_integer_def get_based_def field_base_def flag_defs Let_def get_digits_def skip_zeros.simps
    read_digits.simps init_count_def ulong_digits_def check_overflow_def get_overflow_def skip_digits.simps at_end_def
    numeral_value_def digits_value_def c_class scan_classes)

text \<open>A prefix without digits sets the bit for the end of the input although there is more.\<close>

lemma bare_prefix: "do_get_long c_cache fl_hex 5 ''0x '' = (0, eofbit, '' '')"
  by (simp add: do_get_long_def get_signed_integer_def get_integer_def get_based_def field_base_def flag_defs Let_def
    c_class scan_classes long_max_def)

text \<open>The name of the other truth value is not recognised, and no value is ever stored.\<close>

lemma bool_names:
  "fmt AND fl_boolalpha \<noteq> 0 \<Longrightarrow> fst (do_get_bool loc fmt lval val cs) = val"
  "do_get_bool (plain_facets []) fl_boolalpha 0 False ''true'' = (False, failbit, ''true'')"
  by (simp_all add: do_get_bool_def plain_facets_def flag_defs split: prod.split)

end
