(* ===== verification/Istream.thy ===== *)
theory Istream
  imports Ostream Num_Get
begin

text \<open>
  The input streams: \<^verbatim>\<open>basic_istream\<close> (\<^verbatim>\<open>cxxrt/istream.h\<close>, \<^verbatim>\<open>srccxx/istream.cc\<close>) with the sentry,
  unformatted input, and the extractors of characters, words and stream buffers, and the input
  iterators on stream buffers (\<^verbatim>\<open>cxxrt/sbuf_it.h\<close>, \<^verbatim>\<open>srccxx/isbuf_it.cc\<close>).

  Functions that store characters in an array have the pair of the stream and the characters stored so
  far as their state, so that an exception keeps them; the terminating zero is left out. Their size is
  positive: with another one the source leaves the array. \<open>eofc\<close> is the character that
  converting the end-of-file value gives, \<open>zero\<close> the value-initialised one.

  The lemmas give the characters, the state and the count of every unformatted input function on a
  string stream.
\<close>

unbundle bit_operations_syntax

section \<open>The sentry\<close>

definition skip_ws :: "('c, ('c, 'z) streambuf_scheme) vtable \<Rightarrow>
    ('c, ('c, 'z) streambuf_scheme, bool) stream_op" where
  "skip_ws vt s = io_bind (on_sbuf (sgetc vt)) (\<lambda>c.
     io_bind (io_loop (\<lambda>c. case c of None \<Rightarrow> False | Some ch \<Rightarrow> lf_space (ib_loc s) ch)
       (\<lambda>_. on_sbuf (snextc vt)) c) (\<lambda>c. io_ret (c = None))) s"

definition sentry_init :: "('c, ('c, 'z) streambuf_scheme) vtable \<Rightarrow> bool \<Rightarrow>
    ('c, ('c, 'z) streambuf_scheme, bool) stream_op" where
  "sentry_init vt noskipws s = io_bind
     (if good s then io_catch
        (io_bind (io_mod flush_tied) (\<lambda>_ s.
           if \<not> noskipws \<and> flags_get s AND fl_skipws \<noteq> 0
           then io_bind (skip_ws vt) (\<lambda>e. if e then setstate (eofbit OR failbit) else io_ret ()) s
           else io_ret () s))
        process_exception
      else io_ret ())
     (\<lambda>_. io_read good) s"

text \<open>
  The constructor with three arguments looks for the internal bits among the format flags, where they
  never are.
\<close>

definition sentry_quick :: "('c, ('c, 'z) streambuf_scheme) vtable \<Rightarrow>
    ('c, ('c, 'z) streambuf_scheme, bool) stream_op" where
  "sentry_quick vt s =
     (if flags_get s AND (fl_os_good OR fl_os_tie) \<noteq> 0 then sentry_init vt True s else io_ret True s)"

definition with_tie :: "addr option \<Rightarrow> ('c, 's) ios \<Rightarrow> ('c, 's) ios" where
  "with_tie t s = snd (tie_set t s)"

text \<open>
  What most functions have in common: the sentry, then an operation whose exceptions are processed, and
  the bit for a failure otherwise.
\<close>

definition guarded :: "('c, ('c, 'z) streambuf_scheme) vtable \<Rightarrow> bool \<Rightarrow>
    ('c, ('c, 'z) streambuf_scheme, unit) stream_op \<Rightarrow> ('c, ('c, 'z) streambuf_scheme, unit) stream_op" where
  "guarded vt noskipws body = io_bind (sentry_init vt noskipws)
     (\<lambda>ok. if ok then io_catch body process_exception else setstate failbit)"

section \<open>Single characters\<close>

definition set_gcount :: "int \<Rightarrow> ('c, 's, unit) stream_op" where
  "set_gcount n = io_mod (\<lambda>s. s\<lparr>io_gcount := n\<rparr>)"

text \<open>\<open>None\<close> is the end-of-file value. A character read into a variable is the result.\<close>

definition bump_result :: "'c option \<Rightarrow> ('c, 's, unit) stream_op" where
  "bump_result c = (case c of
       None \<Rightarrow> io_bind (setstate (failbit OR eofbit)) (\<lambda>_. set_gcount 0)
     | Some _ \<Rightarrow> set_gcount 1)"

definition cs_get :: "('c, ('c, 'z) streambuf_scheme) vtable \<Rightarrow>
    ('c, ('c, 'z) streambuf_scheme, 'c option) stream_op" where
  "cs_get vt = io_bind (sentry_quick vt) (\<lambda>ok.
     if ok then io_catch
       (io_bind (on_sbuf (sbumpc vt)) (\<lambda>c. io_bind (bump_result c) (\<lambda>_. io_ret c)))
       (io_bind process_exception (\<lambda>_. io_ret None))
     else io_bind (setstate failbit) (\<lambda>_. io_ret None))"

definition is_get :: "('c, ('c, 'z) streambuf_scheme) vtable \<Rightarrow>
    ('c, ('c, 'z) streambuf_scheme, 'c option) stream_op" where
  "is_get vt s =
     (let s = s\<lparr>io_gcount := 1\<rparr> in
      case io_sbuf s of
        None \<Rightarrow> io_ret None s
      | Some b \<Rightarrow>
          if need_isentry s \<or> gcur b = gend b then cs_get vt s
          else io_ret (Some (sb_mem b ! gcur b)) (s\<lparr>io_sbuf := Some (b\<lparr>gcur := Suc (gcur b)\<rparr>)\<rparr>))"

definition is_get_char :: "('c, ('c, 'z) streambuf_scheme) vtable \<Rightarrow> 'c \<Rightarrow>
    ('c, ('c, 'z) streambuf_scheme, 'c) stream_op" where
  "is_get_char vt old = io_bind (sentry_init vt True) (\<lambda>ok.
     if ok then io_catch
       (io_bind (on_sbuf (sbumpc vt)) (\<lambda>c. io_bind (bump_result c)
         (\<lambda>_. io_ret (case c of None \<Rightarrow> old | Some ch \<Rightarrow> ch))))
       (io_bind process_exception (\<lambda>_. io_ret old))
     else io_bind (setstate failbit) (\<lambda>_. io_ret old))"

definition is_peek :: "('c, ('c, 'z) streambuf_scheme) vtable \<Rightarrow>
    ('c, ('c, 'z) streambuf_scheme, 'c option) stream_op" where
  "is_peek vt = io_catch
     (io_bind (set_gcount 0) (\<lambda>_. io_bind (sentry_init vt True)
       (\<lambda>ok. if ok then on_sbuf (sgetc vt) else io_ret None)))
     (io_bind process_exception (\<lambda>_. io_ret None))"

definition is_putback :: "('c, ('c, 'z) streambuf_scheme) vtable \<Rightarrow> 'c \<Rightarrow>
    ('c, ('c, 'z) streambuf_scheme, unit) stream_op" where
  "is_putback vt c = guarded vt True
     (io_bind (on_sbuf (sputbackc vt c)) (\<lambda>r. if r = None then setstate badbit else io_ret ()))"

definition is_unget :: "('c, ('c, 'z) streambuf_scheme) vtable \<Rightarrow>
    ('c, ('c, 'z) streambuf_scheme, unit) stream_op" where
  "is_unget vt = guarded vt True
     (io_bind (on_sbuf (sungetc vt)) (\<lambda>r. if r = None then setstate badbit else io_ret ()))"

definition is_sync :: "('c, ('c, 'z) streambuf_scheme) vtable \<Rightarrow>
    ('c, ('c, 'z) streambuf_scheme, int) stream_op" where
  "is_sync vt s =
     (if io_sbuf s = None then io_ret (- 1) s
      else io_bind (on_sbuf (pubsync vt)) (\<lambda>r.
        if r = - 1 then io_bind (setstate badbit) (\<lambda>_. io_ret (- 1)) else io_ret 0) s)"

section \<open>Arrays of characters\<close>

text \<open>The search of \<^verbatim>\<open>traits::find\<close> in the first characters of the get area.\<close>

definition until :: "'c \<Rightarrow> 'c list \<Rightarrow> 'c list" where
  "until d cs = takeWhile (\<lambda>c. c \<noteq> d) cs"

definition append_chars :: "'c list \<Rightarrow> ('s \<times> 'c list, unit) io" where
  "append_chars cs = io_mod (\<lambda>(s, acc). (s, acc @ cs))"

definition commit :: "nat \<Rightarrow> (('c, 'z) streambuf_scheme, unit) io" where
  "commit p = io_mod (\<lambda>b. b\<lparr>gcur := p\<rparr>)"

text \<open>The objects whose destructor sets the count, also when an exception leaves the block.\<close>

definition with_finish :: "('c list \<Rightarrow> ('c, 's) ios \<Rightarrow> ('c, 's) ios) \<Rightarrow> (('c, 's) ios \<times> 'c list, unit) io \<Rightarrow>
    (('c, 's) ios \<times> 'c list, unit) io" where
  "with_finish fin m st = (case m st of None \<Rightarrow> None | Some (r, (s, acc)) \<Rightarrow> Some (r, (fin acc s, acc)))"

text \<open>
  The loops run while the array has room for a character and the terminating zero; a turn returns
  whether the function returns.
\<close>

datatype read_phase = Go | Full | Returned

definition loop_on :: "nat \<Rightarrow> ('s \<times> 'c list, bool) io \<Rightarrow> ('s \<times> 'c list, read_phase) io" where
  "loop_on sz turn = io_loop (\<lambda>p. p = Go)
     (\<lambda>_. io_bind turn (\<lambda>stop.
        if stop then io_ret Returned
        else io_bind (io_read snd) (\<lambda>acc. io_ret (if length acc = sz - 1 then Full else Go)))) Go"

definition get_turn :: "('c, ('c, 'z) streambuf_scheme) vtable \<Rightarrow> nat \<Rightarrow> 'c \<Rightarrow>
    (('c, ('c, 'z) streambuf_scheme) ios \<times> 'c list, bool) io" where
  "get_turn vt sz d = (\<lambda>(s, acc).
     case io_sbuf s of None \<Rightarrow> None | Some b \<Rightarrow>
     let mx = min (gend b - gcur b) (sz - 1 - length acc) in
     if mx = 0 then
       io_bind (on_stream (on_sbuf (v_underflow vt))) (\<lambda>i.
         case i of
           None \<Rightarrow> io_bind (on_stream (setstate eofbit)) (\<lambda>_. io_ret True)
         | Some c \<Rightarrow>
             if c = d then io_bind (if acc = [] then on_stream (setstate failbit) else io_ret ()) (\<lambda>_. io_ret True)
             else io_bind (append_chars [c]) (\<lambda>_. io_bind (on_stream (on_sbuf (sbumpc vt))) (\<lambda>_. io_ret False)))
         (s, acc)
     else
       let cs = until d (get_slice mx b) in
       io_bind (on_stream (on_sbuf (commit (gcur b + length cs)))) (\<lambda>_. io_bind (append_chars cs) (\<lambda>_.
         if length cs < mx
         then io_bind (if acc @ cs = [] then on_stream (setstate failbit) else io_ret ()) (\<lambda>_. io_ret True)
         else io_bind (on_stream (on_sbuf (v_underflow vt))) (\<lambda>_. io_ret False))) (s, acc))"

text \<open>
  The block both functions have: nothing is read into an array without room, nor at the end of the
  input.
\<close>

definition read_block :: "('c, ('c, 'z) streambuf_scheme) vtable \<Rightarrow> nat \<Rightarrow>
    (('c, ('c, 'z) streambuf_scheme) ios \<times> 'c list, unit) io \<Rightarrow>
    (('c, ('c, 'z) streambuf_scheme) ios \<times> 'c list, unit) io" where
  "read_block vt sz body =
     (if sz = 1 then on_stream (setstate failbit)
      else io_bind (on_stream (on_sbuf (sgetc vt))) (\<lambda>c.
        if c = None then on_stream (setstate (failbit OR eofbit)) else body))"

definition is_get_array :: "('c, ('c, 'z) streambuf_scheme) vtable \<Rightarrow> nat \<Rightarrow> 'c \<Rightarrow>
    (('c, ('c, 'z) streambuf_scheme) ios \<times> 'c list, unit) io" where
  "is_get_array vt sz d =
     (if sz = 0 then (\<lambda>_. None)
      else io_bind (on_stream (sentry_init vt True)) (\<lambda>ok.
        if ok then io_catch
          (with_finish (\<lambda>acc s. s\<lparr>io_gcount := int (length acc)\<rparr>)
            (read_block vt sz (io_bind (loop_on sz (get_turn vt sz d)) (\<lambda>_. io_ret ()))))
          (on_stream process_exception)
        else on_stream (setstate failbit)))"

definition is_get_line :: "('c, ('c, 'z) streambuf_scheme) vtable \<Rightarrow> nat \<Rightarrow>
    (('c, ('c, 'z) streambuf_scheme) ios \<times> 'c list, unit) io" where
  "is_get_line vt sz = (\<lambda>(s, acc). is_get_array vt sz (io_newline s) (s, acc))"

definition getline_turn :: "('c, ('c, 'z) streambuf_scheme) vtable \<Rightarrow> nat \<Rightarrow> 'c \<Rightarrow>
    (('c, ('c, 'z) streambuf_scheme) ios \<times> 'c list, bool) io" where
  "getline_turn vt sz d = (\<lambda>(s, acc).
     case io_sbuf s of None \<Rightarrow> None | Some b \<Rightarrow>
     let mx = min (gend b - gcur b) (sz - 1 - length acc) in
     if mx = 0 then
       io_bind (on_stream (on_sbuf (sbumpc vt))) (\<lambda>i.
         case i of
           None \<Rightarrow> io_bind (on_stream (setstate eofbit)) (\<lambda>_. io_ret True)
         | Some c \<Rightarrow>
             if c = d then io_bind (on_stream (set_gcount 1)) (\<lambda>_. io_ret True)
             else io_bind (append_chars [c]) (\<lambda>_. io_ret False))
         (s, acc)
     else
       let cs = until d (get_slice mx b) in
       io_bind (append_chars cs) (\<lambda>_.
         if length cs < mx
         then io_bind (on_stream (on_sbuf (commit (gcur b + length cs + 1))))
           (\<lambda>_. io_bind (on_stream (set_gcount 1)) (\<lambda>_. io_ret True))
         else io_bind (on_stream (on_sbuf (commit (gcur b + length cs))))
           (\<lambda>_. io_bind (on_stream (on_sbuf (v_underflow vt))) (\<lambda>_. io_ret False))) (s, acc))"

definition getline_end :: "('c, ('c, 'z) streambuf_scheme) vtable \<Rightarrow> 'c \<Rightarrow> read_phase \<Rightarrow>
    (('c, ('c, 'z) streambuf_scheme) ios \<times> 'c list, unit) io" where
  "getline_end vt d p =
     (if p = Full then
        io_bind (on_stream (on_sbuf (sgetc vt))) (\<lambda>i.
          if i = Some d
          then io_bind (on_stream (on_sbuf (sbumpc vt))) (\<lambda>_. on_stream (set_gcount 1))
          else on_stream (setstate failbit))
      else io_ret ())"

definition getline :: "('c, ('c, 'z) streambuf_scheme) vtable \<Rightarrow> nat \<Rightarrow> 'c \<Rightarrow>
    (('c, ('c, 'z) streambuf_scheme) ios \<times> 'c list, unit) io" where
  "getline vt sz d =
     (if sz = 0 then (\<lambda>_. None)
      else io_bind (on_stream (sentry_init vt True)) (\<lambda>ok.
        if ok then io_catch
          (with_finish (\<lambda>acc s. s\<lparr>io_gcount := io_gcount s + int (length acc)\<rparr>)
            (io_bind (on_stream (set_gcount 0)) (\<lambda>_. read_block vt sz
              (io_bind (loop_on sz (getline_turn vt sz d)) (getline_end vt d)))))
          (on_stream process_exception)
        else on_stream (setstate failbit)))"

definition getline_newline :: "('c, ('c, 'z) streambuf_scheme) vtable \<Rightarrow> nat \<Rightarrow>
    (('c, ('c, 'z) streambuf_scheme) ios \<times> 'c list, unit) io" where
  "getline_newline vt sz = (\<lambda>(s, acc). getline vt sz (io_newline s) (s, acc))"

section \<open>Blocks of characters\<close>

text \<open>The characters read are the result; an exception that is processed loses them in the model.\<close>

definition is_read :: "('c, ('c, 'z) streambuf_scheme) vtable \<Rightarrow> int \<Rightarrow>
    ('c, ('c, 'z) streambuf_scheme, 'c list) stream_op" where
  "is_read vt n = io_bind (sentry_init vt True) (\<lambda>ok.
     if ok then
       io_bind (io_catch (io_bind (on_sbuf (sgetn vt n)) (\<lambda>cs. io_ret (Some cs)))
         (io_bind process_exception (\<lambda>_. io_ret None))) (\<lambda>r.
       case r of
         None \<Rightarrow> io_ret []
       | Some cs \<Rightarrow>
           io_bind (set_gcount (int (length cs))) (\<lambda>_.
           io_bind (io_catch (if int (length cs) < n then setstate (eofbit OR failbit) else io_ret ()) process_exception)
             (\<lambda>_. io_ret cs)))
     else io_bind (set_gcount 0) (\<lambda>_. io_bind (setstate failbit) (\<lambda>_. io_ret [])))"

definition readsome :: "('c, ('c, 'z) streambuf_scheme) vtable \<Rightarrow> int \<Rightarrow>
    ('c, ('c, 'z) streambuf_scheme, 'c list) stream_op" where
  "readsome vt n = io_bind (sentry_init vt True) (\<lambda>ok.
     if ok then io_catch
       (io_bind (on_sbuf (in_avail vt)) (\<lambda>avail.
          if avail = - 1 then io_bind (setstate eofbit) (\<lambda>_. io_bind (set_gcount 0) (\<lambda>_. io_ret []))
          else if avail = 0 then io_bind (set_gcount 0) (\<lambda>_. io_ret [])
          else io_bind (on_sbuf (sgetn vt (if avail < n then avail else n))) (\<lambda>cs.
            io_bind (set_gcount (int (length cs))) (\<lambda>_. io_ret cs))))
       (io_bind process_exception (\<lambda>_. io_ret []))
     else io_bind (set_gcount 0) (\<lambda>_. io_bind (setstate failbit) (\<lambda>_. io_ret [])))"

definition is_ignore_one :: "('c, ('c, 'z) streambuf_scheme) vtable \<Rightarrow>
    ('c, ('c, 'z) streambuf_scheme, unit) stream_op" where
  "is_ignore_one vt = io_bind (sentry_init vt True) (\<lambda>ok.
     if ok then io_catch
       (io_bind (on_sbuf (sbumpc vt)) (\<lambda>c.
          if c = None then io_bind (setstate eofbit) (\<lambda>_. set_gcount 0) else set_gcount 1))
       process_exception
     else io_ret ())"

text \<open>
  \<^verbatim>\<open>ignore\<close> with a delimiter, which may be the end-of-file value. The count is a member that the loop
  reads; \<open>streamsize_max\<close> is the largest count.
\<close>

definition streamsize_max :: int where "streamsize_max = 2 ^ 63 - 1"

definition ignore_turn :: "('c, ('c, 'z) streambuf_scheme) vtable \<Rightarrow> 'c \<Rightarrow> int \<Rightarrow> 'c option \<Rightarrow>
    ('c, ('c, 'z) streambuf_scheme, bool) stream_op" where
  "ignore_turn vt eofc n c s =
     (case io_sbuf s of None \<Rightarrow> None | Some b \<Rightarrow>
      let mx = int (gend b) - int (gcur b) in
      if mx = 0 then
        io_bind (on_sbuf (sbumpc vt)) (\<lambda>i.
          case i of
            None \<Rightarrow> io_bind (setstate eofbit) (\<lambda>_. io_ret True)
          | Some ch \<Rightarrow> io_bind (io_mod (\<lambda>s. s\<lparr>io_gcount := io_gcount s + 1\<rparr>)) (\<lambda>_. io_ret (Some ch = c))) s
      else
        let mx = (if n - io_gcount s < mx then n - io_gcount s else mx);
            cs = until (case c of None \<Rightarrow> eofc | Some ch \<Rightarrow> ch) (get_slice (nat mx) b);
            k = (if length cs < nat mx then length cs + 1 else nat mx)
        in io_bind (io_mod (\<lambda>s. s\<lparr>io_gcount := io_gcount s + int k\<rparr>)) (\<lambda>_.
           io_bind (on_sbuf (commit (gcur b + k))) (\<lambda>_. io_ret (length cs < nat mx))) s)"

definition is_ignore :: "('c, ('c, 'z) streambuf_scheme) vtable \<Rightarrow> 'c \<Rightarrow> int \<Rightarrow> 'c option \<Rightarrow>
    ('c, ('c, 'z) streambuf_scheme, unit) stream_op" where
  "is_ignore vt eofc n c = io_bind (sentry_init vt True) (\<lambda>ok.
     if ok then io_catch
       (io_bind (set_gcount 0) (\<lambda>_. io_bind (on_sbuf (sgetc vt)) (\<lambda>i.
          if i = None then setstate eofbit
          else
            let more = io_read (\<lambda>s. io_gcount s < n \<or> n = streamsize_max) in
            io_bind more (\<lambda>go.
            io_bind (io_loop (\<lambda>go. go)
              (\<lambda>_. io_bind (ignore_turn vt eofc n c) (\<lambda>stop. if stop then io_ret False else more)) go)
            (\<lambda>_. io_ret ())))))
       process_exception
     else io_ret ())"

section \<open>Formatted input of characters\<close>

definition is_char :: "('c, ('c, 'z) streambuf_scheme) vtable \<Rightarrow> 'c \<Rightarrow>
    ('c, ('c, 'z) streambuf_scheme, 'c) stream_op" where
  "is_char vt old = io_bind (sentry_init vt False) (\<lambda>ok.
     if ok then io_catch
       (io_bind (on_sbuf (sbumpc vt)) (\<lambda>i.
          case i of Some c \<Rightarrow> io_ret c | None \<Rightarrow> io_bind (setstate (failbit OR eofbit)) (\<lambda>_. io_ret old)))
       (io_bind process_exception (\<lambda>_. io_ret old))
     else io_bind (setstate failbit) (\<lambda>_. io_ret old))"

text \<open>
  A word: the loop variable is the character last seen and whether \<^verbatim>\<open>break\<close> was reached.
\<close>

definition word_turn :: "('c, ('c, 'z) streambuf_scheme) vtable \<Rightarrow> 'c \<Rightarrow> int \<Rightarrow> 'c option \<times> bool \<Rightarrow>
    (('c, ('c, 'z) streambuf_scheme) ios \<times> 'c list, 'c option \<times> bool) io" where
  "word_turn vt zero n = (\<lambda>(i, _) (s, acc).
     let c = the i in
     if lf_space (ib_loc s) c \<or> c = zero then io_ret (i, True) (s, acc)
     else
       io_bind (append_chars [c]) (\<lambda>_. io_bind (on_stream (on_sbuf (snextc vt)))
         (\<lambda>i. io_ret (i, int (length (acc @ [c])) \<ge> n))) (s, acc))"

definition is_word :: "('c, ('c, 'z) streambuf_scheme) vtable \<Rightarrow> 'c \<Rightarrow>
    (('c, ('c, 'z) streambuf_scheme) ios \<times> 'c list, unit) io" where
  "is_word vt zero = io_bind (on_stream (sentry_init vt False)) (\<lambda>ok.
     if ok then io_catch
       (io_bind (io_read (\<lambda>(s, acc). if ib_width s > 0 then ib_width s - 1 else 2 ^ 63 - 2)) (\<lambda>n.
        io_bind (on_stream (on_sbuf (sgetc vt))) (\<lambda>i.
        io_bind (io_loop (\<lambda>(i, stop). i \<noteq> None \<and> \<not> stop) (word_turn vt zero n) (i, n \<le> 0)) (\<lambda>(i, _).
        io_bind (on_stream (io_mod (\<lambda>s. snd (width_set 0 s)))) (\<lambda>_.
        io_bind (if i = None then on_stream (setstate eofbit) else io_ret ()) (\<lambda>_.
        io_bind (io_read snd) (\<lambda>acc.
          if acc = [] then on_stream (setstate failbit) else io_ret ())))))))
       (on_stream process_exception)
     else on_stream (setstate failbit))"

definition ws :: "('c, ('c, 'z) streambuf_scheme) vtable \<Rightarrow>
    ('c, ('c, 'z) streambuf_scheme, unit) stream_op" where
  "ws vt = io_bind (skip_ws vt) (\<lambda>e. if e then setstate eofbit else io_ret ())"

section \<open>Extracting into a stream buffer\<close>

text \<open>The state is the stream and the buffer that is written to.\<close>

definition get_sbuf_turn :: "('c, ('c, 'z) streambuf_scheme) vtable \<Rightarrow> ('c, ('c, 'y) streambuf_scheme) vtable \<Rightarrow>
    'c option \<times> bool \<times> bool \<Rightarrow>
    (('c, ('c, 'z) streambuf_scheme) ios \<times> ('c, 'y) streambuf_scheme, 'c option \<times> bool \<times> bool) io" where
  "get_sbuf_turn vt tt = (\<lambda>(c, inserted, _).
     io_bind (on_from (sputc tt (the c))) (\<lambda>r.
       if r = None then io_ret (c, inserted, True)
       else io_bind (on_stream (on_sbuf (sbumpc vt))) (\<lambda>_.
         io_bind (on_stream (on_sbuf (sgetc vt))) (\<lambda>c. io_ret (c, True, False)))))"

definition is_get_sbuf :: "('c, ('c, 'z) streambuf_scheme) vtable \<Rightarrow> ('c, ('c, 'y) streambuf_scheme) vtable \<Rightarrow> 'c \<Rightarrow>
    (('c, ('c, 'z) streambuf_scheme) ios \<times> ('c, 'y) streambuf_scheme, unit) io" where
  "is_get_sbuf vt tt d = io_bind (on_stream (sentry_init vt True)) (\<lambda>ok.
     if ok then io_catch
       (io_bind (on_stream (on_sbuf (sgetc vt))) (\<lambda>c.
        io_bind (io_loop (\<lambda>(c, _, broke). \<not> broke \<and> c \<noteq> None \<and> c \<noteq> Some d) (get_sbuf_turn vt tt) (c, False, False))
        (\<lambda>(c, inserted, _).
           if c = None then on_stream (setstate (if inserted then eofbit else eofbit OR failbit))
           else if \<not> inserted then on_stream (setstate failbit)
           else io_ret ())))
       (on_stream process_exception)
     else on_stream (setstate failbit))"

text \<open>
  The extractor remembers whether an exception came from reading. What it reads is converted to a
  character and compared with the end-of-file value afterwards, and the function meant to step to the
  next character returns the current one.
\<close>

definition on_read :: "('c \<Rightarrow> bool) \<Rightarrow> ('s, 'c option) io \<Rightarrow> (('c, 's) ios \<times> 't \<times> bool, 'c option) io" where
  "on_read is_eof m = (\<lambda>(s, t, extracted).
     case on_sbuf m s of
       None \<Rightarrow> None
     | Some (Throw, s) \<Rightarrow> Some (Throw, (s, t, True))
     | Some (Ret c, s) \<Rightarrow>
         Some (Ret (case c of None \<Rightarrow> None | Some ch \<Rightarrow> if is_eof ch then None else c), (s, t, extracted)))"

definition on_to :: "('t, 'r) io \<Rightarrow> ('a \<times> 't \<times> bool, 'r) io" where
  "on_to m = (\<lambda>(s, t, x). case m t of None \<Rightarrow> None | Some (r, t) \<Rightarrow> Some (r, (s, t, x)))"

definition extract_body :: "('c, ('c, 'z) streambuf_scheme) vtable \<Rightarrow> ('c, ('c, 'y) streambuf_scheme) vtable \<Rightarrow>
    ('c \<Rightarrow> bool) \<Rightarrow> (('c, ('c, 'z) streambuf_scheme) ios \<times> ('c, 'y) streambuf_scheme \<times> bool, unit) io" where
  "extract_body vt tt is_eof =
     io_bind (on_read is_eof (sgetc vt)) (\<lambda>c.
     case c of
       None \<Rightarrow> on_stream (setstate failbit)
     | Some ch \<Rightarrow>
         io_bind (on_to (sputc tt ch)) (\<lambda>r.
         if r = None then on_stream (setstate failbit)
         else
           io_bind (on_read is_eof (sbumpc vt)) (\<lambda>c.
           io_bind (io_loop (\<lambda>(c, broke). c \<noteq> None \<and> \<not> broke)
             (\<lambda>(c, _). io_bind (on_to (sputc tt (the c))) (\<lambda>r.
                if r = None then io_ret (c, True)
                else io_bind (on_read is_eof (sbumpc vt)) (\<lambda>c. io_ret (c, False)))) (c, False))
           (\<lambda>(c, broke). if broke then io_ret () else on_stream (setstate eofbit)))))"

definition extract_failed :: "(('c, 's) ios \<times> 't \<times> bool, unit) io" where
  "extract_failed = (\<lambda>(s, t, extracted).
     if extracted then
       io_bind (on_stream (io_catch (setstate failbit) (io_ret ())))
         (\<lambda>_ (s, t, x). if io_exceptions s AND failbit \<noteq> 0 then Some (Throw, (s, t, x)) else io_ret () (s, t, x))
         (s, t, extracted)
     else on_stream process_exception (s, t, extracted))"

definition is_extract_sbuf :: "('c, ('c, 'z) streambuf_scheme) vtable \<Rightarrow> ('c, ('c, 'y) streambuf_scheme) vtable \<Rightarrow>
    ('c \<Rightarrow> bool) \<Rightarrow> ('c, ('c, 'z) streambuf_scheme) ios \<Rightarrow> ('c, 'y) streambuf_scheme option \<Rightarrow>
    (unit outcome \<times> ('c, ('c, 'z) streambuf_scheme) ios \<times> ('c, 'y) streambuf_scheme option) option" where
  "is_extract_sbuf vt tt is_eof s to =
     (case sentry_init vt False s of
        None \<Rightarrow> None
      | Some (Throw, s) \<Rightarrow> Some (Throw, s, to)
      | Some (Ret ok, s) \<Rightarrow>
          (case (ok, to) of
             (True, Some t) \<Rightarrow>
               map_option (\<lambda>(r, s, t, _). (r, s, Some t)) (io_catch (extract_body vt tt is_eof) extract_failed (s, t, False))
           | _ \<Rightarrow> map_option (\<lambda>(r, s). (r, s, to)) (setstate failbit s)))"

section \<open>Reading from a string stream\<close>

text \<open>A good stream that does not throw, on a string buffer with the characters \<open>cs\<close> left.\<close>

definition reads :: "('c, 'c stringbuf) ios \<Rightarrow> 'c stringbuf \<Rightarrow> 'c list \<Rightarrow> bool" where
  "reads s f cs \<longleftrightarrow> good s \<and> io_exceptions s = goodbit \<and> io_sbuf s = Some f \<and> sbuf_ok f \<and> rest f = cs"

lemma reads_area:
  assumes "sbuf_ok f"
  shows "gend f - gcur f = length (rest f)" "get_slice n f = take n (rest f) \<or> length (rest f) < n"
    "gcur f = gend f \<longleftrightarrow> rest f = []"
proof -
  note a = sbuf_ok_areas [OF assms]
  show "gend f - gcur f = length (rest f)" using a by (simp add: rest_def min_absorb2)
  then show "gcur f = gend f \<longleftrightarrow> rest f = []" using a by (auto simp: rest_def)
  show "get_slice n f = take n (rest f) \<or> length (rest f) < n"
    using a by (auto simp: rest_def get_slice_def min_absorb2 drop_take min_def)
qed

lemma slice_take: "sbuf_ok f \<Longrightarrow> n \<le> length (rest f) \<Longrightarrow> get_slice n f = take n (rest f)"
  using reads_area(2) [of f n] by auto

definition state_set :: "iostate \<Rightarrow> ('c, 's) ios \<Rightarrow> ('c, 's) ios" where
  "state_set st s =
     (let s' = s\<lparr>io_state := io_state s OR st\<rparr>
      in if io_state s' = goodbit then unset_flag fl_os_good s' else set_flag fl_os_good s')"

lemma setstate_quiet:
  "io_exceptions s = goodbit \<Longrightarrow> io_sbuf s = Some b \<Longrightarrow> setstate st s = Some (Ret (), state_set st s)"
  by (simp add: setstate_def clear_def Let_def state_set_def goodbit_def)

lemma state_set_simps [simp]:
  "io_sbuf (state_set st s) = io_sbuf s" "io_gcount (state_set st s) = io_gcount s"
  "io_exceptions (state_set st s) = io_exceptions s" "ib_loc (state_set st s) = ib_loc s"
  "io_state (state_set st s) = io_state s OR st" "ib_width (state_set st s) = ib_width s"
  by (simp_all add: state_set_def Let_def set_flag_def unset_flag_def setf_def unsetf_def)

lemma sentry_ready:
  assumes "good s"
  shows "\<exists>fl. sentry_init vt True s = Some (Ret True, s\<lparr>io_flushed := fl\<rparr>)"
  using assms flush_tied_eq [of s] by (auto simp: sentry_init_def good_def)

lemma sgetc_string:
  assumes "sbuf_ok f"
  shows "sgetc (str_vt junk other) f = Some (Ret (case rest f of [] \<Rightarrow> None | c # _ \<Rightarrow> Some c), f)"
proof (cases "rest f")
  case Nil
  with reads_area(3) [OF assms] show ?thesis by (simp add: sgetc_def str_underflow_def)
next
  case (Cons c cs)
  with reads_area(3) [OF assms] sbuf_ok_areas(1) [OF assms] have "gcur f < gend f" by force
  with source.here(2) [OF assms this] Cons show ?thesis by (simp add: sgetc_def)
qed

lemma underflow_string:
  assumes "sbuf_ok f"
  shows "v_underflow (str_vt junk other) f = Some (Ret (case rest f of [] \<Rightarrow> None | c # _ \<Rightarrow> Some c), f)"
  using sgetc_string [OF assms, of junk other] by (cases "gcur f = gend f") (simp_all add: sgetc_def str_underflow_def)

lemma sbumpc_string:
  assumes "sbuf_ok f"
  shows "rest f = [] \<Longrightarrow> sbumpc (str_vt junk other) f = Some (Ret None, f)"
    "rest f = c # cs \<Longrightarrow> sbumpc (str_vt junk other) f = Some (Ret (Some c), f\<lparr>gcur := gcur f + 1\<rparr>)"
proof -
  note r = reads_area(3) [OF assms]
  show "sbumpc (str_vt junk other) f = Some (Ret None, f)" if "rest f = []"
    using that r by (simp add: sbumpc_def base_uflow_def str_underflow_def)
  show "sbumpc (str_vt junk other) f = Some (Ret (Some c), f\<lparr>gcur := gcur f + 1\<rparr>)" if "rest f = c # cs"
  proof -
    from that r sbuf_ok_areas(1) [OF assms] have "gcur f < gend f" by force
    with source.here(2) [OF assms this] that show ?thesis by (simp add: sbumpc_def)
  qed
qed

lemma bump_string:
  assumes "sbuf_ok f" "n \<le> length (rest f)"
  shows "sbuf_ok (f\<lparr>gcur := gcur f + n\<rparr>)" "rest (f\<lparr>gcur := gcur f + n\<rparr>) = drop n (rest f)"
proof -
  have "gcur f + n \<le> gend f" using reads_area(1) [OF assms(1)] sbuf_ok_areas(1) [OF assms(1)] assms(2) by linarith
  from sbuf_bump [OF assms(1) this] show "sbuf_ok (f\<lparr>gcur := gcur f + n\<rparr>)" "rest (f\<lparr>gcur := gcur f + n\<rparr>) = drop n (rest f)"
    by auto
qed

lemma same_sbuf [simp]: "io_sbuf s = Some f \<Longrightarrow> s\<lparr>io_sbuf := Some f\<rparr> = s"
  by (cases s) simp

lemma on_sbuf_string:
  assumes "io_sbuf s = Some f" "sbuf_ok f"
  shows "on_sbuf (sgetc (str_vt junk other)) s = Some (Ret (case rest f of [] \<Rightarrow> None | c # _ \<Rightarrow> Some c), s)"
    "on_sbuf (v_underflow (str_vt junk other)) s = Some (Ret (case rest f of [] \<Rightarrow> None | c # _ \<Rightarrow> Some c), s)"
  using assms sgetc_string [OF assms(2)] underflow_string [OF assms(2)] by (simp_all add: on_sbuf_def)

lemma io_bind_bool [simp]:
  "m s = Some (Ret False, s') \<Longrightarrow> io_bind m f s = f False s'" "m s = Some (Ret True, s') \<Longrightarrow> io_bind m f s = f True s'"
  by (simp_all add: io_bind_def)

lemma on_commit: "io_sbuf s = Some f \<Longrightarrow> on_sbuf (commit p) s = Some (Ret (), s\<lparr>io_sbuf := Some (f\<lparr>gcur := p\<rparr>)\<rparr>)"
  by (simp add: on_sbuf_def commit_def)

lemma append_chars_apply [simp]: "append_chars cs (s, acc) = Some (Ret (), (s, acc @ cs))"
  by (simp add: append_chars_def)

lemma set_gcount_apply [simp]: "set_gcount n s = Some (Ret (), s\<lparr>io_gcount := n\<rparr>)"
  by (simp add: set_gcount_def)

lemma on_stream_step: "m s = Some (r, s') \<Longrightarrow> on_stream m (s, acc) = Some (r, (s', acc))"
  by (simp add: on_stream_def)

subsection \<open>Lines\<close>

text \<open>
  What the functions return on a string: the characters stored, those left, the bits set and the count.
\<close>

definition getline_spec :: "nat \<Rightarrow> 'c \<Rightarrow> 'c list \<Rightarrow> 'c list \<times> 'c list \<times> iostate \<times> nat" where
  "getline_spec sz d cs =
     (let line = until d cs; m = sz - 1 in
      if m = 0 then ([], cs, failbit, 0)
      else if cs = [] then ([], [], failbit OR eofbit, 0)
      else if length line \<le> m \<and> line \<noteq> cs then (line, drop (length line + 1) cs, goodbit, length line + 1)
      else if length cs < m then (cs, [], eofbit, length cs)
      else (take m cs, drop m cs, failbit, m))"

definition get_spec :: "nat \<Rightarrow> 'c \<Rightarrow> 'c list \<Rightarrow> 'c list \<times> 'c list \<times> iostate \<times> nat" where
  "get_spec sz d cs =
     (let line = until d cs; m = sz - 1 in
      if m = 0 then ([], cs, failbit, 0)
      else if cs = [] then ([], [], failbit OR eofbit, 0)
      else if m \<le> length line then (take m cs, drop m cs, goodbit, m)
      else if line = cs then (cs, [], eofbit, length cs)
      else (line, drop (length line) cs, if line = [] then failbit else goodbit, length line))"

lemma until_take:
  "until d (take n cs) = take n (until d cs)"
  by (induction cs arbitrary: n) (auto simp: until_def take_Cons split: nat.splits)

lemma until_length: "length (until d cs) \<le> length cs" "until d cs = cs \<longleftrightarrow> length (until d cs) = length cs"
proof -
  show "length (until d cs) \<le> length cs" by (simp add: until_def length_takeWhile_le)
  show "until d cs = cs \<longleftrightarrow> length (until d cs) = length cs"
    using takeWhile_dropWhile_id [of "\<lambda>c. c \<noteq> d" cs] unfolding until_def
    by (metis append_Nil2 append_eq_conv_conj take_all order_refl)
qed

lemma until_next: "length (until d cs) < length cs \<Longrightarrow> cs ! length (until d cs) = d"
  unfolding until_def using nth_length_takeWhile [of "\<lambda>c. c \<noteq> d" cs] by simp

lemma getline_turn_area:
  assumes f: "io_sbuf s = Some f" "sbuf_ok f" "rest f = cs" "cs \<noteq> []" and room: "length acc < sz - 1"
  defines "mx \<equiv> min (length cs) (sz - 1 - length acc)"
  shows "getline_turn (str_vt junk other) sz d (s, acc) =
    (if length (until d cs) < mx
     then Some (Ret True, (s\<lparr>io_sbuf := Some (f\<lparr>gcur := gcur f + (length (until d cs) + 1)\<rparr>), io_gcount := 1\<rparr>, acc @ until d cs))
     else Some (Ret False, (s\<lparr>io_sbuf := Some (f\<lparr>gcur := gcur f + mx\<rparr>)\<rparr>, acc @ take mx cs)))"
proof -
  have m: "mx \<noteq> 0" "mx \<le> length cs" using f(4) room by (auto simp: mx_def)
  have slice: "get_slice mx f = take mx cs" using slice_take [OF f(2)] m(2) f(3) by simp
  have area: "min (gend f - gcur f) (sz - 1 - length acc) = mx" using reads_area(1) [OF f(2)] f(3) by (simp add: mx_def)
  have len: "length (until d (take mx cs)) = min mx (length (until d cs))" by (simp add: until_take)
  have eq: "getline_turn (str_vt junk other) sz d (s, acc) =
      io_bind (append_chars (until d (take mx cs))) (\<lambda>_.
         if length (until d (take mx cs)) < mx
         then io_bind (on_stream (on_sbuf (commit (gcur f + length (until d (take mx cs)) + 1))))
           (\<lambda>_. io_bind (on_stream (set_gcount 1)) (\<lambda>_. io_ret True))
         else io_bind (on_stream (on_sbuf (commit (gcur f + length (until d (take mx cs))))))
           (\<lambda>_. io_bind (on_stream (on_sbuf (v_underflow (str_vt junk other)))) (\<lambda>_. io_ret False))) (s, acc)"
    using m(1) by (simp only: getline_turn_def prod.case option.case f(1) Let_def area slice if_False)
  show ?thesis
  proof (cases "length (until d cs) < mx")
    case True
    then have "until d (take mx cs) = until d cs" by (simp add: until_take)
    with True f(1) show ?thesis
      by (simp add: eq on_stream_step on_commit)
  next
    case False
    then have t: "until d (take mx cs) = take mx cs"
      using until_length [of d "take mx cs"] len m(2) by simp
    let ?s = "s\<lparr>io_sbuf := Some (f\<lparr>gcur := gcur f + mx\<rparr>)\<rparr>"
    have "sbuf_ok (f\<lparr>gcur := gcur f + mx\<rparr>)" using bump_string [OF f(2)] m(2) f(3) by simp
    from on_sbuf_string(2) [of ?s, OF _ this, of junk other]
    have "\<exists>r. on_sbuf (v_underflow (str_vt junk other)) ?s = Some (Ret r, ?s)" by simp
    with False t f(1) m(2) show ?thesis
      by (auto simp: eq on_stream_step on_commit simp del: str_vt_simps)
  qed
qed

lemma getline_turn_end:
  assumes "io_sbuf s = Some f" "sbuf_ok f" "rest f = []" "io_exceptions s = goodbit"
  shows "getline_turn (str_vt junk other) sz d (s, acc) = Some (Ret True, (state_set eofbit s, acc))"
proof -
  have "gend f - gcur f = 0" using reads_area(1) [OF assms(2)] assms(3) by simp
  moreover have "on_sbuf (sbumpc (str_vt junk other)) s = Some (Ret None, s)"
    using assms sbumpc_string(1) [OF assms(2,3), of junk other] by (simp add: on_sbuf_def)
  ultimately show ?thesis
    using assms setstate_quiet [OF assms(4,1), of eofbit] by (simp add: getline_turn_def on_stream_step)
qed

lemma loop_on_simps:
  "turn st = Some (Ret True, st') \<Longrightarrow> loop_on sz turn st = Some (Ret Returned, st')"
  "turn st = Some (Ret False, st') \<Longrightarrow> length (snd st') = sz - 1 \<Longrightarrow> loop_on sz turn st = Some (Ret Full, st')"
  "turn st = Some (Ret False, st') \<Longrightarrow> length (snd st') \<noteq> sz - 1 \<Longrightarrow> loop_on sz turn st = loop_on sz turn st'"
proof -
  show "loop_on sz turn st = Some (Ret Returned, st')" if "turn st = Some (Ret True, st')"
    unfolding loop_on_def by (subst io_loop_step [where a' = Returned and s' = st']) (simp_all add: that)
  show "loop_on sz turn st = Some (Ret Full, st')" if "turn st = Some (Ret False, st')" "length (snd st') = sz - 1"
    unfolding loop_on_def by (subst io_loop_step [where a' = Full and s' = st']) (simp_all add: that)
  show "loop_on sz turn st = loop_on sz turn st'" if "turn st = Some (Ret False, st')" "length (snd st') \<noteq> sz - 1"
    unfolding loop_on_def using that by (subst io_loop_step [where a' = Go and s' = st']) simp_all
qed

text \<open>The effect on the buffer, the state and the count, for a function whose destructor has run.\<close>

definition line_read :: "('c, 'c stringbuf) ios \<Rightarrow> ('c, 'c stringbuf) ios \<Rightarrow> 'c list \<Rightarrow>
    'c list \<times> 'c list \<times> iostate \<times> nat \<Rightarrow> bool" where
  "line_read s s' acc = (\<lambda>(line, rst, st, n). acc = line \<and> io_state s' = io_state s OR st \<and> io_gcount s' = int n \<and>
     (\<exists>f'. io_sbuf s' = Some f' \<and> sbuf_ok f' \<and> rest f' = rst))"

lemma getline_end_full:
  assumes "io_sbuf s = Some f" "sbuf_ok f" "io_exceptions s = goodbit"
  shows "rest f = d # cs \<Longrightarrow> getline_end (str_vt junk other) d Full (s, acc) =
      Some (Ret (), (s\<lparr>io_sbuf := Some (f\<lparr>gcur := gcur f + 1\<rparr>), io_gcount := 1\<rparr>, acc))"
    "\<forall>cs. rest f \<noteq> d # cs \<Longrightarrow> getline_end (str_vt junk other) d Full (s, acc) = Some (Ret (), (state_set failbit s, acc))"
proof -
  let ?vt = "str_vt junk other"
  note get = on_sbuf_string(1) [OF assms(1,2), of junk other]
  show "getline_end ?vt d Full (s, acc) = Some (Ret (), (s\<lparr>io_sbuf := Some (f\<lparr>gcur := gcur f + 1\<rparr>), io_gcount := 1\<rparr>, acc))"
    if cons: "rest f = d # cs"
  proof -
    have "on_sbuf (sbumpc ?vt) s = Some (Ret (Some d), s\<lparr>io_sbuf := Some (f\<lparr>gcur := gcur f + 1\<rparr>)\<rparr>)"
      using sbumpc_string(2) [OF assms(2) cons, of junk other] assms(1) by (simp add: on_sbuf_def)
    with get cons show ?thesis by (simp add: getline_end_def on_stream_step)
  qed
  show "getline_end ?vt d Full (s, acc) = Some (Ret (), (state_set failbit s, acc))" if no: "\<forall>cs. rest f \<noteq> d # cs"
  proof -
    obtain r where r: "on_sbuf (sgetc ?vt) s = Some (Ret r, s)" "r \<noteq> Some d" using get no by (cases "rest f") auto
    then show ?thesis using setstate_quiet [OF assms(3,1), of failbit] by (simp add: getline_end_def on_stream_step)
  qed
qed

lemma until_own: "take (length (until d cs)) cs = until d cs"
  unfolding until_def by (rule takeWhile_eq_take [symmetric])

lemma until_drop:
  assumes "n \<le> length (until d cs)"
  shows "(\<exists>ds. drop n cs = d # ds) \<longleftrightarrow> length (until d cs) = n \<and> n < length cs"
proof
  assume "\<exists>ds. drop n cs = d # ds"
  then have n: "n < length cs" "cs ! n = d"
    by (auto simp: nth_via_drop intro: ccontr)
  moreover have "\<not> n < length (until d cs)"
  proof
    assume "n < length (until d cs)"
    then have "until d cs ! n \<noteq> d" "until d cs ! n = cs ! n"
      unfolding until_def using nth_mem [of n "takeWhile (\<lambda>c. c \<noteq> d) cs"] by (auto dest: set_takeWhileD simp: takeWhile_nth)
    with n(2) show False by simp
  qed
  ultimately show "length (until d cs) = n \<and> n < length cs" using assms by simp
next
  assume "length (until d cs) = n \<and> n < length cs"
  with until_next [of d cs] show "\<exists>ds. drop n cs = d # ds"
    using Cons_nth_drop_Suc [of n cs] by (intro exI [of _ "drop (Suc n) cs"]) auto
qed

text \<open>The loop with what follows it; the destructor adds the characters stored to the count.\<close>

lemma getline_loop:
  assumes f: "io_sbuf s = Some f" "sbuf_ok f" "rest f = cs" "cs \<noteq> []" and ex: "io_exceptions s = goodbit"
    and sz: "1 < sz" and g: "io_gcount s = 0"
  shows "\<exists>s' acc. io_bind (loop_on sz (getline_turn (str_vt junk other) sz d)) (getline_end (str_vt junk other) d) (s, []) =
      Some (Ret (), (s', acc)) \<and> line_read s (s'\<lparr>io_gcount := io_gcount s' + int (length acc)\<rparr>) acc (getline_spec sz d cs)"
proof -
  let ?vt = "str_vt junk other" let ?m = "sz - 1" let ?mx = "min (length cs) ?m" let ?line = "until d cs"
  let ?f = "f\<lparr>gcur := gcur f + ?mx\<rparr>" let ?s = "s\<lparr>io_sbuf := Some ?f\<rparr>"
  have m: "0 < ?m" using sz by simp
  note turn = getline_turn_area [OF f, of "[]" sz junk other d, simplified list.size diff_zero append_Nil, OF m]
  note bump = bump_string [OF f(2), unfolded f(3)] and le = until_length [of d cs]
  have ok: "sbuf_ok ?f" "rest ?f = drop ?mx cs" using bump [of ?mx] by simp_all
  consider "length ?line < ?mx" | "?m \<le> length ?line" | "length cs < ?m" "?line = cs" using le by linarith
  then show ?thesis
  proof cases
    case 1
    let ?s = "s\<lparr>io_sbuf := Some (f\<lparr>gcur := gcur f + (length ?line + 1)\<rparr>), io_gcount := 1\<rparr>"
    from 1 turn loop_on_simps(1) [of "getline_turn ?vt sz d" "(s, [])" "(?s, ?line)" sz]
    have "loop_on sz (getline_turn ?vt sz d) (s, []) = Some (Ret Returned, (?s, ?line))" by simp
    moreover have "getline_spec sz d cs = (?line, drop (length ?line + 1) cs, goodbit, length ?line + 1)"
      using 1 m f(4) le(2) by (auto simp: getline_spec_def Let_def)
    ultimately show ?thesis using 1 bump [of "length ?line + 1"]
      by (intro exI [of _ ?s] exI [of _ ?line]) (simp add: getline_end_def line_read_def goodbit_def)
  next
    case 2
    then have mx: "?mx = ?m" using le by simp
    have t: "loop_on sz (getline_turn ?vt sz d) (s, []) = Some (Ret Full, (?s, take ?m cs))"
      using turn 2 mx by (intro loop_on_simps(2)) simp_all
    note last = getline_end_full [of ?s ?f, OF _ ok(1)]
    show ?thesis
    proof (cases "length ?line = ?m \<and> ?m < length cs")
      case True
      with until_drop [OF 2] obtain ds where ds: "drop ?m cs = d # ds" by blast
      moreover from arg_cong [OF this, of tl] have "drop (Suc ?m) cs = ds" by (simp add: drop_Suc tl_drop)
      moreover have "take ?m cs = ?line" using until_own [of d cs] True by simp
      moreover have "getline_spec sz d cs = (?line, drop (length ?line + 1) cs, goodbit, length ?line + 1)"
        using True m f(4) le by (auto simp: getline_spec_def Let_def)
      moreover note bump_string [OF ok(1), of 1]
      ultimately show ?thesis using t last(1) ok(2) mx True ex by (simp add: line_read_def goodbit_def)
    next
      case False
      with until_drop [OF 2] have "\<forall>ds. rest ?f \<noteq> d # ds" using ok(2) mx by auto
      moreover have "getline_spec sz d cs = (take ?m cs, drop ?m cs, failbit, ?m)"
        using False 2 m f(4) le by (auto simp: getline_spec_def Let_def)
      ultimately show ?thesis using t last(2) ok mx ex g 2 le by (simp add: line_read_def)
    qed
  next
    case 3
    then have mx: "?mx = length cs" by simp
    have "loop_on sz (getline_turn ?vt sz d) (s, []) = loop_on sz (getline_turn ?vt sz d) (?s, cs)"
      using turn 3 mx by (intro loop_on_simps(3)) simp_all
    also have "\<dots> = Some (Ret Returned, (state_set eofbit ?s, cs))"
      using getline_turn_end [of ?s ?f junk other sz d cs, OF _ ok(1)] ok(2) ex mx by (intro loop_on_simps(1)) simp
    finally show ?thesis using 3 m f(4) g ok mx
      by (simp add: getline_end_def line_read_def getline_spec_def Let_def)
  qed
qed

lemma read_block_string:
  assumes "io_sbuf s = Some f" "sbuf_ok f" "io_exceptions s = goodbit"
  shows "read_block (str_vt junk other) sz body (s, acc) =
    (if sz = 1 then Some (Ret (), (state_set failbit s, acc))
     else if rest f = [] then Some (Ret (), (state_set (failbit OR eofbit) s, acc))
     else body (s, acc))"
  using on_sbuf_string(1) [OF assms(1,2), of junk other] setstate_quiet [OF assms(3,1)]
  by (cases "rest f") (simp_all add: read_block_def on_stream_step)

lemma getline_string:
  assumes "reads s f cs" "0 < sz"
  shows "\<exists>s' acc. getline (str_vt junk other) sz d (s, []) = Some (Ret (), (s', acc)) \<and>
    line_read s s' acc (getline_spec sz d cs)"
proof -
  let ?vt = "str_vt junk other"
  from assms(1) have f: "good s" "io_exceptions s = goodbit" "io_sbuf s = Some f" "sbuf_ok f" "rest f = cs"
    by (simp_all add: reads_def)
  from sentry_ready [OF f(1)] obtain fl where se: "sentry_init ?vt True s = Some (Ret True, s\<lparr>io_flushed := fl\<rparr>)" by blast
  define t where "t = s\<lparr>io_flushed := fl, io_gcount := 0\<rparr>"
  let ?body = "io_bind (loop_on sz (getline_turn ?vt sz d)) (getline_end ?vt d)"
  have t: "io_sbuf t = Some f" "io_exceptions t = goodbit" "io_gcount t = 0" "io_state t = io_state s"
    using f by (simp_all add: t_def)
  have "\<exists>s' acc. read_block ?vt sz ?body (t, []) = Some (Ret (), (s', acc)) \<and>
      line_read t (s'\<lparr>io_gcount := io_gcount s' + int (length acc)\<rparr>) acc (getline_spec sz d cs)"
  proof (cases "sz = 1 \<or> cs = []")
    case True
    then show ?thesis using t f assms(2) read_block_string [OF t(1) f(4) t(2), of junk other sz ?body "[]"]
      by (auto simp: line_read_def getline_spec_def Let_def)
  next
    case False
    with assms(2) getline_loop [OF t(1) f(4,5) _ t(2) _ t(3), of sz junk other d] f(5)
    show ?thesis using read_block_string [OF t(1) f(4) t(2), of junk other sz ?body "[]"] by simp
  qed
  then obtain s' acc where r: "read_block ?vt sz ?body (t, []) = Some (Ret (), (s', acc))"
    "line_read t (s'\<lparr>io_gcount := io_gcount s' + int (length acc)\<rparr>) acc (getline_spec sz d cs)" by blast
  have "getline ?vt sz d (s, []) = Some (Ret (), (s'\<lparr>io_gcount := io_gcount s' + int (length acc)\<rparr>, acc))"
    using assms(2) se r(1) by (simp add: getline_def on_stream_step with_finish_def io_catch_def t_def)
  with r(2) t(4) show ?thesis by (auto simp: line_read_def)
qed

subsection \<open>Lines without the delimiter\<close>

lemma get_turn_area:
  fixes d :: 'c and s :: "('c, 'c stringbuf) ios"
  assumes f: "io_sbuf s = Some f" "sbuf_ok f" "rest f = cs" "cs \<noteq> []" and sz: "1 < sz" and ex: "io_exceptions s = goodbit"
  defines "mx \<equiv> min (length cs) (sz - 1)"
  defines "s' \<equiv> s\<lparr>io_sbuf := Some (f\<lparr>gcur := gcur f + length (until d (take mx cs))\<rparr>)\<rparr>"
  shows "get_turn (str_vt junk other) sz d (s, []) =
    (if length (until d cs) < mx
     then Some (Ret True, (if until d cs = [] then state_set failbit s' else s', until d cs))
     else Some (Ret False, (s', take mx cs)))"
proof -
  have m: "mx \<noteq> 0" "mx \<le> length cs" using f(4) sz by (auto simp: mx_def)
  have slice: "get_slice mx f = take mx cs" using slice_take [OF f(2)] m(2) f(3) by simp
  have area: "min (gend f - gcur f) (sz - 1 - length []) = mx" using reads_area(1) [OF f(2)] f(3) by (simp add: mx_def)
  have "length (until d (take mx cs)) \<le> length (rest f)" using until_length(1) [of d "take mx cs"] m(2) f(3) by simp
  note ok = bump_string(1) [OF f(2) this]
  note step = on_commit [OF f(1), of "gcur f + length (until d (take mx cs))"]
  have eq: "get_turn (str_vt junk other) sz d (s, []) =
      (if length (until d (take mx cs)) < mx
       then io_bind (if until d (take mx cs) = [] then on_stream (setstate failbit) else io_ret ()) (\<lambda>_. io_ret True)
       else io_bind (on_stream (on_sbuf (v_underflow (str_vt junk other)))) (\<lambda>_. io_ret False)) (s', until d (take mx cs))"
    using m(1) step by (simp add: get_turn_def f(1) Let_def area [simplified] slice on_stream_step s'_def del: str_vt_simps)
  show ?thesis
  proof (cases "length (until d cs) < mx")
    case True
    then have "until d (take mx cs) = until d cs" by (simp add: until_take)
    moreover have "setstate failbit s' = Some (Ret (), state_set failbit s')"
      by (rule setstate_quiet) (simp_all add: s'_def ex)
    ultimately show ?thesis using True by (simp add: eq on_stream_step)
  next
    case False
    then have t: "until d (take mx cs) = take mx cs" using until_length [of d "take mx cs"] m(2) by (simp add: until_take)
    obtain r where "on_sbuf (v_underflow (str_vt junk other)) s' = Some (Ret r, s')"
      using on_sbuf_string(2) [of s', OF _ ok, of junk other] by (simp add: s'_def)
    with False t m(2) show ?thesis by (simp add: eq on_stream_step del: str_vt_simps)
  qed
qed

lemma get_turn_end:
  assumes "io_sbuf s = Some f" "sbuf_ok f" "rest f = []" "io_exceptions s = goodbit"
  shows "get_turn (str_vt junk other) sz d (s, acc) = Some (Ret True, (state_set eofbit s, acc))"
proof -
  have "gend f - gcur f = 0" using reads_area(1) [OF assms(2)] assms(3) by simp
  with assms setstate_quiet [OF assms(4,1), of eofbit] on_sbuf_string(2) [OF assms(1,2), of junk other] show ?thesis
    by (simp add: get_turn_def on_stream_step)
qed

lemma get_loop:
  assumes f: "io_sbuf s = Some f" "sbuf_ok f" "rest f = cs" "cs \<noteq> []" and ex: "io_exceptions s = goodbit" and sz: "1 < sz"
  shows "\<exists>s' acc p. loop_on sz (get_turn (str_vt junk other) sz d) (s, []) = Some (Ret p, (s', acc)) \<and>
      line_read s (s'\<lparr>io_gcount := int (length acc)\<rparr>) acc (get_spec sz d cs)"
proof -
  let ?vt = "str_vt junk other" let ?mx = "min (length cs) (sz - 1)" let ?line = "until d cs"
  let ?t = "\<lambda>n. s\<lparr>io_sbuf := Some (f\<lparr>gcur := gcur f + n\<rparr>)\<rparr>"
  note turn = get_turn_area [OF f sz ex, where d = d and junk = junk and other = other] and bump = bump_string [OF f(2), unfolded f(3)]
  note le = until_length [of d cs]
  have cut: "until d (take ?mx cs) = take ?mx ?line" by (rule until_take)
  consider "length ?line < ?mx" | "sz - 1 \<le> length ?line" | "length cs < sz - 1" "?line = cs" using le by linarith
  then show ?thesis
  proof cases
    case 1
    then have "loop_on sz (get_turn ?vt sz d) (s, []) =
        Some (Ret Returned, (if ?line = [] then state_set failbit (?t (length ?line)) else ?t (length ?line), ?line))"
      using turn cut by (intro loop_on_simps(1)) simp
    moreover have "get_spec sz d cs = (?line, drop (length ?line) cs, if ?line = [] then failbit else goodbit, length ?line)"
      using 1 sz f(4) le(2) by (auto simp: get_spec_def Let_def)
    ultimately show ?thesis using bump [of "length ?line"] le(1) by (auto simp: line_read_def goodbit_def)
  next
    case 2
    then have "loop_on sz (get_turn ?vt sz d) (s, []) = Some (Ret Full, (?t (sz - 1), take (sz - 1) cs))"
      using turn cut le by (intro loop_on_simps(2)) (simp_all add: min_absorb2)
    moreover have "get_spec sz d cs = (take (sz - 1) cs, drop (sz - 1) cs, goodbit, sz - 1)"
      using 2 sz f(4) by (simp add: get_spec_def Let_def)
    ultimately show ?thesis using bump [of "sz - 1"] le(1) 2 by (auto simp: line_read_def goodbit_def)
  next
    case 3
    then have "loop_on sz (get_turn ?vt sz d) (s, []) = loop_on sz (get_turn ?vt sz d) (?t (length cs), cs)"
      using turn cut by (intro loop_on_simps(3)) (simp_all add: min_absorb1)
    also have "\<dots> = Some (Ret Returned, (state_set eofbit (?t (length cs)), cs))"
      using get_turn_end [of "?t (length cs)", OF _ bump(1)] bump(2) [of "length cs"] ex by (intro loop_on_simps(1)) simp
    finally show ?thesis using 3 sz f(4) bump [of "length cs"] by (auto simp: line_read_def get_spec_def Let_def)
  qed
qed

lemma get_array_string:
  assumes "reads s f cs" "0 < sz"
  shows "\<exists>s' acc. is_get_array (str_vt junk other) sz d (s, []) = Some (Ret (), (s', acc)) \<and>
    line_read s s' acc (get_spec sz d cs)"
proof -
  let ?vt = "str_vt junk other"
  from assms(1) have f: "good s" "io_exceptions s = goodbit" "io_sbuf s = Some f" "sbuf_ok f" "rest f = cs"
    by (simp_all add: reads_def)
  from sentry_ready [OF f(1)] obtain fl where se: "sentry_init ?vt True s = Some (Ret True, s\<lparr>io_flushed := fl\<rparr>)" by blast
  define t where "t = s\<lparr>io_flushed := fl\<rparr>"
  let ?body = "io_bind (loop_on sz (get_turn ?vt sz d)) (\<lambda>_. io_ret ())"
  have t: "io_sbuf t = Some f" "io_exceptions t = goodbit" "io_state t = io_state s" using f by (simp_all add: t_def)
  have "\<exists>s' acc. read_block ?vt sz ?body (t, []) = Some (Ret (), (s', acc)) \<and>
      line_read t (s'\<lparr>io_gcount := int (length acc)\<rparr>) acc (get_spec sz d cs)"
  proof (cases "sz = 1 \<or> cs = []")
    case True
    then show ?thesis using t f assms(2) read_block_string [OF t(1) f(4) t(2), of junk other sz ?body "[]"]
      by (auto simp: line_read_def get_spec_def Let_def)
  next
    case False
    then have "cs \<noteq> []" "1 < sz" using assms(2) by auto
    from get_loop [OF t(1) f(4,5) this(1) t(2) this(2), of junk other d] False
      read_block_string [OF t(1) f(4) t(2), of junk other sz ?body "[]"] f(5)
    show ?thesis by (auto simp: io_bind_def)
  qed
  then obtain s' acc where r: "read_block ?vt sz ?body (t, []) = Some (Ret (), (s', acc))"
    "line_read t (s'\<lparr>io_gcount := int (length acc)\<rparr>) acc (get_spec sz d cs)" by blast
  have "is_get_array ?vt sz d (s, []) = Some (Ret (), (s'\<lparr>io_gcount := int (length acc)\<rparr>, acc))"
    using assms(2) se r(1) by (simp add: is_get_array_def on_stream_step with_finish_def io_catch_def t_def)
  with r(2) t(3) show ?thesis by (auto simp: line_read_def)
qed

text \<open>
  C25: \<^verbatim>\<open>getline\<close> and \<^verbatim>\<open>get\<close> into an array of any size return, on a good stream over a string with any characters
  left. They store the characters up to the delimiter, up to the end of the input or as many as the array holds, and set exactly the bits for these cases.
  \<^verbatim>\<open>getline\<close> takes the delimiter and counts it, and fails when the array is full without a delimiter behind it, also if
  that is where the input ends; \<^verbatim>\<open>get\<close> leaves the delimiter and fails when there is nothing in front of it.
\<close>

theorem lines_read:
  assumes "reads s f cs" "0 < sz"
  shows "(\<exists>s' acc. getline (str_vt junk other) sz d (s, []) = Some (Ret (), (s', acc)) \<and>
      line_read s s' acc (getline_spec sz d cs)) \<and>
    (\<exists>s' acc. is_get_array (str_vt junk other) sz d (s, []) = Some (Ret (), (s', acc)) \<and>
      line_read s s' acc (get_spec sz d cs))"
  using getline_string [OF assms] get_array_string [OF assms] by blast

lemma new_reads: "reads (ios_new loc (Some (stringbuf_new cs om_in)) zero) (stringbuf_new cs om_in) cs"
  by (simp add: reads_def ios_new_def ios_init_def good_def new_string_source Let_def goodbit_def)

text \<open>An array of four characters holds the line; one of three is full when the input ends.\<close>

theorem lines_read_witness:
  "(\<exists>s acc. getline (str_vt (\<lambda>_. CHR ''?'') CHR ''!'') 4 CHR '';''
       (ios_new (plain_facets []) (Some (stringbuf_new ''ab;c'' om_in)) CHR 0x00, []) = Some (Ret (), (s, acc)) \<and>
      acc = ''ab'' \<and> io_state s = goodbit \<and> io_gcount s = 3) \<and>
   (\<exists>s acc. getline (str_vt (\<lambda>_. CHR ''?'') CHR ''!'') 3 CHR '';''
       (ios_new (plain_facets []) (Some (stringbuf_new ''ab'' om_in)) CHR 0x00, []) = Some (Ret (), (s, acc)) \<and>
      acc = ''ab'' \<and> io_state s = failbit \<and> io_gcount s = 2)"
proof -
  have good: "io_state (ios_new (plain_facets []) (Some b) CHR 0x00) = goodbit" for b :: "char stringbuf"
    by (simp add: ios_new_def ios_init_def Let_def)
  from lines_read [OF new_reads, of 4 "\<lambda>_. CHR ''?''" "CHR ''!''" "CHR '';''" "plain_facets []" "''ab;c''" "CHR 0x00"]
    lines_read [OF new_reads, of 3 "\<lambda>_. CHR ''?''" "CHR ''!''" "CHR '';''" "plain_facets []" "''ab''" "CHR 0x00"]
  show ?thesis by (auto simp: line_read_def getline_spec_def until_def good goodbit_def Let_def)
qed

end
