(* ===== verification/Ostream_Text.thy ===== *)
theory Ostream_Text
  imports Ostream
begin

text \<open>
  What a sequence of insertions writes. A program inserts numbers, truth values, characters and
  strings into an output stream, sets the width and gives it manipulators; the text of every item is
  defined here from the format flags and the width alone, without the stream and its buffer, and the
  stream is shown to write these texts one after the other.
\<close>

unbundle bit_operations_syntax

section \<open>Items\<close>

datatype manip = Boolalpha bool | Showbase bool | Showpos bool | Unitbuf bool | Uppercase bool
  | Dec | Oct | Hex | Left | Right | Internal

text \<open>The manipulators of \<^verbatim>\<open>cxxrt/ios_base.h\<close>; the argument distinguishes a manipulator and its opposite.\<close>

fun manip_op :: "manip \<Rightarrow> ('l, 'z) iosb_scheme \<Rightarrow> ('l, 'z) iosb_scheme" where
  "manip_op (Boolalpha on) = (if on then set_flag fl_boolalpha else unset_flag fl_boolalpha)"
| "manip_op (Showbase on) = (if on then set_flag fl_showbase else unset_flag fl_showbase)"
| "manip_op (Showpos on) = (if on then set_flag fl_showpos else unset_flag fl_showpos)"
| "manip_op (Unitbuf on) = (if on then set_flag fl_unitbuf else unset_flag fl_unitbuf)"
| "manip_op (Uppercase on) = (if on then set_flag fl_uppercase else unset_flag fl_uppercase)"
| "manip_op Dec = set_field fl_dec fl_basefield"
| "manip_op Oct = set_field fl_oct fl_basefield"
| "manip_op Hex = set_field fl_hex fl_basefield"
| "manip_op Left = set_field fl_left fl_adjustfield"
| "manip_op Right = set_field fl_right fl_adjustfield"
| "manip_op Internal = set_field fl_internal fl_adjustfield"

datatype 'c item =
  Long ulong | Ulong ulong | Pointer ulong | Bool bool | Char 'c | Text "'c list" | Setw int | Manip manip

fun put_item :: "('c, ('c, 'z) streambuf_scheme) vtable \<Rightarrow> 'c list \<Rightarrow> 'c item \<Rightarrow>
    ('c, ('c, 'z) streambuf_scheme, unit) stream_op" where
  "put_item vt null (Long v) = os_long vt v"
| "put_item vt null (Ulong v) = os_ulong vt v"
| "put_item vt null (Pointer v) = os_pointer vt v"
| "put_item vt null (Bool b) = os_bool vt b"
| "put_item vt null (Char c) = os_char vt c"
| "put_item vt null (Text cs) = os_string vt null (Some cs)"
| "put_item vt null (Setw w) = io_mod (\<lambda>s. snd (width_set w s))"
| "put_item vt null (Manip m) = os_manip (io_mod (manip_op m))"

text \<open>
  What can be inserted without leaving defined behaviour and the range of \<^verbatim>\<open>int\<close>: not the smallest
  \<^verbatim>\<open>long\<close>, which is negated to be printed, and no negative width.
\<close>

fun item_ok :: "'c item \<Rightarrow> bool" where
  "item_ok (Long v) = (v \<noteq> long_min)"
| "item_ok (Setw w) = (0 \<le> w)"
| "item_ok _ = True"

fun put_items :: "('c, ('c, 'z) streambuf_scheme) vtable \<Rightarrow> 'c list \<Rightarrow> 'c item list \<Rightarrow>
    ('c, ('c, 'z) streambuf_scheme, unit) stream_op" where
  "put_items vt null [] = io_ret ()"
| "put_items vt null (it # its) = io_bind (put_item vt null it) (\<lambda>_. put_items vt null its)"

section \<open>Their text\<close>

text \<open>
  A number: prefix and digits, padded in front, behind, or between the two as the flags ask.
\<close>

definition number_text :: "'c facets \<Rightarrow> 'c \<Rightarrow> fmtflags \<Rightarrow> int \<Rightarrow> 'c list \<Rightarrow> bool \<Rightarrow> ulong \<Rightarrow> 'c list" where
  "number_text loc fill fmt w cvt sg v =
     (let pre = prefix_text (fmt_base fmt) fmt v (is_negative sg fmt v);
          ds = digit_text (unat (fmt_base fmt)) (m_grouping (lf_cache loc)) (unat (magnitude sg fmt v));
          adj = fmt AND fl_adjustfield
      in padded w fill (map ((!) cvt) (pre @ ds))
           (if adj = fl_left then 0
            else if adj = fl_internal then if fmt_base fmt \<noteq> 8 then length ds else 0
            else length (pre @ ds)))"

definition table_of :: "'c facets \<Rightarrow> fmtflags \<Rightarrow> 'c list" where
  "table_of loc f = (if f AND fl_uppercase \<noteq> 0 then m_upper_table (lf_cache loc) else m_lower_table (lf_cache loc))"

fun item_text :: "'c facets \<Rightarrow> 'c \<Rightarrow> fmtflags \<Rightarrow> int \<Rightarrow> 'c item \<Rightarrow> 'c list" where
  "item_text loc fill f w (Long v) = number_text loc fill f w (table_of loc f) True v"
| "item_text loc fill f w (Ulong v) = number_text loc fill f w (table_of loc f) False v"
| "item_text loc fill f w (Pointer v) =
     number_text loc fill ((f AND fl_not fl_basefield) OR fl_hex) w (table_of loc f) True v"
| "item_text loc fill f w (Bool b) =
     (if f AND fl_boolalpha = 0 then number_text loc fill f w (table_of loc f) True (if b then 1 else 0)
      else adjusted f w fill (if b then np_truename (lf_numpunct loc) else np_falsename (lf_numpunct loc)))"
| "item_text loc fill f w (Char c) = adjusted f w fill [c]"
| "item_text loc fill f w (Text cs) = adjusted f w fill cs"
| "item_text loc fill f w (Setw w') = []"
| "item_text loc fill f w (Manip m) = []"

text \<open>The flags and the width behind the item: what is written uses up the width.\<close>

definition with_flag :: "bool \<Rightarrow> fmtflags \<Rightarrow> fmtflags \<Rightarrow> fmtflags" where
  "with_flag on m f = (if on then f OR m else f AND fl_not m)"

fun manip_flags :: "manip \<Rightarrow> fmtflags \<Rightarrow> fmtflags" where
  "manip_flags (Boolalpha on) f = with_flag on fl_boolalpha f"
| "manip_flags (Showbase on) f = with_flag on fl_showbase f"
| "manip_flags (Showpos on) f = with_flag on fl_showpos f"
| "manip_flags (Unitbuf on) f = with_flag on fl_unitbuf f"
| "manip_flags (Uppercase on) f = with_flag on fl_uppercase f"
| "manip_flags Dec f = (f AND fl_not fl_basefield) OR fl_dec"
| "manip_flags Oct f = (f AND fl_not fl_basefield) OR fl_oct"
| "manip_flags Hex f = (f AND fl_not fl_basefield) OR fl_hex"
| "manip_flags Left f = (f AND fl_not fl_adjustfield) OR fl_left"
| "manip_flags Right f = (f AND fl_not fl_adjustfield) OR fl_right"
| "manip_flags Internal f = (f AND fl_not fl_adjustfield) OR fl_internal"

fun item_next :: "fmtflags \<Rightarrow> int \<Rightarrow> 'c item \<Rightarrow> fmtflags \<times> int" where
  "item_next f w (Setw w') = (f, w')"
| "item_next f w (Manip m) = (manip_flags m f, w)"
| "item_next f w _ = (f, 0)"

fun items_text :: "'c facets \<Rightarrow> 'c \<Rightarrow> fmtflags \<Rightarrow> int \<Rightarrow> 'c item list \<Rightarrow> 'c list" where
  "items_text loc fill f w [] = []"
| "items_text loc fill f w (it # its) =
     item_text loc fill f w it @ (let (f, w) = item_next f w it in items_text loc fill f w its)"

definition items_next :: "fmtflags \<Rightarrow> int \<Rightarrow> 'c item list \<Rightarrow> fmtflags \<times> int" where
  "items_next f w its = foldl (\<lambda>(f, w). item_next f w) (f, w) its"

section \<open>The flags\<close>

definition base_ok :: "fmtflags \<Rightarrow> bool" where
  "base_ok f \<longleftrightarrow> f AND fl_basefield = fl_oct \<or> f AND fl_basefield = fl_dec \<or> f AND fl_basefield = fl_hex"

lemma base_ok_base: "base_ok f \<Longrightarrow> 8 \<le> unat (fmt_base f)"
  by (auto simp: base_ok_def fmt_base_def Let_def fl_oct_def fl_dec_def fl_hex_def)

lemma base_ok_hex: "base_ok ((f AND fl_not fl_basefield) OR fl_hex)"
  by (simp add: base_ok_def bit.conj_disj_distrib2 and.assoc fl_not_def flag_defs)

lemma hex_not_negative: "\<not> is_negative sg ((f AND fl_not fl_basefield) OR fl_hex) v"
proof -
  have "((f AND fl_not fl_basefield) OR fl_hex) AND fl_basefield = fl_hex"
    by (simp add: bit.conj_disj_distrib2 and.assoc fl_not_def flag_defs)
  then have "fmt_base ((f AND fl_not fl_basefield) OR fl_hex) = 16" by (simp add: fmt_base_def Let_def fl_hex_def)
  then show ?thesis by (simp add: is_negative_def)
qed

lemma manip_flags_get: "flags_get (manip_op m s) = manip_flags m (flags_get s)"
  by (cases m) (simp_all add: flags_get_def set_flag_def unset_flag_def set_field_def setf_def unsetf_def
    setf_mask_def with_flag_def bit.conj_disj_distrib2 flag_defs and.assoc and.commute [of "fl_not _"])

lemma base_ok_manip: "base_ok f \<Longrightarrow> base_ok (manip_flags m f)"
  by (cases m) (auto simp: base_ok_def with_flag_def bit.conj_disj_distrib2 and.assoc fl_not_def flag_defs)

lemma manip_op_keeps:
  fixes s :: "('c, 's) ios"
  shows "io_sbuf (manip_op m s) = io_sbuf s" "ib_loc (manip_op m s) = ib_loc s"
    "io_fill (manip_op m s) = io_fill s" "ib_width (manip_op m s) = ib_width s"
    "good (manip_op m s) = good s" "io_exceptions (manip_op m s) = io_exceptions s"
  by (cases m; simp add: set_flag_def unset_flag_def set_field_def setf_def unsetf_def setf_mask_def good_def)+

section \<open>What is written\<close>

text \<open>The part of the stream the text of the items depends on.\<close>

definition writes_as :: "'c facets \<Rightarrow> 'c \<Rightarrow> fmtflags \<Rightarrow> int \<Rightarrow> ('c, 's) ios \<Rightarrow> bool" where
  "writes_as loc fill f w s \<longleftrightarrow> good s \<and> io_exceptions s = goodbit \<and> ib_loc s = loc \<and> io_fill s = fill \<and>
     flags_get s = f \<and> ib_width s = w"

definition grouping_ok :: "'c facets \<Rightarrow> bool" where
  "grouping_ok loc \<longleftrightarrow> m_grouping (lf_cache loc) = [] \<or> m_grouping (lf_cache loc) ! 0 \<noteq> 0"

lemma wrote_writes_as:
  assumes "wrote I A P cs s s'" and "writes_as loc fill f w s" and "io_sbuf s = Some b"
  shows "\<exists>b'. writes_as loc fill f 0 s' \<and> io_sbuf s' = Some b' \<and> I b' \<and> A b' = fold P cs (A b)"
  using assms by (auto simp: wrote_def writes_as_def good_def flags_get_def)

lemma format_number:
  assumes "grouping_ok loc" and "base_ok fmt" and "\<not> (is_negative sg fmt v \<and> v = long_min)"
  shows "\<exists>out fp. cs_format fmt (m_grouping (lf_cache loc)) sg v cvt = Some (out, fp) \<and> length out \<le> 64 \<and>
    padded w fill out fp = number_text loc fill fmt w cvt sg v"
proof -
  from cs_format_length [OF base_ok_base [OF assms(2)] assms(3)] obtain out fp where
    o: "cs_format fmt (m_grouping (lf_cache loc)) sg v cvt = Some (out, fp)" "length out \<le> 46" by metis
  with cs_format_text [of "m_grouping (lf_cache loc)" sg fmt v cvt] assms(1,3)
  have "padded w fill out fp = number_text loc fill fmt w cvt sg v"
    by (auto simp: grouping_ok_def number_text_def Let_def)
  with o show ?thesis by simp
qed

context stream_sink
begin

lemma item_writes:
  assumes w: "writes_as loc fill f w s" and b: "io_sbuf s = Some b" "inv b"
    and ok: "grouping_ok loc" "base_ok f" and nx: "item_next f w it = (f', w')"
    and it: "item_ok it" "0 \<le> w" and fit: "fits (fold put (item_text loc fill f w it) (abs b))"
  shows "\<exists>s' b'. put_item vt null it s = Some (Ret (), s') \<and> writes_as loc fill f' w' s' \<and> base_ok f' \<and> 0 \<le> w' \<and>
    io_sbuf s' = Some b' \<and> inv b' \<and> abs b' = fold put (item_text loc fill f w it) (abs b)"
proof -
  have g: "good s" and fs: "flags_get s = f" "ib_width s = w" "io_fill s = fill" "ib_loc s = loc"
    "digit_chars s = table_of loc f"
    using w by (auto simp: writes_as_def digit_chars_def table_of_def)
  have written: ?thesis if "f' = f" "w' = 0"
    and "\<exists>s'. put_item vt null it s = Some (Ret (), s') \<and> wrote inv abs put (item_text loc fill f w it) s s'"
    using that ok(2) wrote_writes_as [OF _ w b(1)] by blast
  have number: "\<exists>s'. cs_print vt (new_num_put vt fm v) s = Some (Ret (), s') \<and>
      wrote inv abs put (number_text loc fill fmt w (table_of loc f) sg v) s s'"
    if "fm f (m_grouping (lf_cache loc)) v (table_of loc f) =
        cs_format fmt (m_grouping (lf_cache loc)) sg v (table_of loc f)" "base_ok fmt" "\<not> (is_negative sg fmt v \<and> v = long_min)"
      "fits (fold put (number_text loc fill fmt w (table_of loc f) sg v) (abs b))" for fm fmt sg v
  proof -
    from format_number [OF ok(1) that(2,3), of "table_of loc f" w fill] obtain out fp where
      "cs_format fmt (m_grouping (lf_cache loc)) sg v (table_of loc f) = Some (out, fp)" "length out \<le> 64"
      "padded w fill out fp = number_text loc fill fmt w (table_of loc f) sg v" by blast
    with num_put_writes [OF g b, of fm v out fp] that(1,4) it(2) fs show ?thesis by simp
  qed
  show ?thesis
  proof (cases it)
    case (Long v)
    with number [of do_num_put_long v f True] ok nx it fit show ?thesis
      by (intro written) (simp_all add: os_long_def do_put_long_def do_num_put_long_def)
  next
    case (Ulong v)
    with number [of do_num_put_ulong v f False] ok nx fit show ?thesis
      by (intro written) (simp_all add: os_ulong_def do_put_ulong_def do_num_put_ulong_def is_negative_def)
  next
    case (Pointer v)
    with number [of do_num_put_pointer v "(f AND fl_not fl_basefield) OR fl_hex" True] base_ok_hex hex_not_negative nx fit
    show ?thesis by (intro written) (simp_all add: os_pointer_def do_put_pointer_def do_num_put_pointer_def)
  next
    case (Bool v)
    show ?thesis
    proof (cases "f AND fl_boolalpha = 0")
      case True
      have "(if v then 1 else 0) \<noteq> long_min" by (simp add: long_min_def)
      with format_number [OF ok, of True "if v then 1 else 0" "table_of loc f" w fill] obtain out fp where
        "cs_format f (m_grouping (lf_cache loc)) True (if v then 1 else 0) (table_of loc f) = Some (out, fp)"
        "length out \<le> 64" "padded w fill out fp = number_text loc fill f w (table_of loc f) True (if v then 1 else 0)"
        by blast
      with os_bool_number_writes [OF b g, of v out fp] fs True Bool nx it fit show ?thesis
        by (intro written) (simp_all add: do_num_put_long_def)
    next
      case False
      with os_bool_writes [OF b g, of v] fs Bool nx it fit show ?thesis by (cases v; intro written) simp_all
    qed
  next
    case (Char c)
    with os_char_writes [OF b g, of c] fs nx fit show ?thesis by (intro written) simp_all
  next
    case (Text cs)
    with os_string_writes [OF b g, of null "Some cs"] fs nx fit show ?thesis by (intro written) simp_all
  next
    case (Setw v)
    with w b ok nx it show ?thesis by (auto simp: writes_as_def width_set_def good_def flags_get_def)
  next
    case (Manip m)
    with w b ok nx it manip_op_keeps [of m s] manip_flags_get [of m s] base_ok_manip [OF ok(2), of m]
    show ?thesis by (auto simp: writes_as_def os_manip_def)
  qed
qed

lemma items_write:
  assumes "writes_as loc fill f w s" "io_sbuf s = Some b" "inv b" "grouping_ok loc" "base_ok f"
    and "list_all item_ok its" "0 \<le> w" "fits (fold put (items_text loc fill f w its) (abs b))"
  shows "\<exists>s' b'. put_items vt null its s = Some (Ret (), s') \<and> io_sbuf s' = Some b' \<and> inv b' \<and>
    abs b' = fold put (items_text loc fill f w its) (abs b) \<and>
    writes_as loc fill (fst (items_next f w its)) (snd (items_next f w its)) s'"
  using assms
proof (induction its arbitrary: s b f w)
  case Nil
  then show ?case by (simp add: items_next_def)
next
  case (Cons it its)
  obtain f' w' where nx: "item_next f w it = (f', w')" by (cases "item_next f w it")
  have fit: "fits (fold put (items_text loc fill f' w' its) (fold put (item_text loc fill f w it) (abs b)))"
    using Cons.prems(8) nx by simp
  have it: "item_ok it" using Cons.prems(6) by simp
  from item_writes [OF Cons.prems(1-5) nx it Cons.prems(7) fits_part [OF fit], of null] obtain s1 b1 where
    1: "put_item vt null it s = Some (Ret (), s1)" "writes_as loc fill f' w' s1" "base_ok f'" "0 \<le> w'"
      "io_sbuf s1 = Some b1" "inv b1" "abs b1 = fold put (item_text loc fill f w it) (abs b)" by blast
  from Cons.IH [OF 1(2,5,6) Cons.prems(4) 1(3) _ 1(4)] fit Cons.prems(6) 1(1,7) nx show ?case by (simp add: items_next_def)
qed

end

section \<open>Output to a string stream\<close>

lemma fold_spec_put: "fold spec_put cs (m, xs, r, length xs) = (m, xs @ cs, r, length xs + length cs)"
proof (induction cs arbitrary: xs)
  case (Cons c cs)
  from Cons [of "xs @ [c]"] show ?case by (simp add: spec_put_def)
qed simp

lemma fits_string: "str_fits (fold spec_put cs (om_out, [], 0, 0)) \<longleftrightarrow> length cs < 2 ^ 31"
  using fold_spec_put [of cs om_out "[]" 0] by (simp add: str_fits_def)

lemma new_string_sink:
  "writable (stringbuf_new [] om_out)" "sbuf_abs (stringbuf_new [] om_out) = (om_out, [], 0, 0)"
  by (simp_all add: writable_def sbuf_ok_def sbuf_abs_def content_def content_length_def stringbuf_new_def
    set_areas_def has_in_def has_out_def om_in_def om_out_def Let_def area_defs)

lemma spec_put_content:
  assumes "sbuf_ok b" "sbuf_abs b = fold spec_put cs (om_out, [], 0, 0)"
  shows "str_get b = cs"
  using assms fold_spec_put [of cs om_out "[]" 0] by (simp add: str_get_content sbuf_abs_def)

lemma new_string_stream:
  "writes_as loc (lf_widen loc CHR '' '') (fl_dec OR fl_skipws) 0 (ios_new loc (Some b) zero)"
  "io_sbuf (ios_new loc (Some b) zero) = Some b"
  by (simp_all add: writes_as_def ios_new_def ios_init_def good_def flags_get_def flag_defs Let_def)

text \<open>
  C17: A new output string stream given any sequence of numbers, truth values, characters, strings,
  widths and manipulators ends up good and holds exactly the concatenation of the texts of the items,
  in the locale of the stream, for every grouping that does not start with a zero. The widths set are not negative,
  the smallest value of \<^verbatim>\<open>long\<close> is not among the numbers, and the text, fill characters included, has
  fewer than \<open>2 ^ 31\<close> characters.
\<close>

theorem string_stream_text:
  assumes "grouping_ok loc" and "list_all item_ok its"
    and "length (items_text loc (lf_widen loc CHR '' '') (fl_dec OR fl_skipws) 0 its) < 2 ^ 31"
  shows "\<exists>s b. put_items (str_vt junk other) null its (ios_new loc (Some (stringbuf_new [] om_out)) zero) = Some (Ret (), s) \<and>
    good s \<and> io_sbuf s = Some b \<and> str_get b = items_text loc (lf_widen loc CHR '' '') (fl_dec OR fl_skipws) 0 its"
proof -
  let ?b = "stringbuf_new [] om_out" and ?text = "items_text loc (lf_widen loc CHR '' '') (fl_dec OR fl_skipws) 0 its"
  note b = new_string_sink
  have base: "base_ok (fl_dec OR fl_skipws)" by (simp add: base_ok_def flag_defs)
  have "str_fits (fold spec_put ?text (sbuf_abs ?b))" unfolding b(2) fits_string by (rule assms(3))
  from sstream.items_write [OF new_string_stream b(1) assms(1) base assms(2) order.refl this, of junk other null] obtain s b' where
    "put_items (str_vt junk other) null its (ios_new loc (Some ?b) zero) = Some (Ret (), s)" "good s"
    "io_sbuf s = Some b'" "writable b'" "sbuf_abs b' = fold spec_put ?text (sbuf_abs ?b)" unfolding writes_as_def by blast
  moreover from this(4,5) have "str_get b' = ?text" using spec_put_content [of b' ?text] by (simp add: writable_def b(2))
  ultimately show ?thesis by blast
qed

text \<open>
  Hexadecimal with its prefix, a padded negative number, a truth value and a string.
\<close>

theorem string_stream_text_witness:
  "\<exists>s b. put_items (str_vt (\<lambda>_. CHR ''?'') CHR ''!'') ''(null)''
       [Long (- 123), Char CHR '' '', Setw 6, Manip Internal, Long (- 42), Text '' '', Manip (Showbase True),
        Manip Hex, Ulong 255, Manip (Boolalpha True), Setw 7, Manip Left, Bool True, Text ''.'']
       (ios_new (plain_facets [2]) (Some (stringbuf_new [] om_out)) CHR 0x00) = Some (Ret (), s) \<and>
     good s \<and> io_sbuf s = Some b \<and> str_get b = ''-1,23 -   42 0xfftrue   .''"
proof -
  let ?its = "[Long (- 123), Char CHR '' '', Setw 6, Manip Internal, Long (- 42), Text '' '', Manip (Showbase True),
       Manip Hex, Ulong 255, Manip (Boolalpha True), Setw 7, Manip Left, Bool True, Text ''.'']"
  have ok: "grouping_ok (plain_facets [2])" by (simp add: grouping_ok_def plain_facets_def)
  have its: "list_all item_ok ?its" by (simp add: long_min_def)
  have t: "items_text (plain_facets [2]) (lf_widen (plain_facets [2]) CHR '' '') (fl_dec OR fl_skipws) 0 ?its =
     ''-1,23 -   42 0xfftrue   .''"
    by code_simp
  then have "length (items_text (plain_facets [2]) (lf_widen (plain_facets [2]) CHR '' '') (fl_dec OR fl_skipws) 0 ?its) < 2 ^ 31" by simp
  from string_stream_text [OF ok its this, of "\<lambda>_. CHR ''?''" "CHR ''!''" "''(null)''" "CHR 0x00"] t show ?thesis by simp
qed

section \<open>Inserting a string buffer\<close>

lemma on_stream_ret: "m s = Some (r, s') \<Longrightarrow> on_stream m (s, f) = Some (r, (s', f))"
  by (simp add: on_stream_def)

lemma on_from_ret: "m f = Some (r, f') \<Longrightarrow> on_from m (s, f) = Some (r, (s, f'))"
  by (simp add: on_from_def)

lemma rest_slice: "sbuf_ok f \<Longrightarrow> gend f - gcur f = length (rest f) \<and> get_slice (length (rest f)) f = rest f"
  using sbuf_ok_areas [of f] by (simp add: rest_def get_slice_def min_absorb2 drop_take)

context stream_sink
begin

lemma sputn_all:
  assumes "io_sbuf s = Some b" "inv b" "fits (fold put cs (abs b))"
  shows "\<exists>b'. on_stream (on_sbuf (sputn vt cs)) (s, f) = Some (Ret (length cs), (s\<lparr>io_sbuf := Some b'\<rparr>, f)) \<and>
    inv b' \<and> abs b' = fold put cs (abs b)"
  using xsputn [OF assms(2,3)] assms(1) by (auto simp: on_stream_def on_sbuf_def sputn_def)

lemma sputc_one:
  assumes "io_sbuf s = Some b" "inv b" "fits (put c (abs b))"
  shows "\<exists>b'. on_stream (on_sbuf (sputc vt c)) (s, f) = Some (Ret (Some c), (s\<lparr>io_sbuf := Some b'\<rparr>, f)) \<and>
    inv b' \<and> abs b' = put c (abs b)"
  using sputc_puts [OF assms(2,3)] assms(1) by (auto simp: on_stream_def on_sbuf_def)

text \<open>The first character is copied on its own; the loop starts behind it.\<close>

lemma insert_start:
  assumes "io_sbuf s = Some b" "inv b" "sbuf_ok f" "rest f = c # cs" "fits (put c (abs b))"
  shows "\<exists>b1 f1. inv b1 \<and> abs b1 = put c (abs b) \<and> sbuf_ok f1 \<and> rest f1 = cs \<and>
    insert_body vt (str_vt junk other) (s, f) = io_catch
      (io_bind (io_loop (\<lambda>c. c \<noteq> None) (sbuf_insert_turn vt (str_vt junk other)) (case cs of [] \<Rightarrow> None | c # _ \<Rightarrow> Some c)) (\<lambda>_. io_ret ()))
      (on_stream process_exception) (s\<lparr>io_sbuf := Some b1\<rparr>, f1)"
proof -
  from source.sgetc_reads [OF assms(3), of junk other] assms(4) obtain f0 where
    f0: "sgetc (str_vt junk other) f = Some (Ret (Some c), f0)" "sbuf_ok f0" "rest f0 = c # cs" by auto
  from sputc_one [OF assms(1,2,5), of f0] obtain b1 where
    b1: "on_stream (on_sbuf (sputc vt c)) (s, f0) = Some (Ret (Some c), (s\<lparr>io_sbuf := Some b1\<rparr>, f0))" "inv b1"
      "abs b1 = put c (abs b)" by blast
  from source.snextc_reads [OF f0(2), of junk other] f0(3) obtain f1 where
    f1: "snextc (str_vt junk other) f0 = Some (Ret (case cs of [] \<Rightarrow> None | c # _ \<Rightarrow> Some c), f1)" "sbuf_ok f1"
      "rest f1 = cs" by auto
  from f0(1) b1(1) f1(1)
  have "insert_body vt (str_vt junk other) (s, f) = io_catch
      (io_bind (io_loop (\<lambda>c. c \<noteq> None) (sbuf_insert_turn vt (str_vt junk other)) (case cs of [] \<Rightarrow> None | c # _ \<Rightarrow> Some c)) (\<lambda>_. io_ret ()))
      (on_stream process_exception) (s\<lparr>io_sbuf := Some b1\<rparr>, f1)"
    by (simp add: insert_body_def io_catch_def on_from_ret)
  with b1 f1 show ?thesis by blast
qed

text \<open>At least two characters behind the first are copied at once.\<close>

lemma insert_rest:
  assumes "io_sbuf s = Some b" "inv b" "sbuf_ok f" "1 < length (rest f)" "fits (fold put (rest f) (abs b))"
  shows "\<exists>b' f'. sbuf_insert_turn vt (str_vt junk other) c (s, f) = Some (Ret None, (s\<lparr>io_sbuf := Some b'\<rparr>, f')) \<and>
    inv b' \<and> abs b' = fold put (rest f) (abs b) \<and> rest f' = []"
proof -
  let ?n = "length (rest f)" let ?f = "f\<lparr>gcur := gcur f + ?n\<rparr>"
  have n: "gend f - gcur f = ?n" "get_slice ?n f = rest f" using rest_slice [OF assms(3)] by auto
  from sputn_all [OF assms(1,2,5), of f] obtain b' where
    b': "on_stream (on_sbuf (sputn vt (rest f))) (s, f) = Some (Ret ?n, (s\<lparr>io_sbuf := Some b'\<rparr>, f))" "inv b'"
      "abs b' = fold put (rest f) (abs b)" by auto
  have "gcur f + ?n \<le> gend f" using n sbuf_ok_areas(1) [OF assms(3)] by simp
  from sbuf_bump [OF assms(3) this] have f: "sbuf_ok ?f" "rest ?f = []" by auto
  from source.sgetc_reads [OF f(1), of junk other] f(2) obtain f' where
    f': "sgetc (str_vt junk other) ?f = Some (Ret None, f')" "rest f' = []" by auto
  from f'(1) b'(1) n assms(4)
  have "sbuf_insert_turn vt (str_vt junk other) c (s, f) = Some (Ret None, (s\<lparr>io_sbuf := Some b'\<rparr>, f'))"
    by (simp add: sbuf_insert_turn_def Let_def on_from_ret)
  with b' f' show ?thesis by blast
qed

lemma insert_copies:
  assumes "io_sbuf s = Some b" "inv b" "sbuf_ok f" "rest f \<noteq> []" "length (rest f) \<noteq> 2" "fits (fold put (rest f) (abs b))"
  shows "\<exists>b' f'. insert_body vt (str_vt junk other) (s, f) = Some (Ret (), (s\<lparr>io_sbuf := Some b'\<rparr>, f')) \<and> inv b' \<and>
    abs b' = fold put (rest f) (abs b) \<and> rest f' = []"
proof -
  from assms(4) obtain c cs where cs: "rest f = c # cs" by (cases "rest f") auto
  have fit: "fits (put c (abs b))" "fits (fold put cs (put c (abs b)))" using assms(6) fits_first cs by auto
  from insert_start [OF assms(1-3) cs fit(1), of junk other] obtain b1 f1 where
    1: "inv b1" "abs b1 = put c (abs b)" "sbuf_ok f1" "rest f1 = cs"
      "insert_body vt (str_vt junk other) (s, f) = io_catch
      (io_bind (io_loop (\<lambda>c. c \<noteq> None) (sbuf_insert_turn vt (str_vt junk other)) (case cs of [] \<Rightarrow> None | c # _ \<Rightarrow> Some c)) (\<lambda>_. io_ret ()))
      (on_stream process_exception) (s\<lparr>io_sbuf := Some b1\<rparr>, f1)" by auto
  show ?thesis
  proof (cases cs)
    case Nil
    with 1 cs show ?thesis by (intro exI [of _ b1] exI [of _ f1]) (simp add: io_catch_def)
  next
    case (Cons d ds)
    let ?s = "s\<lparr>io_sbuf := Some b1\<rparr>"
    have len: "1 < length (rest f1)" using Cons 1(4) cs assms(5) by (cases ds) auto
    have "fits (fold put (rest f1) (abs b1))" using fit(2) 1(2,4) by simp
    from insert_rest [of ?s b1 f1 junk other "Some d", OF _ 1(1,3) len this] 1(4) obtain b2 f2 where
      2: "sbuf_insert_turn vt (str_vt junk other) (Some d) (?s, f1) = Some (Ret None, (?s\<lparr>io_sbuf := Some b2\<rparr>, f2))" "inv b2"
        "abs b2 = fold put cs (abs b1)" "rest f2 = []" by auto
    have "io_loop (\<lambda>c. c \<noteq> None) (sbuf_insert_turn vt (str_vt junk other)) (Some d) (?s, f1) =
        Some (Ret None, (?s\<lparr>io_sbuf := Some b2\<rparr>, f2))"
      by (subst io_loop_step [where a' = None and s' = "(?s\<lparr>io_sbuf := Some b2\<rparr>, f2)"]) (simp_all add: 2(1))
    with 1(5) Cons have "insert_body vt (str_vt junk other) (s, f) = Some (Ret (), (s\<lparr>io_sbuf := Some b2\<rparr>, f2))"
      by (simp add: io_catch_def io_bind_def)
    with 1(2) 2 cs show ?thesis by auto
  qed
qed

end

text \<open>A single character is written, but not taken from the buffer; a string buffer takes it every time.\<close>

lemma string_takes: "has_out (m_mode b) \<Longrightarrow> \<exists>b'. sputc (str_vt junk other) c b = Some (Ret (Some c), b') \<and> has_out (m_mode b')"
  by (auto simp: sputc_def str_overflow_def Let_def area_defs)

lemma insert_last:
  assumes "io_sbuf s = Some b" "has_out (m_mode b)" "sbuf_ok f" "rest f = [c]"
  shows "\<exists>b' f'. sbuf_insert_turn (str_vt junk other) (str_vt junk other) (Some c) (s, f) = Some (Ret (Some c), (s\<lparr>io_sbuf := Some b'\<rparr>, f')) \<and>
    has_out (m_mode b') \<and> sbuf_ok f' \<and> rest f' = [c]"
proof -
  have n: "gend f - gcur f = 1" using rest_slice [OF assms(3)] assms(4) by simp
  from string_takes [OF assms(2), of junk other c] obtain b' where
    b': "on_stream (on_sbuf (sputc (str_vt junk other) c)) (s, f) = Some (Ret (Some c), (s\<lparr>io_sbuf := Some b'\<rparr>, f))" "has_out (m_mode b')"
    using assms(1) by (auto simp: on_stream_def on_sbuf_def)
  from source.sgetc_reads [OF assms(3), of junk other] assms(4) obtain f' where
    f': "sgetc (str_vt junk other) f = Some (Ret (Some c), f')" "sbuf_ok f'" "rest f' = [c]" by auto
  from f'(1) b'(1) n
  have "sbuf_insert_turn (str_vt junk other) (str_vt junk other) (Some c) (s, f) = Some (Ret (Some c), (s\<lparr>io_sbuf := Some b'\<rparr>, f'))"
    by (simp add: sbuf_insert_turn_def Let_def on_from_ret)
  with b' f' show ?thesis by blast
qed

lemma insert_two_diverges:
  fixes s :: "('c, 'c stringbuf) ios"
  assumes "io_sbuf s = Some b" "writable b" "sbuf_ok f" "rest f = [c, d]" "str_fits (spec_put c (sbuf_abs b))"
  shows "insert_body (str_vt junk other) (str_vt junk other) (s, f) = None"
proof -
  let ?vt = "str_vt junk other"
  let ?I = "\<lambda>a (s, f). a = Some d \<and> (\<exists>b. io_sbuf s = Some b \<and> has_out (m_mode b)) \<and> sbuf_ok f \<and> rest f = [d]"
  from sstream.insert_start [OF assms, of junk other junk other] obtain b1 f1 where
    1: "writable b1" "sbuf_ok f1" "rest f1 = [d]" "insert_body ?vt ?vt (s, f) = io_catch
      (io_bind (io_loop (\<lambda>c. c \<noteq> None) (sbuf_insert_turn ?vt ?vt) (Some d)) (\<lambda>_. io_ret ()))
      (on_stream process_exception) (s\<lparr>io_sbuf := Some b1\<rparr>, f1)" by auto
  have "io_loop (\<lambda>c. c \<noteq> None) (sbuf_insert_turn ?vt ?vt) (Some d) (s\<lparr>io_sbuf := Some b1\<rparr>, f1) = None"
  proof (rule io_loop_diverges [where I = ?I])
    show "?I (Some d) (s\<lparr>io_sbuf := Some b1\<rparr>, f1)" using 1 by (simp add: writable_def)
  next
    fix a and st :: "('c, 'c stringbuf) ios \<times> 'c stringbuf"
    assume "?I a st"
    then obtain s f b where st: "st = (s, f)" "a = Some d" "io_sbuf s = Some b" "has_out (m_mode b)" "sbuf_ok f" "rest f = [d]"
      by (cases st) auto
    show "a \<noteq> None" using st by simp
    from insert_last [OF st(3-6), of junk other] st show "\<exists>a' st'. sbuf_insert_turn ?vt ?vt a st = Some (Ret a', st') \<and> ?I a' st'"
      by fastforce
  qed
  with 1(4) show ?thesis by (simp add: io_catch_def io_bind_def)
qed

text \<open>There is nothing to copy from an empty buffer, which fails.\<close>

lemma insert_empty:
  assumes "io_sbuf s = Some b" "io_exceptions s = goodbit" "io_state s = goodbit" "sbuf_ok f" "rest f = []"
  shows "\<exists>s' f'. insert_body vt (str_vt junk other) (s, f) = Some (Ret (), (s', f')) \<and> rest f' = [] \<and>
    io_sbuf s' = Some b \<and> io_state s' = failbit \<and> flags_get s' = flags_get s"
proof -
  from source.sgetc_reads [OF assms(4), of junk other] assms(5) obtain f' where
    f': "sgetc (str_vt junk other) f = Some (Ret None, f')" "rest f' = []" by auto
  define s' where "s' = set_flag fl_os_good (s\<lparr>io_state := failbit\<rparr>)"
  have "setstate failbit s = Some (Ret (), s')"
    using assms(1-3) by (simp add: setstate_def clear_def s'_def state_bits)
  with f'(1) have "insert_body vt (str_vt junk other) (s, f) = Some (Ret (), (s', f'))"
    by (simp add: insert_body_def on_from_ret on_stream_ret)
  moreover have "flags_get s' = flags_get s"
    by (simp add: s'_def set_flag_def setf_def flags_get_def bit.conj_disj_distrib2 flag_defs)
  moreover have "io_sbuf s' = Some b" "io_state s' = failbit"
    using assms(1) by (simp_all add: s'_def set_flag_def setf_def)
  ultimately show ?thesis using f'(2) by blast
qed

text \<open>
  C39: Inserting a string buffer of fewer than \<open>2 ^ 31\<close> characters into a new output string stream copies the string and takes it from
  the buffer; an empty one makes the stream fail. A string of exactly two characters makes the
  function run forever: the loop writes the second one and does not take it.
\<close>

theorem string_buffer_inserted:
  fixes cs :: "'c list"
  assumes small: "length cs < 2 ^ 31"
  shows "let s = ios_new loc (Some (stringbuf_new [] om_out)) zero; vt = str_vt junk other in
   if length cs = 2 then os_insert_sbuf vt vt s (Some (stringbuf_new cs om_in)) = None
   else \<exists>s' b f. os_insert_sbuf vt vt s (Some (stringbuf_new cs om_in)) = Some (Ret (), s', Some f) \<and>
     io_sbuf s' = Some b \<and> str_get b = cs \<and> rest f = [] \<and> (fail s' \<longleftrightarrow> cs = []) \<and> (good s' \<longleftrightarrow> cs \<noteq> [])"
proof -
  define s :: "('c, 'c stringbuf) ios" where "s = ios_new loc (Some (stringbuf_new [] om_out)) zero"
  define vt where "vt = str_vt junk other"
  define f where "f = stringbuf_new cs om_in"
  have s: "io_sbuf s = Some (stringbuf_new [] om_out)" "good s" "flush_tied s = s" "flags_get s AND fl_unitbuf = 0"
    "io_exceptions s = goodbit" "io_state s = goodbit"
    by (simp_all add: s_def ios_new_def ios_init_def good_def flush_tied_def flags_get_def flag_defs Let_def)
  have f: "sbuf_ok f" "rest f = cs" by (simp_all add: f_def new_string_source)
  have quiet: "sentry_dtor vt t = Some (Ret (), t)" if "flags_get t = flags_get s" for t
    using that s(4) by (simp add: sentry_dtor_def)
  have fg: "flags_get (s\<lparr>io_sbuf := x\<rparr>) = flags_get s" for x by (simp add: flags_get_def)
  consider "length cs = 2" | "cs = []" | "cs \<noteq> []" "length cs \<noteq> 2" by fastforce
  then have "if length cs = 2 then os_insert_sbuf vt vt s (Some f) = None
   else \<exists>s' b f'. os_insert_sbuf vt vt s (Some f) = Some (Ret (), s', Some f') \<and>
     io_sbuf s' = Some b \<and> str_get b = cs \<and> rest f' = [] \<and> (fail s' \<longleftrightarrow> cs = []) \<and> (good s' \<longleftrightarrow> cs \<noteq> [])"
  proof cases
    case 1
    then obtain c d where "cs = [c, d]" by (auto simp: length_Suc_conv numeral_2_eq_2)
    with insert_two_diverges [OF s(1) new_string_sink(1) f(1), of c d junk other] f(2) fits_string [of "[c]"]
    have "insert_body vt vt (s, f) = None" by (simp add: vt_def new_string_sink(2))
    with 1 s show ?thesis by (simp add: os_insert_sbuf_def Let_def)
  next
    case 2
    from insert_empty [OF s(1,5,6) f(1), of vt junk other] f(2) 2 obtain s' f' where
      s': "insert_body vt vt (s, f) = Some (Ret (), (s', f'))" "rest f' = []"
        "io_sbuf s' = Some (stringbuf_new [] om_out)" "io_state s' = failbit" "flags_get s' = flags_get s"
      by (auto simp: vt_def)
    moreover have "str_get (stringbuf_new [] om_out) = cs"
      using spec_put_content [of "stringbuf_new [] om_out" cs] 2
      by (simp add: new_string_sink(2) new_string_sink(1) [unfolded writable_def])
    ultimately show ?thesis using 2 s' s(2,3) quiet [of s']
      by (simp add: os_insert_sbuf_def Let_def good_def fail_def state_bits)
  next
    case 3
    have "str_fits (fold spec_put cs (sbuf_abs (stringbuf_new [] om_out)))" unfolding new_string_sink(2) fits_string by (rule small)
    with 3 sstream.insert_copies [OF s(1) new_string_sink(1) f(1), of junk other junk other] f(2) obtain b f' where
      b: "insert_body vt vt (s, f) = Some (Ret (), (s\<lparr>io_sbuf := Some b\<rparr>, f'))" "writable b"
        "sbuf_abs b = fold spec_put cs (sbuf_abs (stringbuf_new [] om_out))" "rest f' = []"
      by (auto simp: vt_def)
    have "str_get b = cs" using b(2,3) spec_put_content [of b cs] by (simp add: writable_def new_string_sink(2))
    with 3 b s quiet [OF fg, of "Some b"] show ?thesis
      by (simp add: os_insert_sbuf_def Let_def good_def fail_def state_bits)
  qed
  then show ?thesis unfolding s_def vt_def f_def Let_def .
qed

theorem string_buffer_inserted_witness:
  "os_insert_sbuf (str_vt (\<lambda>_. CHR ''?'') CHR ''!'') (str_vt (\<lambda>_. CHR ''?'') CHR ''!'')
     (ios_new (plain_facets []) (Some (stringbuf_new [] om_out)) CHR 0x00) (Some (stringbuf_new ''ab'' om_in)) = None \<and>
   (\<exists>s' b f. os_insert_sbuf (str_vt (\<lambda>_. CHR ''?'') CHR ''!'') (str_vt (\<lambda>_. CHR ''?'') CHR ''!'')
       (ios_new (plain_facets []) (Some (stringbuf_new [] om_out)) CHR 0x00) (Some (stringbuf_new ''abc'' om_in)) = Some (Ret (), s', Some f) \<and>
     io_sbuf s' = Some b \<and> str_get b = ''abc'' \<and> rest f = [] \<and> good s')"
  using string_buffer_inserted [of "''ab''" "plain_facets []" "CHR 0x00" "\<lambda>_. CHR ''?''" "CHR ''!''"]
    string_buffer_inserted [of "''abc''" "plain_facets []" "CHR 0x00" "\<lambda>_. CHR ''?''" "CHR ''!''"]
  by (auto simp: Let_def)

section \<open>Short and int\<close>

text \<open>
  The inserters of \<^verbatim>\<open>short\<close> and \<^verbatim>\<open>int\<close> convert to the unsigned type first, in every base: a negative
  number is written as a large positive one.
\<close>

lemma int_inserted: "os_int vt (- 1) = os_long vt 4294967295" "os_short vt (- 1) = os_long vt 65535"
proof -
  have "ucast (- 1 :: 32 word) = (4294967295 :: ulong)" "ucast (- 1 :: 16 word) = (65535 :: ulong)"
    by code_simp+
  then show "os_int vt (- 1) = os_long vt 4294967295" "os_short vt (- 1) = os_long vt 65535"
    by (simp_all only: os_int_def os_short_def os_long_def)
qed

end
