(* ===== verification/Istream_Numbers.thy ===== *)
theory Istream_Numbers
  imports Istream Ostream_Text
begin

text \<open>
  Reading numbers from a stream: the iterator on a stream buffer (\<^verbatim>\<open>srccxx/isbuf_it.cc\<close>), the facet \<^verbatim>\<open>num_get\<close>
  (\<^verbatim>\<open>srccxx/num_get.cc\<close>) instantiated with it, and the extractors of \<^verbatim>\<open>srccxx/istream.cc\<close>.

  The template is instantiated a second time: \<open>Num_Get\<close> has it on the list of the characters that are left,
  this theory on a stream buffer whose functions may read, throw or not return. On every buffer that
  keeps the promise of \<open>char_source\<close> both instances are shown to agree; with that, numbers written to a string
  stream are read back from it.
\<close>

unbundle bit_operations_syntax

section \<open>The iterator on a stream buffer\<close>

text \<open>
  An iterator is a pointer to the buffer or null; the second component of the state says which. The
  constructor may not throw: an exception in it ends the program. Taking a character from a null
  iterator or moving it is undefined. \<open>eofc\<close> is the character the end-of-file value is converted to.
\<close>

definition isit_begin :: "('c, ('c, 'z) streambuf_scheme) vtable \<Rightarrow> (('c, 'z) streambuf_scheme, bool) io" where
  "isit_begin vt b =
     (case sgetc vt b of
        Some (Ret c, b') \<Rightarrow> Some (Ret (c \<noteq> None), b')
      | _ \<Rightarrow> None)"

type_synonym ('c, 'z) isit = "('c, 'z) streambuf_scheme \<times> bool"

definition isit_deref :: "('c, ('c, 'z) streambuf_scheme) vtable \<Rightarrow> 'c \<Rightarrow> (('c, 'z) isit, 'c) io" where
  "isit_deref vt eofc st =
     (if snd st then io_bind (on_stream (sgetc vt)) (\<lambda>c. io_ret (case c of None \<Rightarrow> eofc | Some ch \<Rightarrow> ch)) st else None)"

definition isit_incr :: "('c, ('c, 'z) streambuf_scheme) vtable \<Rightarrow> (('c, 'z) isit, unit) io" where
  "isit_incr vt st =
     (if snd st then io_bind (on_stream (snextc vt)) (\<lambda>c. io_mod (\<lambda>(b, _). (b, c \<noteq> None))) st else None)"

section \<open>The extractor and the facet\<close>

text \<open>The null iterator is the end of the range.\<close>

definition it_current :: "('c :: linorder) cache \<Rightarrow> ('c, ('c, 'z) streambuf_scheme) vtable \<Rightarrow> 'c \<Rightarrow>
    (('c, 'z) isit, nat option) io" where
  "it_current ch vt eofc st =
     (if snd st then io_bind (isit_deref vt eofc) (\<lambda>c. io_ret (Some (cache_find ch c))) st else io_ret None st)"

definition it_next :: "('c :: linorder) cache \<Rightarrow> ('c, ('c, 'z) streambuf_scheme) vtable \<Rightarrow> 'c \<Rightarrow>
    (('c, 'z) isit, nat option) io" where
  "it_next ch vt eofc = io_bind (isit_incr vt) (\<lambda>_. it_current ch vt eofc)"

definition it_at_end :: "('c :: linorder) cache \<Rightarrow> ('c, ('c, 'z) streambuf_scheme) vtable \<Rightarrow> 'c \<Rightarrow>
    (('c, 'z) isit, iostate) io" where
  "it_at_end ch vt eofc = io_bind (it_current ch vt eofc) (\<lambda>r. io_ret (if r = None then eofbit else goodbit))"

definition it_skip_zeros :: "('c :: linorder) cache \<Rightarrow> ('c, ('c, 'z) streambuf_scheme) vtable \<Rightarrow> 'c \<Rightarrow> nat \<Rightarrow>
    (('c, 'z) isit, nat option) io" where
  "it_skip_zeros ch vt eofc v = io_loop (\<lambda>r. r = Some 0) (\<lambda>_. it_next ch vt eofc) (Some v)"

definition it_skip_digits :: "('c :: linorder) cache \<Rightarrow> ('c, ('c, 'z) streambuf_scheme) vtable \<Rightarrow> 'c \<Rightarrow> nat \<Rightarrow>
    (('c, 'z) isit, nat option) io" where
  "it_skip_digits ch vt eofc base = io_bind (it_next ch vt eofc)
     (io_loop (\<lambda>r. case r of None \<Rightarrow> False | Some v \<Rightarrow> v < base) (\<lambda>_. it_next ch vt eofc))"

text \<open>
  The loop over the digits: whether it is over and if so whether the function returns, the value, the
  count and the current character.
\<close>

type_synonym digit_state = "bool option \<times> ulong \<times> int \<times> nat"

definition it_digit_turn :: "('c :: linorder) cache \<Rightarrow> ('c, ('c, 'z) streambuf_scheme) vtable \<Rightarrow> 'c \<Rightarrow> nat \<Rightarrow>
    digit_state \<Rightarrow> (('c, 'z) isit, digit_state) io" where
  "it_digit_turn ch vt eofc base = (\<lambda>(_, val, n, v).
     if v < base then
       let val = val * word_of_nat base + word_of_nat v; n = n - 1 in
       if n = 0 then io_ret (Some False, val, n, v)
       else io_bind (it_next ch vt eofc) (\<lambda>r. io_ret (case r of
           None \<Rightarrow> (Some False, val, n, v)
         | Some v \<Rightarrow> (None, val, n, v)))
     else io_ret (Some True, val, n, v))"

definition it_read_digits :: "('c :: linorder) cache \<Rightarrow> ('c, ('c, 'z) streambuf_scheme) vtable \<Rightarrow> 'c \<Rightarrow> nat \<Rightarrow>
    digit_state \<Rightarrow> (('c, 'z) isit, digit_state) io" where
  "it_read_digits ch vt eofc base = io_loop (\<lambda>(ph, _). ph = None) (it_digit_turn ch vt eofc base)"

text \<open>Whether the function succeeds, the state, the value and whether there was a minus sign.\<close>

type_synonym int_result = "bool \<times> iostate \<times> ulong \<times> bool"

definition it_overflow :: "('c :: linorder) cache \<Rightarrow> ('c, ('c, 'z) streambuf_scheme) vtable \<Rightarrow> 'c \<Rightarrow> nat \<Rightarrow> bool \<Rightarrow>
    (('c, 'z) isit, int_result) io" where
  "it_overflow ch vt eofc base neg = io_bind (it_skip_digits ch vt eofc base)
     (\<lambda>_. io_bind (it_at_end ch vt eofc) (\<lambda>e. io_ret (False, e, - 1, neg)))"

definition it_success :: "('c :: linorder) cache \<Rightarrow> ('c, ('c, 'z) streambuf_scheme) vtable \<Rightarrow> 'c \<Rightarrow> bool \<Rightarrow> ulong \<Rightarrow>
    (('c, 'z) isit, int_result) io" where
  "it_success ch vt eofc neg val = io_bind (it_at_end ch vt eofc) (\<lambda>e. io_ret (True, e, val, neg))"

definition it_check_overflow :: "('c :: linorder) cache \<Rightarrow> ('c, ('c, 'z) streambuf_scheme) vtable \<Rightarrow> 'c \<Rightarrow> nat \<Rightarrow> bool \<Rightarrow>
    ulong \<Rightarrow> int \<Rightarrow> (('c, 'z) isit, int_result) io" where
  "it_check_overflow ch vt eofc base neg val n =
     (if n = 0 then
        io_bind (it_next ch vt eofc) (\<lambda>r. case r of
            None \<Rightarrow> it_success ch vt eofc neg val
          | Some v \<Rightarrow>
              if v < base then
                if val \<le> - 1 div word_of_nat base \<and> - 1 - val * word_of_nat base \<ge> word_of_nat v then
                  let val = val * word_of_nat base + word_of_nat v in
                  io_bind (it_next ch vt eofc) (\<lambda>r. case r of
                      None \<Rightarrow> it_success ch vt eofc neg val
                    | Some v \<Rightarrow> if v < base then it_overflow ch vt eofc base neg else it_success ch vt eofc neg val)
                else it_overflow ch vt eofc base neg
              else it_success ch vt eofc neg val)
      else it_success ch vt eofc neg val)"

definition it_digits :: "('c :: linorder) cache \<Rightarrow> ('c, ('c, 'z) streambuf_scheme) vtable \<Rightarrow> 'c \<Rightarrow> nat \<Rightarrow> bool \<Rightarrow> nat \<Rightarrow>
    (('c, 'z) isit, int_result) io" where
  "it_digits ch vt eofc base neg v = io_bind (it_skip_zeros ch vt eofc v) (\<lambda>r. case r of
       None \<Rightarrow> io_ret (True, eofbit, 0, neg)
     | Some v \<Rightarrow> io_bind (it_read_digits ch vt eofc base (None, 0, init_count base, v)) (\<lambda>(ph, val, n, _).
         if ph = Some True then io_ret (True, goodbit, val, neg) else it_check_overflow ch vt eofc base neg val n))"

definition it_based :: "('c :: linorder) cache \<Rightarrow> ('c, ('c, 'z) streambuf_scheme) vtable \<Rightarrow> 'c \<Rightarrow> fmtflags \<Rightarrow> bool \<Rightarrow> nat \<Rightarrow>
    (('c, 'z) isit, int_result) io" where
  "it_based ch vt eofc fmt neg v =
     (let base = field_base fmt; nxt = it_next ch vt eofc; digits = it_digits ch vt eofc;
          zero = io_ret (True, eofbit, 0, neg)
      in if v = 0 then
           io_bind nxt (\<lambda>r. case r of
               None \<Rightarrow> zero
             | Some v \<Rightarrow>
                 if base \<ge> 16 then
                   if v = cb_hex then
                     io_bind nxt (\<lambda>r. case r of
                         None \<Rightarrow> zero
                       | Some v \<Rightarrow> if v > 16 then zero else digits 16 neg v)
                   else digits (if base = 17 then 8 else base) neg v
                 else digits base neg v)
         else
           let base = (if base = 17 then 10 else base) in
           if v \<ge> base then io_ret (False, failbit, 0, neg) else digits base neg v)"

definition it_get_integer :: "('c :: linorder) cache \<Rightarrow> ('c, ('c, 'z) streambuf_scheme) vtable \<Rightarrow> 'c \<Rightarrow> fmtflags \<Rightarrow>
    (('c, 'z) isit, int_result) io" where
  "it_get_integer ch vt eofc fmt = io_bind (it_current ch vt eofc) (\<lambda>r. case r of
       None \<Rightarrow> io_ret (False, failbit OR eofbit, 0, False)
     | Some v \<Rightarrow>
         let neg = (v = cb_minus) in
         if v = cb_minus \<or> v = cb_plus then
           io_bind (it_next ch vt eofc) (\<lambda>r. case r of
               None \<Rightarrow> io_ret (False, failbit OR eofbit, 0, neg)
             | Some v \<Rightarrow> it_based ch vt eofc fmt neg v)
         else it_based ch vt eofc fmt neg v)"

text \<open>The value that is stored, as in \<^theory_text>\<open>Num_Get\<close>.\<close>

definition signed_value :: "ulong \<Rightarrow> int_result \<Rightarrow> ulong" where
  "signed_value old = (\<lambda>(ok, _, val, neg).
     if ok then
       if neg then if val > - long_min then long_min else - val
       else if val > long_max then long_max else val
     else if val = - 1 then if neg then long_min else long_max
     else old)"

definition unsigned_value :: "('w :: len) word \<Rightarrow> int_result \<Rightarrow> 'w word" where
  "unsigned_value old = (\<lambda>(ok, _, val, neg).
     if ok then
       if val > ucast (- 1 :: 'w word) then - 1
       else if neg then - ucast val else ucast val
     else if val = - 1 then - 1
     else old)"

definition it_signed :: "('c :: linorder) facets \<Rightarrow> ('c, ('c, 'z) streambuf_scheme) vtable \<Rightarrow> 'c \<Rightarrow> fmtflags \<Rightarrow> ulong \<Rightarrow>
    (('c, 'z) isit, ulong \<times> iostate) io" where
  "it_signed loc vt eofc fmt old = io_bind (it_get_integer (lf_cache loc) vt eofc fmt)
     (\<lambda>r. io_ret (signed_value old r, fst (snd r)))"

definition it_unsigned :: "('c :: linorder) facets \<Rightarrow> ('c, ('c, 'z) streambuf_scheme) vtable \<Rightarrow> 'c \<Rightarrow> fmtflags \<Rightarrow> ('w :: len) word \<Rightarrow>
    (('c, 'z) isit, 'w word \<times> iostate) io" where
  "it_unsigned loc vt eofc fmt old = io_bind (it_get_integer (lf_cache loc) vt eofc fmt)
     (\<lambda>r. io_ret (unsigned_value old r, fst (snd r)))"

definition it_pointer :: "('c :: linorder) facets \<Rightarrow> ('c, ('c, 'z) streambuf_scheme) vtable \<Rightarrow> 'c \<Rightarrow> fmtflags \<Rightarrow> ulong \<Rightarrow>
    (('c, 'z) isit, ulong \<times> iostate) io" where
  "it_pointer loc vt eofc fmt old = io_bind (it_unsigned loc vt eofc fmt 0)
     (\<lambda>(tval, err). io_ret (if err AND failbit = 0 then tval else old, err))"

text \<open>The comparison with a name: what is left of the name, and whether the loop goes on.\<close>

definition it_match_turn :: "('c, ('c, 'z) streambuf_scheme) vtable \<Rightarrow> 'c \<Rightarrow> 'c list \<times> bool \<Rightarrow>
    (('c, 'z) isit, 'c list \<times> bool) io" where
  "it_match_turn vt eofc = (\<lambda>(ms, _) st.
     case ms of
       [] \<Rightarrow> io_ret (ms, False) st
     | m # ms' \<Rightarrow>
         if snd st
         then io_bind (isit_deref vt eofc) (\<lambda>c.
           if m = c then io_bind (isit_incr vt) (\<lambda>_. io_ret (ms', True)) else io_ret (ms, False)) st
         else io_ret (ms, False) st)"

definition it_bool :: "('c :: linorder) facets \<Rightarrow> ('c, ('c, 'z) streambuf_scheme) vtable \<Rightarrow> 'c \<Rightarrow> ulong \<Rightarrow> fmtflags \<Rightarrow> bool \<Rightarrow>
    (('c, 'z) isit, bool \<times> iostate) io" where
  "it_bool loc vt eofc lval fmt old =
     (if fmt AND fl_boolalpha = 0 then
        io_bind (it_signed loc vt eofc fmt lval) (\<lambda>(lval, err). io_ret
          (if err AND failbit = goodbit then
             if lval = 0 then (False, err) else if lval = 1 then (True, err) else (old, err OR failbit)
           else (old, err)))
      else
        io_bind (io_loop snd (it_match_turn vt eofc)
            (if old then np_truename (lf_numpunct loc) else np_falsename (lf_numpunct loc), True))
          (\<lambda>(ms, _) st. io_ret (old, if ms = [] then goodbit else if snd st then failbit else eofbit) st))"

section \<open>The extractors\<close>

text \<open>
  The facet gets an iterator on the stream's buffer and the null iterator, the flags of the stream and the
  variable. The state is the stream with the variable, which the facet assigns before the stream's
  state is set and may throw.
\<close>

definition run_facet :: "('c, ('c, 'z) streambuf_scheme) vtable \<Rightarrow> (('c, 'z) isit, 'v \<times> iostate) io \<Rightarrow>
    (('c, 'z) streambuf_scheme, 'v \<times> iostate) io" where
  "run_facet vt get = io_bind (isit_begin vt) (\<lambda>on b.
     case get (b, on) of None \<Rightarrow> None | Some (r, (b, _)) \<Rightarrow> Some (r, b))"

definition set_var :: "'v \<Rightarrow> ('s \<times> 'v, unit) io" where
  "set_var v = io_mod (\<lambda>(s, _). (s, v))"

definition get_numeric :: "('c, ('c, 'z) streambuf_scheme) vtable \<Rightarrow>
    ('c facets \<Rightarrow> fmtflags \<Rightarrow> 'v \<Rightarrow> (('c, 'z) isit, 'v \<times> iostate) io) \<Rightarrow>
    (('c, ('c, 'z) streambuf_scheme) ios \<times> 'v, unit) io" where
  "get_numeric vt get = io_bind (on_stream (sentry_init vt False)) (\<lambda>ok. io_catch
     (if ok
      then (\<lambda>(s, v). io_bind (on_stream (on_sbuf (run_facet vt (get (ib_loc s) (flags_get s) v))))
        (\<lambda>(v, err). io_bind (set_var v) (\<lambda>_. on_stream (setstate err))) (s, v))
      else on_stream (setstate failbit))
     (on_stream process_exception))"

definition is_long :: "('c :: linorder, ('c, 'z) streambuf_scheme) vtable \<Rightarrow> 'c \<Rightarrow>
    (('c, ('c, 'z) streambuf_scheme) ios \<times> ulong, unit) io" where
  "is_long vt eofc = get_numeric vt (\<lambda>loc. it_signed loc vt eofc)"

definition is_ulong :: "('c :: linorder, ('c, 'z) streambuf_scheme) vtable \<Rightarrow> 'c \<Rightarrow>
    (('c, ('c, 'z) streambuf_scheme) ios \<times> ulong, unit) io" where
  "is_ulong vt eofc = get_numeric vt (\<lambda>loc. it_unsigned loc vt eofc)"

definition is_ushort :: "('c :: linorder, ('c, 'z) streambuf_scheme) vtable \<Rightarrow> 'c \<Rightarrow>
    (('c, ('c, 'z) streambuf_scheme) ios \<times> 16 word, unit) io" where
  "is_ushort vt eofc = get_numeric vt (\<lambda>loc. it_unsigned loc vt eofc)"

definition is_uint :: "('c :: linorder, ('c, 'z) streambuf_scheme) vtable \<Rightarrow> 'c \<Rightarrow>
    (('c, ('c, 'z) streambuf_scheme) ios \<times> 32 word, unit) io" where
  "is_uint vt eofc = get_numeric vt (\<lambda>loc. it_unsigned loc vt eofc)"

definition is_pointer :: "('c :: linorder, ('c, 'z) streambuf_scheme) vtable \<Rightarrow> 'c \<Rightarrow>
    (('c, ('c, 'z) streambuf_scheme) ios \<times> ulong, unit) io" where
  "is_pointer vt eofc = get_numeric vt (\<lambda>loc. it_pointer loc vt eofc)"

definition is_bool :: "('c :: linorder, ('c, 'z) streambuf_scheme) vtable \<Rightarrow> 'c \<Rightarrow> ulong \<Rightarrow>
    (('c, ('c, 'z) streambuf_scheme) ios \<times> bool, unit) io" where
  "is_bool vt eofc lval = get_numeric vt (\<lambda>loc. it_bool loc vt eofc lval)"

text \<open>
  \<^verbatim>\<open>short\<close> and \<^verbatim>\<open>int\<close> are read into a \<^verbatim>\<open>long\<close> without an initial value, the parameter \<open>tmp\<close>, and clipped to the range
  of the type, also when reading failed and left it alone.
\<close>

definition clip_word :: "ulong \<Rightarrow> ('w :: len) word" where
  "clip_word v =
     (if sint v < - (2 ^ (LENGTH('w) - 1)) then word_of_int (- (2 ^ (LENGTH('w) - 1)))
      else if sint v > 2 ^ (LENGTH('w) - 1) - 1 then word_of_int (2 ^ (LENGTH('w) - 1) - 1)
      else ucast v)"

definition get_clipped :: "('c :: linorder, ('c, 'z) streambuf_scheme) vtable \<Rightarrow> 'c \<Rightarrow> ulong \<Rightarrow>
    (('c, ('c, 'z) streambuf_scheme) ios \<times> ('w :: len) word, unit) io" where
  "get_clipped vt eofc tmp = (\<lambda>(s, val).
     case is_long vt eofc (s, tmp) of
       None \<Rightarrow> None
     | Some (Throw, (s, _)) \<Rightarrow> Some (Throw, (s, val))
     | Some (Ret _, (s, tmp)) \<Rightarrow> Some (Ret (), (s, clip_word tmp)))"

definition is_short :: "('c :: linorder, ('c, 'z) streambuf_scheme) vtable \<Rightarrow> 'c \<Rightarrow> ulong \<Rightarrow>
    (('c, ('c, 'z) streambuf_scheme) ios \<times> 16 word, unit) io" where
  "is_short = get_clipped"

definition is_int :: "('c :: linorder, ('c, 'z) streambuf_scheme) vtable \<Rightarrow> 'c \<Rightarrow> ulong \<Rightarrow>
    (('c, ('c, 'z) streambuf_scheme) ios \<times> 32 word, unit) io" where
  "is_int = get_clipped"

section \<open>The instance on a buffer agrees with that on a list\<close>

text \<open>What reading numbers keeps of a stream.\<close>

definition same_format :: "('c, 's) ios \<Rightarrow> ('c, 's) ios \<Rightarrow> bool" where
  "same_format s s' \<longleftrightarrow> ib_loc s' = ib_loc s \<and> flags_get s' = flags_get s \<and> io_exceptions s' = io_exceptions s"

lemma state_set_flags [simp]: "flags_get (state_set st s) = flags_get s"
  by (simp add: state_set_def Let_def flags_get_def set_flag_def unset_flag_def setf_def unsetf_def fl_not_def
    bit.conj_disj_distrib2 flag_defs and.assoc)

lemma same_format_simps:
  "same_format s (s\<lparr>io_flushed := fl, io_sbuf := b\<rparr>)" "same_format s t \<Longrightarrow> same_format s (state_set st t)"
  "same_format s t \<Longrightarrow> same_format s (t\<lparr>io_sbuf := b\<rparr>)"
  by (simp_all add: same_format_def) (simp_all add: flags_get_def)

locale scan_source = char_source vt inv rest keep
  for vt :: "('c :: linorder, ('c, 'z) streambuf_scheme) vtable" and inv rest and keep :: "('c, 'z) streambuf_scheme \<Rightarrow> 'k"
begin

text \<open>
  The state of the iterator and the characters that are left, and an operation that returns a value
  and leaves given characters.
\<close>

definition left :: "'c list \<Rightarrow> ('c, 'z) isit \<Rightarrow> bool" where
  "left cs st \<longleftrightarrow> inv (fst st) \<and> rest (fst st) = cs \<and> (snd st \<longleftrightarrow> cs \<noteq> [])"

definition gives :: "(('c, 'z) isit, 'a) io \<Rightarrow> ('c, 'z) isit \<Rightarrow> 'a \<Rightarrow> 'c list \<Rightarrow> bool" where
  "gives m st a cs \<longleftrightarrow> (\<exists>st'. m st = Some (Ret a, st') \<and> left cs st')"

lemma gives_ret: "left cs st \<Longrightarrow> gives (io_ret a) st a cs"
  by (simp add: gives_def)

lemma gives_bind:
  "gives m st a cs \<Longrightarrow> (\<And>st'. left cs st' \<Longrightarrow> gives (f a) st' b cs') \<Longrightarrow> gives (io_bind m f) st b cs'"
  by (auto simp: gives_def io_bind_def)

lemma gives_deref:
  assumes "left (c # cs) st"
  shows "gives (isit_deref vt eofc) st c (c # cs)"
proof -
  obtain b on where st: "st = (b, on)" by (cases st)
  with assms sgetc_reads [of b] obtain b' where "sgetc vt b = Some (Ret (Some c), b')" "inv b'" "rest b' = c # cs"
    by (auto simp: left_def)
  with st assms show ?thesis by (simp add: gives_def left_def isit_deref_def on_stream_def)
qed

lemma gives_incr:
  assumes "left (c # cs) st"
  shows "gives (isit_incr vt) st () cs"
proof -
  obtain b on where st: "st = (b, on)" by (cases st)
  with assms snextc_reads [of b] obtain b' where "snextc vt b = Some (Ret (next_char cs), b')" "inv b'" "rest b' = cs"
    by (auto simp: left_def)
  with st assms show ?thesis by (cases cs) (simp_all add: gives_def left_def isit_incr_def on_stream_def)
qed

lemma gives_current:
  assumes "left cs st"
  shows "gives (it_current ch vt eofc) st (ext_current ch cs) cs"
proof (cases cs)
  case Nil
  with assms show ?thesis by (simp add: gives_def it_current_def left_def)
next
  case (Cons c cs')
  from assms Cons have on: "snd st" and l: "left (c # cs') st" by (simp_all add: left_def)
  have "gives (io_bind (isit_deref vt eofc) (\<lambda>c. io_ret (Some (cache_find ch c)))) st (Some (cache_find ch c)) (c # cs')"
    by (rule gives_bind [OF gives_deref [OF l]]) (rule gives_ret)
  with on Cons show ?thesis by (simp add: gives_def it_current_def)
qed

lemma gives_next:
  assumes "left cs st" "cs \<noteq> []"
  shows "gives (it_next ch vt eofc) st (fst (ext_next ch cs)) (snd (ext_next ch cs))"
proof -
  from assms obtain c cs' where cs: "cs = c # cs'" by (cases cs) auto
  with assms gives_incr have "gives (isit_incr vt) st () cs'" by blast
  from gives_bind [OF this gives_current] cs show ?thesis by (simp add: it_next_def)
qed

lemma gives_at_end:
  assumes "left cs st"
  shows "gives (it_at_end ch vt eofc) st (at_end cs) cs"
  unfolding it_at_end_def
  by (rule gives_bind [OF gives_current [OF assms]]) (auto intro: gives_ret simp: at_end_def ext_current_def split: list.split)

text \<open>A loop turn.\<close>

lemma gives_loop:
  "g a \<Longrightarrow> gives (b a) st a' cs \<Longrightarrow> (\<And>st'. left cs st' \<Longrightarrow> gives (io_loop g b a') st' r cs') \<Longrightarrow> gives (io_loop g b a) st r cs'"
  by (auto simp: gives_def io_loop_step)

lemma gives_loop_done: "\<not> g a \<Longrightarrow> left cs st \<Longrightarrow> gives (io_loop g b a) st a cs"
  by (simp add: gives_def)

lemma gives_skip_zeros:
  assumes "left cs st" "cs \<noteq> []"
  shows "gives (it_skip_zeros ch vt eofc v) st (fst (skip_zeros ch v cs)) (snd (skip_zeros ch v cs))"
  using assms
proof (induction cs arbitrary: v st)
  case (Cons c cs)
  have eq: "skip_zeros ch v (c # cs) =
      (if v = 0 then case ext_current ch cs of None \<Rightarrow> (None, cs) | Some v \<Rightarrow> skip_zeros ch v cs else (Some v, c # cs))"
    by (subst skip_zeros.simps) simp
  show ?case
  proof (cases "v = 0")
    case True
    have n: "gives (it_next ch vt eofc) st (ext_current ch cs) cs" using gives_next [OF Cons.prems] by simp
    show ?thesis unfolding it_skip_zeros_def
    proof (rule gives_loop [OF _ n])
      fix st' assume "left cs st'"
      with Cons.IH [of st'] True eq
      show "gives (io_loop (\<lambda>r. r = Some 0) (\<lambda>_. it_next ch vt eofc) (ext_current ch cs)) st'
          (fst (skip_zeros ch v (c # cs))) (snd (skip_zeros ch v (c # cs)))"
        by (cases cs) (simp_all add: gives_loop_done it_skip_zeros_def)
    qed (simp add: True)
  next
    case False
    with eq Cons.prems show ?thesis unfolding it_skip_zeros_def by (simp add: gives_def)
  qed
qed simp

lemma gives_skip_digits:
  assumes "left cs st" "cs \<noteq> []"
  shows "\<exists>r. gives (it_skip_digits ch vt eofc base) st r (skip_digits ch base cs)"
proof -
  let ?g = "\<lambda>r. case r of None \<Rightarrow> False | Some v \<Rightarrow> v < base" let ?next = "\<lambda>_. it_next ch vt eofc"
  have loop: "\<exists>r. gives (io_loop ?g ?next (ext_current ch ds)) st r
      (if ?g (ext_current ch ds) then skip_digits ch base ds else ds)" if "left ds st" for ds st
    using that
  proof (induction ds arbitrary: st)
    case Nil
    then show ?case by (auto simp: gives_def)
  next
    case (Cons d ds)
    have eq: "skip_digits ch base (d # ds) = (if ?g (ext_current ch ds) then skip_digits ch base ds else ds)"
      by (subst skip_digits.simps) (simp split: option.split)
    show ?case
    proof (cases "cache_find ch d < base")
      case True
      have n: "gives (?next ()) st (ext_current ch ds) ds" using gives_next [OF Cons.prems] by simp
      then obtain st' where st': "it_next ch vt eofc st = Some (Ret (ext_current ch ds), st')" "left ds st'"
        by (auto simp: gives_def)
      from Cons.IH [OF st'(2)] obtain r where
        "gives (io_loop ?g ?next (ext_current ch ds)) st' r (if ?g (ext_current ch ds) then skip_digits ch base ds else ds)" ..
      moreover have "io_loop ?g ?next (Some (cache_find ch d)) st = io_loop ?g ?next (ext_current ch ds) st'"
        using True st'(1) by (intro io_loop_step) simp_all
      ultimately show ?thesis using True eq by (auto simp: gives_def)
    next
      case False
      with Cons.prems show ?thesis by (auto simp: gives_def)
    qed
  qed
  from assms obtain c ds where cs: "cs = c # ds" by (cases cs) auto
  have eq: "skip_digits ch base cs = (if ?g (ext_current ch ds) then skip_digits ch base ds else ds)"
    unfolding cs by (subst skip_digits.simps) (simp split: option.split)
  have "gives (it_next ch vt eofc) st (ext_current ch ds) ds" using gives_next [OF assms] cs by simp
  then obtain st' where "it_next ch vt eofc st = Some (Ret (ext_current ch ds), st')" "left ds st'" by (auto simp: gives_def)
  with loop [of ds st'] eq show ?thesis by (simp add: it_skip_digits_def gives_def)
qed

lemma gives_read_digits:
  assumes "left cs st" "cs \<noteq> []" "read_digits ch base n v cs val = (stop, val', n', cs')"
  shows "\<exists>v'. gives (it_read_digits ch vt eofc base (None, val, n, v)) st (Some stop, val', n', v') cs'"
  using assms
proof (induction cs arbitrary: st n v val)
  case (Cons c cs)
  let ?val = "val * word_of_nat base + word_of_nat v" let ?lp = "it_read_digits ch vt eofc base"
  let ?turn = "it_digit_turn ch vt eofc base (None, val, n, v)"
  have eq: "read_digits ch base n v (c # cs) val =
      (if v < base then
         if n - 1 = 0 then (False, ?val, n - 1, c # cs)
         else case ext_current ch cs of None \<Rightarrow> (False, ?val, n - 1, cs) | Some v \<Rightarrow> read_digits ch base (n - 1) v cs ?val
       else (True, val, n, c # cs))"
    by (subst read_digits.simps) (simp add: Let_def)
  have step: "?lp (None, val, n, v) st = ?lp a st'" if "?turn st = Some (Ret a, st')" for a st'
    unfolding it_read_digits_def using that by (intro io_loop_step) simp_all
  have over: "?lp (Some r, x) st = Some (Ret (Some r, x), st)" for r x st by (simp add: it_read_digits_def)
  show ?case
  proof (cases "v < base \<and> n - 1 \<noteq> 0")
    case False
    let ?r = "(\<not> v < base, if v < base then ?val else val, if v < base then n - 1 else n)"
    from False have "?turn st = Some (Ret (Some (fst ?r), fst (snd ?r), snd (snd ?r), v), st)"
      by (simp add: it_digit_turn_def)
    from step [OF this] over have "?lp (None, val, n, v) st = Some (Ret (Some (fst ?r), fst (snd ?r), snd (snd ?r), v), st)" by simp
    moreover have "read_digits ch base n v (c # cs) val = (fst ?r, fst (snd ?r), snd (snd ?r), c # cs)"
      using False by (subst eq) simp
    ultimately show ?thesis using Cons.prems by (auto simp: gives_def)
  next
    case True
    have "gives (it_next ch vt eofc) st (ext_current ch cs) cs" using gives_next [OF Cons.prems(1)] by simp
    then obtain st' where n: "it_next ch vt eofc st = Some (Ret (ext_current ch cs), st')" "left cs st'"
      by (auto simp: gives_def)
    have "?turn st = Some (Ret (case ext_current ch cs of None \<Rightarrow> (Some False, ?val, n - 1, v)
        | Some v \<Rightarrow> (None, ?val, n - 1, v)), st')"
      using n(1) True by (simp add: it_digit_turn_def Let_def)
    note lp = step [OF this]
    show ?thesis
    proof (cases cs)
      case Nil
      with lp over eq True n(2) Cons.prems(3) show ?thesis by (auto simp: gives_def)
    next
      case ds: (Cons d ds)
      with eq True Cons.prems(3) have "read_digits ch base (n - 1) (cache_find ch d) cs ?val = (stop, val', n', cs')" by simp
      with Cons.IH [OF n(2)] ds lp show ?thesis by (simp add: gives_def)
    qed
  qed
qed simp

lemma read_digits_more:
  "read_digits ch base n v cs val = (stop, val', 0, cs') \<Longrightarrow> cs \<noteq> [] \<Longrightarrow> \<not> stop \<Longrightarrow> cs' \<noteq> []"
proof (induction cs arbitrary: n v val)
  case (Cons c cs)
  then show ?case
    by (subst (asm) (2) read_digits.simps) (auto simp: Let_def ext_current_def split: if_splits list.splits)
qed simp

text \<open>An operation that returns and leaves what the function on lists gives.\<close>

abbreviation gives_got :: "(('c, 'z) isit, int_result) io \<Rightarrow> ('c, 'z) isit \<Rightarrow> 'c got \<Rightarrow> bool" where
  "gives_got m st g \<equiv> gives m st (g_ok g, g_err g, g_val g, g_neg g) (g_in g)"

lemma gives_success: "left cs st \<Longrightarrow> gives (it_success ch vt eofc neg val) st (True, at_end cs, val, neg) cs"
  unfolding it_success_def by (rule gives_bind [OF gives_at_end]) (auto intro: gives_ret)

lemma gives_overflow:
  assumes "left cs st" "cs \<noteq> []"
  shows "gives_got (it_overflow ch vt eofc base neg) st (get_overflow ch base neg cs)"
proof -
  from gives_skip_digits [OF assms] obtain r where
    "gives (it_skip_digits ch vt eofc base) st r (skip_digits ch base cs)" by blast
  then show ?thesis unfolding it_overflow_def get_overflow_def Let_def
    by (rule gives_bind) (auto intro!: gives_bind [OF gives_at_end] gives_ret)
qed

lemma ext_next_more: "ext_next ch cs = (Some v, cs') \<Longrightarrow> cs' \<noteq> []"
  by (cases cs) (auto simp: ext_next_def ext_current_def split: list.splits)

lemma gives_next_case:
  assumes "left cs st" "cs \<noteq> []"
    and "\<And>cs1 st1. ext_next ch cs = (None, cs1) \<Longrightarrow> left cs1 st1 \<Longrightarrow> gives m st1 b cs'"
    and "\<And>v cs1 st1. ext_next ch cs = (Some v, cs1) \<Longrightarrow> left cs1 st1 \<Longrightarrow> cs1 \<noteq> [] \<Longrightarrow> gives (f v) st1 b cs'"
  shows "gives (io_bind (it_next ch vt eofc) (\<lambda>r. case r of None \<Rightarrow> m | Some v \<Rightarrow> f v)) st b cs'"
proof (rule gives_bind [OF gives_next [OF assms(1,2)]])
  fix st1 assume "left (snd (ext_next ch cs)) st1"
  with assms(3,4) ext_next_more [of ch cs]
  show "gives (case fst (ext_next ch cs) of None \<Rightarrow> m | Some v \<Rightarrow> f v) st1 b cs'"
    by (cases "ext_next ch cs"; cases "fst (ext_next ch cs)") auto
qed

lemma gives_check_overflow:
  assumes "left cs st" "n = 0 \<Longrightarrow> cs \<noteq> []"
  shows "gives_got (it_check_overflow ch vt eofc base neg val n) st (check_overflow ch base neg val n cs)"
proof (cases "n = 0")
  case False
  then show ?thesis using gives_success [OF assms(1)] by (simp add: it_check_overflow_def check_overflow_def)
next
  case n: True
  show ?thesis unfolding it_check_overflow_def n if_True simp_thms Let_def
    by (rule gives_next_case [OF assms(1) assms(2) [OF n]])
      (auto simp: check_overflow_def Let_def intro: gives_success gives_overflow intro!: gives_next_case)
qed

lemma gives_digits:
  assumes "left cs st" "cs \<noteq> []"
  shows "gives_got (it_digits ch vt eofc base neg v) st (get_digits ch base neg v cs)"
proof -
  obtain r1 cs1 where 1: "skip_zeros ch v cs = (r1, cs1)" by (cases "skip_zeros ch v cs")
  have ne: "cs1 \<noteq> []" if "r1 = Some w" for w
    using 1 that assms(2)
  proof (induction cs arbitrary: v)
    case (Cons c cs)
    then show ?case
      by (subst (asm) (2) skip_zeros.simps) (auto simp: ext_current_def split: if_splits list.splits)
  qed simp
  show ?thesis unfolding it_digits_def get_digits_def
  proof (rule gives_bind [OF gives_skip_zeros [OF assms]], unfold 1 fst_conv snd_conv)
    fix st1 assume l: "left cs1 st1"
    show "gives_got (case r1 of None \<Rightarrow> io_ret (True, eofbit, 0, neg)
        | Some v \<Rightarrow> io_bind (it_read_digits ch vt eofc base (None, 0, init_count base, v)) (\<lambda>(ph, val, n, _).
            if ph = Some True then io_ret (True, goodbit, val, neg) else it_check_overflow ch vt eofc base neg val n)) st1
      (case (r1, cs1) of (None, cs) \<Rightarrow> \<lparr>g_ok = True, g_err = eofbit, g_val = 0, g_neg = neg, g_in = cs\<rparr>
        | (Some v, cs) \<Rightarrow> (case read_digits ch base (init_count base) v cs 0 of
             (True, val, n, cs) \<Rightarrow> \<lparr>g_ok = True, g_err = goodbit, g_val = val, g_neg = neg, g_in = cs\<rparr>
           | (False, val, n, cs) \<Rightarrow> check_overflow ch base neg val n cs))"
    proof (cases r1)
      case None
      with l show ?thesis by (simp add: gives_def)
    next
      case (Some w)
      obtain stop val n cs2 where 2: "read_digits ch base (init_count base) w cs1 0 = (stop, val, n, cs2)"
        by (cases "read_digits ch base (init_count base) w cs1 0")
      from gives_read_digits [OF l ne [OF Some] 2] obtain v' where
        r: "gives (it_read_digits ch vt eofc base (None, 0, init_count base, w)) st1 (Some stop, val, n, v') cs2" by blast
      have "n = 0 \<Longrightarrow> \<not> stop \<Longrightarrow> cs2 \<noteq> []" using read_digits_more [of ch base _ w cs1 0 stop val cs2] 2 ne [OF Some] by auto
      with Some 2 show ?thesis by (cases stop) (auto intro!: gives_bind [OF r] gives_ret gives_check_overflow)
    qed
  qed
qed

lemma gives_based:
  assumes "left cs st" "cs \<noteq> []"
  shows "gives_got (it_based ch vt eofc fmt neg v) st (get_based ch fmt neg v cs)"
proof (cases "v = 0")
  case True
  show ?thesis unfolding it_based_def True Let_def if_True simp_thms
    by (rule gives_next_case [OF assms])
      (auto simp: get_based_def Let_def intro: gives_ret gives_digits intro!: gives_next_case)
next
  case False
  then show ?thesis using gives_digits [OF assms] by (auto simp: it_based_def get_based_def Let_def intro: gives_ret [OF assms(1)])
qed

lemma gives_integer:
  assumes "left cs st"
  shows "gives_got (it_get_integer ch vt eofc fmt) st (get_integer ch fmt cs)"
  unfolding it_get_integer_def
proof (rule gives_bind [OF gives_current [OF assms]])
  fix st1 assume l: "left cs st1"
  show "gives_got (case ext_current ch cs of None \<Rightarrow> io_ret (False, failbit OR eofbit, 0, False)
     | Some v \<Rightarrow>
         let neg = (v = cb_minus) in
         if v = cb_minus \<or> v = cb_plus then
           io_bind (it_next ch vt eofc) (\<lambda>r. case r of
               None \<Rightarrow> io_ret (False, failbit OR eofbit, 0, neg)
             | Some v \<Rightarrow> it_based ch vt eofc fmt neg v)
         else it_based ch vt eofc fmt neg v) st1 (get_integer ch fmt cs)"
  proof (cases cs)
    case Nil
    with l show ?thesis by (simp add: gives_def get_integer_def Let_def)
  next
    case (Cons c ds)
    then have ne: "cs \<noteq> []" by simp
    let ?v = "cache_find ch c"
    show ?thesis
    proof (cases "?v = cb_minus \<or> ?v = cb_plus")
      case True
      have "gives_got (io_bind (it_next ch vt eofc) (\<lambda>r. case r of None \<Rightarrow> io_ret (False, failbit OR eofbit, 0, ?v = cb_minus)
          | Some v \<Rightarrow> it_based ch vt eofc fmt (?v = cb_minus) v)) st1 (get_integer ch fmt cs)"
        by (rule gives_next_case [OF l ne])
          (use True Cons in \<open>auto simp: get_integer_def Let_def intro: gives_ret gives_based\<close>)
      with True Cons show ?thesis by (simp add: Let_def)
    next
      case False
      with Cons gives_based [OF l ne, of ch eofc fmt "?v = cb_minus" ?v] show ?thesis by (simp add: get_integer_def Let_def)
    qed
  qed
qed

lemma gives_signed:
  assumes "left cs st" "get_signed_integer (lf_cache loc) fmt old cs = (v, err, cs')"
  shows "gives (it_signed loc vt eofc fmt old) st (v, err) cs'"
proof -
  let ?g = "get_integer (lf_cache loc) fmt cs"
  have "v = signed_value old (g_ok ?g, g_err ?g, g_val ?g, g_neg ?g)" "err = g_err ?g" "cs' = g_in ?g"
    using assms(2) by (auto simp: get_signed_integer_def signed_value_def Let_def split: if_splits)
  then show ?thesis unfolding it_signed_def by (auto intro!: gives_bind [OF gives_integer [OF assms(1)]] gives_ret)
qed

lemma gives_unsigned:
  assumes "left cs st" "get_unsigned_integer (lf_cache loc) fmt old cs = (v, err, cs')"
  shows "gives (it_unsigned loc vt eofc fmt old) st (v, err) cs'"
proof -
  let ?g = "get_integer (lf_cache loc) fmt cs"
  have "v = unsigned_value old (g_ok ?g, g_err ?g, g_val ?g, g_neg ?g)" "err = g_err ?g" "cs' = g_in ?g"
    using assms(2) by (auto simp: get_unsigned_integer_def unsigned_value_def Let_def split: if_splits)
  then show ?thesis unfolding it_unsigned_def by (auto intro!: gives_bind [OF gives_integer [OF assms(1)]] gives_ret)
qed

lemma gives_pointer:
  assumes "left cs st" "do_get_pointer (lf_cache loc) fmt old cs = (v, err, cs')"
  shows "gives (it_pointer loc vt eofc fmt old) st (v, err) cs'"
proof -
  obtain tval where t: "get_unsigned_integer (lf_cache loc) fmt 0 cs = (tval, err, cs')"
    and v: "v = (if err AND failbit = 0 then tval else old)"
    using assms(2) by (auto simp: do_get_pointer_def split: prod.splits)
  show ?thesis unfolding it_pointer_def v by (auto intro!: gives_bind [OF gives_unsigned [OF assms(1) t]] gives_ret)
qed

lemma gives_match:
  assumes "left cs st" "match_name ms cs = (ms', cs')"
  shows "gives (io_loop snd (it_match_turn vt eofc) (ms, True)) st (ms', False) cs'"
  using assms
proof (induction ms cs arbitrary: st rule: match_name.induct [case_names Both Name_over Input_over])
  case (Both m ms c cs)
  note here = this
  then have on: "snd st" by (simp add: left_def)
  note get = gives_deref [OF here(2), of eofc]
  let ?cmp = "\<lambda>c'. if m = c' then io_bind (isit_incr vt) (\<lambda>_. io_ret (ms, True)) else io_ret (m # ms, False)"
  have "gives (?cmp c) st' (if m = c then (ms, True) else (m # ms, False)) (if m = c then cs else c # cs)"
    if "left (c # cs) st'" for st'
  proof (cases "m = c")
    case True
    have "gives (io_bind (isit_incr vt) (\<lambda>_. io_ret (ms, True))) st' (ms, True) cs"
      by (rule gives_bind [OF gives_incr [OF that]]) (rule gives_ret)
    with True show ?thesis by simp
  qed (use that in \<open>simp add: gives_def\<close>)
  from gives_bind [where f = ?cmp, OF get this] on
  have turn: "gives (it_match_turn vt eofc (m # ms, True)) st (if m = c then (ms, True) else (m # ms, False)) (if m = c then cs else c # cs)"
    by (simp add: it_match_turn_def gives_def)
  show ?case
  proof (rule gives_loop [where b = "it_match_turn vt eofc", OF _ turn])
    fix st' assume "left (if m = c then cs else c # cs) st'"
    then show "gives (io_loop snd (it_match_turn vt eofc) (if m = c then (ms, True) else (m # ms, False))) st' (ms', False) cs'"
      using Both by (cases st') (auto simp: gives_def)
  qed simp
next
  case (Name_over cs)
  show ?case
    by (rule gives_loop [where a' = "([], False)" and cs = cs]) (use Name_over in \<open>simp_all add: it_match_turn_def gives_def\<close>)
next
  case (Input_over ms)
  note here = this
  then have "ms' = ms" "cs' = []" by (cases ms; simp)+
  moreover have "it_match_turn vt eofc (ms, True) st = Some (Ret (ms, False), st)"
    using here(1) by (cases ms) (simp_all add: it_match_turn_def left_def)
  then have "io_loop snd (it_match_turn vt eofc) (ms, True) st = Some (Ret (ms, False), st)"
    by (subst io_loop_step [where a' = "(ms, False)" and s' = st]) (simp_all add: io_loop.simps [of snd _ "(ms, False)"])
  ultimately show ?case using here(1) by (simp add: gives_def)
qed

lemma gives_bool:
  assumes "left cs st" "do_get_bool loc fmt lval old cs = (v, err, cs')"
  shows "gives (it_bool loc vt eofc lval fmt old) st (v, err) cs'"
proof (cases "fmt AND fl_boolalpha = 0")
  case True
  obtain l e where l: "get_signed_integer (lf_cache loc) fmt lval cs = (l, e, cs')"
    using assms(2) True by (auto simp: do_get_bool_def do_get_long_def split: prod.splits if_splits)
  have "(if e AND failbit = goodbit then
             if l = 0 then (False, e) else if l = 1 then (True, e) else (old, e OR failbit)
           else (old, e)) = (v, err)"
    using assms(2) True l by (auto simp: do_get_bool_def do_get_long_def split: if_splits)
  with gives_bind [OF gives_signed [OF assms(1) l], where f = "\<lambda>(lval, err). io_ret
          (if err AND failbit = goodbit then
             if lval = 0 then (False, err) else if lval = 1 then (True, err) else (old, err OR failbit)
           else (old, err))" and b = "(v, err)" and cs' = cs'] True show ?thesis
    unfolding it_bool_def by (simp add: gives_ret)
next
  case False
  let ?name = "if old then np_truename (lf_numpunct loc) else np_falsename (lf_numpunct loc)"
  obtain ms where m: "match_name ?name cs = (ms, cs')"
    and v: "v = old" "err = (if ms = [] then goodbit else if cs' = [] then eofbit else failbit)"
    using assms(2) False by (auto simp: do_get_bool_def split: prod.splits)
  from gives_match [OF assms(1) m, of eofc] obtain st' where
    st': "io_loop snd (it_match_turn vt eofc) (?name, True) st = Some (Ret (ms, False), st')" "left cs' st'"
    by (auto simp: gives_def)
  then have "(if snd st' then failbit else eofbit) = (if cs' = [] then eofbit else failbit)" by (simp add: left_def)
  with st' False v show ?thesis by (simp add: it_bool_def gives_def)
qed

text \<open>The facet on the buffer of a stream.\<close>

lemma facet_runs:
  assumes "inv b" "rest b = cs" "\<And>st. left cs st \<Longrightarrow> gives get st a cs'"
  shows "\<exists>b'. run_facet vt get b = Some (Ret a, b') \<and> inv b' \<and> rest b' = cs'"
proof -
  from sgetc_reads [OF assms(1)] assms(2) obtain b1 where
    b1: "sgetc vt b = Some (Ret (next_char cs), b1)" "inv b1" "rest b1 = cs" by auto
  have "left cs (b1, cs \<noteq> [])" using b1 by (simp add: left_def)
  from assms(3) [OF this] obtain st' where "get (b1, cs \<noteq> []) = Some (Ret a, st')" "left cs' st'" by (auto simp: gives_def)
  moreover have "isit_begin vt b = Some (Ret (cs \<noteq> []), b1)" using b1(1) by (simp add: isit_begin_def split: list.split)
  ultimately show ?thesis by (cases st') (simp add: run_facet_def io_bind_def left_def)
qed

lemma skip_ws_skips:
  assumes "io_sbuf s = Some b" "inv b"
  shows "\<exists>b'. skip_ws vt s = Some (Ret (dropWhile (lf_space (ib_loc s)) (rest b) = []), s\<lparr>io_sbuf := Some b'\<rparr>) \<and>
    inv b' \<and> rest b' = dropWhile (lf_space (ib_loc s)) (rest b)"
proof -
  let ?sp = "lf_space (ib_loc s)" let ?g = "\<lambda>c. case c of None \<Rightarrow> False | Some ch \<Rightarrow> ?sp ch"
  let ?next = "\<lambda>_. on_sbuf (snextc vt)"
  have loop: "\<exists>b'. io_loop ?g ?next (next_char cs) t = Some (Ret (next_char (dropWhile ?sp cs)), t\<lparr>io_sbuf := Some b'\<rparr>) \<and>
      inv b' \<and> rest b' = dropWhile ?sp cs"
    if "io_sbuf t = Some b" "inv b" "rest b = cs" for cs b and t :: "('c, ('c, 'z) streambuf_scheme) ios"
    using that
  proof (induction cs arbitrary: b t)
    case Nil
    then show ?case by (cases t) auto
  next
    case (Cons c cs)
    show ?case
    proof (cases "?sp c")
      case True
      from snextc_reads [OF Cons.prems(2)] Cons.prems(3) obtain b1 where
        b1: "snextc vt b = Some (Ret (next_char cs), b1)" "inv b1" "rest b1 = cs" by auto
      then have "on_sbuf (snextc vt) t = Some (Ret (next_char cs), t\<lparr>io_sbuf := Some b1\<rparr>)"
        using Cons.prems(1) by (simp add: on_sbuf_def)
      then have "io_loop ?g ?next (Some c) t = io_loop ?g ?next (next_char cs) (t\<lparr>io_sbuf := Some b1\<rparr>)"
        using True by (intro io_loop_step) simp_all
      with Cons.IH [of "t\<lparr>io_sbuf := Some b1\<rparr>", OF _ b1(2,3)] True show ?thesis by simp
    next
      case False
      with Cons.prems show ?thesis by (cases t) auto
    qed
  qed
  from sgetc_reads [OF assms(2)] obtain b0 where
    b0: "sgetc vt b = Some (Ret (next_char (rest b)), b0)" "inv b0" "rest b0 = rest b" by blast
  then have "on_sbuf (sgetc vt) s = Some (Ret (next_char (rest b)), s\<lparr>io_sbuf := Some b0\<rparr>)"
    using assms(1) by (simp add: on_sbuf_def)
  moreover from loop [of "s\<lparr>io_sbuf := Some b0\<rparr>", OF _ b0(2,3)] obtain b' where
    "io_loop ?g ?next (next_char (rest b)) (s\<lparr>io_sbuf := Some b0\<rparr>) =
      Some (Ret (next_char (dropWhile ?sp (rest b))), s\<lparr>io_sbuf := Some b'\<rparr>)" "inv b'" "rest b' = dropWhile ?sp (rest b)" by auto
  ultimately show ?thesis
    by (cases "dropWhile ?sp (rest b)") (auto simp: skip_ws_def simp del: dropWhile_eq_Nil_conv)
qed

text \<open>The sentry that skips white space on a good stream.\<close>

lemma sentry_skips:
  assumes "good s" "io_exceptions s = goodbit" "io_sbuf s = Some b" "inv b" "flags_get s AND fl_skipws \<noteq> 0"
  defines "cs \<equiv> dropWhile (lf_space (ib_loc s)) (rest b)"
  shows "\<exists>b' fl. inv b' \<and> rest b' = cs \<and>
    sentry_init vt False s = Some (Ret (cs \<noteq> []),
      if cs = [] then state_set (eofbit OR failbit) (s\<lparr>io_flushed := fl, io_sbuf := Some b'\<rparr>)
      else s\<lparr>io_flushed := fl, io_sbuf := Some b'\<rparr>)"
proof -
  from flush_tied_eq [of s] obtain fl where fl: "flush_tied s = s\<lparr>io_flushed := fl\<rparr>" by blast
  let ?s = "s\<lparr>io_flushed := fl\<rparr>"
  from skip_ws_skips [of ?s b] assms(3,4) obtain b' where
    b': "skip_ws vt ?s = Some (Ret (cs = []), ?s\<lparr>io_sbuf := Some b'\<rparr>)" "inv b'" "rest b' = cs" by (auto simp: cs_def)
  have q: "setstate (eofbit OR failbit) (?s\<lparr>io_sbuf := Some b'\<rparr>) = Some (Ret (), state_set (eofbit OR failbit) (?s\<lparr>io_sbuf := Some b'\<rparr>))"
    by (rule setstate_quiet) (simp_all add: assms(2))
  have g: "good (?s\<lparr>io_sbuf := Some b'\<rparr>)" "\<not> good (state_set (eofbit OR failbit) (?s\<lparr>io_sbuf := Some b'\<rparr>))"
    using assms(1) by (simp_all add: good_def state_bits)
  have sk: "flags_get ?s AND fl_skipws \<noteq> 0" using assms(5) by (simp add: flags_get_def)
  have "sentry_init vt False s = Some (Ret (cs \<noteq> []),
      if cs = [] then state_set (eofbit OR failbit) (?s\<lparr>io_sbuf := Some b'\<rparr>) else ?s\<lparr>io_sbuf := Some b'\<rparr>)"
    using b'(1) q g sk assms(1) fl by (cases "cs = []") (simp_all add: sentry_init_def io_catch_def)
  with b'(2,3) show ?thesis by blast
qed

text \<open>An extractor whose facet gives a value stores it, sets the state of the facet and leaves what the facet leaves.\<close>

lemma numeric_reads:
  assumes s: "good s" "io_exceptions s = goodbit" "io_sbuf s = Some b" "inv b" "flags_get s AND fl_skipws \<noteq> 0"
    and cs: "dropWhile (lf_space (ib_loc s)) (rest b) = cs" "cs \<noteq> []"
    and get: "\<And>st. left cs st \<Longrightarrow> gives (get (ib_loc s) (flags_get s) v) st (v', err) cs'"
  shows "\<exists>s' b'. get_numeric vt get (s, v) = Some (Ret (), (s', v')) \<and> io_state s' = err \<and> same_format s s' \<and>
    io_sbuf s' = Some b' \<and> inv b' \<and> rest b' = cs'"
proof -
  from sentry_skips [OF s] cs obtain b1 fl where 1: "inv b1" "rest b1 = cs"
    "sentry_init vt False s = Some (Ret True, s\<lparr>io_flushed := fl, io_sbuf := Some b1\<rparr>)" by auto
  let ?s = "s\<lparr>io_flushed := fl, io_sbuf := Some b1\<rparr>"
  have f: "ib_loc ?s = ib_loc s" "flags_get ?s = flags_get s" by (simp_all add: flags_get_def)
  from facet_runs [OF 1(1,2) get] obtain b2 where
    2: "run_facet vt (get (ib_loc s) (flags_get s) v) b1 = Some (Ret (v', err), b2)" "inv b2" "rest b2 = cs'" by blast
  let ?t = "?s\<lparr>io_sbuf := Some b2\<rparr>"
  have r: "on_stream (on_sbuf (run_facet vt (get (ib_loc s) (flags_get s) v))) (?s, v) = Some (Ret (v', err), (?t, v))"
    using 2(1) by (simp add: on_stream_def on_sbuf_def)
  have q: "setstate err ?t = Some (Ret (), state_set err ?t)" by (rule setstate_quiet) (simp_all add: s(2))
  have "get_numeric vt get (s, v) = Some (Ret (), (state_set err ?t, v'))"
    using 1(3) r q by (simp add: get_numeric_def on_stream_step io_catch_def set_var_def f)
  moreover have "io_state (state_set err ?t) = err" using s(1) by (simp add: good_def goodbit_def)
  moreover have "same_format s (state_set err ?t)" by (intro same_format_simps)
  ultimately show ?thesis using 2 by auto
qed

lemma numeric_ends:
  assumes s: "good s" "io_exceptions s = goodbit" "io_sbuf s = Some b" "inv b" "flags_get s AND fl_skipws \<noteq> 0"
    and cs: "dropWhile (lf_space (ib_loc s)) (rest b) = []"
  shows "\<exists>s'. get_numeric vt get (s, v) = Some (Ret (), (s', v)) \<and> io_state s' = (eofbit OR failbit) \<and> same_format s s'"
proof -
  from sentry_skips [OF s] cs obtain b1 fl where
    1: "sentry_init vt False s = Some (Ret False, state_set (eofbit OR failbit) (s\<lparr>io_flushed := fl, io_sbuf := Some b1\<rparr>))" by auto
  let ?t = "state_set (eofbit OR failbit) (s\<lparr>io_flushed := fl, io_sbuf := Some b1\<rparr>)"
  have q: "setstate failbit ?t = Some (Ret (), state_set failbit ?t)" by (rule setstate_quiet) (simp_all add: s(2))
  have "get_numeric vt get (s, v) = Some (Ret (), (state_set failbit ?t, v))"
    using 1 q by (simp add: get_numeric_def on_stream_step io_catch_def)
  moreover have "io_state (state_set failbit ?t) = (eofbit OR failbit)" using s(1) by (simp add: good_def state_bits)
  moreover have "same_format s (state_set failbit ?t)" by (intro same_format_simps)
  ultimately show ?thesis by blast
qed

end

interpretation sscan: scan_source "str_vt junk other" sbuf_ok rest sbuf_keep for junk other
  by unfold_locales

section \<open>Numbers on a string stream\<close>

text \<open>The characters numbers are made of: digits, signs, and the letter of the prefix.\<close>

definition number_char :: "('c :: linorder) cache \<Rightarrow> 'c \<Rightarrow> bool" where
  "number_char ch c \<longleftrightarrow> cache_find ch c < 16 \<or> cache_find ch c \<in> {cb_plus, cb_minus, cb_hex}"

lemma long_text_known:
  assumes "is_table ch cvt" "ungrouped g" "field_base fmt = 10" "do_num_put_long fmt g v cvt = Some (out, fp)"
  shows "out \<noteq> []" "\<forall>c \<in> set out. number_char ch c"
proof -
  note fb = format_base [OF refl, of fmt]
  have b: "fmt_base fmt = 10" "unat (fmt_base fmt) = 10" using fb assms(3) by auto
  have "g = [] \<or> g ! 0 \<noteq> 0" using assms(2) by (auto simp: ungrouped_def char_max_def)
  moreover have "\<not> (is_negative True fmt v \<and> v = long_min)" using assms(4) by (auto simp: do_num_put_long_def cs_format_def Let_def)
  ultimately have
    out: "out = map ((!) cvt) (prefix_text (fmt_base fmt) fmt v (is_negative True fmt v) @
      digit_text (unat (fmt_base fmt)) g (unat (magnitude True fmt v)))"
    using cs_format_text [of g True fmt v cvt] assms(4) by (auto simp: do_num_put_long_def)
  note plain = plain_digits [OF assms(2), of 10 "unat (magnitude True fmt v)"]
  show "out \<noteq> []" using plain(2) b unfolding out by simp
  have "\<forall>d \<in> set (digit_text 10 g (unat (magnitude True fmt v))). d < 10" using plain(3) by simp
  then show "\<forall>c \<in> set out. number_char ch c"
    using assms(1) unfolding out b by (auto simp: prefix_text_def sign_text_def is_table_def number_char_def)
qed

text \<open>
  A locale whose facets have distinct characters and no grouping and whose white space is none of the
  characters of numbers, with a separator that is white space.
\<close>

definition scans_with :: "'c numpunct \<Rightarrow> (char \<Rightarrow> 'c) \<Rightarrow> ('c :: linorder) facets \<Rightarrow> 'c \<Rightarrow> bool" where
  "scans_with np wd loc sp \<longleftrightarrow> cache_init (Some np) (Some wd) = Some (lf_cache loc) \<and> distinct (scan_chars np wd) \<and>
     ungrouped (m_grouping (lf_cache loc)) \<and> lf_space loc sp \<and> (\<forall>c. lf_space loc c \<longrightarrow> \<not> number_char (lf_cache loc) c)"

definition long_items :: "'c \<Rightarrow> ulong list \<Rightarrow> 'c item list" where
  "long_items sp vs = concat (map (\<lambda>v. [Long v, Char sp]) vs)"

fun get_longs :: "('c :: linorder, ('c, 'z) streambuf_scheme) vtable \<Rightarrow> 'c \<Rightarrow> nat \<Rightarrow>
    ('c, ('c, 'z) streambuf_scheme, ulong list) stream_op" where
  "get_longs vt eofc 0 s = io_ret [] s"
| "get_longs vt eofc (Suc n) s =
     (case is_long vt eofc (s, 0) of
        None \<Rightarrow> None
      | Some (Throw, (s, _)) \<Rightarrow> Some (Throw, s)
      | Some (Ret _, (s, v)) \<Rightarrow> io_bind (get_longs vt eofc n) (\<lambda>vs. io_ret (v # vs)) s)"

definition long_text :: "'c facets \<Rightarrow> fmtflags \<Rightarrow> ulong \<Rightarrow> 'c list" where
  "long_text loc f v = number_text loc (lf_widen loc CHR '' '') f 0 (table_of loc f) True v"

lemma items_text_long:
  "items_text loc (lf_widen loc CHR '' '') f 0 (long_items sp vs) = concat (map (\<lambda>v. long_text loc f v @ [sp]) vs)"
  by (induction vs) (simp_all add: long_items_def long_text_def adjusted_def padded_narrow)

lemma long_text_reads:
  assumes "scans_with np wd loc sp" "field_base f = 10" "v \<noteq> long_min"
  shows "do_get_long (lf_cache loc) f old (long_text loc f v @ sp # rst) = (v, goodbit, sp # rst)"
    "long_text loc f v \<noteq> [] \<and> \<not> lf_space loc (hd (long_text loc f v))" "length (long_text loc f v) \<le> 46"
proof -
  let ?ch = "lf_cache loc" let ?g = "m_grouping ?ch" let ?cvt = "table_of loc f"
  have a: "cache_init (Some np) (Some wd) = Some ?ch" "distinct (scan_chars np wd)" "ungrouped ?g" "lf_space loc sp"
    "\<And>c. number_char ?ch c \<Longrightarrow> \<not> lf_space loc c" using assms(1) by (auto simp: scans_with_def)
  have t: "is_table ?ch ?cvt" using tables [OF a(1,2)] by (simp add: table_of_def)
  have "\<not> number_char ?ch sp" using a(4,5) by blast
  then have e: "ends_number ?ch f (sp # rst)" using assms(2) by (simp add: ends_number_def no_digit_def number_char_def)
  from long_read_back [OF t a(3) assms(2) e assms(3), of old] obtain out fp where
    p: "do_num_put_long f ?g v ?cvt = Some (out, fp)" "do_get_long ?ch f old (out @ sp # rst) = (v, at_end (sp # rst), sp # rst)"
    by blast
  have ok: "grouping_ok loc" "base_ok f" using a(3) assms(2)
    by (auto simp: grouping_ok_def ungrouped_def char_max_def base_ok_def field_base_def Let_def split: if_splits)
  have out: "long_text loc f v = out"
    using format_number [OF ok, of True v ?cvt 0 "lf_widen loc CHR '' ''"] p(1) assms(3) by (auto simp: do_num_put_long_def long_text_def padded_narrow)
  show "length (long_text loc f v) \<le> 46"
    using cs_format_length [OF base_ok_base [OF ok(2)], of True v ?g ?cvt] p(1) assms(3) unfolding out by (auto simp: do_num_put_long_def)
  from p(2) show "do_get_long ?ch f old (long_text loc f v @ sp # rst) = (v, goodbit, sp # rst)"
    unfolding out by (simp add: at_end_def)
  note k = long_text_known [OF t a(3) assms(2) p(1)]
  from k(1) have "hd out \<in> set out" by simp
  with k(2) a(5) have "\<not> lf_space loc (hd out)" by blast
  with k(1) show "long_text loc f v \<noteq> [] \<and> \<not> lf_space loc (hd (long_text loc f v))" unfolding out by blast
qed

lemma longs_text_bound:
  assumes "scans_with np wd loc sp" "field_base f = 10"
  shows "long_min \<notin> set vs \<Longrightarrow> length (concat (map (\<lambda>v. long_text loc f v @ [sp]) vs)) \<le> 47 * length vs"
proof (induction vs)
  case (Cons v vs)
  then have "v \<noteq> long_min" by auto
  from long_text_reads(3) [OF assms this] Cons show ?case by simp
qed simp

lemma longs_text_length:
  assumes "scans_with np wd loc sp" "field_base f = 10" "long_min \<notin> set vs" "length vs < 2 ^ 25"
  shows "length (concat (map (\<lambda>v. long_text loc f v @ [sp]) vs)) < 2 ^ 31"
  using longs_text_bound [OF assms(1-3)] assms(4) by simp

lemma long_items_ok: "long_min \<notin> set vs \<Longrightarrow> list_all item_ok (long_items sp vs)"
  by (induction vs) (auto simp: long_items_def)

context scan_source
begin

lemma get_longs_reads:
  assumes "scans_with np wd loc sp" "field_base f = 10" "f AND fl_skipws \<noteq> 0"
    and "good s" "io_exceptions s = goodbit" "ib_loc s = loc" "flags_get s = f"
    and "io_sbuf s = Some b" "inv b" "rest b = pre @ concat (map (\<lambda>v. long_text loc f v @ [sp]) vs)" "\<forall>c \<in> set pre. lf_space loc c"
    and "long_min \<notin> set vs"
  shows "\<exists>s'. get_longs vt eofc (length vs) s = Some (Ret vs, s') \<and> good s'"
  using assms(4-)
proof (induction vs arbitrary: s b pre)
  case (Cons v vs)
  let ?rst = "concat (map (\<lambda>v. long_text loc f v @ [sp]) vs)"
  have "v \<noteq> long_min" using Cons.prems(9) by auto
  note r = long_text_reads [OF assms(1,2) this]
  let ?cs = "long_text loc f v @ sp # ?rst"
  have "dropWhile (lf_space loc) ?cs = ?cs" using r(2) by (cases "long_text loc f v") auto
  then have ws: "dropWhile (lf_space (ib_loc s)) (rest b) = ?cs" using Cons.prems(3,7,8) by (simp add: dropWhile_append2)
  have sk: "flags_get s AND fl_skipws \<noteq> 0" using Cons.prems(4) assms(3) by simp
  have get: "gives (it_signed (ib_loc s) vt eofc (flags_get s) 0) st (v, goodbit) (sp # ?rst)" if "left ?cs st" for st
    using gives_signed [OF that] r(1) [of 0 ?rst] Cons.prems(3,4) by (simp add: do_get_long_def)
  from numeric_reads [where get = "\<lambda>loc. it_signed loc vt eofc", OF Cons.prems(1,2,5,6) sk ws _ get] obtain s' b' where
    s': "get_numeric vt (\<lambda>loc. it_signed loc vt eofc) (s, 0) = Some (Ret (), (s', v))" "io_state s' = goodbit" "same_format s s'"
      "io_sbuf s' = Some b'" "inv b'" "rest b' = [sp] @ ?rst" by auto
  have "lf_space loc sp" using assms(1) by (simp add: scans_with_def)
  with Cons.IH [of s' b' "[sp]"] s' Cons.prems obtain t where
    "get_longs vt eofc (length vs) s' = Some (Ret vs, t)" "good t" by (auto simp: good_def same_format_def)
  with s'(1) show ?case by (simp add: is_long_def)
qed simp

end

text \<open>
  C18: Values of type \<^verbatim>\<open>long\<close> written to a new string stream, each with a separator behind it, are read back from
  a new string stream on the text that was written, and both streams stay good, in every locale without grouping whose
  facets tell the characters of numbers apart from each other and from white space. There are fewer than
  \<open>2 ^ 25\<close> values, so that the text stays below \<open>2 ^ 31\<close> characters, and none of them is the smallest \<^verbatim>\<open>long\<close>.
\<close>

theorem longs_roundtrip:
  assumes "scans_with np wd loc sp" and "long_min \<notin> set vs" and "length vs < 2 ^ 25"
  shows "\<exists>s b s'. put_items (str_vt junk other) null (long_items sp vs) (ios_new loc (Some (stringbuf_new [] om_out)) zero) = Some (Ret (), s) \<and>
    good s \<and> io_sbuf s = Some b \<and>
    get_longs (str_vt junk other) eofc (length vs) (ios_new loc (Some (stringbuf_new (str_get b) om_in)) zero) = Some (Ret vs, s') \<and> good s'"
proof -
  let ?b = "stringbuf_new [] om_out" let ?f = "fl_dec OR fl_skipws"
  let ?text = "concat (map (\<lambda>v. long_text loc ?f v @ [sp]) vs)" let ?in = "ios_new loc (Some (stringbuf_new ?text om_in)) zero"
  note b = new_string_sink
  have f: "base_ok ?f" "field_base ?f = 10" "?f AND fl_skipws \<noteq> 0" by (simp_all add: base_ok_def field_base_def flag_defs Let_def)
  have g: "grouping_ok loc" using assms(1) by (auto simp: scans_with_def grouping_ok_def ungrouped_def char_max_def)
  have "str_fits (fold spec_put (items_text loc (lf_widen loc CHR '' '') ?f 0 (long_items sp vs)) (sbuf_abs ?b))"
    unfolding b(2) fits_string items_text_long by (rule longs_text_length [OF assms(1) f(2) assms(2,3)])
  from sstream.items_write [OF new_string_stream b(1) g f(1) long_items_ok [OF assms(2)] order.refl this, of junk other null] obtain s b' where
    s: "put_items (str_vt junk other) null (long_items sp vs) (ios_new loc (Some ?b) zero) = Some (Ret (), s)" "good s"
      "io_sbuf s = Some b'" "writable b'" "sbuf_abs b' = fold spec_put ?text (sbuf_abs ?b)"
    unfolding items_text_long writes_as_def by blast
  from s(4,5) have t: "str_get b' = ?text" using spec_put_content [of b' ?text] by (simp add: writable_def b(2))
  have "good ?in" "io_exceptions ?in = goodbit" "ib_loc ?in = loc" "flags_get ?in = ?f" "io_sbuf ?in = Some (stringbuf_new ?text om_in)"
    by (simp_all add: ios_new_def ios_init_def good_def flags_get_def flag_defs Let_def)
  from sscan.get_longs_reads [OF assms(1) f(2,3) this new_string_source(1), of "[]" vs junk other eofc] new_string_source(2) [of ?text] assms(2)
  obtain s' where "get_longs (str_vt junk other) eofc (length vs) ?in = Some (Ret vs, s')" "good s'" by auto
  with s t show ?thesis by auto
qed

definition c_facets :: "char facets" where
  "c_facets = (plain_facets [])\<lparr>lf_cache := c_cache\<rparr>"

theorem longs_roundtrip_witness:
  "scans_with c_punct id c_facets CHR '' '' \<and>
   (\<exists>s b s'. put_items (str_vt (\<lambda>_. CHR ''?'') CHR ''!'') ''(null)'' [Long (- 42), Char CHR '' '', Long 7, Char CHR '' '']
       (ios_new c_facets (Some (stringbuf_new [] om_out)) CHR 0x00) = Some (Ret (), s) \<and> io_sbuf s = Some b \<and>
     get_longs (str_vt (\<lambda>_. CHR ''?'') CHR ''!'') CHR 0xFF 2 (ios_new c_facets (Some (stringbuf_new (str_get b) om_in)) CHR 0x00) =
       Some (Ret [- 42, 7], s') \<and> good s')"
proof -
  have ok: "scans_with c_punct id c_facets CHR '' ''"
    using c_cache_init c_scan by (simp add: scans_with_def c_facets_def plain_facets_def ungrouped_def number_char_def c_class scan_classes)
  have "long_min \<notin> set [- 42, 7]" by (simp add: long_min_def)
  moreover have "length [- 42, 7 :: ulong] < 2 ^ 25" by simp
  ultimately show ?thesis
    using longs_roundtrip [OF ok, of "[- 42, 7]" "\<lambda>_. CHR ''?''" "CHR ''!''" "''(null)''" "CHR 0x00" "CHR 0xFF"] ok
    unfolding long_items_def by (simp add: numeral_2_eq_2 del: set_simps) blast
qed

text \<open>What an extractor does, by what the facet gives for the characters behind the white space.\<close>

definition extracts :: "(('c, 'c stringbuf) ios \<times> 'v, unit) io \<Rightarrow> ('c list \<Rightarrow> 'v \<times> iostate \<times> 'c list) \<Rightarrow>
    ('c, 'c stringbuf) ios \<Rightarrow> 'v \<Rightarrow> 'c list \<Rightarrow> bool" where
  "extracts ex get s v cs \<longleftrightarrow>
     (let ds = dropWhile (lf_space (ib_loc s)) cs in
      if ds = [] then \<exists>s'. ex (s, v) = Some (Ret (), (s', v)) \<and> io_state s' = (eofbit OR failbit)
      else case get ds of (v', err, rst) \<Rightarrow>
        \<exists>s' f'. ex (s, v) = Some (Ret (), (s', v')) \<and> io_state s' = err \<and> io_sbuf s' = Some f' \<and> sbuf_ok f' \<and> rest f' = rst)"

lemma numeric_extracts:
  assumes "reads s f cs" "flags_get s AND fl_skipws \<noteq> 0"
    and "\<And>ds st v' err rst. sscan.left ds st \<Longrightarrow> get ds = (v', err, rst) \<Longrightarrow>
      sscan.gives (facet (ib_loc s) (flags_get s) v) st (v', err) rst"
  shows "extracts (get_numeric (str_vt junk other) facet) get s v cs"
proof -
  let ?ds = "dropWhile (lf_space (ib_loc s)) cs"
  from assms(1) have s: "good s" "io_exceptions s = goodbit" "io_sbuf s = Some f" "sbuf_ok f" "rest f = cs" by (simp_all add: reads_def)
  obtain v' err rst where g: "get ?ds = (v', err, rst)" by (cases "get ?ds")
  show ?thesis
  proof (cases "?ds = []")
    case True
    with sscan.numeric_ends [OF s(1-4) assms(2), of junk other facet v] s(5) show ?thesis
      unfolding extracts_def Let_def by auto
  next
    case False
    from sscan.numeric_reads [where get = facet and junk = junk and other = other, OF s(1-4) assms(2) _ False assms(3) [OF _ g]] s(5) g False
    show ?thesis unfolding extracts_def Let_def by auto
  qed
qed

text \<open>
  C24: The extractors of \<^verbatim>\<open>long\<close>, \<^verbatim>\<open>unsigned long\<close>, \<^verbatim>\<open>unsigned short\<close>, \<^verbatim>\<open>unsigned int\<close>, pointers and truth values,
  on a good string stream that skips white space and throws nothing, do exactly what the
  facet does on the list of the characters behind the white space: same value, same state, same
  characters left. When there are none they set \<^verbatim>\<open>eofbit\<close> and \<^verbatim>\<open>failbit\<close> and keep the value. The extractors of \<^verbatim>\<open>int\<close> and
  \<^verbatim>\<open>short\<close> are not among them: they go through a variable of type \<^verbatim>\<open>long\<close> that has no initial value (see below).
\<close>

theorem extractors_agree:
  assumes "reads s f cs" "flags_get s AND fl_skipws \<noteq> 0"
  shows "extracts (is_long (str_vt junk other) eofc) (do_get_long (lf_cache (ib_loc s)) (flags_get s) v) s v cs \<and>
    extracts (is_ulong (str_vt junk other) eofc) (do_get_ulong (lf_cache (ib_loc s)) (flags_get s) u) s u cs \<and>
    extracts (is_ushort (str_vt junk other) eofc) (do_get_ushort (lf_cache (ib_loc s)) (flags_get s) h) s h cs \<and>
    extracts (is_uint (str_vt junk other) eofc) (do_get_uint (lf_cache (ib_loc s)) (flags_get s) i) s i cs \<and>
    extracts (is_pointer (str_vt junk other) eofc) (do_get_pointer (lf_cache (ib_loc s)) (flags_get s) p) s p cs \<and>
    extracts (is_bool (str_vt junk other) eofc lval) (do_get_bool (ib_loc s) (flags_get s) lval t) s t cs"
  unfolding is_long_def is_ulong_def is_ushort_def is_uint_def is_pointer_def is_bool_def
    do_get_long_def do_get_ulong_def do_get_ushort_def do_get_uint_def
  by (intro conjI numeric_extracts [OF assms(1,2)])
    (blast intro: sscan.gives_signed sscan.gives_unsigned sscan.gives_pointer sscan.gives_bool)+

theorem extractors_agree_witness:
  "\<exists>s' f'. is_ulong (str_vt (\<lambda>_. CHR ''?'') CHR ''!'') CHR 0xFF
       (ios_new c_facets (Some (stringbuf_new ''  42 '' om_in)) CHR 0x00, 5) = Some (Ret (), (s', 42)) \<and>
     good s' \<and> io_sbuf s' = Some f' \<and> rest f' = '' ''"
proof -
  let ?s = "ios_new c_facets (Some (stringbuf_new ''  42 '' om_in)) CHR 0x00"
  have fl: "flags_get ?s = fl_dec OR fl_skipws" "ib_loc ?s = c_facets"
    by (simp_all add: ios_new_def ios_init_def flags_get_def flag_defs Let_def)
  have sk: "flags_get ?s AND fl_skipws \<noteq> 0" unfolding fl by (simp add: flag_defs)
  have num: "do_get_ulong c_cache (fl_dec OR fl_skipws) 5 ''42 '' = (42, goodbit, '' '')"
    by (simp add: do_get_ulong_def get_unsigned_integer_def get_integer_def get_based_def field_base_def flag_defs Let_def
      get_digits_def skip_zeros.simps read_digits.simps init_count_def ulong_digits_def ulong_digits10_def
      c_class scan_classes at_end_def)
  from extractors_agree [OF new_reads sk, of "\<lambda>_. CHR ''?''" "CHR ''!''" "CHR 0xFF" 0 5 0 0 0 0 False]
  have "extracts (is_ulong (str_vt (\<lambda>_. CHR ''?'') CHR ''!'') CHR 0xFF) (do_get_ulong c_cache (fl_dec OR fl_skipws) 5) ?s 5 ''  42 ''"
    unfolding fl by (simp add: c_facets_def)
  moreover have "dropWhile (lf_space (ib_loc ?s)) ''  42 '' = ''42 ''" unfolding fl(2) by (simp add: c_facets_def plain_facets_def)
  ultimately show ?thesis using num by (auto simp: extracts_def good_def)
qed

text \<open>
  At the end of the input \<^verbatim>\<open>int\<close> gets the value of the variable that was never set.
\<close>

lemma int_from_nothing:
  assumes "reads s f []" "flags_get s AND fl_skipws \<noteq> 0"
  shows "\<exists>s'. is_int (str_vt junk other) eofc tmp (s, val) = Some (Ret (), (s', clip_word tmp))"
proof -
  from assms(1) have s: "good s" "io_exceptions s = goodbit" "io_sbuf s = Some f" "sbuf_ok f" "rest f = []" by (simp_all add: reads_def)
  from sscan.numeric_ends [OF s(1-4) assms(2), of junk other "\<lambda>loc. it_signed loc (str_vt junk other) eofc" tmp] s(5)
  show ?thesis by (auto simp: is_int_def get_clipped_def is_long_def)
qed

end
