(* ===== verification/Strstreambuf.thy ===== *)
theory Strstreambuf
  imports Istream_Numbers
begin

text \<open>
  The stream buffer on arrays of characters \<^verbatim>\<open>strstreambuf\<close> (\<^verbatim>\<open>cxxrt/strstream.h\<close>, \<^verbatim>\<open>src/cstrstrm.cpp\<close>). It
  works on an array it is given or grows one of its own; offset 0 of \<open>sb_mem\<close> is the start of the array. \<open>ss_live\<close> counts the arrays it has
  allocated and not freed, with \<^verbatim>\<open>new\<close> and \<^verbatim>\<open>delete\<close> or with the functions of the user; what an allocated array holds
  is the parameter \<open>junk\<close>.

  A growing buffer is a second instance of the contracts of a source and of a sink of characters, so all
  that is shown of streams on such buffers holds for it: what is written to the stream can be read from the
  same stream. \<^verbatim>\<open>pcount\<close>, \<^verbatim>\<open>str\<close> and seeking do not do what they are for.
\<close>

unbundle bit_operations_syntax

section \<open>The buffer\<close>

record strstrbuf = "char streambuf" +
  ss_chunk :: int
  ss_allocated :: bool
  ss_constant :: bool
  ss_dynamic :: bool
  ss_frozen :: bool
  ss_live :: nat

definition default_chunk_size :: int where "default_chunk_size = 65536"
definition int_max :: int where "int_max = 2147483647"

definition ss_bare :: "char list \<Rightarrow> int \<Rightarrow> bool \<Rightarrow> bool \<Rightarrow> strstrbuf" where
  "ss_bare mem chunk const dyn =
     \<lparr>sb_mem = mem, gbeg = 0, gcur = 0, gend = 0, pbeg = 0, pcur = 0, pend = 0, g_set = False, p_set = False,
      ss_chunk = chunk, ss_allocated = False, ss_constant = const, ss_dynamic = dyn, ss_frozen = False, ss_live = 0\<rparr>"

definition strstreambuf_new :: "int \<Rightarrow> strstrbuf" where
  "strstreambuf_new chunk = ss_bare [] (if chunk = 0 then default_chunk_size else chunk) False True"

text \<open>An array of the user with its characters, or the null pointer; \<open>pb\<close> is where writing starts.\<close>

definition ss_init :: "char list option \<Rightarrow> int \<Rightarrow> nat option \<Rightarrow> strstrbuf \<Rightarrow> strstrbuf" where
  "ss_init gn n pb s =
     (let n = (if n = 0 then case gn of None \<Rightarrow> 0 | Some cs \<Rightarrow> int (length (takeWhile (\<lambda>c. c \<noteq> CHR 0x00) cs))
               else if n < 0 then int_max else n)
      in case pb of
           None \<Rightarrow> setg 0 0 (nat n) s
         | Some p \<Rightarrow> setp p (p + nat n) (setg 0 0 p s))"

definition ss_array :: "char list option \<Rightarrow> int \<Rightarrow> nat option \<Rightarrow> strstrbuf" where
  "ss_array gn n pb = ss_init gn n pb (ss_bare (case gn of None \<Rightarrow> [] | Some cs \<Rightarrow> cs) 0 False False)"

definition ss_const_array :: "char list option \<Rightarrow> int \<Rightarrow> strstrbuf" where
  "ss_const_array gn n = ss_init gn n None (ss_bare (case gn of None \<Rightarrow> [] | Some cs \<Rightarrow> cs) 0 True False)"

definition ss_destroy :: "strstrbuf \<Rightarrow> strstrbuf" where
  "ss_destroy s = (if ss_allocated s \<and> \<not> ss_frozen s then s\<lparr>ss_live := ss_live s - 1\<rparr> else s)"

definition freeze :: "bool \<Rightarrow> strstrbuf \<Rightarrow> strstrbuf" where
  "freeze f s = (if ss_dynamic s then s\<lparr>ss_frozen := f\<rparr> else s)"

text \<open>\<^verbatim>\<open>str\<close> returns a pointer into the array.\<close>

definition ss_str :: "strstrbuf \<Rightarrow> nat \<times> strstrbuf" where
  "ss_str s = (let s = (if ss_dynamic s then s\<lparr>ss_frozen := True\<rparr> else s) in (gcur s, s))"

definition pcount :: "strstrbuf \<Rightarrow> int" where
  "pcount s = int (pcur s) - int (pbeg s)"

definition ss_grow :: "(nat \<Rightarrow> char) \<Rightarrow> strstrbuf \<Rightarrow> strstrbuf" where
  "ss_grow junk s =
     (let n = pend s - gbeg s; d = gbeg s;
          tmp = take n (drop d (sb_mem s)) @ map junk [n..<n + nat (ss_chunk s)];
          p = pcur s - d;
          s = setg 0 (gcur s - d) (gend s - d) (s\<lparr>sb_mem := tmp\<rparr>);
          s = setp p (n + nat (ss_chunk s)) s
      in s\<lparr>ss_live := Suc (ss_live s) - (if ss_allocated s then 1 else 0), ss_allocated := True\<rparr>)"

definition ss_overflow :: "(nat \<Rightarrow> char) \<Rightarrow> char option \<Rightarrow> (strstrbuf, char option) io" where
  "ss_overflow junk c s =
     (case c of
        None \<Rightarrow> io_ret (Some CHR '' '') s
      | Some ch \<Rightarrow>
          let store = (\<lambda>s. io_ret c (pbump 1 (s\<lparr>sb_mem := (sb_mem s)[pcur s := ch]\<rparr>))) in
          if pcur s = pend s then
            if \<not> ss_dynamic s \<or> ss_frozen s then io_ret None s else store (ss_grow junk s)
          else store s)"

text \<open>The result 0 is the character with that value.\<close>

definition ss_pbackfail :: "char option \<Rightarrow> (strstrbuf, char option) io" where
  "ss_pbackfail c s =
     (if gbeg s = gcur s then io_ret None s
      else if c \<noteq> None \<and> c \<noteq> Some (sb_mem s ! (gcur s - 1)) then
        if ss_constant s then io_ret None s
        else io_ret c (gbump (- 1) (s\<lparr>sb_mem := (sb_mem s)[gcur s - 1 := the c]\<rparr>))
      else io_ret (Some CHR 0x00) (gbump (- 1) s))"

definition ss_underflow :: "(strstrbuf, char option) io" where
  "ss_underflow s =
     (if gcur s \<noteq> gend s then io_ret (Some (sb_mem s ! gcur s)) s
      else if p_set s \<and> gend s \<noteq> pcur s then
        let s = setg (gbeg s) (gcur s) (pcur s) s in io_ret (Some (sb_mem s ! gcur s)) s
      else io_ret None s)"

definition ss_seekoff :: "int \<Rightarrow> seekdir \<Rightarrow> openmode \<Rightarrow> strstrbuf \<Rightarrow> int option \<times> strstrbuf" where
  "ss_seekoff off dir which s =
     (let w = which AND (om_in OR om_out) in
      if dir = Cur \<and> w = om_in OR om_out \<or> w = 0 then (None, s)
      else
        let newoff = (if dir = Cur then int (if has_in which then gcur s else pcur s)
                      else int (if p_set s then pend s else gend s)) - int (gbeg s);
            pos = newoff + off
        in if pos < int (gcur s) - int (gbeg s) \<or> pos \<ge> int (pend s) - int (gbeg s) then (None, s)
           else if has_in which \<and> \<not> g_set s then (None, s)
           else
             let s = (if has_in which then setg (gbeg s) (nat (int (gbeg s) + pos)) (gend s) s else s)
             in if has_out which then
                  if p_set s then (Some pos, setp (nat (int (gbeg s) + pos)) (pend s) s) else (None, s)
                else (Some pos, s))"

definition ss_seekpos :: "int \<Rightarrow> openmode \<Rightarrow> strstrbuf \<Rightarrow> int option \<times> strstrbuf" where
  "ss_seekpos pos which s =
     (if which AND (om_in OR om_out) = 0 \<or> pos < 0 \<or> int (if p_set s then pend s else gend s) - int (gcur s) < pos then (None, s)
      else if has_in which then
        if g_set s then
          let s = setg (gbeg s) (nat (int (gbeg s) + pos)) (gend s) s
          in if p_set s then (Some pos, setp (nat (int (gbeg s) + pos)) (pend s) s) else (None, s)
        else (None, s)
      else (Some pos, s))"

definition ss_vt0 :: "(nat \<Rightarrow> char) \<Rightarrow> (char, strstrbuf) vtable" where
  "ss_vt0 junk =
     \<lparr>v_underflow = ss_underflow, v_uflow = base_uflow ss_underflow, v_pbackfail = ss_pbackfail,
      v_overflow = ss_overflow junk, v_showmanyc = base_showmanyc, v_xsgetn = (\<lambda>_. io_ret []),
      v_xsputn = (\<lambda>_. io_ret 0), v_sync = base_sync\<rparr>"

definition ss_vt :: "(nat \<Rightarrow> char) \<Rightarrow> (char, strstrbuf) vtable" where
  "ss_vt junk = (ss_vt0 junk)\<lparr>v_xsgetn := base_xsgetn (ss_vt0 junk), v_xsputn := base_xsputn (ss_vt0 junk)\<rparr>"

section \<open>A growing buffer as a source and a sink\<close>

text \<open>
  What was written lies in front of the put pointer; the get area ends there or, until the next
  \<^verbatim>\<open>underflow\<close>, somewhere before it.
\<close>

definition ss_ok :: "strstrbuf \<Rightarrow> bool" where
  "ss_ok s \<longleftrightarrow> ss_dynamic s \<and> \<not> ss_frozen s \<and> 0 < ss_chunk s \<and> gbeg s = 0 \<and> gcur s \<le> gend s \<and> gend s \<le> pcur s \<and>
     pcur s \<le> pend s \<and> pend s = length (sb_mem s) \<and> p_set s = ss_allocated s \<and> (ss_allocated s \<or> pend s = 0) \<and>
     ss_live s = (if ss_allocated s then 1 else 0)"

definition ss_written :: "strstrbuf \<Rightarrow> char list" where
  "ss_written s = take (pcur s) (sb_mem s)"

definition ss_rest :: "strstrbuf \<Rightarrow> char list" where
  "ss_rest s = drop (gcur s) (ss_written s)"

definition ss_abs :: "strstrbuf \<Rightarrow> nat \<times> char list" where
  "ss_abs s = (gcur s, ss_written s)"

definition ss_put :: "char \<Rightarrow> nat \<times> char list \<Rightarrow> nat \<times> char list" where
  "ss_put c = (\<lambda>(r, cs). (r, cs @ [c]))"

lemma ss_vt_simps [simp]:
  "v_underflow (ss_vt0 junk) = ss_underflow" "v_underflow (ss_vt junk) = ss_underflow"
  "v_uflow (ss_vt0 junk) = base_uflow ss_underflow" "v_uflow (ss_vt junk) = base_uflow ss_underflow"
  "v_overflow (ss_vt0 junk) = ss_overflow junk" "v_overflow (ss_vt junk) = ss_overflow junk"
  "v_xsputn (ss_vt junk) = base_xsputn (ss_vt0 junk)" "v_sync (ss_vt junk) = base_sync"
  by (simp_all add: ss_vt_def ss_vt0_def)

lemma ss_area:
  assumes "ss_ok s"
  shows "gcur s \<le> gend s" "gend s \<le> length (sb_mem s)" "pcur s \<le> pend s" "pend s \<le> length (sb_mem s)"
    "take (gend s - gcur s) (ss_rest s) = get_slice (gend s - gcur s) s"
  using assms by (auto simp: ss_ok_def ss_rest_def ss_written_def get_slice_def drop_take min_def)

lemma ss_bump:
  assumes "ss_ok s" "gcur s + n \<le> gend s"
  shows "ss_ok (s\<lparr>gcur := gcur s + n\<rparr>) \<and> ss_rest (s\<lparr>gcur := gcur s + n\<rparr>) = drop n (ss_rest s) \<and>
    ss_written (s\<lparr>gcur := gcur s + n\<rparr>) = ss_written s"
  using assms by (auto simp: ss_ok_def ss_rest_def ss_written_def add.commute)

lemma ss_underflow_reads:
  assumes "ss_ok s" "gcur s = gend s"
  shows "\<exists>s'. ss_underflow s = Some (Ret (case ss_rest s of [] \<Rightarrow> None | c # _ \<Rightarrow> Some c), s') \<and> ss_ok s' \<and>
    ss_rest s' = ss_rest s \<and> ss_written s' = ss_written s \<and> (ss_rest s \<noteq> [] \<longrightarrow> gcur s' < gend s')"
proof (cases "gend s = pcur s")
  case True
  then have "ss_rest s = []" using assms(2) by (simp add: ss_rest_def ss_written_def)
  with True assms show ?thesis by (simp add: ss_underflow_def)
next
  case False
  with assms have lt: "gcur s < pcur s" "pcur s \<le> length (sb_mem s)" "p_set s" by (auto simp: ss_ok_def)
  then have "ss_rest s = sb_mem s ! gcur s # drop (Suc (gcur s)) (ss_written s)"
    by (simp add: ss_rest_def ss_written_def Cons_nth_drop_Suc [symmetric])
  then show ?thesis using assms False lt
    by (simp add: ss_underflow_def setg_def ss_ok_def ss_rest_def ss_written_def)
qed

interpretation ss_base: base_source "ss_vt junk" ss_ok ss_rest ss_written for junk
  by unfold_locales (auto simp: ss_area ss_bump ss_underflow_reads)

interpretation ss_source: scan_source "ss_vt junk" ss_ok ss_rest ss_written for junk
  by unfold_locales

lemma ss_store:
  assumes "ss_ok s" "pcur s < pend s"
  shows "ss_ok (s\<lparr>sb_mem := (sb_mem s)[pcur s := c], pcur := Suc (pcur s)\<rparr>) \<and>
    ss_abs (s\<lparr>sb_mem := (sb_mem s)[pcur s := c], pcur := Suc (pcur s)\<rparr>) = ss_put c (ss_abs s)"
  using assms by (auto simp: ss_ok_def ss_abs_def ss_put_def ss_written_def take_grow)

text \<open>Growing keeps what was written and the position to read at, and leaves room.\<close>

lemma ss_grow_ok:
  assumes "ss_ok s" "pcur s = pend s"
  shows "ss_ok (ss_grow junk s)" "pcur (ss_grow junk s) < pend (ss_grow junk s)" "ss_abs (ss_grow junk s) = ss_abs s"
proof -
  have s: "gbeg s = 0" "pend s = length (sb_mem s)" "0 < ss_chunk s" using assms(1) by (simp_all add: ss_ok_def)
  have g: "ss_grow junk s = s\<lparr>sb_mem := sb_mem s @ map junk [pend s..<pend s + nat (ss_chunk s)], pbeg := pend s,
      pend := pend s + nat (ss_chunk s), g_set := True, p_set := True, ss_live := 1, ss_allocated := True\<rparr>"
    using assms s by (simp add: ss_grow_def setg_def setp_def Let_def ss_ok_def)
  show "ss_ok (ss_grow junk s)" using assms s unfolding g by (simp add: ss_ok_def)
  show "pcur (ss_grow junk s) < pend (ss_grow junk s)" using assms(2) s unfolding g by simp
  show "ss_abs (ss_grow junk s) = ss_abs s" using assms(2) s unfolding g by (simp add: ss_abs_def ss_written_def)
qed

lemma ss_overflow_puts:
  assumes "ss_ok s" "pcur s = pend s"
  shows "\<exists>s'. ss_overflow junk (Some c) s = Some (Ret (Some c), s') \<and> ss_ok s' \<and> ss_abs s' = ss_put c (ss_abs s)"
proof -
  note g = ss_grow_ok [OF assms, of junk]
  have "ss_dynamic s" "\<not> ss_frozen s" using assms(1) by (simp_all add: ss_ok_def)
  then have "ss_overflow junk (Some c) s = Some (Ret (Some c), (ss_grow junk s)\<lparr>sb_mem := (sb_mem (ss_grow junk s))[pcur (ss_grow junk s) := c],
      pcur := Suc (pcur (ss_grow junk s))\<rparr>)"
    using assms(2) by (simp add: ss_overflow_def Let_def pbump_def nat_add_distrib)
  with ss_store [OF g(1,2), of c] g(3) show ?thesis by simp
qed

lemma fold_ss_put: "fold ss_put cs (r, xs) = (r, xs @ cs)"
  by (induction cs arbitrary: xs) (simp_all add: ss_put_def)

definition ss_fits :: "nat \<times> char list \<Rightarrow> bool" where
  "ss_fits = (\<lambda>(r, cs). length cs < 2 ^ 31)"

lemma ss_fits_before: "ss_fits (ss_put c a) \<Longrightarrow> ss_fits a"
  by (cases a) (simp add: ss_fits_def ss_put_def)

lemma ss_fits_length: "ss_fits (fold ss_put cs a) \<Longrightarrow> length cs < 2 ^ 31"
  by (cases a) (simp add: ss_fits_def fold_ss_put)

interpretation ss_sink0: char_sink "ss_vt0 junk" ss_ok ss_abs ss_put ss_fits for junk
  by unfold_locales (auto simp: ss_area ss_store ss_overflow_puts dest: ss_fits_before ss_fits_length)

interpretation ss_sink: stream_sink "ss_vt junk" ss_ok ss_abs ss_put ss_fits for junk
  by unfold_locales (auto simp: ss_area ss_store ss_overflow_puts ss_sink0.base_xsputn_puts base_sync_def dest: ss_fits_before ss_fits_length)

section \<open>Streams on a growing buffer\<close>

lemma strstreambuf_new_ok: "0 \<le> chunk \<Longrightarrow> ss_ok (strstreambuf_new chunk)" "ss_abs (strstreambuf_new chunk) = (0, [])"
  by (auto simp: ss_ok_def strstreambuf_new_def ss_bare_def default_chunk_size_def ss_abs_def ss_written_def)

lemma items_next_long: "items_next f 0 (long_items sp vs) = (f, 0)"
  by (induction vs) (simp_all add: items_next_def long_items_def)

text \<open>
  C20: Values of type \<^verbatim>\<open>long\<close> written, with a separator behind each, to a stream on a growing \<^verbatim>\<open>strstreambuf\<close>, however often the array has to
  grow on the way: then the array holds their text, at most one array is allocated, the destructor frees it, and the values are read
  back from the same stream, which stays good. There are fewer than \<open>2 ^ 25\<close> values, none of them the smallest \<^verbatim>\<open>long\<close>, and the
  locale has no grouping and tells the characters of numbers apart from each other and from white space.
\<close>

theorem strstream_roundtrip:
  assumes "scans_with np wd loc sp" "0 \<le> chunk" "long_min \<notin> set vs" "length vs < 2 ^ 25"
  shows "\<exists>s b s'. put_items (ss_vt junk) null (long_items sp vs) (ios_new loc (Some (strstreambuf_new chunk)) zero) = Some (Ret (), s) \<and>
    good s \<and> io_sbuf s = Some b \<and>
    ss_written b = items_text loc (lf_widen loc CHR '' '') (fl_dec OR fl_skipws) 0 (long_items sp vs) \<and>
    ss_live b \<le> 1 \<and> ss_live (ss_destroy b) = 0 \<and>
    get_longs (ss_vt junk) eofc (length vs) s = Some (Ret vs, s') \<and> good s'"
proof -
  let ?f = "fl_dec OR fl_skipws" let ?text = "items_text loc (lf_widen loc CHR '' '') ?f 0 (long_items sp vs)"
  have f: "base_ok ?f" "field_base ?f = 10" "?f AND fl_skipws \<noteq> 0" by (simp_all add: base_ok_def field_base_def flag_defs Let_def)
  have g: "grouping_ok loc" using assms(1) by (auto simp: scans_with_def grouping_ok_def ungrouped_def char_max_def)
  have "ss_fits (fold ss_put ?text (ss_abs (strstreambuf_new chunk)))"
    using longs_text_length [OF assms(1) f(2) assms(3,4)] by (simp add: strstreambuf_new_ok(2) fold_ss_put ss_fits_def items_text_long)
  from ss_sink.items_write [OF new_string_stream strstreambuf_new_ok(1) [OF assms(2)] g f(1) long_items_ok [OF assms(3)] order.refl this, of junk null] obtain s b where
    s: "put_items (ss_vt junk) null (long_items sp vs) (ios_new loc (Some (strstreambuf_new chunk)) zero) = Some (Ret (), s)"
      "io_sbuf s = Some b" "ss_ok b" "ss_abs b = fold ss_put ?text (ss_abs (strstreambuf_new chunk))"
      "writes_as loc (lf_widen loc CHR '' '') ?f 0 s"
    unfolding items_next_long fst_conv snd_conv by blast
  from s(4) [unfolded strstreambuf_new_ok(2) fold_ss_put] have w: "gcur b = 0" "ss_written b = ?text" by (simp_all add: ss_abs_def)
  have live: "ss_live b \<le> 1" "ss_live (ss_destroy b) = 0" using s(3) by (auto simp: ss_ok_def ss_destroy_def)
  have r: "ss_rest b = [] @ concat (map (\<lambda>v. long_text loc ?f v @ [sp]) vs)" using w by (simp add: ss_rest_def items_text_long)
  from s(5) have t: "good s" "io_exceptions s = goodbit" "ib_loc s = loc" "flags_get s = ?f" by (simp_all add: writes_as_def)
  from ss_source.get_longs_reads [OF assms(1) f(2,3) t s(2,3) r _ assms(3), of junk eofc] s(1,2) t(1) w(2) live show ?thesis by auto
qed

text \<open>A chunk of one character: every character makes the array grow.\<close>

theorem strstream_roundtrip_witness:
  "\<exists>s s'. put_items (ss_vt (\<lambda>_. CHR ''?'')) ''(null)'' [Long (- 42), Char CHR '' '', Long 7, Char CHR '' '']
       (ios_new c_facets (Some (strstreambuf_new 1)) CHR 0x00) = Some (Ret (), s) \<and>
     get_longs (ss_vt (\<lambda>_. CHR ''?'')) CHR 0xFF 2 s = Some (Ret [- 42, 7], s') \<and> good s'"
proof -
  have ok: "scans_with c_punct id c_facets CHR '' ''"
    using c_cache_init c_scan by (simp add: scans_with_def c_facets_def plain_facets_def ungrouped_def number_char_def c_class scan_classes)
  have "long_min \<notin> set [- 42, 7]" by (simp add: long_min_def)
  moreover have "length [- 42, 7 :: ulong] < 2 ^ 25" by simp
  ultimately show ?thesis using strstream_roundtrip [OF ok, of 1 "[- 42, 7]" "\<lambda>_. CHR ''?''" "''(null)''" "CHR 0x00" "CHR 0xFF"]
    unfolding long_items_def by (simp add: numeral_2_eq_2 del: set_simps) blast
qed

section \<open>What does not work\<close>

text \<open>Growing moves the base of the put area to the put pointer: \<^verbatim>\<open>pcount\<close> starts again.\<close>

lemma pcount_restarts:
  assumes "ss_ok s" "pcur s = pend s" "ss_overflow junk (Some c) s = Some (Ret r, s')"
  shows "pcount s' = 1"
  using assms by (auto simp: ss_ok_def ss_overflow_def ss_grow_def pcount_def setg_def setp_def pbump_def Let_def nat_add_distrib)

text \<open>\<^verbatim>\<open>str\<close> gives what has not been read yet, not the start of the array.\<close>

lemma str_behind_read:
  assumes "ss_ok s" "gcur s = 0" "ss_rest s = c # cs"
  shows "\<exists>s'. sbumpc (ss_vt junk) s = Some (Ret (Some c), s') \<and> ss_written s' = c # cs \<and> drop (fst (ss_str s')) (ss_written s') = cs"
proof -
  from ss_base.sbumpc_reads [OF assms(1), of junk] assms(3) obtain s' where
    s': "sbumpc (ss_vt junk) s = Some (Ret (Some c), s')" "ss_ok s'" "ss_rest s' = cs" "ss_written s' = ss_written s" by auto
  moreover have "ss_written s = c # cs" using assms(2,3) by (simp add: ss_rest_def)
  moreover have "fst (ss_str s') = gcur s'" by (simp add: ss_str_def Let_def)
  ultimately show ?thesis by (auto simp: ss_rest_def)
qed

text \<open>Seeking from the beginning is seeking from the end of the array, which fails.\<close>

lemma seek_beg_fails:
  assumes "ss_ok s" "p_set s" "0 \<le> off"
  shows "fst (ss_seekoff off Beg which s) = None"
  using assms by (simp add: ss_seekoff_def ss_ok_def Let_def)

end
