(* ===== verification/Filebuf.thy ===== *)
theory Filebuf
  imports Strstreambuf
begin

text \<open>
  File buffers: \<^verbatim>\<open>src/sysfile.cpp\<close> around the system calls, the converters of \<^verbatim>\<open>srccxx/convert.cc\<close> with the facet
  \<^verbatim>\<open>codecvt<char, char, mbstate_t>\<close> of \<^verbatim>\<open>src/ccodecvt.cpp\<close>, the buffer \<^verbatim>\<open>_CS_cvtbuf\<close> of \<^verbatim>\<open>srccxx/cvtbuf.cc\<close>,
  \<^verbatim>\<open>basic_filebuf\<close> of \<^verbatim>\<open>srccxx/filebuf.cc\<close> and the streams of \<^verbatim>\<open>srccxx/fstream.cc\<close>.

  The system calls are a parameter; what they do to the files is a state \<open>'f\<close> that the buffer holds. The arrays that
  converters allocate lie behind each other in \<open>sb_mem\<close>, with a cell in front of the first. The arrays of buffered
  converters are never freed, so that a pointer into an old one stays what it was; \<open>fb_arrays\<close> counts them. (The four characters of an unbuffered
  converter do go with it.)

  An open file buffer is a source and a sink of characters, so that all that is shown of streams on such
  buffers holds for files: what is written to a file is read back from it. The last section has what is
  lost or read twice when a system call fails or a position is asked for.
\<close>

unbundle bit_operations_syntax

section \<open>The file\<close>

definition om_app :: openmode where "om_app = 0x04"
definition om_ate :: openmode where "om_ate = 0x08"
definition om_trunc :: openmode where "om_trunc = 0x10"

datatype access = Rdonly | Wronly | Rdwr

record oflags =
  o_access :: access
  o_creat :: bool
  o_trunc :: bool
  o_append :: bool

text \<open>Reading gives the characters or \<open>None\<close> for the result -1; \<^verbatim>\<open>fstat\<close> tells directories and the size of blocks.\<close>

record 'f syscalls =
  sc_open :: "string \<Rightarrow> oflags \<Rightarrow> 'f \<Rightarrow> int \<times> 'f"
  sc_close :: "int \<Rightarrow> 'f \<Rightarrow> 'f"
  sc_fstat :: "int \<Rightarrow> 'f \<Rightarrow> bool \<times> int"
  sc_read :: "int \<Rightarrow> int \<Rightarrow> 'f \<Rightarrow> char list option \<times> 'f"
  sc_write :: "int \<Rightarrow> char list \<Rightarrow> 'f \<Rightarrow> int \<times> 'f"
  sc_lseek :: "int \<Rightarrow> int \<Rightarrow> seekdir \<Rightarrow> 'f \<Rightarrow> int \<times> 'f"

text \<open>
  The facet: conversion to at most a given number of characters gives the result, the state and the characters, and for
  output how many characters were converted.
\<close>

datatype cvt_result = Cvt_Ok | Cvt_Partial | Cvt_Error | Cvt_Noconv

record 'st codecvt =
  cc_in :: "'st \<Rightarrow> char list \<Rightarrow> nat \<Rightarrow> cvt_result \<times> 'st \<times> char list"
  cc_out :: "'st \<Rightarrow> char list \<Rightarrow> nat \<Rightarrow> cvt_result \<times> 'st \<times> nat \<times> char list"
  cc_encoding :: int
  cc_always_noconv :: bool
  cc_start :: 'st

definition codecvt_char :: "'st \<Rightarrow> 'st codecvt" where
  "codecvt_char st =
     \<lparr>cc_in = (\<lambda>st cs n. (Cvt_Noconv, st, [])), cc_out = (\<lambda>st cs n. (Cvt_Noconv, st, 0, [])), cc_encoding = 1,
      cc_always_noconv = True, cc_start = st\<rparr>"

text \<open>A converter with its array: that of \<^verbatim>\<open>_CS_cvt_noconv\<close> or the four characters of \<^verbatim>\<open>_CS_cvt_unbuffered\<close>.\<close>

datatype 'st converter = Noconv nat | Unbuffered "'st codecvt" 'st int nat

record ('f, 'st) filebuf = "char streambuf" +
  er_mode :: openmode
  er_fd :: int
  er_bufsiz :: int
  fb_cvt :: "'st converter option"
  fb_buffered :: bool
  fb_sys :: 'f
  fb_arrays :: nat

definition er_is_open :: "('f, 'st) filebuf \<Rightarrow> bool" where
  "er_is_open s \<longleftrightarrow> er_fd s \<noteq> - 1"

definition open_flags :: "openmode \<Rightarrow> oflags" where
  "open_flags mode =
     (let fl = (if has_in mode then \<lparr>o_access = if has_out mode then Rdwr else Rdonly, o_creat = False, o_trunc = False, o_append = False\<rparr>
                else if has_out mode then \<lparr>o_access = Wronly, o_creat = True, o_trunc = False, o_append = False\<rparr>
                else \<lparr>o_access = Rdonly, o_creat = False, o_trunc = False, o_append = False\<rparr>);
          fl = (if mode AND om_trunc \<noteq> 0 then fl\<lparr>o_trunc := True, o_creat := True\<rparr> else fl)
      in if mode AND om_app \<noteq> 0 then fl\<lparr>o_append := True\<rparr> else fl)"

definition er_open :: "'f syscalls \<Rightarrow> string \<Rightarrow> openmode \<Rightarrow> ('f, 'st) filebuf \<Rightarrow> bool \<times> ('f, 'st) filebuf" where
  "er_open sys fname mode s =
     (if er_fd s \<noteq> - 1 then (False, s)
      else
        let (fd, f) = sc_open sys fname (open_flags mode) (fb_sys s);
            s = s\<lparr>er_fd := fd, fb_sys := f\<rparr>;
            s = (if fd \<noteq> - 1 then
                   let s = (if mode AND om_ate \<noteq> 0 then s\<lparr>fb_sys := snd (sc_lseek sys fd 0 End (fb_sys s))\<rparr> else s);
                       (dir, blk) = sc_fstat sys fd (fb_sys s);
                       s = (if dir then s\<lparr>fb_sys := sc_close sys fd (fb_sys s), er_fd := - 1\<rparr> else s)
                   in s\<lparr>er_bufsiz := 2 * blk\<rparr>
                 else s);
            s = s\<lparr>er_mode := mode\<rparr>
        in (er_is_open s, s))"

definition er_close :: "'f syscalls \<Rightarrow> ('f, 'st) filebuf \<Rightarrow> bool \<times> ('f, 'st) filebuf" where
  "er_close sys s =
     (True, if er_is_open s then s\<lparr>fb_sys := sc_close sys (er_fd s) (fb_sys s), er_fd := - 1\<rparr> else s)"

text \<open>The comparison in the test of the mode binds more tightly than the conjunction: \<^verbatim>\<open>mode & (in == 0)\<close>.\<close>

definition er_read :: "'f syscalls \<Rightarrow> int \<Rightarrow> ('f, 'st) filebuf \<Rightarrow> char list option \<times> ('f, 'st) filebuf" where
  "er_read sys n s =
     (if er_mode s AND of_bool (om_in = 0) \<noteq> 0 then (None, s)
      else let (r, f) = sc_read sys (er_fd s) n (fb_sys s) in (r, s\<lparr>fb_sys := f\<rparr>))"

definition er_write :: "'f syscalls \<Rightarrow> char list \<Rightarrow> ('f, 'st) filebuf \<Rightarrow> int \<times> ('f, 'st) filebuf" where
  "er_write sys cs s =
     (if er_mode s AND of_bool (om_out = 0) \<noteq> 0 then (- 1, s)
      else let (n, f) = sc_write sys (er_fd s) cs (fb_sys s) in (n, s\<lparr>fb_sys := f\<rparr>))"

definition er_seek :: "'f syscalls \<Rightarrow> int \<Rightarrow> seekdir \<Rightarrow> ('f, 'st) filebuf \<Rightarrow> int \<times> ('f, 'st) filebuf" where
  "er_seek sys off dir s = (let (n, f) = sc_lseek sys (er_fd s) off dir (fb_sys s) in (n, s\<lparr>fb_sys := f\<rparr>))"

section \<open>The converters\<close>

text \<open>
  The loop variable of the unbuffered input is the result with which the function returns, that of the output is the
  position in the characters, the count to return and the result of an early return.
\<close>

definition ub_in_turn :: "'f syscalls \<Rightarrow> int option \<Rightarrow> (('f, 'st) filebuf, int option) io" where
  "ub_in_turn sys _ s =
     (case fb_cvt s of
        Some (Unbuffered cc st enc b) \<Rightarrow>
          (let (r, s) = er_read sys enc s in
           (case r of
             None \<Rightarrow> io_ret (Some 0) s
           | Some cs \<Rightarrow>
               if int (length cs) \<noteq> enc then io_ret (Some 0) s
               else
                 let (res, st, out) = cc_in cc st cs 1;
                     s = mem_copy b out (s\<lparr>fb_cvt := Some (Unbuffered cc st enc b)\<rparr>)
                 in (case res of
                      Cvt_Error \<Rightarrow> io_ret (Some 0) s
                    | Cvt_Noconv \<Rightarrow> io_ret (if length out + 1 = 1 then Some 1 else None) (mem_copy (b + length out) [hd cs] s)
                    | _ \<Rightarrow> io_ret (if length out = 1 then Some 1 else None) s)))
      | _ \<Rightarrow> io_ret (Some 0) s)"

definition ub_out_turn :: "'f syscalls \<Rightarrow> char list \<Rightarrow> nat \<times> int \<times> int option \<Rightarrow>
    (('f, 'st) filebuf, nat \<times> int \<times> int option) io" where
  "ub_out_turn sys cs = (\<lambda>(nxt, rc, leave) s.
     case fb_cvt s of
       Some (Unbuffered cc st enc b) \<Rightarrow>
         (let (res, st, used, out) = cc_out cc st (drop nxt cs) 1024;
              s = s\<lparr>fb_cvt := Some (Unbuffered cc st enc b)\<rparr>;
              nxt = nxt + used
          in case res of
               Cvt_Error \<Rightarrow> io_ret (nxt, rc, Some 0) s
             | Cvt_Noconv \<Rightarrow> let (n, s) = er_write sys cs s in io_ret (nxt, rc, Some n) s
             | _ \<Rightarrow> let (n, s) = er_write sys out s in
                   io_ret (if n \<noteq> int (length out) then (nxt, rc, Some rc) else (nxt, int nxt, None)) s)
     | _ \<Rightarrow> io_ret (nxt, rc, Some 0) s)"

text \<open>The functions are called when there is a converter; the result of the input is where the characters are and their number.\<close>

definition cvt_underflow :: "'f syscalls \<Rightarrow> (('f, 'st) filebuf, nat \<times> int) io" where
  "cvt_underflow sys s =
     (case fb_cvt s of
        None \<Rightarrow> io_ret (0, 0) s
      | Some (Noconv b) \<Rightarrow>
          (let (r, s) = er_read sys (er_bufsiz s) s in
           case r of None \<Rightarrow> io_ret (b, - 1) s | Some cs \<Rightarrow> io_ret (b, int (length cs)) (mem_copy b cs s))
      | Some (Unbuffered cc st enc b) \<Rightarrow>
          io_bind (io_loop (\<lambda>r. r = None) (ub_in_turn sys) None) (\<lambda>r. io_ret (b, the r)) s)"

definition cvt_overflow :: "'f syscalls \<Rightarrow> char list \<Rightarrow> (('f, 'st) filebuf, int) io" where
  "cvt_overflow sys cs s =
     (case fb_cvt s of
        None \<Rightarrow> io_ret 0 s
      | Some (Noconv b) \<Rightarrow> let (n, s) = er_write sys cs s in io_ret n s
      | Some (Unbuffered cc st enc b) \<Rightarrow>
          io_bind (io_loop (\<lambda>(nxt, rc, leave). nxt \<noteq> length cs \<and> leave = None) (ub_out_turn sys cs) (0, 0, None))
            (\<lambda>(nxt, rc, leave). io_ret (case leave of None \<Rightarrow> rc | Some n \<Rightarrow> n)) s)"

text \<open>
  A new converter: a failed assertion ends the program. The buffered converter has an array with the
  characters \<open>junk\<close>.
\<close>

definition cvt_init :: "(nat \<Rightarrow> char) \<Rightarrow> 'st codecvt \<Rightarrow> (('f, 'st) filebuf, unit) io" where
  "cvt_init junk cc s =
     (let b = length (sb_mem s) in
      if fb_buffered s then
        if cc_always_noconv cc then
          io_ret () (setp b (b + nat (er_bufsiz s) - 1) (s\<lparr>sb_mem := sb_mem s @ map junk [0..<nat (er_bufsiz s)],
            fb_cvt := Some (Noconv b), fb_arrays := Suc (fb_arrays s)\<rparr>))
        else None
      else
        let enc = (if cc_encoding cc > 0 then cc_encoding cc else 1)
        in io_ret () (s\<lparr>sb_mem := sb_mem s @ map junk [0..<4],
             fb_cvt := Some (Unbuffered cc (cc_start cc) (if enc > 4 then 4 else enc) b)\<rparr>))"

definition cvt_finish :: "('f, 'st) filebuf \<Rightarrow> ('f, 'st) filebuf" where
  "cvt_finish s = s\<lparr>fb_cvt := None\<rparr>"

section \<open>The buffer\<close>

text \<open>The one cell in front is where a pointer before the first array points to.\<close>

definition fb_new :: "'f \<Rightarrow> ('f, 'st) filebuf" where
  "fb_new f =
     \<lparr>sb_mem = [CHR 0x00], gbeg = 0, gcur = 0, gend = 0, pbeg = 0, pcur = 0, pend = 0, g_set = False, p_set = False,
      er_mode = 0, er_fd = - 1, er_bufsiz = 0, fb_cvt = None, fb_buffered = True, fb_sys = f, fb_arrays = 0\<rparr>"

definition fb_showmanyc :: "(('f, 'st) filebuf, int) io" where
  "fb_showmanyc s = io_ret (int (gend s) - int (gcur s)) s"

definition fb_underflow :: "'f syscalls \<Rightarrow> (('f, 'st) filebuf, char option) io" where
  "fb_underflow sys s =
     (let current = (\<lambda>s. io_ret (Some (sb_mem s ! gcur s)) s) in
      if gcur s = gend s then
        if fb_cvt s = None then io_ret None s
        else io_bind (cvt_underflow sys) (\<lambda>(b, sz) s.
          if sz = 0 then io_ret None s else current (setg b b (nat (int b + sz)) s)) s
      else current s)"

definition fb_uflow :: "'f syscalls \<Rightarrow> (('f, 'st) filebuf, char option) io" where
  "fb_uflow sys s =
     (let take_current = (\<lambda>s. io_ret (Some (sb_mem s ! gcur s)) (gbump 1 s)) in
      if gcur s = gend s then
        if fb_cvt s = None then io_ret None s
        else io_bind (cvt_underflow sys) (\<lambda>(b, sz) s.
          if sz = 0 then io_ret None s
          else if sz = 1 then io_ret (Some (sb_mem s ! b)) s
          else take_current (setg b b (nat (int b + sz)) s)) s
      else take_current s)"

definition fb_flush :: "'f syscalls \<Rightarrow> int \<Rightarrow> char \<Rightarrow> (('f, 'st) filebuf, char option) io" where
  "fb_flush sys cnt r s =
     (if fb_cvt s = None then io_ret None s
      else io_bind (cvt_overflow sys (take (nat cnt) (drop (pbeg s) (sb_mem s)))) (\<lambda>n s.
        if n \<noteq> cnt then io_ret None s else io_ret (Some r) (s\<lparr>pcur := pbeg s\<rparr>)) s)"

text \<open>\<open>other\<close> is what \<^verbatim>\<open>not_eof(eof())\<close> is.\<close>

definition fb_overflow :: "'f syscalls \<Rightarrow> char \<Rightarrow> char option \<Rightarrow> (('f, 'st) filebuf, char option) io" where
  "fb_overflow sys other c s =
     (let cnt = int (pcur s) - int (pbeg s) + 1 in
      case c of
        Some ch \<Rightarrow>
          if p_set s then fb_flush sys cnt ch (s\<lparr>sb_mem := (sb_mem s)[pcur s := ch]\<rparr>)
          else if fb_cvt s = None then io_ret None s
          else io_bind (cvt_overflow sys [ch]) (\<lambda>n. io_ret (if n \<noteq> 1 then None else Some ch)) s
      | None \<Rightarrow> fb_flush sys (cnt - 1) other s)"

definition fb_sync :: "'f syscalls \<Rightarrow> char \<Rightarrow> (('f, 'st) filebuf, int) io" where
  "fb_sync sys other s =
     (if pbeg s \<noteq> pcur s then io_bind (fb_overflow sys other None) (\<lambda>_. io_ret 0) s else io_ret 0 s)"

text \<open>\<^verbatim>\<open>setg(0, 0, 0)\<close> and \<^verbatim>\<open>setp(0, 0)\<close>.\<close>

definition discard_areas :: "('f, 'st) filebuf \<Rightarrow> ('f, 'st) filebuf" where
  "discard_areas s = s\<lparr>gbeg := 0, gcur := 0, gend := 0, g_set := False, pbeg := 0, pcur := 0, pend := 0, p_set := False\<rparr>"

definition fb_seekoff :: "'f syscalls \<Rightarrow> char \<Rightarrow> int \<Rightarrow> seekdir \<Rightarrow> (('f, 'st) filebuf, int) io" where
  "fb_seekoff sys other off dir s =
     (if fb_cvt s = None then io_ret (- 1) s
      else if fb_buffered s then
        io_bind (if pbeg s \<noteq> pcur s then fb_overflow sys other None else io_ret None) (\<lambda>_ s.
          let (pos, s) = (case dir of
                Beg \<Rightarrow> (off, s)
              | Cur \<Rightarrow> let (p, s) = er_seek sys 0 Cur s
                  in ((if pcur s = pend s then p - (int (gend s) - int (gcur s)) else p) + off, s)
              | End \<Rightarrow> let (p, s) = er_seek sys 0 End s in (p + off, s));
              (p, s) = er_seek sys pos Beg (discard_areas s)
          in io_ret p s) s
      else let (p, s) = er_seek sys off dir s in io_ret p s)"

definition fb_seekpos :: "'f syscalls \<Rightarrow> char \<Rightarrow> int \<Rightarrow> (('f, 'st) filebuf, int) io" where
  "fb_seekpos sys other pos = fb_seekoff sys other pos Beg"

text \<open>The arguments of \<^verbatim>\<open>setbuf\<close> are whether the pointer is null, and the size.\<close>

definition fb_setbuf :: "(nat \<Rightarrow> char) \<Rightarrow> 'st codecvt \<Rightarrow> bool \<Rightarrow> int \<Rightarrow> (('f, 'st) filebuf, unit) io" where
  "fb_setbuf junk cc null n s =
     (if null \<and> n = 0 then
        cvt_init junk cc ((if fb_cvt s \<noteq> None then cvt_finish s else s)\<lparr>fb_buffered := False\<rparr>)
      else io_ret () s)"

text \<open>\<open>same\<close>: the new locale has the facet the old one has.\<close>

definition fb_imbue :: "(nat \<Rightarrow> char) \<Rightarrow> bool \<Rightarrow> 'st codecvt \<Rightarrow> (('f, 'st) filebuf, unit) io" where
  "fb_imbue junk same cc s = (if \<not> same then cvt_init junk cc (cvt_finish s) else io_ret () s)"

definition fb_vt0 :: "'f syscalls \<Rightarrow> char \<Rightarrow> (char, ('f, 'st) filebuf) vtable" where
  "fb_vt0 sys other =
     \<lparr>v_underflow = fb_underflow sys, v_uflow = fb_uflow sys, v_pbackfail = base_pbackfail,
      v_overflow = fb_overflow sys other, v_showmanyc = fb_showmanyc, v_xsgetn = (\<lambda>_. io_ret []),
      v_xsputn = (\<lambda>_. io_ret 0), v_sync = fb_sync sys other\<rparr>"

definition fb_vt :: "'f syscalls \<Rightarrow> char \<Rightarrow> (char, ('f, 'st) filebuf) vtable" where
  "fb_vt sys other =
     (fb_vt0 sys other)\<lparr>v_xsgetn := base_xsgetn (fb_vt0 sys other), v_xsputn := base_xsputn (fb_vt0 sys other)\<rparr>"

section \<open>Opening and closing\<close>

definition fb_open :: "'f syscalls \<Rightarrow> (nat \<Rightarrow> char) \<Rightarrow> 'st codecvt \<Rightarrow> string \<Rightarrow> openmode \<Rightarrow> (('f, 'st) filebuf, bool) io" where
  "fb_open sys junk cc fname mode s =
     (let (ok, s) = er_open sys fname mode s
      in if ok then io_bind (cvt_init junk cc) (\<lambda>_. io_ret True) s else io_ret False s)"

definition fb_close :: "'f syscalls \<Rightarrow> char \<Rightarrow> (('f, 'st) filebuf, bool) io" where
  "fb_close sys other s =
     (if \<not> er_is_open s then io_ret False s
      else io_bind (fb_sync sys other) (\<lambda>_ s. let (ok, s) = er_close sys (cvt_finish s) in io_ret ok s) s)"

text \<open>The destructors of \<^verbatim>\<open>basic_filebuf\<close>, \<^verbatim>\<open>_CS_cvtbuf\<close> and \<^verbatim>\<open>_CS_sysfile\<close>.\<close>

definition fb_dtor :: "'f syscalls \<Rightarrow> char \<Rightarrow> (('f, 'st) filebuf, unit) io" where
  "fb_dtor sys other =
     io_bind (fb_close sys other) (\<lambda>_.
       io_bind (\<lambda>s. if fb_cvt s \<noteq> None then io_bind (fb_sync sys other) (\<lambda>_. io_mod cvt_finish) s else io_ret () s)
         (\<lambda>_ s. io_ret () (if er_fd s \<noteq> - 1 then s\<lparr>fb_sys := sc_close sys (er_fd s) (fb_sys s)\<rparr> else s)))"

section \<open>The streams\<close>

type_synonym ('f, 'st) fstream = "(char, ('f, 'st) filebuf) ios"

definition stream_init :: "('f, 'st) fstream \<Rightarrow> (unit outcome \<times> ('f, 'st) fstream) option" where
  "stream_init = io_mod (\<lambda>s. ios_init (io_sbuf s) s)"

text \<open>The parts that the constructors share: the base classes, with the buffer as a member.\<close>

definition fstream_base :: "'f \<Rightarrow> char facets \<Rightarrow> char \<Rightarrow> ('f, 'st) fstream" where
  "fstream_base f loc zero = ios_new loc (Some (fb_new f)) zero"

definition ifstream_open :: "'f syscalls \<Rightarrow> (nat \<Rightarrow> char) \<Rightarrow> 'st codecvt \<Rightarrow> string \<Rightarrow> openmode \<Rightarrow>
    (char, ('f, 'st) filebuf, unit) stream_op" where
  "ifstream_open sys junk cc fname mode =
     io_bind (on_sbuf (fb_open sys junk cc fname (mode OR om_in))) (\<lambda>ok. if ok then stream_init else setstate failbit)"

definition ifstream_new :: "'f syscalls \<Rightarrow> (nat \<Rightarrow> char) \<Rightarrow> 'st codecvt \<Rightarrow> string \<Rightarrow> openmode \<Rightarrow>
    (char, ('f, 'st) filebuf, unit) stream_op" where
  "ifstream_new sys junk cc fname mode =
     io_bind stream_init (\<lambda>_. io_bind (on_sbuf (fb_open sys junk cc fname (mode OR om_in)))
       (\<lambda>ok. if ok then io_ret () else setstate failbit))"

definition ofstream_open :: "'f syscalls \<Rightarrow> (nat \<Rightarrow> char) \<Rightarrow> 'st codecvt \<Rightarrow> string \<Rightarrow> openmode \<Rightarrow>
    (char, ('f, 'st) filebuf, unit) stream_op" where
  "ofstream_open sys junk cc fname mode =
     io_bind (on_sbuf (fb_open sys junk cc fname (mode OR om_out))) (\<lambda>_. stream_init)"

definition ofstream_new :: "'f syscalls \<Rightarrow> (nat \<Rightarrow> char) \<Rightarrow> 'st codecvt \<Rightarrow> string \<Rightarrow> openmode \<Rightarrow>
    (char, ('f, 'st) filebuf, unit) stream_op" where
  "ofstream_new = ofstream_open"

definition fstream_open :: "'f syscalls \<Rightarrow> (nat \<Rightarrow> char) \<Rightarrow> 'st codecvt \<Rightarrow> string \<Rightarrow> openmode \<Rightarrow>
    (char, ('f, 'st) filebuf, unit) stream_op" where
  "fstream_open sys junk cc fname mode =
     io_bind (on_sbuf (fb_open sys junk cc fname (mode OR om_in OR om_out))) (\<lambda>_. stream_init)"

definition fstream_close :: "'f syscalls \<Rightarrow> char \<Rightarrow> (char, ('f, 'st) filebuf, unit) stream_op" where
  "fstream_close sys other = io_bind (on_sbuf (fb_close sys other)) (\<lambda>_. io_ret ())"

section \<open>An open file as a source and a sink\<close>

text \<open>
  What is relied on of the system calls: a view of the state tells what the file holds and how large it can get, which descriptors can be
  read or written, what a descriptor has still to read, and whether the file can be created and opened for reading. Reading without an error gives some of what is left and nothing only at
  the end. Writing writes everything, at the end of the file, as long as there is room for it: what happens otherwise,
  a short write or an error, is left open, and so is what happens when the file cannot be created or opened.
\<close>

record 'f file_view =
  fv_text :: "'f \<Rightarrow> char list"
  fv_rest :: "int \<Rightarrow> 'f \<Rightarrow> char list"
  fv_reads :: "int \<Rightarrow> 'f \<Rightarrow> bool"
  fv_writes :: "int \<Rightarrow> 'f \<Rightarrow> bool"
  fv_limit :: "'f \<Rightarrow> nat"
  fv_creates :: "'f \<Rightarrow> bool"
  fv_opens :: "'f \<Rightarrow> bool"

definition read_law :: "'f syscalls \<Rightarrow> 'f file_view \<Rightarrow> bool" where
  "read_law sys fv \<longleftrightarrow> (\<forall>fd f n. fv_reads fv fd f \<and> 0 < n \<longrightarrow>
     (\<exists>cs f'. sc_read sys fd n f = (Some cs, f') \<and> fv_reads fv fd f' \<and> fv_rest fv fd f = cs @ fv_rest fv fd f' \<and>
        int (length cs) \<le> n \<and> (fv_rest fv fd f \<noteq> [] \<longrightarrow> cs \<noteq> [])))"

definition write_law :: "'f syscalls \<Rightarrow> 'f file_view \<Rightarrow> bool" where
  "write_law sys fv \<longleftrightarrow> (\<forall>fd f cs. fv_writes fv fd f \<and> length (fv_text fv f @ cs) \<le> fv_limit fv f \<longrightarrow>
     (\<exists>f'. sc_write sys fd cs f = (int (length cs), f') \<and> fv_writes fv fd f' \<and> fv_text fv f' = fv_text fv f @ cs \<and> fv_limit fv f' = fv_limit fv f))"

definition file_laws :: "'f syscalls \<Rightarrow> 'f file_view \<Rightarrow> string \<Rightarrow> bool" where
  "file_laws sys fv fname \<longleftrightarrow> read_law sys fv \<and> write_law sys fv \<and>
     (\<forall>f. fv_creates fv f \<longrightarrow> (\<exists>fd f'. sc_open sys fname \<lparr>o_access = Wronly, o_creat = True, o_trunc = True, o_append = False\<rparr> f = (fd, f') \<and>
        fd \<noteq> - 1 \<and> fv_writes fv fd f' \<and> fv_text fv f' = [] \<and> fv_limit fv f' = fv_limit fv f)) \<and>
     (\<forall>f. fv_opens fv f \<longrightarrow> (\<exists>fd f'. sc_open sys fname \<lparr>o_access = Rdonly, o_creat = False, o_trunc = False, o_append = False\<rparr> f = (fd, f') \<and>
        fd \<noteq> - 1 \<and> fv_reads fv fd f' \<and> fv_rest fv fd f' = fv_text fv f)) \<and>
     (\<forall>fd f. fv_writes fv fd f \<longrightarrow> fv_text fv (sc_close sys fd f) = fv_text fv f) \<and>
     (\<forall>fd f. fv_reads fv fd f \<or> fv_writes fv fd f \<longrightarrow> (\<exists>blk. sc_fstat sys fd f = (False, blk) \<and> 0 < blk))"

text \<open>The buffered converter without conversion, or the unbuffered one with the facet of the library.\<close>

definition cvt_ok :: "('f, 'st) filebuf \<Rightarrow> bool" where
  "cvt_ok s \<longleftrightarrow>
     (case fb_cvt s of
        None \<Rightarrow> False
      | Some (Noconv b) \<Rightarrow> 0 < er_bufsiz s \<and> b + nat (er_bufsiz s) \<le> length (sb_mem s)
      | Some (Unbuffered cc st enc b) \<Rightarrow> (\<exists>st0. cc = codecvt_char st0) \<and> enc = 1 \<and> b + 4 \<le> length (sb_mem s))"

definition fb_reads :: "'f syscalls \<Rightarrow> 'f file_view \<Rightarrow> ('f, 'st) filebuf \<Rightarrow> bool" where
  "fb_reads sys fv s \<longleftrightarrow> cvt_ok s \<and> read_law sys fv \<and> fv_reads fv (er_fd s) (fb_sys s) \<and>
     gcur s \<le> gend s \<and> gend s \<le> length (sb_mem s)"

definition fb_rest :: "'f file_view \<Rightarrow> ('f, 'st) filebuf \<Rightarrow> char list" where
  "fb_rest fv s = get_slice (gend s - gcur s) s @ fv_rest fv (er_fd s) (fb_sys s)"

definition fb_text :: "'f file_view \<Rightarrow> ('f, 'st) filebuf \<Rightarrow> char list" where
  "fb_text fv s = fv_text fv (fb_sys s) @ take (pcur s - pbeg s) (drop (pbeg s) (sb_mem s))"

definition fb_writes :: "'f syscalls \<Rightarrow> 'f file_view \<Rightarrow> ('f, 'st) filebuf \<Rightarrow> bool" where
  "fb_writes sys fv s \<longleftrightarrow> er_is_open s \<and> cvt_ok s \<and> write_law sys fv \<and> fv_writes fv (er_fd s) (fb_sys s) \<and>
     pbeg s \<le> pcur s \<and> pcur s \<le> pend s \<and> (if p_set s then pend s < length (sb_mem s) else pend s = 0) \<and>
     length (fb_text fv s) \<le> fv_limit fv (fb_sys s)"

text \<open>What the file is to hold, and how much it can.\<close>

definition fb_abs :: "'f file_view \<Rightarrow> ('f, 'st) filebuf \<Rightarrow> nat \<times> char list" where
  "fb_abs fv s = (fv_limit fv (fb_sys s), fb_text fv s)"

definition fb_put :: "char \<Rightarrow> nat \<times> char list \<Rightarrow> nat \<times> char list" where
  "fb_put c = (\<lambda>(l, cs). (l, cs @ [c]))"

definition fb_fits :: "nat \<times> char list \<Rightarrow> bool" where
  "fb_fits = (\<lambda>(l, cs). length cs \<le> l \<and> length cs < 2 ^ 31)"

lemma fold_fb_put: "fold fb_put cs (l, xs) = (l, xs @ cs)"
  by (induction cs arbitrary: xs) (simp_all add: fb_put_def)

lemma fb_fits_before: "fb_fits (fb_put c a) \<Longrightarrow> fb_fits a"
  by (cases a) (simp add: fb_fits_def fb_put_def)

lemma fb_fits_length: "fb_fits (fold fb_put cs a) \<Longrightarrow> length cs < 2 ^ 31"
  by (cases a) (simp add: fb_fits_def fold_fb_put)

lemma er_read_sys: "er_read sys n s = (fst (sc_read sys (er_fd s) n (fb_sys s)), s\<lparr>fb_sys := snd (sc_read sys (er_fd s) n (fb_sys s))\<rparr>)"
  by (simp add: er_read_def om_in_def case_prod_beta)

lemma er_write_sys: "er_write sys cs s = (fst (sc_write sys (er_fd s) cs (fb_sys s)), s\<lparr>fb_sys := snd (sc_write sys (er_fd s) cs (fb_sys s))\<rparr>)"
  by (simp add: er_write_def om_out_def case_prod_beta)

lemma mem_copy_nil [simp]: "mem_copy b [] s = s"
  by (simp add: mem_copy_def)

lemma cvt_same: "fb_cvt s = c \<Longrightarrow> s\<lparr>fb_cvt := c\<rparr> = s"
  by auto

lemma codecvt_char_simps [simp]:
  "cc_in (codecvt_char st0) st cs n = (Cvt_Noconv, st, [])" "cc_out (codecvt_char st0) st cs n = (Cvt_Noconv, st, 0, [])"
  "cc_always_noconv (codecvt_char st0)" "cc_encoding (codecvt_char st0) = 1"
  by (simp_all add: codecvt_char_def)

text \<open>Both converters give the characters that were read, or write all that are given.\<close>

lemma cvt_underflow_reads:
  assumes "cvt_ok s" "read_law sys fv" "fv_reads fv (er_fd s) (fb_sys s)"
  shows "\<exists>b cs f'. cvt_underflow sys s = Some (Ret (b, int (length cs)), mem_copy b cs (s\<lparr>fb_sys := f'\<rparr>)) \<and>
    fv_reads fv (er_fd s) f' \<and> fv_rest fv (er_fd s) (fb_sys s) = cs @ fv_rest fv (er_fd s) f' \<and>
    (fv_rest fv (er_fd s) (fb_sys s) \<noteq> [] \<longrightarrow> cs \<noteq> []) \<and> b + length cs \<le> length (sb_mem s)"
proof (cases "the (fb_cvt s)")
  case (Noconv b)
  with assms(1) have c: "fb_cvt s = Some (Noconv b)" "0 < er_bufsiz s" "b + nat (er_bufsiz s) \<le> length (sb_mem s)"
    by (auto simp: cvt_ok_def split: option.splits)
  from assms(2,3) c(2) obtain cs f' where r: "sc_read sys (er_fd s) (er_bufsiz s) (fb_sys s) = (Some cs, f')" "fv_reads fv (er_fd s) f'"
    "fv_rest fv (er_fd s) (fb_sys s) = cs @ fv_rest fv (er_fd s) f'" "int (length cs) \<le> er_bufsiz s"
    "fv_rest fv (er_fd s) (fb_sys s) \<noteq> [] \<longrightarrow> cs \<noteq> []" unfolding read_law_def by blast
  have "cvt_underflow sys s = Some (Ret (b, int (length cs)), mem_copy b cs (s\<lparr>fb_sys := f'\<rparr>))"
    using c(1) r(1) by (simp add: cvt_underflow_def er_read_sys)
  moreover have "b + length cs \<le> length (sb_mem s)" using c(3) r(4) by linarith
  ultimately show ?thesis using r(2,3,5) by blast
next
  case (Unbuffered cc st enc b)
  with assms(1) obtain st0 where c: "fb_cvt s = Some (Unbuffered (codecvt_char st0) st 1 b)" "b + 4 \<le> length (sb_mem s)"
    by (auto simp: cvt_ok_def split: option.splits)
  from assms(2,3) obtain cs f' where r: "sc_read sys (er_fd s) 1 (fb_sys s) = (Some cs, f')" "fv_reads fv (er_fd s) f'"
    "fv_rest fv (er_fd s) (fb_sys s) = cs @ fv_rest fv (er_fd s) f'" "int (length cs) \<le> 1"
    "fv_rest fv (er_fd s) (fb_sys s) \<noteq> [] \<longrightarrow> cs \<noteq> []" unfolding read_law_def by (meson zero_less_one)
  have len: "length cs \<le> 1" using r(4) by simp
  then have "ub_in_turn sys None s = Some (Ret (Some (int (length cs))), mem_copy b cs (s\<lparr>fb_sys := f'\<rparr>))"
    using c(1) r(1) by (cases cs) (auto simp: ub_in_turn_def er_read_sys cvt_same)
  then have "cvt_underflow sys s = Some (Ret (b, int (length cs)), mem_copy b cs (s\<lparr>fb_sys := f'\<rparr>))"
    using c(1) by (simp add: cvt_underflow_def io_loop_step [where b = "ub_in_turn sys" and s = s])
  moreover have "b + length cs \<le> length (sb_mem s)" using c(2) len by linarith
  ultimately show ?thesis using r(2,3,5) by blast
qed

lemma cvt_overflow_writes:
  assumes "cvt_ok s" "write_law sys fv" "fv_writes fv (er_fd s) (fb_sys s)"
    and "length (fv_text fv (fb_sys s) @ cs) \<le> fv_limit fv (fb_sys s)"
  shows "\<exists>f'. cvt_overflow sys cs s = Some (Ret (int (length cs)), s\<lparr>fb_sys := f'\<rparr>) \<and> fv_writes fv (er_fd s) f' \<and>
    fv_text fv f' = fv_text fv (fb_sys s) @ cs \<and> fv_limit fv f' = fv_limit fv (fb_sys s)"
proof -
  from assms(2-4) obtain f' where w: "sc_write sys (er_fd s) cs (fb_sys s) = (int (length cs), f')" "fv_writes fv (er_fd s) f'"
    "fv_text fv f' = fv_text fv (fb_sys s) @ cs" "fv_limit fv f' = fv_limit fv (fb_sys s)" unfolding write_law_def by blast
  show ?thesis
  proof (cases "the (fb_cvt s)")
    case (Noconv b)
    with assms(1) have "fb_cvt s = Some (Noconv b)" by (auto simp: cvt_ok_def split: option.splits)
    then show ?thesis using w by (auto simp: cvt_overflow_def er_write_sys intro!: exI [of _ f'])
  next
    case (Unbuffered cc st enc b)
    with assms(1) obtain st0 where c: "fb_cvt s = Some (Unbuffered (codecvt_char st0) st 1 b)"
      by (auto simp: cvt_ok_def split: option.splits)
    show ?thesis
    proof (cases "cs = []")
      case True
      then show ?thesis using c assms(3) by (auto simp: cvt_overflow_def intro!: exI [of _ "fb_sys s"])
    next
      case False
      have "ub_out_turn sys cs (0, 0, None) s = Some (Ret (0, 0, Some (int (length cs))), s\<lparr>fb_sys := f'\<rparr>)"
        using c w(1) by (simp add: ub_out_turn_def er_write_sys cvt_same)
      then have "cvt_overflow sys cs s = Some (Ret (int (length cs)), s\<lparr>fb_sys := f'\<rparr>)"
        using c False by (simp add: cvt_overflow_def io_loop_step [where b = "ub_out_turn sys cs" and s = s])
      with w(2-4) show ?thesis by blast
    qed
  qed
qed

lemma cvt_ok_cong:
  "cvt_ok s \<Longrightarrow> fb_cvt s' = fb_cvt s \<Longrightarrow> er_bufsiz s' = er_bufsiz s \<Longrightarrow> length (sb_mem s') = length (sb_mem s) \<Longrightarrow> cvt_ok s'"
  by (auto simp: cvt_ok_def split: option.splits converter.splits)

lemma cvt_ok_cvt: "cvt_ok s \<Longrightarrow> fb_cvt s \<noteq> None"
  by (auto simp: cvt_ok_def split: option.splits)

lemma mem_copy_at:
  assumes "b + length cs \<le> length (sb_mem s)"
  shows "length (sb_mem (mem_copy b cs s)) = length (sb_mem s)" "take (length cs) (drop b (sb_mem (mem_copy b cs s))) = cs"
    "cs \<noteq> [] \<Longrightarrow> sb_mem (mem_copy b cs s) ! b = hd cs"
  using assms by (auto simp: mem_copy_def nth_append hd_conv_nth)

lemma mem_copy_fields [simp]:
  "gcur (mem_copy b cs s) = gcur s" "gend (mem_copy b cs s) = gend s" "er_fd (mem_copy b cs t) = er_fd t"
  "er_bufsiz (mem_copy b cs t) = er_bufsiz t" "fb_cvt (mem_copy b cs t) = fb_cvt t" "fb_sys (mem_copy b cs t) = fb_sys t"
  by (simp_all add: mem_copy_def)

subsection \<open>Reading\<close>

lemma fb_area:
  assumes "fb_reads sys fv s"
  shows "gcur s \<le> gend s" "gend s \<le> length (sb_mem s)" "take (gend s - gcur s) (fb_rest fv s) = get_slice (gend s - gcur s) s"
  using assms by (auto simp: fb_reads_def fb_rest_def get_slice_def)

lemma fb_bump:
  assumes "fb_reads sys fv s" "gcur s + n \<le> gend s"
  shows "fb_reads sys fv (s\<lparr>gcur := gcur s + n\<rparr>)" "fb_rest fv (s\<lparr>gcur := gcur s + n\<rparr>) = drop n (fb_rest fv s)"
  using assms by (auto simp: fb_reads_def fb_rest_def get_slice_def drop_take add.commute elim: cvt_ok_cong)

text \<open>What the converter read, in the get area.\<close>

lemma fb_filled:
  assumes "fb_reads sys fv s" "gcur s = gend s"
  shows "\<exists>b cs t. cvt_underflow sys s = Some (Ret (b, int (length cs)), t) \<and> fb_reads sys fv t \<and> er_fd t = er_fd s \<and>
    gcur t = gend t \<and> fb_rest fv s = cs @ fb_rest fv t \<and> (fb_rest fv s \<noteq> [] \<longrightarrow> cs \<noteq> []) \<and> (cs \<noteq> [] \<longrightarrow> sb_mem t ! b = hd cs) \<and>
    fb_reads sys fv (setg b b (b + length cs) t) \<and> fb_rest fv (setg b b (b + length cs) t) = fb_rest fv s"
proof -
  have s: "cvt_ok s" "read_law sys fv" "fv_reads fv (er_fd s) (fb_sys s)" "gend s \<le> length (sb_mem s)"
    using assms(1) by (simp_all add: fb_reads_def)
  from cvt_underflow_reads [OF s(1-3)] obtain b cs f' where
    r: "cvt_underflow sys s = Some (Ret (b, int (length cs)), mem_copy b cs (s\<lparr>fb_sys := f'\<rparr>))" "fv_reads fv (er_fd s) f'"
      "fv_rest fv (er_fd s) (fb_sys s) = cs @ fv_rest fv (er_fd s) f'" "fv_rest fv (er_fd s) (fb_sys s) \<noteq> [] \<longrightarrow> cs \<noteq> []"
      "b + length cs \<le> length (sb_mem s)" by blast
  let ?t = "mem_copy b cs (s\<lparr>fb_sys := f'\<rparr>)"
  have m: "length (sb_mem ?t) = length (sb_mem s)" "take (length cs) (drop b (sb_mem ?t)) = cs" "cs \<noteq> [] \<Longrightarrow> sb_mem ?t ! b = hd cs"
    using mem_copy_at [of b cs "s\<lparr>fb_sys := f'\<rparr>"] r(5) by simp_all
  have ok: "cvt_ok ?t" "cvt_ok (setg b b (b + length cs) ?t)" by (rule cvt_ok_cong [OF s(1)]; simp add: m(1) setg_def)+
  have "fb_reads sys fv ?t" using ok(1) s r(2) m(1) assms(2) by (simp add: fb_reads_def)
  moreover have "fb_reads sys fv (setg b b (b + length cs) ?t)" using ok(2) s(2) r(2,5) m(1) by (simp add: fb_reads_def setg_def)
  moreover have "fb_rest fv s = fv_rest fv (er_fd s) (fb_sys s)" "fb_rest fv ?t = fv_rest fv (er_fd s) f'"
    "fb_rest fv (setg b b (b + length cs) ?t) = cs @ fv_rest fv (er_fd s) f'"
    using assms(2) m(2) by (simp_all add: fb_rest_def get_slice_def setg_def)
  ultimately show ?thesis using r m(3) assms(2)
    by (intro exI [of _ b] exI [of _ cs] exI [of _ ?t]) simp
qed

lemma fb_underflow_reads:
  assumes "fb_reads sys fv s" "gcur s = gend s"
  shows "\<exists>s'. fb_underflow sys s = Some (Ret (case fb_rest fv s of [] \<Rightarrow> None | c # _ \<Rightarrow> Some c), s') \<and> fb_reads sys fv s' \<and>
    fb_rest fv s' = fb_rest fv s \<and> er_fd s' = er_fd s \<and> (fb_rest fv s \<noteq> [] \<longrightarrow> gcur s' < gend s')"
proof -
  obtain cv where c: "fb_cvt s = Some cv" using assms(1) cvt_ok_cvt by (auto simp: fb_reads_def)
  from fb_filled [OF assms] obtain b cs t where
    f: "cvt_underflow sys s = Some (Ret (b, int (length cs)), t)" "fb_reads sys fv t" "er_fd t = er_fd s"
      "fb_rest fv s = cs @ fb_rest fv t" "fb_rest fv s \<noteq> [] \<longrightarrow> cs \<noteq> []" "cs \<noteq> [] \<longrightarrow> sb_mem t ! b = hd cs"
      "fb_reads sys fv (setg b b (b + length cs) t)" "fb_rest fv (setg b b (b + length cs) t) = fb_rest fv s" by blast
  show ?thesis
  proof (cases cs)
    case Nil
    with f(4,5) have "fb_rest fv s = []" "fb_rest fv t = []" by auto
    with Nil f(1-3) c assms(2) show ?thesis by (intro exI [of _ t]) (simp add: fb_underflow_def)
  next
    case (Cons x xs)
    with f(1,6) have "fb_underflow sys s = Some (Ret (Some x), setg b b (b + length cs) t)"
      using c assms(2) by (simp add: fb_underflow_def setg_def nat_add_distrib)
    moreover have "er_fd (setg b b (b + length cs) t) = er_fd s" "gcur (setg b b (b + length cs) t) < gend (setg b b (b + length cs) t)"
      using Cons f(3) by (simp_all add: setg_def)
    moreover have "fb_rest fv s = x # xs @ fb_rest fv t" using f(4) Cons by simp
    ultimately show ?thesis using f(7,8) by (intro exI [of _ "setg b b (b + length cs) t"]) simp
  qed
qed

lemma fb_uflow_reads:
  assumes "fb_reads sys fv s" "gcur s = gend s"
  shows "\<exists>s'. fb_uflow sys s = Some (Ret (case fb_rest fv s of [] \<Rightarrow> None | c # _ \<Rightarrow> Some c), s') \<and> fb_reads sys fv s' \<and>
    fb_rest fv s' = tl (fb_rest fv s) \<and> er_fd s' = er_fd s"
proof -
  obtain cv where c: "fb_cvt s = Some cv" using assms(1) cvt_ok_cvt by (auto simp: fb_reads_def)
  from fb_filled [OF assms] obtain b cs t where
    f: "cvt_underflow sys s = Some (Ret (b, int (length cs)), t)" "fb_reads sys fv t" "er_fd t = er_fd s"
      "fb_rest fv s = cs @ fb_rest fv t" "fb_rest fv s \<noteq> [] \<longrightarrow> cs \<noteq> []" "cs \<noteq> [] \<longrightarrow> sb_mem t ! b = hd cs"
      "fb_reads sys fv (setg b b (b + length cs) t)" "fb_rest fv (setg b b (b + length cs) t) = fb_rest fv s" by blast
  consider "cs = []" | x where "cs = [x]" | x y xs where "cs = x # y # xs" by (metis list.exhaust)
  then show ?thesis
  proof cases
    case 1
    with f(4,5) have "fb_rest fv s = []" "fb_rest fv t = []" by auto
    with 1 f(1-3) c assms(2) show ?thesis by (intro exI [of _ t]) (simp add: fb_uflow_def)
  next
    case 2
    with f(4) have "fb_rest fv s = x # fb_rest fv t" by simp
    with 2 f(1-3,6) c assms(2) show ?thesis by (intro exI [of _ t]) (simp add: fb_uflow_def)
  next
    case 3
    let ?u = "setg b b (b + length cs) t" and ?v = "gbump 1 (setg b b (b + length cs) t)"
    have "fb_uflow sys s = Some (Ret (Some x), ?v)"
      using 3 f(1,6) c assms(2) by (simp add: fb_uflow_def setg_def nat_add_distrib)
    moreover have "?v = ?u\<lparr>gcur := gcur ?u + 1\<rparr>" "gcur ?u + 1 \<le> gend ?u" "er_fd ?v = er_fd s"
      using 3 f(3) by (simp_all add: gbump_def setg_def nat_add_distrib)
    moreover from fb_bump [OF f(7) this(2)] this(1) have "fb_reads sys fv ?v" "fb_rest fv ?v = tl (fb_rest fv s)"
      using f(8) by (simp_all add: drop_Suc)
    moreover have "fb_rest fv s = x # y # xs @ fb_rest fv t" using f(4) 3 by simp
    ultimately show ?thesis by (intro exI [of _ ?v]) simp
  qed
qed

lemma fb_vt_simps [simp]:
  "v_underflow (fb_vt sys other) = fb_underflow sys" "v_uflow (fb_vt sys other) = fb_uflow sys"
  "v_overflow (fb_vt0 sys other) = fb_overflow sys other" "v_overflow (fb_vt sys other) = fb_overflow sys other"
  "v_xsputn (fb_vt sys other) = base_xsputn (fb_vt0 sys other)" "v_sync (fb_vt sys other) = fb_sync sys other"
  by (simp_all add: fb_vt_def fb_vt0_def)

interpretation fb_source: scan_source "fb_vt sys other" "fb_reads sys fv" "fb_rest fv" er_fd for sys other fv
  by unfold_locales (simp_all add: fb_area fb_bump fb_underflow_reads fb_uflow_reads)

subsection \<open>Writing\<close>

lemma take_drop_grow:
  assumes "b \<le> p" "p < length xs"
  shows "take (Suc p - b) (drop b (xs[p := c])) = take (p - b) (drop b xs) @ [c]"
proof -
  have "drop b (xs[p := c]) = (drop b xs)[p - b := c]" using assms by (simp add: drop_update_swap)
  moreover have "Suc p - b = Suc (p - b)" using assms(1) by simp
  ultimately show ?thesis using assms take_grow [of "p - b" "drop b xs" c] by simp
qed

lemma fb_writes_fields:
  assumes "fb_writes sys fv s"
  shows "cvt_ok s" "write_law sys fv" "fv_writes fv (er_fd s) (fb_sys s)" "pbeg s \<le> pcur s" "pcur s \<le> pend s"
    "pend s \<le> length (sb_mem s)" "p_set s \<Longrightarrow> pend s < length (sb_mem s)" "\<not> p_set s \<Longrightarrow> pend s = 0" "er_is_open s"
    "length (fb_text fv s) \<le> fv_limit fv (fb_sys s)"
  using assms by (auto simp: fb_writes_def split: if_splits)

lemma fb_store:
  assumes "fb_writes sys fv s" "pcur s < pend s" "fb_fits (fb_put c (fb_abs fv s))"
  shows "fb_writes sys fv (s\<lparr>sb_mem := (sb_mem s)[pcur s := c], pcur := Suc (pcur s)\<rparr>)"
    "fb_abs fv (s\<lparr>sb_mem := (sb_mem s)[pcur s := c], pcur := Suc (pcur s)\<rparr>) = fb_put c (fb_abs fv s)"
proof -
  note s = fb_writes_fields [OF assms(1)]
  let ?t = "s\<lparr>sb_mem := (sb_mem s)[pcur s := c], pcur := Suc (pcur s)\<rparr>"
  have "cvt_ok ?t" by (rule cvt_ok_cong [OF s(1)]) simp_all
  moreover have t: "fb_text fv ?t = fb_text fv s @ [c]" using s(4,6) assms(2) by (simp add: fb_text_def take_drop_grow)
  moreover have "length (fb_text fv ?t) \<le> fv_limit fv (fb_sys s)" using assms(3) unfolding t by (simp add: fb_fits_def fb_put_def fb_abs_def)
  ultimately show "fb_writes sys fv ?t" using s(2-9) assms(2) by (auto simp: fb_writes_def er_is_open_def)
  show "fb_abs fv ?t = fb_put c (fb_abs fv s)" unfolding fb_abs_def fb_put_def t by simp
qed

lemma fb_flush_writes:
  assumes "cvt_ok s" "write_law sys fv" "fv_writes fv (er_fd s) (fb_sys s)" "pbeg s + n \<le> length (sb_mem s)"
    and "length (fv_text fv (fb_sys s) @ take n (drop (pbeg s) (sb_mem s))) \<le> fv_limit fv (fb_sys s)"
  shows "\<exists>f'. fb_flush sys (int n) r s = Some (Ret (Some r), s\<lparr>fb_sys := f', pcur := pbeg s\<rparr>) \<and> fv_writes fv (er_fd s) f' \<and>
    fv_text fv f' = fv_text fv (fb_sys s) @ take n (drop (pbeg s) (sb_mem s)) \<and> fv_limit fv f' = fv_limit fv (fb_sys s)"
proof -
  from cvt_overflow_writes [OF assms(1-3,5)] obtain f' where
    w: "cvt_overflow sys (take n (drop (pbeg s) (sb_mem s))) s = Some (Ret (int n), s\<lparr>fb_sys := f'\<rparr>)" "fv_writes fv (er_fd s) f'"
      "fv_text fv f' = fv_text fv (fb_sys s) @ take n (drop (pbeg s) (sb_mem s))" "fv_limit fv f' = fv_limit fv (fb_sys s)" using assms(4) by auto
  obtain cv where "fb_cvt s = Some cv" using cvt_ok_cvt [OF assms(1)] by auto
  with w(1) have "fb_flush sys (int n) r s = Some (Ret (Some r), s\<lparr>fb_sys := f', pcur := pbeg s\<rparr>)" by (simp add: fb_flush_def)
  with w(2-4) show ?thesis by blast
qed

text \<open>What a flushed buffer is: everything is in the file.\<close>

lemma fb_flushed:
  assumes "fb_writes sys fv s" "fv_writes fv (er_fd s) f'" "length ms = length (sb_mem s)" "length (fv_text fv f') \<le> fv_limit fv f'"
  shows "fb_writes sys fv (s\<lparr>sb_mem := ms, fb_sys := f', pcur := pbeg s\<rparr>)"
    "fb_text fv (s\<lparr>sb_mem := ms, fb_sys := f', pcur := pbeg s\<rparr>) = fv_text fv f'"
proof -
  note s = fb_writes_fields [OF assms(1)]
  have "cvt_ok (s\<lparr>sb_mem := ms, fb_sys := f', pcur := pbeg s\<rparr>)" by (rule cvt_ok_cong [OF s(1)]) (simp_all add: assms(3))
  then show "fb_writes sys fv (s\<lparr>sb_mem := ms, fb_sys := f', pcur := pbeg s\<rparr>)"
    using s assms(2-4) by (auto simp: fb_writes_def er_is_open_def fb_text_def)
  show "fb_text fv (s\<lparr>sb_mem := ms, fb_sys := f', pcur := pbeg s\<rparr>) = fv_text fv f'" by (simp add: fb_text_def)
qed

lemma fb_overflow_puts:
  assumes "fb_writes sys fv s" "pcur s = pend s" "fb_fits (fb_put c (fb_abs fv s))"
  shows "\<exists>s'. fb_overflow sys other (Some c) s = Some (Ret (Some c), s') \<and> fb_writes sys fv s' \<and> fb_abs fv s' = fb_put c (fb_abs fv s)"
proof (cases "p_set s")
  case True
  note s = fb_writes_fields [OF assms(1)]
  let ?t = "s\<lparr>sb_mem := (sb_mem s)[pcur s := c]\<rparr>" and ?n = "Suc (pcur s) - pbeg s"
  have lt: "pcur s < length (sb_mem s)" using s(5) s(7) [OF True] by simp
  have t: "cvt_ok ?t" by (rule cvt_ok_cong [OF s(1)]) simp_all
  have n: "int (pcur s) - int (pbeg s) + 1 = int ?n" using s(4) by simp
  have fit: "length (fb_text fv s @ [c]) \<le> fv_limit fv (fb_sys s)" using assms(3) by (simp add: fb_fits_def fb_put_def fb_abs_def)
  have grown: "fv_text fv (fb_sys s) @ take ?n (drop (pbeg s) ((sb_mem s)[pcur s := c])) = fb_text fv s @ [c]"
    using take_drop_grow [OF s(4) lt, of c] by (simp add: fb_text_def)
  have "pbeg ?t + ?n \<le> length (sb_mem ?t)" using s(4) lt by simp
  from fb_flush_writes [OF t s(2) _ this, of c] s(3) fit grown obtain f' where
    f: "fb_flush sys (int ?n) c ?t = Some (Ret (Some c), ?t\<lparr>fb_sys := f', pcur := pbeg s\<rparr>)" "fv_writes fv (er_fd s) f'"
      "fv_text fv f' = fb_text fv s @ [c]" "fv_limit fv f' = fv_limit fv (fb_sys s)" by auto
  from f(1) have "fb_overflow sys other (Some c) s = Some (Ret (Some c), ?t\<lparr>fb_sys := f', pcur := pbeg s\<rparr>)"
    using True by (simp only: fb_overflow_def Let_def option.case n if_True)
  then show ?thesis using fb_flushed [OF assms(1) f(2), of "(sb_mem s)[pcur s := c]"] f(3,4) fit by (simp add: fb_abs_def fb_put_def)
next
  case False
  note s = fb_writes_fields [OF assms(1)]
  have z: "pcur s = pbeg s" using s(4,5) s(8) [OF False] by simp
  have fit: "length (fv_text fv (fb_sys s) @ [c]) \<le> fv_limit fv (fb_sys s)"
    using assms(3) z by (simp add: fb_fits_def fb_put_def fb_abs_def fb_text_def)
  from cvt_overflow_writes [OF s(1-3) fit] obtain f' where
    w: "cvt_overflow sys [c] s = Some (Ret 1, s\<lparr>fb_sys := f'\<rparr>)" "fv_writes fv (er_fd s) f'"
      "fv_text fv f' = fv_text fv (fb_sys s) @ [c]" "fv_limit fv f' = fv_limit fv (fb_sys s)" by auto
  obtain cv where "fb_cvt s = Some cv" using cvt_ok_cvt [OF s(1)] by auto
  with w(1) False have "fb_overflow sys other (Some c) s = Some (Ret (Some c), s\<lparr>fb_sys := f'\<rparr>)" by (simp add: fb_overflow_def)
  moreover have same: "s\<lparr>sb_mem := sb_mem s, fb_sys := f', pcur := pbeg s\<rparr> = s\<lparr>fb_sys := f'\<rparr>" by (simp add: z [symmetric])
  moreover from fb_flushed [OF assms(1) w(2), of "sb_mem s"] w(3,4) fit have
    "fb_writes sys fv (s\<lparr>fb_sys := f'\<rparr>)" "fb_text fv (s\<lparr>fb_sys := f'\<rparr>) = fv_text fv f'" unfolding same by simp_all
  ultimately show ?thesis using w(3,4) z by (simp add: fb_abs_def fb_put_def) (simp add: fb_text_def)
qed

text \<open>\<^verbatim>\<open>sync\<close> puts everything into the file.\<close>

lemma fb_sync_writes:
  assumes "fb_writes sys fv s"
  shows "\<exists>s'. fb_sync sys other s = Some (Ret 0, s') \<and> fb_writes sys fv s' \<and> fb_text fv s' = fb_text fv s \<and>
    fv_text fv (fb_sys s') = fb_text fv s \<and> fv_limit fv (fb_sys s') = fv_limit fv (fb_sys s) \<and> er_fd s' = er_fd s"
proof (cases "pbeg s = pcur s")
  case True
  then show ?thesis using assms by (intro exI [of _ s]) (simp add: fb_sync_def fb_text_def)
next
  case False
  note s = fb_writes_fields [OF assms]
  have n: "int (pcur s) - int (pbeg s) + 1 - 1 = int (pcur s - pbeg s)" using s(4) by simp
  have "pbeg s + (pcur s - pbeg s) \<le> length (sb_mem s)" using s(4-6) by simp
  from fb_flush_writes [OF s(1-3) this, of other] s(10) obtain f' where
    f: "fb_flush sys (int (pcur s - pbeg s)) other s = Some (Ret (Some other), s\<lparr>fb_sys := f', pcur := pbeg s\<rparr>)"
      "fv_writes fv (er_fd s) f'" "fv_text fv f' = fb_text fv s" "fv_limit fv f' = fv_limit fv (fb_sys s)" by (auto simp: fb_text_def)
  have "fb_overflow sys other None s = Some (Ret (Some other), s\<lparr>fb_sys := f', pcur := pbeg s\<rparr>)"
    using f(1) by (simp only: fb_overflow_def Let_def option.case n)
  then have "fb_sync sys other s = Some (Ret 0, s\<lparr>fb_sys := f', pcur := pbeg s\<rparr>)" using False by (simp add: fb_sync_def)
  with fb_flushed [OF assms f(2), of "sb_mem s"] f(3,4) s(10) show ?thesis by simp
qed

interpretation fb_sink0: char_sink "fb_vt0 sys other" "fb_writes sys fv" "fb_abs fv" fb_put fb_fits for sys other fv
  by unfold_locales (auto simp: fb_writes_fields fb_store fb_overflow_puts dest: fb_fits_before fb_fits_length)

interpretation fb_sink: stream_sink "fb_vt sys other" "fb_writes sys fv" "fb_abs fv" fb_put fb_fits for sys other fv
proof
  fix s
  assume "fb_writes sys fv s"
  from fb_sync_writes [OF this, of other] show "\<exists>n s'. v_sync (fb_vt sys other) s = Some (Ret n, s') \<and> n \<noteq> - 1 \<and>
    fb_writes sys fv s' \<and> fb_abs fv s' = fb_abs fv s" by (fastforce simp: fb_abs_def)
qed (auto simp: fb_writes_fields fb_store fb_overflow_puts fb_sink0.base_xsputn_puts dest: fb_fits_before fb_fits_length)

section \<open>Files\<close>

lemma file_lawsD:
  assumes "file_laws sys fv fname"
  shows "read_law sys fv" "write_law sys fv"
    "fv_creates fv f \<Longrightarrow> \<exists>fd f'. sc_open sys fname \<lparr>o_access = Wronly, o_creat = True, o_trunc = True, o_append = False\<rparr> f = (fd, f') \<and>
       fd \<noteq> - 1 \<and> fv_writes fv fd f' \<and> fv_text fv f' = [] \<and> fv_limit fv f' = fv_limit fv f"
    "fv_opens fv f \<Longrightarrow> \<exists>fd f'. sc_open sys fname \<lparr>o_access = Rdonly, o_creat = False, o_trunc = False, o_append = False\<rparr> f = (fd, f') \<and>
       fd \<noteq> - 1 \<and> fv_reads fv fd f' \<and> fv_rest fv fd f' = fv_text fv f"
    "fv_writes fv fd f \<Longrightarrow> fv_text fv (sc_close sys fd f) = fv_text fv f"
    "fv_reads fv fd f \<or> fv_writes fv fd f \<Longrightarrow> \<exists>blk. sc_fstat sys fd f = (False, blk) \<and> 0 < blk"
  using assms unfolding file_laws_def by blast+

lemma mode_flags:
  "open_flags (om_trunc OR om_out) = \<lparr>o_access = Wronly, o_creat = True, o_trunc = True, o_append = False\<rparr>"
  "open_flags (om_in OR om_in) = \<lparr>o_access = Rdonly, o_creat = False, o_trunc = False, o_append = False\<rparr>"
  "(om_trunc OR om_out) AND om_ate = 0" "(om_in OR om_in) AND om_ate = 0"
  by (simp_all add: open_flags_def has_in_def has_out_def om_in_def om_out_def om_trunc_def om_ate_def om_app_def)

text \<open>The buffer after opening a file that is no directory.\<close>

lemma fb_open_new:
  assumes "sc_open sys fname (open_flags mode) f = (fd, f')" "fd \<noteq> - 1" "mode AND om_ate = 0" "sc_fstat sys fd f' = (False, blk)" "0 < blk"
  shows "fb_open sys junk (codecvt_char st) fname mode (fb_new f) = Some (Ret True,
    setp 1 (nat (2 * blk)) ((fb_new f)\<lparr>er_fd := fd, fb_sys := f', er_bufsiz := 2 * blk, er_mode := mode,
      sb_mem := CHR 0x00 # map junk [0..<nat (2 * blk)], fb_cvt := Some (Noconv 1), fb_arrays := 1\<rparr>))"
  using assms by (simp add: fb_open_def er_open_def fb_new_def cvt_init_def er_is_open_def setp_def Let_def)

lemma fb_open_out:
  assumes "file_laws sys fv fname" "fv_creates fv f"
  shows "\<exists>b. fb_open sys junk (codecvt_char st) fname (om_trunc OR om_out) (fb_new f) = Some (Ret True, b) \<and>
    fb_writes sys fv b \<and> fb_abs fv b = (fv_limit fv f, [])"
proof -
  note l = file_lawsD [OF assms(1)]
  from l(3) [OF assms(2)] obtain fd f' where o: "sc_open sys fname (open_flags (om_trunc OR om_out)) f = (fd, f')" "fd \<noteq> - 1"
    "fv_writes fv fd f'" "fv_text fv f' = []" "fv_limit fv f' = fv_limit fv f" unfolding mode_flags by blast
  from l(6) [of fd f'] o(3) obtain blk where "sc_fstat sys fd f' = (False, blk)" "0 < blk" by blast
  note op = fb_open_new [OF o(1,2) mode_flags(3) this, of junk st] and blk = this
  show ?thesis unfolding op using o(2-5) l(2) blk(2)
    by (simp add: setp_def fb_new_def fb_writes_def fb_abs_def fb_text_def cvt_ok_def er_is_open_def)
qed

lemma fb_open_in:
  assumes "file_laws sys fv fname" "fv_opens fv f"
  shows "\<exists>b. fb_open sys junk (codecvt_char st) fname (om_in OR om_in) (fb_new f) = Some (Ret True, b) \<and>
    fb_reads sys fv b \<and> fb_rest fv b = fv_text fv f"
proof -
  note l = file_lawsD [OF assms(1)]
  from l(4) [OF assms(2)] obtain fd f' where o: "sc_open sys fname (open_flags (om_in OR om_in)) f = (fd, f')" "fd \<noteq> - 1"
    "fv_reads fv fd f'" "fv_rest fv fd f' = fv_text fv f" unfolding mode_flags by blast
  from l(6) [of fd f'] o(3) obtain blk where "sc_fstat sys fd f' = (False, blk)" "0 < blk" by blast
  note op = fb_open_new [OF o(1,2) mode_flags(4) this, of junk st] and blk = this
  show ?thesis unfolding op using o(2-4) l(1) blk(2)
    by (simp add: setp_def fb_new_def fb_reads_def fb_rest_def get_slice_def cvt_ok_def)
qed

text \<open>Closing flushes: the file holds everything that was written.\<close>

lemma fb_close_out:
  assumes "file_laws sys fv fname" "fb_writes sys fv s"
  shows "\<exists>s' fd g. fb_close sys other s = Some (Ret True, s') \<and> fv_writes fv fd g \<and> fb_sys s' = sc_close sys fd g \<and>
    fv_text fv (fb_sys s') = fb_text fv s \<and> er_fd s' = - 1 \<and> fb_cvt s' = None"
proof -
  from fb_sync_writes [OF assms(2), of other] obtain t where
    t: "fb_sync sys other s = Some (Ret 0, t)" "fb_writes sys fv t" "fv_text fv (fb_sys t) = fb_text fv s" by blast
  note c = fb_writes_fields(3,9) [OF t(2)]
  from t(1) have "fb_close sys other s = Some (Ret True, (cvt_finish t)\<lparr>fb_sys := sc_close sys (er_fd t) (fb_sys t), er_fd := - 1\<rparr>)"
    using fb_writes_fields(9) [OF assms(2)] c(2) by (simp add: fb_close_def er_close_def cvt_finish_def er_is_open_def)
  with file_lawsD(5) [OF assms(1) c(1)] c(1) t(3) show ?thesis by (auto simp: cvt_finish_def)
qed

lemma fstream_writes_as:
  "writes_as loc (lf_widen loc CHR '' '') (fl_dec OR fl_skipws) 0 (ios_init (Some b) ((fstream_base f loc zero)\<lparr>io_sbuf := Some b\<rparr>))"
  "writes_as loc (lf_widen loc CHR '' '') (fl_dec OR fl_skipws) 0 ((ios_init (Some a) (fstream_base f loc zero))\<lparr>io_sbuf := Some b\<rparr>)"
  "io_sbuf (ios_init (Some b) s) = Some b" "io_sbuf (fstream_base f loc zero) = Some (fb_new f)"
  by (simp_all add: fstream_base_def writes_as_def ios_new_def ios_init_def good_def flags_get_def flag_defs Let_def)

lemma ofstream_opened:
  assumes "file_laws sys fv fname" "fv_creates fv f"
  shows "\<exists>s b. ofstream_new sys junk (codecvt_char st) fname om_trunc (fstream_base f loc zero) = Some (Ret (), s) \<and>
    writes_as loc (lf_widen loc CHR '' '') (fl_dec OR fl_skipws) 0 s \<and> io_sbuf s = Some b \<and> fb_writes sys fv b \<and>
    fb_abs fv b = (fv_limit fv f, [])"
proof -
  let ?o = "fb_open sys junk (codecvt_char st) fname (om_trunc OR om_out)"
  from fb_open_out [OF assms, of junk st] obtain a where
    a: "?o (fb_new f) = Some (Ret True, a)" "fb_writes sys fv a" "fb_abs fv a = (fv_limit fv f, [])" by blast
  have "ofstream_new sys junk (codecvt_char st) fname om_trunc (fstream_base f loc zero) =
      Some (Ret (), ios_init (Some a) ((fstream_base f loc zero)\<lparr>io_sbuf := Some a\<rparr>))"
    using on_sbuf_ret [where m = ?o, OF fstream_writes_as(4) a(1), of loc zero]
    by (simp add: ofstream_new_def ofstream_open_def stream_init_def io_mod_def)
  with fstream_writes_as(1) [of loc a f zero] fstream_writes_as(3) [of a "(fstream_base f loc zero)\<lparr>io_sbuf := Some a\<rparr>"] a(2,3)
  show ?thesis by (intro exI conjI)
qed

lemma ifstream_opened:
  assumes "file_laws sys fv fname" "fv_opens fv f"
  shows "\<exists>s b. ifstream_new sys junk (codecvt_char st) fname om_in (fstream_base f loc zero) = Some (Ret (), s) \<and>
    writes_as loc (lf_widen loc CHR '' '') (fl_dec OR fl_skipws) 0 s \<and> io_sbuf s = Some b \<and> fb_reads sys fv b \<and>
    fb_rest fv b = fv_text fv f"
proof -
  let ?o = "fb_open sys junk (codecvt_char st) fname (om_in OR om_in)" and ?i = "ios_init (Some (fb_new f)) (fstream_base f loc zero)"
  from fb_open_in [OF assms, of junk st] obtain a where
    a: "?o (fb_new f) = Some (Ret True, a)" "fb_reads sys fv a" "fb_rest fv a = fv_text fv f" by blast
  have "ifstream_new sys junk (codecvt_char st) fname om_in (fstream_base f loc zero) = Some (Ret (), ?i\<lparr>io_sbuf := Some a\<rparr>)"
    using on_sbuf_ret [where m = ?o, OF fstream_writes_as(3) a(1), of "fstream_base f loc zero"]
    by (simp add: ifstream_new_def stream_init_def io_mod_def fstream_writes_as(4))
  moreover have "io_sbuf (?i\<lparr>io_sbuf := Some a\<rparr>) = Some a" by simp
  ultimately show ?thesis using fstream_writes_as(2) [where a = "fb_new f" and b = a and f = f] a(2,3) by (intro exI conjI)
qed

lemma fstream_closed:
  assumes "file_laws sys fv fname" "io_sbuf s = Some b" "fb_writes sys fv b"
  shows "\<exists>b' fd g. fstream_close sys other s = Some (Ret (), s\<lparr>io_sbuf := Some b'\<rparr>) \<and> fv_writes fv fd g \<and> fb_sys b' = sc_close sys fd g \<and>
    fv_text fv (fb_sys b') = fb_text fv b"
proof -
  from fb_close_out [OF assms(1,3), of other] obtain b' fd g where
    b': "fb_close sys other b = Some (Ret True, b')" "fv_writes fv fd g" "fb_sys b' = sc_close sys fd g" "fv_text fv (fb_sys b') = fb_text fv b" by blast
  with on_sbuf_ret [where m = "fb_close sys other", OF assms(2) b'(1)] show ?thesis
    by (intro exI [of _ b'] exI [of _ fd] exI [of _ g]) (simp add: fstream_close_def)
qed

text \<open>
  C19: Values of type \<^verbatim>\<open>long\<close> inserted into an output file stream, with a separator behind each: their text is in the file when the stream is closed, and they
  are read back by a stream that opens the file, through any size of the buffer and whatever
  pieces the system reads it in. The streams stay good. The file can be created, has room for the text and can be opened again, and no
  read fails; what the code does otherwise is shown below. There are fewer than \<open>2 ^ 25\<close> values, none of them the smallest
  \<^verbatim>\<open>long\<close>, and the locale has no grouping and tells the characters of numbers apart from each other and from white space.
\<close>

theorem file_roundtrip:
  assumes "file_laws sys fv fname" "fv_creates fv f" "\<And>fd g. fv_writes fv fd g \<Longrightarrow> fv_opens fv (sc_close sys fd g)"
    and "length (items_text loc (lf_widen loc CHR '' '') (fl_dec OR fl_skipws) 0 (long_items sp vs)) \<le> fv_limit fv f"
    and "scans_with np wd loc sp" "long_min \<notin> set vs" "length vs < 2 ^ 25"
  shows "\<exists>s s1 s2 b t t'. ofstream_new sys junk (codecvt_char st) fname om_trunc (fstream_base f loc zero) = Some (Ret (), s) \<and>
    put_items (fb_vt sys other) null (long_items sp vs) s = Some (Ret (), s1) \<and> good s1 \<and>
    fstream_close sys other s1 = Some (Ret (), s2) \<and> io_sbuf s2 = Some b \<and>
    fv_text fv (fb_sys b) = items_text loc (lf_widen loc CHR '' '') (fl_dec OR fl_skipws) 0 (long_items sp vs) \<and>
    ifstream_new sys junk (codecvt_char st) fname om_in (fstream_base (fb_sys b) loc zero) = Some (Ret (), t) \<and>
    get_longs (fb_vt sys other) eofc (length vs) t = Some (Ret vs, t') \<and> good t'"
proof -
  let ?f = "fl_dec OR fl_skipws" let ?text = "items_text loc (lf_widen loc CHR '' '') ?f 0 (long_items sp vs)"
  have f: "base_ok ?f" "field_base ?f = 10" "?f AND fl_skipws \<noteq> 0" by (simp_all add: base_ok_def field_base_def flag_defs Let_def)
  have g: "grouping_ok loc" using assms(5) by (auto simp: scans_with_def grouping_ok_def ungrouped_def char_max_def)
  from ofstream_opened [OF assms(1,2), of junk st loc zero] obtain s a where
    s: "ofstream_new sys junk (codecvt_char st) fname om_trunc (fstream_base f loc zero) = Some (Ret (), s)"
      "writes_as loc (lf_widen loc CHR '' '') ?f 0 s" "io_sbuf s = Some a" "fb_writes sys fv a" "fb_abs fv a = (fv_limit fv f, [])" by blast
  have fit: "fb_fits (fold fb_put ?text (fb_abs fv a))"
    using assms(4) longs_text_length [OF assms(5) f(2) assms(6,7)] by (simp add: s(5) fold_fb_put fb_fits_def items_text_long)
  from fb_sink.items_write [OF s(2-4) g f(1) long_items_ok [OF assms(6)] order.refl fit, of other null] obtain s1 b1 where
    s1: "put_items (fb_vt sys other) null (long_items sp vs) s = Some (Ret (), s1)" "io_sbuf s1 = Some b1" "fb_writes sys fv b1"
      "fb_abs fv b1 = (fv_limit fv f, ?text)" "good s1"
    unfolding s(5) fold_fb_put append_Nil writes_as_def by blast
  have t1: "fb_text fv b1 = ?text" using s1(4) by (simp add: fb_abs_def)
  from fstream_closed [OF assms(1) s1(2,3), of other] assms(3) obtain b where
    b: "fstream_close sys other s1 = Some (Ret (), s1\<lparr>io_sbuf := Some b\<rparr>)" "fv_opens fv (fb_sys b)" "fv_text fv (fb_sys b) = ?text"
    unfolding t1 by force
  from ifstream_opened [OF assms(1) b(2), of junk st loc zero] obtain t c where
    t: "ifstream_new sys junk (codecvt_char st) fname om_in (fstream_base (fb_sys b) loc zero) = Some (Ret (), t)"
      "writes_as loc (lf_widen loc CHR '' '') ?f 0 t" "io_sbuf t = Some c" "fb_reads sys fv c"
      "fb_rest fv c = [] @ concat (map (\<lambda>v. long_text loc ?f v @ [sp]) vs)" unfolding b(3) items_text_long append_Nil by blast
  have w: "good t" "io_exceptions t = goodbit" "ib_loc t = loc" "flags_get t = ?f" using t(2) by (simp_all add: writes_as_def)
  from fb_source.get_longs_reads [OF assms(5) f(2,3) w t(3-5) _ assms(6), of other eofc] obtain t' where
    "get_longs (fb_vt sys other) eofc (length vs) t = Some (Ret vs, t')" "good t'" by auto
  with s(1) s1(1,5) b t(1) show ?thesis
    by (intro exI [of _ s] exI [of _ s1] exI [of _ "s1\<lparr>io_sbuf := Some b\<rparr>"] exI [of _ b] exI [of _ t] exI [of _ t']) simp
qed

text \<open>
  One file that can have 100 characters and that is read two characters at a time, with blocks of one character; nothing else can be opened.
\<close>

definition demo_calls :: "(char list \<times> nat) syscalls" where
  "demo_calls =
     \<lparr>sc_open = (\<lambda>n fl (t, p). if n = ''numbers'' then (3, if o_trunc fl then [] else t, 0) else (- 1, t, p)),
      sc_close = (\<lambda>fd f. f), sc_fstat = (\<lambda>fd f. (False, 1)),
      sc_read = (\<lambda>fd n (t, p). let cs = take (nat (min 2 n)) (drop p t) in (Some cs, t, p + length cs)),
      sc_write = (\<lambda>fd cs (t, p). let cs = take (100 - length t) cs in (int (length cs), t @ cs, p)), sc_lseek = (\<lambda>fd off dir (t, p).
        let q = (case dir of Beg \<Rightarrow> off | Cur \<Rightarrow> int p + off | End \<Rightarrow> int (length t) + off) in (q, t, nat q))\<rparr>"

definition demo_view :: "(char list \<times> nat) file_view" where
  "demo_view = \<lparr>fv_text = fst, fv_rest = (\<lambda>fd (t, p). drop p t), fv_reads = (\<lambda>fd f. fd = 3), fv_writes = (\<lambda>fd f. fd = 3),
     fv_limit = (\<lambda>f. 100), fv_creates = (\<lambda>f. True), fv_opens = (\<lambda>f. True)\<rparr>"

lemma demo_laws: "file_laws demo_calls demo_view ''numbers''"
proof -
  have d: "drop p t = take k (drop p t) @ drop (p + length (take k (drop p t))) t" for k p and t :: "char list"
  proof (cases "k \<le> length t - p")
    case True
    then have "drop (p + length (take k (drop p t))) t = drop k (drop p t)" by (simp add: add.commute)
    then show ?thesis by (simp only: append_take_drop_id)
  qed simp
  have "read_law demo_calls demo_view"
    using d by (auto simp: read_law_def demo_calls_def demo_view_def Let_def simp del: length_take) simp
  moreover have "write_law demo_calls demo_view" by (auto simp: write_law_def demo_calls_def demo_view_def Let_def)
  ultimately show ?thesis by (simp add: file_laws_def) (simp add: demo_calls_def demo_view_def)
qed

theorem file_roundtrip_witness:
  "\<exists>s s1 s2 b t t'. ofstream_new demo_calls (\<lambda>_. CHR ''?'') (codecvt_char ()) ''numbers'' om_trunc
        (fstream_base (''old'', 0) c_facets CHR 0x00) = Some (Ret (), s) \<and>
     put_items (fb_vt demo_calls CHR 0x00) ''(null)'' [Long (- 42), Char CHR '' '', Long 7, Char CHR '' ''] s = Some (Ret (), s1) \<and>
     fstream_close demo_calls CHR 0x00 s1 = Some (Ret (), s2) \<and> io_sbuf s2 = Some b \<and>
     ifstream_new demo_calls (\<lambda>_. CHR ''?'') (codecvt_char ()) ''numbers'' om_in (fstream_base (fb_sys b) c_facets CHR 0x00) = Some (Ret (), t) \<and>
     get_longs (fb_vt demo_calls CHR 0x00) CHR 0xFF 2 t = Some (Ret [- 42, 7], t')"
proof -
  have ok: "scans_with c_punct id c_facets CHR '' ''"
    using c_cache_init c_scan by (simp add: scans_with_def c_facets_def plain_facets_def ungrouped_def number_char_def c_class scan_classes)
  have m: "long_min \<notin> set [- 42, 7]" by (simp add: long_min_def)
  have f: "field_base (fl_dec OR fl_skipws) = 10" by (simp add: field_base_def flag_defs Let_def)
  have l: "length [- 42, 7 :: ulong] < 2 ^ 25" by simp
  have "length (items_text c_facets (lf_widen c_facets CHR '' '') (fl_dec OR fl_skipws) 0 (long_items CHR '' '' [- 42, 7])) \<le> 47 * length [- 42, 7 :: ulong]"
    unfolding items_text_long by (rule longs_text_bound [OF ok f m])
  then have t: "length (items_text c_facets (lf_widen c_facets CHR '' '') (fl_dec OR fl_skipws) 0 (long_items CHR '' '' [- 42, 7])) \<le> fv_limit demo_view (''old'', 0)"
    by (simp add: demo_view_def)
  have v: "fv_creates demo_view g" "fv_opens demo_view g" for g by (simp_all add: demo_view_def)
  from file_roundtrip [OF demo_laws v(1) v(2) t ok m l, of "\<lambda>_. CHR ''?''" "()" "CHR 0x00" "CHR 0x00" "''(null)''" "CHR 0xFF"]
  show ?thesis unfolding long_items_def by (simp add: numeral_2_eq_2) blast
qed

section \<open>What goes wrong\<close>

text \<open>Asking for the position does not take off what is still unread in the buffer, and throws it away.\<close>

lemma tell_skips_unread:
  assumes "fb_cvt s = Some cv" "fb_buffered s" "pbeg s = pcur s" "pcur s \<noteq> pend s"
    and "sc_lseek sys (er_fd s) 0 Cur (fb_sys s) = (p, fb_sys s)" "sc_lseek sys (er_fd s) p Beg (fb_sys s) = (p, fb_sys s)"
  shows "\<exists>s'. fb_seekoff sys other 0 Cur s = Some (Ret p, s') \<and> fb_rest fv s' = fv_rest fv (er_fd s) (fb_sys s)"
  using assms by (simp add: fb_seekoff_def er_seek_def discard_areas_def fb_rest_def get_slice_def)

text \<open>Closing leaves the get area: after opening another file the rest of the old one is read.\<close>

lemma reopened_reads_old:
  assumes "er_fd s = - 1" "gcur s < gend s" "gend s \<le> length (sb_mem s)"
    and "fb_open sys junk cc fname mode s = Some (Ret True, s')"
  shows "sgetc (fb_vt sys other) s' = Some (Ret (Some (sb_mem s ! gcur s)), s')"
  using assms by (auto simp: fb_open_def er_open_def cvt_init_def setp_def sgetc_def Let_def nth_append io_bind_def case_prod_beta
    split: if_splits option.splits)

text \<open>A failed write is not reported by \<^verbatim>\<open>sync\<close> and \<^verbatim>\<open>close\<close>; after a short one the next attempt writes all again.\<close>

lemma sync_hides_errors:
  assumes "fb_cvt s = Some (Noconv b)" "pbeg s < pcur s" "pcur s \<le> length (sb_mem s)"
    and "sc_write sys (er_fd s) (take (pcur s - pbeg s) (drop (pbeg s) (sb_mem s))) (fb_sys s) = (n, f')" "n \<noteq> int (pcur s - pbeg s)"
  shows "fb_sync sys other s = Some (Ret 0, s\<lparr>fb_sys := f'\<rparr>)"
    "er_is_open s \<Longrightarrow> \<exists>s'. fb_close sys other s = Some (Ret True, s') \<and> fb_sys s' = sc_close sys (er_fd s) f'"
proof -
  have n: "int (pcur s) - int (pbeg s) + 1 - 1 = int (pcur s - pbeg s)" using assms(2) by simp
  have "fb_flush sys (int (pcur s - pbeg s)) other s = Some (Ret None, s\<lparr>fb_sys := f'\<rparr>)"
    using assms(1,4,5) by (simp add: fb_flush_def cvt_overflow_def er_write_sys)
  then have "fb_overflow sys other None s = Some (Ret None, s\<lparr>fb_sys := f'\<rparr>)"
    by (simp only: fb_overflow_def Let_def option.case n)
  then show "fb_sync sys other s = Some (Ret 0, s\<lparr>fb_sys := f'\<rparr>)" using assms(2) by (simp add: fb_sync_def)
  then show "\<exists>s'. fb_close sys other s = Some (Ret True, s') \<and> fb_sys s' = sc_close sys (er_fd s) f'" if "er_is_open s"
    using that by (simp add: fb_close_def er_close_def cvt_finish_def er_is_open_def)
qed

text \<open>A failed read gives whatever the array holds instead of the end, with an area that ends before it begins.\<close>

lemma read_error_is_character:
  assumes "fb_cvt s = Some (Noconv b)" "0 < b" "gcur s = gend s" "sc_read sys (er_fd s) (er_bufsiz s) (fb_sys s) = (None, f')"
  shows "\<exists>s'. fb_underflow sys s = Some (Ret (Some (sb_mem s ! b)), s') \<and> gcur s' = b \<and> gend s' < gcur s'"
  using assms by (simp add: fb_underflow_def cvt_underflow_def er_read_sys setg_def)

text \<open>A file that cannot be opened leaves an output stream good.\<close>

lemma failed_open_good:
  fixes cc :: "'st codecvt" and f :: 'f
  assumes "sc_open sys fname (open_flags (mode OR om_out)) f = (- 1, f')"
  shows "\<exists>s. ofstream_new sys junk cc fname mode (fstream_base f loc zero) = Some (Ret (), s) \<and> good s"
proof -
  let ?o = "fb_open sys junk cc fname (mode OR om_out)" and ?b = "(fb_new f :: ('f, 'st) filebuf)\<lparr>er_fd := - 1, fb_sys := f', er_mode := mode OR om_out\<rparr>"
  have "?o (fb_new f) = Some (Ret False, ?b)" using assms by (simp add: fb_open_def er_open_def fb_new_def er_is_open_def)
  from on_sbuf_ret [where m = ?o, OF fstream_writes_as(4) this, of loc zero]
  have "ofstream_new sys junk cc fname mode (fstream_base f loc zero) =
      Some (Ret (), ios_init (Some ?b) ((fstream_base f loc zero)\<lparr>io_sbuf := Some ?b\<rparr>))"
    by (simp add: ofstream_new_def ofstream_open_def stream_init_def io_mod_def)
  moreover have "good (ios_init (Some ?b) ((fstream_base f loc zero)\<lparr>io_sbuf := Some ?b\<rparr>))"
    using fstream_writes_as(1) [of loc ?b f zero] by (simp add: writes_as_def)
  ultimately show ?thesis by blast
qed

end
