(* ===== verification/Spec2Isabelle.thy ===== *)
theory Spec2Isabelle
  imports
    Stop_State
    In_Place_Stop
    When_All
    Repeat_Until
    Run_Loop
    Async_Scope
    Consumers
    Ip_Address
    Buffers
    D_Heap
    Poll_Behaviour
    Ring_Context
    Resources
    Async_Io
    Net_Operations
    Observer_Context
    Algorithms
    P_Queue
    P_Heap
    Sockets
    Execution_Context
    Tasks
    Filebuf
begin

text \<open>
  \<^bold>\<open>kuhllib.\<close> The repository is an implementation of parts of the C++ library of its author: senders and receivers
  with their stop tokens and contexts (\<^verbatim>\<open>src/src/nstd/execution\<close>, \<^verbatim>\<open>stop_token\<close>, \<^verbatim>\<open>thread\<close>, \<^verbatim>\<open>container\<close>), networking on top of them
  (\<^verbatim>\<open>net\<close>, \<^verbatim>\<open>buffer\<close>, \<^verbatim>\<open>endian\<close>, \<^verbatim>\<open>file\<close>, \<^verbatim>\<open>timer\<close>), and older libraries: the heaps of \<^verbatim>\<open>src/src/old-boost/heaps\<close> and the
  iostreams of \<^verbatim>\<open>src/cxxrt-source\<close>. A
  sender connected with a receiver makes an operation state; starting that leads to one completion of the
  receiver, with values, an error or a stop. The adaptors put operation states inside each other, the
  contexts execute them, stop tokens pass requests to end early the other way. The I/O contexts hand
  operations to the system and complete them from its results. The iostreams are layered: a stream buffer holds characters, \<^verbatim>\<open>ios_base\<close> and
  \<^verbatim>\<open>basic_ios\<close> hold the format and the state, the numeric facets convert through a cache of the locale's characters, and the output and input
  streams put these together under a sentry.

  \<^bold>\<open>Theories and sources.\<close>

  \<^item> \<^theory_text>\<open>Prelude\<close>: addresses, the loop combinator \<^const>\<open>loop_while\<close> for loops that may not return, with its rules for
    total correctness, invariants, divergence and simulation.
  \<^item> \<^theory_text>\<open>Intrusive_List\<close>: \<^verbatim>\<open>container/intrusive_list.hpp\<close> on a heap of link fields. \<^const>\<open>ring\<close> relates it to a list; the locale
    \<open>fifo\<close> is the queue its clients use, interpreted on the operations.
  \<^item> \<^theory_text>\<open>Stop_State\<close>: \<^verbatim>\<open>stop_token/stop_state.hpp\<close>, \<^verbatim>\<open>stop_source\<close>, \<^verbatim>\<open>stop_token\<close>, \<^verbatim>\<open>stop_callback\<close>. Histories of registering, destroying and
    requesting call what a specification says; the race between the two halves of \<^verbatim>\<open>request_stop\<close>.
  \<^item> \<^theory_text>\<open>In_Place_Stop\<close>: \<^verbatim>\<open>stop_token/in_place_stop_token.hpp\<close>, pointer by pointer, with the compare-exchange loops turn by turn. The same kind of
    history theorem, and two ways in which the marker hangs a thread.
  \<^item> \<^theory_text>\<open>Signatures\<close>: the templates on completion signatures in \<^verbatim>\<open>hidden_names\<close> and \<^verbatim>\<open>execution\<close> as functions on lists.
  \<^item> \<^theory_text>\<open>Senders\<close>: receivers, senders, \<^verbatim>\<open>just\<close>, \<^verbatim>\<open>then\<close>, \<^verbatim>\<open>let\<close>, \<^verbatim>\<open>on\<close>, \<^verbatim>\<open>add_value\<close>, \<^verbatim>\<open>inject_cancel\<close>. What each delivers, that it keeps to the
    signatures it declares (the locale \<open>receiver_adaptor\<close> has the argument once), how \<^verbatim>\<open>then\<close> composes.
  \<^item> \<^theory_text>\<open>When_All\<close>: \<^verbatim>\<open>execution/when_all.hpp\<close> as a step relation over the atomic accesses; exactly one completion in every
    interleaving, progress except inside a call of \<^verbatim>\<open>stop\<close> that does not return, declared signatures.
  \<^item> \<^theory_text>\<open>Repeat_Until\<close>: \<^verbatim>\<open>execution/repeat_effect_until.hpp\<close> with its re-entrant loop and the lifetime of the inner state.
  \<^item> \<^theory_text>\<open>Run_Loop\<close>: \<^verbatim>\<open>execution/run_loop.{hpp,cpp}\<close>, one running thread and any number of threads that queue; order, progress after
    \<^verbatim>\<open>finish\<close>, the missing notification.
  \<^item> \<^theory_text>\<open>Async_Scope\<close>: \<^verbatim>\<open>execution/async_scope.{hpp,cpp}\<close>.
  \<^item> \<^theory_text>\<open>Consumers\<close>: \<^verbatim>\<open>thread/sync_wait.hpp\<close>, \<^verbatim>\<open>execution/start_detached.hpp\<close>, \<^verbatim>\<open>execution/timeout.hpp\<close>.
  \<^item> \<^theory_text>\<open>Bytes\<close>, \<^theory_text>\<open>Ip_Address\<close>, \<^theory_text>\<open>Buffers\<close>: \<^verbatim>\<open>endian\<close>, \<^verbatim>\<open>net/ip\<close> and \<^verbatim>\<open>buffer\<close> with \<^verbatim>\<open>net/get_iovec.hpp\<close>, on words of the width the code
    uses: values, comparison, classification, printing and the round trip through a socket address.
  \<^item> \<^theory_text>\<open>File_Context\<close>: the interface \<^verbatim>\<open>file/context.hpp\<close> with \<^verbatim>\<open>io_base\<close>, the continuations and \<^verbatim>\<open>net/io_context.cpp\<close>; the locale of a context that accounts for its
    operations is proved for both contexts below.
  \<^item> \<^theory_text>\<open>Poll_Context\<close>, \<^theory_text>\<open>Poll_Accounting\<close>, \<^theory_text>\<open>Poll_Behaviour\<close>: \<^verbatim>\<open>file/poll_context.{hpp,cpp}\<close> with its timer queue, the self-pipe and every \<^verbatim>\<open>do_\<close> function. Every operation
    submitted is completed once or still outstanding, and nothing is when \<^verbatim>\<open>run\<close> returns unless \<^verbatim>\<open>poll\<close> failed; cancellation; the order of scheduled work; what a second run does.
  \<^item> \<^theory_text>\<open>Ring\<close>, \<^theory_text>\<open>Ring_Context\<close>: \<^verbatim>\<open>file/ring.hpp\<close> with counters that wrap, as a refinement of a bounded queue, and \<^verbatim>\<open>file/ring_context.{hpp,cpp}\<close> over the two rings it shares with
    the kernel; accounting, with calls of \<^verbatim>\<open>io_uring_enter\<close> that may fail, and that \<^verbatim>\<open>run\<close> returns if every request was taken.
  \<^item> \<^theory_text>\<open>Resources\<close>: \<^verbatim>\<open>file/descriptor\<close>, \<^verbatim>\<open>file/mapped_memory\<close>, and the mapping of the rings in \<^verbatim>\<open>ring_context::setup\<close>; closing once, bounds of the mapped accesses.
  \<^item> \<^theory_text>\<open>Async_Io\<close>: \<^verbatim>\<open>file/async_io.hpp\<close>, the operation state shared between the context's result, the cancellation and the stop callback, as a step relation.
  \<^item> \<^theory_text>\<open>Net_Operations\<close>: the senders of \<^verbatim>\<open>net/async_*.hpp\<close>, \<^verbatim>\<open>file/open.hpp\<close>, \<^verbatim>\<open>file/read.hpp\<close>, \<^verbatim>\<open>timer/async_wait.hpp\<close>.
    \<^verbatim>\<open>async_read\<close> and \<^verbatim>\<open>async_write\<close>, composed of these and the sender algorithms, are not modelled.
  \<^item> \<^theory_text>\<open>Sockets\<close>: the socket objects of \<^verbatim>\<open>net\<close>, their synchronous operations over system calls, the constructors and what they leave open, and the queue of sending operations of
    \<^verbatim>\<open>basic_stream_socket\<close> on an intrusive list; \<^verbatim>\<open>basic_waitable_timer\<close>.
  \<^item> \<^theory_text>\<open>Execution_Context\<close>: \<^verbatim>\<open>executor/execution_context\<close>, the registry of services as a refinement of a map, and its destruction.
  \<^item> \<^theory_text>\<open>Tasks\<close>: \<^verbatim>\<open>execution/task.hpp\<close>, coroutines as senders, and \<^verbatim>\<open>execution/run.hpp\<close>.
  \<^item> \<^theory_text>\<open>Observer_Context\<close>: \<^verbatim>\<open>file/observer_context\<close> and \<^verbatim>\<open>file/test_context\<close>.
  \<^item> \<^theory_text>\<open>Algorithms\<close>: \<^verbatim>\<open>algorithm\<close> on \<^verbatim>\<open>cursor\<close>; a locale for ranges, interpreted for arrays and integers.
  \<^item> \<^theory_text>\<open>Max_Queue\<close>, \<^theory_text>\<open>Heap_Order\<close>, \<^theory_text>\<open>D_Heap\<close>, \<^theory_text>\<open>P_Queue\<close>, \<^theory_text>\<open>P_Heap\<close>: the contract of the heaps of \<^verbatim>\<open>old-boost/heaps\<close> as a locale with what clients get from it, and three instances: the d-ary heap, the
    binary heap, both in a vector, and the pairing heap on nodes with pointers to pointers, with its destructor; where \<^verbatim>\<open>decrease\<close>, \<^verbatim>\<open>remove\<close> and \<^verbatim>\<open>change_top\<close> fail.

  \<^item> \<^theory_text>\<open>Cxxrt_Algorithm\<close>, \<^theory_text>\<open>Locale_Cache\<close>: the internal quicksort of \<^verbatim>\<open>cxxrt/algorithm.h\<close>, and \<^verbatim>\<open>lcache.{h,cc}\<close>, which sorts the characters of a locale with it and searches them with an
    unrolled binary search; the search finds the class of every character.
  \<^item> \<^theory_text>\<open>Streambuf\<close>, \<^theory_text>\<open>Stringbuf\<close>: \<^verbatim>\<open>streambuf.{h,cc}\<close> over a table of virtual functions and \<^verbatim>\<open>sstream.cc\<close> as an instance; a string buffer refines a string with two positions. \<^verbatim>\<open>gbump\<close>, \<^verbatim>\<open>pbump\<close> and
    the counts of fill characters are \<^verbatim>\<open>int\<close>: callers' sizes are truncated to 32 bits, and the theorems on buffers and streams are for fewer than \<open>2 ^ 31\<close> characters.
  \<^item> \<^theory_text>\<open>Ios_Base\<close>, \<^theory_text>\<open>Ios\<close>: \<^verbatim>\<open>src/ios_base.cpp\<close> with the callbacks and their reference counts, and \<^verbatim>\<open>ios.{h,cc}\<close>; the internal bits that let the output functions skip the sentry, and the conditions under which they are right.
  \<^item> \<^theory_text>\<open>Num_Put\<close>, \<^theory_text>\<open>Ostream\<close>, \<^theory_text>\<open>Ostream_Text\<close>: \<^verbatim>\<open>num_put.cc\<close> and \<^verbatim>\<open>ostream.{h,cc}\<close>; the text of a number, and that a string stream holds the concatenated texts of what is inserted, proved in a locale of sinks
    that the string buffer interprets.
  \<^item> \<^theory_text>\<open>Num_Get\<close>, \<^theory_text>\<open>Istream\<close>, \<^theory_text>\<open>Istream_Numbers\<close>: \<^verbatim>\<open>num_get.cc\<close> with \<^verbatim>\<open>extractor.h\<close>, \<^verbatim>\<open>istream.{h,cc}\<close> and \<^verbatim>\<open>isbuf_it.cc\<close>; the value of a numeral with its bounds, that printed integers are read back,
    what \<^verbatim>\<open>get\<close> and \<^verbatim>\<open>getline\<close> take from a string stream, and that the facet on a stream buffer agrees with the facet on a list of characters, so that numbers
    written to a string stream are read back.
  \<^item> \<^theory_text>\<open>Strstreambuf\<close>: \<^verbatim>\<open>src/cstrstrm.cpp\<close>, a growing array as a second instance of the contracts of a source and of a sink; what is written to a stream on it is read back from the
    same stream; \<^verbatim>\<open>pcount\<close>, \<^verbatim>\<open>str\<close> and seeking from the beginning do not do what they are for.
  \<^item> \<^theory_text>\<open>Filebuf\<close>: \<^verbatim>\<open>src/sysfile.cpp\<close>, \<^verbatim>\<open>convert.cc\<close>, \<^verbatim>\<open>cvtbuf.cc\<close>, \<^verbatim>\<open>filebuf.cc\<close> and \<^verbatim>\<open>fstream.cc\<close> for \<^verbatim>\<open>char\<close>, over system calls as a parameter: a file is a third source and sink, and what is
    written to a file is read back from it, if the file can be created, has room and can be opened again; what failed or short system calls and seeking do.

  \<^bold>\<open>State, errors, loops.\<close> An object is a record with the fields of the class; objects linked by pointers live in functions from addresses.
  \<^verbatim>\<open>std::terminate\<close>, an access to an empty optional, a loop that does not end are values of an option type or
  a field of the state, never left out. \<^const>\<open>loop_while\<close> is a partial function, so a statement that an operation gives \<open>Some\<close> result
  includes that it returns. The one loop with fuel is that of \<^verbatim>\<open>d_heap::decrease\<close>; its fuel is the size of the heap plus one, and the
  theorem on \<^verbatim>\<open>change\<close> shows that it is enough. Operations that other threads interrupt are cut at their atomic
  accesses and run as steps in any order; memory is sequentially consistent.

  \<^bold>\<open>Parameters.\<close> What user code does is a parameter: what a callback does, the callable of \<^verbatim>\<open>then\<close> and the function of \<^verbatim>\<open>let\<close> with what their types
  say, the sender of a scheduler, when and how inner operations complete. So are the system calls with their results and \<^verbatim>\<open>errno\<close>, the clock, \<^verbatim>\<open>poll\<close>, \<^verbatim>\<open>io_uring_enter\<close>, \<^verbatim>\<open>mmap\<close>
  and the addresses that \<^verbatim>\<open>new\<close> gives; the facets a locale holds; the virtual functions of a stream buffer;
  the characters of memory that was not written; what is assumed of them is named in the theorems, with a witness in which a concrete function satisfies it.

  \<^bold>\<open>Not modelled.\<close> \<^verbatim>\<open>net::scope\<close>, the executors and call wrappers, and the heaps \<^verbatim>\<open>f_heap\<close>,
  \<^verbatim>\<open>l_heap\<close>, \<^verbatim>\<open>r_heap\<close> and \<^verbatim>\<open>s_heap\<close>, which could become further instances of the locale. Of the iostreams: floating point conversion, which calls the C library, the
  facets for money, time and messages, locales themselves, and code conversion other than that of \<^verbatim>\<open>char\<close>. Left out on purpose:
  type traits and concepts, which have no run-time behaviour, tests and test drivers, examples and toys, the vendored SGI library and generated tables.
\<close>

end
